(* ===== verification/Prelude.thy ===== *)
theory Prelude
  imports Main "HOL-Library.Monad_Syntax"
begin

text \<open>
  Shared vocabulary of the development.

  \<^item> A computation that may stop the process has type \<open>'a option\<close>: \<^term>\<open>None\<close> stands for a
    failed \<open>assert\<close> / \<open>GGML_ASSERT\<close> / \<open>GGML_ABORT\<close>, for a container access outside its bounds and
    for signed overflow (undefined behaviour in C++). Operations are chained with the option monad.
  \<^item> \<open>ensure b\<close> is \<open>assert(b)\<close>; \<open>foldo\<close> is a \<open>for\<close> loop over a list of loop values whose body may
    stop the process.
  \<^item> \<open>int32_t\<close> values are integers; sums that could leave the type's range go through
    \<open>add_i32\<close> / \<open>sub_i32\<close>, which stop. \<open>uint32_t\<close> values are natural numbers; \<open>u32\<close> writes the
    wrap-around out where the code relies on unsigned arithmetic.
\<close>

section \<open>Named collections\<close>

named_theorems omap_laws \<open>the laws of the ordered map\<close>
named_theorems cells_frame \<open>what an operation on the cells leaves alone\<close>

section \<open>Aborting computations\<close>

definition ensure :: "bool \<Rightarrow> unit option" where
  "ensure b = (if b then Some () else None)"

lemma ensure_simps [simp]: "ensure True = Some ()" "ensure False = None"
  by (simp_all add: ensure_def)

lemma ensure_eq_Some [simp]: "ensure b = Some u \<longleftrightarrow> b"
  by (simp add: ensure_def)

lemma ensure_bind [simp]: "Option.bind (ensure b) f = (if b then f () else None)"
  by (simp add: ensure_def)

definition nth_opt :: "'a list \<Rightarrow> nat \<Rightarrow> 'a option" where
  "nth_opt xs i = (if i < length xs then Some (xs ! i) else None)"

lemma nth_opt_eq_Some [simp]: "nth_opt xs i = Some x \<longleftrightarrow> i < length xs \<and> xs ! i = x"
  by (auto simp: nth_opt_def)

lemma nth_opt_bind [simp]: "Option.bind (nth_opt xs i) f = (if i < length xs then f (xs ! i) else None)"
  by (simp add: nth_opt_def)

lemma nth_opt_Some: "i < length xs \<Longrightarrow> nth_opt xs i = Some (xs ! i)"
  by simp

primrec foldo :: "('a \<Rightarrow> 's \<Rightarrow> 's option) \<Rightarrow> 'a list \<Rightarrow> 's \<Rightarrow> 's option" where
  "foldo f [] s = Some s"
| "foldo f (x # xs) s = Option.bind (f x s) (foldo f xs)"

lemma foldo_append: "foldo f (xs @ ys) s = Option.bind (foldo f xs s) (foldo f ys)"
  by (induction xs arbitrary: s) (auto simp: Option.bind_eq_Some_conv split: Option.bind_splits)

lemma foldo_cong [fundef_cong]:
  "xs = ys \<Longrightarrow> s = t \<Longrightarrow> (\<And>x s. x \<in> set ys \<Longrightarrow> f x s = g x s) \<Longrightarrow> foldo f xs s = foldo g ys t"
proof -
  have "(\<And>x s. x \<in> set ys \<Longrightarrow> f x s = g x s) \<Longrightarrow> foldo f ys s = foldo g ys s" for s
    by (induction ys arbitrary: s) (auto split: Option.bind_splits)
  then show "xs = ys \<Longrightarrow> s = t \<Longrightarrow> (\<And>x s. x \<in> set ys \<Longrightarrow> f x s = g x s) \<Longrightarrow> foldo f xs s = foldo g ys t"
    by blast
qed

lemma foldo_over_map: "foldo f (map g xs) s = foldo (\<lambda>x. f (g x)) xs s"
  by (induction xs arbitrary: s) (auto split: Option.bind_splits)

lemma those_map_Some:
  "(\<And>x. x \<in> set xs \<Longrightarrow> f x = Some (g x)) \<Longrightarrow> those (map f xs) = Some (map g xs)"
  by (induction xs) auto

text \<open>Loop rules: an invariant over the loop values, or one indexed by the loop counter.\<close>

lemma foldo_invariant:
  assumes "P s" and "\<And>x s. x \<in> set xs \<Longrightarrow> P s \<Longrightarrow> \<exists>s'. f x s = Some s' \<and> P s'"
  shows "\<exists>s'. foldo f xs s = Some s' \<and> P s'"
  using assms
proof (induction xs arbitrary: s)
  case (Cons x xs)
  then obtain t where "f x s = Some t" "P t" by (metis list.set_intros(1))
  with Cons show ?case by (metis bind.bind_lunit foldo.simps(2) list.set_intros(2))
qed simp

lemma foldo_total: "(\<And>x s. x \<in> set xs \<Longrightarrow> \<exists>s'. f x s = Some s') \<Longrightarrow> \<exists>s'. foldo f xs s = Some s'"
  using foldo_invariant [of "\<lambda>_. True" s xs f] by auto

lemma foldo_keeps:
  assumes "foldo f xs s = Some s'" and "P s"
    and "\<And>x s s'. x \<in> set xs \<Longrightarrow> P s \<Longrightarrow> f x s = Some s' \<Longrightarrow> P s'"
  shows "P s'"
  using assms
proof (induction xs arbitrary: s)
  case (Cons x xs)
  from Cons.prems(1) obtain t where t: "f x s = Some t" "foldo f xs t = Some s'"
    by (auto simp: Option.bind_eq_Some_conv)
  have "P t" using Cons.prems(3) [OF _ Cons.prems(2) t(1)] by simp
  then show ?case using Cons.IH [OF t(2)] Cons.prems(3) by auto
qed simp

lemma foldo_upt_invariant:
  assumes "P 0 s" and "\<And>i s. i < n \<Longrightarrow> P i s \<Longrightarrow> \<exists>s'. f i s = Some s' \<and> P (Suc i) s'"
  shows "\<exists>s'. foldo f [0..<n] s = Some s' \<and> P n s'"
  using assms
proof (induction n)
  case (Suc n)
  from Suc.IH [OF Suc.prems(1)] Suc.prems(2) obtain t where "foldo f [0..<n] s = Some t" "P n t"
    by auto
  with Suc.prems(2) [of n t] show ?case by (auto simp: foldo_append)
qed simp

lemma foldo_upt_keeps:
  assumes "foldo f [0..<n] s = Some s'" and "P 0 s"
    and "\<And>i s s'. i < n \<Longrightarrow> P i s \<Longrightarrow> f i s = Some s' \<Longrightarrow> P (Suc i) s'"
  shows "P n s'"
  using assms
proof (induction n arbitrary: s')
  case (Suc n)
  from Suc.prems(1) obtain t where t: "foldo f [0..<n] s = Some t" "f n t = Some s'"
    by (auto simp: foldo_append Option.bind_eq_Some_conv)
  have "P n t" using Suc.IH [OF t(1) Suc.prems(2)] Suc.prems(3) by auto
  then show ?case using Suc.prems(3) [OF _ _ t(2)] by auto
qed simp

section \<open>Machine integers\<close>

definition INT32_MAX :: int where "INT32_MAX = 2147483647"
definition INT32_MIN :: int where "INT32_MIN = -2147483648"

definition is_i32 :: "int \<Rightarrow> bool" where
  "is_i32 x \<longleftrightarrow> INT32_MIN \<le> x \<and> x \<le> INT32_MAX"

definition add_i32 :: "int \<Rightarrow> int \<Rightarrow> int option" where
  "add_i32 a b = (if is_i32 (a + b) then Some (a + b) else None)"

definition sub_i32 :: "int \<Rightarrow> int \<Rightarrow> int option" where
  "sub_i32 a b = (if is_i32 (a - b) then Some (a - b) else None)"

definition u32 :: "nat \<Rightarrow> nat" where
  "u32 n = n mod 4294967296"

text \<open>C++ integer division truncates towards zero.\<close>

definition tdiv :: "int \<Rightarrow> int \<Rightarrow> int" where
  "tdiv a b = sgn a * sgn b * (\<bar>a\<bar> div \<bar>b\<bar>)"

lemmas i32_defs = is_i32_def INT32_MAX_def INT32_MIN_def

lemma add_i32_Some [simp]: "add_i32 a b = Some c \<longleftrightarrow> is_i32 (a + b) \<and> c = a + b"
  by (auto simp: add_i32_def)

lemma sub_i32_Some [simp]: "sub_i32 a b = Some c \<longleftrightarrow> is_i32 (a - b) \<and> c = a - b"
  by (auto simp: sub_i32_def)

lemma i32_bind [simp]:
  "Option.bind (add_i32 a b) f = (if is_i32 (a + b) then f (a + b) else None)"
  "Option.bind (sub_i32 a b) f = (if is_i32 (a - b) then f (a - b) else None)"
  by (simp_all add: add_i32_def sub_i32_def)

lemma u32_small [simp]: "n < 4294967296 \<Longrightarrow> u32 n = n"
  by (simp add: u32_def)

lemma tdiv_pos: "0 \<le> a \<Longrightarrow> 0 < b \<Longrightarrow> tdiv a b = a div b"
  by (cases "a = 0") (simp_all add: tdiv_def)

lemma int_div_le_self: "0 \<le> (a::int) \<Longrightarrow> 0 < b \<Longrightarrow> a div b \<le> a"
  using zdiv_mono2 [of a 1 b] by simp

lemma tdiv_bounds: "0 \<le> a \<Longrightarrow> 0 < b \<Longrightarrow> 0 \<le> tdiv a b \<and> tdiv a b \<le> a"
  by (simp add: tdiv_pos pos_imp_zdiv_nonneg_iff int_div_le_self)

section \<open>Vectors\<close>

text \<open>\<open>std::vector::resize(n)\<close>: truncate, or extend with copies of a default element.\<close>

definition vec_resize :: "nat \<Rightarrow> 'a \<Rightarrow> 'a list \<Rightarrow> 'a list" where
  "vec_resize n d xs = take n xs @ replicate (n - length xs) d"

lemma length_vec_resize [simp]: "length (vec_resize n d xs) = n"
  by (simp add: vec_resize_def)

lemma nth_upd: "j < length xs \<Longrightarrow> xs[i := x] ! j = (if i = j then x else xs ! j)"
  by (cases "i < length xs") (simp_all add: nth_list_update list_update_beyond)

lemma nth_concat_equal:
  assumes "\<forall>xs \<in> set xss. length xs = n" "j < length xss" "k < n"
  shows "concat xss ! (j * n + k) = xss ! j ! k"
  using assms
proof (induction xss arbitrary: j)
  case (Cons xs xss)
  then show ?case by (cases j) (auto simp: nth_append)
qed simp

end
