(* ===== verification/Ordered_Map.thy ===== *)
theory Ordered_Map
  imports Prelude
begin

text \<open>
  \<open>std::map\<close> as the code uses it: an association list kept strictly sorted by key, so that
  \<open>begin()\<close> is the smallest and \<open>rbegin()\<close> the largest key. The locale \<open>ordered_map\<close> states what a
  client may rely on (what \<open>find\<close> sees after an insertion or an erasure, and that the ends of the
  iteration are the extreme keys); the association list interprets it.
\<close>

section \<open>The interface\<close>

locale ordered_map =
  fixes empty :: "'m"
    and find :: "'m \<Rightarrow> 'k::linorder \<Rightarrow> 'v option"
    and put :: "'k \<Rightarrow> 'v \<Rightarrow> 'm \<Rightarrow> 'm"
    and erase :: "'k \<Rightarrow> 'm \<Rightarrow> 'm"
    and first_key :: "'m \<Rightarrow> 'k"
    and last_key :: "'m \<Rightarrow> 'k"
    and invar :: "'m \<Rightarrow> bool"
  assumes find_empty: "find empty k = None"
    and find_put: "invar m \<Longrightarrow> find (put k v m) = (find m)(k \<mapsto> v)"
    and find_erase: "invar m \<Longrightarrow> find (erase k m) = (find m)(k := None)"
    and invar_empty: "invar empty"
    and invar_put: "invar m \<Longrightarrow> invar (put k v m)"
    and invar_erase: "invar m \<Longrightarrow> invar (erase k m)"
    and find_eqI: "invar m \<Longrightarrow> invar m' \<Longrightarrow> find m = find m' \<Longrightarrow> m = m'"
    and first_key: "invar m \<Longrightarrow> m \<noteq> empty \<Longrightarrow>
          find m (first_key m) \<noteq> None \<and> (\<forall>k. find m k \<noteq> None \<longrightarrow> first_key m \<le> k)"
    and last_key: "invar m \<Longrightarrow> m \<noteq> empty \<Longrightarrow>
          find m (last_key m) \<noteq> None \<and> (\<forall>k. find m k \<noteq> None \<longrightarrow> k \<le> last_key m)"
begin

lemma empty_iff: "invar m \<Longrightarrow> m = empty \<longleftrightarrow> (\<forall>k. find m k = None)"
  using find_eqI [OF _ invar_empty] find_empty by (metis ext)

lemma put_commute:
  "invar m \<Longrightarrow> k \<noteq> l \<Longrightarrow> put k v (put l w m) = put l w (put k v m)"
  by (rule find_eqI) (auto simp: invar_put find_put fun_upd_twist)

lemma erase_put: "invar m \<Longrightarrow> find m k = None \<Longrightarrow> erase k (put k v m) = m"
  by (rule find_eqI) (auto simp: invar_put invar_erase find_put find_erase)

lemma key_bounds:
  "invar m \<Longrightarrow> find m k \<noteq> None \<Longrightarrow> first_key m \<le> k \<and> k \<le> last_key m"
  using first_key last_key empty_iff by metis

end

section \<open>Sorted association lists\<close>

type_synonym ('k, 'v) omap = "('k \<times> 'v) list"

fun om_find :: "('k::linorder, 'v) omap \<Rightarrow> 'k \<Rightarrow> 'v option" where
  "om_find [] k = None"
| "om_find ((l, v) # m) k = (if k = l then Some v else om_find m k)"

fun om_put :: "'k::linorder \<Rightarrow> 'v \<Rightarrow> ('k, 'v) omap \<Rightarrow> ('k, 'v) omap" where
  "om_put k v [] = [(k, v)]"
| "om_put k v ((l, w) # m) =
     (if k < l then (k, v) # (l, w) # m
      else if k = l then (k, v) # m
      else (l, w) # om_put k v m)"

fun om_erase :: "'k::linorder \<Rightarrow> ('k, 'v) omap \<Rightarrow> ('k, 'v) omap" where
  "om_erase k [] = []"
| "om_erase k ((l, w) # m) = (if k = l then m else (l, w) # om_erase k m)"

definition om_begin :: "('k, 'v) omap \<Rightarrow> 'k" where
  "om_begin m = fst (hd m)"

definition om_rbegin :: "('k, 'v) omap \<Rightarrow> 'k" where
  "om_rbegin m = fst (last m)"

fun om_ok :: "('k::linorder, 'v) omap \<Rightarrow> bool" where
  "om_ok [] = True"
| "om_ok ((k, v) # m) = ((\<forall>l \<in> fst ` set m. k < l) \<and> om_ok m)"

lemma om_find_notin: "k \<notin> fst ` set m \<Longrightarrow> om_find m k = None"
  by (induction m k rule: om_find.induct) auto

lemma om_find_dom: "om_find m k \<noteq> None \<longleftrightarrow> k \<in> fst ` set m"
  by (induction m k rule: om_find.induct) (auto split: if_splits)

lemma om_find_key_less: "om_find m k = Some v \<Longrightarrow> \<forall>x \<in> set m. a < fst x \<Longrightarrow> a < k"
  by (induction m k rule: om_find.induct) (auto split: if_splits)

lemma keys_om_put: "fst ` set (om_put k v m) = insert k (fst ` set m)"
  by (induction k v m rule: om_put.induct) auto

lemma keys_om_erase: "fst ` set (om_erase k m) \<subseteq> fst ` set m"
  by (induction k m rule: om_erase.induct) auto

lemma om_ok_put: "om_ok m \<Longrightarrow> om_ok (om_put k v m)"
  by (induction k v m rule: om_put.induct) (auto simp: keys_om_put)

lemma om_ok_erase: "om_ok m \<Longrightarrow> om_ok (om_erase k m)"
  by (induction k m rule: om_erase.induct) (use keys_om_erase in force)+

lemma om_find_put: "om_ok m \<Longrightarrow> om_find (om_put k v m) = (om_find m)(k \<mapsto> v)"
  by (induction k v m rule: om_put.induct) (auto simp: fun_eq_iff)

lemma om_find_erase: "om_ok m \<Longrightarrow> om_find (om_erase k m) = (om_find m)(k := None)"
  by (induction k m rule: om_erase.induct) (auto simp: fun_eq_iff intro!: om_find_notin)

lemma om_first_key:
  "om_ok m \<Longrightarrow> m \<noteq> [] \<Longrightarrow>
     om_find m (om_begin m) \<noteq> None \<and> (\<forall>k. om_find m k \<noteq> None \<longrightarrow> om_begin m \<le> k)"
  by (cases m) (auto simp: om_begin_def split: if_splits intro: less_imp_le [OF om_find_key_less])

lemma om_last_key:
  "om_ok m \<Longrightarrow> m \<noteq> [] \<Longrightarrow>
     om_find m (om_rbegin m) \<noteq> None \<and> (\<forall>k. om_find m k \<noteq> None \<longrightarrow> k \<le> om_rbegin m)"
proof (induction m)
  case (Cons x m)
  show ?case
  proof (cases "m = []")
    case True
    then show ?thesis by (cases x) (simp add: om_rbegin_def)
  next
    case False
    with Cons have IH: "om_find m (om_rbegin m) \<noteq> None" "\<forall>k. om_find m k \<noteq> None \<longrightarrow> k \<le> om_rbegin m"
      by (cases x, auto)+
    have "om_rbegin (x # m) = om_rbegin m" using False by (simp add: om_rbegin_def)
    moreover have "fst x < om_rbegin m"
      using Cons.prems IH(1) by (cases x) (auto intro: om_find_key_less)
    ultimately show ?thesis using IH by (cases x) auto
  qed
qed simp

lemma om_find_eqI: "om_ok m \<Longrightarrow> om_ok m' \<Longrightarrow> om_find m = om_find m' \<Longrightarrow> m = m'"
proof (induction m arbitrary: m')
  case Nil
  then have "om_find m' (om_begin m') = None" by (metis om_find.simps(1))
  then show ?case by (cases m') (auto simp: om_begin_def)
next
  case (Cons x m)
  then obtain y n where m': "m' = y # n"
    by (cases m'; cases x) (auto simp: fun_eq_iff split: if_splits)
  obtain k v where x: "x = (k, v)" by force
  obtain l w where y: "y = (l, w)" by force
  have "k = om_begin (x # m)" "l = om_begin m'" by (simp_all add: om_begin_def x y m')
  moreover have "om_begin (x # m) = om_begin m'"
  proof (rule antisym)
    show "om_begin (x # m) \<le> om_begin m'"
      using om_first_key [OF Cons.prems(1)] om_first_key [OF Cons.prems(2)]
      unfolding Cons.prems(3) m' by blast
    show "om_begin m' \<le> om_begin (x # m)"
      using om_first_key [OF Cons.prems(1)] om_first_key [OF Cons.prems(2)]
      unfolding Cons.prems(3) m' by blast
  qed
  ultimately have kl: "k = l" by simp
  have vw: "v = w" using fun_cong [OF Cons.prems(3), of k] by (simp add: x y m' kl)
  have "k \<notin> fst ` set m" "k \<notin> fst ` set n" using Cons.prems(1,2) by (auto simp: x y m' kl)
  then have none: "om_find m k = None" "om_find n k = None" by (simp_all add: om_find_notin)
  have "om_find m p = om_find n p" for p
    using fun_cong [OF Cons.prems(3), of p] none by (cases "p = k") (auto simp: x y m' kl)
  with Cons have "m = n" by (auto simp: x y m' fun_eq_iff)
  then show ?case by (simp add: x y m' kl vw)
qed

interpretation om: ordered_map "[]" om_find om_put om_erase om_begin om_rbegin om_ok
proof (unfold_locales, goal_cases)
  case 7
  then show ?case by (rule om_find_eqI)
next
  case 8
  then show ?case by (rule om_first_key)
next
  case 9
  then show ?case by (rule om_last_key)
qed (simp_all add: om_find_put om_find_erase om_ok_put om_ok_erase)

lemmas om_laws [omap_laws] =
  om.find_put om.find_erase om.invar_put om.invar_erase

end
