(* ===== verification/Kv_Cells.thy ===== *)
theory Kv_Cells
  imports Ordered_Map
begin

text \<open>
  The cells of a KV cache: the class \<open>llama_kv_cells\<close> of \<open>llama-kv-cells.h\<close>. A cell holds a
  position (\<open>-1\<close> when the cell is empty), an extra 2D position, the shift accumulated since the
  last \<open>reset_shift\<close> and the set of sequences that use it. The class caches two summaries, the set
  of used cells and, for every sequence, how often each position occurs; the invariant
  \<open>cells_inv\<close> ties them to the cells. An \<open>assert\<close> of the class is an \<open>ensure\<close> of the model.

  Each operation has a \<open>_spec\<close> lemma: under the conditions its callers establish it does not stop,
  keeps the invariant and rewrites exactly one cell of the table.
\<close>

section \<open>State\<close>

definition LLAMA_MAX_SEQ :: int where "LLAMA_MAX_SEQ = 256"

text \<open>\<open>std::bitset<LLAMA_MAX_SEQ>\<close>: a set of sequence ids; \<open>test\<close> and \<open>set\<close> throw outside the range.\<close>

type_synonym seq_set = "int set"

definition bs_test :: "seq_set \<Rightarrow> int \<Rightarrow> bool option" where
  "bs_test b s = (if 0 \<le> s \<and> s < LLAMA_MAX_SEQ then Some (s \<in> b) else None)"

record kv_cell_ext =
  ext_x :: int
  ext_y :: int

definition ext_zero :: kv_cell_ext where
  "ext_zero = \<lparr>ext_x = 0, ext_y = 0\<rparr>"

definition is_2d_gt :: "kv_cell_ext \<Rightarrow> int \<Rightarrow> int \<Rightarrow> bool" where
  "is_2d_gt e ox oy \<longleftrightarrow> ext_y e > oy \<or> (ext_y e = oy \<and> ext_x e > ox)"

record kv_cells =
  c_has_shift :: bool
  c_used :: "nat set"
  c_pos :: "int list"
  c_ext :: "kv_cell_ext list"
  c_shift :: "int list"
  c_seq :: "seq_set list"
  c_seq_pos :: "int \<Rightarrow> (int, int) omap"

definition cells_empty :: kv_cells where
  "cells_empty = \<lparr>c_has_shift = False, c_used = {}, c_pos = [], c_ext = [], c_shift = [],
     c_seq = [], c_seq_pos = (\<lambda>_. [])\<rparr>"

section \<open>Operations\<close>

subsection \<open>Helpers that keep the position counts\<close>

definition seq_pos_dec :: "int \<Rightarrow> int \<Rightarrow> kv_cells \<Rightarrow> kv_cells option" where
  "seq_pos_dec s p c =
     (case om_find (c_seq_pos c s) p of
        None \<Rightarrow> None
      | Some n \<Rightarrow>
          Some (c\<lparr>c_seq_pos := (c_seq_pos c)(s :=
            (if n - 1 = 0 then om_erase p (c_seq_pos c s)
             else om_put p (n - 1) (c_seq_pos c s)))\<rparr>))"

definition seq_pos_inc :: "int \<Rightarrow> int \<Rightarrow> kv_cells \<Rightarrow> kv_cells" where
  "seq_pos_inc s p c =
     c\<lparr>c_seq_pos := (c_seq_pos c)(s :=
       om_put p (case om_find (c_seq_pos c s) p of None \<Rightarrow> 1 | Some n \<Rightarrow> n + 1) (c_seq_pos c s))\<rparr>"

definition seq_pos_rm :: "nat \<Rightarrow> kv_cells \<Rightarrow> kv_cells option" where
  "seq_pos_rm i c =
     foldo (\<lambda>s c. if s \<in> c_seq c ! i then seq_pos_dec s (c_pos c ! i) c else Some c)
       [0..LLAMA_MAX_SEQ - 1] c"

definition seq_pos_add :: "nat \<Rightarrow> kv_cells \<Rightarrow> kv_cells" where
  "seq_pos_add i c =
     fold (\<lambda>s c. if s \<in> c_seq c ! i then seq_pos_inc s (c_pos c ! i) c else c)
       [0..LLAMA_MAX_SEQ - 1] c"

subsection \<open>Whole-table operations\<close>

definition cells_reset :: "kv_cells \<Rightarrow> kv_cells" where
  "cells_reset c =
     c\<lparr>c_pos := map (\<lambda>_. -1) (c_pos c),
       c_ext := map (\<lambda>_. ext_zero) (c_ext c),
       c_shift := map (\<lambda>_. 0) (c_shift c),
       c_seq := map (\<lambda>_. {}) (c_seq c),
       c_has_shift := False,
       c_used := {},
       c_seq_pos := (\<lambda>_. [])\<rparr>"

definition reset_shift :: "kv_cells \<Rightarrow> kv_cells" where
  "reset_shift c = c\<lparr>c_has_shift := False, c_shift := map (\<lambda>_. 0) (c_shift c)\<rparr>"

definition cells_size :: "kv_cells \<Rightarrow> nat" where
  "cells_size c = length (c_pos c)"

definition cells_resize :: "nat \<Rightarrow> kv_cells \<Rightarrow> kv_cells" where
  "cells_resize n c =
     cells_reset (c\<lparr>c_pos := vec_resize n 0 (c_pos c),
                    c_ext := vec_resize n ext_zero (c_ext c),
                    c_shift := vec_resize n 0 (c_shift c),
                    c_seq := vec_resize n {} (c_seq c)\<rparr>)"

definition is_empty :: "nat \<Rightarrow> kv_cells \<Rightarrow> bool option" where
  "is_empty i c = do {
     ensure (i < cells_size c);
     ensure ((c_pos c ! i < 0 \<and> c_pos c ! i = -1) \<or> c_pos c ! i \<ge> 0);
     Some (c_pos c ! i = -1) }"

definition get_used :: "kv_cells \<Rightarrow> nat" where
  "get_used c = card (c_used c)"

definition used_min :: "kv_cells \<Rightarrow> nat" where
  "used_min c = (if c_used c = {} then 0 else Min (c_used c))"

definition used_max_p1 :: "kv_cells \<Rightarrow> nat" where
  "used_max_p1 c = (if c_used c = {} then 0 else Max (c_used c) + 1)"

definition get_has_shift :: "kv_cells \<Rightarrow> bool" where
  "get_has_shift c = c_has_shift c"

subsection \<open>Saving and restoring cells\<close>

definition cells_cp_at :: "kv_cells \<Rightarrow> nat \<Rightarrow> nat \<Rightarrow> kv_cells \<Rightarrow> kv_cells option" where
  "cells_cp_at c idx j res = do {
     ensure (idx < cells_size c);
     ensure (c_shift c ! idx = 0);
     Some (res\<lparr>c_pos := (c_pos res)[j := c_pos c ! idx],
               c_ext := (c_ext res)[j := c_ext c ! idx],
               c_seq := (c_seq res)[j := c_seq c ! idx]\<rparr>) }"

definition cells_cp_range :: "nat \<Rightarrow> nat \<Rightarrow> kv_cells \<Rightarrow> kv_cells option" where
  "cells_cp_range i n c = do {
     ensure (i + n \<le> cells_size c);
     foldo (\<lambda>j res. cells_cp_at c (i + j) j res) [0..<n] (cells_resize n cells_empty) }"

definition cells_cp :: "nat list \<Rightarrow> kv_cells \<Rightarrow> kv_cells option" where
  "cells_cp idxs c =
     foldo (\<lambda>j res. cells_cp_at c (idxs ! j) j res) [0..<length idxs]
       (cells_resize (length idxs) cells_empty)"

definition cells_set_at :: "kv_cells \<Rightarrow> nat \<Rightarrow> nat \<Rightarrow> kv_cells \<Rightarrow> kv_cells option" where
  "cells_set_at other idx j c0 = do {
     ensure (idx < cells_size c0);
     let c1 = (if c_pos c0 ! idx = -1 \<and> c_pos other ! j \<noteq> -1
               then c0\<lparr>c_used := insert idx (c_used c0)\<rparr> else c0);
     let c2 = (if c_pos c1 ! idx \<noteq> -1 \<and> c_pos other ! j = -1
               then c1\<lparr>c_used := c_used c1 - {idx}\<rparr> else c1);
     c3 \<leftarrow> (if c_pos c2 ! idx \<noteq> -1 then seq_pos_rm idx c2 else Some c2);
     let c4 = c3\<lparr>c_pos := (c_pos c3)[idx := c_pos other ! j],
                 c_ext := (c_ext c3)[idx := c_ext other ! j],
                 c_seq := (c_seq c3)[idx := c_seq other ! j]\<rparr>;
     let c5 = (if c_pos c4 ! idx \<noteq> -1 then seq_pos_add idx c4 else c4);
     ensure (c_shift c5 ! idx = 0);
     Some c5 }"

definition cells_set_range :: "nat \<Rightarrow> kv_cells \<Rightarrow> kv_cells \<Rightarrow> kv_cells option" where
  "cells_set_range i other c = do {
     ensure (i + cells_size other \<le> cells_size c);
     foldo (\<lambda>j c. cells_set_at other (i + j) j c) [0..<cells_size other] c }"

definition cells_set :: "nat list \<Rightarrow> kv_cells \<Rightarrow> kv_cells \<Rightarrow> kv_cells option" where
  "cells_set idxs other c = do {
     ensure (length idxs = cells_size other);
     foldo (\<lambda>j c. cells_set_at other (idxs ! j) j c) [0..<cells_size other] c }"

subsection \<open>Operations on one cell\<close>

text \<open>\<open>pos[i] = -1; ext[i].reset(); shift[i] = 0; used.erase(i)\<close>, the tail of three operations.\<close>

definition clear_cell :: "nat \<Rightarrow> kv_cells \<Rightarrow> kv_cells" where
  "clear_cell i c =
     c\<lparr>c_pos := (c_pos c)[i := -1], c_ext := (c_ext c)[i := ext_zero],
       c_shift := (c_shift c)[i := 0], c_used := c_used c - {i}\<rparr>"

definition cells_rm :: "nat \<Rightarrow> kv_cells \<Rightarrow> kv_cells option" where
  "cells_rm i c = do {
     ensure (i < cells_size c);
     ensure (c_pos c ! i \<noteq> -1);
     c \<leftarrow> seq_pos_rm i c;
     Some (clear_cell i (c\<lparr>c_seq := (c_seq c)[i := {}]\<rparr>)) }"

definition cells_seq_rm :: "nat \<Rightarrow> int \<Rightarrow> kv_cells \<Rightarrow> (bool \<times> kv_cells) option" where
  "cells_seq_rm i seq_id c = do {
     ensure (i < cells_size c);
     t \<leftarrow> bs_test (c_seq c ! i) seq_id;
     ensure t;
     ensure (c_pos c ! i \<noteq> -1);
     ensure (seq_id \<ge> 0);
     c \<leftarrow> seq_pos_dec seq_id (c_pos c ! i) (c\<lparr>c_seq := (c_seq c)[i := c_seq c ! i - {seq_id}]\<rparr>);
     (if c_seq c ! i = {} then Some (True, clear_cell i c) else Some (False, c)) }"

definition cells_seq_keep :: "nat \<Rightarrow> int \<Rightarrow> kv_cells \<Rightarrow> (bool \<times> kv_cells) option" where
  "cells_seq_keep i seq_id c = do {
     ensure (i < cells_size c);
     t \<leftarrow> bs_test (c_seq c ! i) seq_id;
     (if t then do {
        c \<leftarrow> seq_pos_rm i c;
        let c = c\<lparr>c_seq := (c_seq c)[i := {seq_id}]\<rparr>;
        Some (False, seq_pos_inc seq_id (c_pos c ! i) c) }
      else if c_seq c ! i \<noteq> {} then do {
        c \<leftarrow> seq_pos_rm i c;
        Some (True, clear_cell i (c\<lparr>c_seq := (c_seq c)[i := {}]\<rparr>)) }
      else do {
        ensure (c_pos c ! i = -1);
        Some (False, c) }) }"

definition seq_count :: "nat \<Rightarrow> kv_cells \<Rightarrow> nat option" where
  "seq_count i c = do {
     ensure (i < cells_size c);
     ensure (c_pos c ! i \<noteq> -1);
     Some (card (c_seq c ! i)) }"

definition seq_has :: "nat \<Rightarrow> int \<Rightarrow> kv_cells \<Rightarrow> bool option" where
  "seq_has i seq_id c = do {
     ensure (i < cells_size c);
     ensure (seq_id \<ge> 0);
     bs_test (c_seq c ! i) seq_id }"

definition cells_seq_add :: "nat \<Rightarrow> int \<Rightarrow> kv_cells \<Rightarrow> kv_cells option" where
  "cells_seq_add i seq_id c = do {
     ensure (i < cells_size c);
     ensure (c_pos c ! i \<noteq> -1);
     t \<leftarrow> bs_test (c_seq c ! i) seq_id;
     ensure (\<not> t);
     let c = c\<lparr>c_seq := (c_seq c)[i := insert seq_id (c_seq c ! i)]\<rparr>;
     Some (seq_pos_inc seq_id (c_pos c ! i) c) }"

definition seq_get :: "nat \<Rightarrow> kv_cells \<Rightarrow> int option" where
  "seq_get i c = do {
     ensure (i < cells_size c);
     ensure (card (c_seq c ! i) = 1);
     Some (case find (\<lambda>s. s \<in> c_seq c ! i) [0..LLAMA_MAX_SEQ - 1] of
             Some s \<Rightarrow> s | None \<Rightarrow> -1) }"

definition cells_seq_pos_min :: "int \<Rightarrow> kv_cells \<Rightarrow> int option" where
  "cells_seq_pos_min seq_id c = do {
     ensure (seq_id \<ge> 0);
     ensure (seq_id < LLAMA_MAX_SEQ);
     (if c_seq_pos c seq_id = [] then Some (-1)
      else do {
        ensure (snd (hd (c_seq_pos c seq_id)) > 0);
        Some (om_begin (c_seq_pos c seq_id)) }) }"

definition cells_seq_pos_max :: "int \<Rightarrow> kv_cells \<Rightarrow> int option" where
  "cells_seq_pos_max seq_id c = do {
     ensure (seq_id \<ge> 0);
     ensure (seq_id < LLAMA_MAX_SEQ);
     (if c_seq_pos c seq_id = [] then Some (-1)
      else do {
        ensure (snd (last (c_seq_pos c seq_id)) > 0);
        Some (om_rbegin (c_seq_pos c seq_id)) }) }"

definition pos_get :: "nat \<Rightarrow> kv_cells \<Rightarrow> int option" where
  "pos_get i c = do {
     ensure (i < cells_size c);
     ensure (c_pos c ! i \<noteq> -1);
     Some (c_pos c ! i) }"

definition ext_get :: "nat \<Rightarrow> kv_cells \<Rightarrow> kv_cell_ext option" where
  "ext_get i c = do {
     ensure (i < cells_size c);
     ensure (c_pos c ! i \<noteq> -1);
     Some (c_ext c ! i) }"

definition get_shift :: "nat \<Rightarrow> kv_cells \<Rightarrow> int option" where
  "get_shift i c = do {
     ensure (i < cells_size c);
     ensure (c_pos c ! i \<noteq> -1);
     Some (c_shift c ! i) }"

definition pos_in :: "nat \<Rightarrow> int \<Rightarrow> int \<Rightarrow> kv_cells \<Rightarrow> bool option" where
  "pos_in i p0 p1 c = do {
     ensure (i < cells_size c);
     Some (c_pos c ! i \<ge> p0 \<and> c_pos c ! i < p1) }"

definition pos_set :: "nat \<Rightarrow> int \<Rightarrow> kv_cells \<Rightarrow> kv_cells option" where
  "pos_set i p c = do {
     ensure (i < cells_size c);
     ensure (c_pos c ! i = -1);
     ensure (c_seq c ! i = {});
     Some (c\<lparr>c_pos := (c_pos c)[i := p], c_used := insert i (c_used c)\<rparr>) }"

definition ext_set :: "nat \<Rightarrow> kv_cell_ext \<Rightarrow> kv_cells \<Rightarrow> kv_cells option" where
  "ext_set i p c = do {
     ensure (i < length (c_ext c));
     Some (c\<lparr>c_ext := (c_ext c)[i := p]\<rparr>) }"

definition pos_add :: "nat \<Rightarrow> int \<Rightarrow> kv_cells \<Rightarrow> (bool \<times> kv_cells) option" where
  "pos_add i d c = do {
     ensure (i < cells_size c);
     ensure (c_pos c ! i \<noteq> -1);
     c \<leftarrow> seq_pos_rm i c;
     p \<leftarrow> add_i32 (c_pos c ! i) d;
     h \<leftarrow> add_i32 (c_shift c ! i) d;
     let c = c\<lparr>c_pos := (c_pos c)[i := p], c_shift := (c_shift c)[i := h], c_has_shift := True\<rparr>;
     (if c_pos c ! i < 0
      then Some (True, c\<lparr>c_seq := (c_seq c)[i := {}], c_pos := (c_pos c)[i := -1],
                         c_shift := (c_shift c)[i := 0], c_used := c_used c - {i}\<rparr>)
      else Some (False, seq_pos_add i c)) }"

definition pos_div :: "nat \<Rightarrow> int \<Rightarrow> kv_cells \<Rightarrow> kv_cells option" where
  "pos_div i d c = do {
     ensure (i < cells_size c);
     ensure (c_pos c ! i \<noteq> -1);
     ensure (d \<noteq> 0);
     let p_old = c_pos c ! i;
     c \<leftarrow> seq_pos_rm i c;
     let c = c\<lparr>c_pos := (c_pos c)[i := tdiv (c_pos c ! i) d]\<rparr>;
     e \<leftarrow> sub_i32 p_old (c_pos c ! i);
     h \<leftarrow> add_i32 (c_shift c ! i) e;
     let c = c\<lparr>c_shift := (c_shift c)[i := h]\<rparr>;
     Some ((seq_pos_add i c)\<lparr>c_has_shift := True\<rparr>) }"

section \<open>The invariant\<close>

text \<open>
  \<open>counts m N\<close>: the ordered map \<open>m\<close> holds exactly the keys with a positive count, each with its
  count. \<open>seq_pos_ok c X\<close>: the position maps count the cells of the index set \<open>X\<close>; between
  \<open>seq_pos_rm(i)\<close> and \<open>seq_pos_add(i)\<close> the code works with \<open>X\<close> lacking \<open>i\<close>.
\<close>

definition counts :: "(int, int) omap \<Rightarrow> (int \<Rightarrow> nat) \<Rightarrow> bool" where
  "counts m N \<longleftrightarrow> om_ok m \<and> (\<forall>p. om_find m p = (if N p = 0 then None else Some (int (N p))))"

definition seq_cells :: "kv_cells \<Rightarrow> nat set \<Rightarrow> int \<Rightarrow> int \<Rightarrow> nat set" where
  "seq_cells c X s p = {i \<in> X. s \<in> c_seq c ! i \<and> c_pos c ! i = p}"

definition seq_pos_ok :: "kv_cells \<Rightarrow> nat set \<Rightarrow> bool" where
  "seq_pos_ok c X \<longleftrightarrow> (\<forall>s. counts (c_seq_pos c s) (\<lambda>p. card (seq_cells c X s p)))"

definition cell_ok :: "int \<Rightarrow> int \<Rightarrow> seq_set \<Rightarrow> bool" where
  "cell_ok p h b \<longleftrightarrow> -1 \<le> p \<and> p \<le> INT32_MAX \<and> b \<subseteq> {0..<LLAMA_MAX_SEQ} \<and>
     (p = -1 \<longrightarrow> b = {} \<and> h = 0)"

definition cells_wf :: "kv_cells \<Rightarrow> bool" where
  "cells_wf c \<longleftrightarrow>
     length (c_ext c) = cells_size c \<and> length (c_shift c) = cells_size c \<and>
     length (c_seq c) = cells_size c \<and>
     (\<forall>i < cells_size c. cell_ok (c_pos c ! i) (c_shift c ! i) (c_seq c ! i)) \<and>
     c_used c = {i. i < cells_size c \<and> c_pos c ! i \<noteq> -1} \<and>
     (\<not> c_has_shift c \<longrightarrow> (\<forall>i < cells_size c. c_shift c ! i = 0))"

definition cells_inv :: "kv_cells \<Rightarrow> bool" where
  "cells_inv c \<longleftrightarrow> cells_wf c \<and> seq_pos_ok c {..<cells_size c}"

subsection \<open>Counting maps\<close>

definition dec_map :: "int \<Rightarrow> (int, int) omap \<Rightarrow> (int, int) omap" where
  "dec_map p m = (case om_find m p of None \<Rightarrow> m
     | Some n \<Rightarrow> if n - 1 = 0 then om_erase p m else om_put p (n - 1) m)"

definition inc_map :: "int \<Rightarrow> (int, int) omap \<Rightarrow> (int, int) omap" where
  "inc_map p m = om_put p (case om_find m p of None \<Rightarrow> 1 | Some n \<Rightarrow> n + 1) m"

lemma counts_empty: "counts [] (\<lambda>_. 0)"
  by (simp add: counts_def)

lemma counts_unique: "counts m N \<Longrightarrow> counts m' N \<Longrightarrow> m = m'"
  by (rule om.find_eqI) (auto simp: counts_def fun_eq_iff)

lemma counts_find: "counts m N \<Longrightarrow> om_find m p \<noteq> None \<longleftrightarrow> 0 < N p"
  by (simp add: counts_def)

lemma counts_dec: "counts m N \<Longrightarrow> 0 < N p \<Longrightarrow> counts (dec_map p m) (N(p := N p - 1))"
  by (auto simp: counts_def dec_map_def om.find_erase om.find_put om.invar_erase om.invar_put)

lemma counts_inc: "counts m N \<Longrightarrow> counts (inc_map p m) (N(p := Suc (N p)))"
  by (auto simp: counts_def inc_map_def om.find_put om.invar_put)

lemma counts_eq_empty: "counts m N \<Longrightarrow> m = [] \<longleftrightarrow> (\<forall>p. N p = 0)"
  using om.empty_iff [of m] by (auto simp: counts_def)

lemma counts_begin: "counts m N \<Longrightarrow> m \<noteq> [] \<Longrightarrow> 0 < N (om_begin m) \<and> (\<forall>p. 0 < N p \<longrightarrow> om_begin m \<le> p)"
  using om.first_key [of m] counts_find [of m N] by (auto simp: counts_def)

lemma counts_rbegin: "counts m N \<Longrightarrow> m \<noteq> [] \<Longrightarrow> 0 < N (om_rbegin m) \<and> (\<forall>p. 0 < N p \<longrightarrow> p \<le> om_rbegin m)"
  using om.last_key [of m] counts_find [of m N] by (auto simp: counts_def)

lemma om_entry: "om_ok m \<Longrightarrow> (k, v) \<in> set m \<Longrightarrow> om_find m k = Some v"
  by (induction m k rule: om_find.induct) force+

lemma counts_entries: "counts m N \<Longrightarrow> (p, n) \<in> set m \<Longrightarrow> 0 < n"
  using om_entry [of m p n] by (auto simp: counts_def split: if_splits)

subsection \<open>The loops over the sequence ids\<close>

lemma seq_pos_dec_eq:
  "om_find (c_seq_pos c s) p \<noteq> None \<Longrightarrow>
     seq_pos_dec s p c = Some (c\<lparr>c_seq_pos := (c_seq_pos c)(s := dec_map p (c_seq_pos c s))\<rparr>)"
  by (auto simp: seq_pos_dec_def dec_map_def)

lemma seq_pos_inc_eq:
  "seq_pos_inc s p c = c\<lparr>c_seq_pos := (c_seq_pos c)(s := inc_map p (c_seq_pos c s))\<rparr>"
  by (simp add: seq_pos_inc_def inc_map_def)

lemma seq_pos_rm_loop:
  assumes "distinct ss" "\<forall>s \<in> set ss \<inter> c_seq c ! i. om_find (c_seq_pos c s) (c_pos c ! i) \<noteq> None"
  shows "foldo (\<lambda>s c. if s \<in> c_seq c ! i then seq_pos_dec s (c_pos c ! i) c else Some c) ss c =
     Some (c\<lparr>c_seq_pos := (\<lambda>s. if s \<in> set ss \<inter> c_seq c ! i then dec_map (c_pos c ! i) (c_seq_pos c s)
                               else c_seq_pos c s)\<rparr>)"
  using assms
proof (induction ss arbitrary: c)
  case (Cons s ss)
  let ?d = "if s \<in> c_seq c ! i
            then c\<lparr>c_seq_pos := (c_seq_pos c)(s := dec_map (c_pos c ! i) (c_seq_pos c s))\<rparr> else c"
  have step: "(if s \<in> c_seq c ! i then seq_pos_dec s (c_pos c ! i) c else Some c) = Some ?d"
    using Cons.prems(2) by (simp add: seq_pos_dec_eq)
  have "\<forall>t \<in> set ss \<inter> c_seq ?d ! i. om_find (c_seq_pos ?d t) (c_pos ?d ! i) \<noteq> None"
    using Cons.prems by auto
  from Cons.IH [OF _ this] Cons.prems(1)
  show ?case unfolding foldo.simps step by (auto simp: fun_eq_iff)
qed simp

lemma seq_pos_add_loop:
  assumes "distinct ss"
  shows "fold (\<lambda>s c. if s \<in> c_seq c ! i then seq_pos_inc s (c_pos c ! i) c else c) ss c =
     c\<lparr>c_seq_pos := (\<lambda>s. if s \<in> set ss \<inter> c_seq c ! i then inc_map (c_pos c ! i) (c_seq_pos c s)
                          else c_seq_pos c s)\<rparr>"
  using assms
proof (induction ss arbitrary: c)
  case (Cons s ss)
  let ?d = "if s \<in> c_seq c ! i then seq_pos_inc s (c_pos c ! i) c else c"
  from Cons.IH [of ?d] Cons.prems show ?case by (auto simp: seq_pos_inc_eq fun_eq_iff)
qed simp

lemma seq_pos_rm_eq:
  assumes "c_seq c ! i \<subseteq> {0..<LLAMA_MAX_SEQ}"
    and "\<forall>s \<in> c_seq c ! i. om_find (c_seq_pos c s) (c_pos c ! i) \<noteq> None"
  shows "seq_pos_rm i c =
     Some (c\<lparr>c_seq_pos := (\<lambda>s. if s \<in> c_seq c ! i then dec_map (c_pos c ! i) (c_seq_pos c s)
                               else c_seq_pos c s)\<rparr>)"
proof -
  have "set [0..LLAMA_MAX_SEQ - 1] \<inter> c_seq c ! i = c_seq c ! i" using assms(1) by auto
  then show ?thesis
    using seq_pos_rm_loop [of "[0..LLAMA_MAX_SEQ - 1]" c i] assms(2) by (simp add: seq_pos_rm_def)
qed

lemma seq_pos_add_eq:
  assumes "c_seq c ! i \<subseteq> {0..<LLAMA_MAX_SEQ}"
  shows "seq_pos_add i c =
     c\<lparr>c_seq_pos := (\<lambda>s. if s \<in> c_seq c ! i then inc_map (c_pos c ! i) (c_seq_pos c s)
                          else c_seq_pos c s)\<rparr>"
proof -
  have "set [0..LLAMA_MAX_SEQ - 1] \<inter> c_seq c ! i = c_seq c ! i" using assms(1) by auto
  then show ?thesis
    using seq_pos_add_loop [of "[0..LLAMA_MAX_SEQ - 1]" i c] by (simp add: seq_pos_add_def)
qed

lemma seq_pos_add_frame [simp]:
  "c_pos (seq_pos_add i c) = c_pos c" "c_ext (seq_pos_add i c) = c_ext c"
  "c_shift (seq_pos_add i c) = c_shift c" "c_seq (seq_pos_add i c) = c_seq c"
  "c_used (seq_pos_add i c) = c_used c" "c_has_shift (seq_pos_add i c) = c_has_shift c"
  by (simp_all add: seq_pos_add_def seq_pos_add_loop)

lemma seq_pos_add_counts:
  "c_seq c ! i \<subseteq> {0..<LLAMA_MAX_SEQ} \<Longrightarrow> c_seq_pos (seq_pos_add i c) =
     (\<lambda>s. if s \<in> c_seq c ! i then inc_map (c_pos c ! i) (c_seq_pos c s) else c_seq_pos c s)"
  by (simp add: seq_pos_add_eq)

subsection \<open>Moving one cell out of and into the counts\<close>

lemma finite_seq_cells [simp]: "finite X \<Longrightarrow> finite (seq_cells c X s p)"
  by (simp add: seq_cells_def)

lemma seq_cells_remove:
  "seq_cells c (X - {i}) s p = seq_cells c X s p - {i}"
  by (auto simp: seq_cells_def)

lemma seq_cells_insert:
  "seq_cells c (insert i X) s p =
     (if s \<in> c_seq c ! i \<and> c_pos c ! i = p then insert i (seq_cells c X s p) else seq_cells c X s p)"
  by (auto simp: seq_cells_def)

lemma seq_pos_ok_cong:
  assumes "c_seq_pos c' = c_seq_pos c"
    and "\<And>j. j \<in> X \<Longrightarrow> c_seq c' ! j = c_seq c ! j" "\<And>j. j \<in> X \<Longrightarrow> c_pos c' ! j = c_pos c ! j"
  shows "seq_pos_ok c' X = seq_pos_ok c X"
proof -
  have "seq_cells c' X s p = seq_cells c X s p" for s p using assms(2,3) by (auto simp: seq_cells_def)
  then show ?thesis by (simp add: seq_pos_ok_def assms(1))
qed

lemma seq_pos_ok_dec:
  assumes "seq_pos_ok c X" "finite X" "i \<in> X"
    and seq: "c_seq c ! i = B" and pos: "c_pos c ! i = p"
    and sp: "c_seq_pos c' = (\<lambda>s. if s \<in> B then dec_map p (c_seq_pos c s) else c_seq_pos c s)"
    and same: "\<And>j. j \<in> X - {i} \<Longrightarrow> c_seq c' ! j = c_seq c ! j" "\<And>j. j \<in> X - {i} \<Longrightarrow> c_pos c' ! j = c_pos c ! j"
  shows "seq_pos_ok c' (X - {i})"
  unfolding seq_pos_ok_def
proof
  fix s
  have same': "seq_cells c' (X - {i}) t q = seq_cells c (X - {i}) t q" for t q
    using same by (auto simp: seq_cells_def)
  have cnt: "counts (c_seq_pos c s) (\<lambda>q. card (seq_cells c X s q))"
    using assms(1) by (simp add: seq_pos_ok_def)
  show "counts (c_seq_pos c' s) (\<lambda>q. card (seq_cells c' (X - {i}) s q))"
  proof (cases "s \<in> B")
    case True
    then have i: "i \<in> seq_cells c X s p" using assms(3) seq pos by (simp add: seq_cells_def)
    then have "0 < card (seq_cells c X s p)" using assms(2) by (auto simp: card_gt_0_iff)
    from counts_dec [OF cnt this]
    have "counts (dec_map p (c_seq_pos c s))
      ((\<lambda>q. card (seq_cells c X s q))(p := card (seq_cells c X s p) - 1))" .
    moreover have "i \<notin> seq_cells c X s q" if "q \<noteq> p" for q using that pos by (simp add: seq_cells_def)
    then have "(\<lambda>q. card (seq_cells c X s q))(p := card (seq_cells c X s p) - 1) =
        (\<lambda>q. card (seq_cells c (X - {i}) s q))"
      using i assms(2) by (auto simp: seq_cells_remove fun_eq_iff)
    ultimately show ?thesis using True by (simp add: sp same')
  next
    case False
    then have "seq_cells c (X - {i}) s q = seq_cells c X s q" for q
      using seq by (auto simp: seq_cells_def)
    with False cnt show ?thesis by (simp add: sp same')
  qed
qed

lemma seq_pos_ok_inc:
  assumes "seq_pos_ok c X" "finite X" "i \<notin> X"
    and seq: "c_seq c' ! i = B" and pos: "c_pos c' ! i = p"
    and sp: "c_seq_pos c' = (\<lambda>s. if s \<in> B then inc_map p (c_seq_pos c s) else c_seq_pos c s)"
    and same: "\<And>j. j \<in> X \<Longrightarrow> c_seq c' ! j = c_seq c ! j" "\<And>j. j \<in> X \<Longrightarrow> c_pos c' ! j = c_pos c ! j"
  shows "seq_pos_ok c' (insert i X)"
  unfolding seq_pos_ok_def
proof
  fix s
  have same': "seq_cells c' X t q = seq_cells c X t q" for t q using same by (auto simp: seq_cells_def)
  have notin: "i \<notin> seq_cells c X t q" for t q using assms(3) by (auto simp: seq_cells_def)
  have cnt: "counts (c_seq_pos c s) (\<lambda>q. card (seq_cells c X s q))"
    using assms(1) by (simp add: seq_pos_ok_def)
  show "counts (c_seq_pos c' s) (\<lambda>q. card (seq_cells c' (insert i X) s q))"
  proof (cases "s \<in> B")
    case True
    have "(\<lambda>q. card (seq_cells c' (insert i X) s q)) =
        (\<lambda>q. card (seq_cells c X s q))(p := Suc (card (seq_cells c X s p)))"
      using True seq pos assms(2) notin by (auto simp: seq_cells_insert same' fun_eq_iff)
    with counts_inc [OF cnt] True show ?thesis by (simp add: sp)
  next
    case False
    with seq have "seq_cells c' (insert i X) s q = seq_cells c X s q" for q
      by (simp add: seq_cells_insert same')
    with False cnt show ?thesis by (simp add: sp)
  qed
qed

text \<open>One sequence leaves, or joins, a cell that stays in the counts.\<close>

lemma seq_pos_ok_dec1:
  assumes "seq_pos_ok c X" "finite X" "i \<in> X" and s0: "s0 \<in> c_seq c ! i"
    and c': "c_seq c' ! i = c_seq c ! i - {s0}" "c_pos c' = c_pos c"
      "c_seq_pos c' = (c_seq_pos c)(s0 := dec_map (c_pos c ! i) (c_seq_pos c s0))"
      "\<And>j. j \<in> X - {i} \<Longrightarrow> c_seq c' ! j = c_seq c ! j"
  shows "seq_pos_ok c' X"
  unfolding seq_pos_ok_def
proof
  fix s
  let ?p = "c_pos c ! i"
  have cnt: "counts (c_seq_pos c s) (\<lambda>q. card (seq_cells c X s q))"
    using assms(1) by (simp add: seq_pos_ok_def)
  have cells: "seq_cells c' X s q = (if s = s0 then seq_cells c X s q - {i} else seq_cells c X s q)" for q
  proof -
    have "j \<in> seq_cells c' X s q \<longleftrightarrow> j \<in> (if s = s0 then seq_cells c X s q - {i} else seq_cells c X s q)" for j
      using c'(1,2,4) by (cases "j = i") (auto simp: seq_cells_def)
    then show ?thesis by blast
  qed
  show "counts (c_seq_pos c' s) (\<lambda>q. card (seq_cells c' X s q))"
  proof (cases "s = s0")
    case True
    have i: "i \<in> seq_cells c X s ?p" using assms(3) s0 True by (simp add: seq_cells_def)
    then have "0 < card (seq_cells c X s ?p)" using assms(2) by (auto simp: card_gt_0_iff)
    note dec = counts_dec [OF cnt this]
    have "i \<notin> seq_cells c X s q" if "q \<noteq> ?p" for q using that by (simp add: seq_cells_def)
    then have "(\<lambda>q. card (seq_cells c X s q))(?p := card (seq_cells c X s ?p) - 1) =
        (\<lambda>q. card (seq_cells c' X s q))"
      using i assms(2) unfolding True by (auto simp: cells [unfolded True] fun_eq_iff)
    with dec True show ?thesis by (simp add: c'(3))
  next
    case False
    with cnt show ?thesis by (simp add: cells c'(3))
  qed
qed

lemma seq_pos_ok_inc1:
  assumes "seq_pos_ok c X" "finite X" "i \<in> X" and s0: "s0 \<notin> c_seq c ! i"
    and c': "c_seq c' ! i = insert s0 (c_seq c ! i)" "c_pos c' = c_pos c"
      "c_seq_pos c' = (c_seq_pos c)(s0 := inc_map (c_pos c ! i) (c_seq_pos c s0))"
      "\<And>j. j \<in> X - {i} \<Longrightarrow> c_seq c' ! j = c_seq c ! j"
  shows "seq_pos_ok c' X"
  unfolding seq_pos_ok_def
proof
  fix s
  let ?p = "c_pos c ! i"
  have cnt: "counts (c_seq_pos c s) (\<lambda>q. card (seq_cells c X s q))"
    using assms(1) by (simp add: seq_pos_ok_def)
  have cells: "seq_cells c' X s q =
      (if s = s0 \<and> q = ?p then insert i (seq_cells c X s q) else seq_cells c X s q)" for q
  proof -
    have "j \<in> seq_cells c' X s q \<longleftrightarrow>
        j \<in> (if s = s0 \<and> q = ?p then insert i (seq_cells c X s q) else seq_cells c X s q)" for j
      using c'(1,2,4) assms(3) by (cases "j = i") (auto simp: seq_cells_def)
    then show ?thesis by blast
  qed
  show "counts (c_seq_pos c' s) (\<lambda>q. card (seq_cells c' X s q))"
  proof (cases "s = s0")
    case True
    have "i \<notin> seq_cells c X s ?p" using s0 True by (simp add: seq_cells_def)
    then have "(\<lambda>q. card (seq_cells c X s q))(?p := Suc (card (seq_cells c X s ?p))) =
        (\<lambda>q. card (seq_cells c' X s q))"
      using assms(2) unfolding True by (auto simp: cells [unfolded True] fun_eq_iff)
    with counts_inc [OF cnt, of ?p] True show ?thesis by (simp add: c'(3))
  next
    case False
    with cnt show ?thesis by (simp add: cells c'(3))
  qed
qed

lemma seq_pos_ok_find:
  assumes "seq_pos_ok c X" "finite X" "i \<in> X" "s \<in> c_seq c ! i"
  shows "om_find (c_seq_pos c s) (c_pos c ! i) \<noteq> None"
proof -
  have "i \<in> seq_cells c X s (c_pos c ! i)" using assms(3,4) by (simp add: seq_cells_def)
  then have "0 < card (seq_cells c X s (c_pos c ! i))" using assms(2) by (auto simp: card_gt_0_iff)
  with assms(1) show ?thesis using counts_find unfolding seq_pos_ok_def by blast
qed

lemma seq_pos_ok_emptied:
  "c_seq c ! i = {} \<Longrightarrow> seq_pos_ok c (insert i X) = seq_pos_ok c X"
  by (simp add: seq_pos_ok_def seq_cells_insert)

section \<open>What each operation does\<close>

text \<open>
  A cell as one value, the table as the list of its cells, and the cell left behind when a cell is
  freed. Given the invariant, the table and the flag \<open>has_shift\<close> determine the whole state.
\<close>

type_synonym cell = "int \<times> kv_cell_ext \<times> int \<times> seq_set"

definition cell :: "kv_cells \<Rightarrow> nat \<Rightarrow> cell" where
  "cell c i = (c_pos c ! i, c_ext c ! i, c_shift c ! i, c_seq c ! i)"

definition cell_list :: "kv_cells \<Rightarrow> cell list" where
  "cell_list c = map (cell c) [0..<cells_size c]"

definition free_cell :: cell where
  "free_cell = (-1, ext_zero, 0, {})"

lemma length_cell_list [simp]: "length (cell_list c) = cells_size c"
  by (simp add: cell_list_def)

lemma nth_cell_list [simp]: "i < cells_size c \<Longrightarrow> cell_list c ! i = cell c i"
  by (simp add: cell_list_def)

lemma cells_wf_lengths:
  assumes "cells_wf c"
  shows "length (c_pos c) = cells_size c" "length (c_ext c) = cells_size c"
    "length (c_shift c) = cells_size c" "length (c_seq c) = cells_size c"
  using assms by (simp_all add: cells_wf_def cells_size_def)

lemma cells_wf_cell: "cells_wf c \<Longrightarrow> i < cells_size c \<Longrightarrow> cell_ok (c_pos c ! i) (c_shift c ! i) (c_seq c ! i)"
  by (simp add: cells_wf_def)

lemma cells_wf_used: "cells_wf c \<Longrightarrow> i < cells_size c \<Longrightarrow> i \<in> c_used c \<longleftrightarrow> c_pos c ! i \<noteq> -1"
  by (simp add: cells_wf_def)

lemma cells_wf_shift: "cells_wf c \<Longrightarrow> i < cells_size c \<Longrightarrow> c_has_shift c \<or> c_shift c ! i = 0"
  by (auto simp: cells_wf_def)

lemma cells_inv_wf: "cells_inv c \<Longrightarrow> cells_wf c"
  and cells_inv_counts: "cells_inv c \<Longrightarrow> seq_pos_ok c {..<cells_size c}"
  by (simp_all add: cells_inv_def)

lemma cells_inv_seq: "cells_inv c \<Longrightarrow> i < cells_size c \<Longrightarrow> c_seq c ! i \<subseteq> {0..<LLAMA_MAX_SEQ}"
  using cells_wf_cell [OF cells_inv_wf] by (auto simp: cell_ok_def)

lemma cells_inv_pos: "cells_inv c \<Longrightarrow> i < cells_size c \<Longrightarrow> -1 \<le> c_pos c ! i \<and> c_pos c ! i \<le> INT32_MAX"
  using cells_wf_cell [OF cells_inv_wf] by (auto simp: cell_ok_def)

lemma cells_inv_seq_pos: "cells_inv c \<Longrightarrow> i < cells_size c \<Longrightarrow> s \<in> c_seq c ! i \<Longrightarrow> c_pos c ! i \<noteq> -1"
  using cells_wf_cell [OF cells_inv_wf] by (auto simp: cell_ok_def)

lemma bs_test_eq [simp]: "0 \<le> s \<Longrightarrow> s < LLAMA_MAX_SEQ \<Longrightarrow> bs_test b s = Some (s \<in> b)"
  by (simp add: bs_test_def)

lemma cell_list_same: "(cell_list c)[i := cell c i] = cell_list c"
  by (cases "i < cells_size c") (simp_all add: list_update_same_conv list_update_beyond)

lemma cells_size_update [simp]:
  "cells_size (c\<lparr>c_has_shift := x\<rparr>) = cells_size c" "cells_size (c\<lparr>c_used := u\<rparr>) = cells_size c"
  "cells_size (c\<lparr>c_ext := e\<rparr>) = cells_size c" "cells_size (c\<lparr>c_shift := h\<rparr>) = cells_size c"
  "cells_size (c\<lparr>c_seq := b\<rparr>) = cells_size c" "cells_size (c\<lparr>c_seq_pos := m\<rparr>) = cells_size c"
  "cells_size (c\<lparr>c_pos := p\<rparr>) = length p"
  by (simp_all add: cells_size_def)

text \<open>Two states that satisfy the invariant and agree on their cells are the same state.\<close>

lemma cells_eqI:
  assumes "cells_inv c" "cells_inv d" "cell_list c = cell_list d" "c_has_shift c = c_has_shift d"
  shows "c = d"
proof -
  have size: "cells_size c = cells_size d" using arg_cong [OF assms(3), of length] by simp
  have eq: "cell c i = cell d i" if "i < cells_size c" for i
    using assms(3) that size by (metis nth_cell_list)
  note lens = cells_wf_lengths [OF cells_inv_wf [OF assms(1)]] cells_wf_lengths [OF cells_inv_wf [OF assms(2)]]
  have pos: "c_pos c = c_pos d" and ext: "c_ext c = c_ext d" and shift: "c_shift c = c_shift d"
    and seq: "c_seq c = c_seq d"
    using eq lens size by (auto intro!: nth_equalityI simp: cell_def)
  have "c_used c = c_used d"
    using assms(1,2) pos size by (simp add: cells_inv_def cells_wf_def)
  moreover have "c_seq_pos c s = c_seq_pos d s" for s
  proof (rule counts_unique)
    show "counts (c_seq_pos c s) (\<lambda>p. card (seq_cells c {..<cells_size c} s p))"
      using assms(1) by (simp add: cells_inv_def seq_pos_ok_def)
    have "seq_cells c X s p = seq_cells d X s p" for X p by (simp add: seq_cells_def pos seq)
    then show "counts (c_seq_pos d s) (\<lambda>p. card (seq_cells c {..<cells_size c} s p))"
      using assms(2) size by (simp add: cells_inv_def seq_pos_ok_def)
  qed
  ultimately show ?thesis
    using pos ext shift seq assms(4) by (auto intro!: kv_cells.equality ext)
qed

text \<open>Writing one cell keeps the table well formed.\<close>

lemma cells_wf_write:
  assumes "cells_wf c" "i < cells_size c" "cell_ok p h b"
    and "c_pos c' = (c_pos c)[i := p]" "c_ext c' = (c_ext c)[i := e]"
      "c_shift c' = (c_shift c)[i := h]" "c_seq c' = (c_seq c)[i := b]"
      "c_used c' = (if p = -1 then c_used c - {i} else insert i (c_used c))"
      "\<not> c_has_shift c' \<longrightarrow> \<not> c_has_shift c \<and> h = 0"
  shows "cells_wf c'" "cell_list c' = (cell_list c)[i := (p, e, h, b)]" "cells_size c' = cells_size c"
proof -
  note lens = cells_wf_lengths [OF assms(1)]
  show size: "cells_size c' = cells_size c" using assms(4) by (simp add: cells_size_def)
  show "cell_list c' = (cell_list c)[i := (p, e, h, b)]"
    using assms(2,4-7) lens size by (auto intro!: nth_equalityI simp: cell_def nth_list_update)
  show "cells_wf c'"
    unfolding cells_wf_def size
    using assms lens by (auto simp: cells_wf_def nth_list_update)
qed

lemma cells_inv_same_cells:
  assumes "cells_inv c" "cells_wf c'" "c_pos c' = c_pos c" "c_seq c' = c_seq c"
    "c_seq_pos c' = c_seq_pos c"
  shows "cells_inv c'"
  using assms seq_pos_ok_cong [of c' c "{..<cells_size c}"] by (simp add: cells_inv_def cells_size_def)

lemma seq_pos_rm_inv:
  assumes "cells_inv c" "i < cells_size c"
  obtains m where "seq_pos_rm i c = Some (c\<lparr>c_seq_pos := m\<rparr>)"
    "seq_pos_ok (c\<lparr>c_seq_pos := m\<rparr>) ({..<cells_size c} - {i})"
proof -
  note ok = cells_inv_counts [OF assms(1)]
  have "\<forall>s \<in> c_seq c ! i. om_find (c_seq_pos c s) (c_pos c ! i) \<noteq> None"
    using seq_pos_ok_find [OF ok] assms(2) by auto
  from seq_pos_rm_eq [OF cells_inv_seq [OF assms] this]
  show thesis
    using seq_pos_ok_dec [OF ok _ _ refl refl, of i] assms(2) that by simp
qed

text \<open>The common shape of the operations that rewrite cell \<open>i\<close> after taking it out of the counts.\<close>

lemma cells_inv_write_free:
  assumes "cells_inv c" "i < cells_size c" "seq_pos_ok (c\<lparr>c_seq_pos := m\<rparr>) ({..<cells_size c} - {i})"
    and "c_seq_pos c' = m" "c_pos c' = (c_pos c)[i := -1]" "c_ext c' = (c_ext c)[i := e]"
      "c_shift c' = (c_shift c)[i := 0]" "c_seq c' = (c_seq c)[i := {}]"
      "c_used c' = c_used c - {i}" "c_has_shift c' \<or> \<not> c_has_shift c"
  shows "cells_inv c'" "cell_list c' = (cell_list c)[i := (-1, e, 0, {})]" "cells_size c' = cells_size c"
proof -
  note lens = cells_wf_lengths [OF cells_inv_wf [OF assms(1)]]
  have ok: "cell_ok (-1) 0 {}" by (simp add: cell_ok_def INT32_MAX_def)
  note wf = cells_wf_write [OF cells_inv_wf [OF assms(1)] assms(2) ok assms(5-8)]
  show w: "cell_list c' = (cell_list c)[i := (-1, e, 0, {})]" "cells_size c' = cells_size c"
    using wf assms(9,10) by auto
  have "seq_pos_ok c' ({..<cells_size c} - {i})"
    using seq_pos_ok_cong [of c' "c\<lparr>c_seq_pos := m\<rparr>" "{..<cells_size c} - {i}"] assms(3-5,8) by simp
  moreover have "c_seq c' ! i = {}" using assms(2,8) lens by simp
  ultimately have "seq_pos_ok c' (insert i ({..<cells_size c} - {i}))"
    by (simp only: seq_pos_ok_emptied)
  moreover have "insert i ({..<cells_size c} - {i}) = {..<cells_size c}" using assms(2) by auto
  moreover have "cells_wf c'" using wf(1) assms(9,10) by auto
  ultimately show "cells_inv c'" using w(2) by (simp add: cells_inv_def)
qed

lemma cells_inv_write_used:
  assumes "cells_inv c" "i < cells_size c" "seq_pos_ok (c\<lparr>c_seq_pos := m\<rparr>) ({..<cells_size c} - {i})"
    and "cell_ok p h b" "p \<noteq> -1"
    and "c_seq_pos c' = (\<lambda>s. if s \<in> b then inc_map p (m s) else m s)"
    and "c_pos c' = (c_pos c)[i := p]" "c_ext c' = (c_ext c)[i := e]"
      "c_shift c' = (c_shift c)[i := h]" "c_seq c' = (c_seq c)[i := b]"
      "c_used c' = insert i (c_used c)" "\<not> c_has_shift c' \<longrightarrow> \<not> c_has_shift c \<and> h = 0"
  shows "cells_inv c'" "cell_list c' = (cell_list c)[i := (p, e, h, b)]" "cells_size c' = cells_size c"
proof -
  note lens = cells_wf_lengths [OF cells_inv_wf [OF assms(1)]]
  note wf = cells_wf_write [OF cells_inv_wf [OF assms(1)] assms(2,4,7-10)]
  show w: "cell_list c' = (cell_list c)[i := (p, e, h, b)]" "cells_size c' = cells_size c"
    using wf assms(5,11,12) by auto
  have "seq_pos_ok c' (insert i ({..<cells_size c} - {i}))"
    by (rule seq_pos_ok_inc [OF assms(3), where B = b and p = p])
      (use assms lens in \<open>auto simp: nth_list_update\<close>)
  moreover have "insert i ({..<cells_size c} - {i}) = {..<cells_size c}" using assms(2) by auto
  moreover have "cells_wf c'" using wf(1) assms(5,11,12) by auto
  ultimately show "cells_inv c'" using w(2) by (simp add: cells_inv_def)
qed

subsection \<open>Reading\<close>

lemma is_empty_eq: "cells_inv c \<Longrightarrow> i < cells_size c \<Longrightarrow> is_empty i c = Some (c_pos c ! i = -1)"
  using cells_inv_pos [of c i] by (auto simp: is_empty_def)

lemma seq_has_eq:
  "i < cells_size c \<Longrightarrow> 0 \<le> s \<Longrightarrow> s < LLAMA_MAX_SEQ \<Longrightarrow> seq_has i s c = Some (s \<in> c_seq c ! i)"
  by (simp add: seq_has_def)

lemma pos_in_eq: "i < cells_size c \<Longrightarrow> pos_in i p0 p1 c = Some (p0 \<le> c_pos c ! i \<and> c_pos c ! i < p1)"
  by (simp add: pos_in_def)

lemma pos_get_eq: "i < cells_size c \<Longrightarrow> c_pos c ! i \<noteq> -1 \<Longrightarrow> pos_get i c = Some (c_pos c ! i)"
  and ext_get_eq: "i < cells_size c \<Longrightarrow> c_pos c ! i \<noteq> -1 \<Longrightarrow> ext_get i c = Some (c_ext c ! i)"
  and get_shift_eq: "i < cells_size c \<Longrightarrow> c_pos c ! i \<noteq> -1 \<Longrightarrow> get_shift i c = Some (c_shift c ! i)"
  and seq_count_eq: "i < cells_size c \<Longrightarrow> c_pos c ! i \<noteq> -1 \<Longrightarrow> seq_count i c = Some (card (c_seq c ! i))"
  by (simp_all add: pos_get_def ext_get_def get_shift_def seq_count_def)

lemma seq_get_eq:
  assumes "cells_inv c" "i < cells_size c" "c_seq c ! i = {s}"
  shows "seq_get i c = Some s"
proof -
  have s: "s \<in> set [0..LLAMA_MAX_SEQ - 1]" using cells_inv_seq [OF assms(1,2)] assms(3) by auto
  then have "find (\<lambda>t. t \<in> c_seq c ! i) [0..LLAMA_MAX_SEQ - 1] \<noteq> None"
    using assms(3) by (auto simp: find_None_iff)
  then obtain t where t: "find (\<lambda>t. t \<in> c_seq c ! i) [0..LLAMA_MAX_SEQ - 1] = Some t" by blast
  then have "t = s" using assms(3) by (auto simp: find_Some_iff)
  with t assms(2,3) show ?thesis by (simp add: seq_get_def)
qed

definition seq_positions :: "kv_cells \<Rightarrow> int \<Rightarrow> int set" where
  "seq_positions c s = {c_pos c ! i | i. i < cells_size c \<and> s \<in> c_seq c ! i}"

lemma seq_positions_finite [simp]: "finite (seq_positions c s)"
  by (simp add: seq_positions_def)

lemma cells_inv_map:
  assumes "cells_inv c"
  obtains N where "counts (c_seq_pos c s) N" "\<And>p. 0 < N p \<longleftrightarrow> p \<in> seq_positions c s"
proof
  show "counts (c_seq_pos c s) (\<lambda>p. card (seq_cells c {..<cells_size c} s p))"
    using assms by (simp add: cells_inv_def seq_pos_ok_def)
  show "0 < card (seq_cells c {..<cells_size c} s p) \<longleftrightarrow> p \<in> seq_positions c s" for p
    by (auto simp: card_gt_0_iff seq_cells_def seq_positions_def)
qed

text \<open>The extreme positions of a sequence are read off the ends of its position map.\<close>

lemma cells_seq_pos_min_eq:
  assumes "cells_inv c" "0 \<le> s" "s < LLAMA_MAX_SEQ"
  shows "cells_seq_pos_min s c = Some (if seq_positions c s = {} then -1 else Min (seq_positions c s))"
proof -
  obtain N where N: "counts (c_seq_pos c s) N" "\<And>p. 0 < N p \<longleftrightarrow> p \<in> seq_positions c s"
    using cells_inv_map [OF assms(1), of s] by blast
  show ?thesis
  proof (cases "c_seq_pos c s = []")
    case True
    then have "seq_positions c s = {}" using counts_eq_empty [OF N(1)] N(2) by auto
    with True assms(2,3) show ?thesis by (simp add: cells_seq_pos_min_def)
  next
    case False
    note ends = counts_begin [OF N(1) False]
    have "Min (seq_positions c s) = om_begin (c_seq_pos c s)"
      by (rule Min_eqI) (use ends N(2) in auto)
    moreover have "0 < snd (hd (c_seq_pos c s))"
      using counts_entries [OF N(1), of "fst (hd (c_seq_pos c s))"] False by (cases "c_seq_pos c s") auto
    ultimately show ?thesis using False ends N(2) assms(2,3) by (auto simp: cells_seq_pos_min_def)
  qed
qed

lemma cells_seq_pos_max_eq:
  assumes "cells_inv c" "0 \<le> s" "s < LLAMA_MAX_SEQ"
  shows "cells_seq_pos_max s c = Some (if seq_positions c s = {} then -1 else Max (seq_positions c s))"
proof -
  obtain N where N: "counts (c_seq_pos c s) N" "\<And>p. 0 < N p \<longleftrightarrow> p \<in> seq_positions c s"
    using cells_inv_map [OF assms(1), of s] by blast
  show ?thesis
  proof (cases "c_seq_pos c s = []")
    case True
    then have "seq_positions c s = {}" using counts_eq_empty [OF N(1)] N(2) by auto
    with True assms(2,3) show ?thesis by (simp add: cells_seq_pos_max_def)
  next
    case False
    note ends = counts_rbegin [OF N(1) False]
    have "Max (seq_positions c s) = om_rbegin (c_seq_pos c s)"
      by (rule Max_eqI) (use ends N(2) in auto)
    moreover have "0 < snd (last (c_seq_pos c s))"
      using counts_entries [OF N(1), of "fst (last (c_seq_pos c s))" "snd (last (c_seq_pos c s))"]
        last_in_set [OF False] by simp
    ultimately show ?thesis using False ends N(2) assms(2,3) by (auto simp: cells_seq_pos_max_def)
  qed
qed

subsection \<open>Writing\<close>

lemma cells_rm_spec:
  assumes "cells_inv c" "i < cells_size c" "c_pos c ! i \<noteq> -1"
  obtains c' where "cells_rm i c = Some c'" "cells_inv c'"
    "cell_list c' = (cell_list c)[i := free_cell]" "c_has_shift c' = c_has_shift c"
proof -
  obtain m where m: "seq_pos_rm i c = Some (c\<lparr>c_seq_pos := m\<rparr>)"
    "seq_pos_ok (c\<lparr>c_seq_pos := m\<rparr>) ({..<cells_size c} - {i})" by (rule seq_pos_rm_inv [OF assms(1,2)])
  let ?c' = "clear_cell i (c\<lparr>c_seq_pos := m, c_seq := (c_seq c)[i := {}]\<rparr>)"
  show thesis
  proof
    show "cells_rm i c = Some ?c'" using assms(2,3) m(1) by (simp add: cells_rm_def)
    show "cells_inv ?c'" "cell_list ?c' = (cell_list c)[i := free_cell]" "c_has_shift ?c' = c_has_shift c"
      using cells_inv_write_free [OF assms(1,2) m(2), of ?c' ext_zero]
      by (simp_all add: clear_cell_def free_cell_def)
  qed
qed

lemma cells_seq_rm_spec:
  assumes "cells_inv c" "i < cells_size c" "s \<in> c_seq c ! i"
  obtains b c' where "cells_seq_rm i s c = Some (b, c')" "cells_inv c'" "b \<longleftrightarrow> c_seq c ! i = {s}"
    "cell_list c' = (cell_list c)[i :=
       if c_seq c ! i = {s} then free_cell
       else (c_pos c ! i, c_ext c ! i, c_shift c ! i, c_seq c ! i - {s})]"
    "c_has_shift c' = c_has_shift c"
proof -
  note lens = cells_wf_lengths [OF cells_inv_wf [OF assms(1)]]
  have s: "0 \<le> s" "s < LLAMA_MAX_SEQ" using cells_inv_seq [OF assms(1,2)] assms(3) by auto
  have pos: "c_pos c ! i \<noteq> -1" by (rule cells_inv_seq_pos [OF assms])
  define m where "m = (c_seq_pos c)(s := dec_map (c_pos c ! i) (c_seq_pos c s))"
  let ?c1 = "c\<lparr>c_seq := (c_seq c)[i := c_seq c ! i - {s}], c_seq_pos := m\<rparr>"
  have find: "om_find (c_seq_pos c s) (c_pos c ! i) \<noteq> None"
    using seq_pos_ok_find [OF cells_inv_counts [OF assms(1)]] assms(2,3) by auto
  have run: "cells_seq_rm i s c =
      (if c_seq c ! i - {s} = {} then Some (True, clear_cell i ?c1) else Some (False, ?c1))"
    using assms s pos seq_pos_dec_eq [of "c\<lparr>c_seq := (c_seq c)[i := c_seq c ! i - {s}]\<rparr>" s] find lens
    by (simp add: cells_seq_rm_def m_def)
  have ok1: "seq_pos_ok ?c1 {..<cells_size c}"
    by (rule seq_pos_ok_dec1 [OF cells_inv_counts [OF assms(1)], where i = i and ?s0.0 = s])
      (use assms lens in \<open>auto simp: m_def nth_list_update\<close>)
  show thesis
  proof (cases "c_seq c ! i = {s}")
    case True
    let ?c' = "clear_cell i ?c1"
    have "seq_pos_ok ?c1 ({..<cells_size c} - {i})"
    proof -
      have "insert i ({..<cells_size c} - {i}) = {..<cells_size c}" using assms(2) by auto
      moreover have "c_seq ?c1 ! i = {}" using True assms(2) lens by simp
      ultimately show ?thesis using ok1 seq_pos_ok_emptied [of ?c1 i "{..<cells_size c} - {i}"] by simp
    qed
    then have "seq_pos_ok (c\<lparr>c_seq_pos := m\<rparr>) ({..<cells_size c} - {i})"
      using seq_pos_ok_cong [of ?c1 "c\<lparr>c_seq_pos := m\<rparr>" "{..<cells_size c} - {i}"] by simp
    note w = cells_inv_write_free [OF assms(1,2) this, of ?c' ext_zero]
    show thesis
      by (rule that [of True ?c']) (use run w True in \<open>auto simp: clear_cell_def free_cell_def\<close>)
  next
    case False
    then have ne: "c_seq c ! i - {s} \<noteq> {}" using assms(3) by auto
    have "i \<in> c_used c" using cells_wf_used [OF cells_inv_wf [OF assms(1)] assms(2)] pos by simp
    moreover have "cell_ok (c_pos c ! i) (c_shift c ! i) (c_seq c ! i - {s})"
      using cells_wf_cell [OF cells_inv_wf [OF assms(1)] assms(2)] by (auto simp: cell_ok_def)
    ultimately have w: "cells_wf ?c1" "cell_list ?c1 = (cell_list c)[i :=
        (c_pos c ! i, c_ext c ! i, c_shift c ! i, c_seq c ! i - {s})]" "cells_size ?c1 = cells_size c"
      using cells_wf_write [OF cells_inv_wf [OF assms(1)] assms(2), of "c_pos c ! i" "c_shift c ! i"
          "c_seq c ! i - {s}" ?c1 "c_ext c ! i"] pos
        cells_wf_shift [OF cells_inv_wf [OF assms(1)] assms(2)]
      by (auto simp: insert_absorb)
    show thesis
      by (rule that [of False ?c1]) (use run w ok1 False ne in \<open>auto simp: cells_inv_def\<close>)
  qed
qed

lemma cells_seq_add_spec:
  assumes "cells_inv c" "i < cells_size c" "c_pos c ! i \<noteq> -1" "0 \<le> s" "s < LLAMA_MAX_SEQ" "s \<notin> c_seq c ! i"
  obtains c' where "cells_seq_add i s c = Some c'" "cells_inv c'"
    "cell_list c' = (cell_list c)[i := (c_pos c ! i, c_ext c ! i, c_shift c ! i, insert s (c_seq c ! i))]"
    "c_has_shift c' = c_has_shift c"
proof -
  note lens = cells_wf_lengths [OF cells_inv_wf [OF assms(1)]]
  let ?c' = "c\<lparr>c_seq := (c_seq c)[i := insert s (c_seq c ! i)],
    c_seq_pos := (c_seq_pos c)(s := inc_map (c_pos c ! i) (c_seq_pos c s))\<rparr>"
  have run: "cells_seq_add i s c = Some ?c'"
    using assms by (simp add: cells_seq_add_def seq_pos_inc_eq)
  have ok: "seq_pos_ok ?c' {..<cells_size c}"
    by (rule seq_pos_ok_inc1 [OF cells_inv_counts [OF assms(1)], where i = i and ?s0.0 = s])
      (use assms lens in \<open>auto simp: nth_list_update\<close>)
  have "i \<in> c_used c" using cells_wf_used [OF cells_inv_wf [OF assms(1)] assms(2)] assms(3) by simp
  moreover have "cell_ok (c_pos c ! i) (c_shift c ! i) (insert s (c_seq c ! i))"
    using cells_wf_cell [OF cells_inv_wf [OF assms(1)] assms(2)] assms(3-5) by (auto simp: cell_ok_def)
  ultimately have w: "cells_wf ?c'" "cell_list ?c' = (cell_list c)[i :=
      (c_pos c ! i, c_ext c ! i, c_shift c ! i, insert s (c_seq c ! i))]" "cells_size ?c' = cells_size c"
    using cells_wf_write [OF cells_inv_wf [OF assms(1)] assms(2), of "c_pos c ! i" "c_shift c ! i"
        "insert s (c_seq c ! i)" ?c' "c_ext c ! i"] assms(3)
      cells_wf_shift [OF cells_inv_wf [OF assms(1)] assms(2)]
    by (auto simp: insert_absorb)
  show thesis by (rule that [of ?c']) (use run w ok in \<open>auto simp: cells_inv_def\<close>)
qed

lemma cells_seq_keep_spec:
  assumes "cells_inv c" "i < cells_size c" "0 \<le> s" "s < LLAMA_MAX_SEQ"
    and "c_pos c ! i \<noteq> -1 \<Longrightarrow> c_seq c ! i \<noteq> {}"
  obtains b c' where "cells_seq_keep i s c = Some (b, c')" "cells_inv c'"
    "b \<longleftrightarrow> c_seq c ! i \<noteq> {} \<and> s \<notin> c_seq c ! i"
    "cell_list c' = (cell_list c)[i :=
       if s \<in> c_seq c ! i then (c_pos c ! i, c_ext c ! i, c_shift c ! i, {s})
       else if c_seq c ! i \<noteq> {} then free_cell else cell c i]"
    "c_has_shift c' = c_has_shift c"
proof -
  note lens = cells_wf_lengths [OF cells_inv_wf [OF assms(1)]]
  obtain m where m: "seq_pos_rm i c = Some (c\<lparr>c_seq_pos := m\<rparr>)"
    "seq_pos_ok (c\<lparr>c_seq_pos := m\<rparr>) ({..<cells_size c} - {i})" by (rule seq_pos_rm_inv [OF assms(1,2)])
  consider (keep) "s \<in> c_seq c ! i" | (free) "s \<notin> c_seq c ! i" "c_seq c ! i \<noteq> {}"
    | (none) "c_seq c ! i = {}" by blast
  then show thesis
  proof cases
    case keep
    have pos: "c_pos c ! i \<noteq> -1" by (rule cells_inv_seq_pos [OF assms(1,2) keep])
    let ?c' = "c\<lparr>c_seq := (c_seq c)[i := {s}], c_seq_pos := m(s := inc_map (c_pos c ! i) (m s))\<rparr>"
    have ok: "cell_ok (c_pos c ! i) (c_shift c ! i) {s}"
      using cells_wf_cell [OF cells_inv_wf [OF assms(1)] assms(2)] keep by (auto simp: cell_ok_def)
    have used: "i \<in> c_used c"
      using cells_inv_wf [OF assms(1)] assms(2) pos by (auto simp: cells_wf_def)
    have shift: "\<not> c_has_shift c \<longrightarrow> c_shift c ! i = 0"
      using cells_inv_wf [OF assms(1)] assms(2) by (simp add: cells_wf_def)
    note w = cells_inv_write_used [OF assms(1,2) m(2) ok pos, of ?c' "c_ext c ! i"]
    show thesis
      by (rule that [of False ?c'])
        (use w used shift keep assms(2-4) m(1) lens in \<open>auto simp: cells_seq_keep_def seq_pos_inc_eq fun_eq_iff insert_absorb\<close>)
  next
    case free
    let ?c' = "clear_cell i (c\<lparr>c_seq_pos := m, c_seq := (c_seq c)[i := {}]\<rparr>)"
    note w = cells_inv_write_free [OF assms(1,2) m(2), of ?c' ext_zero]
    show thesis
      by (rule that [of True ?c'])
        (use w free assms(2-4) m(1) in \<open>auto simp: cells_seq_keep_def clear_cell_def free_cell_def\<close>)
  next
    case none
    then have "c_pos c ! i = -1" using assms(5) by blast
    with none assms(1-4) that [of False c] show thesis
      by (auto simp: cells_seq_keep_def cell_list_same)
  qed
qed

lemma pos_set_spec:
  assumes "cells_inv c" "i < cells_size c" "c_pos c ! i = -1" "0 \<le> p" "p \<le> INT32_MAX"
  obtains c' where "pos_set i p c = Some c'" "cells_inv c'"
    "cell_list c' = (cell_list c)[i := (p, c_ext c ! i, 0, {})]" "c_has_shift c' = c_has_shift c"
proof -
  have z: "c_seq c ! i = {}" "c_shift c ! i = 0"
    using cells_wf_cell [OF cells_inv_wf [OF assms(1)] assms(2)] assms(3) by (auto simp: cell_ok_def)
  note lens = cells_wf_lengths [OF cells_inv_wf [OF assms(1)]]
  let ?c' = "c\<lparr>c_pos := (c_pos c)[i := p], c_used := insert i (c_used c)\<rparr>"
  have ok: "cell_ok p 0 {}" using assms(4,5) by (simp add: cell_ok_def)
  have upd: "(c_ext c)[i := c_ext c ! i] = c_ext c" "(c_shift c)[i := 0] = c_shift c" "(c_seq c)[i := {}] = c_seq c"
    using z lens assms(2) by (auto simp: list_update_same_conv)
  have "seq_pos_ok c ({..<cells_size c} - {i})"
    using cells_inv_counts [OF assms(1)] seq_pos_ok_emptied [OF z(1), of "{..<cells_size c} - {i}"] assms(2)
    by (simp add: insert_absorb)
  then have "seq_pos_ok (c\<lparr>c_seq_pos := c_seq_pos c\<rparr>) ({..<cells_size c} - {i})" by simp
  note w = cells_inv_write_used [OF assms(1,2) this ok, of ?c' "c_ext c ! i"]
  show thesis
    by (rule that [of ?c']) (use w upd z assms(2-4) in \<open>auto simp: pos_set_def\<close>)
qed

lemma ext_set_spec:
  assumes "cells_inv c" "i < cells_size c"
  obtains c' where "ext_set i e c = Some c'" "cells_inv c'"
    "cell_list c' = (cell_list c)[i := (c_pos c ! i, e, c_shift c ! i, c_seq c ! i)]"
    "c_has_shift c' = c_has_shift c"
proof -
  note wf = cells_inv_wf [OF assms(1)]
  note lens = cells_wf_lengths [OF wf]
  let ?c' = "c\<lparr>c_ext := (c_ext c)[i := e]\<rparr>"
  have used: "c_used c = (if c_pos c ! i = -1 then c_used c - {i} else insert i (c_used c))"
    and shift: "\<not> c_has_shift c \<longrightarrow> \<not> c_has_shift c \<and> c_shift c ! i = 0"
    using wf assms(2) by (auto simp: cells_wf_def)
  note w = cells_wf_write [OF wf assms(2) cells_wf_cell [OF wf assms(2)], of ?c' e]
  have "cells_wf ?c'" "cell_list ?c' = (cell_list c)[i := (c_pos c ! i, e, c_shift c ! i, c_seq c ! i)]"
    using w used shift by auto
  with cells_inv_same_cells [OF assms(1)] show thesis
    by (intro that [of ?c']) (use assms(2) lens in \<open>auto simp: ext_set_def\<close>)
qed

lemma pos_add_spec:
  assumes "cells_inv c" "i < cells_size c" "c_pos c ! i \<noteq> -1"
    and "is_i32 (c_pos c ! i + d)" "is_i32 (c_shift c ! i + d)"
  obtains b c' where "pos_add i d c = Some (b, c')" "cells_inv c'" "b \<longleftrightarrow> c_pos c ! i + d < 0"
    "cell_list c' = (cell_list c)[i :=
       if c_pos c ! i + d < 0 then (-1, c_ext c ! i, 0, {})
       else (c_pos c ! i + d, c_ext c ! i, c_shift c ! i + d, c_seq c ! i)]"
    "c_has_shift c'"
proof -
  note wf = cells_inv_wf [OF assms(1)]
  note lens = cells_wf_lengths [OF wf]
  obtain m where m: "seq_pos_rm i c = Some (c\<lparr>c_seq_pos := m\<rparr>)"
    "seq_pos_ok (c\<lparr>c_seq_pos := m\<rparr>) ({..<cells_size c} - {i})" by (rule seq_pos_rm_inv [OF assms(1,2)])
  show thesis
  proof (cases "c_pos c ! i + d < 0")
    case True
    let ?c' = "c\<lparr>c_seq_pos := m, c_has_shift := True, c_seq := (c_seq c)[i := {}],
      c_pos := (c_pos c)[i := -1], c_shift := (c_shift c)[i := 0], c_used := c_used c - {i}\<rparr>"
    note w = cells_inv_write_free [OF assms(1,2) m(2), of ?c' "c_ext c ! i"]
    show thesis
      by (rule that [of True ?c']) (use w True assms(2-5) m(1) lens in \<open>auto simp: pos_add_def\<close>)
  next
    case False
    let ?c1 = "c\<lparr>c_seq_pos := m, c_pos := (c_pos c)[i := c_pos c ! i + d],
      c_shift := (c_shift c)[i := c_shift c ! i + d], c_has_shift := True\<rparr>"
    let ?c' = "seq_pos_add i ?c1"
    have sp: "c_seq_pos ?c' = (\<lambda>s. if s \<in> c_seq c ! i then inc_map (c_pos c ! i + d) (m s) else m s)"
      using cells_inv_seq [OF assms(1,2)] assms(2) lens by (simp add: seq_pos_add_counts cong: if_cong)
    have ok: "cell_ok (c_pos c ! i + d) (c_shift c ! i + d) (c_seq c ! i)"
      using False assms(4) cells_inv_seq [OF assms(1,2)] by (auto simp: cell_ok_def is_i32_def)
    have used: "i \<in> c_used c" using cells_wf_used [OF wf assms(2)] assms(3) by simp
    have pos: "c_pos c ! i + d \<noteq> -1" using False by simp
    note w = cells_inv_write_used [OF assms(1,2) m(2) ok pos sp, where e = "c_ext c ! i"]
    show thesis
    proof (rule that [of False ?c'])
      show "pos_add i d c = Some (False, ?c')" using False assms(2-5) m(1) lens by (simp add: pos_add_def)
      show "cells_inv ?c'" by (rule w) (simp_all add: used insert_absorb)
      show "cell_list ?c' = (cell_list c)[i := if c_pos c ! i + d < 0 then (-1, c_ext c ! i, 0, {})
          else (c_pos c ! i + d, c_ext c ! i, c_shift c ! i + d, c_seq c ! i)]"
        by (subst w) (simp_all add: used insert_absorb False)
    qed (use False in simp_all)
  qed
qed

lemma pos_div_spec:
  assumes "cells_inv c" "i < cells_size c" "c_pos c ! i \<noteq> -1" "0 < d"
    and "is_i32 (c_shift c ! i + (c_pos c ! i - c_pos c ! i div d))"
  obtains c' where "pos_div i d c = Some c'" "cells_inv c'"
    "cell_list c' = (cell_list c)[i :=
       (c_pos c ! i div d, c_ext c ! i, c_shift c ! i + (c_pos c ! i - c_pos c ! i div d), c_seq c ! i)]"
    "c_has_shift c'"
proof -
  note wf = cells_inv_wf [OF assms(1)]
  note lens = cells_wf_lengths [OF wf]
  let ?p = "c_pos c ! i div d" and ?h = "c_shift c ! i + (c_pos c ! i - c_pos c ! i div d)"
  have p: "0 \<le> c_pos c ! i" "c_pos c ! i \<le> INT32_MAX" using cells_inv_pos [OF assms(1,2)] assms(3) by auto
  then have q: "0 \<le> ?p" "?p \<le> c_pos c ! i"
    using assms(4) by (simp_all add: pos_imp_zdiv_nonneg_iff int_div_le_self)
  obtain m where m: "seq_pos_rm i c = Some (c\<lparr>c_seq_pos := m\<rparr>)"
    "seq_pos_ok (c\<lparr>c_seq_pos := m\<rparr>) ({..<cells_size c} - {i})" by (rule seq_pos_rm_inv [OF assms(1,2)])
  let ?c1 = "c\<lparr>c_seq_pos := m, c_pos := (c_pos c)[i := ?p], c_shift := (c_shift c)[i := ?h]\<rparr>"
  let ?c' = "(seq_pos_add i ?c1)\<lparr>c_has_shift := True\<rparr>"
  have sp: "c_seq_pos ?c' = (\<lambda>s. if s \<in> c_seq c ! i then inc_map ?p (m s) else m s)"
    using cells_inv_seq [OF assms(1,2)] assms(2) lens by (simp add: seq_pos_add_counts cong: if_cong)
  have ok: "cell_ok ?p ?h (c_seq c ! i)"
    using q p cells_inv_seq [OF assms(1,2)] by (auto simp: cell_ok_def)
  have used: "i \<in> c_used c" using cells_wf_used [OF wf assms(2)] assms(3) by simp
  have pos: "?p \<noteq> -1" using q by simp
  have sub: "is_i32 (c_pos c ! i - ?p)" using p q by (simp add: i32_defs)
  have run: "pos_div i d c = Some ?c'"
    using assms(2-5) m(1) p(1) lens sub by (simp add: pos_div_def tdiv_pos Let_def)
  note w = cells_inv_write_used [OF assms(1,2) m(2) ok pos sp, where e = "c_ext c ! i"]
  show thesis
  proof (rule that [OF run])
    show "cells_inv ?c'" by (rule w) (simp_all add: used insert_absorb)
    show "cell_list ?c' = (cell_list c)[i := (?p, c_ext c ! i, ?h, c_seq c ! i)]"
      by (rule w) (simp_all add: used insert_absorb)
  qed simp
qed

lemma seq_pos_dec_used:
  "seq_pos_dec s p (c\<lparr>c_used := u\<rparr>) = map_option (\<lambda>c. c\<lparr>c_used := u\<rparr>) (seq_pos_dec s p c)"
  by (simp add: seq_pos_dec_def split: option.split)

lemma foldo_map:
  assumes "\<And>x s. f x (g s) = map_option g (f x s)"
  shows "foldo f xs (g s) = map_option g (foldo f xs s)"
  by (induction xs arbitrary: s) (auto simp: assms split: Option.bind_splits)

lemma seq_pos_rm_used:
  "seq_pos_rm i (c\<lparr>c_used := u\<rparr>) = map_option (\<lambda>c. c\<lparr>c_used := u\<rparr>) (seq_pos_rm i c)"
  unfolding seq_pos_rm_def by (rule foldo_map) (simp add: seq_pos_dec_used)

lemma cells_set_at_spec:
  assumes "cells_inv c" "i < cells_size c" "c_shift c ! i = 0"
    and ok: "cell_ok (c_pos d ! j) 0 (c_seq d ! j)"
  obtains c' where "cells_set_at d i j c = Some c'" "cells_inv c'"
    "cell_list c' = (cell_list c)[i := (c_pos d ! j, c_ext d ! j, 0, c_seq d ! j)]"
    "c_has_shift c' = c_has_shift c"
proof -
  note wf = cells_inv_wf [OF assms(1)]
  note lens = cells_wf_lengths [OF wf]
  obtain m where m: "seq_pos_rm i c = Some (c\<lparr>c_seq_pos := m\<rparr>)"
    "seq_pos_ok (c\<lparr>c_seq_pos := m\<rparr>) ({..<cells_size c} - {i})" by (rule seq_pos_rm_inv [OF assms(1,2)])
  have m': "m = c_seq_pos c" if "c_pos c ! i = -1"
  proof -
    have "c_seq c ! i = {}" using that cells_wf_cell [OF wf assms(2)] by (simp add: cell_ok_def)
    then have "seq_pos_rm i c = Some c" using seq_pos_rm_eq [of c i] by simp
    with m(1) have "c = c\<lparr>c_seq_pos := m\<rparr>" by simp
    then show ?thesis by (metis kv_cells.select_convs(7) kv_cells.surjective kv_cells.update_convs(7))
  qed
  let ?p = "c_pos d ! j" and ?b = "c_seq d ! j"
  let ?c4 = "c\<lparr>c_seq_pos := m, c_used := (if ?p = -1 then c_used c - {i} else insert i (c_used c)),
    c_pos := (c_pos c)[i := ?p], c_ext := (c_ext c)[i := c_ext d ! j], c_seq := (c_seq c)[i := ?b]\<rparr>"
  have used: "i \<in> c_used c \<longleftrightarrow> c_pos c ! i \<noteq> -1" by (rule cells_wf_used [OF wf assms(2)])
  have run: "cells_set_at d i j c = Some (if ?p \<noteq> -1 then seq_pos_add i ?c4 else ?c4)"
    using assms(2,3) m(1) m' used lens
    by (cases "c_pos c ! i = -1"; cases "?p = -1")
      (simp_all add: cells_set_at_def Let_def seq_pos_rm_used insert_absorb)
  have sp: "c_seq_pos (seq_pos_add i ?c4) = (\<lambda>s. if s \<in> ?b then inc_map ?p (m s) else m s)"
    using ok assms(2) lens by (simp add: seq_pos_add_counts cell_ok_def cong: if_cong)
  have shift: "(c_shift c)[i := 0] = c_shift c" using assms(2,3) lens by (simp add: list_update_same_conv)
  show thesis
  proof (cases "?p = -1")
    case True
    then have "?b = {}" using ok by (simp add: cell_ok_def)
    note w = cells_inv_write_free [OF assms(1,2) m(2), of ?c4 "c_ext d ! j"]
    show thesis by (rule that [of ?c4]) (use w run True \<open>?b = {}\<close> shift in auto)
  next
    case False
    note w = cells_inv_write_used [OF assms(1,2) m(2) ok False sp, where e = "c_ext d ! j"]
    show thesis
    proof (rule that [of "seq_pos_add i ?c4"])
      show "cells_set_at d i j c = Some (seq_pos_add i ?c4)" using run False by simp
      show "cells_inv (seq_pos_add i ?c4)" by (rule w) (simp_all add: shift False)
      show "cell_list (seq_pos_add i ?c4) = (cell_list c)[i := (?p, c_ext d ! j, 0, ?b)]"
        by (rule w) (simp_all add: shift False)
    qed simp
  qed
qed

subsection \<open>Whole-table operations\<close>

lemma seq_pos_ok_none: "(\<And>i. i \<in> X \<Longrightarrow> c_seq c ! i = {}) \<Longrightarrow> c_seq_pos c = (\<lambda>_. []) \<Longrightarrow> seq_pos_ok c X"
proof -
  assume none: "\<And>i. i \<in> X \<Longrightarrow> c_seq c ! i = {}" and sp: "c_seq_pos c = (\<lambda>_. [])"
  from none have "seq_cells c X s p = {}" for s p by (auto simp: seq_cells_def)
  then show ?thesis by (simp add: seq_pos_ok_def sp counts_empty)
qed

lemma cells_reset_spec:
  assumes "length (c_ext c) = n" "length (c_shift c) = n" "length (c_seq c) = n" "cells_size c = n"
  shows "cells_inv (cells_reset c)" "cell_list (cells_reset c) = replicate n free_cell"
    "\<not> c_has_shift (cells_reset c)"
proof -
  have size: "cells_size (cells_reset c) = n" using assms(4) by (simp add: cells_size_def cells_reset_def)
  show "\<not> c_has_shift (cells_reset c)" by (simp add: cells_reset_def)
  show "cell_list (cells_reset c) = replicate n free_cell"
    using assms by (auto intro!: nth_equalityI simp: size cell_def cells_reset_def free_cell_def cells_size_def)
  have "cells_wf (cells_reset c)"
    using assms by (auto simp: cells_wf_def cells_reset_def cells_size_def cell_ok_def INT32_MAX_def)
  moreover have "seq_pos_ok (cells_reset c) {..<cells_size (cells_reset c)}"
    by (rule seq_pos_ok_none) (use size assms in \<open>auto simp: cells_reset_def\<close>)
  ultimately show "cells_inv (cells_reset c)" by (simp add: cells_inv_def)
qed

lemma cells_inv_reset:
  assumes "cells_inv c"
  shows "cells_inv (cells_reset c)" "cell_list (cells_reset c) = replicate (cells_size c) free_cell"
    "\<not> c_has_shift (cells_reset c)"
  using cells_reset_spec [of c "cells_size c"] cells_wf_lengths [OF cells_inv_wf [OF assms]] by simp_all

lemma cells_resize_spec:
  "cells_inv (cells_resize n c)" "cell_list (cells_resize n c) = replicate n free_cell"
  "\<not> c_has_shift (cells_resize n c)"
  unfolding cells_resize_def by (rule cells_reset_spec; simp add: cells_size_def)+

lemma cells_size_reset [simp]: "cells_size (cells_reset c) = cells_size c"
  by (simp add: cells_size_def cells_reset_def)

lemma cells_size_resize [simp]: "cells_size (cells_resize n c) = n"
  by (simp add: cells_size_def cells_reset_def cells_resize_def)

lemma reset_shift_spec:
  assumes "cells_inv c"
  shows "cells_inv (reset_shift c)" "\<not> c_has_shift (reset_shift c)"
    "cell_list (reset_shift c) = map (\<lambda>(p, e, h, b). (p, e, 0, b)) (cell_list c)"
proof -
  note lens = cells_wf_lengths [OF cells_inv_wf [OF assms]]
  have size: "cells_size (reset_shift c) = cells_size c" by (simp add: cells_size_def reset_shift_def)
  show "\<not> c_has_shift (reset_shift c)" by (simp add: reset_shift_def)
  show "cell_list (reset_shift c) = map (\<lambda>(p, e, h, b). (p, e, 0, b)) (cell_list c)"
  proof (rule nth_equalityI)
    fix i assume "i < length (cell_list (reset_shift c))"
    then show "cell_list (reset_shift c) ! i = map (\<lambda>(p, e, h, b). (p, e, 0, b)) (cell_list c) ! i"
      using lens size by (simp add: cell_def) (simp add: reset_shift_def)
  qed (simp add: size)
  have "cells_wf (reset_shift c)"
    using cells_inv_wf [OF assms] by (auto simp: cells_wf_def size reset_shift_def cell_ok_def)
  with cells_inv_same_cells [OF assms] show "cells_inv (reset_shift c)" by (simp add: reset_shift_def)
qed

text \<open>Saving cells and writing them back.\<close>

definition saved :: "nat list \<Rightarrow> kv_cells \<Rightarrow> kv_cells \<Rightarrow> bool" where
  "saved idxs c d \<longleftrightarrow> cells_size d = length idxs \<and>
     (\<forall>j < length idxs. idxs ! j < cells_size c \<and> c_shift c ! (idxs ! j) = 0 \<and>
        c_pos d ! j = c_pos c ! (idxs ! j) \<and> c_ext d ! j = c_ext c ! (idxs ! j) \<and>
        c_seq d ! j = c_seq c ! (idxs ! j))"

lemma cells_cp_saved:
  assumes "cells_cp idxs c = Some d"
  shows "saved idxs c d"
proof -
  let ?n = "length idxs"
  let ?P = "\<lambda>k d. cells_size d = ?n \<and> length (c_ext d) = ?n \<and> length (c_seq d) = ?n \<and>
     (\<forall>j < k. idxs ! j < cells_size c \<and> c_shift c ! (idxs ! j) = 0 \<and>
        c_pos d ! j = c_pos c ! (idxs ! j) \<and> c_ext d ! j = c_ext c ! (idxs ! j) \<and>
        c_seq d ! j = c_seq c ! (idxs ! j))"
  have "?P ?n d"
  proof (rule foldo_upt_keeps [OF assms [unfolded cells_cp_def], where P = ?P])
    show "?P 0 (cells_resize ?n cells_empty)"
      using cells_wf_lengths [OF cells_inv_wf [OF cells_resize_spec(1) [of ?n cells_empty]]] by simp
  next
    fix i s s'
    assume "i < ?n" "?P i s" "cells_cp_at c (idxs ! i) i s = Some s'"
    then show "?P (Suc i) s'"
      by (auto simp: cells_cp_at_def cells_size_def nth_list_update less_Suc_eq split: if_splits)
  qed
  then show ?thesis by (simp add: saved_def)
qed

lemma cells_cp_total:
  assumes "\<forall>i \<in> set idxs. i < cells_size c \<and> c_shift c ! i = 0"
  shows "\<exists>d. cells_cp idxs c = Some d"
proof -
  have "\<exists>d. foldo (\<lambda>j res. cells_cp_at c (idxs ! j) j res) [0..<length idxs] s = Some d \<and> True" for s
    by (rule foldo_upt_invariant) (use assms in \<open>auto simp: cells_cp_at_def\<close>)
  then show ?thesis by (auto simp: cells_cp_def)
qed

lemma cells_set_saved:
  assumes d: "saved idxs c0 d" and c0: "cells_inv c0" and c: "cells_inv c"
    and size: "cells_size c = cells_size c0" and shift: "\<forall>i \<in> set idxs. c_shift c ! i = 0"
  obtains c' where "cells_set idxs d c = Some c'" "cells_inv c'" "c_has_shift c' = c_has_shift c"
    "cell_list c' = map (\<lambda>i. if i \<in> set idxs then cell c0 i else cell c i) [0..<cells_size c]"
proof -
  let ?n = "length idxs"
  let ?tab = "\<lambda>k. map (\<lambda>i. if i \<in> set (take k idxs) then cell c0 i else cell c i) [0..<cells_size c]"
  let ?P = "\<lambda>k c'. cells_inv c' \<and> c_has_shift c' = c_has_shift c \<and> cell_list c' = ?tab k"
  have "\<exists>c'. foldo (\<lambda>j c. cells_set_at d (idxs ! j) j c) [0..<?n] c = Some c' \<and> ?P ?n c'"
  proof (rule foldo_upt_invariant)
    show "?P 0 c" using c by (simp add: cell_list_def)
  next
    fix j c1
    assume j: "j < ?n" and P: "?P j c1"
    let ?i = "idxs ! j"
    have s1: "cells_size c1 = cells_size c" using arg_cong [OF conjunct2 [OF conjunct2 [OF P]], of length] by simp
    have i: "?i < cells_size c0" "c_shift c0 ! ?i = 0" and dj: "c_pos d ! j = c_pos c0 ! ?i"
      "c_ext d ! j = c_ext c0 ! ?i" "c_seq d ! j = c_seq c0 ! ?i"
      using d j by (auto simp: saved_def)
    have "cell_list c1 ! ?i = ?tab j ! ?i" using P by simp
    then have "cell c1 ?i = (if ?i \<in> set (take j idxs) then cell c0 ?i else cell c ?i)"
      using i(1) size s1 by simp
    then have sh: "c_shift c1 ! ?i = 0" using i(2) shift j by (auto simp: cell_def split: if_splits)
    have ok: "cell_ok (c_pos d ! j) 0 (c_seq d ! j)"
      using cells_wf_cell [OF cells_inv_wf [OF c0] i(1)] i(2) by (simp add: dj)
    obtain c2 where c2: "cells_set_at d ?i j c1 = Some c2" "cells_inv c2"
        "cell_list c2 = (cell_list c1)[?i := (c_pos d ! j, c_ext d ! j, 0, c_seq d ! j)]"
        "c_has_shift c2 = c_has_shift c1"
      by (rule cells_set_at_spec [of c1 ?i d j]) (use P i(1) size s1 sh ok in auto)
    have "cell_list c2 = ?tab (Suc j)"
      unfolding c2(3) conjunct2 [OF conjunct2 [OF P]]
      by (rule nth_equalityI)
        (use j i size dj in \<open>auto simp: nth_list_update take_Suc_conv_app_nth cell_def\<close>)
    with c2 P show "\<exists>c2. cells_set_at d ?i j c1 = Some c2 \<and> ?P (Suc j) c2" by auto
  qed
  then obtain c' where "foldo (\<lambda>j c. cells_set_at d (idxs ! j) j c) [0..<?n] c = Some c'" "?P ?n c'" by blast
  moreover have "cells_size d = ?n" using d by (simp add: saved_def)
  ultimately show thesis by (intro that [of c']) (auto simp: cells_set_def)
qed

end
