(* ===== verification/Kv_Table.thy ===== *)
theory Kv_Table
  imports Kv_Cells
begin

text \<open>
  The abstract specification of \<open>llama_kv_cells\<close>: a table of cells with no cached summaries. The
  refinement theorem says that every run of the class, over any sequence of its state-changing
  operations whose preconditions hold, does not stop, keeps the invariant and has exactly the
  effect of the table operations; the other properties are about the summaries and about saving
  and restoring cells.
\<close>

section \<open>The specification\<close>

datatype cells_op =
    OpReset
  | OpResetShift
  | OpResize nat
  | OpRm nat
  | OpSeqRm nat int
  | OpSeqKeep nat int
  | OpSeqAdd nat int
  | OpPosSet nat int
  | OpExtSet nat kv_cell_ext
  | OpPosAdd nat int
  | OpPosDiv nat int

text \<open>The operation of the class (its boolean result, where it has one, is dropped here).\<close>

fun cells_run :: "cells_op \<Rightarrow> kv_cells \<Rightarrow> kv_cells option" where
  "cells_run OpReset c = Some (cells_reset c)"
| "cells_run OpResetShift c = Some (reset_shift c)"
| "cells_run (OpResize n) c = Some (cells_resize n c)"
| "cells_run (OpRm i) c = cells_rm i c"
| "cells_run (OpSeqRm i s) c = map_option snd (cells_seq_rm i s c)"
| "cells_run (OpSeqKeep i s) c = map_option snd (cells_seq_keep i s c)"
| "cells_run (OpSeqAdd i s) c = cells_seq_add i s c"
| "cells_run (OpPosSet i p) c = pos_set i p c"
| "cells_run (OpExtSet i e) c = ext_set i e c"
| "cells_run (OpPosAdd i d) c = map_option snd (pos_add i d c)"
| "cells_run (OpPosDiv i d) c = pos_div i d c"

text \<open>The table operation and when a caller may invoke it, both without the summaries.\<close>

fun cell_op :: "cells_op \<Rightarrow> cell \<Rightarrow> cell" where
  "cell_op (OpRm i) (p, e, h, b) = free_cell"
| "cell_op (OpSeqRm i s) (p, e, h, b) = (if b = {s} then free_cell else (p, e, h, b - {s}))"
| "cell_op (OpSeqKeep i s) (p, e, h, b) =
     (if s \<in> b then (p, e, h, {s}) else if b \<noteq> {} then free_cell else (p, e, h, b))"
| "cell_op (OpSeqAdd i s) (p, e, h, b) = (p, e, h, insert s b)"
| "cell_op (OpPosSet i q) (p, e, h, b) = (q, e, 0, {})"
| "cell_op (OpExtSet i e') (p, e, h, b) = (p, e', h, b)"
| "cell_op (OpPosAdd i d) (p, e, h, b) = (if p + d < 0 then (-1, e, 0, {}) else (p + d, e, h + d, b))"
| "cell_op (OpPosDiv i d) (p, e, h, b) = (p div d, e, h + (p - p div d), b)"
| "cell_op _ x = x"

fun op_cell :: "cells_op \<Rightarrow> nat" where
  "op_cell (OpRm i) = i"
| "op_cell (OpSeqRm i s) = i"
| "op_cell (OpSeqKeep i s) = i"
| "op_cell (OpSeqAdd i s) = i"
| "op_cell (OpPosSet i q) = i"
| "op_cell (OpExtSet i e') = i"
| "op_cell (OpPosAdd i d) = i"
| "op_cell (OpPosDiv i d) = i"
| "op_cell _ = 0"

fun table_op :: "cells_op \<Rightarrow> cell list \<Rightarrow> cell list" where
  "table_op OpReset tab = map (\<lambda>_. free_cell) tab"
| "table_op OpResetShift tab = map (\<lambda>(p, e, h, b). (p, e, 0, b)) tab"
| "table_op (OpResize n) tab = replicate n free_cell"
| "table_op op tab = tab[op_cell op := cell_op op (tab ! op_cell op)]"

fun cell_pre :: "cells_op \<Rightarrow> cell \<Rightarrow> bool" where
  "cell_pre (OpRm i) (p, e, h, b) \<longleftrightarrow> p \<noteq> -1"
| "cell_pre (OpSeqRm i s) (p, e, h, b) \<longleftrightarrow> s \<in> b"
| "cell_pre (OpSeqKeep i s) (p, e, h, b) \<longleftrightarrow> 0 \<le> s \<and> s < LLAMA_MAX_SEQ \<and> (p \<noteq> -1 \<longrightarrow> b \<noteq> {})"
| "cell_pre (OpSeqAdd i s) (p, e, h, b) \<longleftrightarrow> p \<noteq> -1 \<and> 0 \<le> s \<and> s < LLAMA_MAX_SEQ \<and> s \<notin> b"
| "cell_pre (OpPosSet i q) (p, e, h, b) \<longleftrightarrow> p = -1 \<and> 0 \<le> q \<and> q \<le> INT32_MAX"
| "cell_pre (OpExtSet i e') (p, e, h, b) \<longleftrightarrow> True"
| "cell_pre (OpPosAdd i d) (p, e, h, b) \<longleftrightarrow> p \<noteq> -1 \<and> is_i32 (p + d) \<and> is_i32 (h + d)"
| "cell_pre (OpPosDiv i d) (p, e, h, b) \<longleftrightarrow> p \<noteq> -1 \<and> 0 < d \<and> is_i32 (h + (p - p div d))"
| "cell_pre _ _ \<longleftrightarrow> True"

fun op_pre :: "cells_op \<Rightarrow> cell list \<Rightarrow> bool" where
  "op_pre OpReset tab \<longleftrightarrow> True"
| "op_pre OpResetShift tab \<longleftrightarrow> True"
| "op_pre (OpResize n) tab \<longleftrightarrow> True"
| "op_pre op tab \<longleftrightarrow> op_cell op < length tab \<and> cell_pre op (tab ! op_cell op)"

fun ops_pre :: "cells_op list \<Rightarrow> cell list \<Rightarrow> bool" where
  "ops_pre [] tab \<longleftrightarrow> True"
| "ops_pre (op # ops) tab \<longleftrightarrow> op_pre op tab \<and> ops_pre ops (table_op op tab)"

section \<open>Refinement\<close>

lemma cells_run_refines:
  assumes "cells_inv c" "op_pre op (cell_list c)"
  shows "\<exists>c'. cells_run op c = Some c' \<and> cells_inv c' \<and> cell_list c' = table_op op (cell_list c)"
proof (cases op)
  case OpReset
  with cells_inv_reset [OF assms(1)] show ?thesis by (simp add: map_replicate_const)
next
  case OpResetShift
  with reset_shift_spec [OF assms(1)] show ?thesis by simp
next
  case (OpResize n)
  with cells_resize_spec [of n c] show ?thesis by simp
next
  case (OpRm i)
  with assms(2) have pre: "i < cells_size c" "c_pos c ! i \<noteq> -1" by (auto simp: cell_def)
  show ?thesis by (rule cells_rm_spec [OF assms(1) pre]) (use OpRm pre in \<open>simp add: cell_def\<close>)
next
  case (OpSeqRm i s)
  with assms(2) have pre: "i < cells_size c" "s \<in> c_seq c ! i" by (auto simp: cell_def)
  show ?thesis by (rule cells_seq_rm_spec [OF assms(1) pre]) (use OpSeqRm pre in \<open>simp add: cell_def\<close>)
next
  case (OpSeqKeep i s)
  with assms(2) have pre: "i < cells_size c" "0 \<le> s" "s < LLAMA_MAX_SEQ"
    "c_pos c ! i \<noteq> -1 \<Longrightarrow> c_seq c ! i \<noteq> {}" by (auto simp add: cell_def)
  show ?thesis by (rule cells_seq_keep_spec [OF assms(1) pre]) (use OpSeqKeep pre in \<open>simp_all add: cell_def\<close>)
next
  case (OpSeqAdd i s)
  with assms(2) have pre: "i < cells_size c" "c_pos c ! i \<noteq> -1" "0 \<le> s" "s < LLAMA_MAX_SEQ" "s \<notin> c_seq c ! i"
    by (auto simp: cell_def)
  show ?thesis by (rule cells_seq_add_spec [OF assms(1) pre]) (use OpSeqAdd pre in \<open>simp add: cell_def\<close>)
next
  case (OpPosSet i p)
  with assms(2) have pre: "i < cells_size c" "c_pos c ! i = -1" "0 \<le> p" "p \<le> INT32_MAX"
    by (auto simp: cell_def)
  show ?thesis by (rule pos_set_spec [OF assms(1) pre]) (use OpPosSet pre in \<open>simp add: cell_def\<close>)
next
  case (OpExtSet i e)
  with assms(2) have pre: "i < cells_size c" by simp
  show ?thesis by (rule ext_set_spec [OF assms(1) pre, of e]) (use OpExtSet pre in \<open>simp add: cell_def\<close>)
next
  case (OpPosAdd i d)
  with assms(2) have pre: "i < cells_size c" "c_pos c ! i \<noteq> -1" "is_i32 (c_pos c ! i + d)" "is_i32 (c_shift c ! i + d)"
    by (auto simp: cell_def)
  show ?thesis by (rule pos_add_spec [OF assms(1) pre]) (use OpPosAdd pre in \<open>simp add: cell_def\<close>)
next
  case (OpPosDiv i d)
  with assms(2) have pre: "i < cells_size c" "c_pos c ! i \<noteq> -1" "0 < d"
    "is_i32 (c_shift c ! i + (c_pos c ! i - c_pos c ! i div d))" by (auto simp: cell_def)
  show ?thesis by (rule pos_div_spec [OF assms(1) pre]) (use OpPosDiv pre in \<open>simp add: cell_def\<close>)
qed

lemma cells_runs_refine:
  assumes "cells_inv c" "ops_pre ops (cell_list c)"
  shows "\<exists>c'. foldo cells_run ops c = Some c' \<and> cells_inv c' \<and>
     cell_list c' = fold table_op ops (cell_list c)"
  using assms
proof (induction ops arbitrary: c)
  case (Cons op ops)
  then have "op_pre op (cell_list c)" by simp
  from cells_run_refines [OF Cons.prems(1) this] obtain c1
    where "cells_run op c = Some c1" "cells_inv c1" "cell_list c1 = table_op op (cell_list c)" by blast
  with Cons.IH [of c1] Cons.prems show ?case by simp
qed simp

text \<open>
  C1 (refinement): any sequence of state-changing operations of \<open>llama_kv_cells\<close> whose
  preconditions hold in the table specification runs to completion with no failed assertion,
  keeps the invariant (the set of used cells and the per-sequence position counts describe the
  cells) and leaves exactly the table the specification computes.
\<close>

theorem cells_refine_table:
  assumes "cells_inv c" "ops_pre ops (cell_list c)"
  shows "\<exists>c'. foldo cells_run ops c = Some c' \<and> cells_inv c' \<and>
     cell_list c' = fold table_op ops (cell_list c)"
  by (rule cells_runs_refine [OF assms])

theorem cells_refine_table_witness:
  "\<exists>c'. foldo cells_run [OpPosSet 1 7, OpSeqAdd 1 0, OpSeqAdd 1 3, OpSeqRm 1 0, OpPosAdd 1 2]
        (cells_resize 3 cells_empty) = Some c' \<and> cells_inv c' \<and>
     cell_list c' = [free_cell, (9, ext_zero, 2, {3}), free_cell]"
proof -
  let ?ops = "[OpPosSet 1 7, OpSeqAdd 1 0, OpSeqAdd 1 3, OpSeqRm 1 0, OpPosAdd 1 2]"
  have tab: "cell_list (cells_resize 3 cells_empty) = [free_cell, free_cell, free_cell]"
    by (simp add: cells_resize_spec numeral_3_eq_3)
  have "ops_pre ?ops (cell_list (cells_resize 3 cells_empty))"
    unfolding tab by (simp add: free_cell_def LLAMA_MAX_SEQ_def i32_defs)
  moreover have "fold table_op ?ops (cell_list (cells_resize 3 cells_empty)) =
      [free_cell, (9, ext_zero, 2, {3}), free_cell]"
    unfolding tab by (auto simp add: free_cell_def)
  ultimately show ?thesis
    using cells_refine_table [OF cells_resize_spec(1) [of 3 cells_empty], of ?ops] by simp
qed

section \<open>The summaries\<close>

lemma seq_positions_cell_list: "seq_positions c s = {p. \<exists>e h b. (p, e, h, b) \<in> set (cell_list c) \<and> s \<in> b}"
  by (force simp: seq_positions_def cell_list_def cell_def)

text \<open>
  C3 (functional): the extreme positions that \<open>seq_pos_min\<close> and \<open>seq_pos_max\<close> read off the ends of
  a sequence's position map are the least and the greatest position of the cells of that
  sequence, and \<open>-1\<close> when no cell has it.
\<close>

theorem seq_pos_extremes:
  assumes "cells_inv c" "0 \<le> s" "s < LLAMA_MAX_SEQ"
  shows "cells_seq_pos_min s c = Some (if seq_positions c s = {} then -1 else Min (seq_positions c s)) \<and>
     cells_seq_pos_max s c = Some (if seq_positions c s = {} then -1 else Max (seq_positions c s))"
  using cells_seq_pos_min_eq [OF assms] cells_seq_pos_max_eq [OF assms] by simp

theorem seq_pos_extremes_witness:
  "\<exists>c. cell_list c = [(9, ext_zero, 0, {0, 1}), free_cell, (5, ext_zero, 0, {1})]
     \<and> cells_seq_pos_min 0 c = Some 9 \<and> cells_seq_pos_max 0 c = Some 9
     \<and> cells_seq_pos_min 1 c = Some 5 \<and> cells_seq_pos_max 1 c = Some 9
     \<and> cells_seq_pos_min 2 c = Some (-1) \<and> cells_seq_pos_max 2 c = Some (-1)"
proof -
  let ?ops = "[OpPosSet 0 9, OpSeqAdd 0 0, OpSeqAdd 0 1, OpPosSet 2 5, OpSeqAdd 2 1]"
  have tab: "cell_list (cells_resize 3 cells_empty) = [free_cell, free_cell, free_cell]"
    by (simp add: cells_resize_spec numeral_3_eq_3)
  have "ops_pre ?ops (cell_list (cells_resize 3 cells_empty))"
    unfolding tab by (simp add: free_cell_def LLAMA_MAX_SEQ_def i32_defs)
  from cells_runs_refine [OF cells_resize_spec(1) [of 3 cells_empty] this] obtain c where
    c: "cells_inv c" "cell_list c = fold table_op ?ops [free_cell, free_cell, free_cell]" unfolding tab by blast
  have list: "cell_list c = [(9, ext_zero, 0, {0, 1}), free_cell, (5, ext_zero, 0, {1})]"
    unfolding c(2) by (auto simp add: free_cell_def)
  have pos: "seq_positions c s = {p. \<exists>e h b. (p, e, h, b) \<in> set (cell_list c) \<and> s \<in> b}" for s
    by (rule seq_positions_cell_list)
  have "seq_positions c 0 = {9}" "seq_positions c 1 = {5, 9}" "seq_positions c 2 = {}"
    unfolding pos list by (auto simp: free_cell_def)
  with list seq_pos_extremes [OF c(1), of 0] seq_pos_extremes [OF c(1), of 1] seq_pos_extremes [OF c(1), of 2]
  show ?thesis by (intro exI [of _ c]) (simp add: LLAMA_MAX_SEQ_def)
qed

lemma used_cells_bounds:
  assumes "cells_inv c" "i < cells_size c" "c_pos c ! i \<noteq> -1"
  shows "used_min c \<le> i" "i < used_max_p1 c"
proof -
  have fin: "finite (c_used c)" using assms(1) by (simp add: cells_inv_def cells_wf_def)
  have i: "i \<in> c_used c" using cells_wf_used [OF cells_inv_wf [OF assms(1)] assms(2)] assms(3) by simp
  then show "used_min c \<le> i" "i < used_max_p1 c"
    using Min_le [OF fin i] Max_ge [OF fin i] by (auto simp: used_min_def used_max_p1_def)
qed

section \<open>Saving and restoring\<close>

lemma restored_table:
  assumes "cells_size c1 = cells_size c" "\<forall>i < cells_size c. i \<notin> set idxs \<longrightarrow> cell c1 i = cell c i"
  shows "map (\<lambda>i. if i \<in> set idxs then cell c i else cell c1 i) [0..<cells_size c1] = cell_list c"
  using assms by (intro nth_equalityI) (auto simp: cell_list_def)

lemma cells_set_restores:
  assumes "cells_inv c" "cells_cp idxs c = Some d" "cells_inv c1" "cells_size c1 = cells_size c"
    and "\<forall>i \<in> set idxs. c_shift c1 ! i = 0" "\<forall>i < cells_size c. i \<notin> set idxs \<longrightarrow> cell c1 i = cell c i"
    and "c_has_shift c1 = c_has_shift c"
  shows "cells_set idxs d c1 = Some c"
proof -
  obtain c' where c': "cells_set idxs d c1 = Some c'" "cells_inv c'" "c_has_shift c' = c_has_shift c1"
    "cell_list c' = map (\<lambda>i. if i \<in> set idxs then cell c i else cell c1 i) [0..<cells_size c1]"
    using cells_set_saved [OF cells_cp_saved [OF assms(2)] assms(1,3,4,5)] by blast
  have "c' = c" using cells_eqI [OF c'(2) assms(1)] restored_table [OF assms(4,6)] c'(3,4) assms(7) by simp
  with c'(1) show ?thesis by simp
qed

text \<open>
  C2 (round trip): \<open>cp\<close> of a list of cells followed, after any changes that stay within those cells
  and add no pending shift, by \<open>set\<close> of the copy on the same list brings back the state exactly as
  it was, summaries included.
\<close>

theorem cells_cp_set_roundtrip:
  assumes "cells_inv c" "cells_cp idxs c = Some d" "cells_inv c1" "cells_size c1 = cells_size c"
    and "\<forall>i \<in> set idxs. c_shift c1 ! i = 0" "\<forall>i < cells_size c. i \<notin> set idxs \<longrightarrow> cell c1 i = cell c i"
    and "c_has_shift c1 = c_has_shift c"
  shows "cells_set idxs d c1 = Some c"
  by (rule cells_set_restores [OF assms])

theorem cells_cp_set_roundtrip_witness:
  "\<exists>d c1. cells_cp [1] (cells_resize 2 cells_empty) = Some d \<and>
     pos_set 1 5 (cells_resize 2 cells_empty) = Some c1 \<and>
     cells_set [1] d c1 = Some (cells_resize 2 cells_empty)"
proof -
  let ?c = "cells_resize 2 cells_empty"
  have inv: "cells_inv ?c" by (rule cells_resize_spec)
  have ev: "c_pos ?c = [-1, -1]" "c_shift ?c = [0, 0]" "cells_size ?c = 2"
    by (simp_all add: cells_resize_def cells_reset_def vec_resize_def cells_empty_def cells_size_def
        numeral_2_eq_2)
  obtain d where d: "cells_cp [1] ?c = Some d" using cells_cp_total [of "[1]" ?c] ev by auto
  obtain c1 where c1: "pos_set 1 5 ?c = Some c1" "cells_inv c1"
    "cell_list c1 = (cell_list ?c)[1 := (5, c_ext ?c ! 1, 0, {})]" "c_has_shift c1 = c_has_shift ?c"
    using pos_set_spec [OF inv, of 1 5] by (auto simp: ev INT32_MAX_def)
  have size: "cells_size c1 = cells_size ?c" using arg_cong [OF c1(3), of length] by simp
  have at: "cell_list c1 ! i = (cell_list ?c)[1 := (5, c_ext ?c ! 1, 0, {})] ! i" for i by (simp add: c1(3))
  have "c_shift c1 ! 1 = 0" using at [of 1] size ev by (simp add: cell_def)
  moreover have "cell c1 0 = cell ?c 0" using at [of 0] size ev by (simp add: nth_list_update)
  ultimately have "cells_set [1] d c1 = Some ?c"
    by (intro cells_cp_set_roundtrip [OF inv d c1(2) size _ _ c1(4)]) (auto simp: ev less_2_cases_iff)
  with d c1(1) show ?thesis by blast
qed

end
