(* ===== verification/Hparams.thy ===== *)
theory Hparams
  imports Prelude
begin

text \<open>
  The derived hyper-parameters of a model: \<open>llama-hparams.cpp\<close>. The record holds the fields the
  functions of that file read; \<open>uint32_t\<close> fields are natural numbers and products and sums of them
  wrap through \<open>u32\<close>. The arrays have \<open>LLAMA_MAX_LAYERS\<close> entries; an index outside an array, and
  the \<open>GGML_ABORT\<close> of the per-layer getters, is \<^term>\<open>None\<close>.
\<close>

datatype llama_swa_type = SWA_NONE | SWA_STANDARD | SWA_CHUNKED | SWA_SYMMETRIC

datatype llama_rope_type = ROPE_NONE | ROPE_NORM | ROPE_NEOX | ROPE_MROPE | ROPE_IMROPE | ROPE_VISION

record llama_hparams =
  h_n_embd :: nat
  h_n_layer :: nat
  h_n_layer_kv_from_start :: int
  h_n_embd_head_k :: nat
  h_n_embd_head_v :: nat
  h_n_rel_attn_bkts :: nat
  h_n_shortconv_l_cache :: nat
  h_n_head_arr :: "nat list"
  h_n_head_kv_arr :: "nat list"
  h_n_ff_arr :: "nat list"
  h_n_bskcn_arr :: "nat list list"
  h_wkv_head_size :: nat
  h_token_shift_count :: nat
  h_rope_sections :: "int list"
  h_swa_type :: llama_swa_type
  h_n_swa :: nat
  h_swa_layers :: "bool list"
  h_ssm_d_conv :: nat
  h_ssm_d_inner :: nat
  h_ssm_d_state :: nat
  h_ssm_n_group :: nat
  h_recurrent_layer_arr :: "bool list"
  h_use_alibi :: bool
  h_n_deepstack_layers :: nat
  h_rope_type :: llama_rope_type

definition LLAMA_MAX_LAYERS :: nat where "LLAMA_MAX_LAYERS = 512"

section \<open>Operations\<close>

definition set_swa_layer :: "(nat \<Rightarrow> bool) \<Rightarrow> nat \<Rightarrow> llama_hparams \<Rightarrow> llama_hparams option" where
  "set_swa_layer f il h = do {
     ensure (il < length (h_swa_layers h));
     Some (h\<lparr>h_swa_layers := (h_swa_layers h)[il := f il]\<rparr>) }"

definition set_swa_pattern :: "nat \<Rightarrow> bool \<Rightarrow> llama_hparams \<Rightarrow> llama_hparams option" where
  "set_swa_pattern n_pattern dense_first h =
     (if dense_first
      then foldo (set_swa_layer (\<lambda>il. n_pattern = 0 \<or> il mod n_pattern \<noteq> 0)) [0..<h_n_layer h] h
      else foldo (set_swa_layer (\<lambda>il. n_pattern = 0 \<or> il mod n_pattern < n_pattern - 1))
             [0..<h_n_layer h] h)"

fun any_layer :: "(nat \<Rightarrow> bool option) \<Rightarrow> nat list \<Rightarrow> bool option" where
  "any_layer f [] = Some False"
| "any_layer f (il # ils) = do { b \<leftarrow> f il; (if b then Some True else any_layer f ils) }"

definition is_swa_any :: "llama_hparams \<Rightarrow> bool option" where
  "is_swa_any h = any_layer (nth_opt (h_swa_layers h)) [0..<h_n_layer h]"

definition n_head :: "nat \<Rightarrow> llama_hparams \<Rightarrow> nat option" where
  "n_head il h = (if il < h_n_layer h then nth_opt (h_n_head_arr h) il else None)"

definition n_head_kv :: "nat \<Rightarrow> llama_hparams \<Rightarrow> nat option" where
  "n_head_kv il h = (if il < h_n_layer h then nth_opt (h_n_head_kv_arr h) il else None)"

definition n_ff :: "nat \<Rightarrow> llama_hparams \<Rightarrow> nat option" where
  "n_ff il h = (if il < h_n_layer h then nth_opt (h_n_ff_arr h) il else None)"

definition n_gqa :: "nat \<Rightarrow> llama_hparams \<Rightarrow> nat option" where
  "n_gqa il h = do {
     nh \<leftarrow> n_head il h;
     nkv \<leftarrow> n_head_kv il h;
     (if nkv = 0 then Some 0 else Some (nh div nkv)) }"

definition n_embd_inp :: "llama_hparams \<Rightarrow> nat" where
  "n_embd_inp h =
     (if h_n_deepstack_layers h > 0
      then u32 (h_n_embd h + u32 (h_n_embd h * h_n_deepstack_layers h)) else h_n_embd h)"

definition n_embd_k_gqa :: "nat \<Rightarrow> llama_hparams \<Rightarrow> nat option" where
  "n_embd_k_gqa il h = do { nkv \<leftarrow> n_head_kv il h; Some (u32 (h_n_embd_head_k h * nkv)) }"

definition n_embd_v_gqa :: "nat \<Rightarrow> llama_hparams \<Rightarrow> nat option" where
  "n_embd_v_gqa il h = do { nkv \<leftarrow> n_head_kv il h; Some (u32 (h_n_embd_head_v h * nkv)) }"

definition is_n_embd_k_gqa_variable :: "llama_hparams \<Rightarrow> bool option" where
  "is_n_embd_k_gqa_variable h = do {
     val \<leftarrow> n_embd_k_gqa 0 h;
     any_layer (\<lambda>il. do { v \<leftarrow> n_embd_k_gqa il h; Some (val \<noteq> v) }) [0..<h_n_layer h] }"

definition is_n_embd_v_gqa_variable :: "llama_hparams \<Rightarrow> bool option" where
  "is_n_embd_v_gqa_variable h = do {
     val \<leftarrow> n_embd_v_gqa 0 h;
     any_layer (\<lambda>il. do { v \<leftarrow> n_embd_v_gqa il h; Some (val \<noteq> v) }) [0..<h_n_layer h] }"

definition n_embd_k_gqa_max :: "llama_hparams \<Rightarrow> nat option" where
  "n_embd_k_gqa_max h = do {
     val \<leftarrow> n_embd_k_gqa 0 h;
     foldo (\<lambda>il val. do { v \<leftarrow> n_embd_k_gqa il h; Some (max val v) }) [0..<h_n_layer h] val }"

definition n_embd_v_gqa_max :: "llama_hparams \<Rightarrow> nat option" where
  "n_embd_v_gqa_max h = do {
     val \<leftarrow> n_embd_v_gqa 0 h;
     foldo (\<lambda>il val. do { v \<leftarrow> n_embd_v_gqa il h; Some (max val v) }) [0..<h_n_layer h] val }"

definition n_embd_r :: "llama_hparams \<Rightarrow> nat" where
  "n_embd_r h =
     (if h_wkv_head_size h \<noteq> 0 then u32 (h_token_shift_count h * h_n_embd h)
      else if h_n_shortconv_l_cache h \<noteq> 0 then u32 (h_n_embd h * (h_n_shortconv_l_cache h - 1))
      else u32 ((if h_ssm_d_conv h > 0 then h_ssm_d_conv h - 1 else 0) *
             u32 (h_ssm_d_inner h + u32 (u32 (2 * h_ssm_n_group h) * h_ssm_d_state h))))"

definition n_embd_s :: "llama_hparams \<Rightarrow> nat" where
  "n_embd_s h =
     (if h_wkv_head_size h \<noteq> 0 then u32 (h_n_embd h * h_wkv_head_size h)
      else u32 (h_ssm_d_state h * h_ssm_d_inner h))"

definition is_recurrent :: "nat \<Rightarrow> llama_hparams \<Rightarrow> bool option" where
  "is_recurrent il h = (if il < h_n_layer h then nth_opt (h_recurrent_layer_arr h) il else None)"

definition n_pos_per_embd :: "llama_hparams \<Rightarrow> nat" where
  "n_pos_per_embd h = (if h_rope_type h = ROPE_MROPE \<or> h_rope_type h = ROPE_IMROPE then 4 else 1)"

definition n_bskcn :: "nat \<Rightarrow> nat \<Rightarrow> llama_hparams \<Rightarrow> bool option" where
  "n_bskcn n il h =
     (if il < h_n_layer h
      then do { row \<leftarrow> nth_opt (h_n_bskcn_arr h) n; v \<leftarrow> nth_opt row il; Some (v > 0) } else None)"

definition is_swa :: "nat \<Rightarrow> llama_hparams \<Rightarrow> bool option" where
  "is_swa il h = (if il < h_n_layer h then nth_opt (h_swa_layers h) il else None)"

definition has_kv :: "nat \<Rightarrow> llama_hparams \<Rightarrow> bool" where
  "has_kv il h =
     (if h_n_layer_kv_from_start h \<ge> 0 then il < nat (h_n_layer_kv_from_start h) else True)"

definition n_layer_kv :: "llama_hparams \<Rightarrow> nat" where
  "n_layer_kv h = fold (\<lambda>il res. if has_kv il h then res + 1 else res) [0..<h_n_layer h] 0"

definition i32_of_u32 :: "nat \<Rightarrow> int" where
  "i32_of_u32 n = (if n < 2147483648 then int n else int n - 4294967296)"

definition is_masked_swa :: "nat \<Rightarrow> llama_swa_type \<Rightarrow> int \<Rightarrow> int \<Rightarrow> bool option" where
  "is_masked_swa n_swa swa_type p0 p1 = do {
     ensure (p0 \<ge> 0 \<and> p1 \<ge> 0);
     (case swa_type of
        SWA_NONE \<Rightarrow> Some False
      | SWA_STANDARD \<Rightarrow> Some (p1 - p0 \<ge> i32_of_u32 n_swa)
      | SWA_CHUNKED \<Rightarrow> do {
          ensure (n_swa \<noteq> 0);
          let pos_chunk_start = (p1 div int n_swa) * int n_swa;
          Some (p0 < pos_chunk_start) }
      | SWA_SYMMETRIC \<Rightarrow>
          let half_n_swa = tdiv (i32_of_u32 n_swa) 2; pos_diff = p1 - p0
          in Some (pos_diff < - half_n_swa \<or> pos_diff > half_n_swa)) }"

definition use_mrope :: "llama_hparams \<Rightarrow> bool option" where
  "use_mrope h = do {
     s0 \<leftarrow> nth_opt (h_rope_sections h) 0;
     s1 \<leftarrow> nth_opt (h_rope_sections h) 1;
     Some (s0 > 0 \<and> s1 > 0) }"

section \<open>Lemmas\<close>

lemma set_swa_layers_loop:
  assumes "n \<le> length (h_swa_layers h)"
  obtains h' where "foldo (set_swa_layer f) [0..<n] h = Some h'"
    "h' = h\<lparr>h_swa_layers := map f [0..<n] @ drop n (h_swa_layers h)\<rparr>"
proof -
  let ?P = "\<lambda>k h'. h' = h\<lparr>h_swa_layers := map f [0..<k] @ drop k (h_swa_layers h)\<rparr>"
  have "\<exists>h'. foldo (set_swa_layer f) [0..<n] h = Some h' \<and> ?P n h'"
  proof (rule foldo_upt_invariant [where P = ?P])
    fix i s
    assume i: "i < n" and s: "?P i s"
    have "(map f [0..<i] @ drop i (h_swa_layers h))[i := f i] =
        map f [0..<Suc i] @ drop (Suc i) (h_swa_layers h)"
      using i assms by (auto simp: list_update_append Cons_nth_drop_Suc [symmetric])
    then show "\<exists>s'. set_swa_layer f i s = Some s' \<and> ?P (Suc i) s'"
      using i assms s by (simp add: set_swa_layer_def)
  qed simp
  then show thesis using that by blast
qed

lemma any_layer_Some:
  assumes "\<And>il. il \<in> set ils \<Longrightarrow> f il = Some (g il)"
  shows "any_layer f ils = Some (\<exists>il \<in> set ils. g il)"
  using assms by (induction ils) auto

lemma foldo_max:
  assumes "\<And>i. i < n \<Longrightarrow> f i = Some (g i)"
  shows "foldo (\<lambda>i m. do { v \<leftarrow> f i; Some (max m v) }) [0..<n] (m0::nat) = Some (Max (insert m0 (g ` {..<n})))"
proof -
  let ?P = "\<lambda>k m. m = Max (insert m0 (g ` {..<k}))"
  have "\<exists>m. foldo (\<lambda>i m. do { v \<leftarrow> f i; Some (max m v) }) [0..<n] m0 = Some m \<and> ?P n m"
  proof (rule foldo_upt_invariant [where P = ?P])
    fix i s
    assume "i < n" "?P i s"
    moreover have "insert m0 (g ` {..<Suc i}) = insert (g i) (insert m0 (g ` {..<i}))"
      by (auto simp: lessThan_Suc)
    ultimately show "\<exists>s'. (do { v \<leftarrow> f i; Some (max s v) }) = Some s' \<and> ?P (Suc i) s'"
      using assms by (simp add: max.commute)
  qed simp
  then show ?thesis by simp
qed

lemma i32_of_u32_nonneg: "n < 2147483648 \<Longrightarrow> i32_of_u32 n = int n"
  by (simp add: i32_of_u32_def)

lemma is_masked_swa_total:
  "0 \<le> p0 \<Longrightarrow> 0 \<le> p1 \<Longrightarrow> (t = SWA_CHUNKED \<longrightarrow> n \<noteq> 0) \<Longrightarrow> \<exists>b. is_masked_swa n t p0 p1 = Some b"
  by (cases t) (auto simp: is_masked_swa_def Let_def)

lemma is_masked_swa_none: "is_masked_swa n SWA_NONE p0 p1 = Some b \<Longrightarrow> \<not> b"
  by (simp add: is_masked_swa_def split: if_splits)


lemma n_layer_kv_count: "n_layer_kv h = card {il. il < h_n_layer h \<and> has_kv il h}"
proof -
  have "fold (\<lambda>il res. if P il then res + 1 else res) [0..<n] r = r + card {il. il < n \<and> P il}" for P n and r :: nat
  proof (induction n)
    case (Suc n)
    have "{il. il < Suc n \<and> P il} = (if P n then insert n {il. il < n \<and> P il} else {il. il < n \<and> P il})"
      by (auto simp: less_Suc_eq)
    with Suc show ?case by simp
  qed simp
  then show ?thesis by (simp add: n_layer_kv_def)
qed

lemma n_embd_k_gqa_layer:
  assumes "h_n_layer h \<le> length (h_n_head_kv_arr h)" "il < h_n_layer h"
  shows "n_embd_k_gqa il h = Some (u32 (h_n_embd_head_k h * h_n_head_kv_arr h ! il))"
  using assms by (simp add: n_embd_k_gqa_def n_head_kv_def)

section \<open>Properties\<close>

text \<open>A configuration for the witnesses: four layers, two key/value heads in the last one.\<close>

definition demo_hparams :: llama_hparams where
  "demo_hparams = \<lparr>h_n_embd = 64, h_n_layer = 4, h_n_layer_kv_from_start = 3, h_n_embd_head_k = 16,
     h_n_embd_head_v = 16, h_n_rel_attn_bkts = 0, h_n_shortconv_l_cache = 0,
     h_n_head_arr = [4, 4, 4, 4], h_n_head_kv_arr = [1, 1, 1, 2], h_n_ff_arr = [8, 8, 8, 8],
     h_n_bskcn_arr = [], h_wkv_head_size = 0, h_token_shift_count = 2, h_rope_sections = [0, 0, 0, 0],
     h_swa_type = SWA_STANDARD, h_n_swa = 2, h_swa_layers = [False, False, False, False],
     h_ssm_d_conv = 0, h_ssm_d_inner = 0, h_ssm_d_state = 0, h_ssm_n_group = 0,
     h_recurrent_layer_arr = [False, False, False, False], h_use_alibi = False,
     h_n_deepstack_layers = 0, h_rope_type = ROPE_NORM\<rparr>"

text \<open>
  \<open>set_swa_pattern\<close> never leaves its array for a model within the layer limit and
  makes exactly the layers of the pattern sliding-window layers: with period \<open>n > 0\<close> one layer in
  each \<open>n\<close> is dense, the first of its group when \<open>dense_first\<close> is set and the last one otherwise,
  with period 0 no layer is dense, and the entries past the last layer keep their value.
\<close>

theorem set_swa_pattern_layers:
  assumes "h_n_layer h \<le> length (h_swa_layers h)"
  shows "\<exists>h'. set_swa_pattern n dense_first h = Some h' \<and>
     (\<forall>il < h_n_layer h. is_swa il h' = Some (n = 0 \<or> il mod n \<noteq> (if dense_first then 0 else n - 1))) \<and>
     drop (h_n_layer h) (h_swa_layers h') = drop (h_n_layer h) (h_swa_layers h) \<and>
     h_n_layer h' = h_n_layer h"
proof -
  define f where "f = (\<lambda>il. n = 0 \<or> il mod n \<noteq> (if dense_first then 0 else n - 1))"
  have "(n = 0 \<or> il mod n < n - 1) = (n = 0 \<or> il mod n \<noteq> n - 1)" for il
    using mod_less_divisor [of n il] by linarith
  then have run: "set_swa_pattern n dense_first h = foldo (set_swa_layer f) [0..<h_n_layer h] h"
    by (auto simp: set_swa_pattern_def f_def)
  obtain h' where h': "foldo (set_swa_layer f) [0..<h_n_layer h] h = Some h'"
    "h' = h\<lparr>h_swa_layers := map f [0..<h_n_layer h] @ drop (h_n_layer h) (h_swa_layers h)\<rparr>"
    by (rule set_swa_layers_loop [OF assms])
  have "is_swa il h' = Some (f il)" if "il < h_n_layer h" for il
    using that unfolding h'(2) by (simp add: is_swa_def nth_append)
  then show ?thesis using h' run unfolding f_def by (intro exI [of _ h']) simp
qed

theorem set_swa_pattern_layers_witness:
  "\<exists>h'. set_swa_pattern 2 False demo_hparams = Some h' \<and> is_swa 0 h' = Some True \<and>
     is_swa 1 h' = Some False \<and> is_swa 2 h' = Some True \<and> is_swa 3 h' = Some False"
proof -
  from set_swa_pattern_layers [of demo_hparams 2 False] obtain h' where
    h': "set_swa_pattern 2 False demo_hparams = Some h'"
      "\<forall>il < 4. is_swa il h' = Some (il mod 2 \<noteq> 1)"
    by (auto simp: demo_hparams_def)
  show ?thesis
    by (intro exI [of _ h'] conjI) (use h' in simp_all)
qed

text \<open>
  \<open>n_embd_k_gqa_max\<close> is the greatest key width over the layers: it is the width of some
  layer and no layer is wider; and when \<open>is_n_embd_k_gqa_variable\<close> answers false every layer has
  exactly this width.
\<close>

theorem n_embd_k_gqa_max_bound:
  assumes "0 < h_n_layer h" "h_n_layer h \<le> length (h_n_head_kv_arr h)"
  shows "\<exists>m. n_embd_k_gqa_max h = Some m \<and> (\<exists>il < h_n_layer h. n_embd_k_gqa il h = Some m) \<and>
     (\<forall>il < h_n_layer h. \<exists>v \<le> m. n_embd_k_gqa il h = Some v) \<and>
     (is_n_embd_k_gqa_variable h = Some False \<longrightarrow> (\<forall>il < h_n_layer h. n_embd_k_gqa il h = Some m))"
proof -
  define g where "g = (\<lambda>il. u32 (h_n_embd_head_k h * h_n_head_kv_arr h ! il))"
  have eq: "n_embd_k_gqa il h = Some (g il)" if "il < h_n_layer h" for il
    using that assms(2) by (simp add: g_def n_embd_k_gqa_layer)
  define m where "m = Max (g ` {..<h_n_layer h})"
  have ne: "g ` {..<h_n_layer h} \<noteq> {}" and fin: "finite (g ` {..<h_n_layer h})" using assms(1) by auto
  have "insert (g 0) (g ` {..<h_n_layer h}) = g ` {..<h_n_layer h}" using assms(1) by auto
  then have max: "n_embd_k_gqa_max h = Some m"
    using foldo_max [of "h_n_layer h" "\<lambda>il. n_embd_k_gqa il h" g "g 0"] eq assms(1)
    by (simp add: n_embd_k_gqa_max_def m_def)
  have mem: "m \<in> g ` {..<h_n_layer h}" unfolding m_def by (rule Max_in [OF fin ne])
  then have attained: "\<exists>il < h_n_layer h. n_embd_k_gqa il h = Some m" using eq by auto
  have bound: "\<forall>il < h_n_layer h. \<exists>v \<le> m. n_embd_k_gqa il h = Some v"
    using eq fin by (auto simp: m_def)
  have var: "is_n_embd_k_gqa_variable h = Some (\<exists>il < h_n_layer h. g 0 \<noteq> g il)"
    using any_layer_Some [of "[0..<h_n_layer h]" "\<lambda>il. do { v \<leftarrow> n_embd_k_gqa il h; Some (g 0 \<noteq> v) }"
        "\<lambda>il. g 0 \<noteq> g il"] eq assms(1)
    by (auto simp: is_n_embd_k_gqa_variable_def)
  have "n_embd_k_gqa il h = Some m" if v: "is_n_embd_k_gqa_variable h = Some False" and il: "il < h_n_layer h" for il
  proof -
    have all: "g il = g 0" if "il < h_n_layer h" for il using v that unfolding var option.inject by metis
    have "m = g 0" using mem all by blast
    then show ?thesis using eq [OF il] all [OF il] by simp
  qed
  with max attained bound show ?thesis by blast
qed

theorem n_embd_k_gqa_max_bound_witness:
  "n_embd_k_gqa_max demo_hparams = Some 32 \<and> (\<exists>il < 4. n_embd_k_gqa il demo_hparams = Some 32)"
proof -
  have "n_embd_k_gqa_max demo_hparams = Some 32"
    by (simp add: demo_hparams_def n_embd_k_gqa_max_def n_embd_k_gqa_def n_head_kv_def upt_rec [of _ 4])
  with n_embd_k_gqa_max_bound [of demo_hparams] show ?thesis by (simp add: demo_hparams_def)
qed

text \<open>
  \<open>n_layer_kv\<close> counts the layers that own key/value data: the first
  \<open>n_layer_kv_from_start\<close> layers when that field is not negative (all of them when it exceeds the
  number of layers), and every layer otherwise.
\<close>

theorem n_layer_kv_eq:
  "n_layer_kv h =
     (if h_n_layer_kv_from_start h \<ge> 0 then min (h_n_layer h) (nat (h_n_layer_kv_from_start h))
      else h_n_layer h)"
proof -
  have "{il. il < h_n_layer h \<and> has_kv il h} =
      {..<(if h_n_layer_kv_from_start h \<ge> 0 then min (h_n_layer h) (nat (h_n_layer_kv_from_start h))
           else h_n_layer h)}"
    by (auto simp: has_kv_def)
  then show ?thesis by (simp add: n_layer_kv_count)
qed

text \<open>
  C4 (safety): for keys that are not in the future of the query, sliding-window masking is monotone in
  the query position: a key at \<open>p0\<close> that is masked for a query at \<open>p1 \<ge> p0\<close> stays masked for every later
  query \<open>p2 \<ge> p1\<close>. This is what lets the cache reuse the cell of a masked key for good. (A symmetric
  window masks a key ahead of the query, too, and later no longer.)
\<close>

theorem is_masked_swa_mono:
  assumes "0 \<le> p0" "p0 \<le> p1" "p1 \<le> p2" "n < 2147483648" "is_masked_swa n t p0 p1 = Some True"
  shows "is_masked_swa n t p0 p2 = Some True"
proof (cases t)
  case SWA_CHUNKED
  with assms have less: "p0 < p1 div int n * int n" and "n \<noteq> 0"
    by (auto simp: is_masked_swa_def Let_def split: if_splits)
  have "p1 div int n * int n \<le> p2 div int n * int n"
    using assms(3) \<open>n \<noteq> 0\<close> by (intro mult_right_mono zdiv_mono1) auto
  with less have "p0 < p2 div int n * int n" by (rule order_less_le_trans)
  with \<open>n \<noteq> 0\<close> show ?thesis using SWA_CHUNKED assms(1-3) by (simp add: is_masked_swa_def Let_def)
next
  case SWA_SYMMETRIC
  have "0 \<le> tdiv (int n) 2" by (simp add: tdiv_pos)
  with SWA_SYMMETRIC assms show ?thesis by (auto simp: is_masked_swa_def Let_def i32_of_u32_nonneg)
qed (use assms in \<open>auto simp: is_masked_swa_def\<close>)

theorem is_masked_swa_mono_witness:
  "is_masked_swa 4 SWA_CHUNKED 3 5 = Some True \<and> is_masked_swa 4 SWA_CHUNKED 3 11 = Some True"
proof -
  have "is_masked_swa 4 SWA_CHUNKED 3 5 = Some True" by (simp add: is_masked_swa_def)
  with is_masked_swa_mono [of 3 5 11 4 SWA_CHUNKED] show ?thesis by simp
qed

end
