(* ===== verification/Batch.thy ===== *)
theory Batch
  imports Kv_Cells
begin

text \<open>
  Input batches and their splitting into micro-batches: \<open>llama-batch.cpp\<close> and \<open>llama-batch.h\<close>.
  A pointer of \<open>llama_batch\<close> that may be null is an option; the array behind it is a list, and an
  access outside it is \<^term>\<open>None\<close>. Embedding values are only copied, never computed with: a value is
  its bit pattern. The storage vectors \<open>pos\<close>, \<open>n_seq_id\<close>, \<open>seq_id\<close> and \<open>output\<close> of the allocator only
  back the pointers of its \<open>batch\<close>, so the generated data is put into \<open>batch\<close> directly. Logging and
  the debug printing behind \<open>LLAMA_BATCH_DEBUG\<close> are left out: they change no state.
\<close>

section \<open>Data\<close>

record llama_batch =
  b_n_tokens :: int
  b_token :: "int list option"
  b_embd :: "nat list option"
  b_pos :: "int list option"
  b_n_seq_id :: "int list option"
  b_seq_id :: "int list list option"
  b_logits :: "int list option"

record llama_ubatch =
  u_equal_seqs :: bool
  u_n_tokens :: nat
  u_n_seq_tokens :: nat
  u_n_seqs :: nat
  u_n_seqs_unq :: nat
  u_n_pos :: nat
  u_token :: "int list option"
  u_embd :: "nat list option"
  u_pos :: "int list"
  u_n_seq_id :: "int list"
  u_seq_id :: "int list list"
  u_seq_id_unq :: "int list"
  u_seq_idx :: "int \<Rightarrow> int"
  u_output :: "int list"

definition is_pos_2d :: "llama_ubatch \<Rightarrow> bool" where
  "is_pos_2d u \<longleftrightarrow> u_n_pos u \<ge> 3"

text \<open>The value-initialised micro-batch \<open>{}\<close>, which says that nothing is left.\<close>

definition ubatch_none :: llama_ubatch where
  "ubatch_none = \<lparr>u_equal_seqs = False, u_n_tokens = 0, u_n_seq_tokens = 0, u_n_seqs = 0,
     u_n_seqs_unq = 0, u_n_pos = 0, u_token = None, u_embd = None, u_pos = [], u_n_seq_id = [],
     u_seq_id = [], u_seq_id_unq = [], u_seq_idx = (\<lambda>_. -1), u_output = []\<rparr>"

record batch_allocr =
  a_batch :: llama_batch
  a_n_pos_per_embd :: nat
  a_n_embd :: nat
  a_n_seq_max :: nat
  a_n_outputs :: nat
  a_seq_id_unq :: "int list"
  a_seq_idx :: "int \<Rightarrow> int"
  a_has_cpl :: bool
  a_seq_pos :: "int \<Rightarrow> int set"
  a_seq_cpl :: "int \<Rightarrow> int \<Rightarrow> bool"
  a_seq_set :: "seq_set list"
  a_seq_set_map :: "seq_set \<Rightarrow> nat list"
  a_out_ids :: "nat list"
  a_n_used :: nat
  a_used :: "bool list"

text \<open>What the allocator asks of a memory module (\<open>llama_memory_i\<close>).\<close>

record memory_i =
  mem_seq_pos_min :: "int \<Rightarrow> int option"
  mem_seq_pos_max :: "int \<Rightarrow> int option"

definition batch_null :: llama_batch where
  "batch_null = \<lparr>b_n_tokens = 0, b_token = None, b_embd = None, b_pos = None,
     b_n_seq_id = None, b_seq_id = None, b_logits = None\<rparr>"

definition batch_allocr_new :: "nat \<Rightarrow> batch_allocr" where
  "batch_allocr_new n_pos_per_embd =
     \<lparr>a_batch = batch_null, a_n_pos_per_embd = n_pos_per_embd, a_n_embd = 0, a_n_seq_max = 0,
      a_n_outputs = 0, a_seq_id_unq = [], a_seq_idx = (\<lambda>_. -1), a_has_cpl = False,
      a_seq_pos = (\<lambda>_. {}), a_seq_cpl = (\<lambda>_ _. False), a_seq_set = [], a_seq_set_map = (\<lambda>_. []),
      a_out_ids = [], a_n_used = 0, a_used = []\<rparr>"

section \<open>Accessors\<close>

definition deref :: "'a list option \<Rightarrow> nat \<Rightarrow> 'a option" where
  "deref ptr i = (case ptr of None \<Rightarrow> None | Some xs \<Rightarrow> nth_opt xs i)"

definition get_n_tokens :: "batch_allocr \<Rightarrow> nat" where
  "get_n_tokens a = nat (b_n_tokens (a_batch a))"

definition get_n_outputs :: "batch_allocr \<Rightarrow> nat" where
  "get_n_outputs a = a_n_outputs a"

definition get_n_used :: "batch_allocr \<Rightarrow> nat" where
  "get_n_used a = a_n_used a"

definition get_out_ids :: "batch_allocr \<Rightarrow> nat list" where
  "get_out_ids a = a_out_ids a"

definition batch_seq_pos_min :: "int \<Rightarrow> batch_allocr \<Rightarrow> int" where
  "batch_seq_pos_min s a = (if a_seq_pos a s = {} then -1 else Min (a_seq_pos a s))"

definition batch_seq_pos_max :: "int \<Rightarrow> batch_allocr \<Rightarrow> int" where
  "batch_seq_pos_max s a = (if a_seq_pos a s = {} then -1 else Max (a_seq_pos a s))"

text \<open>The sequence ids of token \<open>i\<close>: \<open>seq_id[i][0 .. n_seq_id[i])\<close>.\<close>

definition token_seq_ids :: "llama_batch \<Rightarrow> nat \<Rightarrow> int list option" where
  "token_seq_ids b i = do {
     n \<leftarrow> deref (b_n_seq_id b) i;
     ids \<leftarrow> deref (b_seq_id b) i;
     ensure (nat n \<le> length ids);
     Some (take (nat n) ids) }"

section \<open>Initialisation\<close>

definition batch_clear :: "batch_allocr \<Rightarrow> batch_allocr" where
  "batch_clear a =
     a\<lparr>a_n_outputs := 0, a_batch := batch_null, a_seq_id_unq := [], a_seq_pos := (\<lambda>_. {}),
       a_seq_cpl := (\<lambda>_ _. False), a_seq_set := [], a_seq_set_map := (\<lambda>_. []), a_seq_idx := (\<lambda>_. -1)\<rparr>"

definition split_reset :: "batch_allocr \<Rightarrow> batch_allocr" where
  "split_reset a =
     a\<lparr>a_out_ids := [], a_n_used := 0, a_used := replicate (get_n_tokens a) False\<rparr>"

text \<open>A loop that returns from the function on the first bad element.\<close>

fun all_ok :: "('a \<Rightarrow> bool option) \<Rightarrow> 'a list \<Rightarrow> bool option" where
  "all_ok f [] = Some True"
| "all_ok f (x # xs) = do { b \<leftarrow> f x; (if b then all_ok f xs else Some False) }"

subsection \<open>Validation of the input\<close>

definition batch_validate :: "llama_batch \<Rightarrow> nat \<Rightarrow> nat \<Rightarrow> bool option" where
  "batch_validate b n_vocab n_seq_max =
     (if int n_seq_max > LLAMA_MAX_SEQ then Some False
      else do {
        ok \<leftarrow> (if b_token b \<noteq> None
               then all_ok (\<lambda>i. do { t \<leftarrow> deref (b_token b) i; Some (\<not> (t < 0 \<or> t \<ge> int n_vocab)) })
                      [0..<nat (b_n_tokens b)]
               else Some True);
        (if \<not> ok then Some False
         else if b_seq_id b \<noteq> None
         then all_ok (\<lambda>i. do {
                ids \<leftarrow> token_seq_ids b i;
                all_ok (\<lambda>s. Some (\<not> (s < 0 \<or> s \<ge> int n_seq_max))) ids })
              [0..<nat (b_n_tokens b)]
         else Some True) })"

subsection \<open>Missing fields\<close>

definition fill_seq_id :: "llama_batch \<Rightarrow> llama_batch" where
  "fill_seq_id b =
     (let b1 = (if b_n_seq_id b = None
                then b\<lparr>b_n_seq_id := Some (replicate (nat (b_n_tokens b)) 1)\<rparr> else b)
      in if b_seq_id b1 = None
         then b1\<lparr>b_seq_id := Some (replicate (nat (b_n_tokens b1)) [0])\<rparr> else b1)"

definition start_pos :: "memory_i option \<Rightarrow> int \<Rightarrow> int option" where
  "start_pos mem s = (case mem of None \<Rightarrow> Some 0
     | Some m \<Rightarrow> do { p \<leftarrow> mem_seq_pos_max m s; add_i32 p 1 })"

definition fill_pos_step ::
  "llama_batch \<Rightarrow> nat \<Rightarrow> nat \<Rightarrow> (int \<Rightarrow> int) \<times> int list \<Rightarrow> ((int \<Rightarrow> int) \<times> int list) option" where
  "fill_pos_step b n_seq_max i = (\<lambda>(p0, pos). do {
     ids \<leftarrow> deref (b_seq_id b) i;
     seq_id \<leftarrow> nth_opt ids 0;
     ensure (0 \<le> seq_id \<and> seq_id < int n_seq_max);
     let p = p0 seq_id;
     all_ids \<leftarrow> token_seq_ids b i;
     p0' \<leftarrow> foldo (\<lambda>s p0. do {
              ensure (0 \<le> s \<and> s < int n_seq_max);
              q \<leftarrow> add_i32 p 1;
              Some (p0(s := q)) }) all_ids p0;
     Some (p0', pos @ [p]) })"

definition fill_pos :: "memory_i option \<Rightarrow> nat \<Rightarrow> llama_batch \<Rightarrow> llama_batch option" where
  "fill_pos mem n_seq_max b =
     (if b_pos b = None
      then do {
        p0 \<leftarrow> foldo (\<lambda>s p0. do { p \<leftarrow> start_pos mem s; Some (p0(s := p)) }) [0..int n_seq_max - 1] (\<lambda>_. 0);
        r \<leftarrow> foldo (fill_pos_step b n_seq_max) [0..<nat (b_n_tokens b)] (p0, []);
        Some (b\<lparr>b_pos := Some (snd r)\<rparr>) }
      else Some b)"

definition fill_logits :: "bool \<Rightarrow> llama_batch \<Rightarrow> llama_batch option" where
  "fill_logits output_all b =
     (let n = nat (b_n_tokens b) in
      case b_logits b of
        None \<Rightarrow>
          (if output_all then Some (b\<lparr>b_logits := Some (replicate n 1)\<rparr>)
           else do {
             ensure (n > 0);
             Some (b\<lparr>b_logits := Some ((replicate n 0)[n - 1 := 1])\<rparr>) })
      | Some l \<Rightarrow>
          (if output_all
           then do {
             ensure (n \<le> length l);
             (if \<exists>i < n. l ! i = 0 then Some (b\<lparr>b_logits := Some (replicate n 1)\<rparr>) else Some b) }
           else Some b))"

subsection \<open>Statistics\<close>

definition count_outputs :: "llama_batch \<Rightarrow> nat option" where
  "count_outputs b =
     foldo (\<lambda>i n. do { l \<leftarrow> deref (b_logits b) i; Some (if l \<noteq> 0 then n + 1 else n) })
       [0..<nat (b_n_tokens b)] 0"

definition couple_step :: "nat \<Rightarrow> batch_allocr \<Rightarrow> batch_allocr option" where
  "couple_step i a = do {
     ids0 \<leftarrow> deref (b_seq_id (a_batch a)) i;
     s0 \<leftarrow> nth_opt ids0 0;
     ids \<leftarrow> token_seq_ids (a_batch a) i;
     foldo (\<lambda>k a. do {
         let s1 = ids ! k;
         p \<leftarrow> deref (b_pos (a_batch a)) i;
         ensure (0 \<le> s1 \<and> s1 < LLAMA_MAX_SEQ);
         let a = a\<lparr>a_seq_pos := (a_seq_pos a)(s1 := insert p (a_seq_pos a s1))\<rparr>;
         (if k > 0
          then do {
            ensure (0 \<le> s0 \<and> s0 < LLAMA_MAX_SEQ);
            Some (a\<lparr>a_seq_cpl := (a_seq_cpl a)(s1 := (a_seq_cpl a s1)(s0 := True)), a_has_cpl := True\<rparr>) }
          else Some a) })
       [0..<length ids] a }"

definition seq_set_step :: "nat \<Rightarrow> batch_allocr \<times> seq_set \<Rightarrow> (batch_allocr \<times> seq_set) option" where
  "seq_set_step i = (\<lambda>(a, unq). do {
     ids \<leftarrow> token_seq_ids (a_batch a) i;
     ensure (\<forall>s \<in> set ids. 0 \<le> s \<and> s < LLAMA_MAX_SEQ);
     let cur = set ids;
     Some (a\<lparr>a_seq_set := a_seq_set a @ [cur],
             a_seq_set_map := (a_seq_set_map a)(cur := a_seq_set_map a cur @ [i])\<rparr>, unq \<union> cur) })"

definition index_seqs :: "seq_set \<Rightarrow> nat \<Rightarrow> (int \<Rightarrow> int) \<times> int list \<Rightarrow> (int \<Rightarrow> int) \<times> int list" where
  "index_seqs unq n_seq_max =
     fold (\<lambda>s (idx, ids). if s \<in> unq then (idx(s := int (length ids)), ids @ [s]) else (idx, ids))
       [0..int n_seq_max - 1]"

definition batch_stats :: "nat \<Rightarrow> nat \<Rightarrow> batch_allocr \<Rightarrow> batch_allocr option" where
  "batch_stats n_embd n_seq_max a0 = do {
     let n = nat (b_n_tokens (a_batch a0));
     let a1 = a0\<lparr>a_n_embd := n_embd, a_n_seq_max := n_seq_max\<rparr>;
     n_out \<leftarrow> count_outputs (a_batch a1);
     let a2 = a1\<lparr>a_n_outputs := a_n_outputs a1 + n_out, a_has_cpl := False\<rparr>;
     a3 \<leftarrow> foldo couple_step [0..<n] a2;
     r \<leftarrow> foldo seq_set_step [0..<n] (a3, {});
     let (a4, unq) = r;
     let (idx, ids) = index_seqs unq n_seq_max (a_seq_idx a4, a_seq_id_unq a4);
     Some (a4\<lparr>a_seq_idx := idx, a_seq_id_unq := ids\<rparr>) }"

subsection \<open>Consistency checks\<close>

definition mem_last :: "memory_i option \<Rightarrow> int \<Rightarrow> int option" where
  "mem_last mem s = (case mem of None \<Rightarrow> Some (-1) | Some m \<Rightarrow> mem_seq_pos_max m s)"

definition check_positions :: "memory_i option \<Rightarrow> batch_allocr \<Rightarrow> bool option" where
  "check_positions mem a =
     all_ok (\<lambda>s.
       if a_seq_pos a s = {} then Some True
       else do {
         p0 \<leftarrow> mem_last mem s;
         (if a_n_pos_per_embd a > 1
          then (if b_token (a_batch a) \<noteq> None
                then Some (\<not> (p0 \<ge> 0 \<and> p0 \<ge> batch_seq_pos_min s a))
                else Some (\<not> (p0 \<ge> 0 \<and> p0 > batch_seq_pos_min s a)))
          else do {
            ok \<leftarrow> (if p0 \<ge> 0 then do { q \<leftarrow> add_i32 p0 1; Some (batch_seq_pos_min s a = q) }
                   else Some True);
            (if \<not> ok then Some False
             else do {
               d \<leftarrow> sub_i32 (batch_seq_pos_max s a) (batch_seq_pos_min s a);
               d1 \<leftarrow> add_i32 d 1;
               Some (\<not> (d1 > int (card (a_seq_pos a s)))) }) }) })
     [0..int (a_n_seq_max a) - 1]"

definition check_coupled :: "memory_i option \<Rightarrow> batch_allocr \<Rightarrow> bool option" where
  "check_coupled mem a =
     (case mem of None \<Rightarrow> Some True
      | Some m \<Rightarrow>
          all_ok (\<lambda>s0. all_ok (\<lambda>s1.
            if a_seq_cpl a s0 s1
            then do {
              min0 \<leftarrow> mem_seq_pos_min m s0; min1 \<leftarrow> mem_seq_pos_min m s1;
              max0 \<leftarrow> mem_seq_pos_max m s0; max1 \<leftarrow> mem_seq_pos_max m s1;
              Some (\<not> (min0 \<noteq> min1 \<or> max0 \<noteq> max1)) }
            else Some True) [0..int (a_n_seq_max a) - 1]) [0..int (a_n_seq_max a) - 1])"

text \<open>
  The last check walks the tokens with \<open>cur_seq_set\<close>, initially full, and \<open>cur_seq_pos\<close>, initially
  \<open>-1\<close>. The code intersects \<open>cur_seq_set\<close> with the set of the token; it never writes
  \<open>cur_seq_pos\<close>, which is therefore no part of the state the loops hand on.
\<close>

definition check_order_seq ::
  "nat \<Rightarrow> (int \<Rightarrow> int) \<Rightarrow> int \<Rightarrow> seq_set \<Rightarrow> int \<Rightarrow> bool \<times> (int \<Rightarrow> seq_set)
     \<Rightarrow> (bool \<times> (int \<Rightarrow> seq_set)) option" where
  "check_order_seq n_seq_max cur_seq_pos p ss s = (\<lambda>(ok, cur_seq_set).
     if \<not> ok then Some (ok, cur_seq_set)
     else do {
       ensure (0 \<le> s \<and> s < int n_seq_max);
       let cur_seq_set = cur_seq_set(s := cur_seq_set s \<inter> ss);
       (if cur_seq_set s = {} then Some (False, cur_seq_set)
        else if p < cur_seq_pos s then Some (False, cur_seq_set)
        else Some (True, cur_seq_set)) })"

definition check_order_token ::
  "batch_allocr \<Rightarrow> (int \<Rightarrow> int) \<Rightarrow> nat \<Rightarrow> bool \<times> (int \<Rightarrow> seq_set) \<Rightarrow> (bool \<times> (int \<Rightarrow> seq_set)) option" where
  "check_order_token a cur_seq_pos i = (\<lambda>(ok, cur_seq_set).
     if \<not> ok then Some (ok, cur_seq_set)
     else do {
       p \<leftarrow> deref (b_pos (a_batch a)) i;
       ids \<leftarrow> token_seq_ids (a_batch a) i;
       ss \<leftarrow> nth_opt (a_seq_set a) i;
       foldo (check_order_seq (a_n_seq_max a) cur_seq_pos p ss) ids (True, cur_seq_set) })"

definition check_order :: "batch_allocr \<Rightarrow> bool option" where
  "check_order a = map_option fst
     (foldo (check_order_token a (\<lambda>_. -1)) [0..<nat (b_n_tokens (a_batch a))]
       (True, \<lambda>_. {0..LLAMA_MAX_SEQ - 1}))"

definition batch_init ::
  "llama_batch \<Rightarrow> nat \<Rightarrow> memory_i option \<Rightarrow> nat \<Rightarrow> nat \<Rightarrow> bool \<Rightarrow> batch_allocr
     \<Rightarrow> (bool \<times> batch_allocr) option" where
  "batch_init inp n_vocab mem n_embd n_seq_max output_all a0 = do {
     let a1 = (batch_clear a0)\<lparr>a_batch := inp\<rparr>;
     ensure (b_n_tokens inp > 0);
     ok \<leftarrow> batch_validate inp n_vocab n_seq_max;
     (if \<not> ok then Some (False, a1)
      else do {
        b2 \<leftarrow> fill_pos mem n_seq_max (fill_seq_id inp);
        b3 \<leftarrow> fill_logits output_all b2;
        a4 \<leftarrow> batch_stats n_embd n_seq_max (a1\<lparr>a_batch := b3\<rparr>);
        ok1 \<leftarrow> check_positions mem a4;
        (if \<not> ok1 then Some (False, a4)
         else do {
           ok2 \<leftarrow> check_coupled mem a4;
           (if \<not> ok2 then Some (False, a4)
            else do {
              ok3 \<leftarrow> check_order a4;
              (if \<not> ok3 then Some (False, a4) else Some (True, split_reset a4)) }) }) }) }"

section \<open>Splitting\<close>

definition ubatch_token :: "batch_allocr \<Rightarrow> nat list \<Rightarrow> int list option option" where
  "ubatch_token a idxs = (case b_token (a_batch a) of None \<Rightarrow> Some None
     | Some t \<Rightarrow> map_option Some (those (map (nth_opt t) idxs)))"

definition ubatch_embd :: "batch_allocr \<Rightarrow> nat list \<Rightarrow> nat list option option" where
  "ubatch_embd a idxs = (case b_embd (a_batch a) of None \<Rightarrow> Some None
     | Some e \<Rightarrow> (if \<forall>i \<in> set idxs. (i + 1) * a_n_embd a \<le> length e
         then Some (Some (concat (map (\<lambda>i. take (a_n_embd a) (drop (i * a_n_embd a) e)) idxs))) else None))"

text \<open>
  \<open>udata->pos[j*n_tokens + i]\<close>: for text the position of the token is repeated in every section,
  for embeddings the sections of the input are copied.
\<close>

definition ubatch_pos :: "batch_allocr \<Rightarrow> nat list \<Rightarrow> int list option" where
  "ubatch_pos a idxs =
     those [deref (b_pos (a_batch a))
              ((if b_token (a_batch a) \<noteq> None then 0 else j * nat (b_n_tokens (a_batch a))) + i).
            j \<leftarrow> [0..<a_n_pos_per_embd a], i \<leftarrow> idxs]"

definition ubatch_add :: "nat list \<Rightarrow> nat \<Rightarrow> bool \<Rightarrow> batch_allocr \<Rightarrow> (llama_ubatch \<times> batch_allocr) option" where
  "ubatch_add idxs n_seqs equal_seqs a = do {
     let n_tokens = length idxs;
     ensure (n_seqs \<noteq> 0 \<and> n_tokens mod n_seqs = 0);
     tok \<leftarrow> ubatch_token a idxs;
     emb \<leftarrow> ubatch_embd a idxs;
     pos \<leftarrow> ubatch_pos a idxs;
     nsid \<leftarrow> those (map (deref (b_n_seq_id (a_batch a))) idxs);
     out \<leftarrow> those (map (deref (b_logits (a_batch a))) idxs);
     sids \<leftarrow> those (map (token_seq_ids (a_batch a)) idxs);
     ensure (\<forall>ids \<in> set sids. \<forall>s \<in> set ids. 0 \<le> s \<and> s < LLAMA_MAX_SEQ);
     let unq = \<Union> (set (map set sids));
     let (idx, ids) = index_seqs unq (a_n_seq_max a) ((\<lambda>_. -1), []);
     let a' = a\<lparr>a_out_ids := a_out_ids a @ map fst (filter (\<lambda>(i, o'). o' \<noteq> 0) (zip idxs out))\<rparr>;
     Some (\<lparr>u_equal_seqs = equal_seqs, u_n_tokens = n_tokens, u_n_seq_tokens = n_tokens div n_seqs,
            u_n_seqs = n_seqs, u_n_seqs_unq = length ids, u_n_pos = a_n_pos_per_embd a,
            u_token = tok, u_embd = emb, u_pos = pos, u_n_seq_id = nsid, u_seq_id = sids,
            u_seq_id_unq = ids, u_seq_idx = idx, u_output = out\<rparr>, a') }"

text \<open>\<open>while (cur_idx < used.size() && used[cur_idx]) ++cur_idx\<close>\<close>

definition first_unused :: "batch_allocr \<Rightarrow> nat" where
  "first_unused a = length (takeWhile id (a_used a))"

definition mark_used :: "nat \<Rightarrow> batch_allocr \<Rightarrow> batch_allocr" where
  "mark_used i a = a\<lparr>a_used := (a_used a)[i := True], a_n_used := a_n_used a + 1\<rparr>"

function simple_loop :: "nat \<Rightarrow> nat \<Rightarrow> nat list \<Rightarrow> batch_allocr \<Rightarrow> nat list \<times> batch_allocr" where
  "simple_loop n_ubatch cur_idx idxs a =
     (let idxs' = idxs @ [cur_idx]; a' = mark_used cur_idx a; cur_idx' = cur_idx + 1
      in if cur_idx' \<ge> length (a_used a') then (idxs', a')
         else if length idxs' \<ge> n_ubatch then (idxs', a')
         else simple_loop n_ubatch cur_idx' idxs' a')"
  by pat_completeness auto
termination
  by (relation "measure (\<lambda>(n, i, idxs, a). length (a_used a) - i)") (auto simp: mark_used_def)

definition split_simple :: "nat \<Rightarrow> batch_allocr \<Rightarrow> (llama_ubatch \<times> batch_allocr) option" where
  "split_simple n_ubatch a =
     (let cur_idx = first_unused a in
      if cur_idx \<ge> length (a_used a) then Some (ubatch_none, a)
      else let (idxs, a') = simple_loop n_ubatch cur_idx [] a
           in ubatch_add idxs (length idxs) False a')"

text \<open>The scan for non-overlapping sequence sets; \<open>cur_seq_set\<close> and \<open>last_seq_id\<close> are its state.\<close>

fun pick_seq_sets ::
  "nat \<Rightarrow> bool \<Rightarrow> batch_allocr \<Rightarrow> nat list \<Rightarrow> seq_set list \<Rightarrow> int \<Rightarrow> seq_set list option" where
  "pick_seq_sets n_ubatch sequential a [] cur last_id = Some cur"
| "pick_seq_sets n_ubatch sequential a (i # is) cur last_id = do {
     u \<leftarrow> nth_opt (a_used a) i;
     (if u then pick_seq_sets n_ubatch sequential a is cur last_id
      else do {
        ss \<leftarrow> nth_opt (a_seq_set a) i;
        let add0 = (\<forall>c \<in> set cur. c \<inter> ss = {});
        ids \<leftarrow> deref (b_seq_id (a_batch a)) i;
        sid \<leftarrow> nth_opt ids 0;
        let add = (if sequential then add0 \<and> (cur = [] \<or> sid = last_id + 1) else add0);
        (if add
         then (if length (cur @ [ss]) > n_ubatch then Some (cur @ [ss])
               else pick_seq_sets n_ubatch sequential a is (cur @ [ss]) sid)
         else pick_seq_sets n_ubatch sequential a is cur last_id) }) }"

text \<open>\<open>while (used[seq_set_map[cur_seq_set[s]][cur_idx[s]]]) ++cur_idx[s]\<close>\<close>

fun skip_used :: "bool list \<Rightarrow> nat list \<Rightarrow> nat option" where
  "skip_used used [] = None"
| "skip_used used (i # is) = do {
     u \<leftarrow> nth_opt used i;
     (if u then map_option Suc (skip_used used is) else Some 0) }"

text \<open>
  One round takes the next token of every sequence set. The state is the list of the index vectors
  still ahead of each set's \<open>cur_idx\<close>, the indices taken for each set, and the allocator.
\<close>

definition take_round :: "nat list list \<times> nat list list \<times> batch_allocr \<Rightarrow> nat list list \<times> nat list list \<times> batch_allocr" where
  "take_round = (\<lambda>(ahead, taken, a).
     (map tl ahead, map2 (\<lambda>t r. t @ [hd r]) taken ahead, fold (\<lambda>r a. mark_used (hd r) a) ahead a))"

function equal_loop ::
  "nat \<Rightarrow> nat list list \<Rightarrow> nat list list \<Rightarrow> batch_allocr \<Rightarrow> nat list list \<times> batch_allocr" where
  "equal_loop n_ubatch ahead taken a =
     (if ahead = [] \<or> [] \<in> set ahead then (taken, a)
      else let (ahead', taken', a') = take_round (ahead, taken, a)
           in if (length (hd taken') + 1) * length ahead > n_ubatch then (taken', a')
              else equal_loop n_ubatch ahead' taken' a')"
  by pat_completeness auto
termination
proof (relation "measure (\<lambda>(n, ahead, taken, a). length (hd ahead))", goal_cases)
  case (2 n_ubatch ahead taken a x xa y xb ya)
  then show ?case by (cases ahead; cases "hd ahead") (auto simp: take_round_def)
qed simp

definition split_equal :: "nat \<Rightarrow> bool \<Rightarrow> batch_allocr \<Rightarrow> (llama_ubatch \<times> batch_allocr) option" where
  "split_equal n_ubatch sequential a =
     (if sequential \<and> a_has_cpl a then Some (ubatch_none, a)
      else do {
        cur \<leftarrow> pick_seq_sets n_ubatch sequential a [0..<nat (b_n_tokens (a_batch a))] [] (-1);
        let n_seqs = length cur;
        (if n_seqs = 0 then Some (ubatch_none, a)
         else do {
           skips \<leftarrow> those (map (\<lambda>ss. skip_used (a_used a) (a_seq_set_map a ss)) cur);
           let ahead = map2 (\<lambda>k ss. drop k (a_seq_set_map a ss)) skips cur;
           let (taken, a') = equal_loop n_ubatch ahead (replicate n_seqs []) a;
           ubatch_add (concat taken) n_seqs True a' }) })"

text \<open>\<open>do ++cur_idx while (cur_idx < n && (used[cur_idx] || !subset))\<close>, from a start index.\<close>

function next_subset :: "batch_allocr \<Rightarrow> seq_set \<Rightarrow> nat \<Rightarrow> nat" where
  "next_subset a cur i =
     (if i < get_n_tokens a \<and> (a_used a ! i \<or> cur \<inter> a_seq_set a ! i \<noteq> a_seq_set a ! i)
      then next_subset a cur (Suc i) else i)"
  by pat_completeness auto
termination
  by (relation "measure (\<lambda>(a, cur, i). get_n_tokens a - i)") auto

function seq_loop :: "nat \<Rightarrow> nat \<Rightarrow> seq_set \<Rightarrow> nat list \<Rightarrow> batch_allocr \<Rightarrow> nat list \<times> batch_allocr" where
  "seq_loop n_ubatch cur_idx cur idxs a =
     (let idxs' = idxs @ [cur_idx]; a' = mark_used cur_idx a
      in if length idxs' \<ge> n_ubatch then (idxs', a')
         else let nxt = next_subset a' cur (Suc cur_idx)
              in if nxt \<ge> get_n_tokens a' then (idxs', a')
                 else seq_loop n_ubatch nxt (a_seq_set a' ! nxt) idxs' a')"
  by pat_completeness auto
termination
  by (relation "measure (\<lambda>(n, i, cur, idxs, a). n - length idxs)") auto

definition split_seq :: "nat \<Rightarrow> batch_allocr \<Rightarrow> (llama_ubatch \<times> batch_allocr) option" where
  "split_seq n_ubatch a =
     (let cur_idx = first_unused a in
      if cur_idx \<ge> length (a_used a) then Some (ubatch_none, a)
      else do {
        cur \<leftarrow> nth_opt (a_seq_set a) cur_idx;
        let (idxs, a') = seq_loop n_ubatch cur_idx cur [] a;
        ubatch_add idxs 1 True a' })"

definition ubatch_reserve :: "nat \<Rightarrow> nat \<Rightarrow> batch_allocr \<Rightarrow> (llama_ubatch \<times> batch_allocr) option" where
  "ubatch_reserve n_seq_tokens n_seqs a = do {
     let n_tokens = u32 (n_seq_tokens * n_seqs);
     let a' = split_reset (batch_clear a);
     ensure (int n_seqs \<le> LLAMA_MAX_SEQ);
     Some (\<lparr>u_equal_seqs = True, u_n_tokens = n_tokens, u_n_seq_tokens = n_seq_tokens,
            u_n_seqs = n_seqs, u_n_seqs_unq = n_seqs, u_n_pos = a_n_pos_per_embd a,
            u_token = Some (replicate n_tokens 0), u_embd = None, u_pos = replicate n_tokens 0,
            u_n_seq_id = replicate n_tokens 0, u_seq_id = replicate n_tokens [],
            u_seq_id_unq = map int [0..<n_seqs],
            u_seq_idx = (\<lambda>s. if 0 \<le> s \<and> s < int n_seqs then s else -1),
            u_output = replicate n_tokens 0\<rparr>, a') }"

definition llama_batch_get_one :: "int list \<Rightarrow> int \<Rightarrow> llama_batch" where
  "llama_batch_get_one tokens n_tokens =
     \<lparr>b_n_tokens = n_tokens, b_token = Some tokens, b_embd = None, b_pos = None,
      b_n_seq_id = None, b_seq_id = None, b_logits = None\<rparr>"

text \<open>
  The loop of the memory modules that splits a whole batch: call the splitter until it returns an
  empty micro-batch. The first argument bounds the number of calls; running out is \<^term>\<open>None\<close>.
\<close>

fun split_run ::
  "(batch_allocr \<Rightarrow> (llama_ubatch \<times> batch_allocr) option) \<Rightarrow> nat \<Rightarrow> batch_allocr
     \<Rightarrow> (llama_ubatch list \<times> batch_allocr) option" where
  "split_run split 0 a = None"
| "split_run split (Suc k) a = do {
     (u, a1) \<leftarrow> split a;
     (if u_n_tokens u = 0 then Some ([], a1)
      else do {
        (us, a2) \<leftarrow> split_run split k a1;
        Some (u # us, a2) }) }"

declare simple_loop.simps [simp del] equal_loop.simps [simp del] next_subset.simps [simp del]
  seq_loop.simps [simp del]

end
