(* ===== verification/Batch_Split.thy ===== *)
theory Batch_Split
  imports Batch "HOL-Library.Multiset"
begin

text \<open>
  Splitting a batch loses and repeats no token. Each of \<open>split_simple\<close>, \<open>split_equal\<close> and
  \<open>split_seq\<close> hands out a non-empty list of unused tokens as long as there is one; the locale
  \<open>splitter\<close> is this contract, and the loop of the memory modules that calls a splitter until it
  returns nothing is analysed once for all of them.
\<close>

section \<open>Lists\<close>

lemma take_drop_concat_equal:
  assumes "\<forall>xs \<in> set xss. length xs = n" "j < length xss"
  shows "take n (drop (j * n) (concat xss)) = xss ! j"
  using assms
proof (induction xss arbitrary: j)
  case (Cons xs xss)
  then show ?case by (cases j) auto
qed simp

lemma map_fst_filter_zip:
  "map fst (filter (\<lambda>(i, x). P x) (zip xs (map f xs))) = filter (\<lambda>i. P (f i)) xs"
  by (induction xs) auto

section \<open>Rows\<close>

text \<open>
  A row is everything the batch says about one token: the token id, its embedding, its positions
  in every RoPE section, the declared number of sequences, the sequences and the output flag.
\<close>

type_synonym row = "int option \<times> nat list option \<times> int list \<times> int \<times> int list \<times> int"

definition batch_ids :: "llama_batch \<Rightarrow> nat \<Rightarrow> int list" where
  "batch_ids b i = the (token_seq_ids b i)"

definition batch_row :: "batch_allocr \<Rightarrow> nat \<Rightarrow> row" where
  "batch_row a i = (let b = a_batch a; ne = a_n_embd a in
     (map_option (\<lambda>t. t ! i) (b_token b),
      map_option (\<lambda>e. take ne (drop (i * ne) e)) (b_embd b),
      map (\<lambda>j. the (b_pos b) ! ((if b_token b \<noteq> None then 0 else j * nat (b_n_tokens b)) + i))
        [0..<a_n_pos_per_embd a],
      the (b_n_seq_id b) ! i, batch_ids b i, the (b_logits b) ! i))"

definition ubatch_row :: "nat \<Rightarrow> llama_ubatch \<Rightarrow> nat \<Rightarrow> row" where
  "ubatch_row ne u k =
     (map_option (\<lambda>t. t ! k) (u_token u),
      map_option (\<lambda>e. take ne (drop (k * ne) e)) (u_embd u),
      map (\<lambda>j. u_pos u ! (j * u_n_tokens u + k)) [0..<u_n_pos u],
      u_n_seq_id u ! k, u_seq_id u ! k, u_output u ! k)"

definition ubatch_rows :: "nat \<Rightarrow> llama_ubatch \<Rightarrow> row list" where
  "ubatch_rows ne u = map (ubatch_row ne u) [0..<u_n_tokens u]"

text \<open>The arrays behind the pointers of the batch are long enough and every token has a sequence.\<close>

definition arr_ok :: "'a list option \<Rightarrow> nat \<Rightarrow> bool" where
  "arr_ok p n \<longleftrightarrow> (case p of None \<Rightarrow> False | Some xs \<Rightarrow> n \<le> length xs)"

definition ids_ok :: "llama_batch \<Rightarrow> nat \<Rightarrow> bool" where
  "ids_ok b i \<longleftrightarrow> (case token_seq_ids b i of None \<Rightarrow> False
     | Some ids \<Rightarrow> ids \<noteq> [] \<and> (\<forall>s \<in> set ids. 0 \<le> s \<and> s < LLAMA_MAX_SEQ))"

definition arrays_ok :: "batch_allocr \<Rightarrow> bool" where
  "arrays_ok a \<longleftrightarrow> (let b = a_batch a; n = get_n_tokens a in
     (b_token b = None \<or> arr_ok (b_token b) n) \<and>
     (b_embd b = None \<or> arr_ok (b_embd b) (n * a_n_embd a)) \<and>
     arr_ok (b_pos b) (if b_token b \<noteq> None then n else n * a_n_pos_per_embd a) \<and>
     arr_ok (b_n_seq_id b) n \<and> arr_ok (b_logits b) n \<and> list_all (ids_ok b) [0..<n])"

definition is_output :: "batch_allocr \<Rightarrow> nat \<Rightarrow> bool" where
  "is_output a i \<longleftrightarrow> the (b_logits (a_batch a)) ! i \<noteq> 0"

lemma arr_ok_nth: "arr_ok p n \<Longrightarrow> i < n \<Longrightarrow> deref p i = Some (the p ! i)"
  by (cases p) (auto simp: arr_ok_def deref_def)

lemma arrays_ok_ids:
  "arrays_ok a \<Longrightarrow> i < get_n_tokens a \<Longrightarrow>
     token_seq_ids (a_batch a) i = Some (batch_ids (a_batch a) i) \<and> batch_ids (a_batch a) i \<noteq> [] \<and>
     (\<forall>s \<in> set (batch_ids (a_batch a) i). 0 \<le> s \<and> s < LLAMA_MAX_SEQ)"
proof -
  assume "arrays_ok a" "i < get_n_tokens a"
  then have "ids_ok (a_batch a) i" by (simp add: arrays_ok_def Let_def list_all_iff)
  then show ?thesis by (cases "token_seq_ids (a_batch a) i") (simp_all add: ids_ok_def batch_ids_def)
qed

lemma ubatch_pos_eq:
  assumes "arrays_ok a" "set idxs \<subseteq> {..<get_n_tokens a}"
  shows "ubatch_pos a idxs = Some (concat (map (\<lambda>j. map (\<lambda>i.
     the (b_pos (a_batch a)) ! ((if b_token (a_batch a) \<noteq> None then 0 else j * get_n_tokens a) + i)) idxs)
     [0..<a_n_pos_per_embd a]))"
proof -
  let ?n = "get_n_tokens a" and ?b = "a_batch a" and ?P = "a_n_pos_per_embd a"
  let ?off = "\<lambda>j. if b_token ?b \<noteq> None then 0 else j * ?n"
  have pos: "arr_ok (b_pos ?b) (if b_token ?b \<noteq> None then ?n else ?n * ?P)"
    using assms(1) by (simp add: arrays_ok_def Let_def)
  have in_range: "j * ?n + i < ?n * ?P" if "j < ?P" "i < ?n" for i j
  proof -
    have "j * ?n + i < Suc j * ?n" using that by simp
    also have "\<dots> \<le> ?P * ?n" using that by (intro mult_le_mono1) simp
    finally show ?thesis by (simp add: mult.commute)
  qed
  have at: "deref (b_pos ?b) (?off j + i) = Some (the (b_pos ?b) ! (?off j + i))" if "j < ?P" "i \<in> set idxs" for i j
    by (rule arr_ok_nth [OF pos]) (use that assms(2) in_range in auto)
  define f where "f = (\<lambda>(j, i). deref (b_pos ?b) (?off j + i))"
  define g where "g = (\<lambda>(j, i). the (b_pos ?b) ! (?off j + i))"
  have flat: "concat (map (\<lambda>j. map (\<lambda>i. h (j, i)) idxs) js) =
      map h (concat (map (\<lambda>j. map (Pair j) idxs) js))" for h :: "nat \<times> nat \<Rightarrow> 'z" and js
    by (induction js) auto
  have "those (map f (concat (map (\<lambda>j. map (Pair j) idxs) [0..<?P]))) =
      Some (map g (concat (map (\<lambda>j. map (Pair j) idxs) [0..<?P])))"
    by (rule those_map_Some) (use at in \<open>auto simp: f_def g_def\<close>)
  then show ?thesis unfolding flat [symmetric] by (simp add: f_def g_def ubatch_pos_def get_n_tokens_def cong: if_cong)
qed

text \<open>What \<open>ubatch_add\<close> returns: the rows of the chosen tokens, in order.\<close>

lemma ubatch_add_spec:
  assumes ok: "arrays_ok a" and idxs: "set idxs \<subseteq> {..<get_n_tokens a}"
    and seqs: "n_seqs \<noteq> 0" "length idxs mod n_seqs = 0"
  obtains u where "ubatch_add idxs n_seqs eq a =
      Some (u, a\<lparr>a_out_ids := a_out_ids a @ filter (is_output a) idxs\<rparr>)"
    "ubatch_rows (a_n_embd a) u = map (batch_row a) idxs" "u_n_tokens u = length idxs"
    "u_n_seqs u = n_seqs" "u_n_seq_tokens u * n_seqs = length idxs" "u_equal_seqs u = eq"
proof -
  let ?b = "a_batch a" and ?n = "get_n_tokens a" and ?ne = "a_n_embd a"
  let ?tok = "map_option (\<lambda>t. map ((!) t) idxs) (b_token ?b)"
  let ?emb = "map_option (\<lambda>e. concat (map (\<lambda>i. take ?ne (drop (i * ?ne) e)) idxs)) (b_embd ?b)"
  let ?pos = "concat (map (\<lambda>j. map (\<lambda>i. the (b_pos ?b) !
      ((if b_token ?b \<noteq> None then 0 else j * ?n) + i)) idxs) [0..<a_n_pos_per_embd a])"
  have lt: "i < ?n" if "i \<in> set idxs" for i using that idxs by auto
  have tok: "ubatch_token a idxs = Some ?tok"
  proof (cases "b_token ?b")
    case (Some t)
    then have "?n \<le> length t" using ok by (simp add: arrays_ok_def Let_def arr_ok_def)
    then have "those (map (nth_opt t) idxs) = Some (map ((!) t) idxs)"
      by (intro those_map_Some) (use lt in \<open>force simp: nth_opt_def\<close>)
    with Some show ?thesis by (simp add: ubatch_token_def)
  qed (simp add: ubatch_token_def)
  have emb_len: "(i + 1) * ?ne \<le> length e" if "b_embd ?b = Some e" "i \<in> set idxs" for i e
  proof -
    have "(i + 1) * ?ne \<le> ?n * ?ne" using lt [OF that(2)] by (intro mult_le_mono1) simp
    then show ?thesis using ok that(1) by (simp add: arrays_ok_def Let_def arr_ok_def)
  qed
  then have emb: "ubatch_embd a idxs = Some ?emb"
    by (auto simp: ubatch_embd_def split: option.splits)
  have nsid: "those (map (deref (b_n_seq_id ?b)) idxs) = Some (map ((!) (the (b_n_seq_id ?b))) idxs)"
    and out: "those (map (deref (b_logits ?b)) idxs) = Some (map ((!) (the (b_logits ?b))) idxs)"
    using ok lt by (auto intro!: those_map_Some arr_ok_nth simp: arrays_ok_def Let_def)
  have sids: "those (map (token_seq_ids ?b) idxs) = Some (map (batch_ids ?b) idxs)"
    by (rule those_map_Some) (use arrays_ok_ids [OF ok] lt in blast)
  have range: "\<forall>ids \<in> set (map (batch_ids ?b) idxs). \<forall>s \<in> set ids. 0 \<le> s \<and> s < LLAMA_MAX_SEQ"
    using arrays_ok_ids [OF ok] lt by auto
  obtain idx ids where ix: "index_seqs (\<Union> (set (map set (map (batch_ids ?b) idxs)))) (a_n_seq_max a) (\<lambda>_. -1, []) = (idx, ids)"
    by fastforce
  let ?u = "\<lparr>u_equal_seqs = eq, u_n_tokens = length idxs, u_n_seq_tokens = length idxs div n_seqs,
      u_n_seqs = n_seqs, u_n_seqs_unq = length ids, u_n_pos = a_n_pos_per_embd a, u_token = ?tok, u_embd = ?emb,
      u_pos = ?pos, u_n_seq_id = map ((!) (the (b_n_seq_id ?b))) idxs, u_seq_id = map (batch_ids ?b) idxs,
      u_seq_id_unq = ids, u_seq_idx = idx, u_output = map ((!) (the (b_logits ?b))) idxs\<rparr>"
  have row: "ubatch_row ?ne ?u k = batch_row a (idxs ! k)" if k: "k < length idxs" for k
  proof -
    have "map (\<lambda>j. ?pos ! (j * length idxs + k)) [0..<a_n_pos_per_embd a] =
        map (\<lambda>j. the (b_pos ?b) ! ((if b_token ?b \<noteq> None then 0 else j * ?n) + idxs ! k)) [0..<a_n_pos_per_embd a]"
      by (rule map_cong [OF refl], subst nth_concat_equal [where n = "length idxs"]) (use k in auto)
    moreover have "map_option (\<lambda>e. take ?ne (drop (k * ?ne) e)) ?emb =
        map_option (\<lambda>e. take ?ne (drop (idxs ! k * ?ne) e)) (b_embd ?b)"
    proof (cases "b_embd ?b")
      case (Some e)
      have "length (take ?ne (drop (i * ?ne) e)) = ?ne" if "i \<in> set idxs" for i
        using emb_len [OF Some that] by simp
      then show ?thesis using k Some by (simp add: take_drop_concat_equal)
    qed simp
    ultimately show ?thesis using k
      by (simp add: ubatch_row_def batch_row_def Let_def get_n_tokens_def option.map_comp o_def cong: if_cong)
  qed
  show thesis
  proof (rule that [of ?u])
    show "ubatch_add idxs n_seqs eq a = Some (?u, a\<lparr>a_out_ids := a_out_ids a @ filter (is_output a) idxs\<rparr>)"
      using seqs range ix
      by (simp add: ubatch_add_def tok emb ubatch_pos_eq [OF ok idxs] nsid out sids Let_def
          map_fst_filter_zip is_output_def [abs_def])
    show "ubatch_rows ?ne ?u = map (batch_row a) idxs"
      unfolding ubatch_rows_def by (rule nth_equalityI) (use row in simp_all)
    show "u_n_seq_tokens ?u * n_seqs = length idxs"
      using div_mult_mod_eq [of "length idxs" n_seqs] seqs(2) by simp
  qed simp_all
qed


section \<open>Marking tokens as used\<close>

definition unused :: "batch_allocr \<Rightarrow> nat list" where
  "unused a = filter (\<lambda>i. \<not> a_used a ! i) [0..<get_n_tokens a]"

definition alloc_ok :: "batch_allocr \<Rightarrow> bool" where
  "alloc_ok a \<longleftrightarrow> arrays_ok a \<and> length (a_used a) = get_n_tokens a \<and>
     a_seq_set a = map (\<lambda>i. set (batch_ids (a_batch a) i)) [0..<get_n_tokens a] \<and>
     a_seq_set_map a = (\<lambda>S. filter (\<lambda>i. a_seq_set a ! i = S) [0..<get_n_tokens a]) \<and>
     a_n_used a + length (unused a) = get_n_tokens a"

text \<open>The allocator after the tokens \<open>idxs\<close> have been handed out.\<close>

definition took :: "nat list \<Rightarrow> batch_allocr \<Rightarrow> batch_allocr" where
  "took idxs a = (fold mark_used idxs a)\<lparr>a_out_ids := a_out_ids a @ filter (is_output a) idxs\<rparr>"

lemma fold_mark_used:
  "fold mark_used idxs a =
     a\<lparr>a_used := fold (\<lambda>i used. used[i := True]) idxs (a_used a), a_n_used := a_n_used a + length idxs\<rparr>"
  by (induction idxs arbitrary: a) (simp_all add: mark_used_def)

lemma fold_set_True:
  "length (fold (\<lambda>i used. used[i := True]) idxs used) = length used"
  "i < length used \<Longrightarrow> fold (\<lambda>i used. used[i := True]) idxs used ! i \<longleftrightarrow> used ! i \<or> i \<in> set idxs"
  by (induction idxs arbitrary: used) (auto simp: nth_upd)

lemma took_frame [simp]:
  "a_batch (took idxs a) = a_batch a" "a_n_embd (took idxs a) = a_n_embd a"
  "a_n_pos_per_embd (took idxs a) = a_n_pos_per_embd a" "a_seq_set (took idxs a) = a_seq_set a"
  "a_seq_set_map (took idxs a) = a_seq_set_map a" "a_has_cpl (took idxs a) = a_has_cpl a"
  "a_n_seq_max (took idxs a) = a_n_seq_max a"
  "get_n_tokens (took idxs a) = get_n_tokens a" "arrays_ok (took idxs a) = arrays_ok a"
  "batch_row (took idxs a) = batch_row a" "is_output (took idxs a) = is_output a"
  by (auto simp: took_def fold_mark_used get_n_tokens_def arrays_ok_def batch_row_def is_output_def fun_eq_iff)

lemma took_state:
  "a_used (took idxs a) = fold (\<lambda>i used. used[i := True]) idxs (a_used a)"
  "a_n_used (took idxs a) = a_n_used a + length idxs"
  "a_out_ids (took idxs a) = a_out_ids a @ filter (is_output a) idxs"
  by (simp_all add: took_def fold_mark_used)

lemma marked_frame:
  "arrays_ok (fold mark_used idxs a) = arrays_ok a" "a_n_embd (fold mark_used idxs a) = a_n_embd a"
  "get_n_tokens (fold mark_used idxs a) = get_n_tokens a" "batch_row (fold mark_used idxs a) = batch_row a"
  "is_output (fold mark_used idxs a) = is_output a" "a_out_ids (fold mark_used idxs a) = a_out_ids a"
  by (auto simp: fold_mark_used get_n_tokens_def arrays_ok_def batch_row_def is_output_def fun_eq_iff)

lemma unused_took:
  "length (a_used a) = get_n_tokens a \<Longrightarrow> unused (took idxs a) = filter (\<lambda>i. i \<notin> set idxs) (unused a)"
  by (auto simp: unused_def took_state fold_set_True filter_filter intro!: filter_cong)

lemma distinct_unused [simp]: "distinct (unused a)"
  by (simp add: unused_def)

lemma unused_less: "i \<in> set (unused a) \<Longrightarrow> i < get_n_tokens a"
  by (simp add: unused_def)

lemma mset_unused_took:
  assumes "length (a_used a) = get_n_tokens a" "distinct idxs" "set idxs \<subseteq> set (unused a)"
  shows "mset (unused a) = mset idxs + mset (unused (took idxs a))"
proof -
  have "mset (filter (\<lambda>i. i \<in> set idxs) (unused a)) = mset idxs"
    using assms(2,3) by (intro set_eq_iff_mset_eq_distinct [THEN iffD1]) auto
  then show ?thesis
    using multiset_partition [of "mset (unused a)" "\<lambda>i. i \<in> set idxs"] by (simp add: unused_took assms(1))
qed

lemma alloc_ok_took:
  assumes "alloc_ok a" "distinct idxs" "set idxs \<subseteq> set (unused a)"
  shows "alloc_ok (took idxs a)"
proof -
  have len: "length (a_used a) = get_n_tokens a" using assms(1) by (simp add: alloc_ok_def)
  have "size (mset (unused a)) = length idxs + length (unused (took idxs a))"
    by (simp add: mset_unused_took [OF len assms(2,3)])
  then show ?thesis using assms(1) by (simp add: alloc_ok_def took_state fold_set_True)
qed

lemma took_Nil [simp]: "took [] a = a"
  by (simp add: took_def)

lemma took_took: "took ys (took xs a) = took (xs @ ys) a"
  by (simp add: took_def fold_mark_used is_output_def [abs_def])

section \<open>The contract of a splitter\<close>

definition handed :: "nat list \<Rightarrow> batch_allocr \<Rightarrow> llama_ubatch \<Rightarrow> bool" where
  "handed idxs a u \<longleftrightarrow> ubatch_rows (a_n_embd a) u = map (batch_row a) idxs \<and> u_n_tokens u = length idxs"

lemma ubatch_add_took:
  assumes "arrays_ok a" "set idxs \<subseteq> {..<get_n_tokens a}" "n_seqs \<noteq> 0" "length idxs mod n_seqs = 0"
  obtains u where "ubatch_add idxs n_seqs eq (fold mark_used idxs a) = Some (u, took idxs a)"
    "handed idxs a u" "u_n_seqs u = n_seqs" "u_n_seq_tokens u * n_seqs = length idxs" "u_equal_seqs u = eq"
proof (rule ubatch_add_spec [of "fold mark_used idxs a" idxs n_seqs eq])
  fix u
  assume "ubatch_add idxs n_seqs eq (fold mark_used idxs a) =
      Some (u, (fold mark_used idxs a)\<lparr>a_out_ids := a_out_ids (fold mark_used idxs a) @
        filter (is_output (fold mark_used idxs a)) idxs\<rparr>)"
    and "ubatch_rows (a_n_embd (fold mark_used idxs a)) u = map (batch_row (fold mark_used idxs a)) idxs"
    and "u_n_tokens u = length idxs" "u_n_seqs u = n_seqs" "u_n_seq_tokens u * n_seqs = length idxs" "u_equal_seqs u = eq"
  then show thesis by (intro that [of u]) (simp_all add: took_def handed_def marked_frame)
qed (use assms in \<open>simp_all add: marked_frame\<close>)

locale splitter =
  fixes split :: "batch_allocr \<Rightarrow> (llama_ubatch \<times> batch_allocr) option"
    and ok :: "batch_allocr \<Rightarrow> bool"
    and pick :: "batch_allocr \<Rightarrow> nat list"
  assumes ok_alloc: "ok a \<Longrightarrow> alloc_ok a"
    and split_done: "ok a \<Longrightarrow> unused a = [] \<Longrightarrow> split a = Some (ubatch_none, a)"
    and split_next: "ok a \<Longrightarrow> unused a \<noteq> [] \<Longrightarrow> \<exists>u. split a = Some (u, took (pick a) a) \<and> handed (pick a) a u"
    and pick_some: "ok a \<Longrightarrow> unused a \<noteq> [] \<Longrightarrow>
      pick a \<noteq> [] \<and> distinct (pick a) \<and> set (pick a) \<subseteq> set (unused a)"
    and ok_took: "ok a \<Longrightarrow> unused a \<noteq> [] \<Longrightarrow> ok (took (pick a) a)"
begin

lemma unused_shrinks:
  assumes "ok a" "unused a \<noteq> []"
  shows "length (unused (took (pick a) a)) < length (unused a)"
proof -
  have "length (a_used a) = get_n_tokens a" using ok_alloc [OF assms(1)] by (simp add: alloc_ok_def)
  from mset_unused_took [OF this] pick_some [OF assms]
  have "mset (unused a) = mset (pick a) + mset (unused (took (pick a) a))" by blast
  from arg_cong [OF this, of size] pick_some [OF assms] show ?thesis by simp
qed

lemma run:
  assumes "ok a" "length (unused a) < k"
  shows "\<exists>us a' idxss. split_run split k a = Some (us, a') \<and> ok a' \<and> unused a' = [] \<and>
     list_all2 (\<lambda>idxs u. idxs \<noteq> [] \<and> handed idxs a u) idxss us \<and>
     mset (concat idxss) = mset (unused a) \<and> a' = took (concat idxss) a"
  using assms
proof (induction k arbitrary: a)
  case (Suc k)
  show ?case
  proof (cases "unused a = []")
    case True
    with split_done [OF Suc.prems(1)] Suc.prems(1) show ?thesis
      by (intro exI [of _ "[]"] exI [of _ a]) (simp add: ubatch_none_def took_def)
  next
    case False
    let ?b = "took (pick a) a"
    obtain u where u: "split a = Some (u, ?b)" "handed (pick a) a u" using split_next [OF Suc.prems(1) False] by blast
    note pick = pick_some [OF Suc.prems(1) False]
    have "length (unused ?b) < k" using unused_shrinks [OF Suc.prems(1) False] Suc.prems(2) by simp
    from Suc.IH [OF ok_took [OF Suc.prems(1) False] this] obtain us a' idxss where
      IH: "split_run split k ?b = Some (us, a')" "ok a'" "unused a' = []"
        "list_all2 (\<lambda>idxs u. idxs \<noteq> [] \<and> handed idxs ?b u) idxss us"
        "mset (concat idxss) = mset (unused ?b)" "a' = took (concat idxss) ?b" by blast
    have "u_n_tokens u \<noteq> 0" using u(2) pick by (simp add: handed_def)
    then have run: "split_run split (Suc k) a = Some (u # us, a')" using u(1) IH(1) by simp
    have len: "length (a_used a) = get_n_tokens a" using ok_alloc [OF Suc.prems(1)] by (simp add: alloc_ok_def)
    have all: "list_all2 (\<lambda>idxs u. idxs \<noteq> [] \<and> handed idxs a u) (pick a # idxss) (u # us)"
      using IH(4) u(2) pick by (simp add: handed_def)
    have "mset (concat (pick a # idxss)) = mset (unused a)"
      using mset_unused_took [OF len, of "pick a"] pick IH(5) by simp
    moreover have "a' = took (concat (pick a # idxss)) a"
      unfolding IH(6) by (simp add: took_def fold_mark_used is_output_def [abs_def])
    ultimately show ?thesis using run all IH(2,3) by blast
  qed
qed simp

lemma run_rows:
  assumes "ok a" "length (unused a) < k"
  shows "\<exists>us a'. split_run split k a = Some (us, a') \<and> unused a' = [] \<and> a_n_used a' = get_n_tokens a \<and>
     (\<forall>u \<in> set us. 0 < u_n_tokens u) \<and>
     mset (concat (map (ubatch_rows (a_n_embd a)) us)) = mset (map (batch_row a) (unused a))"
proof -
  obtain us a' idxss where r: "split_run split k a = Some (us, a')" "ok a'" "unused a' = []"
    "list_all2 (\<lambda>idxs u. idxs \<noteq> [] \<and> handed idxs a u) idxss us"
    "mset (concat idxss) = mset (unused a)" "a' = took (concat idxss) a" using run [OF assms] by blast
  have n: "a_n_used a' = get_n_tokens a" using ok_alloc [OF r(2)] r(3,6) by (simp add: alloc_ok_def)
  have rows: "concat (map (ubatch_rows (a_n_embd a)) us) = map (batch_row a) (concat idxss)"
    and pos: "\<forall>u \<in> set us. 0 < u_n_tokens u"
    using r(4) by (induction rule: list_all2_induct) (auto simp: handed_def)
  have "mset (concat (map (ubatch_rows (a_n_embd a)) us)) = mset (map (batch_row a) (unused a))"
    unfolding rows mset_map r(5) ..
  with r(1,3) n pos show ?thesis by blast
qed

text \<open>What holds of every micro-batch the splitter returns holds of all micro-batches of a batch.\<close>

lemma run_each:
  assumes "ok a" "split_run split k a = Some (us, a')"
    and "\<And>idxs u. ok (took idxs a) \<Longrightarrow> unused (took idxs a) \<noteq> [] \<Longrightarrow> (\<exists>c. split (took idxs a) = Some (u, c)) \<Longrightarrow> P u"
  shows "\<forall>u \<in> set us. P u"
  using assms
proof (induction k arbitrary: a us)
  case (Suc k)
  show ?case
  proof (cases "unused a = []")
    case True
    with split_done [OF Suc.prems(1)] Suc.prems(2) show ?thesis by (simp add: ubatch_none_def)
  next
    case False
    let ?b = "took (pick a) a"
    obtain u where u: "split a = Some (u, ?b)" "handed (pick a) a u" using split_next [OF Suc.prems(1) False] by blast
    note pick = pick_some [OF Suc.prems(1) False]
    have n: "u_n_tokens u \<noteq> 0" using u(2) pick by (simp add: handed_def)
    then obtain us' where us': "split_run split k ?b = Some (us', a')" "us = u # us'"
      using Suc.prems(2) u(1) by (auto simp: Option.bind_eq_Some_conv split: prod.splits)
    have "P u" using Suc.prems(3) [of "[]" u] Suc.prems(1) False u(1) by simp
    moreover have "\<forall>u \<in> set us'. P u"
      using Suc.prems(3) [of "pick a @ idxs" for idxs]
      by (intro Suc.IH [OF ok_took [OF Suc.prems(1) False] us'(1)]) (simp add: took_took)
    ultimately show ?thesis using us'(2) by simp
  qed
qed simp

end

text \<open>A splitter that hands the unused tokens out in batch order, at most \<open>m\<close> at a time.\<close>

locale ordered_splitter = splitter +
  fixes m :: nat
  assumes pick_prefix: "ok a \<Longrightarrow> unused a \<noteq> [] \<Longrightarrow> pick a = take m (unused a)"
begin

lemma unused_rest:
  assumes "ok a" "unused a \<noteq> []"
  shows "unused (took (pick a) a) = drop m (unused a)"
proof -
  have len: "length (a_used a) = get_n_tokens a" using ok_alloc [OF assms(1)] by (simp add: alloc_ok_def)
  have "filter (\<lambda>i. i \<notin> set (take m xs)) xs = drop m xs" if "distinct xs" for xs :: "nat list"
  proof -
    have "set (take m xs) \<inter> set (drop m xs) = {}" using that set_take_disj_set_drop_if_distinct by blast
    then have "filter (\<lambda>i. i \<notin> set (take m xs)) (take m xs @ drop m xs) = drop m xs"
      by (auto simp del: append_take_drop_id simp: filter_empty_conv filter_id_conv)
    then show ?thesis by simp
  qed
  then show ?thesis by (simp add: unused_took [OF len] pick_prefix [OF assms])
qed

lemma run_ordered:
  assumes "ok a" "length (unused a) < k"
  shows "\<exists>us idxss. split_run split k a = Some (us, took (unused a) a) \<and>
     list_all2 (\<lambda>idxs u. idxs \<noteq> [] \<and> length idxs \<le> m \<and> handed idxs a u) idxss us \<and> concat idxss = unused a"
  using assms
proof (induction k arbitrary: a)
  case (Suc k)
  show ?case
  proof (cases "unused a = []")
    case True
    with split_done [OF Suc.prems(1)] show ?thesis
      by (intro exI [of _ "[]"]) (simp add: ubatch_none_def took_def)
  next
    case False
    let ?b = "took (pick a) a"
    obtain u where u: "split a = Some (u, ?b)" "handed (pick a) a u" using split_next [OF Suc.prems(1) False] by blast
    note pick = pick_some [OF Suc.prems(1) False] and pre = pick_prefix [OF Suc.prems(1) False]
    note rest = unused_rest [OF Suc.prems(1) False]
    have "length (unused ?b) < k" using unused_shrinks [OF Suc.prems(1) False] Suc.prems(2) by simp
    from Suc.IH [OF ok_took [OF Suc.prems(1) False] this] obtain us idxss where
      IH: "split_run split k ?b = Some (us, took (unused ?b) ?b)"
        "list_all2 (\<lambda>idxs u. idxs \<noteq> [] \<and> length idxs \<le> m \<and> handed idxs ?b u) idxss us"
        "concat idxss = unused ?b" by blast
    have "u_n_tokens u \<noteq> 0" using u(2) pick by (simp add: handed_def)
    moreover have cat: "concat (pick a # idxss) = unused a" by (simp add: IH(3) rest) (simp add: pre)
    moreover have "took (unused ?b) ?b = took (unused a) a"
      unfolding cat [symmetric] by (simp add: IH(3) took_def fold_mark_used is_output_def [abs_def])
    ultimately have run: "split_run split (Suc k) a = Some (u # us, took (unused a) a)" using u(1) IH(1) by simp
    have "list_all2 (\<lambda>idxs u. idxs \<noteq> [] \<and> length idxs \<le> m \<and> handed idxs a u) (pick a # idxss) (u # us)"
      using IH(2) u(2) pick pre by (simp add: handed_def)
    with run cat show ?thesis by blast
  qed
qed simp

lemma run_ordered_rows:
  assumes "ok a" "length (unused a) < k"
  shows "\<exists>us. split_run split k a = Some (us, took (unused a) a) \<and>
     (\<forall>u \<in> set us. 0 < u_n_tokens u \<and> u_n_tokens u \<le> m) \<and>
     concat (map (ubatch_rows (a_n_embd a)) us) = map (batch_row a) (unused a)"
proof -
  obtain us idxss where r: "split_run split k a = Some (us, took (unused a) a)"
     "list_all2 (\<lambda>idxs u. idxs \<noteq> [] \<and> length idxs \<le> m \<and> handed idxs a u) idxss us" "concat idxss = unused a"
    using run_ordered [OF assms] by blast
  have "concat (map (ubatch_rows (a_n_embd a)) us) = map (batch_row a) (concat idxss)"
    and "\<forall>u \<in> set us. 0 < u_n_tokens u \<and> u_n_tokens u \<le> m"
    using r(2) by (induction rule: list_all2_induct) (auto simp: handed_def)
  with r(1,3) show ?thesis by auto
qed

end

section \<open>The simple splitter\<close>

text \<open>With this splitter the used tokens are always a prefix of the batch.\<close>

definition simple_ok :: "batch_allocr \<Rightarrow> bool" where
  "simple_ok a \<longleftrightarrow> alloc_ok a \<and>
     a_used a = replicate (a_n_used a) True @ replicate (get_n_tokens a - a_n_used a) False"

definition simple_pick :: "nat \<Rightarrow> batch_allocr \<Rightarrow> nat list" where
  "simple_pick n_ubatch a = take (max 1 n_ubatch) (unused a)"

lemma unused_prefix:
  assumes "a_used a = replicate k True @ replicate (get_n_tokens a - k) False" "k \<le> get_n_tokens a"
  shows "unused a = [k..<get_n_tokens a]"
proof -
  have "unused a = filter (\<lambda>i. k \<le> i) [0..<get_n_tokens a]"
    unfolding unused_def assms(1) by (rule filter_cong) (auto simp: nth_append)
  also have "[0..<get_n_tokens a] = [0..<k] @ [k..<get_n_tokens a]" using assms(2) upt_add_eq_append [of 0 k "get_n_tokens a - k"] by simp
  finally show ?thesis by (simp add: filter_empty_conv filter_id_conv)
qed

lemma first_unused_prefix:
  "a_used a = replicate k True @ replicate m False \<Longrightarrow> first_unused a = k"
  by (cases m) (simp_all add: first_unused_def takeWhile_append)

lemma simple_loop_eq:
  assumes "cur < length (a_used a)" "length idxs < max 1 n_ubatch"
  shows "simple_loop n_ubatch cur idxs a =
     (let ys = take (max 1 n_ubatch - length idxs) [cur..<length (a_used a)]
      in (idxs @ ys, fold mark_used ys a))"
  using assms
proof (induction n_ubatch cur idxs a rule: simple_loop.induct)
  case (1 n_ubatch cur idxs a)
  let ?a = "mark_used cur a"
  have len: "length (a_used ?a) = length (a_used a)" by (simp add: mark_used_def)
  have upt: "[cur..<length (a_used a)] = cur # [Suc cur..<length (a_used a)]" using 1(2) by (simp add: upt_rec)
  obtain r where r: "max 1 n_ubatch - length idxs = Suc r" using 1(3) by (metis Suc_diff_Suc)
  have ys: "take (max 1 n_ubatch - length idxs) [cur..<length (a_used a)] = cur # take r [Suc cur..<length (a_used a)]"
    unfolding upt r by simp
  have r': "max 1 n_ubatch - length (idxs @ [cur]) = r" using r by simp
  show ?case
  proof (cases "Suc cur \<ge> length (a_used a) \<or> Suc (length idxs) \<ge> n_ubatch")
    case True
    then have "take r [Suc cur..<length (a_used a)] = []" using r by auto
    then show ?thesis using True unfolding ys by (subst simple_loop.simps) (auto simp: Let_def len)
  next
    case False
    then have "simple_loop n_ubatch (Suc cur) (idxs @ [cur]) ?a =
       (let ys = take (max 1 n_ubatch - length (idxs @ [cur])) [Suc cur..<length (a_used ?a)]
        in ((idxs @ [cur]) @ ys, fold mark_used ys ?a))"
      using 1(1) [OF refl refl refl] by (simp add: len)
    then show ?thesis using False unfolding r' ys by (subst simple_loop.simps) (simp add: Let_def len)
  qed
qed

interpretation simple: ordered_splitter "split_simple n" simple_ok "simple_pick n" "max 1 n" for n
proof
  fix a
  assume ok: "simple_ok a"
  then show alloc: "alloc_ok a" by (simp add: simple_ok_def)
  let ?k = "a_n_used a" and ?n = "get_n_tokens a"
  have used: "a_used a = replicate ?k True @ replicate (?n - ?k) False" using ok by (simp add: simple_ok_def)
  have le: "?k \<le> ?n" using alloc by (simp add: alloc_ok_def)
  have un: "unused a = [?k..<?n]" using unused_prefix [OF used le] .
  have len: "length (a_used a) = ?n" using alloc by (simp add: alloc_ok_def)
  note first = first_unused_prefix [OF used]
  show "split_simple n a = Some (ubatch_none, a)" if "unused a = []"
    using that un by (auto simp: split_simple_def first len Let_def)
  assume some: "unused a \<noteq> []"
  let ?p = "simple_pick n a"
  show "?p = take (max 1 n) (unused a)" by (simp add: simple_pick_def)
  show p: "?p \<noteq> [] \<and> distinct ?p \<and> set ?p \<subseteq> set (unused a)"
    using some by (auto simp: simple_pick_def dest: in_set_takeD)
  have range: "set ?p \<subseteq> {..<?n}" using p unused_less by blast
  have loop: "simple_loop n ?k [] a = (?p, fold mark_used ?p a)"
    using some un by (subst simple_loop_eq) (auto simp: simple_pick_def len Let_def)
  have arr: "arrays_ok a" using alloc by (simp add: alloc_ok_def)
  obtain u where "ubatch_add ?p (length ?p) False (fold mark_used ?p a) = Some (u, took ?p a)" "handed ?p a u"
    by (rule ubatch_add_took [OF arr range, of "length ?p" False]) (use p in auto)
  then show "\<exists>u. split_simple n a = Some (u, took ?p a) \<and> handed ?p a u"
    using some un by (intro exI [of _ u]) (auto simp: split_simple_def first len loop Let_def)
  define m where "m = min (max 1 n) (?n - ?k)"
  have pick: "?p = [?k..<?k + m]" by (rule nth_equalityI) (auto simp: simple_pick_def un m_def)
  have m: "?k + m \<le> ?n" using le by (simp add: m_def)
  have "a_used (took ?p a) = replicate (?k + m) True @ replicate (?n - (?k + m)) False"
    by (rule nth_equalityI) (use m in \<open>auto simp: took_state fold_set_True len pick used nth_append\<close>)
  then show "simple_ok (took ?p a)"
    using alloc_ok_took [OF alloc] p by (simp add: simple_ok_def took_state pick)
qed

section \<open>The sequential splitter\<close>

lemma next_subset_spec:
  assumes "i \<le> get_n_tokens a" "next_subset a cur i = r"
  shows "i \<le> r \<and> r \<le> get_n_tokens a \<and> (r < get_n_tokens a \<longrightarrow> \<not> a_used a ! r \<and> a_seq_set a ! r \<subseteq> cur)"
  using assms
proof (induction a cur i rule: next_subset.induct)
  case (1 a cur i)
  show ?case
  proof (cases "i < get_n_tokens a \<and> (a_used a ! i \<or> cur \<inter> a_seq_set a ! i \<noteq> a_seq_set a ! i)")
    case True
    then have "next_subset a cur (Suc i) = r" using 1(3) by (subst (asm) next_subset.simps) simp
    with 1(1) [OF True] True show ?thesis by simp
  next
    case False
    then have "r = i" using 1(3) by (subst (asm) next_subset.simps) (simp split: if_splits)
    with False 1(2) show ?thesis by auto
  qed
qed

lemma mark_used_frame [simp]:
  "get_n_tokens (mark_used i a) = get_n_tokens a" "a_seq_set (mark_used i a) = a_seq_set a"
  "a_used (mark_used i a) = (a_used a)[i := True]"
  by (simp_all add: mark_used_def get_n_tokens_def)

lemma seq_loop_spec:
  assumes "length (a_used a) = get_n_tokens a" "cur_idx < get_n_tokens a" "\<not> a_used a ! cur_idx"
  shows "\<exists>ys. seq_loop n_ubatch cur_idx (a_seq_set a ! cur_idx) idxs a = (idxs @ cur_idx # ys, fold mark_used (cur_idx # ys) a) \<and>
     sorted_wrt (<) (cur_idx # ys) \<and> sorted_wrt (\<lambda>i j. a_seq_set a ! j \<subseteq> a_seq_set a ! i) (cur_idx # ys) \<and>
     set ys \<subseteq> set (unused a) \<and> Suc (length ys) \<le> max 1 (n_ubatch - length idxs)"
  using assms
proof (induction "n_ubatch - length idxs" arbitrary: cur_idx idxs a rule: less_induct)
  case less
  let ?a = "mark_used cur_idx a"
  define nxt where "nxt = next_subset ?a (a_seq_set a ! cur_idx) (Suc cur_idx)"
  have nxt: "cur_idx < nxt" "nxt \<le> get_n_tokens a"
    "nxt < get_n_tokens a \<Longrightarrow> \<not> a_used ?a ! nxt \<and> a_seq_set a ! nxt \<subseteq> a_seq_set a ! cur_idx"
    using next_subset_spec [of "Suc cur_idx" ?a "a_seq_set a ! cur_idx" nxt] less.prems(2)
    by (auto simp: nxt_def)
  show ?case
  proof (cases "Suc (length idxs) \<ge> n_ubatch \<or> nxt \<ge> get_n_tokens a")
    case True
    then show ?thesis by (intro exI [of _ "[]"], subst seq_loop.simps) (auto simp: Let_def nxt_def)
  next
    case False
    then have nx: "nxt < get_n_tokens a" "\<not> a_used ?a ! nxt" and dec: "n_ubatch - length (idxs @ [cur_idx]) < n_ubatch - length idxs"
      using nxt(3) by auto
    from less.hyps [OF dec, of ?a nxt] obtain ys where
      ys: "seq_loop n_ubatch nxt (a_seq_set a ! nxt) (idxs @ [cur_idx]) ?a =
          ((idxs @ [cur_idx]) @ nxt # ys, fold mark_used (nxt # ys) ?a)"
        "sorted_wrt (<) (nxt # ys)" "sorted_wrt (\<lambda>i j. a_seq_set a ! j \<subseteq> a_seq_set a ! i) (nxt # ys)"
        "set ys \<subseteq> set (unused ?a)" "Suc (length ys) \<le> max 1 (n_ubatch - length (idxs @ [cur_idx]))"
      using nx less.prems by auto
    have "seq_loop n_ubatch cur_idx (a_seq_set a ! cur_idx) idxs a =
        (idxs @ cur_idx # nxt # ys, fold mark_used (cur_idx # nxt # ys) a)"
      using False ys(1) by (subst seq_loop.simps) (simp add: Let_def nxt_def [symmetric])
    moreover have "\<forall>i \<in> set (nxt # ys). cur_idx < i" using ys(2) nxt(1) by auto
    moreover have "\<forall>i \<in> set (nxt # ys). a_seq_set a ! i \<subseteq> a_seq_set a ! cur_idx" using ys(3) nxt(3) [OF nx(1)] by auto
    moreover have "set (nxt # ys) \<subseteq> set (unused a)"
      using ys(4) nx nxt(1) less.prems(1) by (auto simp: unused_def nth_upd split: if_splits)
    ultimately show ?thesis using ys(2,3,5) False by (intro exI [of _ "nxt # ys"]) auto
  qed
qed

definition seq_pick :: "nat \<Rightarrow> batch_allocr \<Rightarrow> nat list" where
  "seq_pick n_ubatch a =
     fst (seq_loop n_ubatch (first_unused a) (a_seq_set a ! first_unused a) [] a)"

lemma first_unused_spec:
  assumes "length (a_used a) = get_n_tokens a"
  shows "unused a = [] \<longleftrightarrow> get_n_tokens a \<le> first_unused a"
    "first_unused a < get_n_tokens a \<Longrightarrow> \<not> a_used a ! first_unused a"
proof -
  have le: "first_unused a \<le> length (a_used a)" by (simp add: first_unused_def length_takeWhile_le)
  have tw: "a_used a ! i" if "i < first_unused a" for i
    using that nth_mem [of i "takeWhile id (a_used a)"] by (auto simp: first_unused_def takeWhile_nth dest: set_takeWhileD)
  show *: "\<not> a_used a ! first_unused a" if "first_unused a < get_n_tokens a"
    using that nth_length_takeWhile [of id "a_used a"] assms by (simp add: first_unused_def)
  show "unused a = [] \<longleftrightarrow> get_n_tokens a \<le> first_unused a"
  proof
    assume "unused a = []"
    then show "get_n_tokens a \<le> first_unused a" using * by (force simp: unused_def filter_empty_conv)
  next
    assume "get_n_tokens a \<le> first_unused a"
    then show "unused a = []" using tw by (auto simp: unused_def filter_empty_conv)
  qed
qed

text \<open>The chosen tokens of one call, in batch order, each sequence set within the one before it.\<close>

lemma seq_pick_spec:
  assumes "alloc_ok a" "unused a \<noteq> []"
  shows "seq_loop n (first_unused a) (a_seq_set a ! first_unused a) [] a =
      (seq_pick n a, fold mark_used (seq_pick n a) a)"
    "seq_pick n a \<noteq> []" "sorted_wrt (<) (seq_pick n a)" "set (seq_pick n a) \<subseteq> set (unused a)"
    "length (seq_pick n a) \<le> max 1 n"
    "sorted_wrt (\<lambda>i j. a_seq_set a ! j \<subseteq> a_seq_set a ! i) (seq_pick n a)"
proof -
  have len: "length (a_used a) = get_n_tokens a" using assms(1) by (simp add: alloc_ok_def)
  have first: "first_unused a < get_n_tokens a" using first_unused_spec(1) [OF len] assms(2) by simp
  then have mem: "first_unused a \<in> set (unused a)" using first_unused_spec(2) [OF len] by (simp add: unused_def)
  obtain ys where ys: "seq_loop n (first_unused a) (a_seq_set a ! first_unused a) [] a =
      (first_unused a # ys, fold mark_used (first_unused a # ys) a)" "sorted_wrt (<) (first_unused a # ys)"
      "sorted_wrt (\<lambda>i j. a_seq_set a ! j \<subseteq> a_seq_set a ! i) (first_unused a # ys)"
      "set ys \<subseteq> set (unused a)" "Suc (length ys) \<le> max 1 n"
    using seq_loop_spec [OF len first first_unused_spec(2) [OF len first], of n "[]"] by auto
  then have "seq_pick n a = first_unused a # ys" by (simp add: seq_pick_def)
  then show "seq_loop n (first_unused a) (a_seq_set a ! first_unused a) [] a =
      (seq_pick n a, fold mark_used (seq_pick n a) a)"
    "seq_pick n a \<noteq> []" "sorted_wrt (<) (seq_pick n a)" "set (seq_pick n a) \<subseteq> set (unused a)"
    "length (seq_pick n a) \<le> max 1 n"
    "sorted_wrt (\<lambda>i j. a_seq_set a ! j \<subseteq> a_seq_set a ! i) (seq_pick n a)"
    using ys mem by simp_all
qed

interpretation seq: splitter "split_seq n" alloc_ok "seq_pick n" for n
proof
  fix a
  assume ok: "alloc_ok a"
  then show "alloc_ok a" .
  have len: "length (a_used a) = get_n_tokens a" and arr: "arrays_ok a" and ss: "length (a_seq_set a) = get_n_tokens a"
    using ok by (simp_all add: alloc_ok_def)
  show "split_seq n a = Some (ubatch_none, a)" if "unused a = []"
    using that first_unused_spec(1) [OF len] by (simp add: split_seq_def len Let_def)
  assume some: "unused a \<noteq> []"
  note pick = seq_pick_spec [OF ok some, of n]
  show p: "seq_pick n a \<noteq> [] \<and> distinct (seq_pick n a) \<and> set (seq_pick n a) \<subseteq> set (unused a)"
    using pick by (auto dest: strict_sorted_imp_sorted simp: strict_sorted_iff)
  have range: "set (seq_pick n a) \<subseteq> {..<get_n_tokens a}" using p unused_less by blast
  obtain u where "ubatch_add (seq_pick n a) 1 True (fold mark_used (seq_pick n a) a) = Some (u, took (seq_pick n a) a)"
      "handed (seq_pick n a) a u"
    by (rule ubatch_add_took [OF arr range, of 1 True]) auto
  then show "\<exists>u. split_seq n a = Some (u, took (seq_pick n a) a) \<and> handed (seq_pick n a) a u"
    using some first_unused_spec(1) [OF len] by (intro exI [of _ u]) (simp add: split_seq_def len Let_def pick(1) ss)
  show "alloc_ok (took (seq_pick n a) a)" using alloc_ok_took [OF ok] p by blast
qed

section \<open>The equal-length splitter\<close>

text \<open>The tokens of a sequence set that are still unused; used ones come first in the batch.\<close>

definition ahead_of :: "batch_allocr \<Rightarrow> seq_set \<Rightarrow> nat list" where
  "ahead_of a S = filter (\<lambda>i. a_seq_set a ! i = S) (unused a)"

definition in_order :: "batch_allocr \<Rightarrow> bool" where
  "in_order a \<longleftrightarrow> (\<forall>j < get_n_tokens a. \<forall>i < j. a_seq_set a ! i = a_seq_set a ! j \<longrightarrow> a_used a ! j \<longrightarrow> a_used a ! i)"

definition equal_ok :: "bool \<Rightarrow> batch_allocr \<Rightarrow> bool" where
  "equal_ok sequential a \<longleftrightarrow> alloc_ok a \<and> in_order a \<and> (sequential \<longrightarrow> \<not> a_has_cpl a)"

subsection \<open>Choosing the sequence sets\<close>

lemma pick_seq_sets_spec:
  assumes "alloc_ok a" "set is \<subseteq> {..<get_n_tokens a}"
    and "sorted_wrt (\<lambda>S T. S \<inter> T = {}) cur" "set cur \<subseteq> (!) (a_seq_set a) ` set (unused a)" "length cur \<le> n"
  shows "\<exists>cur'. pick_seq_sets n sq a is cur last_id = Some cur' \<and> sorted_wrt (\<lambda>S T. S \<inter> T = {}) cur' \<and>
     set cur' \<subseteq> (!) (a_seq_set a) ` set (unused a) \<and> length cur' \<le> Suc n \<and>
     (cur' = [] \<longleftrightarrow> cur = [] \<and> (\<forall>i \<in> set is. a_used a ! i))"
  using assms(2-)
proof (induction "is" arbitrary: cur last_id)
  case (Cons i "is")
  have i: "i < get_n_tokens a" using Cons.prems(1) by simp
  have arr: "arrays_ok a" and len: "length (a_used a) = get_n_tokens a" "length (a_seq_set a) = get_n_tokens a"
    using assms(1) by (simp_all add: alloc_ok_def)
  obtain ids0 where ids0: "deref (b_seq_id (a_batch a)) i = Some ids0" "ids0 \<noteq> []"
    using arrays_ok_ids [OF arr i]
    by (auto simp: token_seq_ids_def Option.bind_eq_Some_conv split: if_splits) (metis take_Nil)
  note IH = Cons.IH [OF _ Cons.prems(2-4)] and IH' = Cons.IH [of "cur @ [a_seq_set a ! i]" "ids0 ! 0"]
  have js: "set is \<subseteq> {..<get_n_tokens a}" using Cons.prems(1) by simp
  show ?case
  proof (cases "a_used a ! i")
    case True
    with IH [OF js, of last_id] show ?thesis using i len by auto
  next
    case False
    let ?S = "a_seq_set a ! i"
    let ?add = "(\<forall>c \<in> set cur. c \<inter> ?S = {}) \<and> (sq \<longrightarrow> cur = [] \<or> ids0 ! 0 = last_id + 1)"
    have step: "pick_seq_sets n sq a (i # is) cur last_id =
       (if ?add then if length (cur @ [?S]) > n then Some (cur @ [?S]) else pick_seq_sets n sq a is (cur @ [?S]) (ids0 ! 0)
        else pick_seq_sets n sq a is cur last_id)"
      using False i len ids0 by (auto simp: Let_def)
    have mem: "?S \<in> (!) (a_seq_set a) ` set (unused a)" using False i by (auto simp: unused_def)
    show ?thesis
    proof (cases ?add)
      case True
      then have dis: "sorted_wrt (\<lambda>S T. S \<inter> T = {}) (cur @ [?S])" using Cons.prems(2) by (auto simp: sorted_wrt_append)
      show ?thesis
      proof (cases "length (cur @ [?S]) > n")
        case True
        then show ?thesis using \<open>?add\<close> \<open>\<not> a_used a ! i\<close> dis mem Cons.prems(3,4) unfolding step by auto
      next
        case short: False
        have "\<exists>cur'. pick_seq_sets n sq a is (cur @ [?S]) (ids0 ! 0) = Some cur' \<and> sorted_wrt (\<lambda>S T. S \<inter> T = {}) cur' \<and>
           set cur' \<subseteq> (!) (a_seq_set a) ` set (unused a) \<and> length cur' \<le> Suc n \<and>
           (cur' = [] \<longleftrightarrow> cur @ [?S] = [] \<and> (\<forall>i \<in> set is. a_used a ! i))"
          by (rule IH' [OF js dis]) (use mem Cons.prems(3) short in auto)
        then show ?thesis using \<open>?add\<close> short False unfolding step by simp
      qed
    next
      case no: False
      then have "cur \<noteq> []" by auto
      with IH [OF js, of last_id] no False show ?thesis unfolding step by auto
    qed
  qed
qed simp

subsection \<open>Taking tokens round by round\<close>

lemma mset_concat_take_Suc:
  assumes "[] \<notin> set xss"
  shows "mset (concat (map (take (Suc m)) xss)) = mset (map hd xss) + mset (concat (map (take m) (map tl xss)))"
  using assms
proof (induction xss)
  case (Cons xs xss)
  then show ?case by (cases xs) auto
qed simp

lemma fold_mark_hd: "fold (\<lambda>r a. mark_used (hd r) a) xss a = fold mark_used (map hd xss) a"
  by (induction xss arbitrary: a) simp_all

lemma equal_loop_spec:
  assumes "length taken = length ahead"
  shows "\<exists>m zs. equal_loop n ahead taken a = (map2 (\<lambda>t r. t @ take m r) taken ahead, fold mark_used zs a) \<and>
     mset zs = mset (concat (map (take m) ahead)) \<and> (\<forall>r \<in> set ahead. m \<le> length r) \<and>
     ([] \<notin> set ahead \<and> ahead \<noteq> [] \<longrightarrow> 0 < m) \<and>
     (ahead \<noteq> [] \<longrightarrow> m \<le> 1 \<or> (length (hd taken) + m) * length ahead \<le> n)"
  using assms
proof (induction n ahead taken a rule: equal_loop.induct)
  case (1 n ahead taken a)
  show ?case
  proof (cases "ahead = [] \<or> [] \<in> set ahead")
    case True
    then have eq: "equal_loop n ahead taken a = (taken, a)" by (subst equal_loop.simps) simp
    have "map2 (\<lambda>t r. t @ take 0 r) taken ahead = taken" using 1(2) by (simp add: zip_map_fst_snd map_fst_zip [unfolded fst_def] split_def)
    then show ?thesis using eq True by (intro exI [of _ 0] exI [of _ "[]"]) auto
  next
    case False
    let ?t = "map2 (\<lambda>t r. t @ [hd r]) taken ahead" and ?b = "fold mark_used (map hd ahead) a"
    have round: "take_round (ahead, taken, a) = (map tl ahead, ?t, ?b)" by (simp add: take_round_def fold_mark_hd)
    have ne: "taken \<noteq> []" "ahead \<noteq> []" using 1(2) False by auto
    have hdt: "length (hd ?t) = Suc (length (hd taken))" using ne by (cases taken; cases ahead) auto
    have join: "map2 (\<lambda>t r. t @ take m r) ?t (map tl ahead) = map2 (\<lambda>t r. t @ take (Suc m) r) taken ahead" for m
    proof -
      have "hd r # take m (tl r) = take (Suc m) r" if "r \<in> set ahead" for r
        using that False by (cases r rule: list.exhaust) auto
      then show ?thesis using 1(2) by (intro nth_equalityI) auto
    qed
    have lens: "Suc m \<le> length r" if "\<forall>r \<in> set (map tl ahead). m \<le> length r" "r \<in> set ahead" for m r
      using that False by (cases r) auto
    show ?thesis
    proof (cases "(length (hd ?t) + 1) * length ahead > n")
      case True
      then have eq: "equal_loop n ahead taken a = (?t, ?b)" using False by (subst equal_loop.simps) (simp add: round)
      have one: "map2 (\<lambda>t r. t @ take 1 r) taken ahead = ?t" 
      proof -
        have "take 1 r = [hd r]" if "r \<in> set ahead" for r using that False by (cases r rule: list.exhaust) auto
        then show ?thesis using 1(2) by (intro nth_equalityI) auto
      qed
      have ms: "mset (map hd ahead) = mset (concat (map (take 1) ahead))" using mset_concat_take_Suc [of ahead 0] False by simp
      have "\<forall>r \<in> set ahead. 1 \<le> length r" using lens [of 0] by simp
      then show ?thesis using eq one ms by (intro exI [of _ 1] exI [of _ "map hd ahead"]) simp
    next
      case rec: False
      then have eq: "equal_loop n ahead taken a = equal_loop n (map tl ahead) ?t ?b" using False by (subst equal_loop.simps) (simp add: round)
      from 1(1) [OF False round [symmetric] refl refl] rec 1(2) obtain m zs where
        IH: "equal_loop n (map tl ahead) ?t ?b = (map2 (\<lambda>t r. t @ take m r) ?t (map tl ahead), fold mark_used zs ?b)"
          "mset zs = mset (concat (map (take m) (map tl ahead)))" "\<forall>r \<in> set (map tl ahead). m \<le> length r"
          "m \<le> 1 \<or> (length (hd ?t) + m) * length ahead \<le> n" using ne by auto
      have bound: "Suc m \<le> 1 \<or> (length (hd taken) + Suc m) * length ahead \<le> n"
        using IH(4) rec unfolding hdt by (cases m) auto
      show ?thesis
        by (intro exI [of _ "Suc m"] exI [of _ "map hd ahead @ zs"])
          (use False eq IH(1,2) join lens [OF IH(3)] bound mset_concat_take_Suc [of ahead m] in auto)
    qed
  qed
qed

subsection \<open>The tokens of one call\<close>

lemma skip_used_eq:
  assumes "\<forall>i \<in> set xs. i < length used" "\<exists>i \<in> set xs. \<not> used ! i"
  shows "skip_used used xs = Some (length (takeWhile ((!) used) xs))"
  using assms by (induction xs) auto

lemma drop_prefix:
  assumes "sorted_wrt (\<lambda>i j. P j \<longrightarrow> P i) xs"
  shows "drop (length (takeWhile P xs)) xs = filter (\<lambda>i. \<not> P i) xs"
  using assms
proof (induction xs)
  case (Cons x xs)
  then show ?case by (cases "P x") (auto simp: filter_id_conv)
qed simp

lemma ahead_of_eq:
  assumes "alloc_ok a" "in_order a" "S \<in> (!) (a_seq_set a) ` set (unused a)"
  shows "skip_used (a_used a) (a_seq_set_map a S) = Some (length (takeWhile ((!) (a_used a)) (a_seq_set_map a S)))"
    "drop (length (takeWhile ((!) (a_used a)) (a_seq_set_map a S))) (a_seq_set_map a S) = ahead_of a S"
    "ahead_of a S \<noteq> []"
proof -
  let ?m = "filter (\<lambda>i. a_seq_set a ! i = S) [0..<get_n_tokens a]"
  have m: "a_seq_set_map a S = ?m" and len: "length (a_used a) = get_n_tokens a" using assms(1) by (simp_all add: alloc_ok_def)
  have ah: "ahead_of a S = filter (\<lambda>i. \<not> a_used a ! i) ?m"
    by (simp add: ahead_of_def unused_def) (meson)
  have ex: "\<exists>i \<in> set ?m. \<not> a_used a ! i" using assms(3) by (auto simp: unused_def)
  then show "skip_used (a_used a) (a_seq_set_map a S) = Some (length (takeWhile ((!) (a_used a)) (a_seq_set_map a S)))"
    unfolding m by (intro skip_used_eq) (auto simp: len)
  have "sorted_wrt (<) ?m" by (intro sorted_wrt_filter) simp
  then have "sorted_wrt (\<lambda>i j. a_used a ! j \<longrightarrow> a_used a ! i) ?m"
    by (rule sorted_wrt_mono_rel [rotated]) (use assms(2) in \<open>auto simp: in_order_def\<close>)
  from drop_prefix [OF this]
  show "drop (length (takeWhile ((!) (a_used a)) (a_seq_set_map a S))) (a_seq_set_map a S) = ahead_of a S"
    unfolding m ah .
  show "ahead_of a S \<noteq> []" using ex unfolding ah by (auto simp: filter_empty_conv)
qed

lemma fold_mark_mset:
  assumes "mset xs = mset ys"
  shows "fold mark_used xs a = fold mark_used ys a"
proof -
  have "fold (\<lambda>i used. used[i := True]) xs (a_used a) = fold (\<lambda>i used. used[i := True]) ys (a_used a)"
    by (rule nth_equalityI) (use mset_eq_setD [OF assms] in \<open>auto simp: fold_set_True\<close>)
  then show ?thesis using mset_eq_length [OF assms] by (simp add: fold_mark_used)
qed

definition equal_sets :: "nat \<Rightarrow> bool \<Rightarrow> batch_allocr \<Rightarrow> seq_set list" where
  "equal_sets n sq a = the (pick_seq_sets n sq a [0..<get_n_tokens a] [] (-1))"

definition equal_rounds :: "nat \<Rightarrow> bool \<Rightarrow> batch_allocr \<Rightarrow> nat list list" where
  "equal_rounds n sq a =
     fst (equal_loop n (map (ahead_of a) (equal_sets n sq a)) (replicate (length (equal_sets n sq a)) []) a)"

definition equal_pick :: "nat \<Rightarrow> bool \<Rightarrow> batch_allocr \<Rightarrow> nat list" where
  "equal_pick n sq a = concat (equal_rounds n sq a)"

lemma equal_sets_spec:
  assumes "alloc_ok a" "unused a \<noteq> []"
  shows "pick_seq_sets n sq a [0..<get_n_tokens a] [] (-1) = Some (equal_sets n sq a)"
    "equal_sets n sq a \<noteq> []" "sorted_wrt (\<lambda>S T. S \<inter> T = {}) (equal_sets n sq a)"
    "set (equal_sets n sq a) \<subseteq> (!) (a_seq_set a) ` set (unused a)" "length (equal_sets n sq a) \<le> Suc n"
proof -
  obtain cur where cur: "pick_seq_sets n sq a [0..<get_n_tokens a] [] (-1) = Some cur"
    "sorted_wrt (\<lambda>S T. S \<inter> T = {}) cur" "set cur \<subseteq> (!) (a_seq_set a) ` set (unused a)" "length cur \<le> Suc n"
    "cur = [] \<longleftrightarrow> (\<forall>i < get_n_tokens a. a_used a ! i)"
    using pick_seq_sets_spec [OF assms(1), of "[0..<get_n_tokens a]" "[]" n sq "-1"]
    by (auto simp: atLeast0LessThan)
  have "cur \<noteq> []" using assms(2) cur(5) by (auto simp: unused_def filter_empty_conv)
  with cur show "pick_seq_sets n sq a [0..<get_n_tokens a] [] (-1) = Some (equal_sets n sq a)"
    "equal_sets n sq a \<noteq> []" "sorted_wrt (\<lambda>S T. S \<inter> T = {}) (equal_sets n sq a)"
    "set (equal_sets n sq a) \<subseteq> (!) (a_seq_set a) ` set (unused a)" "length (equal_sets n sq a) \<le> Suc n"
    by (simp_all add: equal_sets_def)
qed

lemma equal_rounds_spec:
  assumes "alloc_ok a" "in_order a" "unused a \<noteq> []"
  obtains m where "0 < m" "m \<le> 1 \<or> m * length (equal_sets n sq a) \<le> n"
    "equal_rounds n sq a = map (\<lambda>S. take m (ahead_of a S)) (equal_sets n sq a)"
    "\<forall>S \<in> set (equal_sets n sq a). m \<le> length (ahead_of a S)"
    "equal_loop n (map (ahead_of a) (equal_sets n sq a)) (replicate (length (equal_sets n sq a)) []) a =
       (equal_rounds n sq a, fold mark_used (equal_pick n sq a) a)"
proof -
  note sets = equal_sets_spec [OF assms(1,3), of n sq]
  let ?c = "equal_sets n sq a"
  have ne: "[] \<notin> set (map (ahead_of a) ?c)" 
  proof
    assume "[] \<in> set (map (ahead_of a) ?c)"
    then obtain S where S: "S \<in> set ?c" "ahead_of a S = []" by auto
    from S(1) sets(4) have "S \<in> (!) (a_seq_set a) ` set (unused a)" by blast
    with ahead_of_eq(3) [OF assms(1,2)] S(2) show False by blast
  qed
  obtain m zs where m: "equal_loop n (map (ahead_of a) ?c) (replicate (length ?c) []) a =
      (map2 (\<lambda>t r. t @ take m r) (replicate (length ?c) []) (map (ahead_of a) ?c), fold mark_used zs a)"
      "mset zs = mset (concat (map (take m) (map (ahead_of a) ?c)))"
      "\<forall>r \<in> set (map (ahead_of a) ?c). m \<le> length r"
      "[] \<notin> set (map (ahead_of a) ?c) \<and> map (ahead_of a) ?c \<noteq> [] \<longrightarrow> 0 < m"
      "map (ahead_of a) ?c \<noteq> [] \<longrightarrow> m \<le> 1 \<or> (length (hd (replicate (length ?c) [] :: nat list list)) + m) * length (map (ahead_of a) ?c) \<le> n"
    using equal_loop_spec [of "replicate (length ?c) []" "map (ahead_of a) ?c" n a] by auto
  have rounds: "map2 (\<lambda>t r. t @ take m r) (replicate (length ?c) []) (map (ahead_of a) ?c) = map (\<lambda>S. take m (ahead_of a S)) ?c"
    by (rule nth_equalityI) auto
  then have er: "equal_rounds n sq a = map (\<lambda>S. take m (ahead_of a S)) ?c" by (simp add: equal_rounds_def m(1))
  have "fold mark_used zs a = fold mark_used (equal_pick n sq a) a"
    by (rule fold_mark_mset) (simp add: m(2) equal_pick_def er o_def)
  with m(1) rounds er have loop: "equal_loop n (map (ahead_of a) ?c) (replicate (length ?c) []) a =
       (equal_rounds n sq a, fold mark_used (equal_pick n sq a) a)" by simp
  have hd: "length (hd (replicate (length ?c) [] :: nat list list)) = 0" using sets(2) by (cases ?c) auto
  show thesis
    by (rule that [OF _ _ er _ loop]) (use m(3-5) ne sets(2) hd in auto)
qed

lemma concat_blocks:
  assumes "sorted_wrt (\<lambda>S T. S \<inter> T = {}) cur" "\<forall>S \<in> set cur. S \<noteq> {}"
    and "\<forall>S \<in> set cur. distinct (f S) \<and> length (f S) = m \<and> (\<forall>i \<in> set (f S). g i = S)"
  shows "distinct (concat (map f cur)) \<and> length (concat (map f cur)) = m * length cur"
  using assms
proof (induction cur)
  case (Cons S cur)
  have "S \<notin> set cur" using Cons.prems(1,2) by auto
  have IH: "distinct (concat (map f cur))" "length (concat (map f cur)) = m * length cur" using Cons by simp_all
  have S: "distinct (f S)" "length (f S) = m" "\<forall>i \<in> set (f S). g i = S" using Cons.prems(3) by simp_all
  have "g i \<noteq> S" if "i \<in> set (concat (map f cur))" for i
    using that \<open>S \<notin> set cur\<close> Cons.prems(3) by auto
  then have "set (f S) \<inter> set (concat (map f cur)) = {}" using S(3) by blast
  with IH S show ?case by simp
qed simp

lemma sorted_take_mem:
  assumes "sorted_wrt (<) xs" "i \<in> set xs" "j \<in> set (take m xs)" "i < (j::nat)"
  shows "i \<in> set (take m xs)"
proof -
  from assms(2,3) obtain k l where k: "k < length xs" "xs ! k = i" and l: "l < length xs" "l < m" "xs ! l = j"
    by (auto simp: in_set_conv_nth)
  have "\<not> l \<le> k" using assms(1,4) k l sorted_wrt_nth_less [of "(<)" xs l k] by (cases "l = k") auto
  then show ?thesis using k l by (auto simp: in_set_conv_nth intro!: exI [of _ k])
qed

lemma ahead_of_facts:
  "sorted_wrt (<) (ahead_of a S)" "distinct (ahead_of a S)" "set (ahead_of a S) \<subseteq> set (unused a)"
  "i \<in> set (ahead_of a S) \<longleftrightarrow> i \<in> set (unused a) \<and> a_seq_set a ! i = S"
  by (auto simp: ahead_of_def unused_def intro!: sorted_wrt_filter)

lemma alloc_seq_sets:
  assumes "alloc_ok a" "i < get_n_tokens a"
  shows "a_seq_set a ! i \<noteq> {}"
  using assms arrays_ok_ids [of a i] by (simp add: alloc_ok_def)

lemma equal_pick_spec:
  assumes "alloc_ok a" "in_order a" "unused a \<noteq> []"
  obtains m where "0 < m" "m \<le> 1 \<or> m * length (equal_sets n sq a) \<le> n"
    "equal_pick n sq a = concat (map (\<lambda>S. take m (ahead_of a S)) (equal_sets n sq a))"
    "\<forall>S \<in> set (equal_sets n sq a). m \<le> length (ahead_of a S)"
    "equal_loop n (map (ahead_of a) (equal_sets n sq a)) (replicate (length (equal_sets n sq a)) []) a =
       (equal_rounds n sq a, fold mark_used (equal_pick n sq a) a)"
    "distinct (equal_pick n sq a)" "length (equal_pick n sq a) = m * length (equal_sets n sq a)"
    "set (equal_pick n sq a) \<subseteq> set (unused a)" "equal_pick n sq a \<noteq> []"
proof -
  obtain m where m: "0 < m" "m \<le> 1 \<or> m * length (equal_sets n sq a) \<le> n"
    "equal_rounds n sq a = map (\<lambda>S. take m (ahead_of a S)) (equal_sets n sq a)"
    "\<forall>S \<in> set (equal_sets n sq a). m \<le> length (ahead_of a S)"
    "equal_loop n (map (ahead_of a) (equal_sets n sq a)) (replicate (length (equal_sets n sq a)) []) a =
       (equal_rounds n sq a, fold mark_used (equal_pick n sq a) a)"
    by (rule equal_rounds_spec [OF assms, of n sq])
  note sets = equal_sets_spec [OF assms(1,3), of n sq]
  have ne: "\<forall>S \<in> set (equal_sets n sq a). S \<noteq> {}"
    using sets(4) alloc_seq_sets [OF assms(1)] unused_less by blast
  have pick: "equal_pick n sq a = concat (map (\<lambda>S. take m (ahead_of a S)) (equal_sets n sq a))"
    by (simp add: equal_pick_def m(3))
  have blk: "\<forall>S \<in> set (equal_sets n sq a). distinct (take m (ahead_of a S)) \<and> length (take m (ahead_of a S)) = m \<and>
      (\<forall>i \<in> set (take m (ahead_of a S)). a_seq_set a ! i = S)"
    using m(4) ahead_of_facts(2,4) by (auto dest: in_set_takeD)
  have dl: "distinct (equal_pick n sq a)" "length (equal_pick n sq a) = m * length (equal_sets n sq a)"
    using concat_blocks [OF sets(3) ne blk] by (simp_all add: pick)
  have sub: "set (equal_pick n sq a) \<subseteq> set (unused a)"
    using ahead_of_facts(3) by (auto simp: pick dest!: in_set_takeD)
  have "equal_pick n sq a \<noteq> []" using dl(2) m(1) sets(2) by auto
  with m pick dl sub show thesis by (intro that)
qed

lemma in_order_took:
  assumes "alloc_ok a" "in_order a" "unused a \<noteq> []"
  shows "in_order (took (equal_pick n sq a) a)"
proof -
  obtain m where pick: "equal_pick n sq a = concat (map (\<lambda>S. take m (ahead_of a S)) (equal_sets n sq a))"
    by (rule equal_pick_spec [OF assms, of n sq])
  have len: "length (a_used a) = get_n_tokens a" using assms(1) by (simp add: alloc_ok_def)
  have "a_used a ! i \<or> i \<in> set (equal_pick n sq a)"
    if j: "j < get_n_tokens a" and ij: "i < j" "a_seq_set a ! i = a_seq_set a ! j"
      and used: "a_used a ! j \<or> j \<in> set (equal_pick n sq a)" for i j
  proof (cases "a_used a ! j \<or> a_used a ! i")
    case True
    then show ?thesis using assms(2) j ij by (auto simp: in_order_def)
  next
    case False
    then have "j \<in> set (equal_pick n sq a)" using used by simp
    then obtain S where S: "S \<in> set (equal_sets n sq a)" "j \<in> set (take m (ahead_of a S))" by (auto simp: pick)
    have "a_seq_set a ! j = S" using in_set_takeD [OF S(2)] ahead_of_facts(4) by blast
    then have "i \<in> set (ahead_of a S)" using False ij j by (auto simp: ahead_of_facts(4) unused_def)
    from sorted_take_mem [OF ahead_of_facts(1) this S(2) ij(1)] show ?thesis using S(1) by (auto simp: pick)
  qed
  then show ?thesis by (auto simp: in_order_def took_state fold_set_True len)
qed

lemma map2_skips:
  assumes "\<And>S. S \<in> set cur \<Longrightarrow> drop (f S) (g S) = h S"
  shows "map2 (\<lambda>k S. drop k (g S)) (map f cur) cur = map h cur"
  using assms by (intro nth_equalityI) auto

text \<open>The whole of \<open>split_equal\<close> is one call of \<open>ubatch_add\<close> on the chosen tokens.\<close>

lemma split_equal_call:
  assumes "equal_ok sq a" "unused a \<noteq> []"
  shows "split_equal n sq a =
     ubatch_add (equal_pick n sq a) (length (equal_sets n sq a)) True (fold mark_used (equal_pick n sq a) a)"
proof -
  have alloc: "alloc_ok a" and ord: "in_order a" and cpl: "\<not> (sq \<and> a_has_cpl a)"
    using assms(1) by (auto simp: equal_ok_def)
  note sets = equal_sets_spec [OF alloc assms(2), of n sq]
  let ?c = "equal_sets n sq a" and ?p = "equal_pick n sq a"
  obtain m where m: "equal_loop n (map (ahead_of a) ?c) (replicate (length ?c) []) a =
       (equal_rounds n sq a, fold mark_used ?p a)"
    by (rule equal_pick_spec [OF alloc ord assms(2), of n sq])
  let ?k = "\<lambda>S. length (takeWhile ((!) (a_used a)) (a_seq_set_map a S))"
  have skips: "those (map (\<lambda>S. skip_used (a_used a) (a_seq_set_map a S)) ?c) = Some (map ?k ?c)"
    by (rule those_map_Some) (use ahead_of_eq(1) [OF alloc ord] sets(4) in blast)
  have ahead: "map2 (\<lambda>k S. drop k (a_seq_set_map a S)) (map ?k ?c) ?c = map (ahead_of a) ?c"
    by (rule map2_skips) (use ahead_of_eq(2) [OF alloc ord] sets(4) in blast)
  show ?thesis
    using cpl sets(1,2) unfolding split_equal_def get_n_tokens_def [symmetric]
    by (auto simp: skips ahead Let_def m equal_pick_def [symmetric])
qed

lemma split_equal_next:
  assumes "equal_ok sq a" "unused a \<noteq> []"
  obtains u where "split_equal n sq a = Some (u, took (equal_pick n sq a) a)" "handed (equal_pick n sq a) a u"
    "u_n_seqs u = length (equal_sets n sq a)" "u_equal_seqs u"
    "u_n_seq_tokens u * length (equal_sets n sq a) = length (equal_pick n sq a)"
proof -
  have alloc: "alloc_ok a" and ord: "in_order a" using assms(1) by (auto simp: equal_ok_def)
  have arr: "arrays_ok a" using alloc by (simp add: alloc_ok_def)
  note sets = equal_sets_spec [OF alloc assms(2), of n sq]
  let ?c = "equal_sets n sq a" and ?p = "equal_pick n sq a"
  obtain m where m: "length ?p = m * length ?c" "set ?p \<subseteq> set (unused a)"
    by (rule equal_pick_spec [OF alloc ord assms(2), of n sq])
  have range: "set ?p \<subseteq> {..<get_n_tokens a}" using m(2) unused_less by blast
  show thesis
    by (rule ubatch_add_took [OF arr range, of "length ?c" True])
      (use that m sets(2) split_equal_call [OF assms] in auto)
qed

interpretation equal: splitter "split_equal n sq" "equal_ok sq" "equal_pick n sq" for n sq
proof
  fix a
  assume ok: "equal_ok sq a"
  then show alloc: "alloc_ok a" by (simp add: equal_ok_def)
  have ord: "in_order a" and cpl: "\<not> (sq \<and> a_has_cpl a)" using ok by (auto simp: equal_ok_def)
  show "split_equal n sq a = Some (ubatch_none, a)" if "unused a = []"
  proof -
    have "pick_seq_sets n sq a [0..<get_n_tokens a] [] (-1) = Some []"
      using pick_seq_sets_spec [OF alloc, of "[0..<get_n_tokens a]" "[]" n sq "-1"] that
      by (auto simp: atLeast0LessThan unused_def filter_empty_conv)
    then show ?thesis using cpl by (simp add: split_equal_def get_n_tokens_def)
  qed
  assume some: "unused a \<noteq> []"
  let ?p = "equal_pick n sq a"
  obtain m where m: "distinct ?p" "set ?p \<subseteq> set (unused a)" "?p \<noteq> []"
    by (rule equal_pick_spec [OF alloc ord some, of n sq])
  then show "?p \<noteq> [] \<and> distinct ?p \<and> set ?p \<subseteq> set (unused a)" by simp
  show "\<exists>u. split_equal n sq a = Some (u, took ?p a) \<and> handed ?p a u"
    by (rule split_equal_next [OF ok some, of n]) blast
  show "equal_ok sq (took ?p a)"
    using alloc_ok_took [OF alloc m(1,2)] in_order_took [OF alloc ord some, of n sq] ok
    by (simp add: equal_ok_def)
qed

text \<open>
  The shape of one equal-length micro-batch: \<open>m\<close> tokens for each of the chosen sequence sets, set by
  set, with pairwise disjoint sets. At most \<open>n_ubatch + 1\<close> sets are chosen.
\<close>

lemma concat_replicate_sets:
  assumes "\<forall>S \<in> set cur. length (f S) = m \<and> (\<forall>i \<in> set (f S). g i = S)"
  shows "map g (concat (map f cur)) = concat (map (replicate m) cur)"
  using assms by (induction cur) (auto intro: nth_equalityI)

lemma split_equal_shape:
  assumes "equal_ok sq a" "unused a \<noteq> []"
  obtains u cur m where "split_equal n sq a = Some (u, took (equal_pick n sq a) a)" "handed (equal_pick n sq a) a u"
    "0 < m" "u_equal_seqs u" "u_n_seqs u = length cur" "u_n_seq_tokens u = m" "u_n_tokens u = m * length cur"
    "cur \<noteq> []" "length cur \<le> Suc n" "m \<le> 1 \<or> m * length cur \<le> n" "sorted_wrt (\<lambda>S T. S \<inter> T = {}) cur"
    "map ((!) (a_seq_set a)) (equal_pick n sq a) = concat (map (replicate m) cur)"
proof -
  have alloc: "alloc_ok a" and ord: "in_order a" using assms(1) by (auto simp: equal_ok_def)
  note sets = equal_sets_spec [OF alloc assms(2), of n sq]
  let ?c = "equal_sets n sq a" and ?p = "equal_pick n sq a"
  obtain m where m: "0 < m" "m \<le> 1 \<or> m * length ?c \<le> n" "?p = concat (map (\<lambda>S. take m (ahead_of a S)) ?c)"
      "\<forall>S \<in> set ?c. m \<le> length (ahead_of a S)" "length ?p = m * length ?c"
    by (rule equal_pick_spec [OF alloc ord assms(2), of n sq])
  have blocks: "map ((!) (a_seq_set a)) ?p = concat (map (replicate m) ?c)"
    unfolding m(3) by (rule concat_replicate_sets) (use m(4) ahead_of_facts(4) in \<open>auto dest: in_set_takeD\<close>)
  obtain u where u: "split_equal n sq a = Some (u, took ?p a)" "handed ?p a u" "u_n_seqs u = length ?c"
      "u_equal_seqs u" "u_n_seq_tokens u * length ?c = length ?p"
    by (rule split_equal_next [OF assms, of n])
  have "u_n_seq_tokens u = m" using u(5) m(5) sets(2) by simp
  moreover have "u_n_tokens u = m * length ?c" using u(2) m(5) by (simp add: handed_def)
  ultimately show thesis by (intro that [OF u(1,2) m(1) u(4,3) _ _ sets(2,5) m(2) sets(3) blocks])
qed

end
