(* ===== verification/Batch_Init.thy ===== *)
theory Batch_Init
  imports Batch_Split
begin

text \<open>
  What a successful \<open>llama_batch_allocr::init\<close> establishes: the summaries of the allocator describe
  the batch, the positions of every sequence continue the memory without a gap, and the splitters
  find the state they need.
\<close>

section \<open>Generated and derived fields\<close>

text \<open>The fields that the statistics loops leave alone.\<close>

definition same_rest :: "batch_allocr \<Rightarrow> batch_allocr \<Rightarrow> bool" where
  "same_rest a a' \<longleftrightarrow> a_batch a' = a_batch a \<and> a_n_pos_per_embd a' = a_n_pos_per_embd a \<and>
     a_n_embd a' = a_n_embd a \<and> a_n_seq_max a' = a_n_seq_max a \<and> a_n_outputs a' = a_n_outputs a \<and>
     a_seq_id_unq a' = a_seq_id_unq a \<and> a_seq_idx a' = a_seq_idx a"

lemma same_rest_refl [simp]: "same_rest a a"
  by (simp add: same_rest_def)

lemma all_ok_True: "all_ok f xs = Some True \<Longrightarrow> x \<in> set xs \<Longrightarrow> f x = Some True"
proof (induction xs)
  case (Cons y ys)
  then obtain b where "f y = Some b" "(if b then all_ok f ys else Some False) = Some True"
    by (auto simp: Option.bind_eq_Some_conv)
  with Cons show ?case by (cases b) auto
qed simp

lemma arr_okI:
  assumes "\<forall>i < n. deref p i \<noteq> None"
  shows "arr_ok p n \<or> n = 0"
proof (cases n)
  case (Suc m)
  with assms have "deref p m \<noteq> None" by simp
  with Suc show ?thesis by (auto simp: arr_ok_def deref_def nth_opt_def split: option.splits if_splits)
qed simp

lemma count_outputs_eq:
  assumes "count_outputs b = Some n"
  shows "n = length (filter (\<lambda>i. the (b_logits b) ! i \<noteq> 0) [0..<nat (b_n_tokens b)])"
    "arr_ok (b_logits b) (nat (b_n_tokens b)) \<or> nat (b_n_tokens b) = 0"
proof -
  let ?N = "nat (b_n_tokens b)"
  let ?P = "\<lambda>k n. n = length (filter (\<lambda>i. the (b_logits b) ! i \<noteq> 0) [0..<k]) \<and>
     (\<forall>i < k. deref (b_logits b) i \<noteq> None)"
  have "?P ?N n"
  proof (rule foldo_upt_keeps [OF assms [unfolded count_outputs_def], where P = ?P])
    fix i s s'
    assume i: "?P i s" and "(do { l \<leftarrow> deref (b_logits b) i; Some (if l \<noteq> 0 then s + 1 else s) }) = Some s'"
    then obtain l where "deref (b_logits b) i = Some l" "s' = (if l \<noteq> 0 then s + 1 else s)"
      by (auto simp: Option.bind_eq_Some_conv)
    moreover from this have "the (b_logits b) ! i = l" by (auto simp: deref_def split: option.splits)
    ultimately show "?P (Suc i) s'" using i by (auto simp: less_Suc_eq)
  qed simp
  then have c: "n = length (filter (\<lambda>i. the (b_logits b) ! i \<noteq> 0) [0..<?N])"
    "\<forall>i < ?N. deref (b_logits b) i \<noteq> None" by (rule conjunct1, rule conjunct2)
  show "n = length (filter (\<lambda>i. the (b_logits b) ! i \<noteq> 0) [0..<?N])" by (rule c(1))
  show "arr_ok (b_logits b) ?N \<or> ?N = 0" by (rule arr_okI [OF c(2)])
qed

subsection \<open>Sequences and positions\<close>

definition couple_body :: "nat \<Rightarrow> int \<Rightarrow> int list \<Rightarrow> nat \<Rightarrow> batch_allocr \<Rightarrow> batch_allocr option" where
  "couple_body i s0 ids = (\<lambda>k a. do {
     let s1 = ids ! k;
     p \<leftarrow> deref (b_pos (a_batch a)) i;
     ensure (0 \<le> s1 \<and> s1 < LLAMA_MAX_SEQ);
     let a = a\<lparr>a_seq_pos := (a_seq_pos a)(s1 := insert p (a_seq_pos a s1))\<rparr>;
     (if k > 0
      then do {
        ensure (0 \<le> s0 \<and> s0 < LLAMA_MAX_SEQ);
        Some (a\<lparr>a_seq_cpl := (a_seq_cpl a)(s1 := (a_seq_cpl a s1)(s0 := True)), a_has_cpl := True\<rparr>) }
      else Some a) })"

lemma couple_step_effect:
  assumes "couple_step i a = Some a'"
  shows "same_rest a a' \<and> a_seq_set a' = a_seq_set a \<and> a_seq_set_map a' = a_seq_set_map a \<and>
     (\<exists>ids. token_seq_ids (a_batch a) i = Some ids \<and> (\<forall>s \<in> set ids. 0 \<le> s \<and> s < LLAMA_MAX_SEQ) \<and>
       (ids \<noteq> [] \<longrightarrow> deref (b_pos (a_batch a)) i \<noteq> None) \<and>
       (\<forall>s. a_seq_pos a' s = a_seq_pos a s \<union> (if s \<in> set ids then {the (b_pos (a_batch a)) ! i} else {})))"
proof -
  from assms obtain ids0 s0 ids where ids: "token_seq_ids (a_batch a) i = Some ids"
    and run: "foldo (couple_body i s0 ids) [0..<length ids] a = Some a'"
    by (auto simp: couple_step_def couple_body_def Option.bind_eq_Some_conv nth_opt_def split: if_splits)
  let ?P = "\<lambda>k a'. same_rest a a' \<and> a_seq_set a' = a_seq_set a \<and> a_seq_set_map a' = a_seq_set_map a \<and>
     (\<forall>s \<in> set (take k ids). 0 \<le> s \<and> s < LLAMA_MAX_SEQ) \<and> (k > 0 \<longrightarrow> deref (b_pos (a_batch a)) i \<noteq> None) \<and>
     (\<forall>s. a_seq_pos a' s = a_seq_pos a s \<union> (if s \<in> set (take k ids) then {the (b_pos (a_batch a)) ! i} else {}))"
  have "?P (length ids) a'"
  proof (rule foldo_upt_keeps [OF run, where P = ?P])
    fix k t t'
    assume k: "k < length ids" and P: "?P k t" and step: "couple_body i s0 ids k t = Some t'"
    have b: "a_batch t = a_batch a" using P by (simp add: same_rest_def)
    from step obtain p where p: "deref (b_pos (a_batch a)) i = Some p" "0 \<le> ids ! k" "ids ! k < LLAMA_MAX_SEQ"
      by (auto simp: couple_body_def b Let_def Option.bind_eq_Some_conv split: if_splits)
    then have pv: "the (b_pos (a_batch a)) ! i = p" by (auto simp: deref_def split: option.splits)
    have rest: "same_rest t t'" "a_seq_set t' = a_seq_set t" "a_seq_set_map t' = a_seq_set_map t"
      and sp: "a_seq_pos t' = (a_seq_pos t)(ids ! k := insert p (a_seq_pos t (ids ! k)))"
      using step p by (auto simp: couple_body_def b Let_def same_rest_def split: if_splits)
    show "?P (Suc k) t'"
      using P rest p pv k unfolding sp
      by (auto simp: take_Suc_conv_app_nth same_rest_def split: if_splits)
  qed simp
  with ids show ?thesis by auto
qed

lemma couple_steps:
  assumes "foldo couple_step [0..<n] a = Some a'"
  shows "same_rest a a' \<and> a_seq_set a' = a_seq_set a \<and> a_seq_set_map a' = a_seq_set_map a \<and>
     (\<forall>i < n. \<exists>ids. token_seq_ids (a_batch a) i = Some ids \<and> (\<forall>s \<in> set ids. 0 \<le> s \<and> s < LLAMA_MAX_SEQ) \<and>
       (ids \<noteq> [] \<longrightarrow> deref (b_pos (a_batch a)) i \<noteq> None)) \<and>
     (\<forall>s. a_seq_pos a' s = a_seq_pos a s \<union> {the (b_pos (a_batch a)) ! i | i. i < n \<and> s \<in> set (batch_ids (a_batch a) i)})"
proof (rule foldo_upt_keeps [OF assms, where P = "\<lambda>n a'. same_rest a a' \<and> a_seq_set a' = a_seq_set a \<and>
     a_seq_set_map a' = a_seq_set_map a \<and>
     (\<forall>i < n. \<exists>ids. token_seq_ids (a_batch a) i = Some ids \<and> (\<forall>s \<in> set ids. 0 \<le> s \<and> s < LLAMA_MAX_SEQ) \<and>
       (ids \<noteq> [] \<longrightarrow> deref (b_pos (a_batch a)) i \<noteq> None)) \<and>
     (\<forall>s. a_seq_pos a' s = a_seq_pos a s \<union> {the (b_pos (a_batch a)) ! i | i. i < n \<and> s \<in> set (batch_ids (a_batch a) i)})"],
    goal_cases)
  case (2 i t t')
  have b: "a_batch t = a_batch a" using 2(2) by (simp add: same_rest_def)
  from couple_step_effect [OF 2(3)] obtain ids where e: "same_rest t t'" "a_seq_set t' = a_seq_set t"
    "a_seq_set_map t' = a_seq_set_map t" "token_seq_ids (a_batch a) i = Some ids"
    "\<forall>s \<in> set ids. 0 \<le> s \<and> s < LLAMA_MAX_SEQ" "ids \<noteq> [] \<longrightarrow> deref (b_pos (a_batch a)) i \<noteq> None"
    "\<forall>s. a_seq_pos t' s = a_seq_pos t s \<union> (if s \<in> set ids then {the (b_pos (a_batch a)) ! i} else {})"
    unfolding b by blast
  have bi: "batch_ids (a_batch a) i = ids" using e(4) by (simp add: batch_ids_def)
  have "a_seq_pos t' s = a_seq_pos a s \<union>
      {the (b_pos (a_batch a)) ! j | j. j < Suc i \<and> s \<in> set (batch_ids (a_batch a) j)}" for s
    using 2(2) e(7) by (auto simp: less_Suc_eq bi)
  then show ?case using 2(2) e(1-6) by (auto simp: less_Suc_eq same_rest_def)
qed simp

lemma seq_set_steps:
  assumes "foldo seq_set_step [0..<n] (a, {}) = Some (a', unq)" "a_seq_set a = []" "a_seq_set_map a = (\<lambda>_. [])"
  shows "same_rest a a' \<and> a_seq_pos a' = a_seq_pos a \<and> a_has_cpl a' = a_has_cpl a \<and> a_seq_cpl a' = a_seq_cpl a \<and>
     a_seq_set a' = map (\<lambda>i. set (batch_ids (a_batch a) i)) [0..<n] \<and>
     a_seq_set_map a' = (\<lambda>S. filter (\<lambda>i. set (batch_ids (a_batch a) i) = S) [0..<n]) \<and>
     unq = (\<Union>i \<in> {..<n}. set (batch_ids (a_batch a) i))"
proof -
  let ?P = "\<lambda>k (a', unq). same_rest a a' \<and> a_seq_pos a' = a_seq_pos a \<and> a_has_cpl a' = a_has_cpl a \<and>
     a_seq_cpl a' = a_seq_cpl a \<and> a_seq_set a' = map (\<lambda>i. set (batch_ids (a_batch a) i)) [0..<k] \<and>
     a_seq_set_map a' = (\<lambda>S. filter (\<lambda>i. set (batch_ids (a_batch a) i) = S) [0..<k]) \<and>
     unq = (\<Union>i \<in> {..<k}. set (batch_ids (a_batch a) i))"
  have "?P n (a', unq)"
  proof (rule foldo_upt_keeps [OF assms(1), where P = ?P])
    fix i s s'
    assume P: "?P i s" and step: "seq_set_step i s = Some s'"
    obtain t u where s: "s = (t, u)" by fastforce
    have b: "a_batch t = a_batch a" using P by (simp add: s same_rest_def)
    from step obtain ids where ids: "token_seq_ids (a_batch a) i = Some ids"
      and s': "s' = (t\<lparr>a_seq_set := a_seq_set t @ [set ids],
        a_seq_set_map := (a_seq_set_map t)(set ids := a_seq_set_map t (set ids) @ [i])\<rparr>, u \<union> set ids)"
      by (auto simp: s b seq_set_step_def Let_def Option.bind_eq_Some_conv split: if_splits)
    have bi: "batch_ids (a_batch a) i = ids" using ids by (simp add: batch_ids_def)
    show "?P (Suc i) s'" using P by (simp add: s s' bi same_rest_def fun_eq_iff lessThan_Suc Un_commute)
  qed (simp add: assms(2,3))
  then show ?thesis by simp
qed

lemma index_seqs_eq:
  assumes "index_seqs unq n (idx0, []) = (idx, ids)"
  shows "ids = filter (\<lambda>s. s \<in> unq) [0..int n - 1]" "\<forall>s \<in> set ids. 0 \<le> idx s \<and> ids ! nat (idx s) = s \<and> nat (idx s) < length ids"
    "\<forall>s. s \<notin> set ids \<longrightarrow> idx s = idx0 s"
proof -
  have gen: "fold (\<lambda>s (idx, ids). if s \<in> unq then (idx(s := int (length ids)), ids @ [s]) else (idx, ids)) xs (idx0, []) = (idx, ids) \<Longrightarrow>
      distinct xs \<Longrightarrow> ids = filter (\<lambda>s. s \<in> unq) xs \<and> (\<forall>s \<in> set ids. 0 \<le> idx s \<and> ids ! nat (idx s) = s \<and> nat (idx s) < length ids) \<and>
      (\<forall>s. s \<notin> set ids \<longrightarrow> idx s = idx0 s)" for xs :: "int list" and idx ids
  proof (induction xs arbitrary: idx ids rule: rev_induct)
    case (snoc x xs)
    obtain idx1 ids1 where r: "fold (\<lambda>s (idx, ids). if s \<in> unq then (idx(s := int (length ids)), ids @ [s]) else (idx, ids)) xs (idx0, []) = (idx1, ids1)"
      by fastforce
    note IH = snoc.IH [OF r]
    show ?case
      using snoc.prems IH r by (auto simp: nth_append split: if_splits)
  qed simp
  from gen [OF assms [unfolded index_seqs_def] distinct_upto]
  show "ids = filter (\<lambda>s. s \<in> unq) [0..int n - 1]" "\<forall>s \<in> set ids. 0 \<le> idx s \<and> ids ! nat (idx s) = s \<and> nat (idx s) < length ids"
    "\<forall>s. s \<notin> set ids \<longrightarrow> idx s = idx0 s"
    by blast+
qed

section \<open>The stages of a successful initialisation\<close>

text \<open>
  What a caller guarantees beyond what \<open>init\<close> checks itself: the arrays it never reads are long
  enough and every token names at least one sequence.
\<close>

definition input_ok :: "nat \<Rightarrow> nat \<Rightarrow> llama_batch \<Rightarrow> bool" where
  "input_ok n_embd n_pos inp \<longleftrightarrow> (let n = nat (b_n_tokens inp) in
     (b_embd inp = None \<or> arr_ok (b_embd inp) (n * n_embd)) \<and>
     (b_token inp \<noteq> None \<or> n_pos \<le> 1 \<or> arr_ok (b_pos inp) (n * n_pos)) \<and>
     (case b_n_seq_id inp of None \<Rightarrow> True | Some ns \<Rightarrow> (\<forall>k \<in> set ns. 0 < k)))"

lemma batch_init_stages:
  assumes "batch_init inp n_vocab mem n_embd n_seq_max output_all a0 = Some (True, a)"
  obtains b2 b3 a4 where "0 < b_n_tokens inp" "batch_validate inp n_vocab n_seq_max = Some True"
    "fill_pos mem n_seq_max (fill_seq_id inp) = Some b2" "fill_logits output_all b2 = Some b3"
    "batch_stats n_embd n_seq_max ((batch_clear a0)\<lparr>a_batch := b3\<rparr>) = Some a4"
    "check_positions mem a4 = Some True" "check_coupled mem a4 = Some True" "check_order a4 = Some True"
    "a = split_reset a4"
proof -
  note d = assms [unfolded batch_init_def Let_def]
  from d have n: "0 < b_n_tokens inp" by (simp split: if_splits)
  with d obtain ok where ok: "batch_validate inp n_vocab n_seq_max = Some ok" by (auto simp: Option.bind_eq_Some_conv)
  with d n have v: "batch_validate inp n_vocab n_seq_max = Some True" by (cases ok) simp_all
  note d = d [unfolded v]
  from d n obtain b2 where b2: "fill_pos mem n_seq_max (fill_seq_id inp) = Some b2" by (auto simp: Option.bind_eq_Some_conv)
  with d n obtain b3 where b3: "fill_logits output_all b2 = Some b3" by (auto simp: Option.bind_eq_Some_conv)
  with d n b2 obtain a4 where a4: "batch_stats n_embd n_seq_max ((batch_clear a0)\<lparr>a_batch := b3\<rparr>) = Some a4"
    by (auto simp: Option.bind_eq_Some_conv)
  with d n b2 b3 obtain k1 where k1: "check_positions mem a4 = Some k1" by (auto simp: Option.bind_eq_Some_conv)
  with d n b2 b3 a4 have c1: "check_positions mem a4 = Some True" by (cases k1) simp_all
  with d n b2 b3 a4 obtain k2 where k2: "check_coupled mem a4 = Some k2" by (auto simp: Option.bind_eq_Some_conv)
  with d n b2 b3 a4 c1 have c2: "check_coupled mem a4 = Some True" by (cases k2) simp_all
  with d n b2 b3 a4 c1 obtain k3 where k3: "check_order a4 = Some k3" by (auto simp: Option.bind_eq_Some_conv)
  with d n b2 b3 a4 c1 c2 have c3: "check_order a4 = Some True" and a: "a = split_reset a4"
    by (cases k3, simp_all)+
  show thesis by (rule that [OF n v b2 b3 a4 c1 c2 c3 a])
qed

lemma fill_frame:
  assumes "fill_pos mem m (fill_seq_id inp) = Some b2" "fill_logits o' b2 = Some b3"
  shows "b_n_tokens b3 = b_n_tokens inp" "b_token b3 = b_token inp" "b_embd b3 = b_embd inp"
    "b_pos inp \<noteq> None \<Longrightarrow> b_pos b3 = b_pos inp"
    "b_n_seq_id b3 = (if b_n_seq_id inp = None then Some (replicate (nat (b_n_tokens inp)) 1) else b_n_seq_id inp)"
    "b_seq_id b3 = (if b_seq_id inp = None then Some (replicate (nat (b_n_tokens inp)) [0]) else b_seq_id inp)"
proof -
  have f: "b_n_tokens b2 = b_n_tokens (fill_seq_id inp) \<and> b_token b2 = b_token (fill_seq_id inp) \<and>
      b_embd b2 = b_embd (fill_seq_id inp) \<and> b_n_seq_id b2 = b_n_seq_id (fill_seq_id inp) \<and>
      b_seq_id b2 = b_seq_id (fill_seq_id inp) \<and>
      (b_pos (fill_seq_id inp) \<noteq> None \<longrightarrow> b_pos b2 = b_pos (fill_seq_id inp))"
    using assms(1) by (auto simp: fill_pos_def Option.bind_eq_Some_conv split: if_splits)
  have l: "b_n_tokens b3 = b_n_tokens b2 \<and> b_token b3 = b_token b2 \<and> b_embd b3 = b_embd b2 \<and>
      b_n_seq_id b3 = b_n_seq_id b2 \<and> b_seq_id b3 = b_seq_id b2 \<and> b_pos b3 = b_pos b2"
    using assms(2) by (auto simp: fill_logits_def Let_def split: option.splits if_splits)
  show "b_n_tokens b3 = b_n_tokens inp" "b_token b3 = b_token inp" "b_embd b3 = b_embd inp"
    "b_pos inp \<noteq> None \<Longrightarrow> b_pos b3 = b_pos inp"
    "b_n_seq_id b3 = (if b_n_seq_id inp = None then Some (replicate (nat (b_n_tokens inp)) 1) else b_n_seq_id inp)"
    "b_seq_id b3 = (if b_seq_id inp = None then Some (replicate (nat (b_n_tokens inp)) [0]) else b_seq_id inp)"
    using f l by (auto simp: fill_seq_id_def Let_def)
qed

text \<open>The statistics of the allocator, as functions of its batch.\<close>

definition stats_ok :: "batch_allocr \<Rightarrow> bool" where
  "stats_ok a \<longleftrightarrow> (let b = a_batch a; n = get_n_tokens a in
     a_seq_set a = map (\<lambda>i. set (batch_ids b i)) [0..<n] \<and>
     a_seq_set_map a = (\<lambda>S. filter (\<lambda>i. set (batch_ids b i) = S) [0..<n]) \<and>
     (\<forall>s. a_seq_pos a s = {the (b_pos b) ! i | i. i < n \<and> s \<in> set (batch_ids b i)}) \<and>
     a_n_outputs a = length (filter (is_output a) [0..<n]) \<and>
     a_seq_id_unq a = filter (\<lambda>s. \<exists>i < n. s \<in> set (batch_ids b i)) [0..int (a_n_seq_max a) - 1] \<and>
     (\<forall>s \<in> set (a_seq_id_unq a). 0 \<le> a_seq_idx a s \<and> a_seq_id_unq a ! nat (a_seq_idx a s) = s))"

lemma batch_stats_ok:
  assumes "batch_stats n_embd n_seq_max ((batch_clear a0)\<lparr>a_batch := b\<rparr>) = Some a"
  shows "stats_ok a" "a_batch a = b" "a_n_embd a = n_embd" "a_n_seq_max a = n_seq_max"
    "a_n_pos_per_embd a = a_n_pos_per_embd a0" "0 < nat (b_n_tokens b) \<Longrightarrow> arr_ok (b_logits b) (nat (b_n_tokens b))"
    "\<forall>i < nat (b_n_tokens b). \<exists>ids. token_seq_ids b i = Some ids \<and> (\<forall>s \<in> set ids. 0 \<le> s \<and> s < LLAMA_MAX_SEQ) \<and>
       (ids \<noteq> [] \<longrightarrow> deref (b_pos b) i \<noteq> None)"
proof -
  let ?n = "nat (b_n_tokens b)"
  let ?a1 = "(batch_clear a0)\<lparr>a_batch := b, a_n_embd := n_embd, a_n_seq_max := n_seq_max\<rparr>"
  from assms obtain n_out a3 a4 unq where
    out: "count_outputs b = Some n_out"
    and c: "foldo couple_step [0..<?n] (?a1\<lparr>a_n_outputs := a_n_outputs ?a1 + n_out, a_has_cpl := False\<rparr>) = Some a3"
    and st: "foldo seq_set_step [0..<?n] (a3, {}) = Some (a4, unq)"
    and a: "a = (let (idx, ids) = index_seqs unq n_seq_max (a_seq_idx a4, a_seq_id_unq a4)
        in a4\<lparr>a_seq_idx := idx, a_seq_id_unq := ids\<rparr>)"
    unfolding batch_stats_def Let_def by (auto simp: Option.bind_eq_Some_conv split_def)
  note C = couple_steps [OF c]
  have z: "a_seq_set a3 = []" "a_seq_set_map a3 = (\<lambda>_. [])" using C by (simp_all add: batch_clear_def)
  note S = seq_set_steps [OF st z]
  have b3: "a_batch a3 = b" using C by (simp add: same_rest_def)
  have emp: "a_seq_id_unq a4 = []" using C S by (simp add: same_rest_def batch_clear_def)
  obtain idx ids where ix: "index_seqs unq n_seq_max (a_seq_idx a4, []) = (idx, ids)" by fastforce
  have a': "a = a4\<lparr>a_seq_idx := idx, a_seq_id_unq := ids\<rparr>" using a ix emp by simp
  note I = index_seqs_eq [OF ix]
  have f: "a_batch a = b" "a_n_embd a = n_embd" "a_n_seq_max a = n_seq_max" "a_n_pos_per_embd a = a_n_pos_per_embd a0"
      "a_n_outputs a = n_out" "get_n_tokens a = ?n"
    using C S by (simp_all add: a' same_rest_def batch_clear_def get_n_tokens_def)
  show "a_batch a = b" "a_n_embd a = n_embd" "a_n_seq_max a = n_seq_max" "a_n_pos_per_embd a = a_n_pos_per_embd a0"
    by (fact f)+
  show "arr_ok (b_logits b) ?n" if "0 < ?n" using count_outputs_eq(2) [OF out] that by simp
  have "a_seq_pos a s = {the (b_pos b) ! i | i. i < ?n \<and> s \<in> set (batch_ids b i)}" for s
    using C S by (simp add: a' batch_clear_def)
  moreover have "ids = filter (\<lambda>s. \<exists>i < ?n. s \<in> set (batch_ids b i)) [0..int n_seq_max - 1]"
    unfolding I(1) using S b3 by (intro filter_cong) auto
  ultimately show "stats_ok a"
    using S b3 I(2) count_outputs_eq(1) [OF out] unfolding stats_ok_def Let_def f is_output_def [abs_def]
    by (simp add: a')
  show "\<forall>i < ?n. \<exists>ids. token_seq_ids b i = Some ids \<and> (\<forall>s \<in> set ids. 0 \<le> s \<and> s < LLAMA_MAX_SEQ) \<and>
       (ids \<noteq> [] \<longrightarrow> deref (b_pos b) i \<noteq> None)" using C by simp
qed

section \<open>What the splitters and the memory can rely on\<close>

lemma split_reset_frame [simp]:
  "a_batch (split_reset a) = a_batch a" "a_n_embd (split_reset a) = a_n_embd a"
  "a_n_pos_per_embd (split_reset a) = a_n_pos_per_embd a" "a_n_seq_max (split_reset a) = a_n_seq_max a"
  "a_seq_set (split_reset a) = a_seq_set a" "a_seq_set_map (split_reset a) = a_seq_set_map a"
  "a_seq_pos (split_reset a) = a_seq_pos a" "a_has_cpl (split_reset a) = a_has_cpl a"
  "a_n_outputs (split_reset a) = a_n_outputs a" "a_seq_id_unq (split_reset a) = a_seq_id_unq a"
  "a_seq_idx (split_reset a) = a_seq_idx a" "a_seq_cpl (split_reset a) = a_seq_cpl a"
  "a_used (split_reset a) = replicate (get_n_tokens a) False" "a_n_used (split_reset a) = 0"
  "a_out_ids (split_reset a) = []" "get_n_tokens (split_reset a) = get_n_tokens a"
  "is_output (split_reset a) = is_output a"
  by (simp_all add: split_reset_def get_n_tokens_def is_output_def fun_eq_iff)

lemma stats_ok_reset: "stats_ok (split_reset a) = stats_ok a"
  by (simp add: stats_ok_def)

lemma token_ids_nonempty:
  assumes "token_seq_ids b i = Some ids" "deref (b_n_seq_id b) i = Some k" "0 < k"
  shows "ids \<noteq> []"
  using assms by (auto simp: token_seq_ids_def Option.bind_eq_Some_conv split: if_splits)

lemma validated_tokens:
  assumes "batch_validate inp n_vocab n_seq_max = Some True" "i < nat (b_n_tokens inp)" "b_token inp \<noteq> None"
  shows "\<exists>t. deref (b_token inp) i = Some t \<and> 0 \<le> t \<and> t < int n_vocab"
proof -
  let ?f = "\<lambda>i. do { t \<leftarrow> deref (b_token inp) i; Some (\<not> (t < 0 \<or> t \<ge> int n_vocab)) }"
  from assms obtain ok where ok: "all_ok ?f [0..<nat (b_n_tokens inp)] = Some ok"
    by (auto simp: batch_validate_def Option.bind_eq_Some_conv split: if_splits)
  with assms have "ok" by (cases ok) (auto simp: batch_validate_def split: if_splits)
  with ok have "all_ok ?f [0..<nat (b_n_tokens inp)] = Some True" by simp
  from all_ok_True [OF this, of i] assms(2) show ?thesis by (auto simp: Option.bind_eq_Some_conv)
qed

lemma batch_init_arrays:
  assumes init: "batch_init inp n_vocab mem n_embd n_seq_max output_all a0 = Some (True, a)"
    and inp: "input_ok n_embd (a_n_pos_per_embd a0) inp"
  shows "arrays_ok a"
proof -
  obtain b2 b3 a4 where st: "0 < b_n_tokens inp" "batch_validate inp n_vocab n_seq_max = Some True"
    "fill_pos mem n_seq_max (fill_seq_id inp) = Some b2" "fill_logits output_all b2 = Some b3"
    "batch_stats n_embd n_seq_max ((batch_clear a0)\<lparr>a_batch := b3\<rparr>) = Some a4" "a = split_reset a4"
    by (rule batch_init_stages [OF init])
  note fr = fill_frame [OF st(3,4)] and S = batch_stats_ok [OF st(5)]
  let ?n = "nat (b_n_tokens inp)"
  have n: "0 < ?n" "get_n_tokens a = ?n" using st(1) S(2) fr(1) by (simp_all add: st(6) get_n_tokens_def)
  have b: "a_batch a = b3" and ne: "a_n_embd a = n_embd" and np: "a_n_pos_per_embd a = a_n_pos_per_embd a0"
    using S by (simp_all add: st(6))
  have tok: "b_token b3 = None \<or> arr_ok (b_token b3) ?n"
    using arr_okI [of ?n "b_token inp"] validated_tokens [OF st(2)] n(1) unfolding fr(2) by fastforce
  have ids: "\<exists>ids k. token_seq_ids b3 i = Some ids \<and> deref (b_n_seq_id b3) i = Some k \<and> 0 < k \<and> ids \<noteq> [] \<and>
      (\<forall>s \<in> set ids. 0 \<le> s \<and> s < LLAMA_MAX_SEQ) \<and> deref (b_pos b3) i \<noteq> None" if i: "i < ?n" for i
  proof -
    obtain ids where ids: "token_seq_ids b3 i = Some ids" "\<forall>s \<in> set ids. 0 \<le> s \<and> s < LLAMA_MAX_SEQ"
      "ids \<noteq> [] \<longrightarrow> deref (b_pos b3) i \<noteq> None" using S(7) i fr(1) by auto
    then obtain k where k: "deref (b_n_seq_id b3) i = Some k" by (auto simp: token_seq_ids_def Option.bind_eq_Some_conv)
    have "0 < k"
    proof (cases "b_n_seq_id inp")
      case None
      with k i show ?thesis unfolding fr(5) by (simp add: deref_def)
    next
      case (Some ns)
      with inp have "\<forall>k \<in> set ns. 0 < k" by (simp add: input_ok_def Let_def)
      with Some k show ?thesis unfolding fr(5) by (auto simp: deref_def)
    qed
    with ids k token_ids_nonempty [OF ids(1) k] show ?thesis by auto
  qed
  have pos1: "arr_ok (b_pos b3) ?n" 
  proof -
    have "\<forall>i < ?n. deref (b_pos b3) i \<noteq> None" using ids by metis
    from arr_okI [OF this] n(1) show ?thesis by simp
  qed
  have pos: "arr_ok (b_pos b3) (if b_token b3 \<noteq> None then ?n else ?n * a_n_pos_per_embd a0)"
  proof (cases "b_token b3 \<noteq> None \<or> a_n_pos_per_embd a0 \<le> 1")
    case True
    have "(if b_token b3 \<noteq> None then ?n else ?n * a_n_pos_per_embd a0) \<le> ?n"
      using True mult_le_mono2 [of "a_n_pos_per_embd a0" 1 ?n] by auto
    with pos1 show ?thesis by (auto simp: arr_ok_def split: option.splits dest: order_trans)
  next
    case False
    then have *: "arr_ok (b_pos inp) (?n * a_n_pos_per_embd a0)" using inp fr(2) by (auto simp: input_ok_def Let_def)
    then have "b_pos b3 = b_pos inp" using fr(4) by (cases "b_pos inp") (auto simp: arr_ok_def)
    with * False show ?thesis by simp
  qed
  have "\<forall>i < ?n. deref (b_n_seq_id b3) i \<noteq> None" using ids by (metis option.distinct(1))
  from arr_okI [OF this] n(1) have "arr_ok (b_n_seq_id b3) ?n" by simp
  moreover have "arr_ok (b_logits b3) ?n" using S(6) n(1) fr(1) by simp
  moreover have "b_embd b3 = None \<or> arr_ok (b_embd b3) (?n * n_embd)" using inp fr(3) by (auto simp: input_ok_def Let_def)
  moreover have "list_all (ids_ok b3) [0..<?n]"
    unfolding list_all_iff using ids by (fastforce simp: ids_ok_def)
  ultimately show ?thesis 
    using tok pos unfolding arrays_ok_def Let_def b n(2) ne np by blast
qed

lemma batch_init_ready:
  assumes init: "batch_init inp n_vocab mem n_embd n_seq_max output_all a0 = Some (True, a)"
    and inp: "input_ok n_embd (a_n_pos_per_embd a0) inp"
  shows "alloc_ok a" "unused a = [0..<get_n_tokens a]" "simple_ok a" "in_order a" "a_out_ids a = []"
    "get_n_tokens a = nat (b_n_tokens inp)" "a_n_embd a = n_embd"
proof -
  obtain b2 b3 a4 where st: "0 < b_n_tokens inp" "fill_pos mem n_seq_max (fill_seq_id inp) = Some b2"
    "fill_logits output_all b2 = Some b3"
    "batch_stats n_embd n_seq_max ((batch_clear a0)\<lparr>a_batch := b3\<rparr>) = Some a4" "a = split_reset a4"
    by (rule batch_init_stages [OF init])
  note fr = fill_frame [OF st(2,3)] and S = batch_stats_ok [OF st(4)]
  show un: "unused a = [0..<get_n_tokens a]" by (auto simp: unused_def st(5) filter_id_conv)
  have "stats_ok a" using S(1) by (simp add: st(5) stats_ok_reset)
  moreover have "filter (\<lambda>i. set (batch_ids (a_batch a) i) = T) [0..<get_n_tokens a] =
      filter (\<lambda>i. map (\<lambda>i. set (batch_ids (a_batch a) i)) [0..<get_n_tokens a] ! i = T) [0..<get_n_tokens a]" for T
    by (rule filter_cong) auto
  ultimately show ok: "alloc_ok a"
    using batch_init_arrays [OF init inp] un by (simp add: alloc_ok_def stats_ok_def Let_def fun_eq_iff st(5))
  then show "simple_ok a" by (simp add: simple_ok_def st(5))
  show "in_order a" by (simp add: in_order_def st(5))
  show "a_out_ids a = []" "get_n_tokens a = nat (b_n_tokens inp)" "a_n_embd a = n_embd"
    using S(2,3) fr(1) by (simp_all add: st(5) get_n_tokens_def)
qed

section \<open>Properties of the initialisation\<close>

definition demo_batch :: llama_batch where
  "demo_batch = \<lparr>b_n_tokens = 4, b_token = Some [5, 6, 7, 8], b_embd = None, b_pos = None,
     b_n_seq_id = Some [1, 1, 1, 1], b_seq_id = Some [[0], [1], [0], [1]], b_logits = None\<rparr>"

lemma demo_init:
  obtains a where "batch_init demo_batch 10 None 2 2 False (batch_allocr_new 1) = Some (True, a)"
proof -
  have "map_option fst (batch_init demo_batch 10 None 2 2 False (batch_allocr_new 1)) = Some True"
    by code_simp
  then show thesis using that by auto
qed

lemma demo_input: "input_ok 2 (a_n_pos_per_embd (batch_allocr_new 1)) demo_batch" "nat (b_n_tokens demo_batch) = 4"
  by (simp_all add: input_ok_def demo_batch_def batch_allocr_new_def)

text \<open>
  C8 (functional): after a successful \<open>init\<close> the summaries of the allocator describe the batch:
  \<open>seq_set\<close> has the set of sequences of every token and \<open>seq_set_map\<close> the tokens of every set in batch
  order, \<open>seq_pos\<close> holds exactly the positions of each sequence, \<open>n_outputs\<close> counts the output tokens,
  \<open>seq_id_unq\<close> lists the participating sequences in increasing order and \<open>seq_idx\<close> inverts it; and
  every token id is one of the vocabulary.
\<close>

theorem batch_init_summaries:
  assumes "batch_init inp n_vocab mem n_embd n_seq_max output_all a0 = Some (True, a)"
  shows "stats_ok a \<and> a_n_seq_max a = n_seq_max \<and>
     (\<forall>t i. b_token inp = Some t \<longrightarrow> i < nat (b_n_tokens inp) \<longrightarrow> i < length t \<and> 0 \<le> t ! i \<and> t ! i < int n_vocab)"
proof -
  obtain b3 a4 where st: "batch_validate inp n_vocab n_seq_max = Some True"
    "batch_stats n_embd n_seq_max ((batch_clear a0)\<lparr>a_batch := b3\<rparr>) = Some a4" "a = split_reset a4"
    by (rule batch_init_stages [OF assms])
  have "i < length t \<and> 0 \<le> t ! i \<and> t ! i < int n_vocab" if "b_token inp = Some t" "i < nat (b_n_tokens inp)" for t i
    using validated_tokens [OF st(1) that(2)] that(1) by (auto simp: deref_def)
  with batch_stats_ok [OF st(2)] show ?thesis by (simp add: st(3) stats_ok_reset)
qed

theorem batch_init_summaries_witness:
  "\<exists>a. batch_init demo_batch 10 None 2 2 False (batch_allocr_new 1) = Some (True, a) \<and> stats_ok a"
  by (rule demo_init) (use batch_init_summaries in blast)

text \<open>The positions of a sequence, when they span no more than their number, are an interval.\<close>

lemma interval_of_card:
  assumes "finite A" "A \<noteq> {}" "Max A - Min A + 1 \<le> int (card A)"
  shows "A = {Min A..<Min A + int (card A)}"
proof -
  define lo hi where "lo = Min A" and "hi = Max A"
  have le: "lo \<le> hi" unfolding lo_def hi_def using Min_le [OF assms(1) Max_in [OF assms(1,2)]] .
  have sub: "A \<subseteq> {lo..hi}" using assms(1) by (auto simp: lo_def hi_def)
  have "card {lo..hi} \<le> card A" using assms(3) le by (simp add: lo_def hi_def)
  then have eq: "A = {lo..hi}" using card_seteq [OF _ sub] by simp
  then have "int (card A) = hi - lo + 1" using le by simp
  then have "{lo..hi} = {lo..<lo + int (card A)}" by auto
  then show ?thesis using eq unfolding lo_def by (rule trans [rotated])
qed

lemma stats_ok_finite: "stats_ok a \<Longrightarrow> finite (a_seq_pos a s)"
  by (simp add: stats_ok_def Let_def)

text \<open>
  C7 (invariant): with one position per token, a successful \<open>init\<close> guarantees that the positions of
  every sequence in the batch form a gap-free interval, and that the interval starts right after the
  last position the memory holds for that sequence when it holds one.
\<close>

theorem batch_init_positions:
  assumes "batch_init inp n_vocab mem n_embd n_seq_max output_all a0 = Some (True, a)"
    and "a_n_pos_per_embd a0 \<le> 1" "0 \<le> s" "s < int n_seq_max" "a_seq_pos a s \<noteq> {}"
  shows "\<exists>p0 lo. mem_last mem s = Some p0 \<and> (0 \<le> p0 \<longrightarrow> lo = p0 + 1) \<and>
     a_seq_pos a s = {lo..<lo + int (card (a_seq_pos a s))}"
proof -
  obtain b3 a4 where st: "batch_stats n_embd n_seq_max ((batch_clear a0)\<lparr>a_batch := b3\<rparr>) = Some a4"
    "check_positions mem a4 = Some True" "a = split_reset a4"
    by (rule batch_init_stages [OF assms(1)])
  note S = batch_stats_ok [OF st(1)]
  have ne: "a_seq_pos a4 s \<noteq> {}" and np: "\<not> a_n_pos_per_embd a4 > 1" using assms(2,5) S(5) by (simp_all add: st(3))
  note chk = all_ok_True [OF st(2) [unfolded check_positions_def], of s]
  have range: "s \<in> set [0..int (a_n_seq_max a4) - 1]" using assms(3,4) S(4) by simp
  from chk [OF range] ne np obtain p0 where p0: "mem_last mem s = Some p0"
    "0 \<le> p0 \<longrightarrow> batch_seq_pos_min s a4 = p0 + 1"
    "batch_seq_pos_max s a4 - batch_seq_pos_min s a4 + 1 \<le> int (card (a_seq_pos a4 s))"
    by (auto simp: Option.bind_eq_Some_conv split: if_splits)
  let ?A = "a_seq_pos a4 s"
  have "?A = {Min ?A..<Min ?A + int (card ?A)}"
    by (rule interval_of_card [OF stats_ok_finite [OF S(1)] ne])
      (use p0(3) ne in \<open>simp add: batch_seq_pos_min_def batch_seq_pos_max_def\<close>)
  moreover have "0 \<le> p0 \<longrightarrow> Min ?A = p0 + 1" using p0(2) ne by (simp add: batch_seq_pos_min_def)
  ultimately show ?thesis using p0(1) unfolding st(3) by auto
qed

theorem batch_init_positions_witness:
  "\<exists>a p0 lo. batch_init demo_batch 10 None 2 2 False (batch_allocr_new 1) = Some (True, a) \<and>
     mem_last None 1 = Some p0 \<and> a_seq_pos a 1 = {lo..<lo + int (card (a_seq_pos a 1))}"
proof -
  obtain a where a: "batch_init demo_batch 10 None 2 2 False (batch_allocr_new 1) = Some (True, a)" by (rule demo_init)
  have "map_option (\<lambda>(_, a). a_seq_pos a 1 \<noteq> {}) (batch_init demo_batch 10 None 2 2 False (batch_allocr_new 1)) = Some True"
    by code_simp
  with batch_init_positions [OF a, of 1] a show ?thesis by (auto simp: batch_allocr_new_def)
qed

text \<open>
  The last check of \<open>init\<close>, which is meant to reject sequences that belong to incompatible sets and
  positions that decrease.
\<close>

lemma check_order_seqs:
  assumes "\<forall>s \<in> set ids. 0 \<le> s \<and> s < int n_seq_max \<and> s \<in> ss" "int n_seq_max \<le> LLAMA_MAX_SEQ" "-1 \<le> p"
    and "\<forall>s. 0 \<le> s \<and> s < int n_seq_max \<longrightarrow> s \<in> cur s"
  shows "\<exists>cur'. foldo (check_order_seq n_seq_max (\<lambda>_. -1) p ss) ids (True, cur) = Some (True, cur') \<and>
     (\<forall>s. 0 \<le> s \<and> s < int n_seq_max \<longrightarrow> s \<in> cur' s)"
  using assms(1,4)
proof (induction ids arbitrary: cur)
  case (Cons s ids)
  let ?cur = "cur(s := cur s \<inter> ss)"
  have s: "s \<in> cur s \<inter> ss" "0 \<le> s" "s < int n_seq_max" using Cons.prems by auto
  then have step: "check_order_seq n_seq_max (\<lambda>_. -1) p ss s (True, cur) = Some (True, ?cur)"
    using assms(3) by (auto simp: check_order_seq_def Let_def)
  have "\<forall>s. 0 \<le> s \<and> s < int n_seq_max \<longrightarrow> s \<in> ?cur s" using Cons.prems(2) s by auto
  then have "\<exists>cur'. foldo (check_order_seq n_seq_max (\<lambda>_. -1) p ss) ids (True, ?cur) = Some (True, cur') \<and>
     (\<forall>s. 0 \<le> s \<and> s < int n_seq_max \<longrightarrow> s \<in> cur' s)"
    by (intro Cons.IH) (use Cons.prems(1) in auto)
  then show ?case unfolding foldo.simps step Option.bind.simps .
qed simp

text \<open>
  C11 (error): the last check of \<open>init\<close> never rejects a batch whose positions are at least \<open>-1\<close>: for
  every allocator whose summaries describe its batch it answers true, whatever the order of the
  positions and whatever the sequence sets. (\<open>cur_seq_pos\<close> stays \<open>-1\<close>, and the running intersection for
  a sequence always contains that sequence.)
\<close>

theorem check_order_accepts_all:
  assumes "stats_ok a" "int (a_n_seq_max a) \<le> LLAMA_MAX_SEQ"
    and "\<forall>i < get_n_tokens a. deref (b_pos (a_batch a)) i = Some (pos i) \<and> -1 \<le> pos i"
    and "\<forall>i < get_n_tokens a. token_seq_ids (a_batch a) i = Some (ids i) \<and>
           (\<forall>s \<in> set (ids i). 0 \<le> s \<and> s < int (a_n_seq_max a))"
  shows "check_order a = Some True"
proof -
  let ?n = "get_n_tokens a"
  let ?P = "\<lambda>_ (ok, cur). ok \<and> (\<forall>s. 0 \<le> s \<and> s < int (a_n_seq_max a) \<longrightarrow> s \<in> cur s)"
  have "\<exists>r. foldo (check_order_token a (\<lambda>_. -1)) [0..<?n] (True, \<lambda>_. {0..LLAMA_MAX_SEQ - 1}) = Some r \<and> ?P ?n r"
  proof (rule foldo_upt_invariant)
    fix i r
    assume i: "i < ?n" and P: "?P i r"
    obtain cur where r: "r = (True, cur)" "\<forall>s. 0 \<le> s \<and> s < int (a_n_seq_max a) \<longrightarrow> s \<in> cur s" using P by (cases r) auto
    have ss: "nth_opt (a_seq_set a) i = Some (set (ids i))" using assms(1,4) i by (auto simp: stats_ok_def Let_def batch_ids_def)
    have "\<forall>s \<in> set (ids i). 0 \<le> s \<and> s < int (a_n_seq_max a) \<and> s \<in> set (ids i)" and "-1 \<le> pos i" using assms(3,4) i by auto
    from check_order_seqs [OF this(1) assms(2) this(2) r(2)]
    show "\<exists>r'. check_order_token a (\<lambda>_. -1) i r = Some r' \<and> ?P (Suc i) r'"
      using assms(3,4) i ss by (auto simp: check_order_token_def r(1))
  qed (use assms(2) in auto)
  then show ?thesis by (auto simp: check_order_def get_n_tokens_def)
qed

text \<open>Two tokens of sequence 0 at positions 1 and 0, in this order, pass \<open>init\<close>.\<close>

definition decreasing_batch :: llama_batch where
  "decreasing_batch = \<lparr>b_n_tokens = 2, b_token = Some [5, 6], b_embd = None, b_pos = Some [1, 0],
     b_n_seq_id = None, b_seq_id = None, b_logits = None\<rparr>"

lemma decreasing_accepted:
  "map_option fst (batch_init decreasing_batch 10 None 2 2 False (batch_allocr_new 1)) = Some True"
  by code_simp

theorem check_order_accepts_all_witness:
  "\<exists>a. map_option snd (batch_init decreasing_batch 10 None 2 2 False (batch_allocr_new 1)) = Some a \<and>
     check_order a = Some True"
proof -
  obtain a where a: "batch_init decreasing_batch 10 None 2 2 False (batch_allocr_new 1) = Some (True, a)"
    using decreasing_accepted by auto
  have stats: "stats_ok a \<and> a_n_seq_max a = 2" using a
    by (rule batch_init_stages) (simp add: stats_ok_reset batch_stats_ok)
  have "map_option (\<lambda>(_, a). (get_n_tokens a, b_pos (a_batch a), token_seq_ids (a_batch a) 0, token_seq_ids (a_batch a) 1))
      (batch_init decreasing_batch 10 None 2 2 False (batch_allocr_new 1)) = Some (2, Some [1, 0], Some [0], Some [0])"
    by code_simp
  then have ev: "get_n_tokens a = 2" "b_pos (a_batch a) = Some [1, 0]" "token_seq_ids (a_batch a) 0 = Some [0]"
    "token_seq_ids (a_batch a) 1 = Some [0]" using a by simp_all
  have "check_order a = Some True"
    by (rule check_order_accepts_all [of a "\<lambda>i. [1, 0] ! i" "\<lambda>_. [0]"])
      (use stats ev in \<open>auto simp: LLAMA_MAX_SEQ_def deref_def less_2_cases_iff\<close>)
  with a show ?thesis by simp
qed

section \<open>Properties of the splitting\<close>

text \<open>
  C5 (functional): splitting an initialised batch with \<open>split_simple\<close> until it returns nothing
  terminates within \<open>n_tokens + 1\<close> calls, marks every token as used, cuts the batch into non-empty
  micro-batches of at most \<open>n_ubatch\<close> tokens (one when \<open>n_ubatch\<close> is 0) whose rows, concatenated, are
  the rows of the batch in order, and records the output tokens in order.
\<close>

theorem split_simple_partition:
  assumes "batch_init inp n_vocab mem n_embd n_seq_max output_all a0 = Some (True, a)"
    and "input_ok n_embd (a_n_pos_per_embd a0) inp"
  shows "\<exists>us a'. split_run (split_simple n_ubatch) (Suc (nat (b_n_tokens inp))) a = Some (us, a') \<and>
     concat (map (ubatch_rows n_embd) us) = map (batch_row a) [0..<nat (b_n_tokens inp)] \<and>
     (\<forall>u \<in> set us. 0 < u_n_tokens u \<and> u_n_tokens u \<le> max 1 n_ubatch) \<and>
     get_n_used a' = nat (b_n_tokens inp) \<and>
     get_out_ids a' = filter (is_output a) [0..<nat (b_n_tokens inp)]"
proof -
  note r = batch_init_ready [OF assms]
  have "length (unused a) < Suc (nat (b_n_tokens inp))" using r(2,6) by simp
  from simple.run_ordered_rows [OF r(3) this, of n_ubatch] obtain us where
    us: "split_run (split_simple n_ubatch) (Suc (nat (b_n_tokens inp))) a = Some (us, took (unused a) a)"
      "\<forall>u \<in> set us. 0 < u_n_tokens u \<and> u_n_tokens u \<le> max 1 n_ubatch"
      "concat (map (ubatch_rows (a_n_embd a)) us) = map (batch_row a) (unused a)" by blast
  have "a_n_used a + length (unused a) = nat (b_n_tokens inp)" using r(1,6) by (simp add: alloc_ok_def)
  with us r(2,5-7) show ?thesis by (simp add: took_state get_n_used_def get_out_ids_def)
qed

theorem split_simple_partition_witness:
  "\<exists>a us a'. batch_init demo_batch 10 None 2 2 False (batch_allocr_new 1) = Some (True, a) \<and>
     split_run (split_simple 3) 5 a = Some (us, a') \<and> get_n_used a' = 4 \<and> length (concat (map (ubatch_rows 2) us)) = 4"
proof -
  obtain a where a: "batch_init demo_batch 10 None 2 2 False (batch_allocr_new 1) = Some (True, a)" by (rule demo_init)
  from split_simple_partition [OF a demo_input(1), of 3] obtain us a' where
    r: "split_run (split_simple 3) 5 a = Some (us, a')" "get_n_used a' = 4"
      "concat (map (ubatch_rows 2) us) = map (batch_row a) [0..<4]"
    unfolding demo_input(2) by auto
  have "length (concat (map (ubatch_rows 2) us)) = 4" unfolding r(3) by simp
  with a r(1,2) show ?thesis by blast
qed

text \<open>
  C6 (functional): without sequential mode, or when the batch has no coupled sequences, the
  equal-length splitter hands out every token of an initialised batch exactly once as well: run until
  it returns nothing, which takes at most \<open>n_tokens + 1\<close> calls, it yields non-empty micro-batches whose
  rows are the rows of the batch, as multisets. (In sequential mode it refuses a batch with coupled
  sequences.)
\<close>

theorem split_equal_partition:
  assumes "batch_init inp n_vocab mem n_embd n_seq_max output_all a0 = Some (True, a)"
    and "input_ok n_embd (a_n_pos_per_embd a0) inp" "sequential \<longrightarrow> \<not> a_has_cpl a"
  shows "\<exists>us a'. split_run (split_equal n_ubatch sequential) (Suc (nat (b_n_tokens inp))) a = Some (us, a') \<and>
     mset (concat (map (ubatch_rows n_embd) us)) = mset (map (batch_row a) [0..<nat (b_n_tokens inp)]) \<and>
     (\<forall>u \<in> set us. 0 < u_n_tokens u) \<and> get_n_used a' = nat (b_n_tokens inp)"
proof -
  note r = batch_init_ready [OF assms(1,2)]
  have ok: "equal_ok sequential a" using r(1,4) assms(3) by (simp add: equal_ok_def)
  have "length (unused a) < Suc (nat (b_n_tokens inp))" using r(2,6) by simp
  from equal.run_rows [OF ok this, of n_ubatch] show ?thesis
    unfolding r(2,6,7) get_n_used_def by blast
qed

theorem split_equal_partition_witness:
  "\<exists>a us a'. batch_init demo_batch 10 None 2 2 False (batch_allocr_new 1) = Some (True, a) \<and>
     split_run (split_equal 3 False) 5 a = Some (us, a') \<and> get_n_used a' = 4"
proof -
  obtain a where a: "batch_init demo_batch 10 None 2 2 False (batch_allocr_new 1) = Some (True, a)" by (rule demo_init)
  from split_equal_partition [OF a demo_input(1), of False 3] a show ?thesis
    unfolding demo_input(2) by auto
qed

text \<open>
  C9 (bounds): one call of \<open>split_equal\<close> on a prepared allocator with a token left returns \<open>n_seqs\<close>
  blocks of \<open>n_seq_tokens\<close> tokens each, all tokens of a block having the same sequence set and the
  sets of different blocks being disjoint; there are at most \<open>n_ubatch + 1\<close> blocks and at most
  \<open>n_ubatch + 1\<close> tokens, and at most \<open>n_ubatch\<close> tokens when a block has more than one.
\<close>

theorem split_equal_blocks:
  assumes "equal_ok sequential a" "unused a \<noteq> []"
  shows "\<exists>u a' cur. split_equal n_ubatch sequential a = Some (u, a') \<and> u_equal_seqs u \<and> cur \<noteq> [] \<and>
     u_n_seqs u = length cur \<and> 0 < u_n_seq_tokens u \<and> u_n_tokens u = u_n_seq_tokens u * u_n_seqs u \<and>
     sorted_wrt (\<lambda>S T. S \<inter> T = {}) cur \<and>
     map set (map (\<lambda>(_, _, _, _, ids, _). ids) (ubatch_rows (a_n_embd a) u)) =
       concat (map (replicate (u_n_seq_tokens u)) cur) \<and>
     u_n_tokens u \<le> n_ubatch + 1 \<and> (u_n_seq_tokens u > 1 \<longrightarrow> u_n_tokens u \<le> n_ubatch)"
proof -
  obtain u cur m where u: "split_equal n_ubatch sequential a = Some (u, took (equal_pick n_ubatch sequential a) a)"
    "handed (equal_pick n_ubatch sequential a) a u"
    "0 < m" "u_equal_seqs u" "u_n_seqs u = length cur" "u_n_seq_tokens u = m" "u_n_tokens u = m * length cur"
    "cur \<noteq> []" "length cur \<le> Suc n_ubatch" "m \<le> 1 \<or> m * length cur \<le> n_ubatch" "sorted_wrt (\<lambda>S T. S \<inter> T = {}) cur"
    "map ((!) (a_seq_set a)) (equal_pick n_ubatch sequential a) = concat (map (replicate m) cur)"
    by (rule split_equal_shape [OF assms, of n_ubatch])
  have alloc: "alloc_ok a" and ord: "in_order a" using assms(1) by (simp_all add: equal_ok_def)
  have sub: "set (equal_pick n_ubatch sequential a) \<subseteq> set (unused a)"
    by (rule equal_pick_spec [OF alloc ord assms(2), of n_ubatch sequential])
  have "set (batch_ids (a_batch a) i) = a_seq_set a ! i" if "i \<in> set (equal_pick n_ubatch sequential a)" for i
    using that sub unused_less alloc by (auto simp: alloc_ok_def)
  then have ids: "map set (map (\<lambda>(_, _, _, _, ids, _). ids) (ubatch_rows (a_n_embd a) u)) = concat (map (replicate m) cur)"
    using u(2,12) by (simp add: handed_def batch_row_def Let_def o_def cong: map_cong)
  have "m * length cur \<le> n_ubatch + 1"
  proof (cases "m \<le> 1")
    case True
    then have "m = 1" using u(3) by simp
    then show ?thesis using u(9) by simp
  qed (use u(10) in simp)
  then show ?thesis using u ids by auto
qed

theorem split_equal_blocks_witness:
  "\<exists>a u a'. batch_init demo_batch 10 None 2 2 False (batch_allocr_new 1) = Some (True, a) \<and>
     split_equal 4 False a = Some (u, a') \<and> u_n_tokens u \<le> 5"
proof -
  obtain a where a: "batch_init demo_batch 10 None 2 2 False (batch_allocr_new 1) = Some (True, a)" by (rule demo_init)
  note r = batch_init_ready [OF a demo_input(1)]
  have "equal_ok False a" "unused a \<noteq> []" using r by (simp_all add: equal_ok_def demo_input(2))
  from split_equal_blocks [OF this, of 4] a show ?thesis by fastforce
qed

text \<open>The bound of \<open>n_ubatch\<close> tokens is exceeded by one token when there are more sequences than that.\<close>

lemma split_equal_exceeds:
  "map_option (\<lambda>(_, a). map_option (\<lambda>(u, _). u_n_tokens u) (split_equal 1 False a))
     (batch_init demo_batch 10 None 2 2 False (batch_allocr_new 1)) = Some (Some 2)"
  by code_simp

text \<open>
  C10 (functional): \<open>split_seq\<close> hands out every token of an initialised batch exactly once too, and
  needs at most \<open>n_tokens + 1\<close> calls to do so.
\<close>

theorem split_seq_partition:
  assumes "batch_init inp n_vocab mem n_embd n_seq_max output_all a0 = Some (True, a)"
    and "input_ok n_embd (a_n_pos_per_embd a0) inp"
  shows "\<exists>us a'. split_run (split_seq n_ubatch) (Suc (nat (b_n_tokens inp))) a = Some (us, a') \<and>
     mset (concat (map (ubatch_rows n_embd) us)) = mset (map (batch_row a) [0..<nat (b_n_tokens inp)]) \<and>
     (\<forall>u \<in> set us. 0 < u_n_tokens u) \<and> get_n_used a' = nat (b_n_tokens inp)"
proof -
  note r = batch_init_ready [OF assms]
  have "length (unused a) < Suc (nat (b_n_tokens inp))" using r(2,6) by simp
  from seq.run_rows [OF r(1) this, of n_ubatch] show ?thesis
    unfolding r(2,6,7) get_n_used_def by blast
qed

theorem split_seq_partition_witness:
  "\<exists>a us a'. batch_init demo_batch 10 None 2 2 False (batch_allocr_new 1) = Some (True, a) \<and>
     split_run (split_seq 3) 5 a = Some (us, a') \<and> get_n_used a' = 4"
proof -
  obtain a where a: "batch_init demo_batch 10 None 2 2 False (batch_allocr_new 1) = Some (True, a)" by (rule demo_init)
  from split_seq_partition [OF a demo_input(1), of 3] a show ?thesis
    unfolding demo_input(2) by auto
qed

text \<open>
  Positions generated for embeddings of a model with several positions per token: \<open>init\<close> fills in
  one position per token, \<open>ubatch_add\<close> reads one per token and section, outside the array.
\<close>

definition mrope_batch :: llama_batch where
  "mrope_batch = \<lparr>b_n_tokens = 1, b_token = None, b_embd = Some [7], b_pos = None,
     b_n_seq_id = None, b_seq_id = None, b_logits = None\<rparr>"

lemma generated_positions_too_short:
  "map_option (\<lambda>(ok, a). (ok, split_simple 1 a = None))
     (batch_init mrope_batch 10 None 1 2 False (batch_allocr_new 4)) = Some (True, True)"
proof -
  have "map_option (\<lambda>(ok, a). (ok, map_option fst (split_simple 1 a) = None))
     (batch_init mrope_batch 10 None 1 2 False (batch_allocr_new 4)) = Some (True, True)" by code_simp
  then show ?thesis by auto
qed

end
