(* ===== verification/Memory.thy ===== *)
theory Memory
  imports Prelude
begin

text \<open>
  The status of a memory context and how the statuses of two memories are combined:
  \<open>llama-memory.cpp\<close> and the enumeration of \<open>llama-memory.h\<close>.
\<close>

datatype memory_status = STATUS_SUCCESS | STATUS_NO_UPDATE | STATUS_FAILED_PREPARE | STATUS_FAILED_COMPUTE

definition status_is_fail :: "memory_status \<Rightarrow> bool" where
  "status_is_fail s = (case s of STATUS_SUCCESS \<Rightarrow> False | STATUS_NO_UPDATE \<Rightarrow> False
     | STATUS_FAILED_PREPARE \<Rightarrow> True | STATUS_FAILED_COMPUTE \<Rightarrow> True)"

definition status_combine :: "memory_status \<Rightarrow> memory_status \<Rightarrow> memory_status" where
  "status_combine s0 s1 =
     (case s0 of
        STATUS_FAILED_PREPARE \<Rightarrow> s0
      | STATUS_FAILED_COMPUTE \<Rightarrow> s0
      | _ \<Rightarrow>
        (case s1 of
           STATUS_FAILED_PREPARE \<Rightarrow> s1
         | STATUS_FAILED_COMPUTE \<Rightarrow> s1
         | _ \<Rightarrow> let has_update = (s0 = STATUS_SUCCESS \<or> s1 = STATUS_SUCCESS)
              in if has_update then STATUS_SUCCESS else STATUS_NO_UPDATE))"

lemma status_combine_fail: "status_is_fail (status_combine s0 s1) \<longleftrightarrow> status_is_fail s0 \<or> status_is_fail s1"
  by (cases s0; cases s1) (simp_all add: status_combine_def status_is_fail_def)

text \<open>
  The combined status is a failure exactly when one of the two is, the first failure
  wins; without a failure it reports an update exactly when one of the two does; and combining is
  associative with \<open>NO_UPDATE\<close> as its neutral element, so the order of nesting does not matter.
\<close>

theorem status_combine_laws:
  "(status_is_fail (status_combine s0 s1) \<longleftrightarrow> status_is_fail s0 \<or> status_is_fail s1) \<and>
   status_combine s0 s1 =
     (if status_is_fail s0 then s0 else if status_is_fail s1 then s1
      else if s0 = STATUS_SUCCESS \<or> s1 = STATUS_SUCCESS then STATUS_SUCCESS else STATUS_NO_UPDATE) \<and>
   status_combine (status_combine s0 s1) s2 = status_combine s0 (status_combine s1 s2) \<and>
   status_combine STATUS_NO_UPDATE s0 = s0 \<and> status_combine s0 STATUS_NO_UPDATE = s0"
  by (cases s0; cases s1; cases s2) (simp_all add: status_combine_def status_is_fail_def)

end
