(* ===== verification/Kv_Cache.thy ===== *)
theory Kv_Cache
  imports Batch Hparams Memory "HOL-Library.Word"
begin

unbundle bit_operations_syntax

text \<open>
  The KV cache: \<open>llama-kv-cache.cpp\<close>. The record keeps the members that steer the cache: the cells and
  the search head of every stream, the map from sequences to streams, the pending stream copies and
  the configuration. The tensors with the keys and values are on a backend and their contents are
  not part of the state; a kv layer is its index in the model with the widths of its two tensors.
  Debug output is left out.
\<close>

section \<open>State\<close>

record slot_info =
  si_s0 :: nat
  si_s1 :: nat
  si_strm :: "nat list"
  si_idxs :: "nat list list"

record stream_copy_info =
  sc_ssrc :: "nat list"
  sc_sdst :: "nat list"

record kv_layer =
  l_il :: nat
  l_n_embd_k :: nat
  l_n_embd_v :: nat

record kv_cache =
  k_hparams :: llama_hparams
  k_v_trans :: bool
  k_n_seq_max :: nat
  k_n_stream :: nat
  k_n_pad :: nat
  k_n_swa :: nat
  k_swa_type :: llama_swa_type
  k_v_heads :: "nat list"
  k_v_cells :: "kv_cells list"
  k_seq_to_stream :: "nat list"
  k_sc_info :: stream_copy_info
  k_layers :: "kv_layer list"
  k_map_layer_ids :: "int \<rightharpoonup> nat"

definition slot_none :: slot_info where
  "slot_none = \<lparr>si_s0 = 0, si_s1 = 0, si_strm = [], si_idxs = []\<rparr>"

definition sc_none :: stream_copy_info where
  "sc_none = \<lparr>sc_ssrc = [], sc_sdst = []\<rparr>"

definition sc_empty :: "stream_copy_info \<Rightarrow> bool option" where
  "sc_empty sc = do { ensure (length (sc_ssrc sc) = length (sc_sdst sc)); Some (sc_ssrc sc = []) }"

definition slot_head :: "slot_info \<Rightarrow> nat option" where
  "slot_head si = do {
     ensure (length (si_idxs si) = 1);
     ensure (hd (si_idxs si) \<noteq> []);
     Some (hd (hd (si_idxs si))) }"

definition slot_size :: "slot_info \<Rightarrow> nat option" where
  "slot_size si = do {
     ensure (length (si_idxs si) = length (si_strm si));
     ensure (si_idxs si \<noteq> []);
     Some (length (hd (si_idxs si))) }"

definition slot_n_stream :: "slot_info \<Rightarrow> nat" where
  "slot_n_stream si = length (si_strm si)"

definition slot_empty :: "slot_info \<Rightarrow> bool" where
  "slot_empty si \<longleftrightarrow> si_idxs si = []"

definition is_contiguous :: "slot_info \<Rightarrow> bool" where
  "is_contiguous si \<longleftrightarrow>
     (if si_idxs si = [] \<or> hd (si_idxs si) = [] then True
      else if length (si_idxs si) > 1 then False
      else let xs = hd (si_idxs si); h = hd xs in \<forall>i < length xs. xs ! i = h + i)"

section \<open>Construction\<close>

definition kv_make_layer :: "llama_hparams \<Rightarrow> bool \<Rightarrow> nat \<Rightarrow> kv_layer option" where
  "kv_make_layer h v_trans il = do {
     nk \<leftarrow> n_embd_k_gqa il h;
     nv \<leftarrow> (if \<not> v_trans then n_embd_v_gqa il h else n_embd_v_gqa_max h);
     Some \<lparr>l_il = il, l_n_embd_k = nk, l_n_embd_v = nv\<rparr> }"

definition kv_add_layer ::
  "llama_hparams \<Rightarrow> bool \<Rightarrow> (nat \<Rightarrow> bool) option \<Rightarrow> nat \<Rightarrow> kv_layer list \<times> (int \<rightharpoonup> nat)
     \<Rightarrow> (kv_layer list \<times> (int \<rightharpoonup> nat)) option" where
  "kv_add_layer h v_trans flt il = (\<lambda>(layers, ids).
     if \<not> has_kv il h then Some (layers, ids)
     else if (case flt of Some f \<Rightarrow> \<not> f il | None \<Rightarrow> False) then Some (layers, ids)
     else do {
       l \<leftarrow> kv_make_layer h v_trans il;
       Some (layers @ [l], ids(int il \<mapsto> length layers)) })"

definition kv_reuse_layer ::
  "(nat \<Rightarrow> bool) option \<Rightarrow> (nat \<Rightarrow> int) \<Rightarrow> nat \<Rightarrow> (int \<rightharpoonup> nat) \<Rightarrow> (int \<rightharpoonup> nat) option" where
  "kv_reuse_layer flt reuse il ids =
     (let il_reuse = reuse il in
      if il_reuse < 0 then Some ids
      else if (case flt of Some f \<Rightarrow> \<not> f il | None \<Rightarrow> False) then Some ids
      else (case ids il_reuse of None \<Rightarrow> None | Some k \<Rightarrow> Some (ids(int il \<mapsto> k))))"

definition kv_cache_new ::
  "llama_hparams \<Rightarrow> bool \<Rightarrow> bool \<Rightarrow> nat \<Rightarrow> nat \<Rightarrow> nat \<Rightarrow> nat \<Rightarrow> llama_swa_type \<Rightarrow> (nat \<Rightarrow> bool) option
     \<Rightarrow> (nat \<Rightarrow> int) option \<Rightarrow> kv_cache option" where
  "kv_cache_new h v_trans unified kv_size n_seq_max n_pad n_swa swa_type flt reuse = do {
     let n_stream = (if unified then 1 else n_seq_max);
     ensure (n_pad \<noteq> 0 \<and> kv_size mod n_pad = 0);
     ensure (n_stream = 1 \<or> n_stream = n_seq_max);
     let s2s = (if n_stream > 1 then [0..<n_stream] else replicate (nat LLAMA_MAX_SEQ) 0);
     (layers, ids) \<leftarrow> foldo (kv_add_layer h v_trans flt) [0..<h_n_layer h] ([], Map.empty);
     ids' \<leftarrow> (case reuse of None \<Rightarrow> Some ids
             | Some r \<Rightarrow> foldo (kv_reuse_layer flt r) [0..<h_n_layer h] ids);
     Some \<lparr>k_hparams = h, k_v_trans = v_trans, k_n_seq_max = n_seq_max, k_n_stream = n_stream,
           k_n_pad = n_pad, k_n_swa = n_swa, k_swa_type = swa_type,
           k_v_heads = replicate n_stream 0,
           k_v_cells = replicate n_stream (cells_resize kv_size cells_empty),
           k_seq_to_stream = s2s, k_sc_info = sc_none, k_layers = layers, k_map_layer_ids = ids'\<rparr> }"

section \<open>Access to the streams\<close>

definition valid_seq :: "kv_cache \<Rightarrow> int \<Rightarrow> bool" where
  "valid_seq c s \<longleftrightarrow> s \<ge> 0 \<and> nat s < length (k_seq_to_stream c)"

definition stream_of :: "kv_cache \<Rightarrow> int \<Rightarrow> nat option" where
  "stream_of c s = do { ensure (s \<ge> 0); nth_opt (k_seq_to_stream c) (nat s) }"

definition put_cells :: "nat \<Rightarrow> kv_cells \<Rightarrow> kv_cache \<Rightarrow> kv_cache" where
  "put_cells s cs c = c\<lparr>k_v_cells := (k_v_cells c)[s := cs]\<rparr>"

definition put_head :: "nat \<Rightarrow> nat \<Rightarrow> kv_cache \<Rightarrow> kv_cache" where
  "put_head s h c = c\<lparr>k_v_heads := (k_v_heads c)[s := h]\<rparr>"

definition get_size :: "kv_cache \<Rightarrow> nat option" where
  "get_size c = do { s \<leftarrow> stream_of c 0; cells \<leftarrow> nth_opt (k_v_cells c) s; Some (cells_size cells) }"

definition get_n_stream :: "kv_cache \<Rightarrow> nat" where
  "get_n_stream c = k_n_stream c"

definition kv_get_has_shift :: "kv_cache \<Rightarrow> bool" where
  "kv_get_has_shift c = fold (\<lambda>cells r. r \<or> get_has_shift cells) (k_v_cells c) False"

definition kv_is_masked_swa :: "kv_cache \<Rightarrow> int \<Rightarrow> int \<Rightarrow> bool option" where
  "kv_is_masked_swa c p0 p1 = is_masked_swa (k_n_swa c) (k_swa_type c) p0 p1"

section \<open>Sequence operations\<close>

definition kv_clear :: "kv_cache \<Rightarrow> kv_cache" where
  "kv_clear c = c\<lparr>k_v_cells := map cells_reset (k_v_cells c), k_v_heads := map (\<lambda>_. 0) (k_v_heads c)\<rparr>"

text \<open>The default ends of a position range: a negative \<open>p0\<close> is 0, a negative \<open>p1\<close> is the maximum.\<close>

definition range_lo :: "int \<Rightarrow> int" where
  "range_lo p0 = (if p0 < 0 then 0 else p0)"

definition range_hi :: "int \<Rightarrow> int" where
  "range_hi p1 = (if p1 < 0 then INT32_MAX else p1)"

text \<open>
  The loop over all cells of a stream. The body says whether it freed the cell; the first freed cell
  is remembered in \<open>new_head\<close>, which starts at the number of cells.
\<close>

definition sweep :: "(nat \<Rightarrow> kv_cells \<Rightarrow> (bool \<times> kv_cells) option) \<Rightarrow> kv_cells \<Rightarrow> (nat \<times> kv_cells) option" where
  "sweep body cells = foldo (\<lambda>i (new_head, cells). do {
     (freed, cells') \<leftarrow> body i cells;
     Some (if freed \<and> new_head = cells_size cells' then i else new_head, cells') })
   [0..<cells_size cells] (cells_size cells, cells)"

definition lower_head :: "nat \<Rightarrow> nat \<Rightarrow> nat \<Rightarrow> nat" where
  "lower_head new_head n head = (if new_head \<noteq> n \<and> new_head < head then new_head else head)"

definition seq_rm_cell :: "int \<Rightarrow> int \<Rightarrow> int \<Rightarrow> nat \<Rightarrow> kv_cells \<Rightarrow> (bool \<times> kv_cells) option" where
  "seq_rm_cell seq_id p0 p1 i cells = do {
     b \<leftarrow> pos_in i p0 p1 cells;
     (if \<not> b then Some (False, cells)
      else do {
        h \<leftarrow> seq_has i seq_id cells;
        (if h then cells_seq_rm i seq_id cells else Some (False, cells)) }) }"

definition rm_cell :: "int \<Rightarrow> int \<Rightarrow> nat \<Rightarrow> kv_cells \<Rightarrow> (bool \<times> kv_cells) option" where
  "rm_cell p0 p1 i cells = do {
     b \<leftarrow> pos_in i p0 p1 cells;
     (if \<not> b then Some (False, cells)
      else do { cells' \<leftarrow> cells_rm i cells; Some (True, cells') }) }"

text \<open>One stream of \<open>seq_rm\<close>, with either loop body.\<close>

definition rm_stream ::
  "(nat \<Rightarrow> kv_cells \<Rightarrow> (bool \<times> kv_cells) option) \<Rightarrow> nat \<Rightarrow> kv_cache \<Rightarrow> kv_cache option" where
  "rm_stream body s c = do {
     cells \<leftarrow> nth_opt (k_v_cells c) s;
     head \<leftarrow> nth_opt (k_v_heads c) s;
     (new_head, cells') \<leftarrow> sweep body cells;
     Some (put_head s (lower_head new_head (cells_size cells') head) (put_cells s cells' c)) }"

definition kv_seq_rm :: "int \<Rightarrow> int \<Rightarrow> int \<Rightarrow> kv_cache \<Rightarrow> (bool \<times> kv_cache) option" where
  "kv_seq_rm seq_id p0 p1 c = do {
     ensure (seq_id = -1 \<or> valid_seq c seq_id);
     let p0 = range_lo p0;
     let p1 = range_hi p1;
     c' \<leftarrow> (if seq_id \<ge> 0
           then do { s \<leftarrow> stream_of c seq_id; rm_stream (seq_rm_cell seq_id p0 p1) s c }
           else foldo (\<lambda>s c. rm_stream (rm_cell p0 p1) s c) [0..<k_n_stream c] c);
     Some (True, c') }"

definition seq_cp_cell :: "int \<Rightarrow> int \<Rightarrow> int \<Rightarrow> int \<Rightarrow> nat \<Rightarrow> kv_cells \<Rightarrow> (bool \<times> kv_cells) option" where
  "seq_cp_cell src dst p0 p1 i cells = do {
     b \<leftarrow> pos_in i p0 p1 cells;
     (if \<not> b then Some (False, cells)
      else do {
        h \<leftarrow> seq_has i src cells;
        (if h then do { cells' \<leftarrow> cells_seq_add i dst cells; Some (False, cells') }
         else Some (False, cells)) }) }"

definition stream_cp_cell :: "int \<Rightarrow> int \<Rightarrow> kv_cells \<Rightarrow> nat \<Rightarrow> kv_cells \<Rightarrow> kv_cells option" where
  "stream_cp_cell src dst from i to = do {
     h \<leftarrow> seq_has i src from;
     (if \<not> h then Some to
      else do {
        pos \<leftarrow> pos_get i from;
        shift \<leftarrow> get_shift i from;
        ext \<leftarrow> ext_get i from;
        pos' \<leftarrow> (if shift \<noteq> 0 then do { p \<leftarrow> sub_i32 pos shift; ensure (p \<ge> 0); Some p } else Some pos);
        to1 \<leftarrow> pos_set i pos' to;
        to2 \<leftarrow> cells_seq_add i dst to1;
        to3 \<leftarrow> (if shift \<noteq> 0 then map_option snd (pos_add i shift to2) else Some to2);
        ext_set i ext to3 }) }"

text \<open>\<open>p > 0 && p + 1 < (int) get_size()\<close>: the bound cuts the buffer.\<close>

definition range_partial :: "int \<Rightarrow> nat \<Rightarrow> bool option" where
  "range_partial p n =
     (if p > 0 then do { q \<leftarrow> add_i32 p 1; Some (q < int n) } else Some False)"

definition kv_seq_cp :: "int \<Rightarrow> int \<Rightarrow> int \<Rightarrow> int \<Rightarrow> kv_cache \<Rightarrow> kv_cache option" where
  "kv_seq_cp src dst p0 p1 c = do {
     ensure (valid_seq c src);
     ensure (valid_seq c dst);
     s0 \<leftarrow> stream_of c src;
     s1 \<leftarrow> stream_of c dst;
     (if s0 = s1
      then (if src = dst then Some c
            else do {
              cells \<leftarrow> nth_opt (k_v_cells c) s0;
              (_, cells') \<leftarrow> sweep (seq_cp_cell src dst (range_lo p0) (range_hi p1)) cells;
              Some (put_cells s0 cells' c) })
      else do {
        n \<leftarrow> get_size c;
        part0 \<leftarrow> range_partial p0 n;
        part1 \<leftarrow> range_partial p1 n;
        ensure (\<not> part0 \<and> \<not> part1);
        from \<leftarrow> nth_opt (k_v_cells c) s0;
        to \<leftarrow> nth_opt (k_v_cells c) s1;
        to' \<leftarrow> foldo (stream_cp_cell src dst from) [0..<cells_size from] (cells_reset to);
        head \<leftarrow> nth_opt (k_v_heads c) s0;
        let sc = k_sc_info c;
        Some (put_head s1 head (put_cells s1 to'
          (c\<lparr>k_sc_info := \<lparr>sc_ssrc = sc_ssrc sc @ [s0], sc_sdst = sc_sdst sc @ [s1]\<rparr>\<rparr>))) }) }"

definition kv_seq_keep :: "int \<Rightarrow> kv_cache \<Rightarrow> kv_cache option" where
  "kv_seq_keep seq_id c = do {
     ensure (valid_seq c seq_id);
     s \<leftarrow> stream_of c seq_id;
     rm_stream (\<lambda>i. cells_seq_keep i seq_id) s c }"

definition seq_add_cell :: "int \<Rightarrow> int \<Rightarrow> int \<Rightarrow> int \<Rightarrow> nat \<Rightarrow> kv_cells \<Rightarrow> (bool \<times> kv_cells) option" where
  "seq_add_cell seq_id p0 p1 shift i cells = do {
     b \<leftarrow> pos_in i p0 p1 cells;
     (if \<not> b then Some (False, cells)
      else do {
        h \<leftarrow> seq_has i seq_id cells;
        (if h then pos_add i shift cells else Some (False, cells)) }) }"

definition kv_seq_add :: "int \<Rightarrow> int \<Rightarrow> int \<Rightarrow> int \<Rightarrow> kv_cache \<Rightarrow> kv_cache option" where
  "kv_seq_add seq_id p0 p1 shift c = do {
     ensure (valid_seq c seq_id);
     ensure (n_pos_per_embd (k_hparams c) = 1);
     s \<leftarrow> stream_of c seq_id;
     (if shift = 0 then Some c
      else let p0 = range_lo p0; p1 = range_hi p1 in
        if p0 = p1 then Some c
        else do {
          cells \<leftarrow> nth_opt (k_v_cells c) s;
          (new_head, cells') \<leftarrow> sweep (seq_add_cell seq_id p0 p1 shift) cells;
          Some (put_head s (if new_head \<noteq> cells_size cells' then new_head else 0) (put_cells s cells' c)) }) }"

definition seq_div_cell :: "int \<Rightarrow> int \<Rightarrow> int \<Rightarrow> int \<Rightarrow> nat \<Rightarrow> kv_cells \<Rightarrow> (bool \<times> kv_cells) option" where
  "seq_div_cell seq_id p0 p1 d i cells = do {
     b \<leftarrow> pos_in i p0 p1 cells;
     (if \<not> b then Some (False, cells)
      else do {
        h \<leftarrow> seq_has i seq_id cells;
        (if h then do { cells' \<leftarrow> pos_div i d cells; Some (False, cells') } else Some (False, cells)) }) }"

definition kv_seq_div :: "int \<Rightarrow> int \<Rightarrow> int \<Rightarrow> int \<Rightarrow> kv_cache \<Rightarrow> kv_cache option" where
  "kv_seq_div seq_id p0 p1 d c = do {
     ensure (valid_seq c seq_id);
     ensure (n_pos_per_embd (k_hparams c) = 1);
     s \<leftarrow> stream_of c seq_id;
     (if d = 1 then Some c
      else let p0 = range_lo p0; p1 = range_hi p1 in
        if p0 = p1 then Some c
        else do {
          cells \<leftarrow> nth_opt (k_v_cells c) s;
          (_, cells') \<leftarrow> sweep (seq_div_cell seq_id p0 p1 d) cells;
          Some (put_cells s cells' c) }) }"

definition kv_seq_pos_min :: "int \<Rightarrow> kv_cache \<Rightarrow> int option" where
  "kv_seq_pos_min seq_id c = do {
     ensure (valid_seq c seq_id);
     s \<leftarrow> stream_of c seq_id;
     cells \<leftarrow> nth_opt (k_v_cells c) s;
     cells_seq_pos_min seq_id cells }"

definition kv_seq_pos_max :: "int \<Rightarrow> kv_cache \<Rightarrow> int option" where
  "kv_seq_pos_max seq_id c = do {
     ensure (valid_seq c seq_id);
     s \<leftarrow> stream_of c seq_id;
     cells \<leftarrow> nth_opt (k_v_cells c) s;
     cells_seq_pos_max seq_id cells }"

section \<open>Finding a slot\<close>

definition sub_u32 :: "nat \<Rightarrow> nat \<Rightarrow> nat" where
  "sub_u32 a b = u32 (a + 4294967296 - b)"

text \<open>Whether a token may be put into a cell: it is empty, or its only sequence has it masked out.\<close>

definition can_use_cell :: "kv_cache \<Rightarrow> kv_cells \<Rightarrow> nat \<Rightarrow> bool option" where
  "can_use_cell c cells idx = do {
     e \<leftarrow> is_empty idx cells;
     (if e then Some True
      else do {
        n \<leftarrow> seq_count idx cells;
        (if n = 1
         then do {
           pos_cell \<leftarrow> pos_get idx cells;
           seq_id_cell \<leftarrow> seq_get idx cells;
           mx \<leftarrow> cells_seq_pos_max seq_id_cell cells;
           q \<leftarrow> add_i32 mx 1;
           kv_is_masked_swa c pos_cell q }
         else Some False) }) }"

text \<open>The inner loop of \<open>n_test\<close> tests; its state is \<open>head_cur\<close>, \<open>n_tested\<close> and the indices found.\<close>

fun test_cells :: "(nat \<Rightarrow> bool option) \<Rightarrow> bool \<Rightarrow> nat \<Rightarrow> nat \<Rightarrow> nat \<Rightarrow> nat list \<Rightarrow> (nat \<times> nat \<times> nat list) option" where
  "test_cells can_use cont 0 head_cur n_tested idxs = Some (head_cur, n_tested, idxs)"
| "test_cells can_use cont (Suc k) head_cur n_tested idxs = do {
     b \<leftarrow> can_use head_cur;
     (if b then test_cells can_use cont k (u32 (head_cur + 1)) (u32 (n_tested + 1)) (idxs @ [head_cur])
      else if cont then Some (u32 (head_cur + 1), u32 (n_tested + 1), idxs)
      else test_cells can_use cont k (u32 (head_cur + 1)) (u32 (n_tested + 1)) idxs) }"

text \<open>
  The search loop of one sequence, with a bound on its iterations (\<^term>\<open>None\<close> when it is not enough).
  \<^term>\<open>Some None\<close> is the early return of an empty slot.
\<close>

fun slot_loop ::
  "(nat \<Rightarrow> bool option) \<Rightarrow> bool \<Rightarrow> nat \<Rightarrow> nat \<Rightarrow> nat \<Rightarrow> nat \<Rightarrow> nat \<Rightarrow> nat list \<Rightarrow> nat list option option" where
  "slot_loop can_use cont size_c n_tokens 0 head_cur n_tested idxs = None"
| "slot_loop can_use cont size_c n_tokens (Suc k) head_cur n_tested idxs =
     (let n_test = (if cont then n_tokens else 1) in
      if u32 (head_cur + n_test) > size_c
      then slot_loop can_use cont size_c n_tokens k 0 (u32 (n_tested + sub_u32 size_c head_cur)) idxs
      else do {
        (head_cur', n_tested', idxs') \<leftarrow> test_cells can_use cont n_test head_cur n_tested idxs;
        (if length idxs' = n_tokens then Some (Some idxs')
         else let idxs'' = (if cont then [] else idxs') in
           if n_tested' \<ge> size_c then Some None
           else slot_loop can_use cont size_c n_tokens k head_cur' n_tested' idxs'') })"

definition slot_fuel :: "nat \<Rightarrow> nat" where
  "slot_fuel size_c = 2 * size_c + 2"

definition find_slot_seq ::
  "llama_ubatch \<Rightarrow> bool \<Rightarrow> nat \<Rightarrow> kv_cache \<Rightarrow> nat \<Rightarrow> slot_info \<Rightarrow> slot_info option option" where
  "find_slot_seq u cont n_tokens c s res = do {
     seq_id \<leftarrow> nth_opt (u_seq_id_unq u) s;
     (if k_n_stream c > 1
      then do {
        k \<leftarrow> nth_opt (u_n_seq_id u) (s * n_tokens);
        ensure (k = 1);
        ids \<leftarrow> nth_opt (u_seq_id u) (s * n_tokens);
        id0 \<leftarrow> nth_opt ids 0;
        ensure (id0 = seq_id) }
      else Some ());
     strm \<leftarrow> stream_of c seq_id;
     cells \<leftarrow> nth_opt (k_v_cells c) strm;
     head \<leftarrow> nth_opt (k_v_heads c) strm;
     let head_cur = (if head > u32 (get_used cells + u32 (2 * n_tokens)) then 0 else head);
     (if n_tokens > cells_size cells then Some None
      else do {
        r \<leftarrow> slot_loop (can_use_cell c cells) cont (cells_size cells) n_tokens
               (slot_fuel (cells_size cells)) head_cur 0 [];
        (case r of
           None \<Rightarrow> Some None
         | Some idxs \<Rightarrow>
             if length idxs < n_tokens then Some None
             else Some (Some (res\<lparr>si_s0 := min (si_s0 res) strm, si_s1 := max (si_s1 res) strm,
                    si_strm := si_strm res @ [strm], si_idxs := si_idxs res @ [idxs]\<rparr>))) }) }"

definition find_slot :: "llama_ubatch \<Rightarrow> bool \<Rightarrow> kv_cache \<Rightarrow> slot_info option" where
  "find_slot u cont c = do {
     (n_seqs, n_tokens) \<leftarrow>
       (if k_n_stream c > 1
        then do {
          ensure (u_n_seqs_unq u \<noteq> 0 \<and> u_n_tokens u mod u_n_seqs_unq u = 0);
          Some (u_n_seqs_unq u, u_n_tokens u div u_n_seqs_unq u) }
        else Some (1, u_n_tokens u));
     r \<leftarrow> foldo (\<lambda>s r. case r of None \<Rightarrow> Some None | Some res \<Rightarrow> find_slot_seq u cont n_tokens c s res)
            [0..<n_seqs] (Some \<lparr>si_s0 = nat LLAMA_MAX_SEQ, si_s1 = 0, si_strm = [], si_idxs = []\<rparr>);
     (case r of
        None \<Rightarrow> Some slot_none
      | Some res \<Rightarrow> do { ensure (si_s1 res \<ge> si_s0 res); Some res }) }"

section \<open>Placing a micro-batch\<close>

definition emplace_token ::
  "slot_info \<Rightarrow> llama_ubatch \<Rightarrow> nat \<Rightarrow> nat \<Rightarrow> nat \<Rightarrow> kv_cache \<times> (int \<Rightarrow> int) \<Rightarrow> (kv_cache \<times> (int \<Rightarrow> int)) option" where
  "emplace_token si u n s ii = (\<lambda>(c, rm). do {
     let i = s * n + ii;
     strm \<leftarrow> nth_opt (si_strm si) s;
     cells \<leftarrow> nth_opt (k_v_cells c) strm;
     row \<leftarrow> nth_opt (si_idxs si) s;
     idx \<leftarrow> nth_opt row ii;
     e \<leftarrow> is_empty idx cells;
     (cells1, rm1) \<leftarrow>
       (if \<not> e
        then do {
          k \<leftarrow> seq_count idx cells;
          ensure (k = 1);
          seq_id \<leftarrow> seq_get idx cells;
          pos \<leftarrow> pos_get idx cells;
          cells' \<leftarrow> cells_rm idx cells;
          Some (cells', rm(seq_id := max (rm seq_id) pos)) }
        else Some (cells, rm));
     p \<leftarrow> nth_opt (u_pos u) i;
     cells2 \<leftarrow> pos_set idx p cells1;
     cells3 \<leftarrow>
       (if is_pos_2d u
        then do {
          x \<leftarrow> nth_opt (u_pos u) (i + u_n_tokens u * 2);
          y \<leftarrow> nth_opt (u_pos u) (i + u_n_tokens u);
          ext_set idx \<lparr>ext_x = x, ext_y = y\<rparr> cells2 }
        else Some cells2);
     k \<leftarrow> nth_opt (u_n_seq_id u) i;
     ids \<leftarrow> nth_opt (u_seq_id u) i;
     ensure (nat k \<le> length ids);
     cells4 \<leftarrow> foldo (cells_seq_add idx) (take (nat k) ids) cells3;
     Some (put_cells strm cells4 c, rm1) })"

definition purge_seq :: "(int \<Rightarrow> int) \<Rightarrow> int \<Rightarrow> kv_cache \<Rightarrow> kv_cache option" where
  "purge_seq rm s c =
     (if rm s = -1 then Some c
      else do {
        ensure (nat s < length (k_seq_to_stream c));
        strm \<leftarrow> stream_of c s;
        cells \<leftarrow> nth_opt (k_v_cells c) strm;
        mn \<leftarrow> cells_seq_pos_min s cells;
        (if mn \<le> rm s
         then do {
           q \<leftarrow> add_i32 (rm s) 1;
           (_, c') \<leftarrow> kv_seq_rm s mn q c;
           Some c' }
         else Some c) })"

definition advance_head :: "slot_info \<Rightarrow> nat \<Rightarrow> kv_cache \<Rightarrow> kv_cache option" where
  "advance_head si s c = do {
     strm \<leftarrow> nth_opt (si_strm si) s;
     row \<leftarrow> nth_opt (si_idxs si) s;
     ensure (row \<noteq> []);
     ensure (strm < length (k_v_heads c));
     Some (put_head strm (u32 (last row + 1)) c) }"

definition apply_ubatch :: "slot_info \<Rightarrow> llama_ubatch \<Rightarrow> kv_cache \<Rightarrow> kv_cache option" where
  "apply_ubatch si u c = do {
     n \<leftarrow> slot_size si;
     ensure (u_n_tokens u = slot_n_stream si * n);
     (c1, rm) \<leftarrow> foldo (\<lambda>s st. foldo (emplace_token si u n s) [0..<n] st) [0..<slot_n_stream si] (c, \<lambda>_. -1);
     c2 \<leftarrow> foldo (purge_seq rm) [0..LLAMA_MAX_SEQ - 1] c1;
     foldo (advance_head si) [0..<slot_n_stream si] c2 }"

section \<open>Preparing a batch\<close>

record prep_state =
  ps_sinfo :: slot_info
  ps_heads_old :: "nat list"
  ps_cells :: "kv_cells list"

definition save_slot :: "slot_info \<Rightarrow> kv_cache \<Rightarrow> kv_cells list option" where
  "save_slot si c = those (map (\<lambda>s. do {
     strm \<leftarrow> nth_opt (si_strm si) s;
     cells \<leftarrow> nth_opt (k_v_cells c) strm;
     row \<leftarrow> nth_opt (si_idxs si) s;
     cells_cp row cells }) [0..<slot_n_stream si])"

fun prepare_loop ::
  "llama_ubatch list \<Rightarrow> prep_state list \<Rightarrow> slot_info list \<Rightarrow> kv_cache
     \<Rightarrow> (bool \<times> prep_state list \<times> slot_info list \<times> kv_cache) option" where
  "prepare_loop [] states res c = Some (True, states, res, c)"
| "prepare_loop (u # us) states res c = do {
     si \<leftarrow> find_slot u False c;
     (if slot_empty si then Some (False, states, res, c)
      else do {
        cells \<leftarrow> save_slot si c;
        c' \<leftarrow> apply_ubatch si u c;
        prepare_loop us (states @ [\<lparr>ps_sinfo = si, ps_heads_old = k_v_heads c, ps_cells = cells\<rparr>])
          (res @ [si]) c' }) }"

text \<open>Restoring one stream of a saved state; the old head is read at the slot's index \<open>s\<close>.\<close>

definition restore_stream :: "prep_state \<Rightarrow> nat \<Rightarrow> kv_cache \<Rightarrow> kv_cache option" where
  "restore_stream st s c = do {
     strm \<leftarrow> nth_opt (si_strm (ps_sinfo st)) s;
     cells \<leftarrow> nth_opt (k_v_cells c) strm;
     row \<leftarrow> nth_opt (si_idxs (ps_sinfo st)) s;
     old \<leftarrow> nth_opt (ps_cells st) s;
     cells' \<leftarrow> cells_set row old cells;
     h \<leftarrow> nth_opt (ps_heads_old st) s;
     ensure (strm < length (k_v_heads c));
     Some (put_head strm h (put_cells strm cells' c)) }"

definition restore_state :: "prep_state \<Rightarrow> kv_cache \<Rightarrow> kv_cache option" where
  "restore_state st c = foldo (restore_stream st) [0..<slot_n_stream (ps_sinfo st)] c"

definition prepare :: "llama_ubatch list \<Rightarrow> kv_cache \<Rightarrow> (slot_info list \<times> kv_cache) option" where
  "prepare us c = do {
     (success, states, res, c1) \<leftarrow> prepare_loop us [] [] c;
     ensure (states \<noteq> [] \<or> \<not> success);
     c2 \<leftarrow> foldo restore_state (rev states) c1;
     Some (if success then res else [], c2) }"

section \<open>Updates\<close>

text \<open>How building and computing the K-shift graph on the backend ends.\<close>

datatype shift_result = SHIFT_ALLOC_FAILED | SHIFT_COMPUTE_FAILED | SHIFT_DONE

definition get_can_shift :: bool where
  "get_can_shift = True"

definition kv_update :: "bool \<Rightarrow> stream_copy_info \<Rightarrow> shift_result \<Rightarrow> kv_cache \<Rightarrow> (bool \<times> kv_cache) option" where
  "kv_update do_shift sc backend c = do {
     e \<leftarrow> sc_empty sc;
     (if e then Some ()
      else do {
        ensure (k_n_stream c > 1);
        ensure (\<forall>(a, b) \<in> set (zip (sc_ssrc sc) (sc_sdst sc)). a < k_n_stream c \<and> b < k_n_stream c \<and> a \<noteq> b) });
     (if \<not> do_shift then Some (False, c)
      else do {
        ensure get_can_shift;
        let shifted = c\<lparr>k_v_cells := map reset_shift (k_v_cells c)\<rparr>;
        (if h_rope_type (k_hparams c) \<noteq> ROPE_NONE
         then (if backend = SHIFT_DONE then Some (True, shifted) else Some (False, c))
         else Some (False, shifted)) }) }"

section \<open>Memory contexts\<close>

record kv_context =
  x_status :: memory_status
  x_do_shift :: bool
  x_sc_info :: stream_copy_info
  x_i_cur :: nat
  x_sinfos :: "slot_info list"
  x_ubatches :: "llama_ubatch list"
  x_n_kv :: nat

definition context_status :: "memory_status \<Rightarrow> kv_context" where
  "context_status st = \<lparr>x_status = st, x_do_shift = False, x_sc_info = sc_none, x_i_cur = 0,
     x_sinfos = [], x_ubatches = [], x_n_kv = 0\<rparr>"

definition context_full :: "kv_cache \<Rightarrow> kv_context option" where
  "context_full c = do {
     n \<leftarrow> get_size c;
     Some ((context_status STATUS_SUCCESS)\<lparr>
       x_sinfos := [\<lparr>si_s0 = 0, si_s1 = sub_u32 (get_n_stream c) 1, si_strm = [0..<get_n_stream c],
                     si_idxs = replicate (get_n_stream c) [0]\<rparr>],
       x_n_kv := n\<rparr>) }"

definition context_update :: "bool \<Rightarrow> stream_copy_info \<Rightarrow> kv_context option" where
  "context_update do_shift sc = do {
     e \<leftarrow> (if do_shift then Some False else sc_empty sc);
     Some ((context_status (if e then STATUS_NO_UPDATE else STATUS_SUCCESS))\<lparr>
       x_do_shift := do_shift, x_sc_info := sc\<rparr>) }"

definition context_batch :: "slot_info list \<Rightarrow> llama_ubatch list \<Rightarrow> kv_context" where
  "context_batch sinfos ubatches =
     (context_status STATUS_SUCCESS)\<lparr>x_sinfos := sinfos, x_ubatches := ubatches\<rparr>"

definition kv_init_batch ::
  "batch_allocr \<Rightarrow> nat \<Rightarrow> kv_cache \<Rightarrow> (kv_context \<times> batch_allocr \<times> kv_cache) option" where
  "kv_init_batch a n_ubatch c = do {
     let a0 = split_reset a;
     (us, a1) \<leftarrow> split_run (if k_n_stream c = 1 then split_simple n_ubatch else split_equal n_ubatch True)
                  (Suc (get_n_tokens a0)) a0;
     (if get_n_used a1 < get_n_tokens a1 then Some (context_status STATUS_FAILED_PREPARE, a1, c)
      else do {
        (sinfos, c1) \<leftarrow> prepare us c;
        (if sinfos = [] then Some (context_status STATUS_FAILED_PREPARE, a1, c1)
         else Some (context_batch sinfos us, a1, c1)) }) }"

definition kv_init_full :: "kv_cache \<Rightarrow> kv_context option" where
  "kv_init_full c = context_full c"

definition kv_init_update :: "kv_cache \<Rightarrow> (kv_context \<times> kv_cache) option" where
  "kv_init_update c = do {
     x \<leftarrow> context_update (kv_get_has_shift c) (k_sc_info c);
     Some (x, c\<lparr>k_sc_info := sc_none\<rparr>) }"

text \<open>\<open>GGML_PAD(x, n)\<close> on 32-bit unsigned integers.\<close>

definition ggml_pad :: "nat \<Rightarrow> nat \<Rightarrow> nat" where
  "ggml_pad x n = unat ((word_of_nat (x + n) - 1 :: 32 word) AND NOT (word_of_nat n - 1))"

definition get_n_kv :: "slot_info \<Rightarrow> kv_cache \<Rightarrow> nat option" where
  "get_n_kv si c = do {
     let n_pad_cur = max (k_n_pad c) 256;
     foldo (\<lambda>s result. do {
         strm \<leftarrow> nth_opt (si_strm si) s;
         cells \<leftarrow> nth_opt (k_v_cells c) strm;
         Some (max (min (cells_size cells) (max n_pad_cur (ggml_pad (used_max_p1 cells) n_pad_cur))) result) })
       [0..<slot_n_stream si] 0 }"

definition context_next :: "kv_context \<Rightarrow> (bool \<times> kv_context) option" where
  "context_next x = do {
     ensure (x_status x = STATUS_SUCCESS);
     let x' = x\<lparr>x_i_cur := x_i_cur x + 1\<rparr>;
     Some (\<not> (x_i_cur x' \<ge> length (x_ubatches x')), x') }"

definition context_apply ::
  "shift_result \<Rightarrow> kv_context \<times> kv_cache \<Rightarrow> (bool \<times> kv_context \<times> kv_cache) option" where
  "context_apply backend = (\<lambda>(x, c). do {
     ensure (\<not> status_is_fail (x_status x));
     (if x_ubatches x = []
      then do {
        (_, c') \<leftarrow> kv_update (x_do_shift x) (x_sc_info x) backend c;
        Some (True, x, c') }
      else do {
        si \<leftarrow> nth_opt (x_sinfos x) (x_i_cur x);
        u \<leftarrow> nth_opt (x_ubatches x) (x_i_cur x);
        c' \<leftarrow> apply_ubatch si u c;
        n \<leftarrow> get_n_kv si c';
        Some (True, x\<lparr>x_n_kv := n\<rparr>, c') }) })"

definition context_get_ubatch :: "kv_context \<Rightarrow> llama_ubatch option" where
  "context_get_ubatch x = do {
     ensure (x_status x = STATUS_SUCCESS);
     nth_opt (x_ubatches x) (x_i_cur x) }"

section \<open>Inputs of the compute graph\<close>

text \<open>
  The rows of the key tensor a micro-batch is written to, as one list in the order of \<open>data\<close>. The
  products are computed in 32-bit unsigned and 64-bit signed arithmetic; \<open>offs\<close> wraps as the code's does.
\<close>

definition set_input_k_idxs :: "llama_ubatch \<Rightarrow> slot_info \<Rightarrow> kv_cache \<Rightarrow> nat list option" where
  "set_input_k_idxs u si c = do {
     n \<leftarrow> slot_size si;
     ensure (u_n_tokens u = n * slot_n_stream si);
     rows \<leftarrow> those (map (\<lambda>s. do {
         strm \<leftarrow> nth_opt (si_strm si) s;
         kv_size \<leftarrow> get_size c;
         row \<leftarrow> nth_opt (si_idxs si) s;
         let offs = u32 (strm * kv_size);
         those (map (\<lambda>i. do { idx \<leftarrow> nth_opt row i; Some (offs + idx) }) [0..<n]) }) [0..<slot_n_stream si]);
     Some (concat rows) }"

text \<open>The elements of the value tensor: rows as for the keys, or one index per element when transposed.\<close>

definition set_input_v_idxs :: "llama_ubatch \<Rightarrow> slot_info \<Rightarrow> kv_cache \<Rightarrow> nat list option" where
  "set_input_v_idxs u si c = do {
     n \<leftarrow> slot_size si;
     ensure (u_n_tokens u = n * slot_n_stream si);
     (if \<not> k_v_trans c then set_input_k_idxs u si c
      else do {
        kv_size \<leftarrow> get_size c;
        n_embd \<leftarrow> n_embd_v_gqa_max (k_hparams c);
        rows \<leftarrow> those (map (\<lambda>s. do {
            strm \<leftarrow> nth_opt (si_strm si) s;
            row \<leftarrow> nth_opt (si_idxs si) s;
            let offs = strm * kv_size * n_embd;
            cols \<leftarrow> those (map (\<lambda>i. do {
                idx \<leftarrow> nth_opt row i;
                Some (map (\<lambda>j. offs + j * kv_size + idx) [0..<n_embd]) }) [0..<n]);
            Some (concat cols) }) [0..<slot_n_stream si]);
        Some (concat rows) }) }"

definition cell_shift :: "kv_cells \<Rightarrow> nat \<Rightarrow> int option" where
  "cell_shift cells i = do { e \<leftarrow> is_empty i cells; (if e then Some 0 else get_shift i cells) }"

definition set_input_k_shift :: "kv_cache \<Rightarrow> int list option" where
  "set_input_k_shift c = do {
     rows \<leftarrow> those (map (\<lambda>s. do {
         cells \<leftarrow> nth_opt (k_v_cells c) s;
         those (map (cell_shift cells) [0..<cells_size cells]) }) [0..<k_n_stream c]);
     Some (concat rows) }"

text \<open>
  One entry of the attention mask: \<^term>\<open>None\<close> inside is the initial \<open>-INFINITY\<close> that stays when the
  cell is skipped, an integer is the value that is written (the code converts it to a float, which is
  exact for distances up to \<open>2 ^ 24\<close>).
\<close>

definition mask_entry ::
  "kv_cache \<Rightarrow> bool \<Rightarrow> bool \<Rightarrow> int \<Rightarrow> int \<Rightarrow> int \<Rightarrow> int \<Rightarrow> kv_cells \<Rightarrow> nat \<Rightarrow> int option option" where
  "mask_entry c causal_attn is_2d seq_id p1 p1_x p1_y cells j = do {
     e \<leftarrow> is_empty j cells;
     (if e then Some None
      else do {
        h \<leftarrow> seq_has j seq_id cells;
        (if \<not> h then Some None
         else do {
           p0 \<leftarrow> pos_get j cells;
           (if causal_attn \<and> p0 > p1 then Some None
            else do {
              skip \<leftarrow> (if causal_attn \<and> is_2d \<and> p0 = p1
                      then do { ext \<leftarrow> ext_get j cells; Some (is_2d_gt ext p1_x p1_y) }
                      else Some False);
              (if skip then Some None
               else do {
                 m \<leftarrow> kv_is_masked_swa c p0 p1;
                 (if m then Some None
                  else Some (Some (if h_use_alibi (k_hparams c) then - \<bar>p0 - p1\<bar> else 0))) }) }) }) }) }"

definition mask_row :: "llama_ubatch \<Rightarrow> bool \<Rightarrow> nat \<Rightarrow> kv_cache \<Rightarrow> nat \<Rightarrow> int option list option" where
  "mask_row u causal_attn n_kv c i = do {
     ids \<leftarrow> nth_opt (u_seq_id u) i;
     seq_id \<leftarrow> nth_opt ids 0;
     strm \<leftarrow> stream_of c seq_id;
     cells \<leftarrow> nth_opt (k_v_cells c) strm;
     p1 \<leftarrow> nth_opt (u_pos u) i;
     p1_x \<leftarrow> (if is_pos_2d u then nth_opt (u_pos u) (i + u_n_tokens u * 2) else Some 0);
     p1_y \<leftarrow> (if is_pos_2d u then nth_opt (u_pos u) (i + u_n_tokens u) else Some 0);
     those (map (mask_entry c causal_attn (is_pos_2d u) seq_id p1 p1_x p1_y cells) [0..<n_kv]) }"

definition set_input_kq_mask ::
  "llama_ubatch \<Rightarrow> bool \<Rightarrow> nat \<Rightarrow> nat \<Rightarrow> kv_cache \<Rightarrow> int option list list option" where
  "set_input_kq_mask u causal_attn n_kv n_stream c = do {
     ensure (n_stream \<noteq> 0 \<and> u_n_tokens u mod n_stream = 0);
     let n_tps = u_n_tokens u div n_stream;
     rows \<leftarrow> those (map (\<lambda>s.
         those (map (\<lambda>ii. mask_row u causal_attn n_kv c (s * n_tps + ii)) [0..<n_tps])) [0..<n_stream]);
     Some (concat rows) }"

end
