(* ===== verification/Kv_Sweep.thy ===== *)
theory Kv_Sweep
  imports Kv_Cache Kv_Table
begin

text \<open>
  The sequence operations of the KV cache are loops over all cells of a stream. The locale
  \<open>cell_sweep\<close> is the contract of a loop body, an operation on one cell that refines a function on
  that cell, and the loop is analysed once; \<open>seq_rm\<close>, \<open>seq_cp\<close>, \<open>seq_keep\<close>, \<open>seq_add\<close> and \<open>seq_div\<close>
  are interpretations. With them every sequence operation refines an operation on tables of cells.
\<close>

section \<open>Loops over the cells\<close>

locale cell_sweep =
  fixes body :: "nat \<Rightarrow> kv_cells \<Rightarrow> (bool \<times> kv_cells) option"
    and pre :: "cell \<Rightarrow> bool" and eff :: "cell \<Rightarrow> cell" and frees :: "cell \<Rightarrow> bool" and shifts :: "cell \<Rightarrow> bool"
  assumes body: "cells_inv c \<Longrightarrow> i < cells_size c \<Longrightarrow> pre (cell c i) \<Longrightarrow>
    \<exists>c'. body i c = Some (frees (cell c i), c') \<and> cells_inv c' \<and>
      cell_list c' = (cell_list c)[i := eff (cell c i)] \<and>
      c_has_shift c' = (c_has_shift c \<or> shifts (cell c i))"
begin

text \<open>The whole loop: every cell is rewritten, and \<open>new_head\<close> is the first freed cell.\<close>

lemma run:
  assumes "cells_inv c" "\<forall>x \<in> set (cell_list c). pre x"
  shows "\<exists>c'. sweep body c = Some (length (takeWhile (\<lambda>x. \<not> frees x) (cell_list c)), c') \<and>
     cells_inv c' \<and> cell_list c' = map eff (cell_list c) \<and>
     c_has_shift c' = (c_has_shift c \<or> (\<exists>x \<in> set (cell_list c). shifts x))"
proof -
  let ?n = "cells_size c" and ?tab = "cell_list c"
  let ?f = "\<lambda>i (nh, cells). do { (freed, cells') \<leftarrow> body i cells;
     Some (if freed \<and> nh = cells_size cells' then i else nh, cells') }"
  let ?nh = "\<lambda>k. if \<exists>x \<in> set (take k ?tab). frees x then length (takeWhile (\<lambda>x. \<not> frees x) ?tab) else ?n"
  let ?P = "\<lambda>k (nh, c'). cells_inv c' \<and> cell_list c' = map eff (take k ?tab) @ drop k ?tab \<and>
     c_has_shift c' = (c_has_shift c \<or> (\<exists>x \<in> set (take k ?tab). shifts x)) \<and> nh = ?nh k"
  have "\<exists>st. foldo ?f [0..<?n] (?n, c) = Some st \<and> ?P ?n st"
  proof (rule foldo_upt_invariant [where P = ?P])
    fix i st
    assume i: "i < ?n" and P: "?P i st"
    obtain nh d where st: "st = (nh, d)" by fastforce
    have d: "cells_inv d" "cell_list d = map eff (take i ?tab) @ drop i ?tab"
      "c_has_shift d = (c_has_shift c \<or> (\<exists>x \<in> set (take i ?tab). shifts x))" "nh = ?nh i" using P by (simp_all add: st)
    have size: "cells_size d = ?n" using arg_cong [OF d(2), of length] i by simp
    have x: "cell d i = ?tab ! i" using arg_cong [OF d(2), of "\<lambda>t. t ! i"] i size by (simp add: nth_append)
    have "pre (cell d i)" using assms(2) i nth_mem [of i ?tab] unfolding x by simp
    from body [OF d(1) _ this] i size obtain d' where d': "body i d = Some (frees (?tab ! i), d')" "cells_inv d'"
      "cell_list d' = (cell_list d)[i := eff (?tab ! i)]" "c_has_shift d' = (c_has_shift d \<or> shifts (?tab ! i))"
      unfolding x by auto
    have take: "take (Suc i) ?tab = take i ?tab @ [?tab ! i]" using i by (simp add: take_Suc_conv_app_nth)
    have drop: "drop i ?tab = ?tab ! i # drop (Suc i) ?tab" using i by (intro Cons_nth_drop_Suc [symmetric]) simp
    have tab: "cell_list d' = map eff (take (Suc i) ?tab) @ drop (Suc i) ?tab"
      unfolding d'(3) d(2) take drop using i by (simp add: list_update_append)
    have size': "cells_size d' = ?n" using arg_cong [OF tab, of length] i by simp
    have "length (takeWhile (\<lambda>x. \<not> frees x) ?tab) = i" if "frees (?tab ! i)" "\<forall>x \<in> set (take i ?tab). \<not> frees x"
    proof -
      have "takeWhile (\<lambda>x. \<not> frees x) (take i ?tab @ ?tab ! i # drop (Suc i) ?tab) = take i ?tab"
        using that by (simp add: takeWhile_append2)
      then show ?thesis using i drop append_take_drop_id [of i ?tab] by simp
    qed
    moreover have "length (takeWhile (\<lambda>x. \<not> frees x) ?tab) \<noteq> ?n" if "\<exists>x \<in> set (take i ?tab). frees x"
    proof -
      have "takeWhile (\<lambda>x. \<not> frees x) ?tab \<noteq> ?tab" using that by (metis in_set_takeD takeWhile_eq_all_conv)
      then show ?thesis by (metis append_eq_conv_conj takeWhile_dropWhile_id take_all_iff length_cell_list order_refl)
    qed
    ultimately have "(if frees (?tab ! i) \<and> nh = ?n then i else nh) = ?nh (Suc i)"
      unfolding d(4) take by auto
    then show "\<exists>st'. ?f i st = Some st' \<and> ?P (Suc i) st'"
      using d' tab size' d(3) by (auto simp: st take)
  qed (simp add: assms(1))
  then obtain nh c' where r: "foldo ?f [0..<?n] (?n, c) = Some (nh, c')" "?P ?n (nh, c')" by auto
  have "?nh ?n = length (takeWhile (\<lambda>x. \<not> frees x) ?tab)"
    by (auto simp: takeWhile_eq_all_conv [THEN iffD2])
  with r show ?thesis by (simp add: sweep_def)
qed

end

section \<open>The loop bodies\<close>

definition in_range :: "int \<Rightarrow> int \<Rightarrow> int \<Rightarrow> bool" where
  "in_range p0 p1 p \<longleftrightarrow> p0 \<le> p \<and> p < p1"

definition seq_ok :: "int \<Rightarrow> bool" where
  "seq_ok s \<longleftrightarrow> 0 \<le> s \<and> s < LLAMA_MAX_SEQ"

fun rm_eff :: "int \<Rightarrow> int \<Rightarrow> int \<Rightarrow> cell \<Rightarrow> cell" where
  "rm_eff s p0 p1 (p, e, h, b) =
     (if in_range p0 p1 p \<and> s \<in> b then if b = {s} then free_cell else (p, e, h, b - {s}) else (p, e, h, b))"

fun rm_frees :: "int \<Rightarrow> int \<Rightarrow> int \<Rightarrow> cell \<Rightarrow> bool" where
  "rm_frees s p0 p1 (p, e, h, b) \<longleftrightarrow> in_range p0 p1 p \<and> b = {s}"

fun rm_any_eff :: "int \<Rightarrow> int \<Rightarrow> cell \<Rightarrow> cell" where
  "rm_any_eff p0 p1 (p, e, h, b) = (if in_range p0 p1 p then free_cell else (p, e, h, b))"

fun rm_any_frees :: "int \<Rightarrow> int \<Rightarrow> cell \<Rightarrow> bool" where
  "rm_any_frees p0 p1 (p, e, h, b) \<longleftrightarrow> in_range p0 p1 p"

fun cp_eff :: "int \<Rightarrow> int \<Rightarrow> int \<Rightarrow> int \<Rightarrow> cell \<Rightarrow> cell" where
  "cp_eff src dst p0 p1 (p, e, h, b) =
     (if in_range p0 p1 p \<and> src \<in> b then (p, e, h, insert dst b) else (p, e, h, b))"

fun cp_pre :: "int \<Rightarrow> int \<Rightarrow> int \<Rightarrow> int \<Rightarrow> cell \<Rightarrow> bool" where
  "cp_pre src dst p0 p1 (p, e, h, b) \<longleftrightarrow> seq_ok src \<and> seq_ok dst \<and> (in_range p0 p1 p \<and> src \<in> b \<longrightarrow> dst \<notin> b)"

fun keep_eff :: "int \<Rightarrow> cell \<Rightarrow> cell" where
  "keep_eff s (p, e, h, b) = (if s \<in> b then (p, e, h, {s}) else if b \<noteq> {} then free_cell else (p, e, h, b))"

fun keep_frees :: "int \<Rightarrow> cell \<Rightarrow> bool" where
  "keep_frees s (p, e, h, b) \<longleftrightarrow> b \<noteq> {} \<and> s \<notin> b"

fun keep_pre :: "int \<Rightarrow> cell \<Rightarrow> bool" where
  "keep_pre s (p, e, h, b) \<longleftrightarrow> seq_ok s \<and> (p \<noteq> -1 \<longrightarrow> b \<noteq> {})"

fun add_hits :: "int \<Rightarrow> int \<Rightarrow> int \<Rightarrow> cell \<Rightarrow> bool" where
  "add_hits s p0 p1 (p, e, h, b) \<longleftrightarrow> in_range p0 p1 p \<and> s \<in> b"

fun add_eff :: "int \<Rightarrow> int \<Rightarrow> int \<Rightarrow> int \<Rightarrow> cell \<Rightarrow> cell" where
  "add_eff s p0 p1 d (p, e, h, b) =
     (if in_range p0 p1 p \<and> s \<in> b
      then if p + d < 0 then (-1, e, 0, {}) else (p + d, e, h + d, b) else (p, e, h, b))"

fun add_frees :: "int \<Rightarrow> int \<Rightarrow> int \<Rightarrow> int \<Rightarrow> cell \<Rightarrow> bool" where
  "add_frees s p0 p1 d (p, e, h, b) \<longleftrightarrow> in_range p0 p1 p \<and> s \<in> b \<and> p + d < 0"

fun add_pre :: "int \<Rightarrow> int \<Rightarrow> int \<Rightarrow> int \<Rightarrow> cell \<Rightarrow> bool" where
  "add_pre s p0 p1 d (p, e, h, b) \<longleftrightarrow> seq_ok s \<and> (in_range p0 p1 p \<and> s \<in> b \<longrightarrow> is_i32 (p + d) \<and> is_i32 (h + d))"

fun div_eff :: "int \<Rightarrow> int \<Rightarrow> int \<Rightarrow> int \<Rightarrow> cell \<Rightarrow> cell" where
  "div_eff s p0 p1 d (p, e, h, b) =
     (if in_range p0 p1 p \<and> s \<in> b then (p div d, e, h + (p - p div d), b) else (p, e, h, b))"

fun div_pre :: "int \<Rightarrow> int \<Rightarrow> int \<Rightarrow> int \<Rightarrow> cell \<Rightarrow> bool" where
  "div_pre s p0 p1 d (p, e, h, b) \<longleftrightarrow> seq_ok s \<and> 0 < d \<and> (in_range p0 p1 p \<and> s \<in> b \<longrightarrow> is_i32 (h + (p - p div d)))"

lemma cell_unchanged: "(cell_list c)[i := (c_pos c ! i, c_ext c ! i, c_shift c ! i, c_seq c ! i)] = cell_list c"
  using cell_list_same [of c i] by (simp add: cell_def)

lemma seq_has_ok: "i < cells_size c \<Longrightarrow> seq_ok s \<Longrightarrow> seq_has i s c = Some (s \<in> c_seq c ! i)"
  by (simp add: seq_has_eq seq_ok_def)

lemmas body_reads = pos_in_eq seq_has_ok cell_unchanged

interpretation seq_rm: cell_sweep "seq_rm_cell s p0 p1" "\<lambda>_. seq_ok s" "rm_eff s p0 p1" "rm_frees s p0 p1" "\<lambda>_. False"
  for s p0 p1
proof
  fix c i
  assume inv: "cells_inv c" and i: "i < cells_size c" and s: "seq_ok s"
  show "\<exists>c'. seq_rm_cell s p0 p1 i c = Some (rm_frees s p0 p1 (cell c i), c') \<and> cells_inv c' \<and>
      cell_list c' = (cell_list c)[i := rm_eff s p0 p1 (cell c i)] \<and> c_has_shift c' = (c_has_shift c \<or> False)"
  proof (cases "in_range p0 p1 (c_pos c ! i) \<and> s \<in> c_seq c ! i")
    case True
    show ?thesis
      by (rule cells_seq_rm_spec [OF inv i, of s])
        (use True i s in \<open>auto simp: seq_rm_cell_def body_reads in_range_def cell_def\<close>)
  next
    case False
    then have "c_seq c ! i \<noteq> {s} \<or> \<not> in_range p0 p1 (c_pos c ! i)" by auto
    with False show ?thesis using inv i s
      by (intro exI [of _ c]) (auto simp: seq_rm_cell_def body_reads in_range_def cell_def)
  qed
qed

interpretation rm_any: cell_sweep "rm_cell p0 p1" "\<lambda>_. 0 \<le> p0" "rm_any_eff p0 p1" "rm_any_frees p0 p1" "\<lambda>_. False"
  for p0 p1
proof
  fix c i
  assume inv: "cells_inv c" and i: "i < cells_size c" and p0: "0 \<le> p0"
  show "\<exists>c'. rm_cell p0 p1 i c = Some (rm_any_frees p0 p1 (cell c i), c') \<and> cells_inv c' \<and>
      cell_list c' = (cell_list c)[i := rm_any_eff p0 p1 (cell c i)] \<and> c_has_shift c' = (c_has_shift c \<or> False)"
  proof (cases "in_range p0 p1 (c_pos c ! i)")
    case True
    show ?thesis
      by (rule cells_rm_spec [OF inv i]) (use True i p0 in \<open>auto simp: rm_cell_def body_reads in_range_def cell_def\<close>)
  next
    case False
    then show ?thesis using inv i by (intro exI [of _ c]) (auto simp: rm_cell_def body_reads in_range_def cell_def)
  qed
qed

interpretation seq_cp: cell_sweep "seq_cp_cell src dst p0 p1" "cp_pre src dst p0 p1" "cp_eff src dst p0 p1" "\<lambda>_. False" "\<lambda>_. False"
  for src dst p0 p1
proof
  fix c i
  assume inv: "cells_inv c" and i: "i < cells_size c" and pre: "cp_pre src dst p0 p1 (cell c i)"
  show "\<exists>c'. seq_cp_cell src dst p0 p1 i c = Some (False, c') \<and> cells_inv c' \<and>
      cell_list c' = (cell_list c)[i := cp_eff src dst p0 p1 (cell c i)] \<and> c_has_shift c' = (c_has_shift c \<or> False)"
  proof (cases "in_range p0 p1 (c_pos c ! i) \<and> src \<in> c_seq c ! i")
    case True
    have "c_pos c ! i \<noteq> -1" using cells_inv_seq_pos [OF inv i] True by blast
    then show ?thesis
      by (rule cells_seq_add_spec [OF inv i, of dst])
        (use True pre i in \<open>auto simp: seq_cp_cell_def body_reads in_range_def cell_def seq_ok_def\<close>)
  next
    case False
    then show ?thesis using inv i pre
      by (intro exI [of _ c]) (auto simp: seq_cp_cell_def body_reads in_range_def cell_def)
  qed
qed

interpretation seq_keep: cell_sweep "\<lambda>i. cells_seq_keep i s" "keep_pre s" "keep_eff s" "keep_frees s" "\<lambda>_. False" for s
proof
  fix c i
  assume inv: "cells_inv c" and i: "i < cells_size c" and pre: "keep_pre s (cell c i)"
  show "\<exists>c'. cells_seq_keep i s c = Some (keep_frees s (cell c i), c') \<and> cells_inv c' \<and>
      cell_list c' = (cell_list c)[i := keep_eff s (cell c i)] \<and> c_has_shift c' = (c_has_shift c \<or> False)"
    by (rule cells_seq_keep_spec [OF inv i, of s]) (use pre in \<open>auto simp: cell_def seq_ok_def\<close>)
qed

interpretation seq_add: cell_sweep "seq_add_cell s p0 p1 d" "add_pre s p0 p1 d" "add_eff s p0 p1 d" "add_frees s p0 p1 d" "add_hits s p0 p1"
  for s p0 p1 d
proof
  fix c i
  assume inv: "cells_inv c" and i: "i < cells_size c" and pre: "add_pre s p0 p1 d (cell c i)"
  show "\<exists>c'. seq_add_cell s p0 p1 d i c = Some (add_frees s p0 p1 d (cell c i), c') \<and> cells_inv c' \<and>
      cell_list c' = (cell_list c)[i := add_eff s p0 p1 d (cell c i)] \<and>
      c_has_shift c' = (c_has_shift c \<or> add_hits s p0 p1 (cell c i))"
  proof (cases "in_range p0 p1 (c_pos c ! i) \<and> s \<in> c_seq c ! i")
    case True
    have p: "c_pos c ! i \<noteq> -1" using cells_inv_seq_pos [OF inv i] True by blast
    show ?thesis
      by (rule pos_add_spec [OF inv i p, of d])
        (use True pre i in \<open>auto simp: seq_add_cell_def body_reads in_range_def cell_def\<close>)
  next
    case False
    then show ?thesis using inv i pre
      by (intro exI [of _ c]) (auto simp: seq_add_cell_def body_reads in_range_def cell_def)
  qed
qed

interpretation seq_div: cell_sweep "seq_div_cell s p0 p1 d" "div_pre s p0 p1 d" "div_eff s p0 p1 d" "\<lambda>_. False" "add_hits s p0 p1"
  for s p0 p1 d
proof
  fix c i
  assume inv: "cells_inv c" and i: "i < cells_size c" and pre: "div_pre s p0 p1 d (cell c i)"
  show "\<exists>c'. seq_div_cell s p0 p1 d i c = Some (False, c') \<and> cells_inv c' \<and>
      cell_list c' = (cell_list c)[i := div_eff s p0 p1 d (cell c i)] \<and>
      c_has_shift c' = (c_has_shift c \<or> add_hits s p0 p1 (cell c i))"
  proof (cases "in_range p0 p1 (c_pos c ! i) \<and> s \<in> c_seq c ! i")
    case True
    have p: "c_pos c ! i \<noteq> -1" using cells_inv_seq_pos [OF inv i] True by blast
    show ?thesis
      by (rule pos_div_spec [OF inv i p, of d])
        (use True pre i in \<open>auto simp: seq_div_cell_def body_reads in_range_def cell_def\<close>)
  next
    case False
    then show ?thesis using inv i pre
      by (intro exI [of _ c]) (auto simp: seq_div_cell_def body_reads in_range_def cell_def)
  qed
qed

end
