(* ===== verification/Kv_Ops.thy ===== *)
theory Kv_Ops
  imports Kv_Sweep
begin

text \<open>
  The invariant of the KV cache and the sequence operations. A cache has one table of cells per
  stream; every cell that holds a position belongs to a sequence, every sequence of a cell is
  mapped to the stream of that cell, and the search heads lie within the tables. Each operation
  keeps the invariant and refines an operation on the tables.
\<close>

section \<open>Invariant\<close>

fun cell_good :: "kv_cache \<Rightarrow> nat \<Rightarrow> cell \<Rightarrow> bool" where
  "cell_good c s (p, e, h, b) \<longleftrightarrow>
     (p \<noteq> -1 \<longrightarrow> b \<noteq> {}) \<and> (\<forall>t \<in> b. valid_seq c t \<and> k_seq_to_stream c ! nat t = s)"

definition stream_ok :: "kv_cache \<Rightarrow> nat \<Rightarrow> nat \<Rightarrow> kv_cells \<Rightarrow> bool" where
  "stream_ok c n s cells \<longleftrightarrow>
     cells_inv cells \<and> cells_size cells = n \<and> (\<forall>x \<in> set (cell_list cells). cell_good c s x)"

definition kv_size :: "kv_cache \<Rightarrow> nat" where
  "kv_size c = cells_size (hd (k_v_cells c))"

definition kv_inv :: "kv_cache \<Rightarrow> bool" where
  "kv_inv c \<longleftrightarrow> 0 < k_n_stream c \<and> int (k_n_stream c) \<le> LLAMA_MAX_SEQ \<and> length (k_v_heads c) = k_n_stream c \<and> length (k_v_cells c) = k_n_stream c \<and>
     0 < length (k_seq_to_stream c) \<and> int (length (k_seq_to_stream c)) \<le> LLAMA_MAX_SEQ \<and>
     (\<forall>s \<in> set (k_seq_to_stream c). s < k_n_stream c) \<and>
     (\<forall>s < k_n_stream c. stream_ok c (kv_size c) s (k_v_cells c ! s)) \<and>
     (\<forall>s < k_n_stream c. k_v_heads c ! s \<le> kv_size c)"

definition kv_tables :: "kv_cache \<Rightarrow> cell list list" where
  "kv_tables c = map cell_list (k_v_cells c)"

text \<open>The members no operation changes.\<close>

definition same_config :: "kv_cache \<Rightarrow> kv_cache \<Rightarrow> bool" where
  "same_config c c' \<longleftrightarrow> k_hparams c' = k_hparams c \<and> k_v_trans c' = k_v_trans c \<and> k_n_seq_max c' = k_n_seq_max c \<and>
     k_n_stream c' = k_n_stream c \<and> k_n_pad c' = k_n_pad c \<and> k_n_swa c' = k_n_swa c \<and>
     k_swa_type c' = k_swa_type c \<and> k_seq_to_stream c' = k_seq_to_stream c \<and>
     k_layers c' = k_layers c \<and> k_map_layer_ids c' = k_map_layer_ids c"

definition strm :: "kv_cache \<Rightarrow> int \<Rightarrow> nat" where
  "strm c s = k_seq_to_stream c ! nat s"

lemma same_config_refl [simp]: "same_config c c"
  by (simp add: same_config_def)

lemma same_config_trans: "same_config a b \<Longrightarrow> same_config b c \<Longrightarrow> same_config a c"
  by (simp add: same_config_def)

lemma same_config_put [simp]:
  "same_config c (put_cells s cs c) " "same_config c (put_head s h c)"
  "same_config c (put_head s h (put_cells s cs c))" "same_config c (kv_clear c)"
  by (simp_all add: same_config_def put_cells_def put_head_def kv_clear_def)

lemma put_sc_info [simp]:
  "k_sc_info (put_cells s cs c) = k_sc_info c" "k_sc_info (put_head s h c) = k_sc_info c"
  by (simp_all add: put_cells_def put_head_def)

lemma kv_inv_stream:
  assumes "kv_inv c" "s < k_n_stream c"
  shows "s < length (k_v_cells c)" "s < length (k_v_heads c)" "cells_inv (k_v_cells c ! s)"
    "cells_size (k_v_cells c ! s) = kv_size c" "\<forall>x \<in> set (cell_list (k_v_cells c ! s)). cell_good c s x"
    "k_v_heads c ! s \<le> kv_size c" "kv_tables c ! s = cell_list (k_v_cells c ! s)"
  using assms by (auto simp: kv_inv_def stream_ok_def kv_tables_def)

lemma kv_inv_seq:
  assumes "kv_inv c" "valid_seq c t"
  shows "stream_of c t = Some (strm c t)" "strm c t < k_n_stream c" "seq_ok t"
  using assms by (auto simp: kv_inv_def valid_seq_def stream_of_def strm_def seq_ok_def)

lemma cell_good_cong:
  "k_seq_to_stream c' = k_seq_to_stream c \<Longrightarrow> cell_good c' s x = cell_good c s x"
  by (cases x) (simp add: valid_seq_def)

lemma kv_size_put:
  assumes "cells_size cs = kv_size c" "s < length (k_v_cells c)"
  shows "kv_size (put_cells s cs c) = kv_size c"
  using assms by (cases "k_v_cells c") (auto simp: kv_size_def put_cells_def nth_Cons split: nat.splits)

lemma kv_inv_put_cells:
  assumes "kv_inv c" "s < k_n_stream c" "stream_ok c (kv_size c) s cs"
  shows "kv_inv (put_cells s cs c)" "kv_tables (put_cells s cs c) = (kv_tables c)[s := cell_list cs]"
    "kv_size (put_cells s cs c) = kv_size c"
proof -
  note st = kv_inv_stream [OF assms(1,2)]
  show size: "kv_size (put_cells s cs c) = kv_size c" using assms(3) st(1) by (intro kv_size_put) (simp_all add: stream_ok_def)
  have good: "cell_good (put_cells s cs c) t x = cell_good c t x" for t x
    by (rule cell_good_cong) (simp add: put_cells_def)
  then have "stream_ok (put_cells s cs c) n t d = stream_ok c n t d" for n t d by (simp add: stream_ok_def)
  then show "kv_inv (put_cells s cs c)" using assms unfolding kv_inv_def size
    by (auto simp: put_cells_def nth_upd)
  show "kv_tables (put_cells s cs c) = (kv_tables c)[s := cell_list cs]" by (simp add: kv_tables_def put_cells_def map_update)
qed

lemma kv_inv_put_head:
  assumes "kv_inv c" "h \<le> kv_size c"
  shows "kv_inv (put_head s h c)" "kv_tables (put_head s h c) = kv_tables c" "kv_size (put_head s h c) = kv_size c"
proof -
  show size: "kv_size (put_head s h c) = kv_size c" by (simp add: kv_size_def put_head_def)
  have "cell_good (put_head s h c) t x = cell_good c t x" for t x by (rule cell_good_cong) (simp add: put_head_def)
  then have "stream_ok (put_head s h c) n t d = stream_ok c n t d" for n t d by (simp add: stream_ok_def)
  then show "kv_inv (put_head s h c)" using assms unfolding kv_inv_def size
    by (auto simp: put_head_def nth_upd)
  show "kv_tables (put_head s h c) = kv_tables c" by (simp add: kv_tables_def put_head_def)
qed

lemma lower_head_le: "h \<le> n \<Longrightarrow> lower_head nh n h \<le> n"
  by (simp add: lower_head_def)

section \<open>One stream\<close>

text \<open>
  The shared part of the operations on one stream: when the sweep of a loop body rewrites the cells
  by \<open>eff\<close>, and \<open>eff\<close> keeps good cells good, then the new cells can take the place of the old.
\<close>


context cell_sweep
begin

lemma on_stream:
  assumes "kv_inv c" "s < k_n_stream c" "\<forall>x \<in> set (kv_tables c ! s). pre x"
    and "\<And>x. cell_good c s x \<Longrightarrow> pre x \<Longrightarrow> cell_good c s (eff x)"
  shows "\<exists>cs. sweep body (k_v_cells c ! s) = Some (length (takeWhile (\<lambda>x. \<not> frees x) (kv_tables c ! s)), cs) \<and>
     stream_ok c (kv_size c) s cs \<and> cell_list cs = map eff (kv_tables c ! s) \<and>
     c_has_shift cs = (c_has_shift (k_v_cells c ! s) \<or> (\<exists>x \<in> set (kv_tables c ! s). shifts x))"
proof -
  note st = kv_inv_stream [OF assms(1,2)]
  obtain cs where cs: "sweep body (k_v_cells c ! s) = Some (length (takeWhile (\<lambda>x. \<not> frees x) (kv_tables c ! s)), cs)"
    "cells_inv cs" "cell_list cs = map eff (kv_tables c ! s)"
    "c_has_shift cs = (c_has_shift (k_v_cells c ! s) \<or> (\<exists>x \<in> set (kv_tables c ! s). shifts x))"
    using run [OF st(3)] assms(3) unfolding st(7) by blast
  have "cells_size cs = kv_size c" using arg_cong [OF cs(3), of length] st(4,7) by simp
  moreover have "\<forall>x \<in> set (cell_list cs). cell_good c s x" using assms(3,4) st(5) unfolding cs(3) st(7) by auto
  ultimately show ?thesis using cs by (auto simp: stream_ok_def)
qed

lemma on_rm_stream:
  assumes "kv_inv c" "s < k_n_stream c" "\<forall>x \<in> set (kv_tables c ! s). pre x"
    and "\<And>x. cell_good c s x \<Longrightarrow> pre x \<Longrightarrow> cell_good c s (eff x)"
  shows "\<exists>c'. rm_stream body s c = Some c' \<and> kv_inv c' \<and> same_config c c' \<and> k_sc_info c' = k_sc_info c \<and>
     kv_tables c' = (kv_tables c)[s := map eff (kv_tables c ! s)] \<and> kv_size c' = kv_size c"
proof -
  note st = kv_inv_stream [OF assms(1,2)]
  obtain nh cs where cs: "sweep body (k_v_cells c ! s) = Some (nh, cs)" "stream_ok c (kv_size c) s cs"
    "cell_list cs = map eff (kv_tables c ! s)" using on_stream [OF assms] by blast
  note put = kv_inv_put_cells [OF assms(1,2) cs(2)]
  let ?h = "lower_head nh (cells_size cs) (k_v_heads c ! s)"
  have "?h \<le> kv_size (put_cells s cs c)"
    using lower_head_le [OF st(6)] cs(2) unfolding put(3) by (simp add: stream_ok_def)
  note puth = kv_inv_put_head [OF put(1) this, of s]
  have "rm_stream body s c = Some (put_head s ?h (put_cells s cs c))"
    using st(1,2) cs(1) by (simp add: rm_stream_def)
  then show ?thesis using puth put cs(3) by simp
qed

end

lemma good_rm_eff: "cell_good c s x \<Longrightarrow> cell_good c s (rm_eff t p0 p1 x)"
  by (cases x) (auto simp: free_cell_def)

lemma good_rm_any_eff: "cell_good c s x \<Longrightarrow> cell_good c s (rm_any_eff p0 p1 x)"
  by (cases x) (auto simp: free_cell_def)

lemma good_cp_eff:
  "valid_seq c dst \<Longrightarrow> strm c dst = s \<Longrightarrow> cell_good c s x \<Longrightarrow> cell_good c s (cp_eff src dst p0 p1 x)"
  by (cases x) (auto simp: strm_def)

lemma good_keep_eff: "cell_good c s x \<Longrightarrow> cell_good c s (keep_eff t x)"
  by (cases x) (auto simp: free_cell_def)

lemma good_add_eff: "cell_good c s x \<Longrightarrow> cell_good c s (add_eff t p0 p1 d x)"
  by (cases x) auto

lemma good_div_eff: "cell_good c s x \<Longrightarrow> cell_good c s (div_eff t p0 p1 d x)"
  by (cases x) auto

section \<open>The operations\<close>

lemma kv_seq_rm_one:
  assumes "kv_inv c" "valid_seq c t"
  shows "\<exists>c'. kv_seq_rm t p0 p1 c = Some (True, c') \<and> kv_inv c' \<and> same_config c c' \<and> k_sc_info c' = k_sc_info c \<and>
     kv_tables c' = (kv_tables c)[strm c t := map (rm_eff t (range_lo p0) (range_hi p1)) (kv_tables c ! strm c t)] \<and>
     kv_size c' = kv_size c"
proof -
  note t = kv_inv_seq [OF assms]
  have "t \<ge> 0" using assms(2) by (simp add: valid_seq_def)
  then show ?thesis
    using seq_rm.on_rm_stream [OF assms(1) t(2), of t "range_lo p0" "range_hi p1"] t(1,3) assms(2) good_rm_eff
    by (auto simp: kv_seq_rm_def)
qed

lemma kv_seq_rm_all:
  assumes "kv_inv c"
  shows "\<exists>c'. kv_seq_rm (-1) p0 p1 c = Some (True, c') \<and> kv_inv c' \<and> same_config c c' \<and> k_sc_info c' = k_sc_info c \<and>
     kv_tables c' = map (map (rm_any_eff (range_lo p0) (range_hi p1))) (kv_tables c) \<and> kv_size c' = kv_size c"
proof -
  let ?eff = "rm_any_eff (range_lo p0) (range_hi p1)" and ?n = "k_n_stream c"
  have len: "length (kv_tables c) = ?n" using assms by (simp add: kv_inv_def kv_tables_def)
  have lo: "0 \<le> range_lo p0" by (simp add: range_lo_def)
  let ?P = "\<lambda>k c'. kv_inv c' \<and> same_config c c' \<and> k_sc_info c' = k_sc_info c \<and> kv_size c' = kv_size c \<and>
     kv_tables c' = map (map ?eff) (take k (kv_tables c)) @ drop k (kv_tables c)"
  have "\<exists>c'. foldo (\<lambda>s c. rm_stream (rm_cell (range_lo p0) (range_hi p1)) s c) [0..<?n] c = Some c' \<and> ?P ?n c'"
  proof (rule foldo_upt_invariant [where P = ?P])
    fix s d
    assume s: "s < ?n" and P: "?P s d"
    have "s < k_n_stream d" using P s by (simp add: same_config_def)
    with rm_any.on_rm_stream [of d s "range_lo p0" "range_hi p1"] P lo good_rm_any_eff obtain d' where
      d': "rm_stream (rm_cell (range_lo p0) (range_hi p1)) s d = Some d'" "kv_inv d'" "same_config d d'"
        "k_sc_info d' = k_sc_info d" "kv_tables d' = (kv_tables d)[s := map ?eff (kv_tables d ! s)]" "kv_size d' = kv_size d"
      by blast
    have "kv_tables d' = map (map ?eff) (take (Suc s) (kv_tables c)) @ drop (Suc s) (kv_tables c)"
    proof -
      have tab: "kv_tables d = map (map ?eff) (take s (kv_tables c)) @ drop s (kv_tables c)" using P by simp
      have "drop s (kv_tables c) = kv_tables c ! s # drop (Suc s) (kv_tables c)"
        using s len by (intro Cons_nth_drop_Suc [symmetric]) simp
      then show ?thesis using s len unfolding d'(5) tab
        by (simp add: nth_append list_update_append take_Suc_conv_app_nth)
    qed
    then show "\<exists>d'. rm_stream (rm_cell (range_lo p0) (range_hi p1)) s d = Some d' \<and> ?P (Suc s) d'"
      using d' P same_config_trans by auto
  qed (simp add: assms)
  then show ?thesis using len by (auto simp: kv_seq_rm_def)
qed

lemma kv_seq_keep_spec:
  assumes "kv_inv c" "valid_seq c t"
  shows "\<exists>c'. kv_seq_keep t c = Some c' \<and> kv_inv c' \<and> same_config c c' \<and> k_sc_info c' = k_sc_info c \<and>
     kv_tables c' = (kv_tables c)[strm c t := map (keep_eff t) (kv_tables c ! strm c t)] \<and> kv_size c' = kv_size c"
proof -
  note t = kv_inv_seq [OF assms]
  have "keep_pre t x" if "x \<in> set (kv_tables c ! strm c t)" for x
  proof -
    have "cell_good c (strm c t) x" using that kv_inv_stream(5,7) [OF assms(1) t(2)] by simp
    then show ?thesis using t(3) by (cases x) simp
  qed
  then show ?thesis
    using seq_keep.on_rm_stream [OF assms(1) t(2), of t] t(1) assms(2) good_keep_eff
    by (simp add: kv_seq_keep_def)
qed

lemma kv_seq_add_spec:
  assumes "kv_inv c" "valid_seq c t" "n_pos_per_embd (k_hparams c) = 1"
    and "\<forall>x \<in> set (kv_tables c ! strm c t). add_pre t (range_lo p0) (range_hi p1) d x"
  shows "\<exists>c'. kv_seq_add t p0 p1 d c = Some c' \<and> kv_inv c' \<and> same_config c c' \<and> k_sc_info c' = k_sc_info c \<and>
     kv_tables c' = (if d = 0 \<or> range_lo p0 = range_hi p1 then kv_tables c
       else (kv_tables c)[strm c t := map (add_eff t (range_lo p0) (range_hi p1) d) (kv_tables c ! strm c t)]) \<and>
     kv_size c' = kv_size c"
proof (cases "d = 0 \<or> range_lo p0 = range_hi p1")
  case True
  then show ?thesis using kv_inv_seq [OF assms(1,2)] assms by (auto simp: kv_seq_add_def)
next
  case False
  note t = kv_inv_seq [OF assms(1,2)] note st = kv_inv_stream [OF assms(1) t(2)]
  obtain nh cs where cs: "sweep (seq_add_cell t (range_lo p0) (range_hi p1) d) (k_v_cells c ! strm c t) = Some (nh, cs)"
    "stream_ok c (kv_size c) (strm c t) cs"
    "cell_list cs = map (add_eff t (range_lo p0) (range_hi p1) d) (kv_tables c ! strm c t)"
    "nh = length (takeWhile (\<lambda>x. \<not> add_frees t (range_lo p0) (range_hi p1) d x) (kv_tables c ! strm c t))"
    using seq_add.on_stream [OF assms(1) t(2) assms(4)] good_add_eff by blast
  note put = kv_inv_put_cells [OF assms(1) t(2) cs(2)]
  let ?h = "if nh \<noteq> cells_size cs then nh else 0"
  have "length (kv_tables c ! strm c t) = kv_size c" using st(4,7) by simp
  then have "nh \<le> kv_size c" unfolding cs(4) by (metis length_takeWhile_le)
  then have "?h \<le> kv_size (put_cells (strm c t) cs c)" unfolding put(3) by simp
  note puth = kv_inv_put_head [OF put(1) this, of "strm c t"]
  have "kv_seq_add t p0 p1 d c = Some (put_head (strm c t) ?h (put_cells (strm c t) cs c))"
    using False t(1) st(1) cs(1) assms(2,3) by (simp add: kv_seq_add_def Let_def)
  then show ?thesis using puth put cs(3) False by simp
qed

lemma kv_seq_div_spec:
  assumes "kv_inv c" "valid_seq c t" "n_pos_per_embd (k_hparams c) = 1"
    and "d \<noteq> 1 \<Longrightarrow> \<forall>x \<in> set (kv_tables c ! strm c t). div_pre t (range_lo p0) (range_hi p1) d x"
  shows "\<exists>c'. kv_seq_div t p0 p1 d c = Some c' \<and> kv_inv c' \<and> same_config c c' \<and> k_sc_info c' = k_sc_info c \<and>
     kv_tables c' = (if d = 1 \<or> range_lo p0 = range_hi p1 then kv_tables c
       else (kv_tables c)[strm c t := map (div_eff t (range_lo p0) (range_hi p1) d) (kv_tables c ! strm c t)]) \<and>
     kv_size c' = kv_size c"
proof (cases "d = 1 \<or> range_lo p0 = range_hi p1")
  case True
  then show ?thesis using kv_inv_seq [OF assms(1,2)] assms by (auto simp: kv_seq_div_def)
next
  case False
  note t = kv_inv_seq [OF assms(1,2)] note st = kv_inv_stream [OF assms(1) t(2)]
  obtain nh cs where cs: "sweep (seq_div_cell t (range_lo p0) (range_hi p1) d) (k_v_cells c ! strm c t) = Some (nh, cs)"
    "stream_ok c (kv_size c) (strm c t) cs"
    "cell_list cs = map (div_eff t (range_lo p0) (range_hi p1) d) (kv_tables c ! strm c t)"
    using seq_div.on_stream [OF assms(1) t(2) assms(4)] good_div_eff False by blast
  note put = kv_inv_put_cells [OF assms(1) t(2) cs(2)]
  have "kv_seq_div t p0 p1 d c = Some (put_cells (strm c t) cs c)"
    using False t(1) st(1) cs(1) assms(2,3) by (simp add: kv_seq_div_def Let_def)
  then show ?thesis using put cs(3) False by simp
qed

lemma kv_clear_spec:
  assumes "kv_inv c"
  shows "kv_inv (kv_clear c)" "kv_tables (kv_clear c) = map (map (\<lambda>_. free_cell)) (kv_tables c)"
    "kv_size (kv_clear c) = kv_size c" "k_sc_info (kv_clear c) = k_sc_info c"
proof -
  have ne: "k_v_cells c \<noteq> []" using assms by (auto simp: kv_inv_def)
  then show size: "kv_size (kv_clear c) = kv_size c" by (simp add: kv_size_def kv_clear_def hd_map)
  have inv: "cells_inv cs" "cells_size cs = kv_size c" if "cs \<in> set (k_v_cells c)" for cs
    using that kv_inv_stream [OF assms] assms by (auto simp: in_set_conv_nth kv_inv_def)
  have tab: "cell_list (cells_reset cs) = map (\<lambda>_. free_cell) (cell_list cs)" if "cs \<in> set (k_v_cells c)" for cs
    using cells_inv_reset(2) [OF inv(1) [OF that]] by (simp add: map_replicate_const)
  show "kv_tables (kv_clear c) = map (map (\<lambda>_. free_cell)) (kv_tables c)"
    using tab by (simp add: kv_tables_def kv_clear_def)
  have "stream_ok (kv_clear c) (kv_size c) s (cells_reset cs)" if "cs \<in> set (k_v_cells c)" for s cs
    using inv [OF that] cells_inv_reset(1) [OF inv(1) [OF that]] tab [OF that] by (auto simp: stream_ok_def free_cell_def)
  then show "kv_inv (kv_clear c)" using assms unfolding kv_inv_def size by (auto simp: kv_clear_def)
  show "k_sc_info (kv_clear c) = k_sc_info c" by (simp add: kv_clear_def)
qed

subsection \<open>Copying a sequence\<close>

fun xcp_eff :: "int \<Rightarrow> int \<Rightarrow> cell \<Rightarrow> cell" where
  "xcp_eff src dst (p, e, h, b) = (if src \<in> b then (p, e, h, {dst}) else free_cell)"

fun xcp_pre :: "int \<Rightarrow> cell \<Rightarrow> bool" where
  "xcp_pre src (p, e, h, b) \<longleftrightarrow> (src \<in> b \<longrightarrow> 0 \<le> p - h \<and> p - h \<le> INT32_MAX \<and> is_i32 h)"

text \<open>The operations on the target cell that copy cell \<open>i\<close> of another stream.\<close>

definition xcp_ops :: "int \<Rightarrow> nat \<Rightarrow> cell \<Rightarrow> cells_op list" where
  "xcp_ops dst i = (\<lambda>(p, e, h, b).
     [OpPosSet i (p - h), OpSeqAdd i dst] @ (if h \<noteq> 0 then [OpPosAdd i h] else []) @ [OpExtSet i e])"

lemma stream_cp_cell_eq:
  assumes "cells_inv from" "i < cells_size from" "seq_ok src" "src \<in> c_seq from ! i" "xcp_pre src (cell from i)"
  shows "stream_cp_cell src dst from i to = foldo cells_run (xcp_ops dst i (cell from i)) to"
proof -
  have p: "c_pos from ! i \<noteq> -1" using cells_inv_seq_pos [OF assms(1,2,4)] .
  have "0 \<le> c_pos from ! i - c_shift from ! i" "is_i32 (c_pos from ! i - c_shift from ! i)"
    using assms(4,5) by (auto simp: cell_def i32_defs)
  then show ?thesis
    using assms p by (auto simp: stream_cp_cell_def xcp_ops_def cell_def seq_has_ok pos_get_eq get_shift_eq ext_get_eq
        split: Option.bind_splits)
qed

lemma stream_cp_cell_spec:
  assumes "cells_inv from" "i < cells_size from" "seq_ok src" "seq_ok dst" "xcp_pre src (cell from i)"
    and to: "cells_inv to" "i < cells_size to" "cell to i = free_cell"
  shows "\<exists>to'. stream_cp_cell src dst from i to = Some to' \<and> cells_inv to' \<and>
     cell_list to' = (cell_list to)[i := xcp_eff src dst (cell from i)]"
proof (cases "src \<in> c_seq from ! i")
  case True
  note eq = stream_cp_cell_eq [OF assms(1-3) True assms(5), of dst to]
  obtain p e h b where x: "cell from i = (p, e, h, b)" by (cases "cell from i")
  have p: "-1 \<le> p" "p \<le> INT32_MAX" "p \<noteq> -1" using cells_inv_pos [OF assms(1,2)] cells_inv_seq_pos [OF assms(1,2) True] x
    by (auto simp: cell_def)
  have h: "0 \<le> p - h" "p - h \<le> INT32_MAX" "is_i32 h" using assms(5) True x by (auto simp: cell_def)
  have len: "i < length (cell_list to)" "cell_list to ! i = (-1, ext_zero, 0, {})" using to by (simp_all add: free_cell_def)
  have b: "src \<in> b" using True x by (simp add: cell_def)
  have "ops_pre (xcp_ops dst i (cell from i)) (cell_list to)"
    using len p h assms(4) by (auto simp: x xcp_ops_def seq_ok_def i32_defs)
  moreover have "fold table_op (xcp_ops dst i (cell from i)) (cell_list to) = (cell_list to)[i := xcp_eff src dst (cell from i)]"
    using len p b by (auto simp: x xcp_ops_def)
  ultimately show ?thesis using cells_runs_refine [OF to(1)] eq by metis
next
  case False
  then have "stream_cp_cell src dst from i to = Some to" using assms(2,3) by (simp add: stream_cp_cell_def seq_has_ok)
  moreover have "xcp_eff src dst (cell from i) = cell to i" using False to(3) by (simp add: cell_def)
  ultimately show ?thesis using to(1) cell_list_same [of to i] by simp
qed

lemma stream_cp_spec:
  assumes "cells_inv from" "seq_ok src" "seq_ok dst" "\<forall>x \<in> set (cell_list from). xcp_pre src x"
    and "cells_inv to" "cells_size to = cells_size from"
  shows "\<exists>to'. foldo (stream_cp_cell src dst from) [0..<cells_size from] (cells_reset to) = Some to' \<and>
     cells_inv to' \<and> cell_list to' = map (xcp_eff src dst) (cell_list from)"
proof -
  let ?n = "cells_size from" and ?t = "cell_list from"
  let ?P = "\<lambda>k d. cells_inv d \<and> cell_list d = map (xcp_eff src dst) (take k ?t) @ replicate (?n - k) free_cell"
  have "\<exists>d. foldo (stream_cp_cell src dst from) [0..<?n] (cells_reset to) = Some d \<and> ?P ?n d"
  proof (rule foldo_upt_invariant [where P = ?P])
    show "?P 0 (cells_reset to)" using cells_inv_reset [OF assms(5)] assms(6) by simp
  next
    fix i d
    assume i: "i < ?n" and P: "?P i d"
    have size: "cells_size d = ?n" using arg_cong [OF conjunct2 [OF P], of length] i by simp
    have free: "cell d i = free_cell" using arg_cong [OF conjunct2 [OF P], of "\<lambda>t. t ! i"] i size by (simp add: nth_append)
    have pre: "xcp_pre src (cell from i)" using assms(4) i nth_mem [of i ?t] by simp
    obtain d' where d': "stream_cp_cell src dst from i d = Some d'" "cells_inv d'"
      "cell_list d' = (cell_list d)[i := xcp_eff src dst (cell from i)]"
      using stream_cp_cell_spec [OF assms(1) i assms(2,3) pre _ _ free] P i size by auto
    have "cell_list d' = map (xcp_eff src dst) (take (Suc i) ?t) @ replicate (?n - Suc i) free_cell"
    proof -
      have "replicate (?n - i) free_cell = free_cell # replicate (?n - Suc i) free_cell"
        using i by (metis Suc_diff_Suc replicate_Suc)
      then show ?thesis unfolding d'(3) conjunct2 [OF P] using i
        by (simp add: list_update_append take_Suc_conv_app_nth)
    qed
    with d' show "\<exists>d'. stream_cp_cell src dst from i d = Some d' \<and> ?P (Suc i) d'" by blast
  qed
  then show ?thesis by auto
qed

text \<open>Within one stream the cells of the source gain the destination; a full copy rebuilds a stream.\<close>

lemma kv_seq_cp_same:
  assumes "kv_inv c" "valid_seq c src" "valid_seq c dst" "strm c src = strm c dst"
    and "src \<noteq> dst \<Longrightarrow> \<forall>x \<in> set (kv_tables c ! strm c dst). cp_pre src dst (range_lo p0) (range_hi p1) x"
  shows "\<exists>c'. kv_seq_cp src dst p0 p1 c = Some c' \<and> kv_inv c' \<and> same_config c c' \<and> k_sc_info c' = k_sc_info c \<and>
     kv_tables c' = (if src = dst then kv_tables c
       else (kv_tables c)[strm c dst := map (cp_eff src dst (range_lo p0) (range_hi p1)) (kv_tables c ! strm c dst)]) \<and>
     kv_size c' = kv_size c"
proof (cases "src = dst")
  case True
  then show ?thesis using assms kv_inv_seq [OF assms(1,2)] by (simp add: kv_seq_cp_def)
next
  case False
  note t = kv_inv_seq [OF assms(1,3)] note st = kv_inv_stream [OF assms(1) t(2)]
  obtain nh cs where cs: "sweep (seq_cp_cell src dst (range_lo p0) (range_hi p1)) (k_v_cells c ! strm c dst) = Some (nh, cs)"
    "stream_ok c (kv_size c) (strm c dst) cs"
    "cell_list cs = map (cp_eff src dst (range_lo p0) (range_hi p1)) (kv_tables c ! strm c dst)"
    using seq_cp.on_stream [OF assms(1) t(2) assms(5) [OF False]] good_cp_eff [OF assms(3) refl] by blast
  note put = kv_inv_put_cells [OF assms(1) t(2) cs(2)]
  have "kv_seq_cp src dst p0 p1 c = Some (put_cells (strm c dst) cs c)"
    using False t(1) kv_inv_seq(1) [OF assms(1,2)] st(1) cs(1) assms(2-4) by (simp add: kv_seq_cp_def)
  then show ?thesis using put cs(3) False by simp
qed

lemma kv_get_size:
  assumes "kv_inv c"
  shows "get_size c = Some (kv_size c)"
proof -
  have "valid_seq c 0" using assms by (simp add: kv_inv_def valid_seq_def)
  note t = kv_inv_seq [OF assms this]
  show ?thesis using t(1) kv_inv_stream(1,4) [OF assms t(2)] by (simp add: get_size_def)
qed

lemma kv_seq_cp_cross:
  assumes "kv_inv c" "valid_seq c src" "valid_seq c dst" "strm c src \<noteq> strm c dst"
    and "range_partial p0 (kv_size c) = Some False" "range_partial p1 (kv_size c) = Some False"
    and "\<forall>x \<in> set (kv_tables c ! strm c src). xcp_pre src x"
  shows "\<exists>c'. kv_seq_cp src dst p0 p1 c = Some c' \<and> kv_inv c' \<and> same_config c c' \<and>
     k_sc_info c' = \<lparr>sc_ssrc = sc_ssrc (k_sc_info c) @ [strm c src], sc_sdst = sc_sdst (k_sc_info c) @ [strm c dst]\<rparr> \<and>
     kv_tables c' = (kv_tables c)[strm c dst := map (xcp_eff src dst) (kv_tables c ! strm c src)] \<and>
     kv_size c' = kv_size c"
proof -
  note t0 = kv_inv_seq [OF assms(1,2)] note st0 = kv_inv_stream [OF assms(1) t0(2)]
  note t1 = kv_inv_seq [OF assms(1,3)] note st1 = kv_inv_stream [OF assms(1) t1(2)]
  let ?from = "k_v_cells c ! strm c src" and ?to = "k_v_cells c ! strm c dst"
  obtain to' where to': "foldo (stream_cp_cell src dst ?from) [0..<cells_size ?from] (cells_reset ?to) = Some to'"
    "cells_inv to'" "cell_list to' = map (xcp_eff src dst) (cell_list ?from)"
    using stream_cp_spec [OF st0(3) t0(3) t1(3) _ st1(3)] assms(7) st0(4,7) st1(4) by auto
  let ?sc = "\<lparr>sc_ssrc = sc_ssrc (k_sc_info c) @ [strm c src], sc_sdst = sc_sdst (k_sc_info c) @ [strm c dst]\<rparr>"
  let ?c = "c\<lparr>k_sc_info := ?sc\<rparr>"
  have inv: "kv_inv ?c" and eq: "kv_size ?c = kv_size c" "kv_tables ?c = kv_tables c" "k_n_stream ?c = k_n_stream c"
  proof -
    show eq: "kv_size ?c = kv_size c" "kv_tables ?c = kv_tables c" "k_n_stream ?c = k_n_stream c" by (simp_all add: kv_size_def kv_tables_def)
    have "cell_good ?c s x = cell_good c s x" for s x by (rule cell_good_cong) simp
    then have "stream_ok ?c n s d = stream_ok c n s d" for n s d by (simp add: stream_ok_def)
    then show "kv_inv ?c" using assms(1) unfolding kv_inv_def eq by simp
  qed
  have "cells_size to' = kv_size c" using arg_cong [OF to'(3), of length] st0(4) by simp
  moreover have "cell_good ?c (strm c dst) (xcp_eff src dst x)" for x
    using assms(3) by (cases x) (auto simp: free_cell_def valid_seq_def strm_def)
  ultimately have ok: "stream_ok ?c (kv_size ?c) (strm c dst) to'" unfolding eq using to'(2,3) by (auto simp: stream_ok_def)
  note put = kv_inv_put_cells [OF inv _ ok]
  have s1: "strm c dst < k_n_stream ?c" using t1(2) by simp
  have "k_v_heads c ! strm c src \<le> kv_size (put_cells (strm c dst) to' ?c)" unfolding put(3) [OF s1] eq by (rule st0(6))
  note puth = kv_inv_put_head [OF put(1) [OF s1] this, of "strm c dst"]
  have "kv_seq_cp src dst p0 p1 c = Some (put_head (strm c dst) (k_v_heads c ! strm c src) (put_cells (strm c dst) to' ?c))"
    using assms(2-6) t0(1) t1(1) st0(1,2) st1(1) to'(1) kv_get_size [OF assms(1)]
    by (simp add: kv_seq_cp_def Let_def)
  moreover have "same_config c (put_head s h (put_cells s' cs (c\<lparr>k_sc_info := x\<rparr>)))" for s h s' cs x
    by (simp add: same_config_def put_head_def put_cells_def)
  ultimately show ?thesis using puth put [OF s1] to'(3) st0(7) eq by simp
qed

section \<open>Construction and shifts\<close>

lemma kv_cache_new_spec:
  assumes "kv_cache_new h v_trans unified n n_seq_max n_pad n_swa swa_type flt reuse = Some c"
    and "unified \<or> 0 < n_seq_max" "int n_seq_max \<le> LLAMA_MAX_SEQ"
  shows "kv_inv c" "kv_tables c = replicate (if unified then 1 else n_seq_max) (replicate n free_cell)"
    "k_sc_info c = sc_none" "k_hparams c = h" "kv_size c = n" "k_swa_type c = swa_type" "k_n_stream c = (if unified then 1 else n_seq_max)"
    "\<forall>t. 0 \<le> t \<and> t < int n_seq_max \<longrightarrow> valid_seq c t"
    "k_n_pad c = n_pad" "k_v_trans c = v_trans" "k_n_seq_max c = n_seq_max"
proof -
  let ?ns = "if unified then 1 else n_seq_max"
  have c: "k_n_stream c = ?ns" "k_v_heads c = replicate ?ns 0" "k_v_cells c = replicate ?ns (cells_resize n cells_empty)"
    "k_seq_to_stream c = (if ?ns > 1 then [0..<?ns] else replicate (nat LLAMA_MAX_SEQ) 0)"
    "k_sc_info c = sc_none" "k_hparams c = h" "k_swa_type c = swa_type" "k_n_pad c = n_pad" "k_v_trans c = v_trans" "k_n_seq_max c = n_seq_max"
    using assms(1) by (auto simp: kv_cache_new_def Let_def Option.bind_eq_Some_conv split: if_splits option.splits)
  show "k_sc_info c = sc_none" "k_hparams c = h" "k_swa_type c = swa_type" "k_n_stream c = ?ns"
    "k_n_pad c = n_pad" "k_v_trans c = v_trans" "k_n_seq_max c = n_seq_max" by (fact c)+
  have pos: "0 < ?ns" using assms(2) by auto
  show tab: "kv_tables c = replicate ?ns (replicate n free_cell)" by (simp add: kv_tables_def c(3) cells_resize_spec)
  show size: "kv_size c = n" using pos by (simp add: kv_size_def c(3))
  have "stream_ok c n s (cells_resize n cells_empty)" for s
    by (auto simp: stream_ok_def cells_resize_spec free_cell_def)
  moreover have "int ?ns \<le> LLAMA_MAX_SEQ" using assms(3) by (simp add: LLAMA_MAX_SEQ_def)
  ultimately show "kv_inv c" using pos unfolding kv_inv_def size c by (auto simp: LLAMA_MAX_SEQ_def)
  show "\<forall>t. 0 \<le> t \<and> t < int n_seq_max \<longrightarrow> valid_seq c t"
    using assms(3) by (auto simp: valid_seq_def c(4) LLAMA_MAX_SEQ_def split: if_splits)
qed

definition clear_shift :: "cell \<Rightarrow> cell" where
  "clear_shift = (\<lambda>(p, e, h, b). (p, e, 0, b))"

lemma kv_reset_shift:
  assumes "kv_inv c"
  shows "kv_inv (c\<lparr>k_v_cells := map reset_shift (k_v_cells c)\<rparr>)"
    "kv_tables (c\<lparr>k_v_cells := map reset_shift (k_v_cells c)\<rparr>) = map (map clear_shift) (kv_tables c)"
    "kv_size (c\<lparr>k_v_cells := map reset_shift (k_v_cells c)\<rparr>) = kv_size c"
proof -
  let ?c = "c\<lparr>k_v_cells := map reset_shift (k_v_cells c)\<rparr>"
  have ne: "k_v_cells c \<noteq> []" using assms by (auto simp: kv_inv_def)
  have cs: "cells_size (reset_shift d) = cells_size d" for d by (simp add: reset_shift_def)
  show size: "kv_size ?c = kv_size c" using ne by (simp add: kv_size_def hd_map cs)
  have inv: "cells_inv d" "cells_size d = kv_size c" if "d \<in> set (k_v_cells c)" for d
    using that kv_inv_stream [OF assms] assms by (auto simp: in_set_conv_nth kv_inv_def)
  have tab: "cell_list (reset_shift d) = map clear_shift (cell_list d)" if "d \<in> set (k_v_cells c)" for d
    using reset_shift_spec(3) [OF inv(1) [OF that]] by (simp add: clear_shift_def)
  show "kv_tables ?c = map (map clear_shift) (kv_tables c)" using tab by (simp add: kv_tables_def)
  have good: "cell_good c s x \<Longrightarrow> cell_good ?c s (clear_shift x)" for s x by (cases x) (auto simp: clear_shift_def valid_seq_def)
  have "stream_ok ?c (kv_size c) s (reset_shift (k_v_cells c ! s))" if s: "s < k_n_stream c" for s
  proof -
    have d: "k_v_cells c ! s \<in> set (k_v_cells c)" using s assms by (simp add: kv_inv_def)
    show ?thesis using reset_shift_spec(1) [OF inv(1) [OF d]] inv(2) [OF d] kv_inv_stream(5) [OF assms s] good
      unfolding stream_ok_def tab [OF d] cs by auto
  qed
  then show "kv_inv ?c" using assms unfolding kv_inv_def size by simp
qed

section \<open>The specification\<close>

datatype kv_op =
    KClear
  | KSeqRm int int int
  | KSeqCp int int int int
  | KSeqKeep int
  | KSeqAdd int int int int
  | KSeqDiv int int int int
  | KShift

fun kv_run :: "kv_op \<Rightarrow> kv_cache \<Rightarrow> kv_cache option" where
  "kv_run KClear c = Some (kv_clear c)"
| "kv_run (KSeqRm t p0 p1) c = map_option snd (kv_seq_rm t p0 p1 c)"
| "kv_run (KSeqCp src dst p0 p1) c = kv_seq_cp src dst p0 p1 c"
| "kv_run (KSeqKeep t) c = kv_seq_keep t c"
| "kv_run (KSeqAdd t p0 p1 d) c = kv_seq_add t p0 p1 d c"
| "kv_run (KSeqDiv t p0 p1 d) c = kv_seq_div t p0 p1 d c"
| "kv_run KShift c = map_option snd (kv_update True sc_none SHIFT_DONE c)"

text \<open>The effect on the tables, and when a caller may use the operation.\<close>

fun kv_effect :: "kv_cache \<Rightarrow> kv_op \<Rightarrow> cell list list \<Rightarrow> cell list list" where
  "kv_effect c KClear tabs = map (map (\<lambda>_. free_cell)) tabs"
| "kv_effect c (KSeqRm t p0 p1) tabs =
     (if t \<ge> 0 then tabs[strm c t := map (rm_eff t (range_lo p0) (range_hi p1)) (tabs ! strm c t)]
      else map (map (rm_any_eff (range_lo p0) (range_hi p1))) tabs)"
| "kv_effect c (KSeqCp src dst p0 p1) tabs =
     (if src = dst then tabs
      else if strm c src = strm c dst
      then tabs[strm c dst := map (cp_eff src dst (range_lo p0) (range_hi p1)) (tabs ! strm c dst)]
      else tabs[strm c dst := map (xcp_eff src dst) (tabs ! strm c src)])"
| "kv_effect c (KSeqKeep t) tabs = tabs[strm c t := map (keep_eff t) (tabs ! strm c t)]"
| "kv_effect c (KSeqAdd t p0 p1 d) tabs =
     (if d = 0 \<or> range_lo p0 = range_hi p1 then tabs
      else tabs[strm c t := map (add_eff t (range_lo p0) (range_hi p1) d) (tabs ! strm c t)])"
| "kv_effect c (KSeqDiv t p0 p1 d) tabs =
     (if d = 1 \<or> range_lo p0 = range_hi p1 then tabs
      else tabs[strm c t := map (div_eff t (range_lo p0) (range_hi p1) d) (tabs ! strm c t)])"
| "kv_effect c KShift tabs = map (map clear_shift) tabs"

fun kv_pre :: "kv_cache \<Rightarrow> nat \<Rightarrow> kv_op \<Rightarrow> cell list list \<Rightarrow> bool" where
  "kv_pre c n KClear tabs \<longleftrightarrow> True"
| "kv_pre c n (KSeqRm t p0 p1) tabs \<longleftrightarrow> t = -1 \<or> valid_seq c t"
| "kv_pre c n (KSeqCp src dst p0 p1) tabs \<longleftrightarrow> valid_seq c src \<and> valid_seq c dst \<and>
     (src \<noteq> dst \<longrightarrow>
       (if strm c src = strm c dst
        then list_all (cp_pre src dst (range_lo p0) (range_hi p1)) (tabs ! strm c dst)
        else range_partial p0 n = Some False \<and> range_partial p1 n = Some False \<and>
             list_all (xcp_pre src) (tabs ! strm c src)))"
| "kv_pre c n (KSeqKeep t) tabs \<longleftrightarrow> valid_seq c t"
| "kv_pre c n (KSeqAdd t p0 p1 d) tabs \<longleftrightarrow> valid_seq c t \<and> n_pos_per_embd (k_hparams c) = 1 \<and>
     list_all (add_pre t (range_lo p0) (range_hi p1) d) (tabs ! strm c t)"
| "kv_pre c n (KSeqDiv t p0 p1 d) tabs \<longleftrightarrow> valid_seq c t \<and> n_pos_per_embd (k_hparams c) = 1 \<and>
     (d \<noteq> 1 \<longrightarrow> list_all (div_pre t (range_lo p0) (range_hi p1) d) (tabs ! strm c t))"
| "kv_pre c n KShift tabs \<longleftrightarrow> True"

fun kv_pres :: "kv_cache \<Rightarrow> nat \<Rightarrow> kv_op list \<Rightarrow> cell list list \<Rightarrow> bool" where
  "kv_pres c n [] tabs \<longleftrightarrow> True"
| "kv_pres c n (op # ops) tabs \<longleftrightarrow> kv_pre c n op tabs \<and> kv_pres c n ops (kv_effect c op tabs)"

lemma same_config_strm: "same_config c c' \<Longrightarrow> strm c' = strm c \<and> valid_seq c' = valid_seq c"
  by (auto simp: same_config_def strm_def valid_seq_def fun_eq_iff)

lemma kv_effect_cong: "same_config c c' \<Longrightarrow> kv_effect c' op tabs = kv_effect c op tabs"
  using same_config_strm [of c c'] by (cases op) auto

lemma kv_pre_cong: "same_config c c' \<Longrightarrow> kv_pre c' n op tabs = kv_pre c n op tabs"
  using same_config_strm [of c c'] by (cases op) (auto simp: same_config_def)

lemma kv_pres_cong: "same_config c c' \<Longrightarrow> kv_pres c' n ops tabs = kv_pres c n ops tabs"
  by (induction ops arbitrary: tabs) (auto simp: kv_effect_cong kv_pre_cong)

lemma kv_run_refines:
  assumes "kv_inv c" "kv_pre c (kv_size c) op (kv_tables c)"
  shows "\<exists>c'. kv_run op c = Some c' \<and> kv_inv c' \<and> same_config c c' \<and> kv_size c' = kv_size c \<and>
     kv_tables c' = kv_effect c op (kv_tables c)"
proof (cases op)
  case KClear
  with kv_clear_spec [OF assms(1)] show ?thesis by simp
next
  case (KSeqRm t p0 p1)
  show ?thesis
  proof (cases "t = -1")
    case True
    with KSeqRm kv_seq_rm_all [OF assms(1), of p0 p1] show ?thesis by auto
  next
    case False
    then have "valid_seq c t" "t \<ge> 0" using assms(2) KSeqRm by (auto simp: valid_seq_def)
    with KSeqRm kv_seq_rm_one [OF assms(1), of t p0 p1] show ?thesis by auto
  qed
next
  case (KSeqCp src dst p0 p1)
  then have v: "valid_seq c src" "valid_seq c dst" using assms(2) by auto
  show ?thesis
  proof (cases "strm c src = strm c dst")
    case True
    with KSeqCp assms(2) kv_seq_cp_same [OF assms(1) v True, of p0 p1] show ?thesis by (auto simp: list_all_iff)
  next
    case False
    then have "src \<noteq> dst" by auto
    with False KSeqCp assms(2) kv_seq_cp_cross [OF assms(1) v False, of p0 p1] show ?thesis by (auto simp: list_all_iff)
  qed
next
  case (KSeqKeep t)
  with assms(2) kv_seq_keep_spec [OF assms(1), of t] show ?thesis by auto
next
  case (KSeqAdd t p0 p1 d)
  with assms(2) kv_seq_add_spec [OF assms(1), of t p0 p1 d] show ?thesis by (auto simp: list_all_iff)
next
  case (KSeqDiv t p0 p1 d)
  with assms(2) kv_seq_div_spec [OF assms(1), of t d p0 p1] show ?thesis by (auto simp: list_all_iff)
next
  case KShift
  have "kv_update True sc_none SHIFT_DONE c =
      Some (h_rope_type (k_hparams c) \<noteq> ROPE_NONE, c\<lparr>k_v_cells := map reset_shift (k_v_cells c)\<rparr>)"
    by (simp add: kv_update_def sc_empty_def sc_none_def get_can_shift_def Let_def)
  moreover have "same_config c (c\<lparr>k_v_cells := x\<rparr>)" for x by (simp add: same_config_def)
  ultimately show ?thesis using KShift kv_reset_shift [OF assms(1)] by simp
qed

text \<open>
  C12 (refinement): any sequence of the sequence operations of the KV cache (\<open>clear\<close>, \<open>seq_rm\<close>,
  \<open>seq_cp\<close>, \<open>seq_keep\<close>, \<open>seq_add\<close>, \<open>seq_div\<close> and the reset after a K-shift) whose preconditions hold
  runs to completion without a failed assertion, keeps the invariant of the cache and has exactly the
  effect of the table operations: which cells are freed, renumbered, shared or copied is given cell by
  cell, and every other stream stays as it was.
\<close>

theorem kv_ops_refine_tables:
  assumes "kv_inv c" "kv_pres c (kv_size c) ops (kv_tables c)"
  shows "\<exists>c'. foldo kv_run ops c = Some c' \<and> kv_inv c' \<and> kv_tables c' = fold (kv_effect c) ops (kv_tables c)"
  using assms
proof (induction ops arbitrary: c)
  case (Cons op ops)
  from kv_run_refines [OF Cons.prems(1)] Cons.prems(2) obtain c1 where
    c1: "kv_run op c = Some c1" "kv_inv c1" "same_config c c1" "kv_size c1 = kv_size c" "kv_tables c1 = kv_effect c op (kv_tables c)"
    by auto
  have "kv_pres c1 (kv_size c1) ops (kv_tables c1)" using Cons.prems(2) c1(3-5) by (simp add: kv_pres_cong)
  from Cons.IH [OF c1(2) this] obtain c' where
    c': "foldo kv_run ops c1 = Some c'" "kv_inv c'" "kv_tables c' = fold (kv_effect c1) ops (kv_tables c1)" by blast
  have "kv_effect c1 = kv_effect c" using kv_effect_cong [OF c1(3)] by (intro ext)
  with c' c1 show ?case by simp
qed simp

text \<open>A unified cache of four cells for two sequences, with position 5 of sequence 0 in cell 1.\<close>

lemma demo_cache_new: "\<exists>c. kv_cache_new demo_hparams False unified 4 2 1 0 SWA_NONE None None = Some c"
  by (simp add: kv_cache_new_def kv_add_layer_def kv_make_layer_def has_kv_def n_embd_k_gqa_def n_embd_v_gqa_def
      n_head_kv_def demo_hparams_def upt_rec [of _ 4] Let_def)

lemma demo_cache:
  obtains c where "kv_inv c" "kv_size c = 4" "k_n_stream c = 1" "valid_seq c 0" "valid_seq c 1" "strm c 0 = 0" "strm c 1 = 0"
    "kv_tables c = [[free_cell, (5, ext_zero, 0, {0}), free_cell, free_cell]]" "k_hparams c = demo_hparams" "k_swa_type c = SWA_NONE" "k_n_pad c = 1"
proof -
  obtain c0 where c0: "kv_cache_new demo_hparams False True 4 2 1 0 SWA_NONE None None = Some c0"
    using demo_cache_new by blast
  note n = kv_cache_new_spec [OF c0]
  have inv: "kv_inv c0" and tab: "kv_tables c0 = [replicate 4 free_cell]" and size: "kv_size c0 = 4" and one: "k_n_stream c0 = 1"
    and v: "valid_seq c0 0" "valid_seq c0 1"
    using n by (simp_all add: LLAMA_MAX_SEQ_def)
  have st: "strm c0 t = 0" if "valid_seq c0 t" for t using kv_inv_seq(2) [OF inv that] one by simp
  note s0 = kv_inv_stream [OF inv, of 0]
  have cl0: "cell_list (k_v_cells c0 ! 0) = [free_cell, free_cell, free_cell, free_cell]"
    using s0(7) one tab by (simp add: numeral_eq_Suc)
  have "ops_pre [OpPosSet 1 5, OpSeqAdd 1 0] (cell_list (k_v_cells c0 ! 0))"
    unfolding cl0 by (simp add: free_cell_def LLAMA_MAX_SEQ_def INT32_MAX_def)
  from cells_runs_refine [OF _ this] s0(3) one obtain cs where cs: "cells_inv cs"
    "cell_list cs = fold table_op [OpPosSet 1 5, OpSeqAdd 1 0] (cell_list (k_v_cells c0 ! 0))" by auto
  then have cl: "cell_list cs = [free_cell, (5, ext_zero, 0, {0}), free_cell, free_cell]"
    unfolding cl0 by (simp add: free_cell_def)
  have ok: "stream_ok c0 (kv_size c0) 0 cs"
  proof -
    have "cells_size cs = 4" using arg_cong [OF cl, of length] by simp
    then show ?thesis using cs(1) cl v st [OF v(1)] by (simp add: stream_ok_def size free_cell_def strm_def)
  qed
  have "0 < k_n_stream c0" using one by simp
  note put = kv_inv_put_cells [OF inv this ok]
  have cfg: "same_config c0 (put_cells 0 cs c0)" by simp
  show thesis
    by (rule that [of "put_cells 0 cs c0"])
      (use put cfg same_config_strm [OF cfg] v st size one tab cl n(4,6,9) in \<open>auto simp: same_config_def LLAMA_MAX_SEQ_def\<close>)
qed

theorem kv_ops_refine_tables_witness:
  "\<exists>c c'. kv_inv c \<and> kv_tables c = [[free_cell, (5, ext_zero, 0, {0}), free_cell, free_cell]] \<and>
     foldo kv_run [KSeqCp 0 1 (-1) (-1), KSeqRm 0 0 (-1), KSeqAdd 1 0 10 2, KSeqKeep 1] c = Some c' \<and> kv_inv c' \<and>
     kv_tables c' = [[free_cell, (7, ext_zero, 2, {1}), free_cell, free_cell]]"
proof -
  obtain c where c: "kv_inv c" "kv_size c = 4" "valid_seq c 0" "valid_seq c 1" "strm c 0 = 0" "strm c 1 = 0"
    "kv_tables c = [[free_cell, (5, ext_zero, 0, {0}), free_cell, free_cell]]" "k_hparams c = demo_hparams" by (rule demo_cache)
  let ?ops = "[KSeqCp 0 1 (-1) (-1), KSeqRm 0 0 (-1), KSeqAdd 1 0 10 2, KSeqKeep 1]"
  have e: "insert (1::int) {0} \<noteq> {0}" "insert (1::int) {0} - {0} = {1}" by auto
  have "kv_pres c (kv_size c) ?ops (kv_tables c)"
    using c(3-8) by (auto simp: range_lo_def range_hi_def in_range_def free_cell_def seq_ok_def LLAMA_MAX_SEQ_def i32_defs e
        n_pos_per_embd_def demo_hparams_def)
  moreover have "fold (kv_effect c) ?ops (kv_tables c) = [[free_cell, (7, ext_zero, 2, {1}), free_cell, free_cell]]"
    using c(3-7) by (auto simp: range_lo_def range_hi_def in_range_def free_cell_def INT32_MAX_def e)
  ultimately have "\<exists>c'. foldo kv_run ?ops c = Some c' \<and> kv_inv c' \<and>
      kv_tables c' = [[free_cell, (7, ext_zero, 2, {1}), free_cell, free_cell]]"
    using kv_ops_refine_tables [OF c(1), of ?ops] by presburger
  with c(1,7) show ?thesis by blast
qed

text \<open>
  A freshly constructed cache satisfies the invariant: every stream has \<open>kv_size\<close> free
  cells, every search head is 0 and every sequence below \<open>n_seq_max\<close> has a stream.
\<close>

theorem kv_cache_new_ok:
  assumes "kv_cache_new h v_trans unified n n_seq_max n_pad n_swa swa_type flt reuse = Some c"
    and "unified \<or> 0 < n_seq_max" "int n_seq_max \<le> LLAMA_MAX_SEQ"
  shows "kv_inv c \<and> kv_tables c = replicate (if unified then 1 else n_seq_max) (replicate n free_cell) \<and>
     (\<forall>t. 0 \<le> t \<and> t < int n_seq_max \<longrightarrow> valid_seq c t)"
  using kv_cache_new_spec [OF assms] by simp

theorem kv_cache_new_ok_witness:
  "\<exists>c. kv_cache_new demo_hparams False False 4 2 1 0 SWA_NONE None None = Some c \<and> kv_inv c \<and>
     kv_tables c = [replicate 4 free_cell, replicate 4 free_cell]"
proof -
  obtain c where c: "kv_cache_new demo_hparams False False 4 2 1 0 SWA_NONE None None = Some c"
    using demo_cache_new by blast
  from kv_cache_new_ok [OF c] c show ?thesis by (simp add: LLAMA_MAX_SEQ_def numeral_2_eq_2)
qed

end
