(* ===== verification/Kv_Slot.thy ===== *)
theory Kv_Slot
  imports Kv_Ops
begin

text \<open>
  \<open>find_slot\<close>: the search for cells is a ring search that starts at the head of the stream. It always
  ends, and it finds the first usable cells in ring order exactly when there are enough of them.
\<close>

section \<open>The ring search\<close>

definition ring :: "nat \<Rightarrow> nat \<Rightarrow> nat list" where
  "ring n h = [h..<n] @ [0..<h]"

lemma ring_facts:
  assumes "h \<le> n"
  shows "length (ring n h) = n" "distinct (ring n h)" "set (ring n h) = {..<n}"
    "t < n \<Longrightarrow> ring n h ! t = (if h + t < n then h + t else h + t - n)"
  using assms by (auto simp: ring_def nth_append)

text \<open>The search with single-cell tests: \<open>t\<close> cells have been tested, the head may have wrapped.\<close>

lemma slot_loop_ring:
  assumes use: "\<And>i. i < n \<Longrightarrow> can_use i = Some (u i)" and n: "n < 2147483648" "h \<le> n" "n_tokens \<le> n"
    and t: "t < n" and head: "h + t \<le> n \<and> head = h + t \<or> n \<le> h + t \<and> head = h + t - n"
    and idxs: "idxs = filter u (take t (ring n h))" "length idxs < n_tokens"
    and fuel: "n - t + (if head = h + t then 1 else 0) < k"
  shows "slot_loop can_use False n n_tokens k head t idxs =
     Some (if n_tokens \<le> length (filter u (ring n h)) then Some (take n_tokens (filter u (ring n h))) else None)"
  using t head idxs fuel
proof (induction k arbitrary: t head idxs)
  case (Suc k)
  note r = ring_facts [OF n(2)]
  let ?goal = "Some (if n_tokens \<le> length (filter u (ring n h)) then Some (take n_tokens (filter u (ring n h))) else None)"
  show ?case
  proof (cases "head = n")
    case True
    have wrap: "u32 (t + sub_u32 n head) = t" "u32 (head + 1) > n" using True Suc.prems(1) n(1) by (simp_all add: sub_u32_def u32_def)
    have "h + t = n" using True Suc.prems(1,2) n(2) by auto
    then have "h + t \<le> n \<and> 0 = h + t \<or> n \<le> h + t \<and> 0 = h + t - n" "n - t + (if 0 = h + t then 1 else 0) < k"
      using Suc.prems(1,5) True by auto
    from Suc.IH [OF Suc.prems(1) this(1) Suc.prems(3,4) this(2)]
    have "slot_loop can_use False n n_tokens k 0 t idxs = ?goal" .
    then show ?thesis using wrap by simp
  next
    case False
    have lt: "head < n" and ht: "ring n h ! t = head" using False Suc.prems(1,2) n(2) r(4) [OF Suc.prems(1)] by auto
    then have no_wrap: "\<not> u32 (head + 1) > n" "u32 (head + 1) = Suc head" "u32 (t + 1) = Suc t"
      using Suc.prems(1) n(1) by (simp_all add: u32_def)
    let ?idxs = "filter u (take (Suc t) (ring n h))"
    have take: "take (Suc t) (ring n h) = take t (ring n h) @ [head]"
      using Suc.prems(1) r(1) ht by (simp add: take_Suc_conv_app_nth)
    then have next': "(if u head then idxs @ [head] else idxs) = ?idxs" using Suc.prems(3) by simp
    have test: "test_cells can_use False 1 head t idxs = Some (Suc head, Suc t, ?idxs)"
    proof (cases "u head")
      case True
      then show ?thesis using use [OF lt] no_wrap next' by (simp only: One_nat_def test_cells.simps bind.bind_lunit if_True)
    next
      case False
      then show ?thesis using use [OF lt] no_wrap next' by (simp only: One_nat_def test_cells.simps bind.bind_lunit if_False)
    qed
    have split: "filter u (ring n h) = ?idxs @ filter u (drop (Suc t) (ring n h))"
      by (metis append_take_drop_id filter_append)
    have len: "length ?idxs \<le> n_tokens" using Suc.prems(3,4) by (simp add: take)
    show ?thesis
    proof (cases "length ?idxs = n_tokens")
      case True
      then have "n_tokens \<le> length (filter u (ring n h))" "take n_tokens (filter u (ring n h)) = ?idxs"
        unfolding split by (simp_all add: take_append [of _ ?idxs])
      then show ?thesis using True no_wrap test by simp
    next
      case more: False
      show ?thesis
      proof (cases "Suc t \<ge> n")
        case True
        then have "?idxs = filter u (ring n h)" using r(1) by simp
        then have "\<not> n_tokens \<le> length (filter u (ring n h))" using more len by simp
        then show ?thesis using True more no_wrap test \<open>?idxs = filter u (ring n h)\<close> by simp
      next
        case False
        then have "Suc t < n" "h + Suc t \<le> n \<and> Suc head = h + Suc t \<or> n \<le> h + Suc t \<and> Suc head = h + Suc t - n"
            "length ?idxs < n_tokens" "n - Suc t + (if Suc head = h + Suc t then 1 else 0) < k"
          using Suc.prems(1,2,5) more len lt by auto
        from Suc.IH [OF this(1,2) refl this(3,4)]
        have "slot_loop can_use False n n_tokens k (Suc head) (Suc t) ?idxs = ?goal" .
        then show ?thesis using False more no_wrap test by simp
      qed
    qed
  qed
qed simp

lemma slot_loop_search:
  assumes "\<And>i. i < n \<Longrightarrow> can_use i = Some (u i)" "n < 2147483648" "h \<le> n" "0 < n_tokens" "n_tokens \<le> n"
  shows "slot_loop can_use False n n_tokens (slot_fuel n) h 0 [] =
     Some (if n_tokens \<le> length (filter u (ring n h)) then Some (take n_tokens (filter u (ring n h))) else None)"
  by (rule slot_loop_ring [OF assms(1-3,5)]) (use assms in \<open>auto simp: slot_fuel_def\<close>)

section \<open>Usable cells\<close>

definition usable :: "kv_cache \<Rightarrow> kv_cells \<Rightarrow> nat \<Rightarrow> bool" where
  "usable c cells i \<longleftrightarrow> c_pos cells ! i = -1 \<or>
     (\<exists>t. c_seq cells ! i = {t} \<and> kv_is_masked_swa c (c_pos cells ! i) (Max (seq_positions cells t) + 1) = Some True)"

text \<open>Positions below the largest integer, and a chunk size where the window is chunked.\<close>

definition cells_below :: "kv_cells \<Rightarrow> bool" where
  "cells_below cells \<longleftrightarrow> (\<forall>i < cells_size cells. c_pos cells ! i < INT32_MAX)"

definition swa_ok :: "kv_cache \<Rightarrow> bool" where
  "swa_ok c \<longleftrightarrow> (k_swa_type c = SWA_CHUNKED \<longrightarrow> k_n_swa c \<noteq> 0)"

lemma can_use_cell_eq:
  assumes "cells_inv cells" "cells_below cells" "swa_ok c" "i < cells_size cells"
  shows "can_use_cell c cells i = Some (usable c cells i)"
proof (cases "c_pos cells ! i = -1")
  case True
  then show ?thesis using assms by (simp add: can_use_cell_def is_empty_eq usable_def)
next
  case False
  show ?thesis
  proof (cases "card (c_seq cells ! i) = 1")
    case True
    then obtain t where t: "c_seq cells ! i = {t}" by (auto simp: card_1_singleton_iff)
    have range: "0 \<le> t" "t < LLAMA_MAX_SEQ" using cells_inv_seq [OF assms(1,4)] t by auto
    have mem: "c_pos cells ! i \<in> seq_positions cells t" using assms(4) t by (auto simp: seq_positions_def)
    have ne: "seq_positions cells t \<noteq> {}" using mem by auto
    have mx: "Max (seq_positions cells t) \<in> seq_positions cells t" using Max_in [OF seq_positions_finite ne] .
    then have lt: "Max (seq_positions cells t) < INT32_MAX" using assms(2) by (auto simp: seq_positions_def cells_below_def)
    have ge: "c_pos cells ! i \<le> Max (seq_positions cells t)" using Max_ge [OF seq_positions_finite mem] .
    have p: "0 \<le> c_pos cells ! i" using cells_inv_pos [OF assms(1,4)] False by simp
    have i32: "is_i32 (Max (seq_positions cells t) + 1)" using lt ge p by (simp add: i32_defs)
    obtain b where b: "kv_is_masked_swa c (c_pos cells ! i) (Max (seq_positions cells t) + 1) = Some b"
      using is_masked_swa_total [of "c_pos cells ! i" "Max (seq_positions cells t) + 1" "k_swa_type c" "k_n_swa c"]
        p ge assms(3) by (auto simp: kv_is_masked_swa_def swa_ok_def)
    then have "usable c cells i = b" using False t by (simp add: usable_def)
    then show ?thesis
      using False True assms(1,4) t range ne i32 b
      by (simp add: can_use_cell_def is_empty_eq seq_count_eq pos_get_eq seq_get_eq cells_seq_pos_max_eq)
  next
    case no: False
    then have "\<not> usable c cells i" using False by (auto simp: usable_def)
    then show ?thesis using no False assms(1,4) by (simp add: can_use_cell_def is_empty_eq seq_count_eq)
  qed
qed

text \<open>Without a sliding window a usable cell is an empty one.\<close>

lemma usable_no_swa: "k_swa_type c = SWA_NONE \<Longrightarrow> usable c cells i \<longleftrightarrow> c_pos cells ! i = -1"
  using is_masked_swa_none by (auto simp: usable_def kv_is_masked_swa_def)

section \<open>Finding a slot\<close>

definition start_head :: "kv_cells \<Rightarrow> nat \<Rightarrow> nat \<Rightarrow> nat" where
  "start_head cells n_tokens head = (if head > u32 (get_used cells + u32 (2 * n_tokens)) then 0 else head)"

text \<open>The cells the search offers, in ring order.\<close>

definition offers :: "kv_cache \<Rightarrow> nat \<Rightarrow> nat \<Rightarrow> nat list" where
  "offers c n_tokens s = filter (usable c (k_v_cells c ! s))
     (ring (kv_size c) (start_head (k_v_cells c ! s) n_tokens (k_v_heads c ! s)))"

lemma offers_facts:
  assumes "kv_inv c" "s < k_n_stream c"
  shows "distinct (offers c n s)" "\<forall>i \<in> set (offers c n s). i < kv_size c \<and> usable c (k_v_cells c ! s) i"
    "set (offers c n s) = {i. i < kv_size c \<and> usable c (k_v_cells c ! s) i}"
proof -
  have "start_head (k_v_cells c ! s) n (k_v_heads c ! s) \<le> kv_size c"
    using kv_inv_stream(6) [OF assms] by (simp add: start_head_def)
  from ring_facts [OF this] show "distinct (offers c n s)"
    "\<forall>i \<in> set (offers c n s). i < kv_size c \<and> usable c (k_v_cells c ! s) i"
    "set (offers c n s) = {i. i < kv_size c \<and> usable c (k_v_cells c ! s) i}"
    by (auto simp: offers_def)
qed

definition searchable :: "kv_cache \<Rightarrow> bool" where
  "searchable c \<longleftrightarrow> swa_ok c \<and> kv_size c < 2147483648 \<and> (\<forall>cells \<in> set (k_v_cells c). cells_below cells)"

text \<open>What the splitters guarantee of a micro-batch: which sequences it has and where they start.\<close>

definition ubatch_seqs_ok :: "kv_cache \<Rightarrow> llama_ubatch \<Rightarrow> nat \<Rightarrow> nat \<Rightarrow> bool" where
  "ubatch_seqs_ok c u m n \<longleftrightarrow> 0 < n \<and> 0 < m \<and> m \<le> length (u_seq_id_unq u) \<and>
     (if k_n_stream c > 1 then m = u_n_seqs_unq u \<and> u_n_tokens u = m * n else m = 1 \<and> n = u_n_tokens u) \<and>
     (\<forall>s < m. valid_seq c (u_seq_id_unq u ! s) \<and>
        (k_n_stream c > 1 \<longrightarrow> s * n < length (u_n_seq_id u) \<and> s * n < length (u_seq_id u) \<and>
           u_n_seq_id u ! (s * n) = 1 \<and> u_seq_id u ! (s * n) = [u_seq_id_unq u ! s]))"

lemma find_slot_seq_eq:
  assumes inv: "kv_inv c" and srch: "searchable c" and ok: "ubatch_seqs_ok c u m n" and s: "s < m"
  shows "find_slot_seq u False n c s res =
     (let t = strm c (u_seq_id_unq u ! s); cand = offers c n t in
      Some (if n \<le> length cand
        then Some (res\<lparr>si_s0 := min (si_s0 res) t, si_s1 := max (si_s1 res) t,
               si_strm := si_strm res @ [t], si_idxs := si_idxs res @ [take n cand]\<rparr>)
        else None))"
proof -
  let ?t = "strm c (u_seq_id_unq u ! s)"
  have v: "valid_seq c (u_seq_id_unq u ! s)" using ok s by (simp add: ubatch_seqs_ok_def)
  note q = kv_inv_seq [OF inv v] note st = kv_inv_stream [OF inv q(2)]
  let ?cells = "k_v_cells c ! ?t"
  let ?h = "start_head ?cells n (k_v_heads c ! ?t)"
  have h: "?h \<le> kv_size c" using st(6) by (simp add: start_head_def)
  have below: "cells_below ?cells" "swa_ok c" "kv_size c < 2147483648" using srch st(1) by (auto simp: searchable_def)
  have n: "0 < n" using ok by (simp add: ubatch_seqs_ok_def)
  have unq: "s < length (u_seq_id_unq u)" using ok s by (simp add: ubatch_seqs_ok_def)
  have chk: "(if k_n_stream c > 1
      then do { k \<leftarrow> nth_opt (u_n_seq_id u) (s * n); ensure (k = 1); ids \<leftarrow> nth_opt (u_seq_id u) (s * n);
        id0 \<leftarrow> nth_opt ids 0; ensure (id0 = u_seq_id_unq u ! s) } else Some ()) = Some ()"
    using ok s by (auto simp: ubatch_seqs_ok_def)
  have loop: "slot_loop (can_use_cell c ?cells) False (kv_size c) n (slot_fuel (kv_size c)) ?h 0 [] =
      Some (if n \<le> length (offers c n ?t) then Some (take n (offers c n ?t)) else None)" if "n \<le> kv_size c"
    unfolding offers_def
    by (rule slot_loop_search) (use below h n that can_use_cell_eq [OF st(3) below(1,2)] st(4) in auto)
  show ?thesis
  proof (cases "n > kv_size c")
    case True
    have "length (offers c n ?t) \<le> kv_size c"
      using ring_facts(1) [OF h] length_filter_le [of "usable c ?cells"] by (metis offers_def)
    with True show ?thesis using unq q(1) st(1,2,4) chk by (simp add: find_slot_seq_def Let_def)
  next
    case False
    then show ?thesis using unq q(1) st(1,2,4) loop chk
      by (simp add: find_slot_seq_def Let_def start_head_def [symmetric])
  qed
qed

text \<open>
  The whole search: it succeeds exactly when every sequence of the micro-batch finds enough usable
  cells in its stream, and then returns the first of them.
\<close>

definition slot_for :: "kv_cache \<Rightarrow> llama_ubatch \<Rightarrow> nat \<Rightarrow> nat \<Rightarrow> slot_info" where
  "slot_for c u m n = (let ts = map (\<lambda>s. strm c (u_seq_id_unq u ! s)) [0..<m] in
     \<lparr>si_s0 = fold min ts (nat LLAMA_MAX_SEQ), si_s1 = fold max ts 0, si_strm = ts,
      si_idxs = map (\<lambda>t. take n (offers c n t)) ts\<rparr>)"

lemma find_slot_loop:
  assumes "kv_inv c" "searchable c" "ubatch_seqs_ok c u m n" "k \<le> m"
  shows "foldo (\<lambda>s r. case r of None \<Rightarrow> Some None | Some res \<Rightarrow> find_slot_seq u False n c s res) [0..<k]
       (Some \<lparr>si_s0 = nat LLAMA_MAX_SEQ, si_s1 = 0, si_strm = [], si_idxs = []\<rparr>) =
     Some (if \<forall>s < k. n \<le> length (offers c n (strm c (u_seq_id_unq u ! s))) then Some (slot_for c u k n) else None)"
  using assms(4)
proof (induction k)
  case 0
  then show ?case by (simp add: slot_for_def)
next
  case (Suc k)
  have step: "find_slot_seq u False n c k (slot_for c u k n) =
     Some (if n \<le> length (offers c n (strm c (u_seq_id_unq u ! k))) then Some (slot_for c u (Suc k) n) else None)"
    using find_slot_seq_eq [OF assms(1-3), of k "slot_for c u k n"] Suc.prems
    by (simp add: Let_def slot_for_def max.commute min.commute)
  show ?case
  proof (cases "\<forall>s < k. n \<le> length (offers c n (strm c (u_seq_id_unq u ! s)))")
    case True
    then show ?thesis using Suc step by (auto simp: foldo_append less_Suc_eq)
  next
    case False
    then show ?thesis using Suc by (auto simp: foldo_append less_Suc_eq)
  qed
qed

lemma fold_min_le: "fold min ts (b :: nat) \<le> b"
proof (induction ts arbitrary: b)
  case (Cons t ts)
  from Cons.IH [of "min t b"] show ?case by simp
qed simp

lemma fold_max_ge: "b \<le> fold max ts (b :: nat)"
proof (induction ts arbitrary: b)
  case (Cons t ts)
  from Cons.IH [of "max t b"] show ?case by simp
qed simp

lemma fold_min_max:
  assumes "t \<in> set ts"
  shows "fold min ts (b :: nat) \<le> t" "t \<le> fold max ts (b :: nat)"
proof -
  obtain xs ys where ts: "ts = xs @ t # ys" using assms by (meson split_list)
  show "fold min ts b \<le> t" using fold_min_le [of ys "min t (fold min xs b)"] by (simp add: ts)
  show "t \<le> fold max ts b" using fold_max_ge [of "max t (fold max xs b)" ys] by (simp add: ts)
qed

lemma slot_for_range:
  assumes "0 < m"
  shows "si_s0 (slot_for c u m n) \<le> si_s1 (slot_for c u m n)"
proof -
  let ?t = "strm c (u_seq_id_unq u ! 0)" and ?ts = "map (\<lambda>s. strm c (u_seq_id_unq u ! s)) [0..<m]"
  have "?t \<in> set ?ts" using assms by auto
  from order_trans [OF fold_min_max(1) [OF this] fold_min_max(2) [OF this]]
  show ?thesis by (simp add: slot_for_def Let_def)
qed

lemma find_slot_eq:
  assumes "kv_inv c" "searchable c" "ubatch_seqs_ok c u m n"
  shows "find_slot u False c =
     Some (if \<forall>s < m. n \<le> length (offers c n (strm c (u_seq_id_unq u ! s))) then slot_for c u m n else slot_none)"
proof -
  have mn: "(if k_n_stream c > 1
      then do { ensure (u_n_seqs_unq u \<noteq> 0 \<and> u_n_tokens u mod u_n_seqs_unq u = 0);
        Some (u_n_seqs_unq u, u_n_tokens u div u_n_seqs_unq u) }
      else Some (1, u_n_tokens u)) = Some (m, n)" and m: "0 < m"
    using assms(3) by (auto simp: ubatch_seqs_ok_def)
  show ?thesis
    unfolding find_slot_def mn using find_slot_loop [OF assms order_refl] slot_for_range [OF m]
    by (cases "\<forall>s < m. n \<le> length (offers c n (strm c (u_seq_id_unq u ! s)))") (simp, simp only: if_False, simp)
qed

lemma cells_below_iff: "cells_below cells \<longleftrightarrow> (\<forall>x \<in> set (cell_list cells). fst x < INT32_MAX)"
  by (auto simp: cells_below_def cell_list_def cell_def)

lemma searchable_iff:
  "searchable c \<longleftrightarrow> swa_ok c \<and> kv_size c < 2147483648 \<and> (\<forall>tab \<in> set (kv_tables c). \<forall>x \<in> set tab. fst x < INT32_MAX)"
  by (simp add: searchable_def cells_below_iff kv_tables_def)

text \<open>The cells of a stream that may take a token.\<close>

definition usable_cells :: "kv_cache \<Rightarrow> nat \<Rightarrow> nat set" where
  "usable_cells c t = {i. i < kv_size c \<and> usable c (k_v_cells c ! t) i}"

lemma offers_card:
  assumes "kv_inv c" "t < k_n_stream c"
  shows "length (offers c n t) = card (usable_cells c t)"
  using offers_facts [OF assms] distinct_card unfolding usable_cells_def by metis

lemma find_slot_cases:
  assumes "kv_inv c" "searchable c" "ubatch_seqs_ok c u m n"
  shows "find_slot u False c = Some (if \<forall>s < m. n \<le> card (usable_cells c (strm c (u_seq_id_unq u ! s)))
     then slot_for c u m n else slot_none)"
proof -
  have "strm c (u_seq_id_unq u ! s) < k_n_stream c" if "s < m" for s
    using kv_inv_seq(2) [OF assms(1)] assms(3) that by (simp add: ubatch_seqs_ok_def)
  then have "(\<forall>s < m. n \<le> length (offers c n (strm c (u_seq_id_unq u ! s)))) \<longleftrightarrow>
      (\<forall>s < m. n \<le> card (usable_cells c (strm c (u_seq_id_unq u ! s))))"
    using offers_card [OF assms(1)] by auto
  then show ?thesis using find_slot_eq [OF assms] by simp
qed

text \<open>A slot for \<open>m\<close> sequences with \<open>n\<close> tokens each: distinct usable cells in the streams of the sequences.\<close>

definition slot_ok :: "kv_cache \<Rightarrow> llama_ubatch \<Rightarrow> nat \<Rightarrow> nat \<Rightarrow> slot_info \<Rightarrow> bool" where
  "slot_ok c u m n si \<longleftrightarrow> si_strm si = map (\<lambda>s. strm c (u_seq_id_unq u ! s)) [0..<m] \<and> length (si_idxs si) = m \<and>
     (\<forall>s < m. length (si_idxs si ! s) = n \<and> distinct (si_idxs si ! s) \<and>
        set (si_idxs si ! s) \<subseteq> usable_cells c (si_strm si ! s)) \<and>
     si_s0 si \<le> si_s1 si \<and> (\<forall>t \<in> set (si_strm si). si_s0 si \<le> t \<and> t \<le> si_s1 si)"

lemma slot_for_ok:
  assumes "kv_inv c" "ubatch_seqs_ok c u m n" "\<forall>s < m. n \<le> card (usable_cells c (strm c (u_seq_id_unq u ! s)))"
  shows "slot_ok c u m n (slot_for c u m n)"
proof -
  let ?ts = "map (\<lambda>s. strm c (u_seq_id_unq u ! s)) [0..<m]"
  have m: "0 < m" using assms(2) by (simp add: ubatch_seqs_ok_def)
  have lt: "strm c (u_seq_id_unq u ! s) < k_n_stream c" if "s < m" for s
    using kv_inv_seq(2) [OF assms(1)] assms(2) that by (simp add: ubatch_seqs_ok_def)
  have row: "length (take n (offers c n (strm c (u_seq_id_unq u ! s)))) = n"
      "distinct (take n (offers c n (strm c (u_seq_id_unq u ! s))))"
      "set (take n (offers c n (strm c (u_seq_id_unq u ! s)))) \<subseteq> usable_cells c (strm c (u_seq_id_unq u ! s))" if "s < m" for s
    using offers_facts(1,3) [OF assms(1) lt [OF that], of n] offers_card [OF assms(1) lt [OF that], of n] assms(3) that
      set_take_subset [of n "offers c n (strm c (u_seq_id_unq u ! s))"]
    by (auto simp: usable_cells_def)
  have "\<forall>t \<in> set ?ts. fold min ?ts (nat LLAMA_MAX_SEQ) \<le> t \<and> t \<le> fold max ?ts 0"
    using fold_min_max by blast
  then show ?thesis using row slot_for_range [OF m, of c u n] by (auto simp: slot_ok_def slot_for_def Let_def)
qed

text \<open>
  C13 (functional): the search for a slot always ends without a failed assertion. It succeeds exactly
  when the stream of every sequence of the micro-batch has enough usable cells (empty ones, and ones
  whose only sequence has moved past them with its attention window), and then returns for every
  sequence as many distinct usable cells of its stream as it has tokens; otherwise it returns the
  empty slot.
\<close>

theorem find_slot_correct:
  assumes "kv_inv c" "searchable c" "ubatch_seqs_ok c u m n"
  shows "\<exists>si. find_slot u False c = Some si \<and>
     (if \<forall>s < m. n \<le> card (usable_cells c (strm c (u_seq_id_unq u ! s))) then slot_ok c u m n si else slot_empty si)"
  using find_slot_cases [OF assms] slot_for_ok [OF assms(1,3)]
  by (cases "\<forall>s < m. n \<le> card (usable_cells c (strm c (u_seq_id_unq u ! s)))")
    (simp, simp only: if_False, simp add: slot_empty_def slot_none_def)

definition demo_ubatch :: llama_ubatch where
  "demo_ubatch = ubatch_none\<lparr>u_n_tokens := 2, u_n_seq_tokens := 1, u_n_seqs := 2, u_n_seqs_unq := 1, u_n_pos := 1,
     u_pos := [6, 7], u_n_seq_id := [1, 1], u_seq_id := [[0], [0]], u_seq_id_unq := [0]\<rparr>"

lemma demo_searchable:
  assumes "kv_size c = 4" "k_swa_type c = SWA_NONE" "kv_tables c = [[free_cell, (5, ext_zero, 0, {0}), free_cell, free_cell]]"
  shows "searchable c"
  using assms by (simp add: searchable_iff swa_ok_def free_cell_def INT32_MAX_def)

lemma demo_usable:
  assumes "kv_inv c" "k_n_stream c = 1" "kv_size c = 4" "k_swa_type c = SWA_NONE"
    "kv_tables c = [[free_cell, (5, ext_zero, 0, {0}), free_cell, free_cell]]"
  shows "usable_cells c 0 = {0, 2, 3}"
proof -
  note st = kv_inv_stream [OF assms(1), of 0]
  have tab: "cell_list (k_v_cells c ! 0) = [free_cell, (5, ext_zero, 0, {0}), free_cell, free_cell]"
    using st(7) assms(2,5) by simp
  have size: "cells_size (k_v_cells c ! 0) = 4" using st(4) assms(2,3) by simp
  have pos: "c_pos (k_v_cells c ! 0) ! i = [-1, 5, -1, -1] ! i" if "i < 4" for i
  proof -
    have "c_pos (k_v_cells c ! 0) ! i = map fst (cell_list (k_v_cells c ! 0)) ! i" using that size by (simp add: cell_def)
    then show ?thesis unfolding tab by (simp add: free_cell_def)
  qed
  have four: "i < 4 \<longleftrightarrow> i = 0 \<or> i = 1 \<or> i = 2 \<or> i = (3 :: nat)" for i by arith
  have "i < 4 \<and> c_pos (k_v_cells c ! 0) ! i = -1 \<longleftrightarrow> i \<in> {0, 2, 3}" for i
    using pos [of i] unfolding four by auto
  then show ?thesis using usable_no_swa [OF assms(4)] by (simp add: usable_cells_def assms(3) set_eq_iff)
qed

theorem find_slot_correct_witness:
  "\<exists>c si. kv_inv c \<and> find_slot demo_ubatch False c = Some si \<and> slot_ok c demo_ubatch 1 2 si"
proof -
  obtain c where c: "kv_inv c" "kv_size c = 4" "k_n_stream c = 1" "valid_seq c 0" "strm c 0 = 0"
    "kv_tables c = [[free_cell, (5, ext_zero, 0, {0}), free_cell, free_cell]]" "k_swa_type c = SWA_NONE" by (rule demo_cache)
  have "ubatch_seqs_ok c demo_ubatch 1 2" using c(3,4) by (simp add: ubatch_seqs_ok_def demo_ubatch_def ubatch_none_def)
  from find_slot_correct [OF c(1) demo_searchable [OF c(2,7,6)] this] demo_usable [OF c(1,3,2,7,6)] c(1,5)
  show ?thesis by (auto simp: demo_ubatch_def)
qed

end
