(* ===== verification/Kv_Apply.thy ===== *)
theory Kv_Apply
  imports Kv_Slot
begin

text \<open>
  \<open>apply_ubatch\<close>: every token of a micro-batch is written to its cell, and sequences whose masked
  cells were overwritten lose every earlier position. Both steps are given on the tables of cells.
\<close>

section \<open>One token\<close>

text \<open>The cell of token \<open>i\<close> of a micro-batch with \<open>n\<close> tokens per stream: its stream and its index.\<close>

definition token_cell :: "slot_info \<Rightarrow> nat \<Rightarrow> nat \<Rightarrow> nat \<times> nat" where
  "token_cell si n i = (si_strm si ! (i div n), si_idxs si ! (i div n) ! (i mod n))"

definition token_seqs :: "llama_ubatch \<Rightarrow> nat \<Rightarrow> int list" where
  "token_seqs u i = take (nat (u_n_seq_id u ! i)) (u_seq_id u ! i)"

definition token_ext :: "llama_ubatch \<Rightarrow> nat \<Rightarrow> kv_cell_ext" where
  "token_ext u i = \<lparr>ext_x = u_pos u ! (i + u_n_tokens u * 2), ext_y = u_pos u ! (i + u_n_tokens u)\<rparr>"

fun placed :: "llama_ubatch \<Rightarrow> nat \<Rightarrow> cell \<Rightarrow> cell" where
  "placed u i (p, e, h, b) =
     (u_pos u ! i, if is_pos_2d u then token_ext u i else if p = -1 then e else ext_zero, 0, set (token_seqs u i))"

text \<open>The data of a token: a position, and one or more sequences that are kept in stream \<open>s\<close>.\<close>

definition token_ok :: "kv_cache \<Rightarrow> llama_ubatch \<Rightarrow> nat \<Rightarrow> nat \<Rightarrow> bool" where
  "token_ok c u i s \<longleftrightarrow> i < length (u_pos u) \<and> 0 \<le> u_pos u ! i \<and> u_pos u ! i < INT32_MAX \<and>
     (is_pos_2d u \<longrightarrow> i + u_n_tokens u * 2 < length (u_pos u)) \<and>
     i < length (u_n_seq_id u) \<and> i < length (u_seq_id u) \<and> nat (u_n_seq_id u ! i) \<le> length (u_seq_id u ! i) \<and>
     token_seqs u i \<noteq> [] \<and> distinct (token_seqs u i) \<and>
     (\<forall>t \<in> set (token_seqs u i). valid_seq c t \<and> strm c t = s)"

text \<open>A cell that may be overwritten: a free one, or one with a single sequence.\<close>

fun cell_takes :: "cell \<Rightarrow> bool" where
  "cell_takes (p, e, h, b) \<longleftrightarrow> p = -1 \<or> (p < INT32_MAX \<and> card b = 1)"

definition token_ops :: "llama_ubatch \<Rightarrow> nat \<Rightarrow> nat \<Rightarrow> bool \<Rightarrow> cells_op list" where
  "token_ops u i idx used = (if used then [OpRm idx] else []) @ [OpPosSet idx (u_pos u ! i)] @
     (if is_pos_2d u then [OpExtSet idx (token_ext u i)] else []) @ map (OpSeqAdd idx) (token_seqs u i)"

lemma seq_adds:
  assumes "i < length tab" "tab ! i = (p, e, h, b)" "p \<noteq> -1" "distinct ids" "set ids \<inter> b = {}" "\<forall>t \<in> set ids. seq_ok t"
  shows "ops_pre (map (OpSeqAdd i) ids) tab \<and> fold table_op (map (OpSeqAdd i) ids) tab = tab[i := (p, e, h, b \<union> set ids)]"
  using assms
proof (induction ids arbitrary: tab b)
  case Nil
  then show ?case using list_update_id [of tab i] by simp
next
  case (Cons t ids)
  let ?tab = "tab[i := (p, e, h, insert t b)]"
  have "ops_pre (map (OpSeqAdd i) ids) ?tab \<and> fold table_op (map (OpSeqAdd i) ids) ?tab = ?tab[i := (p, e, h, insert t b \<union> set ids)]"
    using Cons.prems by (intro Cons.IH) auto
  then show ?case using Cons.prems by (simp add: seq_ok_def)
qed

lemma token_ops_effect:
  assumes "idx < length tab" "tab ! idx = x" "fst x \<noteq> -1 \<longleftrightarrow> used" "token_ok c u i s" "kv_inv c"
  shows "ops_pre (token_ops u i idx used) tab \<and> fold table_op (token_ops u i idx used) tab = tab[idx := placed u i x]"
proof -
  obtain p e h b where x: "x = (p, e, h, b)" by (cases x)
  have seqs: "\<forall>t \<in> set (token_seqs u i). seq_ok t" using assms(4) kv_inv_seq(3) [OF assms(5)] by (auto simp: token_ok_def)
  let ?e = "if is_pos_2d u then token_ext u i else if p = -1 then e else ext_zero"
  let ?tab = "tab[idx := (u_pos u ! i, ?e, 0, {})]"
  have pos: "0 \<le> u_pos u ! i" "u_pos u ! i \<le> INT32_MAX" using assms(4) by (auto simp: token_ok_def)
  have adds: "ops_pre (map (OpSeqAdd idx) (token_seqs u i)) ?tab"
      "fold table_op (map (OpSeqAdd idx) (token_seqs u i)) ?tab = ?tab[idx := (u_pos u ! i, ?e, 0, {} \<union> set (token_seqs u i))]"
    using seq_adds [of idx ?tab "u_pos u ! i" ?e 0 "{}" "token_seqs u i"] assms(1,4) seqs pos by (auto simp: token_ok_def)
  show ?thesis
  proof (cases used)
    case True
    then show ?thesis using assms(1-3) x pos adds by (cases "is_pos_2d u") (simp_all add: token_ops_def free_cell_def)
  next
    case False
    then show ?thesis using assms(1-3) x pos adds by (cases "is_pos_2d u") (simp_all add: token_ops_def free_cell_def)
  qed
qed

text \<open>None of these operations touches the flag of pending shifts.\<close>

fun placing :: "cells_op \<Rightarrow> bool" where
  "placing (OpRm i) \<longleftrightarrow> True"
| "placing (OpPosSet i p) \<longleftrightarrow> True"
| "placing (OpExtSet i e) \<longleftrightarrow> True"
| "placing (OpSeqAdd i s) \<longleftrightarrow> True"
| "placing _ \<longleftrightarrow> False"

lemma placing_shift:
  assumes "cells_inv c" "op_pre op (cell_list c)" "placing op" "cells_run op c = Some c'"
  shows "c_has_shift c' = c_has_shift c"
proof (cases op)
  case (OpRm i)
  with assms(2) have pre: "i < cells_size c" "c_pos c ! i \<noteq> -1" by (auto simp: cell_def)
  show ?thesis by (rule cells_rm_spec [OF assms(1) pre]) (use OpRm assms(4) in simp)
next
  case (OpSeqAdd i s)
  with assms(2) have pre: "i < cells_size c" "c_pos c ! i \<noteq> -1" "0 \<le> s" "s < LLAMA_MAX_SEQ" "s \<notin> c_seq c ! i"
    by (auto simp: cell_def)
  show ?thesis by (rule cells_seq_add_spec [OF assms(1) pre]) (use OpSeqAdd assms(4) in simp)
next
  case (OpPosSet i p)
  with assms(2) have pre: "i < cells_size c" "c_pos c ! i = -1" "0 \<le> p" "p \<le> INT32_MAX" by (auto simp: cell_def)
  show ?thesis by (rule pos_set_spec [OF assms(1) pre]) (use OpPosSet assms(4) in simp)
next
  case (OpExtSet i e)
  with assms(2) have pre: "i < cells_size c" by simp
  show ?thesis by (rule ext_set_spec [OF assms(1) pre, of e]) (use OpExtSet assms(4) in simp)
qed (use assms(3) in simp_all)

lemma placing_runs:
  assumes "cells_inv c" "ops_pre ops (cell_list c)" "list_all placing ops"
  shows "\<exists>c'. foldo cells_run ops c = Some c' \<and> cells_inv c' \<and> cell_list c' = fold table_op ops (cell_list c) \<and>
     c_has_shift c' = c_has_shift c"
  using assms
proof (induction ops arbitrary: c)
  case (Cons op ops)
  then have pre: "op_pre op (cell_list c)" and pl: "placing op" by simp_all
  from cells_run_refines [OF Cons.prems(1) pre] obtain c1
    where c1: "cells_run op c = Some c1" "cells_inv c1" "cell_list c1 = table_op op (cell_list c)" by blast
  with Cons.IH [of c1] Cons.prems placing_shift [OF Cons.prems(1) pre pl c1(1)] show ?case by simp
qed simp

lemma foldo_seq_adds: "foldo cells_run (map (OpSeqAdd i) ids) c = foldo (cells_seq_add i) ids c"
  by (induction ids arbitrary: c) (auto split: Option.bind_splits)

text \<open>The greatest overwritten position of a sequence.\<close>

fun overwrite :: "cell \<Rightarrow> (int \<Rightarrow> int) \<Rightarrow> int \<Rightarrow> int" where
  "overwrite (p, e, h, b) rm = (if p = -1 then rm else rm(the_elem b := max (rm (the_elem b)) p))"

text \<open>What placing tokens leaves alone: everything but the cells.\<close>

definition same_frame :: "kv_cache \<Rightarrow> kv_cache \<Rightarrow> bool" where
  "same_frame c c' \<longleftrightarrow> same_config c c' \<and> k_sc_info c' = k_sc_info c \<and> k_v_heads c' = k_v_heads c \<and> kv_size c' = kv_size c \<and>
     map c_has_shift (k_v_cells c') = map c_has_shift (k_v_cells c)"

lemma same_frame_refl [simp]: "same_frame c c"
  by (simp add: same_frame_def)

lemma same_frame_trans: "same_frame a b \<Longrightarrow> same_frame b c \<Longrightarrow> same_frame a c"
  using same_config_trans by (auto simp: same_frame_def)

lemma token_ok_cong: "same_config c c' \<Longrightarrow> token_ok c' u i s = token_ok c u i s"
  using same_config_strm [of c c'] by (simp add: token_ok_def)

lemma placed_good: "token_ok c u i s \<Longrightarrow> cell_good c s (placed u i x)"
  by (cases x) (auto simp: token_ok_def strm_def)

lemma emplace_token_spec:
  assumes inv: "kv_inv c" and s: "s < length (si_strm si)" "s < length (si_idxs si)" "ii < length (si_idxs si ! s)"
    and t: "si_strm si ! s = t" "t < k_n_stream c" and idx: "si_idxs si ! s ! ii = idx" "idx < kv_size c"
    and tok: "token_ok c u (s * n + ii) t" and takes: "cell_takes (kv_tables c ! t ! idx)"
  shows "\<exists>c'. emplace_token si u n s ii (c, rm) = Some (c', overwrite (kv_tables c ! t ! idx) rm) \<and>
     kv_inv c' \<and> same_frame c c' \<and>
     kv_tables c' = (kv_tables c)[t := (kv_tables c ! t)[idx := placed u (s * n + ii) (kv_tables c ! t ! idx)]]"
proof -
  note st = kv_inv_stream [OF inv t(2)]
  let ?cells = "k_v_cells c ! t" and ?i = "s * n + ii"
  let ?used = "c_pos ?cells ! idx \<noteq> -1" and ?x = "cell ?cells idx"
  have ix: "idx < cells_size ?cells" using st(4) idx(2) by simp
  have x: "kv_tables c ! t ! idx = ?x" using st(7) ix by simp
  have x': "?x = (c_pos ?cells ! idx, c_ext ?cells ! idx, c_shift ?cells ! idx, c_seq ?cells ! idx)" by (simp add: cell_def)
  have "ops_pre (token_ops u ?i idx ?used) (cell_list ?cells) \<and>
      fold table_op (token_ops u ?i idx ?used) (cell_list ?cells) = (cell_list ?cells)[idx := placed u ?i ?x]"
    using token_ops_effect [OF _ _ _ tok inv, of idx "cell_list ?cells" ?x ?used] ix by (simp add: cell_def)
  moreover have "list_all placing (token_ops u ?i idx ?used)" by (auto simp: token_ops_def list_all_iff)
  ultimately obtain cs where cs: "foldo cells_run (token_ops u ?i idx ?used) ?cells = Some cs" "cells_inv cs"
      "cell_list cs = (cell_list ?cells)[idx := placed u ?i ?x]" "c_has_shift cs = c_has_shift ?cells"
    using placing_runs [OF st(3)] by metis
  have size: "cells_size cs = kv_size c" using arg_cong [OF cs(3), of length] st(4) by simp
  have "\<forall>y \<in> set (cell_list cs). cell_good c t y"
    using st(5) placed_good [OF tok] set_update_subset_insert [of "cell_list ?cells" idx] unfolding cs(3) by blast
  then have "stream_ok c (kv_size c) t cs" using cs(2) size by (simp add: stream_ok_def)
  note put = kv_inv_put_cells [OF inv t(2) this]
  have frame: "same_frame c (put_cells t cs c)"
    using put(3) cs(4) st(1) by (auto simp: same_frame_def put_cells_def same_config_def map_update list_update_same_conv)
  have run: "emplace_token si u n s ii (c, rm) = Some (put_cells t cs c, overwrite ?x rm)"
  proof (cases ?used)
    case False
    then show ?thesis using s t idx st(1,3) ix tok cs(1)
      by (simp add: emplace_token_def is_empty_eq token_ops_def x' foldo_append foldo_seq_adds token_ext_def token_seqs_def
          token_ok_def split: if_splits Option.bind_splits)
  next
    case True
    then have one: "card (c_seq ?cells ! idx) = 1" using takes unfolding x x' by auto
    then obtain q where q: "c_seq ?cells ! idx = {q}" by (auto simp: card_1_singleton_iff)
    show ?thesis using True s t idx st(1,3) ix tok cs(1) q seq_get_eq [OF st(3) ix q]
      by (simp add: emplace_token_def is_empty_eq token_ops_def x' foldo_append foldo_seq_adds token_ext_def token_seqs_def
          token_ok_def seq_count_eq pos_get_eq split: if_splits Option.bind_splits)
  qed
  show ?thesis using run put(1,2) frame st(7) ix unfolding cs(3) by (intro exI [of _ "put_cells t cs c"]) simp
qed

section \<open>All tokens\<close>

definition place_token :: "slot_info \<Rightarrow> llama_ubatch \<Rightarrow> nat \<Rightarrow> nat \<Rightarrow> cell list list \<Rightarrow> cell list list" where
  "place_token si u n i tabs = (case token_cell si n i of (t, j) \<Rightarrow> tabs[t := (tabs ! t)[j := placed u i (tabs ! t ! j)]])"

definition place_tokens :: "slot_info \<Rightarrow> llama_ubatch \<Rightarrow> nat \<Rightarrow> nat \<Rightarrow> cell list list \<Rightarrow> cell list list" where
  "place_tokens si u n k tabs = fold (place_token si u n) [0..<k] tabs"

definition overwritten :: "slot_info \<Rightarrow> nat \<Rightarrow> cell list list \<Rightarrow> nat \<Rightarrow> int \<Rightarrow> int" where
  "overwritten si n tabs k = fold (\<lambda>i. case token_cell si n i of (t, j) \<Rightarrow> overwrite (tabs ! t ! j)) [0..<k] (\<lambda>_. -1)"

text \<open>A slot fits a micro-batch: the shapes agree, the cells exist, are distinct and may be overwritten.\<close>

definition fits :: "kv_cache \<Rightarrow> llama_ubatch \<Rightarrow> nat \<Rightarrow> nat \<Rightarrow> slot_info \<Rightarrow> bool" where
  "fits c u m n si \<longleftrightarrow> 0 < m \<and> 0 < n \<and> length (si_strm si) = m \<and> length (si_idxs si) = m \<and> u_n_tokens u = m * n \<and>
     (\<forall>s < m. si_strm si ! s < k_n_stream c \<and> length (si_idxs si ! s) = n \<and> (\<forall>j \<in> set (si_idxs si ! s). j < kv_size c)) \<and>
     inj_on (token_cell si n) {..<m * n} \<and>
     (\<forall>i < m * n. case token_cell si n i of (t, j) \<Rightarrow> token_ok c u i t \<and> cell_takes (kv_tables c ! t ! j))"

lemma fits_token:
  assumes "fits c u m n si" "i < m * n"
  shows "i div n < m" "i mod n < n" "i mod n < length (si_idxs si ! (i div n))"
    "fst (token_cell si n i) < k_n_stream c" "snd (token_cell si n i) < kv_size c"
proof -
  have n: "0 < n" using assms(1) by (simp add: fits_def)
  then show d: "i div n < m" "i mod n < n" using assms(2) by (simp_all add: less_mult_imp_div_less)
  then show l: "i mod n < length (si_idxs si ! (i div n))" "fst (token_cell si n i) < k_n_stream c"
    using assms(1) by (auto simp: fits_def token_cell_def)
  show "snd (token_cell si n i) < kv_size c" using assms(1) d nth_mem [OF l(1)] by (auto simp: fits_def token_cell_def)
qed

lemma place_tokens_Suc: "place_tokens si u n (Suc k) tabs = place_token si u n k (place_tokens si u n k tabs)"
  by (simp add: place_tokens_def)

lemma overwritten_Suc:
  "overwritten si n tabs (Suc k) = (case token_cell si n k of (t, j) \<Rightarrow> overwrite (tabs ! t ! j)) (overwritten si n tabs k)"
  by (simp add: overwritten_def)

lemma place_tokens_shape:
  "length (place_tokens si u n k tabs) = length tabs \<and> length (place_tokens si u n k tabs ! t) = length (tabs ! t)"
proof (induction k)
  case (Suc k)
  obtain s j where sj: "token_cell si n k = (s, j)" by fastforce
  show ?case using Suc by (cases "s < length tabs") (auto simp: place_tokens_Suc place_token_def sj nth_list_update list_update_beyond)
qed (simp add: place_tokens_def)

text \<open>A cell that is not among the first \<open>k\<close> is as before; the cell of a token holds the token.\<close>

lemma place_tokens_other:
  assumes "\<forall>i < k. token_cell si n i \<noteq> (t, j)"
  shows "place_tokens si u n k tabs ! t ! j = tabs ! t ! j"
  using assms
proof (induction k)
  case (Suc k)
  obtain s l where sl: "token_cell si n k = (s, l)" by fastforce
  have "(s, l) \<noteq> (t, j)" using Suc.prems sl by (metis lessI)
  then have "place_token si u n k tabs' ! t ! j = tabs' ! t ! j" for tabs'
    by (cases "s = t"; cases "s < length tabs'") (auto simp: place_token_def sl list_update_beyond)
  then show ?case using Suc by (simp add: place_tokens_Suc)
qed (simp add: place_tokens_def)

lemma place_tokens_at:
  assumes "inj_on (token_cell si n) {..<k}" "i < k" "token_cell si n i = (t, j)" "t < length tabs" "j < length (tabs ! t)"
  shows "place_tokens si u n k tabs ! t ! j = placed u i (tabs ! t ! j)"
  using assms
proof (induction k)
  case (Suc k)
  note shape = place_tokens_shape [of si u n k tabs]
  show ?case
  proof (cases "i = k")
    case True
    have "token_cell si n l \<noteq> (t, j)" if "l < k" for l
      using Suc.prems(1,3) that unfolding True by (metis inj_onD lessThan_iff less_SucI lessI less_irrefl)
    then have "place_tokens si u n k tabs ! t ! j = tabs ! t ! j" by (intro place_tokens_other) simp
    then show ?thesis using Suc.prems shape True by (simp add: place_tokens_Suc place_token_def)
  next
    case False
    obtain s l where sl: "token_cell si n k = (s, l)" by fastforce
    have "(s, l) \<noteq> (t, j)" using Suc.prems(1-3) False sl by (metis inj_onD lessThan_iff lessI)
    then have "place_token si u n k tabs' ! t ! j = tabs' ! t ! j" for tabs'
      by (cases "s = t"; cases "s < length tabs'") (auto simp: place_token_def sl list_update_beyond)
    moreover have "inj_on (token_cell si n) {..<k}" using Suc.prems(1) by (rule inj_on_subset) auto
    ultimately show ?thesis using Suc False by (simp add: place_tokens_Suc)
  qed
qed simp

lemma foldo_nested:
  assumes "0 < n"
  shows "foldo (\<lambda>s st. foldo (f s) [0..<n] st) [0..<m] st = foldo (\<lambda>i. f (i div n) (i mod n)) [0..<m * n] st"
proof (induction m)
  case (Suc m)
  have "foldo (\<lambda>i. f (i div n) (i mod n)) (map (\<lambda>i. i + m * n) [0..<n]) t = foldo (f m) [0..<n] t" for t
    unfolding foldo_over_map by (rule foldo_cong) (use assms in auto)
  moreover have "[0..<Suc m * n] = [0..<m * n] @ map (\<lambda>i. i + m * n) [0..<n]"
    using upt_add_eq_append [of 0 "m * n" n] map_add_upt [of "m * n" n] by (simp add: add.commute [of n])
  moreover have "foldo (\<lambda>s. foldo (f s) [0..<n]) [m] = foldo (f m) [0..<n]" by (rule ext) (simp split: Option.bind_splits)
  ultimately have eqs: "[0..<Suc m * n] = [0..<m * n] @ map (\<lambda>i. i + m * n) [0..<n]"
      "foldo (\<lambda>s. foldo (f s) [0..<n]) [m] = foldo (\<lambda>i. f (i div n) (i mod n)) (map (\<lambda>i. i + m * n) [0..<n])" by (auto intro: ext)
  show ?case unfolding eqs(1) foldo_append upt_Suc_append [OF zero_le] eqs(2) Suc ..
qed simp

lemma emplace_all:
  assumes "kv_inv c" "fits c u m n si"
  shows "\<exists>c'. foldo (\<lambda>s st. foldo (emplace_token si u n s) [0..<n] st) [0..<m] (c, \<lambda>_. -1) =
       Some (c', overwritten si n (kv_tables c) (m * n)) \<and>
     kv_inv c' \<and> same_frame c c' \<and> kv_tables c' = place_tokens si u n (m * n) (kv_tables c)"
proof -
  have n: "0 < n" using assms(2) by (simp add: fits_def)
  let ?P = "\<lambda>k (d, rm). kv_inv d \<and> same_frame c d \<and> kv_tables d = place_tokens si u n k (kv_tables c) \<and>
     rm = overwritten si n (kv_tables c) k"
  have "\<exists>st. foldo (\<lambda>i. emplace_token si u n (i div n) (i mod n)) [0..<m * n] (c, \<lambda>_. -1) = Some st \<and> ?P (m * n) st"
  proof (rule foldo_upt_invariant [where P = ?P])
    show "?P 0 (c, \<lambda>_. -1)" using assms(1) by (simp add: place_tokens_def overwritten_def)
  next
    fix i st
    assume i: "i < m * n" and P: "?P i st"
    obtain d rm where st: "st = (d, rm)" by fastforce
    have d: "kv_inv d" "same_frame c d" "kv_tables d = place_tokens si u n i (kv_tables c)" "rm = overwritten si n (kv_tables c) i"
      using P by (simp_all add: st)
    obtain t j where tj: "token_cell si n i = (t, j)" by fastforce
    note ft = fits_token [OF assms(2) i, unfolded tj]
    have cfg: "same_config c d" "kv_size d = kv_size c" "k_n_stream d = k_n_stream c" using d(2) by (auto simp: same_frame_def same_config_def)
    have "\<forall>l < i. token_cell si n l \<noteq> (t, j)"
      using assms(2) i tj unfolding fits_def by (metis inj_onD lessThan_iff less_irrefl less_trans)
    then have x: "kv_tables d ! t ! j = kv_tables c ! t ! j" unfolding d(3) by (rule place_tokens_other)
    have tok: "token_ok d u (i div n * n + i mod n) t" "cell_takes (kv_tables d ! t ! j)"
      using assms(2) i tj x unfolding token_ok_cong [OF cfg(1)] by (auto simp: fits_def)
    have sizes: "i div n < length (si_strm si)" "i div n < length (si_idxs si)" using assms(2) ft(1) by (simp_all add: fits_def)
    have at: "si_strm si ! (i div n) = t" "si_idxs si ! (i div n) ! (i mod n) = j" using tj by (simp_all add: token_cell_def)
    have "t < k_n_stream d" "j < kv_size d" using ft(4,5) cfg by simp_all
    from emplace_token_spec [OF d(1) sizes ft(3) at(1) this(1) at(2) this(2) tok, of rm] obtain d' where
      d': "emplace_token si u n (i div n) (i mod n) (d, rm) = Some (d', overwrite (kv_tables c ! t ! j) rm)" "kv_inv d'" "same_frame d d'"
        "kv_tables d' = (kv_tables d)[t := (kv_tables d ! t)[j := placed u i (kv_tables d ! t ! j)]]"
      unfolding x by auto
    then have "?P (Suc i) (d', overwrite (kv_tables c ! t ! j) rm)"
      using d same_frame_trans by (auto simp: place_tokens_Suc overwritten_Suc place_token_def tj)
    then show "\<exists>st'. emplace_token si u n (i div n) (i mod n) st = Some st' \<and> ?P (Suc i) st'"
      using d'(1) unfolding st by blast
  qed
  then show ?thesis unfolding foldo_nested [OF n] by auto
qed

section \<open>Purging\<close>

text \<open>A sequence that lost a cell loses every cell up to the greatest overwritten position.\<close>

definition purge_table :: "kv_cache \<Rightarrow> (int \<Rightarrow> int) \<Rightarrow> int \<Rightarrow> cell list list \<Rightarrow> cell list list" where
  "purge_table c rm t tabs =
     (if rm t = -1 then tabs else tabs[strm c t := map (rm_eff t 0 (rm t + 1)) (tabs ! strm c t)])"

definition purge_tables :: "kv_cache \<Rightarrow> (int \<Rightarrow> int) \<Rightarrow> cell list list \<Rightarrow> cell list list" where
  "purge_tables c rm tabs = fold (purge_table c rm) [0..LLAMA_MAX_SEQ - 1] tabs"

lemma purge_tables_none [simp]: "purge_tables c (\<lambda>_. -1) tabs = tabs"
proof -
  have "fold (purge_table c (\<lambda>_. -1)) xs tabs = tabs" for xs by (induction xs) (simp_all add: purge_table_def)
  then show ?thesis by (simp add: purge_tables_def)
qed

lemma rm_eff_range:
  assumes "\<forall>x \<in> set tab. \<forall>p e h b. x = (p, e, h, b) \<longrightarrow> t \<in> b \<longrightarrow> a \<le> p \<and> a' \<le> p"
  shows "map (rm_eff t a q) tab = map (rm_eff t a' q) tab"
  using assms by (auto simp: in_range_def)

text \<open>One sequence: the code removes from its least position on, which is the same as from 0.\<close>

lemma purge_seq_spec:
  assumes inv: "kv_inv c" and rm: "rm t = -1 \<or> valid_seq c t \<and> 0 \<le> rm t \<and> rm t < INT32_MAX"
  shows "\<exists>c'. purge_seq rm t c = Some c' \<and> kv_inv c' \<and> same_config c c' \<and> k_sc_info c' = k_sc_info c \<and> kv_size c' = kv_size c \<and>
     kv_tables c' = purge_table c rm t (kv_tables c)"
proof (cases "rm t = -1")
  case True
  then show ?thesis using inv by (simp add: purge_seq_def purge_table_def)
next
  case False
  then have v: "valid_seq c t" "0 \<le> rm t" "rm t < INT32_MAX" using rm by auto
  note q = kv_inv_seq [OF inv v(1)] note st = kv_inv_stream [OF inv q(2)]
  let ?cells = "k_v_cells c ! strm c t" and ?tab = "kv_tables c ! strm c t"
  have range: "0 \<le> t" "t < LLAMA_MAX_SEQ" using q(3) by (simp_all add: seq_ok_def)
  define mn where "mn = (if seq_positions ?cells t = {} then -1 else Min (seq_positions ?cells t))"
  have mn: "cells_seq_pos_min t ?cells = Some mn" unfolding mn_def by (rule cells_seq_pos_min_eq [OF st(3) range])
  have entry: "p \<in> seq_positions ?cells t \<and> 0 \<le> p \<and> mn \<le> p" if in_tab: "(p, e, h, b) \<in> set ?tab" and in_b: "t \<in> b" for p e h b
  proof -
    obtain i where i: "i < cells_size ?cells" "cell ?cells i = (p, e, h, b)"
      using in_tab unfolding st(7) in_set_conv_nth by (metis length_cell_list nth_cell_list)
    have p: "p \<in> seq_positions ?cells t" using i in_b by (auto simp: seq_positions_def cell_def)
    moreover have "0 \<le> p" using cells_inv_pos [OF st(3) i(1)] cells_inv_seq_pos [OF st(3) i(1), of t] i(2) in_b
      by (auto simp: cell_def)
    ultimately show ?thesis using Min_le [OF seq_positions_finite p] by (auto simp: mn_def)
  qed
  have below: "map (rm_eff t (range_lo mn) (rm t + 1)) ?tab = map (rm_eff t 0 (rm t + 1)) ?tab"
    by (rule rm_eff_range) (use entry in \<open>auto simp: range_lo_def\<close>)
  have valid: "nat t < length (k_seq_to_stream c)" using v(1) by (simp add: valid_seq_def)
  show ?thesis
  proof (cases "mn \<le> rm t")
    case True
    have "range_hi (rm t + 1) = rm t + 1" "is_i32 (rm t + 1)" using v(2,3) by (simp_all add: range_hi_def i32_defs)
    with kv_seq_rm_one [OF inv v(1), of mn "rm t + 1"] below True False valid mn q(1) st(1)
    show ?thesis by (auto simp: purge_seq_def purge_table_def)
  next
    case no: False
    have "map (rm_eff t 0 (rm t + 1)) ?tab = ?tab"
    proof (rule map_idI)
      fix x assume x: "x \<in> set ?tab"
      obtain p e h b where peh: "x = (p, e, h, b)" by (cases x)
      show "rm_eff t 0 (rm t + 1) x = x" using entry [of p e h b] x no peh by (auto simp: in_range_def)
    qed
    then show ?thesis using inv no False valid mn q(1) st(1) list_update_id [of "kv_tables c" "strm c t"]
      by (simp add: purge_seq_def purge_table_def)
  qed
qed

lemma purge_table_cong: "same_config c c' \<Longrightarrow> purge_table c' rm t tabs = purge_table c rm t tabs"
  using same_config_strm [of c c'] by (simp add: purge_table_def)

lemma purge_all:
  assumes "kv_inv c" "\<forall>t \<in> set ts. rm t = -1 \<or> valid_seq c t \<and> 0 \<le> rm t \<and> rm t < INT32_MAX"
  shows "\<exists>c'. foldo (purge_seq rm) ts c = Some c' \<and> kv_inv c' \<and> same_config c c' \<and> k_sc_info c' = k_sc_info c \<and>
     kv_size c' = kv_size c \<and> kv_tables c' = fold (purge_table c rm) ts (kv_tables c)"
  using assms
proof (induction ts arbitrary: c)
  case (Cons t ts)
  obtain c1 where c1: "purge_seq rm t c = Some c1" "kv_inv c1" "same_config c c1" "k_sc_info c1 = k_sc_info c"
    "kv_size c1 = kv_size c" "kv_tables c1 = purge_table c rm t (kv_tables c)"
    using purge_seq_spec [OF Cons.prems(1), of rm t] Cons.prems(2) by auto
  have "\<forall>t \<in> set ts. rm t = -1 \<or> valid_seq c1 t \<and> 0 \<le> rm t \<and> rm t < INT32_MAX"
    using Cons.prems(2) same_config_strm [OF c1(3)] by simp
  from Cons.IH [OF c1(2) this] obtain c' where c': "foldo (purge_seq rm) ts c1 = Some c'" "kv_inv c'" "same_config c1 c'"
    "k_sc_info c' = k_sc_info c1" "kv_size c' = kv_size c1" "kv_tables c' = fold (purge_table c1 rm) ts (kv_tables c1)" by blast
  have "purge_table c1 rm = purge_table c rm" using purge_table_cong [OF c1(3)] by (intro ext)
  then show ?case using c1 c' same_config_trans [OF c1(3) c'(3)] by simp
qed simp

text \<open>An overwritten position is the position of one of the cells, whose only sequence it is.\<close>

lemma overwritten_cases:
  assumes "\<forall>i < k. case token_cell si n i of (t, j) \<Rightarrow> cell_takes (tabs ! t ! j)"
  shows "overwritten si n tabs k q = -1 \<or>
    (\<exists>i < k. \<exists>t j p e h. token_cell si n i = (t, j) \<and> tabs ! t ! j = (p, e, h, {q}) \<and> p \<noteq> -1 \<and> p < INT32_MAX \<and>
       overwritten si n tabs k q = p) \<or> (\<exists>i < k. \<exists>t j p e h b. token_cell si n i = (t, j) \<and> tabs ! t ! j = (p, e, h, b) \<and> p < -1)"
  using assms
proof (induction k)
  case (Suc k)
  obtain t j where tj: "token_cell si n k = (t, j)" by fastforce
  obtain p e h b where x: "tabs ! t ! j = (p, e, h, b)" by (cases "tabs ! t ! j")
  have IH: "overwritten si n tabs k q = -1 \<or>
    (\<exists>i < k. \<exists>t j p e h. token_cell si n i = (t, j) \<and> tabs ! t ! j = (p, e, h, {q}) \<and> p \<noteq> -1 \<and> p < INT32_MAX \<and>
       overwritten si n tabs k q = p) \<or> (\<exists>i < k. \<exists>t j p e h b. token_cell si n i = (t, j) \<and> tabs ! t ! j = (p, e, h, b) \<and> p < -1)"
    using Suc by simp
  have takes: "p = -1 \<or> p < INT32_MAX \<and> card b = 1" using Suc.prems tj x by fastforce
  show ?case
  proof (cases "p \<noteq> -1 \<and> b = {q} \<and> overwritten si n tabs k q \<le> p")
    case True
    then have "overwritten si n tabs (Suc k) q = p" using tj x by (simp add: overwritten_Suc)
    then show ?thesis using True takes tj x by blast
  next
    case False
    then have "overwritten si n tabs (Suc k) q = overwritten si n tabs k q"
      using tj x takes by (auto simp: overwritten_Suc card_1_singleton_iff max_def)
    then show ?thesis using IH less_SucI by metis
  qed
qed (simp add: overwritten_def)

lemma overwritten_ok:
  assumes "kv_inv c" "fits c u m n si"
  shows "overwritten si n (kv_tables c) (m * n) q = -1 \<or>
     valid_seq c q \<and> 0 \<le> overwritten si n (kv_tables c) (m * n) q \<and> overwritten si n (kv_tables c) (m * n) q < INT32_MAX"
proof -
  have cellx: "-1 \<le> p \<and> (\<forall>q \<in> b. valid_seq c q)"
    if i: "i < m * n" "token_cell si n i = (t, j)" and x: "kv_tables c ! t ! j = (p, e, h, b)" for i t j p e h b
  proof -
    note ft = fits_token [OF assms(2) i(1), unfolded i(2)]
    have t: "t < k_n_stream c" using ft(4) by simp
    note st = kv_inv_stream [OF assms(1) t]
    have j: "j < cells_size (k_v_cells c ! t)" using ft(5) st(4) by simp
    have "cell (k_v_cells c ! t) j = (p, e, h, b)" using x st(7) j by simp
    moreover have "cell_good c t (cell (k_v_cells c ! t) j)" using st(5) j nth_mem [of j "cell_list (k_v_cells c ! t)"] by simp
    ultimately show ?thesis using cells_inv_pos [OF st(3) j] by (auto simp: cell_def)
  qed
  have "\<forall>i < m * n. case token_cell si n i of (t, j) \<Rightarrow> cell_takes (kv_tables c ! t ! j)"
    using assms(2) by (auto simp: fits_def)
  from overwritten_cases [OF this, of q] show ?thesis
  proof (elim disjE exE conjE)
    fix i t j p e h
    assume a: "i < m * n" "token_cell si n i = (t, j)" "kv_tables c ! t ! j = (p, e, h, {q})" "p \<noteq> -1" "p < INT32_MAX"
      "overwritten si n (kv_tables c) (m * n) q = p"
    from cellx [OF a(1-3)] a(4-6) show ?thesis by auto
  next
    fix i t j p e h b
    assume a: "i < m * n" "token_cell si n i = (t, j)" "kv_tables c ! t ! j = (p, e, h, b)" "p < -1"
    from cellx [OF a(1-3)] a(4) show ?thesis by simp
  qed simp
qed

section \<open>The micro-batch\<close>

lemma advance_heads:
  assumes "kv_inv c" "m \<le> length (si_strm si)" "m \<le> length (si_idxs si)" "kv_size c < 4294967296"
    and "\<forall>s < m. si_strm si ! s < k_n_stream c \<and> si_idxs si ! s \<noteq> [] \<and> (\<forall>j \<in> set (si_idxs si ! s). j < kv_size c)"
  shows "\<exists>c'. foldo (advance_head si) [0..<m] c = Some c' \<and> kv_inv c' \<and> same_config c c' \<and> k_sc_info c' = k_sc_info c \<and>
     k_v_cells c' = k_v_cells c \<and> kv_size c' = kv_size c"
proof -
  let ?P = "\<lambda>k d. kv_inv d \<and> same_config c d \<and> k_sc_info d = k_sc_info c \<and> k_v_cells d = k_v_cells c \<and> kv_size d = kv_size c"
  show ?thesis
  proof (rule foldo_upt_invariant [where P = ?P])
    fix s d
    assume s: "s < m" and P: "?P s d"
    let ?t = "si_strm si ! s" and ?h = "u32 (last (si_idxs si ! s) + 1)"
    have last: "last (si_idxs si ! s) < kv_size c" using assms(5) s last_in_set by blast
    then have "?h \<le> kv_size d" using P assms(4) by (simp add: u32_def)
    note put = kv_inv_put_head [OF conjunct1 [OF P] this, of ?t]
    have "?t < length (k_v_heads d)" using P assms(5) s kv_inv_stream(2) [of d ?t] by (auto simp: same_config_def)
    then have "advance_head si s d = Some (put_head ?t ?h d)" using assms(2,3,5) s by (simp add: advance_head_def)
    moreover have "same_config c (put_head ?t ?h d)" using P same_config_trans same_config_put(2) by blast
    moreover have "k_v_cells (put_head ?t ?h d) = k_v_cells d" by (simp add: put_head_def)
    ultimately show "\<exists>d'. advance_head si s d = Some d' \<and> ?P (Suc s) d'" using put P by simp
  qed (simp add: assms(1))
qed

text \<open>The tables after a micro-batch: the tokens are placed, then the overwritten sequences are purged.\<close>

definition applied :: "kv_cache \<Rightarrow> slot_info \<Rightarrow> llama_ubatch \<Rightarrow> nat \<Rightarrow> nat \<Rightarrow> cell list list" where
  "applied c si u m n =
     purge_tables c (overwritten si n (kv_tables c) (m * n)) (place_tokens si u n (m * n) (kv_tables c))"

lemma apply_ubatch_spec:
  assumes "kv_inv c" "fits c u m n si" "kv_size c < 4294967296"
  shows "\<exists>c'. apply_ubatch si u c = Some c' \<and> kv_inv c' \<and> same_config c c' \<and> k_sc_info c' = k_sc_info c \<and>
     kv_size c' = kv_size c \<and> kv_tables c' = applied c si u m n"
proof -
  let ?rm = "overwritten si n (kv_tables c) (m * n)"
  obtain c1 where c1: "foldo (\<lambda>s st. foldo (emplace_token si u n s) [0..<n] st) [0..<m] (c, \<lambda>_. -1) = Some (c1, ?rm)"
    "kv_inv c1" "same_frame c c1" "kv_tables c1 = place_tokens si u n (m * n) (kv_tables c)" using emplace_all [OF assms(1,2)] by blast
  have cfg: "same_config c c1" "k_sc_info c1 = k_sc_info c" "kv_size c1 = kv_size c" using c1(3) by (simp_all add: same_frame_def)
  have "\<forall>t \<in> set [0..LLAMA_MAX_SEQ - 1]. ?rm t = -1 \<or> valid_seq c1 t \<and> 0 \<le> ?rm t \<and> ?rm t < INT32_MAX"
    using overwritten_ok [OF assms(1,2)] same_config_strm [OF cfg(1)] by simp
  from purge_all [OF c1(2) this] obtain c2 where c2: "foldo (purge_seq ?rm) [0..LLAMA_MAX_SEQ - 1] c1 = Some c2" "kv_inv c2"
    "same_config c1 c2" "k_sc_info c2 = k_sc_info c1" "kv_size c2 = kv_size c1"
    "kv_tables c2 = fold (purge_table c1 ?rm) [0..LLAMA_MAX_SEQ - 1] (kv_tables c1)" by blast
  have pt: "purge_table c1 ?rm = purge_table c ?rm" using purge_table_cong [OF cfg(1)] by (intro ext)
  have n: "k_n_stream c2 = k_n_stream c" using cfg(1) c2(3) by (simp add: same_config_def)
  have rows: "\<forall>s < m. si_strm si ! s < k_n_stream c2 \<and> si_idxs si ! s \<noteq> [] \<and> (\<forall>j \<in> set (si_idxs si ! s). j < kv_size c2)"
    using assms(2) cfg(3) c2(5) n by (fastforce simp: fits_def)
  have len: "length (si_strm si) = m" "length (si_idxs si) = m" "0 < m" "length (si_idxs si ! 0) = n" "u_n_tokens u = m * n"
    using assms(2) by (simp_all add: fits_def)
  have "kv_size c2 < 4294967296" using assms(3) cfg(3) c2(5) by simp
  from advance_heads [OF c2(2) _ _ this rows] len obtain c3 where c3: "foldo (advance_head si) [0..<m] c2 = Some c3" "kv_inv c3"
    "same_config c2 c3" "k_sc_info c3 = k_sc_info c2" "k_v_cells c3 = k_v_cells c2" "kv_size c3 = kv_size c2" by auto
  have ne: "si_idxs si \<noteq> []" using len(2,3) by auto
  note hd = hd_conv_nth [OF ne] ne
  have "apply_ubatch si u c = Some c3"
    using c1(1) c2(1) c3(1) len hd by (simp add: apply_ubatch_def slot_size_def slot_n_stream_def)
  moreover have "kv_tables c3 = applied c si u m n"
    using c3(5) c2(6) c1(4) pt by (simp add: kv_tables_def applied_def purge_tables_def)
  moreover have "same_config c c3" using same_config_trans [OF same_config_trans [OF cfg(1) c2(3)] c3(3)] .
  ultimately show ?thesis using c2(4,5) c3(2,4,6) cfg(2,3) by simp
qed

section \<open>A found slot\<close>

text \<open>What a micro-batch from the splitters satisfies: \<open>m\<close> sequences in distinct streams with \<open>n\<close> tokens each.\<close>

definition ubatch_ok :: "kv_cache \<Rightarrow> llama_ubatch \<Rightarrow> nat \<Rightarrow> nat \<Rightarrow> bool" where
  "ubatch_ok c u m n \<longleftrightarrow> ubatch_seqs_ok c u m n \<and> distinct (map (\<lambda>s. strm c (u_seq_id_unq u ! s)) [0..<m]) \<and>
     u_n_tokens u = m * n \<and> (\<forall>i < m * n. token_ok c u i (strm c (u_seq_id_unq u ! (i div n))))"

lemma ubatch_ok_cong: "same_config c c' \<Longrightarrow> ubatch_ok c' u m n = ubatch_ok c u m n"
  using same_config_strm [of c c'] token_ok_cong [of c c']
  by (auto simp: ubatch_ok_def ubatch_seqs_ok_def same_config_def)

lemma usable_takes:
  assumes "kv_inv c" "searchable c" "t < k_n_stream c" "j \<in> usable_cells c t"
  shows "cell_takes (kv_tables c ! t ! j)"
proof -
  note st = kv_inv_stream [OF assms(1,3)]
  have j: "j < cells_size (k_v_cells c ! t)" "usable c (k_v_cells c ! t) j" using assms(4) st(4) by (auto simp: usable_cells_def)
  have "c_pos (k_v_cells c ! t) ! j < INT32_MAX"
    using assms(2) st(1) j(1) nth_mem [OF st(1)] by (auto simp: searchable_def cells_below_def)
  then show ?thesis using j st(7) by (auto simp: cell_def usable_def)
qed

lemma slot_fits:
  assumes inv: "kv_inv c" and srch: "searchable c" and ub: "ubatch_ok c u m n" and slot: "slot_ok c u m n si"
  shows "fits c u m n si"
proof -
  have pos: "0 < m" "0 < n" and tok: "u_n_tokens u = m * n" using ub by (simp_all add: ubatch_ok_def ubatch_seqs_ok_def)
  have lt: "strm c (u_seq_id_unq u ! s) < k_n_stream c" if "s < m" for s
    using ub kv_inv_seq(2) [OF inv] that by (simp add: ubatch_ok_def ubatch_seqs_ok_def)
  have strm: "si_strm si ! s = strm c (u_seq_id_unq u ! s)" if "s < m" for s using slot that by (simp add: slot_ok_def)
  have row: "length (si_idxs si ! s) = n" "distinct (si_idxs si ! s)" "set (si_idxs si ! s) \<subseteq> usable_cells c (si_strm si ! s)"
    if "s < m" for s using slot that unfolding slot_ok_def by blast+
  have div: "i div n < m" "i mod n < n" if "i < m * n" for i using that pos by (simp_all add: less_mult_imp_div_less)
  have inj: "inj_on (token_cell si n) {..<m * n}"
  proof (rule inj_onI)
    fix i k
    assume ik: "i \<in> {..<m * n}" "k \<in> {..<m * n}" and eq: "token_cell si n i = token_cell si n k"
    have d: "i div n < m" "i mod n < n" "k div n < m" "k mod n < n" using ik div by auto
    have "distinct (si_strm si)" "length (si_strm si) = m" using ub slot by (simp_all add: ubatch_ok_def slot_ok_def)
    then have same: "i div n = k div n" using eq d by (auto simp: token_cell_def nth_eq_iff_index_eq)
    then have "i mod n = k mod n" using eq d row [of "k div n"] by (auto simp: token_cell_def nth_eq_iff_index_eq)
    then show "i = k" using same by (metis div_mult_mod_eq)
  qed
  have cells: "si_idxs si ! (i div n) ! (i mod n) \<in> usable_cells c (si_strm si ! (i div n))" if "i < m * n" for i
    using div [OF that] row [of "i div n"] nth_mem [of "i mod n" "si_idxs si ! (i div n)"] by auto
  have "token_ok c u i (si_strm si ! (i div n)) \<and> cell_takes (kv_tables c ! (si_strm si ! (i div n)) ! (si_idxs si ! (i div n) ! (i mod n)))"
    if "i < m * n" for i
  proof -
    have "si_strm si ! (i div n) < k_n_stream c" using lt [OF div(1) [OF that]] strm [OF div(1) [OF that]] by simp
    then have "cell_takes (kv_tables c ! (si_strm si ! (i div n)) ! (si_idxs si ! (i div n) ! (i mod n)))"
      using usable_takes [OF inv srch _ cells [OF that]] by simp
    then show ?thesis using ub that strm [OF div(1) [OF that]] by (auto simp: ubatch_ok_def)
  qed
  moreover have "\<forall>s < m. \<forall>j \<in> set (si_idxs si ! s). j < kv_size c" using row(3) by (fastforce simp: usable_cells_def)
  ultimately show ?thesis
    unfolding fits_def using pos tok lt strm row(1) inj slot by (auto simp: token_cell_def slot_ok_def)
qed

lemma found_slot_ok:
  assumes "kv_inv c" "searchable c" "ubatch_seqs_ok c u m n" "find_slot u False c = Some si" "\<not> slot_empty si"
  shows "slot_ok c u m n si"
  using find_slot_cases [OF assms(1-3)] slot_for_ok [OF assms(1,3)] assms(4,5)
  by (auto simp: slot_empty_def slot_none_def split: if_splits)

lemma searchable_size: "searchable c \<Longrightarrow> kv_size c < 4294967296"
  by (simp add: searchable_def)

text \<open>
  C14 (safety): placing a micro-batch into the slot that \<open>find_slot\<close> found for it never fails an
  assertion and keeps the invariant of the cache; the new tables are the old ones with every token
  written to its cell and with every sequence that lost a masked cell purged up to that position.
\<close>

theorem apply_found_slot:
  assumes "kv_inv c" "searchable c" "ubatch_ok c u m n" "find_slot u False c = Some si" "\<not> slot_empty si"
  shows "\<exists>c'. apply_ubatch si u c = Some c' \<and> kv_inv c' \<and> kv_tables c' = applied c si u m n"
proof -
  have "ubatch_seqs_ok c u m n" using assms(3) by (simp add: ubatch_ok_def)
  from apply_ubatch_spec [OF assms(1) slot_fits [OF assms(1-3) found_slot_ok [OF assms(1,2) this assms(4,5)]]
      searchable_size [OF assms(2)]] show ?thesis by blast
qed

lemma demo_ubatch_ok:
  assumes "k_n_stream c = 1" "valid_seq c 0" "strm c 0 = 0"
  shows "ubatch_ok c demo_ubatch 1 2"
proof -
  have two: "i < 2 \<longleftrightarrow> i = 0 \<or> i = (1::nat)" for i by arith
  show ?thesis using assms
    by (simp add: ubatch_ok_def ubatch_seqs_ok_def demo_ubatch_def ubatch_none_def token_ok_def token_seqs_def is_pos_2d_def
        two INT32_MAX_def numeral_2_eq_2 [symmetric] all_conj_distrib)
qed

lemma demo_found:
  obtains c si where "kv_inv c" "searchable c" "ubatch_ok c demo_ubatch 1 2" "find_slot demo_ubatch False c = Some si"
    "\<not> slot_empty si" "k_swa_type c = SWA_NONE" "k_n_stream c = 1"
proof -
  obtain c where c: "kv_inv c" "kv_size c = 4" "k_n_stream c = 1" "valid_seq c 0" "strm c 0 = 0"
    "kv_tables c = [[free_cell, (5, ext_zero, 0, {0}), free_cell, free_cell]]" "k_swa_type c = SWA_NONE" by (rule demo_cache)
  note srch = demo_searchable [OF c(2,7,6)] note ub = demo_ubatch_ok [OF c(3-5)]
  have seqs: "ubatch_seqs_ok c demo_ubatch 1 2" using ub by (simp add: ubatch_ok_def)
  have enough: "\<forall>s < 1. 2 \<le> card (usable_cells c (strm c (u_seq_id_unq demo_ubatch ! s)))"
    using demo_usable [OF c(1,3,2,7,6)] c(5) by (simp add: demo_ubatch_def)
  note f = find_slot_cases [OF c(1) srch seqs, unfolded if_P [OF enough]]
  have "\<not> slot_empty (slot_for c demo_ubatch 1 2)" by (simp add: slot_empty_def slot_for_def Let_def)
  from that [OF c(1) srch ub f this c(7,3)] show thesis .
qed

theorem apply_found_slot_witness:
  "\<exists>c si c'. kv_inv c \<and> find_slot demo_ubatch False c = Some si \<and> apply_ubatch si demo_ubatch c = Some c' \<and> kv_inv c'"
proof -
  obtain c si where c: "kv_inv c" "searchable c" "ubatch_ok c demo_ubatch 1 2" "find_slot demo_ubatch False c = Some si"
    "\<not> slot_empty si" by (rule demo_found)
  from apply_found_slot [OF c] c(1,4) show ?thesis by blast
qed

section \<open>Without a sliding window\<close>

lemma usable_free:
  assumes "kv_inv c" "k_swa_type c = SWA_NONE" "t < k_n_stream c" "j \<in> usable_cells c t"
  shows "fst (kv_tables c ! t ! j) = -1"
proof -
  note st = kv_inv_stream [OF assms(1,3)]
  have "j < cells_size (k_v_cells c ! t)" "c_pos (k_v_cells c ! t) ! j = -1"
    using assms(4) st(4) usable_no_swa [OF assms(2)] by (auto simp: usable_cells_def)
  then show ?thesis using st(7) by (simp add: cell_def)
qed

lemma overwritten_none:
  assumes "\<forall>i < k. case token_cell si n i of (t, j) \<Rightarrow> fst (tabs ! t ! j) = -1"
  shows "overwritten si n tabs k = (\<lambda>_. -1)"
  using assms
proof (induction k)
  case (Suc k)
  obtain t j where tj: "token_cell si n k = (t, j)" by fastforce
  obtain p e h b where x: "tabs ! t ! j = (p, e, h, b)" by (cases "tabs ! t ! j")
  have "p = -1" using Suc.prems tj x by fastforce
  then show ?case using Suc tj x by (simp add: overwritten_Suc)
qed (simp add: overwritten_def)

lemma slot_cells_free:
  assumes "kv_inv c" "k_swa_type c = SWA_NONE" "slot_ok c u m n si" "fits c u m n si" "i < m * n" "token_cell si n i = (t, j)"
  shows "t < k_n_stream c" "j < kv_size c" "fst (kv_tables c ! t ! j) = -1"
proof -
  note ft = fits_token [OF assms(4,5), unfolded assms(6)]
  show t: "t < k_n_stream c" "j < kv_size c" using ft(4,5) by simp_all
  have "t = si_strm si ! (i div n)" "j = si_idxs si ! (i div n) ! (i mod n)" using assms(6) by (simp_all add: token_cell_def)
  then have "j \<in> usable_cells c t" using assms(3) ft(1) nth_mem [OF ft(3)] unfolding slot_ok_def by blast
  then show "fst (kv_tables c ! t ! j) = -1" by (rule usable_free [OF assms(1,2) t(1)])
qed

lemma applied_no_swa:
  assumes "kv_inv c" "k_swa_type c = SWA_NONE" "slot_ok c u m n si" "fits c u m n si"
  shows "applied c si u m n = place_tokens si u n (m * n) (kv_tables c)"
proof -
  have "overwritten si n (kv_tables c) (m * n) = (\<lambda>_. -1)"
    by (rule overwritten_none) (use slot_cells_free(3) [OF assms] in fastforce)
  then show ?thesis by (simp add: applied_def)
qed

text \<open>
  C15 (functional): without a sliding window, placing a micro-batch into the slot found for it fills
  free cells only: the cell of every token then holds exactly the token's position and its
  sequences with no pending shift, and every other cell of every stream is unchanged.
\<close>

theorem apply_fills_free_cells:
  assumes "kv_inv c" "searchable c" "ubatch_ok c u m n" "find_slot u False c = Some si" "\<not> slot_empty si" "k_swa_type c = SWA_NONE"
  shows "\<exists>c'. apply_ubatch si u c = Some c' \<and>
     (\<forall>i < m * n. case token_cell si n i of (t, j) \<Rightarrow> fst (kv_tables c ! t ! j) = -1 \<and>
        (\<exists>e. kv_tables c' ! t ! j = (u_pos u ! i, e, 0, set (token_seqs u i)))) \<and>
     (\<forall>t j. (t, j) \<notin> token_cell si n ` {..<m * n} \<longrightarrow> kv_tables c' ! t ! j = kv_tables c ! t ! j)"
proof -
  have seqs: "ubatch_seqs_ok c u m n" using assms(3) by (simp add: ubatch_ok_def)
  note slot = found_slot_ok [OF assms(1,2) seqs assms(4,5)]
  note fit = slot_fits [OF assms(1-3) slot]
  obtain c' where c': "apply_ubatch si u c = Some c'" "kv_tables c' = place_tokens si u n (m * n) (kv_tables c)"
    using apply_ubatch_spec [OF assms(1) fit searchable_size [OF assms(2)]] applied_no_swa [OF assms(1,6) slot fit] by auto
  have inj: "inj_on (token_cell si n) {..<m * n}" using fit by (simp add: fits_def)
  have "fst (kv_tables c ! t ! j) = -1 \<and> (\<exists>e. kv_tables c' ! t ! j = (u_pos u ! i, e, 0, set (token_seqs u i)))"
    if i: "i < m * n" and tj: "token_cell si n i = (t, j)" for i t j
  proof -
    note free = slot_cells_free [OF assms(1,6) slot fit i tj]
    have len: "t < length (kv_tables c)" "j < length (kv_tables c ! t)"
      using free(1,2) kv_inv_stream(1,4,7) [OF assms(1) free(1)] by (simp_all add: kv_tables_def)
    obtain p e h b where x: "kv_tables c ! t ! j = (p, e, h, b)" by (cases "kv_tables c ! t ! j")
    show ?thesis using free(3) place_tokens_at [OF inj i tj len, of u] x c'(2) by auto
  qed
  moreover have "kv_tables c' ! t ! j = kv_tables c ! t ! j" if "(t, j) \<notin> token_cell si n ` {..<m * n}" for t j
    unfolding c'(2) by (rule place_tokens_other) (use that in force)
  ultimately show ?thesis using c'(1) by blast
qed

theorem apply_fills_free_cells_witness:
  "\<exists>c si c'. kv_inv c \<and> find_slot demo_ubatch False c = Some si \<and> apply_ubatch si demo_ubatch c = Some c' \<and>
     (case token_cell si 2 1 of (t, j) \<Rightarrow> \<exists>e. kv_tables c' ! t ! j = (7, e, 0, {0}))"
proof -
  obtain c si where c: "kv_inv c" "searchable c" "ubatch_ok c demo_ubatch 1 2" "find_slot demo_ubatch False c = Some si"
    "\<not> slot_empty si" "k_swa_type c = SWA_NONE" by (rule demo_found)
  from apply_fills_free_cells [OF c] obtain c' where c': "apply_ubatch si demo_ubatch c = Some c'"
    "\<forall>i < 1 * 2. case token_cell si 2 i of (t, j) \<Rightarrow> fst (kv_tables c ! t ! j) = -1 \<and>
        (\<exists>e. kv_tables c' ! t ! j = (u_pos demo_ubatch ! i, e, 0, set (token_seqs demo_ubatch i)))" by blast
  have "u_pos demo_ubatch ! 1 = 7" "set (token_seqs demo_ubatch 1) = {0}" by (simp_all add: demo_ubatch_def token_seqs_def)
  with spec [OF c'(2), of 1] c'(1) c(1,4) show ?thesis by (auto split: prod.splits)
qed

end
