(* ===== verification/Kv_Prepare.thy ===== *)
theory Kv_Prepare
  imports Kv_Apply
begin

text \<open>
  \<open>prepare\<close>: slots are found by placing the micro-batches one after the other, and the cells are put
  back at the end. Without a sliding window the cache ends up with exactly the cells it had.
\<close>

section \<open>Placing without a sliding window\<close>

lemma place_tokens_cells:
  assumes "x \<in> set (place_tokens si u n k tabs ! t)" "t < length tabs"
  shows "x \<in> set (tabs ! t) \<or> (\<exists>i < k. \<exists>y. x = placed u i y)"
  using assms(1)
proof (induction k)
  case (Suc k)
  obtain s j where sj: "token_cell si n k = (s, j)" by fastforce
  let ?tabs = "place_tokens si u n k tabs"
  have "x \<in> set (?tabs ! t) \<or> x = placed u k (?tabs ! s ! j)"
  proof (cases "s = t")
    case True
    have "t < length ?tabs" using assms(2) place_tokens_shape by metis
    with True
    have "x \<in> set ((?tabs ! t)[j := placed u k (?tabs ! s ! j)])"
      using Suc.prems by (simp add: place_tokens_Suc place_token_def sj)
    then show ?thesis using set_update_subset_insert [of "?tabs ! t" j "placed u k (?tabs ! s ! j)"] by blast
  next
    case False
    then show ?thesis using Suc.prems by (simp add: place_tokens_Suc place_token_def sj)
  qed
  then show ?case using Suc.IH less_SucI by blast
qed (simp add: place_tokens_def)

lemma foldo_purge_none: "foldo (purge_seq (\<lambda>_. -1)) ts c = Some c"
  by (induction ts) (simp_all add: purge_seq_def)

text \<open>The state after a micro-batch: placed tokens, and everything a later restore relies on.\<close>

lemma apply_no_swa:
  assumes inv: "kv_inv c" and srch: "searchable c" and none: "k_swa_type c = SWA_NONE" and ub: "ubatch_ok c u m n"
    and slot: "slot_ok c u m n si"
  shows "\<exists>c'. apply_ubatch si u c = Some c' \<and> kv_inv c' \<and> same_config c c' \<and> k_sc_info c' = k_sc_info c \<and>
     kv_size c' = kv_size c \<and> kv_tables c' = place_tokens si u n (m * n) (kv_tables c) \<and>
     map c_has_shift (k_v_cells c') = map c_has_shift (k_v_cells c) \<and> searchable c'"
proof -
  note fit = slot_fits [OF inv srch ub slot]
  have ow: "overwritten si n (kv_tables c) (m * n) = (\<lambda>_. -1)"
    by (rule overwritten_none) (use slot_cells_free(3) [OF inv none slot fit] in fastforce)
  obtain c1 where c1: "foldo (\<lambda>s st. foldo (emplace_token si u n s) [0..<n] st) [0..<m] (c, \<lambda>_. -1) = Some (c1, \<lambda>_. -1)"
    "kv_inv c1" "same_frame c c1" "kv_tables c1 = place_tokens si u n (m * n) (kv_tables c)"
    using emplace_all [OF inv fit] unfolding ow by blast
  have cfg: "same_config c c1" "kv_size c1 = kv_size c" "k_n_stream c1 = k_n_stream c" using c1(3) by (simp_all add: same_frame_def same_config_def)
  have rows: "\<forall>s < m. si_strm si ! s < k_n_stream c1 \<and> si_idxs si ! s \<noteq> [] \<and> (\<forall>j \<in> set (si_idxs si ! s). j < kv_size c1)"
    using fit cfg by (fastforce simp: fits_def)
  have len: "length (si_strm si) = m" "length (si_idxs si) = m" "0 < m" "length (si_idxs si ! 0) = n" "u_n_tokens u = m * n"
    using fit by (simp_all add: fits_def)
  have "kv_size c1 < 4294967296" using searchable_size [OF srch] cfg(2) by simp
  from advance_heads [OF c1(2) _ _ this rows] len obtain c3 where c3: "foldo (advance_head si) [0..<m] c1 = Some c3" "kv_inv c3"
    "same_config c1 c3" "k_sc_info c3 = k_sc_info c1" "k_v_cells c3 = k_v_cells c1" "kv_size c3 = kv_size c1" by auto
  have ne: "si_idxs si \<noteq> []" using len(2,3) by auto
  have run: "apply_ubatch si u c = Some c3"
    using c1(1) c3(1) len hd_conv_nth [OF ne] ne foldo_purge_none by (simp add: apply_ubatch_def slot_size_def slot_n_stream_def)
  have tab: "kv_tables c3 = place_tokens si u n (m * n) (kv_tables c)" using c3(5) c1(4) by (simp add: kv_tables_def)
  have cfg3: "same_config c c3" using same_config_trans [OF cfg(1) c3(3)] .
  have "fst x < INT32_MAX" if tb: "tb \<in> set (kv_tables c3)" and x: "x \<in> set tb" for tb x
  proof -
    obtain t where t: "t < length (kv_tables c)" "tb = kv_tables c3 ! t"
      using tb place_tokens_shape [of si u n "m * n" "kv_tables c"] unfolding tab in_set_conv_nth by auto
    from place_tokens_cells [OF _ t(1), of x si u n "m * n"] x t(2) tab
    consider "x \<in> set (kv_tables c ! t)" | i y where "i < m * n" "x = placed u i y" by auto
    then show ?thesis
    proof cases
      case 1
      then show ?thesis using srch t(1) nth_mem [OF t(1)] by (auto simp: searchable_iff)
    next
      case 2
      have "token_ok c u i (strm c (u_seq_id_unq u ! (i div n)))" using ub 2(1) by (simp add: ubatch_ok_def)
      then show ?thesis using 2(2) by (cases y) (simp add: token_ok_def)
    qed
  qed
  then have "searchable c3" using srch cfg3 cfg(2) c3(6) by (simp add: searchable_iff swa_ok_def same_config_def)
  then show ?thesis using run c3 cfg cfg3 tab c1(3) by (auto simp: same_frame_def)
qed

section \<open>Saving and restoring\<close>

lemma save_slot_total:
  assumes "kv_inv c" "fits c u m n si" "\<forall>i < m * n. case token_cell si n i of (t, j) \<Rightarrow> fst (kv_tables c ! t ! j) = -1"
  shows "\<exists>old. save_slot si c = Some old \<and> length old = m \<and>
     (\<forall>s < m. cells_cp (si_idxs si ! s) (k_v_cells c ! (si_strm si ! s)) = Some (old ! s))"
proof -
  let ?f = "\<lambda>s. cells_cp (si_idxs si ! s) (k_v_cells c ! (si_strm si ! s))"
  have pos: "0 < n" "length (si_strm si) = m" "length (si_idxs si) = m" using assms(2) by (simp_all add: fits_def)
  have ex: "\<exists>d. ?f s = Some d" if s: "s < m" for s
  proof (rule cells_cp_total, rule ballI)
    fix j assume "j \<in> set (si_idxs si ! s)"
    then obtain k where k: "k < n" "si_idxs si ! s ! k = j" using assms(2) s by (auto simp: in_set_conv_nth fits_def)
    have i: "s * n + k < m * n" using s k(1) by (metis add_less_cancel_left less_le_trans mult_Suc mult_le_mono1 Suc_leI add.commute)
    have tj: "token_cell si n (s * n + k) = (si_strm si ! s, j)" using k pos(1) by (simp add: token_cell_def)
    note ft = fits_token [OF assms(2) i, unfolded tj]
    have t: "si_strm si ! s < k_n_stream c" using ft(4) by simp
    note st = kv_inv_stream [OF assms(1) t]
    have j: "j < cells_size (k_v_cells c ! (si_strm si ! s))" using ft(5) st(4) by simp
    have "fst (kv_tables c ! (si_strm si ! s) ! j) = -1" using assms(3) i tj by fastforce
    then have "c_pos (k_v_cells c ! (si_strm si ! s)) ! j = -1" using st(7) j by (simp add: cell_def)
    then show "j < cells_size (k_v_cells c ! (si_strm si ! s)) \<and> c_shift (k_v_cells c ! (si_strm si ! s)) ! j = 0"
      using j cells_wf_cell [OF cells_inv_wf [OF st(3)] j] by (simp add: cell_ok_def)
  qed
  let ?old = "map (\<lambda>s. the (?f s)) [0..<m]"
  have lt: "si_strm si ! s < length (k_v_cells c)" if "s < m" for s
    using assms(1,2) that kv_inv_stream(1) [OF assms(1)] by (simp add: fits_def)
  have "save_slot si c = Some ?old"
    unfolding save_slot_def slot_n_stream_def pos(2) by (rule those_map_Some) (use ex lt pos(2,3) in auto)
  then show ?thesis using ex by (intro exI [of _ ?old]) auto
qed

text \<open>A stream after the micro-batch differs from the stream before only in the cells of its slot.\<close>

definition placed_batch :: "kv_cache \<Rightarrow> kv_cache \<Rightarrow> llama_ubatch \<Rightarrow> nat \<Rightarrow> nat \<Rightarrow> slot_info \<Rightarrow> bool" where
  "placed_batch c c' u m n si \<longleftrightarrow> kv_inv c \<and> kv_inv c' \<and> fits c u m n si \<and> same_config c c' \<and> kv_size c' = kv_size c \<and>
     distinct (si_strm si) \<and> kv_tables c' = place_tokens si u n (m * n) (kv_tables c) \<and>
     map c_has_shift (k_v_cells c') = map c_has_shift (k_v_cells c)"

lemma placed_batchD:
  assumes "placed_batch c c' u m n si"
  shows "kv_inv c" "kv_inv c'" "fits c u m n si" "same_config c c'" "kv_size c' = kv_size c" "distinct (si_strm si)"
    "kv_tables c' = place_tokens si u n (m * n) (kv_tables c)" "map c_has_shift (k_v_cells c') = map c_has_shift (k_v_cells c)"
    "0 < n" "length (si_strm si) = m" "length (si_idxs si) = m" "k_n_stream c' = k_n_stream c"
    "s < m \<Longrightarrow> si_strm si ! s < k_n_stream c \<and> length (si_idxs si ! s) = n"
  using assms by (simp_all add: placed_batch_def fits_def same_config_def)

lemma token_at:
  assumes "0 < n" "s < m" "k < n"
  shows "s * n + k < m * n" "token_cell si n (s * n + k) = (si_strm si ! s, si_idxs si ! s ! k)"
proof -
  have "s * n + k < Suc s * n" using assms(3) by simp
  also have "\<dots> \<le> m * n" using assms(2) by (intro mult_le_mono1) simp
  finally show "s * n + k < m * n" .
  show "token_cell si n (s * n + k) = (si_strm si ! s, si_idxs si ! s ! k)" using assms(1,3) by (simp add: token_cell_def)
qed

lemma placed_streams:
  assumes pb: "placed_batch c c' u m n si" and t: "t < k_n_stream c"
  shows "cells_inv (k_v_cells c ! t)" "cells_inv (k_v_cells c' ! t)" "cells_size (k_v_cells c ! t) = kv_size c"
    "cells_size (k_v_cells c' ! t) = kv_size c" "c_has_shift (k_v_cells c' ! t) = c_has_shift (k_v_cells c ! t)"
    "i < kv_size c \<Longrightarrow> cell (k_v_cells c' ! t) i = kv_tables c' ! t ! i"
    "i < kv_size c \<Longrightarrow> cell (k_v_cells c ! t) i = kv_tables c ! t ! i"
proof -
  note p = placed_batchD [OF pb]
  have t': "t < k_n_stream c'" using t p(12) by simp
  note st = kv_inv_stream [OF p(1) t] note st' = kv_inv_stream [OF p(2) t']
  show "cells_inv (k_v_cells c ! t)" "cells_inv (k_v_cells c' ! t)" "cells_size (k_v_cells c ! t) = kv_size c"
    "cells_size (k_v_cells c' ! t) = kv_size c" using st(3,4) st'(3,4) p(5) by simp_all
  show "c_has_shift (k_v_cells c' ! t) = c_has_shift (k_v_cells c ! t)"
    using arg_cong [OF p(8), of "\<lambda>xs. xs ! t"] st(1) st'(1) by simp
  show "i < kv_size c \<Longrightarrow> cell (k_v_cells c' ! t) i = kv_tables c' ! t ! i"
    "i < kv_size c \<Longrightarrow> cell (k_v_cells c ! t) i = kv_tables c ! t ! i"
    using st(4,7) st'(4,7) p(5) by simp_all
qed

lemma placed_others:
  assumes pb: "placed_batch c c' u m n si"
    and "\<And>s k. s < m \<Longrightarrow> k < n \<Longrightarrow> (si_strm si ! s, si_idxs si ! s ! k) \<noteq> (t, i)"
  shows "kv_tables c' ! t ! i = kv_tables c ! t ! i"
  unfolding placed_batchD(7) [OF pb]
proof (rule place_tokens_other, intro allI impI)
  fix k assume "k < m * n"
  from fits_token [OF placed_batchD(3) [OF pb] this] assms(2) [of "k div n" "k mod n"]
  show "token_cell si n k \<noteq> (t, i)" by (simp add: token_cell_def)
qed

lemma placed_other_stream:
  assumes pb: "placed_batch c c' u m n si" and t: "t < k_n_stream c" "t \<notin> set (si_strm si)"
  shows "k_v_cells c' ! t = k_v_cells c ! t"
proof (rule cells_eqI)
  note st = placed_streams [OF pb t(1)]
  show "cells_inv (k_v_cells c' ! t)" "cells_inv (k_v_cells c ! t)" "c_has_shift (k_v_cells c' ! t) = c_has_shift (k_v_cells c ! t)"
    using st(1,2,5) by simp_all
  have "kv_tables c' ! t ! i = kv_tables c ! t ! i" for i
    by (rule placed_others [OF pb]) (use t(2) placed_batchD(10) [OF pb] in auto)
  then show "cell_list (k_v_cells c' ! t) = cell_list (k_v_cells c ! t)"
    by (intro nth_equalityI) (simp_all add: st)
qed

lemma placed_slot_stream:
  assumes pb: "placed_batch c c' u m n si" and s: "s < m"
    and old: "cells_cp (si_idxs si ! s) (k_v_cells c ! (si_strm si ! s)) = Some d"
  shows "cells_set (si_idxs si ! s) d (k_v_cells c' ! (si_strm si ! s)) = Some (k_v_cells c ! (si_strm si ! s))"
proof -
  let ?t = "si_strm si ! s"
  note p = placed_batchD [OF pb]
  have t: "?t < k_n_stream c" using p(13) [OF s] by simp
  note st = placed_streams [OF pb t]
  have shift: "c_shift (k_v_cells c' ! ?t) ! i = 0" if i: "i \<in> set (si_idxs si ! s)" for i
  proof -
    obtain k where k: "k < n" "si_idxs si ! s ! k = i" using i p(13) [OF s] by (auto simp: in_set_conv_nth)
    note tok = token_at(1) [OF p(9) s k(1)] token_at(2) [OF p(9) s k(1), of si] note ft = fits_token [OF p(3) tok(1), unfolded tok(2)]
    have lt: "i < kv_size c" using ft(5) k(2) by simp
    have len: "?t < length (kv_tables c)" "i < length (kv_tables c ! ?t)"
      using t lt kv_inv_stream(1,4,7) [OF p(1) t] by (simp_all add: kv_tables_def)
    have inj: "inj_on (token_cell si n) {..<m * n}" using p(3) by (simp add: fits_def)
    have "kv_tables c' ! ?t ! i = placed u (s * n + k) (kv_tables c ! ?t ! i)"
      unfolding p(7) by (rule place_tokens_at [OF inj tok(1) _ len]) (use tok(2) k(2) in simp)
    then show ?thesis using st(6) [OF lt] by (cases "kv_tables c ! ?t ! i") (simp add: cell_def)
  qed
  have keep: "cell (k_v_cells c' ! ?t) i = cell (k_v_cells c ! ?t) i" if i: "i < kv_size c" "i \<notin> set (si_idxs si ! s)" for i
  proof -
    have "(si_strm si ! s', si_idxs si ! s' ! k) \<noteq> (?t, i)" if "s' < m" "k < n" for s' k
      using that s i(2) p(13) [OF s] p(10) nth_eq_iff_index_eq [OF p(6), of s' s] by auto
    from placed_others [OF pb this] show ?thesis using st(6,7) [OF i(1)] by simp
  qed
  show ?thesis
    by (rule cells_set_restores [OF st(1) old st(2) _ _ _ st(5)]) (use st(3,4) shift keep in auto)
qed

lemma restore_state_spec:
  assumes pb: "placed_batch c c' u m n si" and old: "length old = m"
      "\<forall>s < m. cells_cp (si_idxs si ! s) (k_v_cells c ! (si_strm si ! s)) = Some (old ! s)"
    and d: "kv_inv d" "same_config c d" "k_v_cells d = k_v_cells c'"
  shows "\<exists>e. restore_state \<lparr>ps_sinfo = si, ps_heads_old = k_v_heads c, ps_cells = old\<rparr> d = Some e \<and> kv_inv e \<and> same_config c e \<and>
     k_v_cells e = k_v_cells c \<and> k_sc_info e = k_sc_info d \<and> (k_n_stream c = 1 \<longrightarrow> k_v_heads e = k_v_heads c)"
proof -
  let ?st = "\<lparr>ps_sinfo = si, ps_heads_old = k_v_heads c, ps_cells = old\<rparr>"
  note p = placed_batchD [OF pb]
  have heads: "length (k_v_heads c) = k_n_stream c" "length (k_v_cells c) = k_n_stream c" "0 < k_n_stream c" using p(1) by (simp_all add: kv_inv_def)
  have "set (si_strm si) \<subseteq> {..<k_n_stream c}" using p(10,13) by (auto simp: in_set_conv_nth)
  then have m: "m \<le> k_n_stream c" using card_mono [of "{..<k_n_stream c}" "set (si_strm si)"] distinct_card [OF p(6)] p(10) by simp
  have m0: "0 < m" using p(3) by (simp add: fits_def)
  let ?cells = "\<lambda>k. map (\<lambda>t. if t \<in> set (take k (si_strm si)) then k_v_cells c ! t else k_v_cells c' ! t) [0..<k_n_stream c]"
  let ?P = "\<lambda>k e. kv_inv e \<and> same_config c e \<and> k_v_cells e = ?cells k \<and> k_sc_info e = k_sc_info d \<and>
     (0 < k \<longrightarrow> k_n_stream c = 1 \<longrightarrow> k_v_heads e = k_v_heads c)"
  have "\<exists>e. foldo (restore_stream ?st) [0..<m] d = Some e \<and> ?P m e"
  proof (rule foldo_upt_invariant [where P = ?P])
    have "length (k_v_cells c') = k_n_stream c" using p(2,12) by (simp add: kv_inv_def)
    then show "?P 0 d" using d by (auto simp: list_eq_iff_nth_eq)
  next
    fix s e
    assume s: "s < m" and P: "?P s e"
    let ?t = "si_strm si ! s"
    have t: "?t < k_n_stream c" using p(13) [OF s] by simp
    have ne: "?t \<notin> set (take s (si_strm si))" using p(6,10) s by (auto simp: in_set_conv_nth nth_eq_iff_index_eq)
    have e: "kv_inv e" "same_config c e" "k_v_cells e = ?cells s" "k_sc_info e = k_sc_info d" using P by blast+
    have now: "k_v_cells e ! ?t = k_v_cells c' ! ?t" using e(3) t ne by simp
    have set: "cells_set (si_idxs si ! s) (old ! s) (k_v_cells e ! ?t) = Some (k_v_cells c ! ?t)"
      unfolding now using placed_slot_stream [OF pb s] old(2) s by simp
    have te: "?t < k_n_stream e" using t e(2) by (simp add: same_config_def)
    note ste = kv_inv_stream [OF e(1) te] note stc = kv_inv_stream [OF p(1) t]
    have size: "kv_size e = kv_size c" using ste(4) now placed_streams(4) [OF pb t] by simp
    have "stream_ok e (kv_size e) ?t (k_v_cells c ! ?t)"
      using stc(3,4,5) cell_good_cong [of e c] e(2) by (simp add: stream_ok_def size same_config_def)
    note put = kv_inv_put_cells [OF e(1) te this]
    have "k_v_heads c ! s \<le> kv_size (put_cells ?t (k_v_cells c ! ?t) e)"
      using kv_inv_stream(6) [OF p(1), of s] s m put(3) size by simp
    note puth = kv_inv_put_head [OF put(1) this, of ?t]
    let ?e = "put_head ?t (k_v_heads c ! s) (put_cells ?t (k_v_cells c ! ?t) e)"
    have lens: "s < length (si_strm si)" "s < length (si_idxs si)" "s < length old" "s < length (k_v_heads c)"
      using s m p(10,11) old(1) heads(1) by simp_all
    have run: "restore_stream ?st s e = Some ?e"
      using lens set ste(1,2) by (simp add: restore_stream_def put_cells_def)
    have "k_v_cells ?e = ?cells (Suc s)"
      using e(3) t s p(10) heads by (auto simp: put_head_def put_cells_def list_eq_iff_nth_eq nth_list_update take_Suc_conv_app_nth)
    moreover have "same_config c ?e" using e(2) same_config_trans same_config_put(3) by blast
    moreover have "k_v_heads ?e = k_v_heads c" if one: "k_n_stream c = 1"
    proof -
      have "length (k_v_heads e) = 1" using e(1,2) one by (simp add: kv_inv_def same_config_def)
      moreover have "s = 0" using s m one by simp
      ultimately show ?thesis using one t heads(1) by (auto simp: put_head_def put_cells_def list_eq_iff_nth_eq)
    qed
    ultimately have "?P (Suc s) ?e" using puth(1) e(4) by simp
    with run show "\<exists>e'. restore_stream ?st s e = Some e' \<and> ?P (Suc s) e'" by blast
  qed
  then obtain e where e: "foldo (restore_stream ?st) [0..<m] d = Some e" "?P m e" by blast
  have "?cells m = k_v_cells c"
    using placed_other_stream [OF pb] p(10) heads by (auto simp: list_eq_iff_nth_eq)
  then show ?thesis using e m0 p(10) by (simp add: restore_state_def slot_n_stream_def)
qed

section \<open>The whole batch\<close>

text \<open>Placing the micro-batches of a batch one after the other, as a context does after \<open>prepare\<close>.\<close>

definition apply_all :: "slot_info list \<Rightarrow> llama_ubatch list \<Rightarrow> kv_cache \<Rightarrow> kv_cache option" where
  "apply_all sis us c = foldo (\<lambda>(si, u). apply_ubatch si u) (zip sis us) c"

definition restores :: "kv_cache \<Rightarrow> kv_cache \<Rightarrow> prep_state list \<Rightarrow> bool" where
  "restores c c1 sts \<longleftrightarrow> (\<forall>d. kv_inv d \<longrightarrow> same_config c d \<longrightarrow> k_v_cells d = k_v_cells c1 \<longrightarrow> (sts = [] \<longrightarrow> k_v_heads d = k_v_heads c) \<longrightarrow>
     (\<exists>e. foldo restore_state (rev sts) d = Some e \<and> kv_inv e \<and> same_config c e \<and> k_v_cells e = k_v_cells c \<and>
        k_sc_info e = k_sc_info d \<and> (k_n_stream c = 1 \<longrightarrow> k_v_heads e = k_v_heads c)))"

lemma restores_step:
  assumes pb: "placed_batch c c' u m n si" and old: "length old = m"
      "\<forall>s < m. cells_cp (si_idxs si ! s) (k_v_cells c ! (si_strm si ! s)) = Some (old ! s)"
    and rest: "restores c' c1 sts" and c1: "sts = [] \<Longrightarrow> k_v_cells c1 = k_v_cells c'"
  shows "restores c c1 (\<lparr>ps_sinfo = si, ps_heads_old = k_v_heads c, ps_cells = old\<rparr> # sts)"
  unfolding restores_def
proof (intro allI impI)
  fix d
  assume d: "kv_inv d" "same_config c d" "k_v_cells d = k_v_cells c1"
  have cfg: "same_config c c'" by (rule placed_batchD(4) [OF pb])
  have cd: "same_config c' d" using cfg d(2) by (simp add: same_config_def)
  have "\<exists>e. foldo restore_state (rev sts) d = Some e \<and> kv_inv e \<and> same_config c e \<and> k_v_cells e = k_v_cells c' \<and> k_sc_info e = k_sc_info d"
  proof (cases "sts = []")
    case True
    then show ?thesis using d c1 by simp
  next
    case False
    with rest d(1,3) cd obtain e where "foldo restore_state (rev sts) d = Some e" "kv_inv e" "same_config c' e"
      "k_v_cells e = k_v_cells c'" "k_sc_info e = k_sc_info d" unfolding restores_def by blast
    then show ?thesis using same_config_trans [OF cfg] by blast
  qed
  then obtain e where e: "foldo restore_state (rev sts) d = Some e" "kv_inv e" "same_config c e" "k_v_cells e = k_v_cells c'"
    "k_sc_info e = k_sc_info d" by blast
  from restore_state_spec [OF pb old e(2-4)] e(1,5)
  show "\<exists>e. foldo restore_state (rev (\<lparr>ps_sinfo = si, ps_heads_old = k_v_heads c, ps_cells = old\<rparr> # sts)) d = Some e \<and>
      kv_inv e \<and> same_config c e \<and> k_v_cells e = k_v_cells c \<and> k_sc_info e = k_sc_info d \<and>
      (k_n_stream c = 1 \<longrightarrow> k_v_heads e = k_v_heads c)"
    by (auto simp: foldo_append)
qed

lemma slot_found_facts:
  assumes inv: "kv_inv c" and srch: "searchable c" and none: "k_swa_type c = SWA_NONE" and ub: "ubatch_ok c u m n"
    and found: "find_slot u False c = Some si" "\<not> slot_empty si"
  shows "\<exists>old c'. save_slot si c = Some old \<and> length old = m \<and>
     (\<forall>s < m. cells_cp (si_idxs si ! s) (k_v_cells c ! (si_strm si ! s)) = Some (old ! s)) \<and>
     apply_ubatch si u c = Some c' \<and> placed_batch c c' u m n si \<and> searchable c' \<and> k_sc_info c' = k_sc_info c"
proof -
  have seqs: "ubatch_seqs_ok c u m n" using ub by (simp add: ubatch_ok_def)
  note slot = found_slot_ok [OF inv srch seqs found] note fit = slot_fits [OF inv srch ub slot]
  have "\<forall>i < m * n. case token_cell si n i of (t, j) \<Rightarrow> fst (kv_tables c ! t ! j) = -1"
    using slot_cells_free(3) [OF inv none slot fit] by fastforce
  note old = save_slot_total [OF inv fit this]
  from apply_no_swa [OF inv srch none ub slot] obtain c' where
    c': "apply_ubatch si u c = Some c'" "kv_inv c'" "same_config c c'" "k_sc_info c' = k_sc_info c" "kv_size c' = kv_size c"
      "kv_tables c' = place_tokens si u n (m * n) (kv_tables c)"
      "map c_has_shift (k_v_cells c') = map c_has_shift (k_v_cells c)" "searchable c'" by blast
  have "distinct (si_strm si)" using ub slot by (simp add: ubatch_ok_def slot_ok_def)
  then have "placed_batch c c' u m n si" using c' inv fit by (simp add: placed_batch_def)
  then show ?thesis using old c'(1,4,8) by blast
qed

lemma prepare_loop_spec:
  assumes "kv_inv c" "searchable c" "k_swa_type c = SWA_NONE" "\<forall>u \<in> set us. \<exists>m n. ubatch_ok c u m n"
  shows "\<exists>ok sts sis c1. prepare_loop us states res c = Some (ok, states @ sts, res @ sis, c1) \<and> kv_inv c1 \<and> same_config c c1 \<and>
     k_sc_info c1 = k_sc_info c \<and> length sts = length sis \<and> (sts = [] \<longrightarrow> c1 = c) \<and>
     (ok \<longrightarrow> length sis = length us \<and> apply_all sis us c = Some c1) \<and> restores c c1 sts"
  using assms
proof (induction us arbitrary: c states res)
  case Nil
  then show ?case by (intro exI [of _ True] exI [of _ "[]"] exI [of _ c]) (simp add: restores_def apply_all_def)
next
  case (Cons u us)
  obtain m n where ub: "ubatch_ok c u m n" using Cons.prems(4) by auto
  have seqs: "ubatch_seqs_ok c u m n" using ub by (simp add: ubatch_ok_def)
  obtain si where si: "find_slot u False c = Some si" using find_slot_cases [OF Cons.prems(1,2) seqs] by blast
  show ?case
  proof (cases "slot_empty si")
    case True
    then show ?thesis using si Cons.prems(1)
      by (intro exI [of _ False] exI [of _ "[]"] exI [of _ c]) (simp add: restores_def)
  next
    case False
    from slot_found_facts [OF Cons.prems(1-3) ub si False] obtain old c' where
      old: "save_slot si c = Some old" "length old = m"
        "\<forall>s < m. cells_cp (si_idxs si ! s) (k_v_cells c ! (si_strm si ! s)) = Some (old ! s)"
      and c': "apply_ubatch si u c = Some c'" "placed_batch c c' u m n si" "searchable c'" "k_sc_info c' = k_sc_info c" by blast
    note p = placed_batchD [OF c'(2)]
    let ?st = "\<lparr>ps_sinfo = si, ps_heads_old = k_v_heads c, ps_cells = old\<rparr>"
    have none: "k_swa_type c' = SWA_NONE" using p(4) Cons.prems(3) by (simp add: same_config_def)
    have ubs: "\<forall>u \<in> set us. \<exists>m n. ubatch_ok c' u m n" using Cons.prems(4) ubatch_ok_cong [OF p(4)] by simp
    from Cons.IH [OF p(2) c'(3) none ubs, of "states @ [?st]" "res @ [si]"] obtain ok sts sis c1 where
      r: "prepare_loop us (states @ [?st]) (res @ [si]) c' = Some (ok, (states @ [?st]) @ sts, (res @ [si]) @ sis, c1)"
        "kv_inv c1" "same_config c' c1" "k_sc_info c1 = k_sc_info c'" "length sts = length sis" "sts = [] \<longrightarrow> c1 = c'"
        "ok \<longrightarrow> length sis = length us \<and> apply_all sis us c' = Some c1" "restores c' c1 sts" by blast
    have "restores c c1 (?st # sts)" by (rule restores_step [OF c'(2) old(2,3) r(8)]) (use r(6) in simp)
    moreover have "prepare_loop (u # us) states res c = Some (ok, states @ ?st # sts, res @ si # sis, c1)"
      using si False old(1) c'(1) r(1) by simp
    moreover have "ok \<longrightarrow> length (si # sis) = length (u # us) \<and> apply_all (si # sis) (u # us) c = Some c1"
      using r(7) c'(1) by (simp add: apply_all_def)
    ultimately show ?thesis using r(2-5) c'(4) same_config_trans [OF p(4) r(3)]
      by (intro exI [of _ ok] exI [of _ "?st # sts"] exI [of _ "si # sis"] exI [of _ c1]) simp
  qed
qed

lemma kv_cache_eqI:
  fixes c e :: kv_cache
  assumes "same_config c e" "k_v_cells e = k_v_cells c" "k_sc_info e = k_sc_info c"
  shows "e = c\<lparr>k_v_heads := k_v_heads e\<rparr>"
  using assms by (cases c; cases e) (simp add: same_config_def)

lemma prepare_spec:
  assumes "kv_inv c" "searchable c" "k_swa_type c = SWA_NONE" "us \<noteq> []" "\<forall>u \<in> set us. \<exists>m n. ubatch_ok c u m n"
  shows "\<exists>sis hs. prepare us c = Some (sis, c\<lparr>k_v_heads := hs\<rparr>) \<and> kv_inv (c\<lparr>k_v_heads := hs\<rparr>) \<and>
     (k_n_stream c = 1 \<longrightarrow> hs = k_v_heads c) \<and>
     (sis \<noteq> [] \<longrightarrow> length sis = length us \<and> (\<exists>c'. apply_all sis us c = Some c' \<and> kv_inv c'))"
proof -
  obtain ok sts sis c1 where r: "prepare_loop us [] [] c = Some (ok, sts, sis, c1)" "kv_inv c1" "same_config c c1"
      "k_sc_info c1 = k_sc_info c" "length sts = length sis" "sts = [] \<longrightarrow> c1 = c"
      "ok \<longrightarrow> length sis = length us \<and> apply_all sis us c = Some c1" "restores c c1 sts"
    using prepare_loop_spec [OF assms(1-3,5), of "[]" "[]"] by auto
  obtain e where e: "foldo restore_state (rev sts) c1 = Some e" "kv_inv e" "same_config c e" "k_v_cells e = k_v_cells c"
    "k_sc_info e = k_sc_info c1" "k_n_stream c = 1 \<longrightarrow> k_v_heads e = k_v_heads c"
    using r(2,3,6,8) unfolding restores_def by blast
  have eq: "e = c\<lparr>k_v_heads := k_v_heads e\<rparr>" using kv_cache_eqI [OF e(3,4)] e(5) r(4) by simp
  have "sts \<noteq> [] \<or> \<not> ok" using r(5,7) assms(4) by auto
  then have "prepare us c = Some (if ok then sis else [], c\<lparr>k_v_heads := k_v_heads e\<rparr>)"
    using r(1) e(1) unfolding eq [symmetric] by (auto simp add: prepare_def)
  moreover have "kv_inv (c\<lparr>k_v_heads := k_v_heads e\<rparr>)" using e(2) unfolding eq [symmetric] .
  ultimately show ?thesis using e(6) r(2,7)
    by (intro exI [of _ "if ok then sis else []"] exI [of _ "k_v_heads e"]) simp
qed

text \<open>
  C16 (round trip): for a cache without a sliding window, of fewer than \<open>2 ^ 31\<close> cells, and at
  least one micro-batch, each as the splitters make them,
  \<open>prepare\<close> leaves every member of the cache but the search heads exactly as it was, whether it finds slots for all micro-batches or not; with a
  single stream the heads are the same, too. When it returns slots there is one per micro-batch, and
  placing the micro-batches into them in order succeeds and keeps the invariant.
\<close>

theorem prepare_restores:
  assumes "kv_inv c" "searchable c" "k_swa_type c = SWA_NONE" "us \<noteq> []" "\<forall>u \<in> set us. \<exists>m n. ubatch_ok c u m n"
  shows "\<exists>sis hs. prepare us c = Some (sis, c\<lparr>k_v_heads := hs\<rparr>) \<and> kv_inv (c\<lparr>k_v_heads := hs\<rparr>) \<and>
     (k_n_stream c = 1 \<longrightarrow> hs = k_v_heads c) \<and>
     (sis \<noteq> [] \<longrightarrow> length sis = length us \<and> (\<exists>c'. apply_all sis us c = Some c' \<and> kv_inv c'))"
  by (rule prepare_spec [OF assms])

theorem prepare_restores_witness:
  "\<exists>c sis. kv_inv c \<and> prepare [demo_ubatch] c = Some (sis, c)"
proof -
  obtain c si where c: "kv_inv c" "searchable c" "ubatch_ok c demo_ubatch 1 2" "k_swa_type c = SWA_NONE" "k_n_stream c = 1"
    by (rule demo_found)
  have "\<forall>u \<in> set [demo_ubatch]. \<exists>m n. ubatch_ok c u m n" using c(3) by auto
  from prepare_restores [OF c(1,2,4) _ this] c(5) obtain sis where "prepare [demo_ubatch] c = Some (sis, c\<lparr>k_v_heads := k_v_heads c\<rparr>)"
    by auto
  then show ?thesis using c(1) by auto
qed

end
