(* ===== verification/Kv_Inputs.thy ===== *)
theory Kv_Inputs
  imports Kv_Prepare
begin

unbundle bit_operations_syntax

text \<open>
  What the compute graph is given: how many cells it attends to, where keys and values are written,
  and which cells the attention mask lets a token see.
\<close>

section \<open>Padding\<close>

lemma and_not_mask_unat: "unat (a AND NOT (mask k) :: 32 word) = unat a - unat a mod 2 ^ k"
proof -
  have "a AND NOT (mask k) = push_bit k (drop_bit k a)" by (rule bit_word_eqI) (auto simp: bit_simps)
  then have eq: "(a AND NOT (mask k)) + take_bit k a = a" using bits_ident [of k a] by simp
  then have split: "a AND NOT (mask k) = a - take_bit k a" by (metis add_diff_cancel_right')
  have tb: "unat (take_bit k a) = unat a mod 2 ^ k" unfolding unsigned_take_bit_eq by (simp add: take_bit_eq_mod)
  then have "take_bit k a \<le> a" by (simp add: word_le_nat_alt)
  then show ?thesis unfolding split by (simp add: unat_sub tb)
qed

text \<open>\<open>GGML_PAD\<close> rounds up to a multiple of a power of two.\<close>

lemma ggml_pad_eq:
  assumes "k < 32" "x + 2 ^ k \<le> 4294967296"
  shows "ggml_pad x (2 ^ k) = (x + 2 ^ k - 1) - (x + 2 ^ k - 1) mod 2 ^ k"
proof -
  let ?w = "word_of_nat (x + 2 ^ k) - 1 :: 32 word"
  have m: "word_of_nat (2 ^ k) - 1 = (mask k :: 32 word)" by (simp add: mask_eq_exp_minus_1)
  have one: "1 \<le> x + 2 ^ k" using one_le_power [of "2::nat" k] by linarith
  have w: "?w = word_of_nat (x + 2 ^ k - 1)" unfolding of_nat_diff [OF one] by simp
  have "x + 2 ^ k - 1 < 4294967296" using assms(2) by simp
  then have "unat ?w = x + 2 ^ k - 1" unfolding w by (simp add: unat_of_nat)
  then show ?thesis unfolding ggml_pad_def m by (simp only: and_not_mask_unat)
qed

lemma ggml_pad_bounds:
  assumes "k < 32" "x + 2 ^ k \<le> 4294967296"
  shows "x \<le> ggml_pad x (2 ^ k)" "ggml_pad x (2 ^ k) < x + 2 ^ k" "2 ^ k dvd ggml_pad x (2 ^ k)"
proof -
  have "(x + 2 ^ k - 1) mod 2 ^ k < 2 ^ k" by simp
  then show "x \<le> ggml_pad x (2 ^ k)" "ggml_pad x (2 ^ k) < x + 2 ^ k" unfolding ggml_pad_eq [OF assms] by linarith+
  show "2 ^ k dvd ggml_pad x (2 ^ k)" unfolding ggml_pad_eq [OF assms] by (simp add: minus_mod_eq_mult_div)
qed

section \<open>The number of cells to attend to\<close>

lemma used_max_p1_le: "cells_inv c \<Longrightarrow> used_max_p1 c \<le> cells_size c"
  by (auto simp: used_max_p1_def cells_inv_def cells_wf_def Suc_le_eq)

lemma get_n_kv_spec:
  assumes inv: "kv_inv c" and pad: "max (k_n_pad c) 256 = 2 ^ k" "k < 32" "kv_size c + 2 ^ k \<le> 4294967296"
    and strms: "\<forall>t \<in> set (si_strm si). t < k_n_stream c"
  shows "\<exists>n. get_n_kv si c = Some n \<and> n \<le> kv_size c \<and>
     (\<forall>t \<in> set (si_strm si). used_max_p1 (k_v_cells c ! t) \<le> n) \<and> (si_strm si \<noteq> [] \<longrightarrow> min (kv_size c) 256 \<le> n)"
proof -
  let ?P = "\<lambda>s r. r \<le> kv_size c \<and> (\<forall>t \<in> set (take s (si_strm si)). used_max_p1 (k_v_cells c ! t) \<le> r) \<and> (0 < s \<longrightarrow> min (kv_size c) 256 \<le> r)"
  let ?f = "\<lambda>s result. do { strm \<leftarrow> nth_opt (si_strm si) s; cells \<leftarrow> nth_opt (k_v_cells c) strm;
     Some (max (min (cells_size cells) (max (2 ^ k) (ggml_pad (used_max_p1 cells) (2 ^ k)))) result) }"
  have "\<exists>r. foldo ?f [0..<length (si_strm si)] 0 = Some r \<and> ?P (length (si_strm si)) r"
  proof (rule foldo_upt_invariant [where P = ?P])
    fix s r
    assume s: "s < length (si_strm si)" and P: "?P s r"
    let ?t = "si_strm si ! s"
    have t: "?t < k_n_stream c" using strms s by simp
    note st = kv_inv_stream [OF inv t]
    let ?x = "used_max_p1 (k_v_cells c ! ?t)"
    let ?v = "min (kv_size c) (max (2 ^ k) (ggml_pad ?x (2 ^ k)))"
    have x: "?x \<le> kv_size c" using used_max_p1_le [OF st(3)] st(4) by simp
    then have "?x \<le> ggml_pad ?x (2 ^ k)" by (intro ggml_pad_bounds(1)) (use pad in simp_all)
    then have v: "?x \<le> ?v" "?v \<le> kv_size c" using x by simp_all
    have big: "256 \<le> (2 ^ k :: nat)" using pad(1) by (metis max.cobounded2)
    have "?f s r = Some (max ?v r)" using s st(1,4) by simp
    moreover have "?P (Suc s) (max ?v r)" using P v big s by (auto simp: take_Suc_conv_app_nth)
    ultimately show "\<exists>r'. ?f s r = Some r' \<and> ?P (Suc s) r'" by blast
  qed simp
  then show ?thesis unfolding get_n_kv_def Let_def pad(1) slot_n_stream_def by auto
qed

text \<open>
  C19 (bounds): the number of cells the graph attends to never exceeds the size of the cache and
  covers every used cell of every stream of the slot, for a padding that is a power of two.
\<close>

theorem get_n_kv_covers:
  assumes "kv_inv c" "max (k_n_pad c) 256 = 2 ^ k" "k < 32" "kv_size c + 2 ^ k \<le> 4294967296"
    and "\<forall>t \<in> set (si_strm si). t < k_n_stream c"
  shows "\<exists>n. get_n_kv si c = Some n \<and> n \<le> kv_size c \<and>
     (\<forall>t \<in> set (si_strm si). \<forall>j < kv_size c. fst (kv_tables c ! t ! j) \<noteq> -1 \<longrightarrow> j < n)"
proof -
  obtain n where n: "get_n_kv si c = Some n" "n \<le> kv_size c" "\<forall>t \<in> set (si_strm si). used_max_p1 (k_v_cells c ! t) \<le> n"
    using get_n_kv_spec [OF assms] by blast
  have "j < n" if t: "t \<in> set (si_strm si)" and j: "j < kv_size c" "fst (kv_tables c ! t ! j) \<noteq> -1" for t j
  proof -
    have "t < k_n_stream c" using assms(5) t by simp
    note st = kv_inv_stream [OF assms(1) this]
    have "c_pos (k_v_cells c ! t) ! j \<noteq> -1" using j st(4,7) by (simp add: cell_def)
    then have "j < used_max_p1 (k_v_cells c ! t)" using used_cells_bounds(2) [OF st(3)] j(1) st(4) by simp
    then show ?thesis using n(3) t by fastforce
  qed
  then show ?thesis using n by blast
qed

theorem get_n_kv_covers_witness:
  "\<exists>c n. kv_inv c \<and> kv_tables c = [[free_cell, (5, ext_zero, 0, {0}), free_cell, free_cell]] \<and>
     get_n_kv \<lparr>si_s0 = 0, si_s1 = 0, si_strm = [0], si_idxs = [[0]]\<rparr> c = Some n \<and> 1 < n \<and> n \<le> 4"
proof -
  obtain c where c: "kv_inv c" "kv_size c = 4" "k_n_stream c = 1"
    "kv_tables c = [[free_cell, (5, ext_zero, 0, {0}), free_cell, free_cell]]" "k_n_pad c = 1" by (rule demo_cache)
  let ?si = "\<lparr>si_s0 = 0, si_s1 = 0, si_strm = [0], si_idxs = [[0]]\<rparr>"
  from get_n_kv_covers [OF c(1), of 8 ?si] c obtain n where
    n: "get_n_kv ?si c = Some n" "n \<le> 4" "\<forall>j < 4. fst (kv_tables c ! 0 ! j) \<noteq> -1 \<longrightarrow> j < n" by auto
  have "1 < n" using spec [OF n(3), of 1] c(4) by simp
  with n(1,2) c(1,4) show ?thesis by blast
qed

section \<open>The attention mask\<close>

text \<open>Which cells a token at position \<open>p1\<close> of a sequence may attend to.\<close>

fun visible :: "kv_cache \<Rightarrow> bool \<Rightarrow> bool \<Rightarrow> int \<Rightarrow> int \<Rightarrow> int \<Rightarrow> int \<Rightarrow> cell \<Rightarrow> bool" where
  "visible c causal is_2d seq p1 x y (p0, e, h, b) \<longleftrightarrow> seq \<in> b \<and> (causal \<longrightarrow> p0 \<le> p1) \<and>
     \<not> (causal \<and> is_2d \<and> p0 = p1 \<and> is_2d_gt e x y) \<and> kv_is_masked_swa c p0 p1 = Some False"

fun mask_value :: "kv_cache \<Rightarrow> int \<Rightarrow> cell \<Rightarrow> int" where
  "mask_value c p1 (p0, e, h, b) = (if h_use_alibi (k_hparams c) then - \<bar>p0 - p1\<bar> else 0)"

lemma mask_entry_spec:
  assumes "cells_inv cells" "j < cells_size cells" "seq_ok s" "swa_ok c" "0 \<le> p1"
  shows "mask_entry c causal is_2d s p1 x y cells j =
     Some (if visible c causal is_2d s p1 x y (cell cells j) then Some (mask_value c p1 (cell cells j)) else None)"
proof (cases "s \<in> c_seq cells ! j")
  case False
  then show ?thesis using assms(1-3)
    by (simp add: mask_entry_def is_empty_eq seq_has_eq seq_ok_def cell_def)
next
  case True
  have ne: "c_pos cells ! j \<noteq> -1" using cells_inv_seq_pos [OF assms(1,2) True] .
  then have p: "0 \<le> c_pos cells ! j" using cells_inv_pos [OF assms(1,2)] by auto
  obtain b where b: "kv_is_masked_swa c (c_pos cells ! j) p1 = Some b"
    using is_masked_swa_total [OF p assms(5)] assms(4) by (auto simp: kv_is_masked_swa_def swa_ok_def)
  show ?thesis using True ne assms(1-3) b
    by (auto simp: mask_entry_def is_empty_eq seq_has_eq seq_ok_def cell_def pos_get_eq ext_get_eq)
qed

definition mask_2d_x :: "llama_ubatch \<Rightarrow> nat \<Rightarrow> int" where
  "mask_2d_x u i = (if is_pos_2d u then u_pos u ! (i + u_n_tokens u * 2) else 0)"

definition mask_2d_y :: "llama_ubatch \<Rightarrow> nat \<Rightarrow> int" where
  "mask_2d_y u i = (if is_pos_2d u then u_pos u ! (i + u_n_tokens u) else 0)"

definition mask_cell :: "llama_ubatch \<Rightarrow> bool \<Rightarrow> kv_cache \<Rightarrow> nat \<Rightarrow> cell \<Rightarrow> int option" where
  "mask_cell u causal c i x =
     (if visible c causal (is_pos_2d u) (u_seq_id u ! i ! 0) (u_pos u ! i) (mask_2d_x u i) (mask_2d_y u i) x
      then Some (mask_value c (u_pos u ! i) x) else None)"

lemma token_first:
  assumes "token_ok c u i t"
  shows "u_seq_id u ! i \<noteq> []" "u_seq_id u ! i ! 0 \<in> set (token_seqs u i)" "valid_seq c (u_seq_id u ! i ! 0)" "strm c (u_seq_id u ! i ! 0) = t"
proof -
  have ne: "token_seqs u i \<noteq> []" using assms by (simp add: token_ok_def)
  then show "u_seq_id u ! i \<noteq> []" by (auto simp: token_seqs_def)
  have "token_seqs u i ! 0 = u_seq_id u ! i ! 0" using ne by (simp add: token_seqs_def)
  then show m: "u_seq_id u ! i ! 0 \<in> set (token_seqs u i)" using ne nth_mem [of 0 "token_seqs u i"] by simp
  show "valid_seq c (u_seq_id u ! i ! 0)" "strm c (u_seq_id u ! i ! 0) = t" using m assms by (auto simp: token_ok_def)
qed

lemma mask_row_spec:
  assumes inv: "kv_inv c" and swa: "swa_ok c" and n: "n_kv \<le> kv_size c" and tok: "token_ok c u i t"
  shows "mask_row u causal n_kv c i = Some (map (\<lambda>j. mask_cell u causal c i (kv_tables c ! t ! j)) [0..<n_kv])"
proof -
  let ?s = "u_seq_id u ! i ! 0"
  note f = token_first [OF tok] note q = kv_inv_seq [OF inv f(3)] note st = kv_inv_stream [OF inv q(2), unfolded f(4)]
  have t: "i < length (u_seq_id u)" "i < length (u_pos u)" "0 \<le> u_pos u ! i" "is_pos_2d u \<longrightarrow> i + u_n_tokens u * 2 < length (u_pos u)"
    using tok by (simp_all add: token_ok_def)
  have "those (map (mask_entry c causal (is_pos_2d u) ?s (u_pos u ! i) (mask_2d_x u i) (mask_2d_y u i) (k_v_cells c ! t)) [0..<n_kv]) =
      Some (map (\<lambda>j. mask_cell u causal c i (kv_tables c ! t ! j)) [0..<n_kv])"
  proof (rule those_map_Some)
    fix j assume "j \<in> set [0..<n_kv]"
    then have j: "j < cells_size (k_v_cells c ! t)" using n st(4) by simp
    show "mask_entry c causal (is_pos_2d u) ?s (u_pos u ! i) (mask_2d_x u i) (mask_2d_y u i) (k_v_cells c ! t) j =
        Some (mask_cell u causal c i (kv_tables c ! t ! j))"
      using mask_entry_spec [OF st(3) j q(3) swa t(3)] st(7) j by (simp add: mask_cell_def)
  qed
  moreover have "0 < length (u_seq_id u ! i)" using f(1) by simp
  ultimately show ?thesis using t q(1) f(4) st(1)
    by (cases "is_pos_2d u") (simp_all add: mask_row_def mask_2d_x_def mask_2d_y_def)
qed

text \<open>
  C17 (functional): the attention mask has one row per token and one entry per attended cell; the entry
  is written (0, or minus the distance with ALiBi) exactly when the cell holds the token's sequence,
  is not in the token's future under causal attention and is inside the attention window, and stays
  at minus infinity otherwise.
\<close>

theorem kq_mask_entries:
  assumes "kv_inv c" "swa_ok c" "n_kv \<le> kv_size c" "0 < m" "u_n_tokens u = m * n"
    and "\<forall>i < m * n. token_ok c u i (ts ! i)"
  shows "\<exists>rows. set_input_kq_mask u causal n_kv m c = Some rows \<and> length rows = m * n \<and>
     (\<forall>i < m * n. rows ! i = map (\<lambda>j. mask_cell u causal c i (kv_tables c ! (ts ! i) ! j)) [0..<n_kv])"
proof -
  let ?row = "\<lambda>i. map (\<lambda>j. mask_cell u causal c i (kv_tables c ! (ts ! i) ! j)) [0..<n_kv]"
  let ?rows = "map (\<lambda>s. map (\<lambda>ii. ?row (s * n + ii)) [0..<n]) [0..<m]"
  have lt: "s * n + ii < m * n" if "s < m" "ii < n" for s ii using token_at(1) [OF _ that] that by simp
  have "those (map (\<lambda>s. those (map (\<lambda>ii. mask_row u causal n_kv c (s * n + ii)) [0..<n])) [0..<m]) = Some ?rows"
    by (intro those_map_Some) (use lt assms(6) mask_row_spec [OF assms(1-3)] in auto)
  then have "set_input_kq_mask u causal n_kv m c = Some (concat ?rows)"
    using assms(4,5) by (simp add: set_input_kq_mask_def)
  moreover have "length (concat ?rows) = m * n" by (simp add: length_concat sum_list_triv comp_def)
  moreover have "concat ?rows ! i = ?row i" if i: "i < m * n" for i
  proof -
    have n: "0 < n" using i by (cases n) auto
    have d: "i div n < m" "i mod n < n" using i n by (simp_all add: less_mult_imp_div_less)
    have "concat ?rows ! (i div n * n + i mod n) = ?rows ! (i div n) ! (i mod n)" by (rule nth_concat_equal) (use d in auto)
    then show ?thesis using d by simp
  qed
  ultimately show ?thesis by blast
qed

theorem kq_mask_entries_witness:
  "\<exists>c rows. kv_inv c \<and> kv_tables c = [[free_cell, (5, ext_zero, 0, {0}), free_cell, free_cell]] \<and>
     set_input_kq_mask demo_ubatch True 4 1 c = Some rows \<and> rows = replicate 2 [None, Some 0, None, None]"
proof -
  obtain c where c: "kv_inv c" "kv_size c = 4" "k_n_stream c = 1" "valid_seq c 0" "strm c 0 = 0"
    "kv_tables c = [[free_cell, (5, ext_zero, 0, {0}), free_cell, free_cell]]" "k_hparams c = demo_hparams" "k_swa_type c = SWA_NONE"
    by (rule demo_cache)
  have ub: "ubatch_ok c demo_ubatch 1 2" by (rule demo_ubatch_ok [OF c(3-5)])
  have two: "i < 2 \<longleftrightarrow> i = 0 \<or> i = (1::nat)" for i by arith
  have toks: "\<forall>i < 1 * 2. token_ok c demo_ubatch i ([0, 0] ! i)"
    using ub c(5) unfolding ubatch_ok_def mult_1 two by (auto simp: demo_ubatch_def)
  from kq_mask_entries [OF c(1), of 4 1 demo_ubatch 2, OF _ _ _ _ toks, of True] c(2,8)
  obtain rows where r: "set_input_kq_mask demo_ubatch True 4 1 c = Some rows" "length rows = 2"
    "\<forall>i < 2. rows ! i = map (\<lambda>j. mask_cell demo_ubatch True c i (kv_tables c ! ([0, 0] ! i) ! j)) [0..<4]"
    by (auto simp: swa_ok_def demo_ubatch_def)
  have "rows ! i = [None, Some 0, None, None]" if "i = 0 \<or> i = 1" for i
    using that r(3) c(6-8) by (auto simp: mask_cell_def demo_ubatch_def free_cell_def kv_is_masked_swa_def is_masked_swa_def
        demo_hparams_def is_pos_2d_def ubatch_none_def upt_rec [of _ 4])
  then have "rows = replicate 2 [None, Some 0, None, None]" using r(2) by (auto simp: list_eq_iff_nth_eq two)
  with r(1) c(1,6) show ?thesis by blast
qed

section \<open>Where keys and values go\<close>

lemma get_size_eq: "kv_inv c \<Longrightarrow> get_size c = Some (kv_size c)"
  using kv_inv_seq(1,2) [of c 0] kv_inv_stream(1,4) [of c "strm c 0"]
  by (auto simp: get_size_def valid_seq_def kv_inv_def)

lemma concat_rows:
  assumes "0 < n"
  shows "concat (map (\<lambda>s. map (\<lambda>ii. f s ii) [0..<n]) [0..<m]) = map (\<lambda>i. f (i div n) (i mod n)) [0..<m * n]"
proof (rule nth_equalityI)
  show "length (concat (map (\<lambda>s. map (\<lambda>ii. f s ii) [0..<n]) [0..<m])) = length (map (\<lambda>i. f (i div n) (i mod n)) [0..<m * n])"
    by (simp add: length_concat sum_list_triv comp_def)
  fix i assume "i < length (concat (map (\<lambda>s. map (\<lambda>ii. f s ii) [0..<n]) [0..<m]))"
  then have i: "i < m * n" by (simp add: length_concat sum_list_triv comp_def)
  have d: "i div n < m" "i mod n < n" using i assms by (simp_all add: less_mult_imp_div_less)
  have "concat (map (\<lambda>s. map (\<lambda>ii. f s ii) [0..<n]) [0..<m]) ! (i div n * n + i mod n) =
      map (\<lambda>s. map (\<lambda>ii. f s ii) [0..<n]) [0..<m] ! (i div n) ! (i mod n)" by (rule nth_concat_equal) (use d in auto)
  then show "concat (map (\<lambda>s. map (\<lambda>ii. f s ii) [0..<n]) [0..<m]) ! i = map (\<lambda>i. f (i div n) (i mod n)) [0..<m * n] ! i"
    using d i by simp
qed

definition cell_row :: "kv_cache \<Rightarrow> slot_info \<Rightarrow> nat \<Rightarrow> nat \<Rightarrow> nat" where
  "cell_row c si n i = fst (token_cell si n i) * kv_size c + snd (token_cell si n i)"

lemma fits_shape:
  assumes "fits c u m n si"
  shows "slot_size si = Some n" "slot_n_stream si = m" "0 < n" "u_n_tokens u = n * m" "si_idxs si \<noteq> []"
proof -
  have len: "length (si_idxs si) = m" "length (si_strm si) = m" "0 < m" "length (si_idxs si ! 0) = n" using assms by (simp_all add: fits_def)
  then show ne: "si_idxs si \<noteq> []" by auto
  show "slot_size si = Some n" "slot_n_stream si = m" "0 < n" "u_n_tokens u = n * m"
    using len assms hd_conv_nth [OF ne] ne by (simp_all add: slot_size_def slot_n_stream_def fits_def)
qed

lemma k_idxs_eq:
  assumes "kv_inv c" "fits c u m n si" "k_n_stream c * kv_size c < 4294967296"
  shows "set_input_k_idxs u si c = Some (map (cell_row c si n) [0..<m * n])"
proof -
  note sh = fits_shape [OF assms(2)]
  let ?f = "\<lambda>s i. si_strm si ! s * kv_size c + si_idxs si ! s ! i"
  have f: "si_strm si ! s < k_n_stream c" "length (si_idxs si ! s) = n" "s < length (si_strm si)" "s < length (si_idxs si)" if "s < m" for s
    using assms(2) that by (simp_all add: fits_def)
  have small: "u32 (si_strm si ! s * kv_size c) = si_strm si ! s * kv_size c" if "s < m" for s
  proof -
    have "si_strm si ! s * kv_size c \<le> k_n_stream c * kv_size c" using f(1) [OF that] by (intro mult_le_mono1) simp
    then have "si_strm si ! s * kv_size c < 4294967296" using assms(3) by (rule le_less_trans)
    then show ?thesis by (rule u32_small)
  qed
  have "those (map (\<lambda>s. do { strm \<leftarrow> nth_opt (si_strm si) s; kv_size \<leftarrow> get_size c; row \<leftarrow> nth_opt (si_idxs si) s;
      let offs = u32 (strm * kv_size); those (map (\<lambda>i. do { idx \<leftarrow> nth_opt row i; Some (offs + idx) }) [0..<n]) }) [0..<m]) =
    Some (map (\<lambda>s. map (?f s) [0..<n]) [0..<m])"
  proof (rule those_map_Some)
    fix s assume "s \<in> set [0..<m]"
    then have s: "s < m" by simp
    have "those (map (\<lambda>i. do { idx \<leftarrow> nth_opt (si_idxs si ! s) i; Some (u32 (si_strm si ! s * kv_size c) + idx) }) [0..<n]) =
        Some (map (?f s) [0..<n])" by (rule those_map_Some) (use f(2) [OF s] small [OF s] in auto)
    then show "do { strm \<leftarrow> nth_opt (si_strm si) s; kv_size \<leftarrow> get_size c; row \<leftarrow> nth_opt (si_idxs si) s;
        let offs = u32 (strm * kv_size); those (map (\<lambda>i. do { idx \<leftarrow> nth_opt row i; Some (offs + idx) }) [0..<n]) } =
      Some (map (?f s) [0..<n])" using f(3,4) [OF s] get_size_eq [OF assms(1)] by (simp add: Let_def)
  qed
  then show ?thesis using sh concat_rows [OF sh(3), of ?f m] by (simp add: set_input_k_idxs_def cell_row_def token_cell_def)
qed

lemma cell_row_inj:
  assumes "fits c u m n si"
  shows "inj_on (cell_row c si n) {..<m * n}" "i < m * n \<Longrightarrow> cell_row c si n i < k_n_stream c * kv_size c"
proof -
  have rows: "i < m * n \<Longrightarrow> fst (token_cell si n i) < k_n_stream c \<and> snd (token_cell si n i) < kv_size c" for i
    using fits_token [OF assms] by blast
  then have cell_of: "i < m * n \<Longrightarrow> (cell_row c si n i div kv_size c, cell_row c si n i mod kv_size c) = token_cell si n i" for i
    by (cases "token_cell si n i") (fastforce simp: cell_row_def)
  have inj: "inj_on (token_cell si n) {..<m * n}" using assms by (simp add: fits_def)
  show "inj_on (cell_row c si n) {..<m * n}"
  proof (rule inj_onI)
    fix i j assume ij: "i \<in> {..<m * n}" "j \<in> {..<m * n}" "cell_row c si n i = cell_row c si n j"
    then have "token_cell si n i = token_cell si n j" using cell_of [of i] cell_of [of j] by simp
    then show "i = j" using inj ij(1,2) by (simp add: inj_on_eq_iff)
  qed
  assume "i < m * n"
  from rows [OF this] have lt: "fst (token_cell si n i) < k_n_stream c" "snd (token_cell si n i) < kv_size c" by simp_all
  have "cell_row c si n i < Suc (fst (token_cell si n i)) * kv_size c" using lt(2) by (simp add: cell_row_def)
  also have "\<dots> \<le> k_n_stream c * kv_size c" using lt(1) by (intro mult_le_mono1) simp
  finally show "cell_row c si n i < k_n_stream c * kv_size c" .
qed

text \<open>
  C18 (bounds): the rows of the key tensor that a placed micro-batch is written to are the rows of its
  cells (stream times cache size plus cell), they all lie inside the tensor, and no two tokens are
  written to the same row.
\<close>

theorem k_idxs_distinct:
  assumes "kv_inv c" "searchable c" "ubatch_ok c u m n" "find_slot u False c = Some si" "\<not> slot_empty si"
    and "k_n_stream c * kv_size c < 4294967296"
  shows "\<exists>rows. set_input_k_idxs u si c = Some rows \<and> length rows = u_n_tokens u \<and> distinct rows \<and>
     (\<forall>i < u_n_tokens u. rows ! i < k_n_stream c * kv_size c \<and>
        (rows ! i div kv_size c, rows ! i mod kv_size c) = token_cell si n i)"
proof -
  have "ubatch_seqs_ok c u m n" using assms(3) by (simp add: ubatch_ok_def)
  note fit = slot_fits [OF assms(1-3) found_slot_ok [OF assms(1,2) this assms(4,5)]]
  have n: "u_n_tokens u = m * n" using fit by (simp add: fits_def)
  let ?rows = "map (cell_row c si n) [0..<m * n]"
  have "distinct ?rows" using cell_row_inj(1) [OF fit] by (simp add: distinct_map lessThan_atLeast0)
  moreover have "(?rows ! i div kv_size c, ?rows ! i mod kv_size c) = token_cell si n i" if "i < m * n" for i
    using fits_token(5) [OF fit that] that by (cases "token_cell si n i") (auto simp: cell_row_def)
  ultimately show ?thesis using k_idxs_eq [OF assms(1) fit assms(6)] cell_row_inj(2) [OF fit]
    by (intro exI [of _ ?rows]) (simp add: n)
qed

theorem k_idxs_distinct_witness:
  "\<exists>c si rows. kv_inv c \<and> find_slot demo_ubatch False c = Some si \<and> set_input_k_idxs demo_ubatch si c = Some rows \<and>
     length rows = 2 \<and> distinct rows"
proof -
  obtain c si where c: "kv_inv c" "searchable c" "ubatch_ok c demo_ubatch 1 2" "find_slot demo_ubatch False c = Some si"
    "\<not> slot_empty si" "k_swa_type c = SWA_NONE" "k_n_stream c = 1" by (rule demo_found)
  have "k_n_stream c * kv_size c < 4294967296" using searchable_size [OF c(2)] c(7) by simp
  from k_idxs_distinct [OF c(1-5) this] c(1,4) show ?thesis by (auto simp: demo_ubatch_def)
qed

end
