(* ===== verification/Kv_Iswa.thy ===== *)
theory Kv_Iswa
  imports Kv_Inputs
begin

text \<open>
  The cache of models that interleave layers with and without a sliding window
  (\<open>llama-kv-cache-iswa.cpp\<close>): two KV caches side by side, one without a window and one with the window
  of the model. Every sequence operation acts on both. The properties: a layer of the model has its
  keys and values in exactly one of them, and the cache without a window is a superset of the other,
  which is what lets the code answer questions about positions from the second cache alone.
\<close>

section \<open>State\<close>

record kv_cache_iswa =
  w_hparams :: llama_hparams
  w_unified :: bool
  w_base :: kv_cache
  w_swa :: kv_cache

record iswa_context =
  y_i_next :: nat
  y_ubatches :: "llama_ubatch list"
  y_base :: "kv_context option"
  y_swa :: "kv_context option"
  y_status :: memory_status

section \<open>Construction\<close>

text \<open>
  The filters are asked for layers below \<open>n_layer\<close> only, where \<open>is_swa\<close> does not abort; elsewhere they
  answer False.
\<close>

definition filter_base :: "llama_hparams \<Rightarrow> (nat \<Rightarrow> bool) option \<Rightarrow> nat \<Rightarrow> bool" where
  "filter_base h flt il =
     (if (case flt of Some f \<Rightarrow> \<not> f il | None \<Rightarrow> False) then False else is_swa il h = Some False)"

definition filter_swa :: "llama_hparams \<Rightarrow> (nat \<Rightarrow> bool) option \<Rightarrow> nat \<Rightarrow> bool" where
  "filter_swa h flt il =
     (if (case flt of Some f \<Rightarrow> \<not> f il | None \<Rightarrow> False) then False else is_swa il h = Some True)"

definition iswa_size :: "llama_hparams \<Rightarrow> bool \<Rightarrow> bool \<Rightarrow> nat \<Rightarrow> nat \<Rightarrow> nat \<Rightarrow> nat" where
  "iswa_size h swa_full unified size_base n_seq_max n_ubatch =
     (if swa_full then size_base
      else ggml_pad (min size_base (u32 (u32 (h_n_swa h * (if unified then n_seq_max else 1)) + n_ubatch))) 256)"

definition iswa_new ::
  "llama_hparams \<Rightarrow> bool \<Rightarrow> bool \<Rightarrow> bool \<Rightarrow> nat \<Rightarrow> nat \<Rightarrow> nat \<Rightarrow> nat \<Rightarrow> (nat \<Rightarrow> bool) option \<Rightarrow> (nat \<Rightarrow> int) option
     \<Rightarrow> kv_cache_iswa option" where
  "iswa_new h v_trans swa_full unified size_base n_seq_max n_ubatch n_pad flt reuse = do {
     base \<leftarrow> kv_cache_new h v_trans unified size_base n_seq_max n_pad 0 SWA_NONE (Some (filter_base h flt)) reuse;
     swa \<leftarrow> kv_cache_new h v_trans unified (iswa_size h swa_full unified size_base n_seq_max n_ubatch) n_seq_max n_pad
              (h_n_swa h) (h_swa_type h) (Some (filter_swa h flt)) reuse;
     Some \<lparr>w_hparams = h, w_unified = unified, w_base = base, w_swa = swa\<rparr> }"

section \<open>Sequence operations\<close>

definition iswa_clear :: "kv_cache_iswa \<Rightarrow> kv_cache_iswa" where
  "iswa_clear w = w\<lparr>w_base := kv_clear (w_base w), w_swa := kv_clear (w_swa w)\<rparr>"

definition iswa_seq_rm :: "int \<Rightarrow> int \<Rightarrow> int \<Rightarrow> kv_cache_iswa \<Rightarrow> (bool \<times> kv_cache_iswa) option" where
  "iswa_seq_rm seq_id p0 p1 w = do {
     (r0, b) \<leftarrow> kv_seq_rm seq_id p0 p1 (w_base w);
     (r1, s) \<leftarrow> kv_seq_rm seq_id p0 p1 (w_swa w);
     Some (True \<and> r0 \<and> r1, w\<lparr>w_base := b, w_swa := s\<rparr>) }"

text \<open>The operations without a result run on the first cache, then on the second.\<close>

definition iswa_both :: "(kv_cache \<Rightarrow> kv_cache option) \<Rightarrow> kv_cache_iswa \<Rightarrow> kv_cache_iswa option" where
  "iswa_both f w = do { b \<leftarrow> f (w_base w); s \<leftarrow> f (w_swa w); Some (w\<lparr>w_base := b, w_swa := s\<rparr>) }"

definition iswa_seq_cp :: "int \<Rightarrow> int \<Rightarrow> int \<Rightarrow> int \<Rightarrow> kv_cache_iswa \<Rightarrow> kv_cache_iswa option" where
  "iswa_seq_cp src dst p0 p1 = iswa_both (kv_seq_cp src dst p0 p1)"

definition iswa_seq_keep :: "int \<Rightarrow> kv_cache_iswa \<Rightarrow> kv_cache_iswa option" where
  "iswa_seq_keep seq_id = iswa_both (kv_seq_keep seq_id)"

definition iswa_seq_add :: "int \<Rightarrow> int \<Rightarrow> int \<Rightarrow> int \<Rightarrow> kv_cache_iswa \<Rightarrow> kv_cache_iswa option" where
  "iswa_seq_add seq_id p0 p1 shift = iswa_both (kv_seq_add seq_id p0 p1 shift)"

definition iswa_seq_div :: "int \<Rightarrow> int \<Rightarrow> int \<Rightarrow> int \<Rightarrow> kv_cache_iswa \<Rightarrow> kv_cache_iswa option" where
  "iswa_seq_div seq_id p0 p1 d = iswa_both (kv_seq_div seq_id p0 p1 d)"

definition iswa_seq_pos_min :: "int \<Rightarrow> kv_cache_iswa \<Rightarrow> int option" where
  "iswa_seq_pos_min seq_id w = kv_seq_pos_min seq_id (w_swa w)"

definition iswa_seq_pos_max :: "int \<Rightarrow> kv_cache_iswa \<Rightarrow> int option" where
  "iswa_seq_pos_max seq_id w = kv_seq_pos_max seq_id (w_swa w)"

definition iswa_get_can_shift :: "kv_cache_iswa \<Rightarrow> bool option" where
  "iswa_get_can_shift w = do { a \<leftarrow> get_size (w_base w); b \<leftarrow> get_size (w_swa w); Some (a = b) }"

section \<open>Contexts\<close>

definition iswa_context_status :: "memory_status \<Rightarrow> iswa_context" where
  "iswa_context_status st = \<lparr>y_i_next = 0, y_ubatches = [], y_base = None, y_swa = None, y_status = st\<rparr>"

definition iswa_context_of :: "llama_ubatch list \<Rightarrow> kv_context \<Rightarrow> kv_context \<Rightarrow> iswa_context" where
  "iswa_context_of us b s = \<lparr>y_i_next = 0, y_ubatches = us, y_base = Some b, y_swa = Some s,
     y_status = status_combine (x_status b) (x_status s)\<rparr>"

definition iswa_init_full :: "kv_cache_iswa \<Rightarrow> iswa_context option" where
  "iswa_init_full w = do {
     b \<leftarrow> kv_init_full (w_base w);
     s \<leftarrow> kv_init_full (w_swa w);
     Some (iswa_context_of [] b s) }"

definition iswa_init_update :: "kv_cache_iswa \<Rightarrow> (iswa_context \<times> kv_cache_iswa) option" where
  "iswa_init_update w = do {
     (b, base) \<leftarrow> kv_init_update (w_base w);
     (s, swa) \<leftarrow> kv_init_update (w_swa w);
     Some (iswa_context_of [] b s, w\<lparr>w_base := base, w_swa := swa\<rparr>) }"

text \<open>
  One attempt of \<open>init_batch\<close> with one of the splitters; \<^term>\<open>None\<close> in the first component is the
  \<open>break\<close> out of the attempt.
\<close>

definition iswa_try ::
  "(batch_allocr \<Rightarrow> (llama_ubatch \<times> batch_allocr) option) \<Rightarrow> batch_allocr \<Rightarrow> kv_cache_iswa
     \<Rightarrow> (iswa_context option \<times> batch_allocr \<times> kv_cache_iswa) option" where
  "iswa_try split a w = do {
     let a0 = split_reset a;
     (us, a1) \<leftarrow> split_run split (Suc (get_n_tokens a0)) a0;
     (if get_n_used a1 < get_n_tokens a1 then Some (None, a1, w)
      else do {
        (sb, base) \<leftarrow> prepare us (w_base w);
        let w1 = w\<lparr>w_base := base\<rparr>;
        (if sb = [] then Some (None, a1, w1)
         else do {
           (ss, swa) \<leftarrow> prepare us (w_swa w1);
           let w2 = w1\<lparr>w_swa := swa\<rparr>;
           (if ss = [] then Some (None, a1, w2)
            else do {
              ensure (length sb = length ss);
              Some (Some (iswa_context_of us (context_batch sb us) (context_batch ss us)), a1, w2) }) }) }) }"

definition iswa_init_batch ::
  "batch_allocr \<Rightarrow> nat \<Rightarrow> kv_cache_iswa \<Rightarrow> (iswa_context \<times> batch_allocr \<times> kv_cache_iswa) option" where
  "iswa_init_batch a n_ubatch w = do {
     (r1, a1, w1) \<leftarrow> (if \<not> w_unified w then Some (None, a, w) else iswa_try (split_simple n_ubatch) a w);
     (case r1 of Some x \<Rightarrow> Some (x, a1, w1)
      | None \<Rightarrow> do {
          (r2, a2, w2) \<leftarrow> iswa_try (split_equal n_ubatch (\<not> w_unified w1)) a1 w1;
          (case r2 of Some x \<Rightarrow> Some (x, a2, w2)
           | None \<Rightarrow> Some (iswa_context_status STATUS_FAILED_PREPARE, a2, w2)) }) }"

definition iswa_context_next :: "iswa_context \<Rightarrow> (bool \<times> iswa_context) option" where
  "iswa_context_next y = do {
     ensure (y_status y = STATUS_SUCCESS);
     b \<leftarrow> y_base y;
     (_, b') \<leftarrow> context_next b;
     s \<leftarrow> y_swa y;
     (_, s') \<leftarrow> context_next s;
     let y' = y\<lparr>y_base := Some b', y_swa := Some s', y_i_next := y_i_next y + 1\<rparr>;
     Some (\<not> (y_i_next y' \<ge> length (y_ubatches y')), y') }"

definition iswa_context_apply ::
  "shift_result \<Rightarrow> shift_result \<Rightarrow> iswa_context \<times> kv_cache_iswa \<Rightarrow> (bool \<times> iswa_context \<times> kv_cache_iswa) option" where
  "iswa_context_apply backend_b backend_s = (\<lambda>(y, w). do {
     ensure (\<not> status_is_fail (y_status y));
     b \<leftarrow> y_base y;
     (r0, b', base) \<leftarrow> context_apply backend_b (b, w_base w);
     s \<leftarrow> y_swa y;
     (r1, s', swa) \<leftarrow> context_apply backend_s (s, w_swa w);
     Some (True \<and> r0 \<and> r1, y\<lparr>y_base := Some b', y_swa := Some s'\<rparr>, w\<lparr>w_base := base, w_swa := swa\<rparr>) })"

definition iswa_get_ubatch :: "iswa_context \<Rightarrow> llama_ubatch option" where
  "iswa_get_ubatch y = do {
     ensure (y_status y = STATUS_SUCCESS);
     nth_opt (y_ubatches y) (y_i_next y) }"

definition iswa_get_base :: "iswa_context \<Rightarrow> kv_context option" where
  "iswa_get_base y = do { ensure (y_status y = STATUS_SUCCESS); y_base y }"

definition iswa_get_swa :: "iswa_context \<Rightarrow> kv_context option" where
  "iswa_get_swa y = do { ensure (y_status y = STATUS_SUCCESS); y_swa y }"

section \<open>Layers\<close>

definition passes :: "(nat \<Rightarrow> bool) option \<Rightarrow> nat \<Rightarrow> bool" where
  "passes flt il \<longleftrightarrow> (case flt of Some f \<Rightarrow> f il | None \<Rightarrow> True)"

lemma passes_simps [simp]: "passes (Some f) il = f il" "passes None il"
  "(case flt of Some f \<Rightarrow> \<not> f il | None \<Rightarrow> False) = (\<not> passes flt il)"
  by (simp_all add: passes_def split: option.splits)

lemma add_layers:
  assumes "foldo (kv_add_layer h v_trans flt) [0..<n] ([], Map.empty) = Some (layers, ids)"
  shows "map l_il layers = filter (\<lambda>il. has_kv il h \<and> passes flt il) [0..<n]"
proof -
  let ?Q = "\<lambda>il. has_kv il h \<and> passes flt il"
  let ?P = "\<lambda>k (ls, ids :: int \<rightharpoonup> nat). map l_il ls = filter ?Q [0..<k]"
  have "?P n (layers, ids)"
  proof (rule foldo_upt_keeps [OF assms, where P = ?P])
    fix i st st'
    assume P: "?P i st" and step: "kv_add_layer h v_trans flt i st = Some st'"
    obtain ls ids where st: "st = (ls, ids)" by fastforce
    show "?P (Suc i) st'"
      using P step unfolding st by (auto simp: kv_add_layer_def kv_make_layer_def Option.bind_eq_Some_conv split: if_splits)
  qed simp
  then show ?thesis by simp
qed

lemma new_layers:
  assumes "kv_cache_new h v_trans unified n n_seq_max n_pad n_swa swa_type flt reuse = Some c"
  shows "map l_il (k_layers c) = filter (\<lambda>il. has_kv il h \<and> passes flt il) [0..<h_n_layer h]"
proof -
  obtain layers ids where f: "foldo (kv_add_layer h v_trans flt) [0..<h_n_layer h] ([], Map.empty) = Some (layers, ids)" "k_layers c = layers"
    using assms by (auto simp: kv_cache_new_def Let_def Option.bind_eq_Some_conv split: if_splits option.splits)
  with add_layers [OF f(1)] show ?thesis by simp
qed

text \<open>
  C22 (functional): constructing the interleaved cache gives two caches that satisfy the invariant, the
  first without a window. Every layer of the model that has keys and values and passes the filter is
  a layer of exactly one of the two, of the second exactly when it has a sliding window, and unless
  the full size is asked for, the second has a multiple of 256 cells.
\<close>

theorem iswa_layers_partition:
  assumes "iswa_new h v_trans swa_full unified n n_seq_max n_ubatch n_pad flt reuse = Some w"
    and "unified \<or> 0 < n_seq_max" "int n_seq_max \<le> LLAMA_MAX_SEQ" "h_n_layer h \<le> length (h_swa_layers h)" "n < 2147483648"
  shows "kv_inv (w_base w) \<and> kv_inv (w_swa w) \<and> k_swa_type (w_base w) = SWA_NONE \<and>
     (\<forall>il < h_n_layer h. has_kv il h \<and> passes flt il \<longrightarrow>
        (il \<in> set (map l_il (k_layers (w_swa w))) \<longleftrightarrow> h_swa_layers h ! il) \<and>
        (il \<in> set (map l_il (k_layers (w_base w))) \<longleftrightarrow> \<not> h_swa_layers h ! il)) \<and>
     (swa_full \<or> 256 dvd kv_size (w_swa w))"
proof -
  let ?m = "iswa_size h swa_full unified n n_seq_max n_ubatch"
  obtain b s where b: "kv_cache_new h v_trans unified n n_seq_max n_pad 0 SWA_NONE (Some (filter_base h flt)) reuse = Some b"
    and s: "kv_cache_new h v_trans unified ?m n_seq_max n_pad (h_n_swa h) (h_swa_type h) (Some (filter_swa h flt)) reuse = Some s"
    and w: "w = \<lparr>w_hparams = h, w_unified = unified, w_base = b, w_swa = s\<rparr>"
    using assms(1) by (auto simp: iswa_new_def Option.bind_eq_Some_conv)
  note bs = kv_cache_new_spec [OF b assms(2,3)] kv_cache_new_spec [OF s assms(2,3)]
  have pad: "swa_full \<or> 256 dvd ?m"
  proof -
    have "256 dvd ggml_pad (min n x) (2 ^ 8)" for x using ggml_pad_bounds(3) [of 8 "min n x"] assms(5) by simp
    then show ?thesis by (simp add: iswa_size_def)
  qed
  have layer: "is_swa il h = Some (h_swa_layers h ! il)" if "il < h_n_layer h" for il using assms(4) that by (simp add: is_swa_def)
  show ?thesis using bs(1,5,6,12,16) pad new_layers [OF b] new_layers [OF s] layer
    unfolding w by (simp add: filter_base_def filter_swa_def)
qed

lemma demo_iswa_new:
  "\<exists>w. iswa_new (demo_hparams\<lparr>h_swa_layers := [True, False, True, False]\<rparr>) False False False 512 2 64 1 None None = Some w"
  by (simp add: iswa_new_def kv_cache_new_def kv_add_layer_def kv_make_layer_def has_kv_def n_embd_k_gqa_def n_embd_v_gqa_def
      n_head_kv_def demo_hparams_def upt_rec [of _ 4] Let_def filter_base_def filter_swa_def is_swa_def)

theorem iswa_layers_partition_witness:
  "\<exists>w :: kv_cache_iswa. kv_inv (w_base w) \<and> kv_inv (w_swa w) \<and> 2 \<in> set (map l_il (k_layers (w_swa w))) \<and>
     2 \<notin> set (map l_il (k_layers (w_base w))) \<and> 1 \<in> set (map l_il (k_layers (w_base w)))"
proof -
  let ?h = "demo_hparams\<lparr>h_swa_layers := [True, False, True, False]\<rparr>"
  obtain w where w: "iswa_new ?h False False False 512 2 64 1 None None = Some w" using demo_iswa_new by blast
  have h: "h_n_layer ?h = 4" "h_swa_layers ?h = [True, False, True, False]" "has_kv 1 ?h" "has_kv 2 ?h"
    by (simp_all add: demo_hparams_def has_kv_def)
  from iswa_layers_partition [OF w] h have all: "kv_inv (w_base w)" "kv_inv (w_swa w)"
    "\<forall>il < 4. has_kv il ?h \<longrightarrow> (il \<in> set (map l_il (k_layers (w_swa w))) \<longleftrightarrow> [True, False, True, False] ! il) \<and>
        (il \<in> set (map l_il (k_layers (w_base w))) \<longleftrightarrow> \<not> [True, False, True, False] ! il)"
    by (simp_all add: LLAMA_MAX_SEQ_def)
  from spec [OF all(3), of 1] spec [OF all(3), of 2] h(3,4) all(1,2) show ?thesis by (intro exI [of _ w]) simp
qed

section \<open>Entries\<close>

text \<open>The positions each sequence has somewhere in the tables, and what the operations do to them.\<close>

definition tab_entries :: "cell list \<Rightarrow> (int \<times> int) set" where
  "tab_entries tab = {(p, t). \<exists>e h b. (p, e, h, b) \<in> set tab \<and> t \<in> b}"

definition entries :: "cell list list \<Rightarrow> (int \<times> int) set" where
  "entries tabs = (\<Union>tab \<in> set tabs. tab_entries tab)"

lemma entries_nth: "entries tabs = {x. \<exists>s < length tabs. x \<in> tab_entries (tabs ! s)}"
  unfolding entries_def set_conv_nth by blast

lemma tab_entriesI: "(p, e, h, b) \<in> set tab \<Longrightarrow> t \<in> b \<Longrightarrow> (p, t) \<in> tab_entries tab"
  by (auto simp: tab_entries_def)

lemma tab_entries_map:
  assumes "\<And>p e h b. (p, e, h, b) \<in> set tab \<Longrightarrow> tab_entries [f (p, e, h, b)] = g (tab_entries [(p, e, h, b)])"
    and "\<And>A B. g (A \<union> B) = g A \<union> g B" "g {} = {}"
  shows "tab_entries (map f tab) = g (tab_entries tab)"
  using assms(1)
proof (induction tab)
  case Nil
  then show ?case using assms(3) by (simp add: tab_entries_def)
next
  case (Cons x tab)
  have split: "tab_entries (y # ys) = tab_entries [y] \<union> tab_entries ys" for y ys by (auto simp: tab_entries_def)
  obtain p e h b where x: "x = (p, e, h, b)" by (cases x)
  have "tab_entries [f x] = g (tab_entries [x])" using Cons.prems [of p e h b] by (simp add: x)
  moreover have "tab_entries (map f tab) = g (tab_entries tab)" using Cons by (intro Cons.IH) auto
  ultimately show ?case unfolding list.map split [of "f x" "map f tab"] split [of x tab] assms(2) by simp
qed

lemma tab_entries_effects:
  "tab_entries (map (\<lambda>_. free_cell) tab) = {}"
  "tab_entries (map (rm_eff t p0 p1) tab) = {(p, t') \<in> tab_entries tab. \<not> (t' = t \<and> in_range p0 p1 p)}"
  "tab_entries (map (rm_any_eff p0 p1) tab) = {(p, t') \<in> tab_entries tab. \<not> in_range p0 p1 p}"
  "tab_entries (map (cp_eff src dst p0 p1) tab) =
     tab_entries tab \<union> {(p, dst) | p. (p, src) \<in> tab_entries tab \<and> in_range p0 p1 p}"
  "tab_entries (map (xcp_eff src dst) tab) = {(p, dst) | p. (p, src) \<in> tab_entries tab}"
  "tab_entries (map (keep_eff t) tab) = {(p, t') \<in> tab_entries tab. t' = t}"
  by (rule tab_entries_map; auto simp: tab_entries_def free_cell_def split: if_splits)+

text \<open>The entries of a sequence are in its own stream.\<close>

lemma entry_stream:
  assumes "kv_inv c" "s < k_n_stream c" "(p, t) \<in> tab_entries (kv_tables c ! s)"
  shows "valid_seq c t" "strm c t = s"
proof -
  note st = kv_inv_stream [OF assms(1,2)]
  obtain e h b where "(p, e, h, b) \<in> set (cell_list (k_v_cells c ! s))" "t \<in> b" using assms(3) st(7) by (auto simp: tab_entries_def)
  with st(5) show "valid_seq c t" "strm c t = s" by (fastforce simp: strm_def)+
qed

lemma kv_tables_length: "kv_inv c \<Longrightarrow> length (kv_tables c) = k_n_stream c"
  by (simp add: kv_inv_def kv_tables_def)

lemma entries_iff:
  assumes "kv_inv c"
  shows "(p, t) \<in> entries (kv_tables c) \<longleftrightarrow> valid_seq c t \<and> (p, t) \<in> tab_entries (kv_tables c ! strm c t)"
proof
  assume "(p, t) \<in> entries (kv_tables c)"
  then obtain s where s: "s < k_n_stream c" "(p, t) \<in> tab_entries (kv_tables c ! s)"
    using kv_tables_length [OF assms] by (auto simp: entries_nth)
  with entry_stream [OF assms s] show "valid_seq c t \<and> (p, t) \<in> tab_entries (kv_tables c ! strm c t)" by simp
next
  assume a: "valid_seq c t \<and> (p, t) \<in> tab_entries (kv_tables c ! strm c t)"
  then have "strm c t < length (kv_tables c)" using kv_inv_seq(2) [OF assms] kv_tables_length [OF assms] by simp
  with a show "(p, t) \<in> entries (kv_tables c)" by (auto simp: entries_nth)
qed

fun entry_effect :: "(int \<Rightarrow> nat) \<Rightarrow> kv_op \<Rightarrow> (int \<times> int) set \<Rightarrow> (int \<times> int) set" where
  "entry_effect st KClear E = {}"
| "entry_effect st (KSeqRm t p0 p1) E =
     {(p, t') \<in> E. \<not> ((t \<ge> 0 \<longrightarrow> t' = t) \<and> in_range (range_lo p0) (range_hi p1) p)}"
| "entry_effect st (KSeqCp src dst p0 p1) E =
     (if src = dst then E
      else if st src = st dst then E \<union> {(p, dst) | p. (p, src) \<in> E \<and> in_range (range_lo p0) (range_hi p1) p}
      else {(p, t) \<in> E. st t \<noteq> st dst} \<union> {(p, dst) | p. (p, src) \<in> E})"
| "entry_effect st (KSeqKeep t) E = {(p, t') \<in> E. st t' = st t \<longrightarrow> t' = t}"
| "entry_effect st op E = E"

lemma entry_effect_mono: "E \<subseteq> F \<Longrightarrow> entry_effect st op E \<subseteq> entry_effect st op F"
  by (cases op) auto

fun keeps_positions :: "kv_op \<Rightarrow> bool" where
  "keeps_positions (KSeqAdd t p0 p1 d) \<longleftrightarrow> False"
| "keeps_positions (KSeqDiv t p0 p1 d) \<longleftrightarrow> False"
| "keeps_positions KShift \<longleftrightarrow> False"
| "keeps_positions _ \<longleftrightarrow> True"

text \<open>Replacing the table of one stream.\<close>

lemma entries_update:
  assumes "s < length tabs"
  shows "entries (tabs[s := tab]) = {x. \<exists>r < length tabs. r \<noteq> s \<and> x \<in> tab_entries (tabs ! r)} \<union> tab_entries tab"
  using assms by (auto simp: entries_nth nth_list_update)

lemma stream_entries:
  assumes "kv_inv c" "s < k_n_stream c"
  shows "tab_entries (kv_tables c ! s) = {(p, t) \<in> entries (kv_tables c). strm c t = s}"
    "{x. \<exists>r < length (kv_tables c). r \<noteq> s \<and> x \<in> tab_entries (kv_tables c ! r)} = {(p, t) \<in> entries (kv_tables c). strm c t \<noteq> s}"
proof -
  have len: "length (kv_tables c) = k_n_stream c" by (rule kv_tables_length [OF assms(1)])
  show "tab_entries (kv_tables c ! s) = {(p, t) \<in> entries (kv_tables c). strm c t = s}"
    using entry_stream [OF assms(1,2)] entries_iff [OF assms(1)] by auto
  show "{x. \<exists>r < length (kv_tables c). r \<noteq> s \<and> x \<in> tab_entries (kv_tables c ! r)} = {(p, t) \<in> entries (kv_tables c). strm c t \<noteq> s}"
  proof (intro set_eqI iffI)
    fix x assume "x \<in> {x. \<exists>r < length (kv_tables c). r \<noteq> s \<and> x \<in> tab_entries (kv_tables c ! r)}"
    then obtain r where r: "r < k_n_stream c" "r \<noteq> s" "x \<in> tab_entries (kv_tables c ! r)" using len by auto
    obtain p t where x: "x = (p, t)" by (cases x)
    have "strm c t = r" using entry_stream [OF assms(1) r(1)] r(3) x by simp
    moreover have "x \<in> entries (kv_tables c)" using r len by (auto simp: entries_nth)
    ultimately show "x \<in> {(p, t) \<in> entries (kv_tables c). strm c t \<noteq> s}" using r(2) x by simp
  next
    fix x assume "x \<in> {(p, t) \<in> entries (kv_tables c). strm c t \<noteq> s}"
    then obtain p t where x: "x = (p, t)" "(p, t) \<in> entries (kv_tables c)" "strm c t \<noteq> s" by auto
    then have e: "valid_seq c t" "(p, t) \<in> tab_entries (kv_tables c ! strm c t)" using entries_iff [OF assms(1)] by auto
    show "x \<in> {x. \<exists>r < length (kv_tables c). r \<noteq> s \<and> x \<in> tab_entries (kv_tables c ! r)}"
      using e x kv_inv_seq(2) [OF assms(1) e(1)] len by auto
  qed
qed

lemma entries_replace:
  assumes "kv_inv c" "s < k_n_stream c"
  shows "entries ((kv_tables c)[s := tab]) = {(p, t) \<in> entries (kv_tables c). strm c t \<noteq> s} \<union> tab_entries tab"
  using entries_update [of s "kv_tables c" tab] stream_entries(2) [OF assms] kv_tables_length [OF assms(1)] assms(2) by simp

lemma entries_map: "entries (map f tabs) = (\<Union>tab \<in> set tabs. tab_entries (f tab))"
  by (simp add: entries_def)

lemma entries_effect:
  assumes inv: "kv_inv c" and pre: "kv_pre c n op (kv_tables c)" and keep: "keeps_positions op"
  shows "entries (kv_effect c op (kv_tables c)) = entry_effect (strm c) op (entries (kv_tables c))"
proof (cases op)
  case KClear
  then show ?thesis by (simp add: entries_map tab_entries_effects)
next
  case (KSeqRm t p0 p1)
  show ?thesis
  proof (cases "t \<ge> 0")
    case True
    then have "valid_seq c t" using pre KSeqRm by auto
    note s = kv_inv_seq(2) [OF inv this]
    show ?thesis using True KSeqRm
      by (auto simp: entries_replace [OF inv s] tab_entries_effects stream_entries(1) [OF inv s])
  next
    case False
    then show ?thesis using KSeqRm by (auto simp: entries_map tab_entries_effects entries_def)
  qed
next
  case (KSeqCp src dst p0 p1)
  then have v: "valid_seq c src" "valid_seq c dst" using pre by auto
  note s = kv_inv_seq(2) [OF inv v(1)] note d = kv_inv_seq(2) [OF inv v(2)]
  show ?thesis using KSeqCp
    by (auto simp: entries_replace [OF inv d] tab_entries_effects stream_entries(1) [OF inv s] stream_entries(1) [OF inv d])
next
  case (KSeqKeep t)
  then have "valid_seq c t" using pre by auto
  note s = kv_inv_seq(2) [OF inv this]
  show ?thesis using KSeqKeep by (auto simp: entries_replace [OF inv s] tab_entries_effects stream_entries(1) [OF inv s])
qed (use keep in simp_all)

section \<open>The cache without a window is a superset\<close>

definition iswa_inv :: "kv_cache_iswa \<Rightarrow> bool" where
  "iswa_inv w \<longleftrightarrow> kv_inv (w_base w) \<and> kv_inv (w_swa w) \<and> k_seq_to_stream (w_base w) = k_seq_to_stream (w_swa w) \<and>
     entries (kv_tables (w_swa w)) \<subseteq> entries (kv_tables (w_base w))"

fun iswa_run :: "kv_op \<Rightarrow> kv_cache_iswa \<Rightarrow> kv_cache_iswa option" where
  "iswa_run KClear w = Some (iswa_clear w)"
| "iswa_run (KSeqRm t p0 p1) w = map_option snd (iswa_seq_rm t p0 p1 w)"
| "iswa_run (KSeqCp src dst p0 p1) w = iswa_seq_cp src dst p0 p1 w"
| "iswa_run (KSeqKeep t) w = iswa_seq_keep t w"
| "iswa_run (KSeqAdd t p0 p1 d) w = iswa_seq_add t p0 p1 d w"
| "iswa_run (KSeqDiv t p0 p1 d) w = iswa_seq_div t p0 p1 d w"
| "iswa_run KShift w = iswa_both (kv_run KShift) w"

lemma iswa_run_both:
  assumes "kv_run op (w_base w) = Some b" "kv_run op (w_swa w) = Some s"
  shows "iswa_run op w = Some (w\<lparr>w_base := b, w_swa := s\<rparr>)"
  using assms by (cases op) (auto simp: iswa_clear_def iswa_seq_rm_def iswa_both_def iswa_seq_cp_def iswa_seq_keep_def
      iswa_seq_add_def iswa_seq_div_def)

lemma iswa_step:
  assumes "iswa_inv w" "keeps_positions op" "kv_pre (w_base w) (kv_size (w_base w)) op (kv_tables (w_base w))"
    and "kv_pre (w_swa w) (kv_size (w_swa w)) op (kv_tables (w_swa w))"
  shows "\<exists>b s. iswa_run op w = Some (w\<lparr>w_base := b, w_swa := s\<rparr>) \<and> iswa_inv (w\<lparr>w_base := b, w_swa := s\<rparr>) \<and>
     same_config (w_base w) b \<and> same_config (w_swa w) s \<and> kv_size b = kv_size (w_base w) \<and> kv_size s = kv_size (w_swa w) \<and>
     kv_tables b = kv_effect (w_base w) op (kv_tables (w_base w)) \<and> kv_tables s = kv_effect (w_swa w) op (kv_tables (w_swa w))"
proof -
  have inv: "kv_inv (w_base w)" "kv_inv (w_swa w)" "k_seq_to_stream (w_base w) = k_seq_to_stream (w_swa w)"
    and sub: "entries (kv_tables (w_swa w)) \<subseteq> entries (kv_tables (w_base w))" using assms(1) by (simp_all add: iswa_inv_def)
  obtain b where b: "kv_run op (w_base w) = Some b" "kv_inv b" "same_config (w_base w) b" "kv_size b = kv_size (w_base w)"
    "kv_tables b = kv_effect (w_base w) op (kv_tables (w_base w))" using kv_run_refines [OF inv(1) assms(3)] by blast
  obtain s where s: "kv_run op (w_swa w) = Some s" "kv_inv s" "same_config (w_swa w) s" "kv_size s = kv_size (w_swa w)"
    "kv_tables s = kv_effect (w_swa w) op (kv_tables (w_swa w))" using kv_run_refines [OF inv(2) assms(4)] by blast
  have strm: "strm (w_base w) = strm (w_swa w)" using inv(3) by (simp add: strm_def fun_eq_iff)
  have "entries (kv_tables s) \<subseteq> entries (kv_tables b)"
    unfolding b(5) s(5) entries_effect [OF inv(1) assms(3,2)] entries_effect [OF inv(2) assms(4,2)] strm
    by (rule entry_effect_mono [OF sub])
  then have "iswa_inv (w\<lparr>w_base := b, w_swa := s\<rparr>)" using b(2,3) s(2,3) inv(3) by (simp add: iswa_inv_def same_config_def)
  then show ?thesis using iswa_run_both [OF b(1) s(1)] b s by blast
qed

text \<open>
  C20 (invariant): through any sequence of \<open>clear\<close>, \<open>seq_rm\<close>, \<open>seq_cp\<close> and \<open>seq_keep\<close> whose preconditions
  hold in both caches, the cache without a window stays a superset of the cache with the window:
  every position a sequence has in the second it has in the first. This is what the code relies on
  when it answers \<open>seq_pos_min\<close> from the second cache.
\<close>

theorem iswa_superset:
  assumes "iswa_inv w" "\<forall>op \<in> set ops. keeps_positions op" "kv_pres (w_base w) (kv_size (w_base w)) ops (kv_tables (w_base w))"
    and "kv_pres (w_swa w) (kv_size (w_swa w)) ops (kv_tables (w_swa w))"
  shows "\<exists>w'. foldo iswa_run ops w = Some w' \<and> iswa_inv w'"
  using assms
proof (induction ops arbitrary: w)
  case (Cons op ops)
  from iswa_step [of w op] Cons.prems obtain b s where
    step: "iswa_run op w = Some (w\<lparr>w_base := b, w_swa := s\<rparr>)" "iswa_inv (w\<lparr>w_base := b, w_swa := s\<rparr>)"
      "same_config (w_base w) b" "same_config (w_swa w) s" "kv_size b = kv_size (w_base w)" "kv_size s = kv_size (w_swa w)"
      "kv_tables b = kv_effect (w_base w) op (kv_tables (w_base w))" "kv_tables s = kv_effect (w_swa w) op (kv_tables (w_swa w))"
    by auto
  have "\<exists>w'. foldo iswa_run ops (w\<lparr>w_base := b, w_swa := s\<rparr>) = Some w' \<and> iswa_inv w'"
    by (rule Cons.IH [OF step(2)]) (use Cons.prems step(3-8) kv_pres_cong in auto)
  then show ?case using step(1) by simp
qed simp

theorem iswa_superset_witness:
  "\<exists>w w'. iswa_inv w \<and> entries (kv_tables (w_swa w)) = {(5, 0)} \<and>
     foldo iswa_run [KSeqCp 0 1 (-1) (-1), KSeqRm 0 0 (-1), KSeqKeep 1] w = Some w' \<and> iswa_inv w'"
proof -
  obtain c where c: "kv_inv c" "kv_size c = 4" "valid_seq c 0" "valid_seq c 1" "strm c 0 = 0" "strm c 1 = 0"
    "kv_tables c = [[free_cell, (5, ext_zero, 0, {0}), free_cell, free_cell]]" "k_hparams c = demo_hparams" by (rule demo_cache)
  let ?w = "\<lparr>w_hparams = demo_hparams, w_unified = True, w_base = c, w_swa = c\<rparr>"
  let ?ops = "[KSeqCp 0 1 (-1) (-1), KSeqRm 0 0 (-1), KSeqKeep 1]"
  have inv: "iswa_inv ?w" using c(1) by (simp add: iswa_inv_def)
  have e: "insert (1::int) {0} \<noteq> {0}" "insert (1::int) {0} - {0} = {1}" by auto
  have pre: "kv_pres c (kv_size c) ?ops (kv_tables c)"
    using c(3-8) by (auto simp: range_lo_def range_hi_def in_range_def free_cell_def seq_ok_def LLAMA_MAX_SEQ_def i32_defs e)
  have "entries (kv_tables c) = {(5, 0)}" unfolding c(7) by (auto simp: entries_def tab_entries_def free_cell_def)
  with iswa_superset [OF inv, of ?ops] pre inv show ?thesis by auto
qed

subsection \<open>Placing a micro-batch in both caches\<close>

definition new_entries :: "llama_ubatch \<Rightarrow> nat \<Rightarrow> (int \<times> int) set" where
  "new_entries u k = {(u_pos u ! i, t) | i t. i < k \<and> t \<in> set (token_seqs u i)}"

lemma place_entries_le: "entries (place_tokens si u n k tabs) \<subseteq> entries tabs \<union> new_entries u k"
proof
  fix x assume "x \<in> entries (place_tokens si u n k tabs)"
  then obtain s p t e h b where x: "s < length tabs" "x = (p, t)" "(p, e, h, b) \<in> set (place_tokens si u n k tabs ! s)" "t \<in> b"
    using place_tokens_shape [of si u n k tabs] by (auto simp: entries_nth tab_entries_def)
  from place_tokens_cells [OF x(3,1)] show "x \<in> entries tabs \<union> new_entries u k"
  proof
    assume "(p, e, h, b) \<in> set (tabs ! s)"
    then have "x \<in> tab_entries (tabs ! s)" using x(2,4) tab_entriesI by blast
    then show ?thesis using x(1) by (auto simp: entries_nth)
  next
    assume "\<exists>i < k. \<exists>y. (p, e, h, b) = placed u i y"
    then obtain i y where i: "i < k" "(p, e, h, b) = placed u i y" by blast
    then show ?thesis using x(2,4) by (cases y) (auto simp: new_entries_def)
  qed
qed

lemma purge_entries_le: "entries (purge_tables c rm tabs) \<subseteq> entries tabs"
proof -
  have one: "entries (purge_table c rm t tabs) \<subseteq> entries tabs" for t tabs
  proof (cases "rm t = -1 \<or> \<not> strm c t < length tabs")
    case False
    then have "entries (purge_table c rm t tabs) = {x. \<exists>r < length tabs. r \<noteq> strm c t \<and> x \<in> tab_entries (tabs ! r)} \<union>
        {(p, t') \<in> tab_entries (tabs ! strm c t). \<not> (t' = t \<and> in_range 0 (rm t + 1) p)}"
      by (simp add: purge_table_def entries_update tab_entries_effects)
    then show ?thesis using False by (auto simp: entries_nth)
  qed (auto simp: purge_table_def list_update_beyond)
  have "entries (fold (purge_table c rm) ts tabs) \<subseteq> entries tabs" for ts
    by (induction ts arbitrary: tabs) (use one in fastforce)+
  then show ?thesis by (simp add: purge_tables_def)
qed

text \<open>Without a window nothing is lost: the slot had free cells only.\<close>

lemma place_entries_ge:
  assumes inv: "kv_inv c" and none: "k_swa_type c = SWA_NONE" and slot: "slot_ok c u m n si" and fit: "fits c u m n si"
  shows "entries (kv_tables c) \<union> new_entries u (m * n) \<subseteq> entries (place_tokens si u n (m * n) (kv_tables c))"
proof -
  let ?T = "place_tokens si u n (m * n) (kv_tables c)"
  note shape = place_tokens_shape [of si u n "m * n" "kv_tables c"] note len = kv_tables_length [OF inv]
  have at: "(p, t) \<in> entries ?T" if "s < k_n_stream c" "j < kv_size c" "?T ! s ! j = (p, e, h, b)" "t \<in> b" for s j p e h b t
  proof -
    have "j < length (?T ! s)" using that(1,2) shape kv_inv_stream(4,7) [OF inv that(1)] by simp
    then have "(p, e, h, b) \<in> set (?T ! s)" using that(3) nth_mem by metis
    then show ?thesis using that(1,4) shape len by (auto simp: entries_nth tab_entries_def)
  qed
  have "(p, t) \<in> entries ?T" if e: "(p, t) \<in> entries (kv_tables c)" for p t
  proof -
    obtain s e h b where s: "s < k_n_stream c" "(p, e, h, b) \<in> set (kv_tables c ! s)" "t \<in> b"
      using e len by (auto simp: entries_nth tab_entries_def)
    note st = kv_inv_stream [OF inv s(1)]
    obtain j where j: "j < kv_size c" "kv_tables c ! s ! j = (p, e, h, b)"
      using s(2) st(4,7) unfolding in_set_conv_nth by auto
    have "cell (k_v_cells c ! s) j = (p, e, h, b)" using j st(4,7) by simp
    then have "p \<noteq> -1" using cells_inv_seq_pos [OF st(3), of j t] j(1) st(4) s(3) by (auto simp: cell_def)
    then have "\<forall>i < m * n. token_cell si n i \<noteq> (s, j)"
      using slot_cells_free(3) [OF inv none slot fit] j(2) by fastforce
    then have "?T ! s ! j = (p, e, h, b)" using place_tokens_other j(2) by metis
    then show ?thesis using at s(1,3) j(1) by blast
  qed
  moreover have "(u_pos u ! i, t) \<in> entries ?T" if i: "i < m * n" and t: "t \<in> set (token_seqs u i)" for i t
  proof -
    obtain s j where sj: "token_cell si n i = (s, j)" by fastforce
    note free = slot_cells_free [OF inv none slot fit i sj]
    have inj: "inj_on (token_cell si n) {..<m * n}" using fit by (simp add: fits_def)
    have lens: "s < length (kv_tables c)" "j < length (kv_tables c ! s)"
      using free(1,2) len kv_inv_stream(4,7) [OF inv free(1)] by simp_all
    obtain p e h b where x: "kv_tables c ! s ! j = (p, e, h, b)" by (cases "kv_tables c ! s ! j")
    show ?thesis using at [OF free(1,2)] place_tokens_at [OF inj i sj lens, of u] x t by simp
  qed
  ultimately show ?thesis by (auto simp: new_entries_def)
qed

text \<open>
  C21 (invariant): placing the same micro-batch into both caches, into the slots found in each, keeps the
  cache without a window a superset of the other, although the cache with the window may overwrite
  and purge positions that have left the window.
\<close>

theorem iswa_apply_superset:
  assumes "iswa_inv w" "k_swa_type (w_base w) = SWA_NONE"
    and "searchable (w_base w)" "ubatch_ok (w_base w) u m n" "find_slot u False (w_base w) = Some sb" "\<not> slot_empty sb"
    and "searchable (w_swa w)" "ubatch_ok (w_swa w) u m n" "find_slot u False (w_swa w) = Some ss" "\<not> slot_empty ss"
  shows "\<exists>b s. apply_ubatch sb u (w_base w) = Some b \<and> apply_ubatch ss u (w_swa w) = Some s \<and>
     iswa_inv (w\<lparr>w_base := b, w_swa := s\<rparr>)"
proof -
  have inv: "kv_inv (w_base w)" "kv_inv (w_swa w)" "k_seq_to_stream (w_base w) = k_seq_to_stream (w_swa w)"
    and sub: "entries (kv_tables (w_swa w)) \<subseteq> entries (kv_tables (w_base w))" using assms(1) by (simp_all add: iswa_inv_def)
  have seqs: "ubatch_seqs_ok (w_base w) u m n" "ubatch_seqs_ok (w_swa w) u m n" using assms(4,8) by (simp_all add: ubatch_ok_def)
  note slot_b = found_slot_ok [OF inv(1) assms(3) seqs(1) assms(5,6)] note slot_s = found_slot_ok [OF inv(2) assms(7) seqs(2) assms(9,10)]
  note fit_b = slot_fits [OF inv(1) assms(3,4) slot_b] note fit_s = slot_fits [OF inv(2) assms(7,8) slot_s]
  obtain b where b: "apply_ubatch sb u (w_base w) = Some b" "kv_inv b" "same_config (w_base w) b" "kv_tables b = applied (w_base w) sb u m n"
    using apply_ubatch_spec [OF inv(1) fit_b searchable_size [OF assms(3)]] by blast
  obtain s where s: "apply_ubatch ss u (w_swa w) = Some s" "kv_inv s" "same_config (w_swa w) s" "kv_tables s = applied (w_swa w) ss u m n"
    using apply_ubatch_spec [OF inv(2) fit_s searchable_size [OF assms(7)]] by blast
  have "entries (kv_tables s) \<subseteq> entries (kv_tables (w_swa w)) \<union> new_entries u (m * n)"
    unfolding s(4) applied_def using purge_entries_le place_entries_le by (rule order_trans)
  also have "\<dots> \<subseteq> entries (kv_tables (w_base w)) \<union> new_entries u (m * n)" using sub by blast
  also have "\<dots> \<subseteq> entries (kv_tables b)"
    unfolding b(4) applied_no_swa [OF inv(1) assms(2) slot_b fit_b] by (rule place_entries_ge [OF inv(1) assms(2) slot_b fit_b])
  finally have "iswa_inv (w\<lparr>w_base := b, w_swa := s\<rparr>)" using b(2,3) s(2,3) inv(3) by (simp add: iswa_inv_def same_config_def)
  then show ?thesis using b(1) s(1) by blast
qed

theorem iswa_apply_superset_witness:
  "\<exists>w b s sb ss. iswa_inv w \<and> find_slot demo_ubatch False (w_base w) = Some sb \<and> find_slot demo_ubatch False (w_swa w) = Some ss \<and>
     apply_ubatch sb demo_ubatch (w_base w) = Some b \<and> apply_ubatch ss demo_ubatch (w_swa w) = Some s \<and>
     iswa_inv (w\<lparr>w_base := b, w_swa := s\<rparr>)"
proof -
  obtain c si where c: "kv_inv c" "searchable c" "ubatch_ok c demo_ubatch 1 2" "find_slot demo_ubatch False c = Some si"
    "\<not> slot_empty si" "k_swa_type c = SWA_NONE" by (rule demo_found)
  let ?w = "\<lparr>w_hparams = demo_hparams, w_unified = True, w_base = c, w_swa = c\<rparr>"
  have inv: "iswa_inv ?w" using c(1) by (simp add: iswa_inv_def)
  have "\<exists>b s. apply_ubatch si demo_ubatch (w_base ?w) = Some b \<and> apply_ubatch si demo_ubatch (w_swa ?w) = Some s \<and>
      iswa_inv (?w\<lparr>w_base := b, w_swa := s\<rparr>)"
    by (rule iswa_apply_superset [OF inv]) (use c in simp_all)
  then obtain b s where bs: "apply_ubatch si demo_ubatch (w_base ?w) = Some b" "apply_ubatch si demo_ubatch (w_swa ?w) = Some s"
      "iswa_inv (?w\<lparr>w_base := b, w_swa := s\<rparr>)" by blast
  show ?thesis by (rule exI [of _ ?w], rule exI [of _ b], rule exI [of _ s], rule exI [of _ si], rule exI [of _ si])
      (use bs inv c(4) in simp)
qed

end
