(* ===== verification/Grammar_Utf8.thy ===== *)
theory Grammar_Utf8
  imports Prelude "HOL-Library.Word"
begin

text \<open>
  UTF-8 decoding in \<open>llama-grammar.cpp\<close>: one code point at a time for grammar texts, and whole token
  pieces with a partial sequence carried from one piece to the next. Text is a list of bytes (HOL's
  \<open>char\<close>); a pointer into a C string is the list from there on, and \<open>*pos\<close> is zero at its end.
\<close>

unbundle bit_operations_syntax

section \<open>Definitions\<close>

type_synonym code_point = "32 word"

record partial_utf8 =
  pu_value :: code_point
  pu_n_remain :: int

definition byte_of :: "char \<Rightarrow> 8 word" where
  "byte_of c = of_char c"

text \<open>Reading \<open>*pos\<close>: the terminating zero at the end of the string.\<close>

fun peek :: "string \<Rightarrow> char" where
  "peek [] = CHR 0x00"
| "peek (c # _) = c"

text \<open>\<open>value = (value << 6) + (byte & 0x3F)\<close>\<close>

definition add_byte :: "code_point \<Rightarrow> char \<Rightarrow> code_point" where
  "add_byte v c = push_bit 6 v + ucast (byte_of c AND 0x3F)"

definition utf8_lookup1 :: "nat list" where
  "utf8_lookup1 = [1, 1, 1, 1, 1, 1, 1, 1, 1, 1, 1, 1, 2, 2, 3, 4]"

definition utf8_lookup :: "nat list" where
  "utf8_lookup = [1, 1, 1, 1, 1, 1, 1, 1, 0, 0, 0, 0, 2, 2, 3, 4]"

definition highbits :: "char \<Rightarrow> nat" where
  "highbits c = unat (drop_bit 4 (byte_of c))"

text \<open>The mask \<open>(1 << k) - 1\<close>, converted to \<open>uint8_t\<close>.\<close>

definition first_bits :: "nat \<Rightarrow> char \<Rightarrow> code_point" where
  "first_bits k c = ucast (byte_of c AND (push_bit k 1 - 1))"

fun decode_rest :: "nat \<Rightarrow> code_point \<Rightarrow> string \<Rightarrow> code_point \<times> string" where
  "decode_rest (Suc n) v (c # cs) = (if c = CHR 0x00 then (v, c # cs) else decode_rest n (add_byte v c) cs)"
| "decode_rest _ v cs = (v, cs)"

definition decode_utf8_char :: "string \<Rightarrow> (code_point \<times> string) option" where
  "decode_utf8_char src = (case src of [] \<Rightarrow> None | c # cs \<Rightarrow>
     (let len = utf8_lookup1 ! highbits c in Some (decode_rest (len - 1) (first_bits (8 - len) c) cs)))"

text \<open>
  The second decoder. \<open>resume\<close> is its first loop, which continues a partial sequence; its result is
  \<^term>\<open>None\<close> when a byte is no continuation byte. \<open>finish\<close> is the inner loop over the rest of a
  sequence, which does not look at the upper bits, and \<open>decode_loop\<close> the outer one.
\<close>

fun resume :: "string \<Rightarrow> code_point \<Rightarrow> nat \<Rightarrow> (code_point \<times> nat \<times> string) option" where
  "resume (c # cs) v (Suc n) =
     (if c = CHR 0x00 then Some (v, Suc n, c # cs)
      else if drop_bit 6 (byte_of c) \<noteq> 2 then None
      else resume cs (add_byte v c) n)"
| "resume cs v n = Some (v, n, cs)"

fun finish :: "string \<Rightarrow> code_point \<Rightarrow> nat \<Rightarrow> code_point \<times> nat \<times> string" where
  "finish (c # cs) v (Suc n) =
     (if c = CHR 0x00 then (v, Suc n, c # cs) else finish cs (add_byte v c) n)"
| "finish cs v n = (v, n, cs)"

lemma finish_shorter: "finish cs v n = (v', n', cs') \<Longrightarrow> length cs' \<le> length cs"
  by (induction cs v n rule: finish.induct) (auto split: if_splits)

function decode_loop :: "string \<Rightarrow> code_point \<Rightarrow> int \<Rightarrow> code_point list \<Rightarrow> code_point list \<times> partial_utf8" where
  "decode_loop [] v n cps = (cps @ [0], \<lparr>pu_value = v, pu_n_remain = n\<rparr>)"
| "decode_loop (c # cs) v n cps =
     (if c = CHR 0x00 then (cps @ [0], \<lparr>pu_value = v, pu_n_remain = n\<rparr>)
      else if utf8_lookup ! highbits c = 0 then ([0], \<lparr>pu_value = 0, pu_n_remain = -1\<rparr>)
      else let k = utf8_lookup ! highbits c - 1; (v', n', cs') = finish cs (first_bits (7 - k) c) k in
        decode_loop cs' v' (int n') (if n' = 0 then cps @ [v'] else cps))"
  by pat_completeness auto
termination by (relation "measure (\<lambda>(cs, _). length cs)") (auto dest!: finish_shorter [OF sym])

definition decode_utf8 :: "string \<Rightarrow> partial_utf8 \<Rightarrow> code_point list \<times> partial_utf8" where
  "decode_utf8 src p =
     (if 0 < pu_n_remain p
      then case resume src (pu_value p) (nat (pu_n_remain p)) of
             None \<Rightarrow> ([0], \<lparr>pu_value = 0, pu_n_remain = -1\<rparr>)
           | Some (v, n, cs) \<Rightarrow> decode_loop cs v (int n) (if n = 0 then [v] else [])
      else decode_loop src (pu_value p) (pu_n_remain p) [])"

section \<open>Decoding piece by piece\<close>

text \<open>
  The reference: an automaton over single bytes. Its state is the code points so far, the bits of the
  current sequence and how many bytes of it are missing.
\<close>

definition utf8_step :: "char \<Rightarrow> code_point list \<times> code_point \<times> nat \<Rightarrow> code_point list \<times> code_point \<times> nat" where
  "utf8_step c st = (case st of (cps, v, n) \<Rightarrow>
     let k = (if n = 0 then utf8_lookup ! highbits c - 1 else n - 1);
         v' = (if n = 0 then first_bits (7 - k) c else add_byte v c)
     in (if k = 0 then cps @ [v'] else cps, v', k))"

fun wf_utf8 :: "nat \<Rightarrow> string \<Rightarrow> bool" where
  "wf_utf8 n [] \<longleftrightarrow> True"
| "wf_utf8 0 (c # cs) \<longleftrightarrow> c \<noteq> CHR 0x00 \<and> utf8_lookup ! highbits c \<noteq> 0 \<and> wf_utf8 (utf8_lookup ! highbits c - 1) cs"
| "wf_utf8 (Suc n) (c # cs) \<longleftrightarrow> c \<noteq> CHR 0x00 \<and> drop_bit 6 (byte_of c) = 2 \<and> wf_utf8 n cs"

abbreviation utf8_run :: "string \<Rightarrow> code_point list \<times> code_point \<times> nat \<Rightarrow> code_point list \<times> code_point \<times> nat" where
  "utf8_run s \<equiv> fold utf8_step s"

lemma utf8_step_0:
  "utf8_step c (cps, v, 0) =
     (let k = utf8_lookup ! highbits c - 1; v' = first_bits (7 - k) c in (if k = 0 then cps @ [v'] else cps, v', k))"
  by (simp add: utf8_step_def)

lemma utf8_step_Suc:
  "utf8_step c (cps, v, Suc n) = (if n = 0 then cps @ [add_byte v c] else cps, add_byte v c, n)"
  by (simp add: utf8_step_def Let_def)

lemma utf8_run_prefix: "utf8_run s (cps, v, n) = (\<lambda>(cps', v', n'). (cps @ cps', v', n')) (utf8_run s ([], v, n))"
proof (induction s arbitrary: cps v n)
  case (Cons c cs)
  have step: "utf8_step c (cps, v, n) = (\<lambda>(cps', v', n'). (cps @ cps', v', n')) (utf8_step c ([], v, n))"
    by (cases n) (simp_all add: utf8_step_0 utf8_step_Suc Let_def)
  obtain cps1 v1 n1 where one: "utf8_step c ([], v, n) = (cps1, v1, n1)" by (cases "utf8_step c ([], v, n)")
  show ?case using Cons.IH [of "cps @ cps1" v1 n1] Cons.IH [of cps1 v1 n1]
    by (simp add: step one split: prod.splits)
qed simp

lemma finish_run:
  assumes "wf_utf8 n s" and "finish s v n = (v', n', s')"
  shows "utf8_run s (cps, v, n) = utf8_run s' (if n' = 0 \<and> 0 < n then cps @ [v'] else cps, v', n')
     \<and> wf_utf8 n' s' \<and> (n' = 0 \<or> s' = []) \<and> (n = 0 \<longrightarrow> n' = 0)"
  using assms
proof (induction s arbitrary: v n cps)
  case Nil
  then show ?case by (cases n) auto
next
  case (Cons c cs)
  show ?case
  proof (cases n)
    case 0
    with Cons.prems show ?thesis by auto
  next
    case (Suc m)
    with Cons.prems have c: "wf_utf8 m cs" "finish cs (add_byte v c) m = (v', n', s')" by auto
    have "m = 0 \<Longrightarrow> v' = add_byte v c" using c(2) by (cases cs) auto
    with Cons.IH [OF c, of "if m = 0 then cps @ [add_byte v c] else cps"] show ?thesis
      by (cases "m = 0") (auto simp: Suc utf8_step_Suc)
  qed
qed

lemma resume_eq_finish: "wf_utf8 n s \<Longrightarrow> resume s v n = Some (finish s v n)"
  by (induction s v n rule: finish.induct) auto

lemma decode_loop_run:
  assumes "wf_utf8 n s" and "n = 0 \<or> s = []"
  shows "decode_loop s v (int n) cps =
     (\<lambda>(cps', v', n'). (cps' @ [0], \<lparr>pu_value = v', pu_n_remain = int n'\<rparr>)) (utf8_run s (cps, v, n))"
  using assms
proof (induction s arbitrary: n v cps rule: length_induct)
  case (1 s)
  show ?case
  proof (cases s)
    case (Cons c cs)
    with 1 have n: "n = 0" by simp
    define k where "k = utf8_lookup ! highbits c - 1"
    obtain v' n' cs' where f: "finish cs (first_bits (7 - k) c) k = (v', n', cs')"
      by (cases "finish cs (first_bits (7 - k) c) k")
    from "1.prems" Cons n have c: "c \<noteq> CHR 0x00" "utf8_lookup ! highbits c \<noteq> 0" "wf_utf8 k cs"
      by (auto simp: k_def)
    define cps0 where "cps0 = (if k = 0 then cps @ [first_bits (7 - k) c] else cps)"
    have run: "utf8_run cs (cps0, first_bits (7 - k) c, k) = utf8_run cs' (if n' = 0 \<and> 0 < k then cps0 @ [v'] else cps0, v', n')"
      and rest: "wf_utf8 n' cs'" "n' = 0 \<or> cs' = []" "k = 0 \<longrightarrow> n' = 0"
      using finish_run [OF c(3) f, of cps0] by auto
    have "k = 0 \<Longrightarrow> v' = first_bits (7 - k) c \<and> cs' = cs" using f by (cases cs) auto
    then have cps: "(if n' = 0 \<and> 0 < k then cps0 @ [v'] else cps0) = (if n' = 0 then cps @ [v'] else cps)"
      using rest(3) by (auto simp: cps0_def)
    have less: "length cs' < length s" using finish_shorter [OF f] Cons by simp
    have IH: "decode_loop cs' v' (int n') (if n' = 0 then cps @ [v'] else cps) =
       (\<lambda>(cps', v', n'). (cps' @ [0], \<lparr>pu_value = v', pu_n_remain = int n'\<rparr>))
         (utf8_run cs' (if n' = 0 then cps @ [v'] else cps, v', n'))"
      using "1.IH" less rest(1,2) by blast
    have "decode_loop s v (int n) cps = decode_loop cs' v' (int n') (if n' = 0 then cps @ [v'] else cps)"
      using c f by (simp only: Cons decode_loop.simps k_def [symmetric] Let_def prod.case if_False)
    moreover have "utf8_run s (cps, v, n) = utf8_run cs (cps0, first_bits (7 - k) c, k)"
      by (simp only: Cons n utf8_step_0 k_def [symmetric] cps0_def [symmetric] Let_def fold_simps)
    ultimately show ?thesis using IH run cps by (simp only:)
  qed simp
qed

lemma decode_utf8_run:
  assumes "wf_utf8 n s"
  shows "decode_utf8 s \<lparr>pu_value = v, pu_n_remain = int n\<rparr> =
     (\<lambda>(cps, v', n'). (cps @ [0], \<lparr>pu_value = v', pu_n_remain = int n'\<rparr>)) (utf8_run s ([], v, n))"
proof (cases "n = 0")
  case True
  then show ?thesis using decode_loop_run [of 0 s v "[]"] assms by (simp add: decode_utf8_def)
next
  case False
  obtain v' n' s' where f: "finish s v n = (v', n', s')" by (cases "finish s v n")
  show ?thesis
    using False finish_run [OF assms f, of "[]"] decode_loop_run [of n' s' v' "if n' = 0 then [v'] else []"]
    by (auto simp: decode_utf8_def resume_eq_finish [OF assms] f)
qed

section \<open>Encoding and decoding\<close>

text \<open>The UTF-8 encoding of a code point.\<close>

definition utf8_encode :: "nat \<Rightarrow> string" where
  "utf8_encode n =
     (if n < 0x80 then [char_of n]
      else if n < 0x800 then [char_of (0xC0 + n div 64), char_of (0x80 + n mod 64)]
      else if n < 0x10000 then
        [char_of (0xE0 + n div 4096), char_of (0x80 + n div 64 mod 64), char_of (0x80 + n mod 64)]
      else
        [char_of (0xF0 + n div 262144), char_of (0x80 + n div 4096 mod 64),
         char_of (0x80 + n div 64 mod 64), char_of (0x80 + n mod 64)])"

lemma byte_of_char_of: "n < 256 \<Longrightarrow> byte_of (char_of n) = of_nat n"
proof -
  assume "n < 256"
  have "byte_of (char_of n) = of_nat (of_char (char_of n))" by (simp only: byte_of_def of_nat_of_char)
  with \<open>n < 256\<close> show ?thesis by (simp only: of_char_of mod_less)
qed

lemma unat_byte: "n < 256 \<Longrightarrow> unat (byte_of (char_of n)) = n"
  by (simp add: byte_of_char_of unat_of_nat)

lemma highbits_char_of: "n < 256 \<Longrightarrow> highbits (char_of n) = n div 16"
  by (simp only: highbits_def unat_drop_bit_eq unat_byte) (simp add: drop_bit_eq_div)

lemma masked_byte: "n < 256 \<Longrightarrow> ucast (byte_of (char_of n) AND mask k) = (of_nat (n mod 2 ^ k) :: code_point)"
proof -
  assume n: "n < 256"
  have "n mod 2 ^ k < 2 ^ 8" using le_less_trans [OF mod_less_eq_dividend n] by simp
  moreover have "byte_of (char_of n) AND mask k = of_nat (take_bit k n)"
    using n by (simp only: byte_of_char_of take_bit_eq_mask [symmetric] take_bit_of_nat)
  ultimately show ?thesis by (simp add: unsigned_of_nat take_bit_eq_mod)
qed

lemma first_bits_char_of: "n < 256 \<Longrightarrow> first_bits k (char_of n) = of_nat (n mod 2 ^ k)"
  by (simp only: first_bits_def masked_byte [symmetric] mask_eq_exp_minus_1 push_bit_eq_mult mult_1)

lemma add_byte_char_of: "n < 64 \<Longrightarrow> add_byte (of_nat a) (char_of (128 + n)) = of_nat (a * 64 + n)"
proof -
  assume n: "n < 64"
  have "(0x3F :: 8 word) = mask 6" by (simp add: mask_eq_exp_minus_1)
  then have "ucast (byte_of (char_of (128 + n)) AND 0x3F) = (of_nat n :: code_point)"
    using masked_byte [of "128 + n" 6] n by (simp add: mod_add_left_eq [symmetric])
  then show ?thesis by (simp add: add_byte_def push_bit_eq_mult)
qed

lemma continuation_char_of: "(n :: nat) < 64 \<Longrightarrow> drop_bit 6 (byte_of (char_of (128 + n))) = 2"
proof -
  assume "n < 64"
  then have "unat (drop_bit 6 (byte_of (char_of (128 + n)))) = (128 + n) div 64"
    by (simp only: unat_drop_bit_eq unat_byte) (simp add: drop_bit_eq_div unat_byte)
  also have "\<dots> = unat (2 :: 8 word)" using \<open>n < 64\<close> by simp
  finally show ?thesis by (simp only: word_unat_eq_iff)
qed

lemma nonzero_char_of: "0 < (n :: nat) \<Longrightarrow> n < 256 \<Longrightarrow> char_of n \<noteq> CHR 0x00"
  using unat_byte [of n] by (auto simp: byte_of_def)


lemmas char_of_simps = highbits_char_of first_bits_char_of add_byte_char_of continuation_char_of nonzero_char_of

lemma utf8_pos:
  "0 < n \<Longrightarrow> utf8_step c (cps, v, n) = (if n = 1 then cps @ [add_byte v c] else cps, add_byte v c, n - 1)"
  "0 < n \<Longrightarrow> wf_utf8 n (c # cs) \<longleftrightarrow> c \<noteq> CHR 0x00 \<and> drop_bit 6 (byte_of c) = 2 \<and> wf_utf8 (n - 1) cs"
  by (cases n; simp add: utf8_step_Suc)+

lemma utf8_lookup_eq:
  "m < 16 \<Longrightarrow> utf8_lookup ! m = (if m < 8 then 1 else if m < 12 then 0 else if m < 14 then 2 else if m = 14 then 3 else 4)"
proof -
  have "\<forall>m \<in> set [0..<16]. utf8_lookup ! m =
     (if m < 8 then 1 else if m < 12 then 0 else if m < 14 then 2 else if m = 14 then 3 else 4)"
    by code_simp
  then show "m < 16 \<Longrightarrow> ?thesis" by simp
qed

lemma utf8_encode_spec:
  assumes "0 < n" "n < 0x110000"
  shows "wf_utf8 0 (utf8_encode n)" and "utf8_run (utf8_encode n) (cps, v, 0) = (cps @ [of_nat n], of_nat n, 0)"
proof -
  have "wf_utf8 0 (utf8_encode n) \<and> utf8_run (utf8_encode n) (cps, v, 0) = (cps @ [of_nat n], of_nat n, 0)"
  proof -
    consider "n < 0x80" | "0x80 \<le> n" "n < 0x800" | "0x800 \<le> n" "n < 0x10000" | "0x10000 \<le> n" by linarith
    then show ?thesis
    proof cases
      case 1
      have "n div 16 < 8" using 1 by simp
      then have "utf8_lookup ! (n div 16) = 1" by (simp add: utf8_lookup_eq)
      with 1 assms show ?thesis by (simp add: utf8_encode_def char_of_simps utf8_step_0 Let_def)
    next
      case 2
      define a c where "a = n div 64" and "c = n mod 64"
      have n: "n = a * 64 + c" "a < 32" "c < 64" using 2 by (auto simp: a_def c_def)
      have "(192 + a) div 16 \<in> {12, 13}" using n(2) by auto
      then have "utf8_lookup ! ((192 + a) div 16) = 2" by (auto simp: utf8_lookup_eq)
      moreover have "(192 + a) mod 2 ^ 6 = a" using n(2) by (simp add: mod_add_left_eq [symmetric])
      ultimately show ?thesis using 2 n
        by (simp add: utf8_encode_def char_of_simps utf8_step_0 utf8_pos Let_def a_def [symmetric] c_def [symmetric])
    next
      case 3
      define a b c where "a = n div 4096" and "b = n div 64 mod 64" and "c = n mod 64"
      have "a = n div 64 div 64" by (simp add: a_def div_mult2_eq [symmetric])
      then have n: "n = (a * 64 + b) * 64 + c" "a < 16" "b < 64" "c < 64"
        using 3 by (simp_all only: b_def c_def div_mult_mod_eq)
      have "(224 + a) div 16 = 14" using n(2) by auto
      then have "utf8_lookup ! ((224 + a) div 16) = 3" by (auto simp: utf8_lookup_eq)
      moreover have "(224 + a) mod 2 ^ 5 = a" using n(2) by (simp add: mod_add_left_eq [symmetric])
      moreover have "utf8_encode n = [char_of (224 + a), char_of (128 + b), char_of (128 + c)]"
        using 3 by (simp add: utf8_encode_def a_def b_def c_def)
      ultimately show ?thesis using n(2-)
        by (simp add: char_of_simps utf8_step_0 utf8_pos Let_def n(1) del: of_nat_add of_nat_mult)
    next
      case 4
      define a b c d where "a = n div 262144" and "b = n div 4096 mod 64" and "c = n div 64 mod 64" and "d = n mod 64"
      have "a = n div 64 div 64 div 64" "b = n div 64 div 64 mod 64" by (simp_all add: a_def b_def div_mult2_eq [symmetric])
      then have n: "n = ((a * 64 + b) * 64 + c) * 64 + d" "a < 8" "b < 64" "c < 64" "d < 64"
        using 4 assms(2) by (simp_all only: c_def d_def div_mult_mod_eq)
      have "(240 + a) div 16 = 15" using n(2) by auto
      then have "utf8_lookup ! ((240 + a) div 16) = 4" by (auto simp: utf8_lookup_eq)
      moreover have "(240 + a) mod 2 ^ 4 = a" using n(2) by (simp add: mod_add_left_eq [symmetric])
      moreover have "utf8_encode n = [char_of (240 + a), char_of (128 + b), char_of (128 + c), char_of (128 + d)]"
        using 4 by (simp add: utf8_encode_def a_def b_def c_def d_def)
      ultimately show ?thesis using n(2-)
        by (simp add: char_of_simps utf8_step_0 utf8_pos Let_def n(1) del: of_nat_add of_nat_mult)
    qed
  qed
  then show "wf_utf8 0 (utf8_encode n)" "utf8_run (utf8_encode n) (cps, v, 0) = (cps @ [of_nat n], of_nat n, 0)" by blast+
qed

lemma wf_utf8_append:
  "wf_utf8 k (s @ t) \<longleftrightarrow> wf_utf8 k s \<and> wf_utf8 (snd (snd (utf8_run s (cps, v, k)))) t"
  by (induction k s arbitrary: cps v rule: wf_utf8.induct) (auto simp: utf8_step_0 utf8_step_Suc Let_def)

lemma utf8_encode_all:
  assumes "\<forall>n \<in> set ns. 0 < n \<and> n < 0x110000"
  shows "wf_utf8 0 (concat (map utf8_encode ns))
     \<and> (\<exists>v'. utf8_run (concat (map utf8_encode ns)) (cps, v, 0) = (cps @ map of_nat ns, v', 0))"
  using assms
proof (induction ns arbitrary: cps v)
  case (Cons n ns)
  from Cons.prems have n: "0 < n" "n < 0x110000" by auto
  show ?case using Cons.IH [of "cps @ [of_nat n]" "of_nat n"] Cons.prems wf_utf8_append [of 0 _ _ cps v]
    by (simp add: utf8_encode_spec [OF n])
qed simp

text \<open>Decoding one piece after the other, as \<open>accept_str\<close> and \<open>accept_token\<close> do.\<close>

fun decode_pieces :: "string list \<Rightarrow> partial_utf8 \<Rightarrow> code_point list \<times> partial_utf8" where
  "decode_pieces [] p = ([], p)"
| "decode_pieces (s # ss) p =
     (let (cps, p') = decode_utf8 s p; (cps', p'') = decode_pieces ss p' in (butlast cps @ cps', p''))"

lemma decode_pieces_run:
  assumes "wf_utf8 n (concat ss)"
  shows "decode_pieces ss \<lparr>pu_value = v, pu_n_remain = int n\<rparr> =
     (\<lambda>(cps, v', n'). (cps, \<lparr>pu_value = v', pu_n_remain = int n'\<rparr>)) (utf8_run (concat ss) ([], v, n))"
  using assms
proof (induction ss arbitrary: v n)
  case (Cons s ss)
  obtain cps v' n' where r: "utf8_run s ([], v, n) = (cps, v', n')" by (cases "utf8_run s ([], v, n)")
  from Cons.prems have "wf_utf8 n s" "wf_utf8 n' (concat ss)"
    using wf_utf8_append [of n s "concat ss" "[]" v] by (simp_all add: r)
  with Cons.IH show ?case
    by (simp add: decode_utf8_run r utf8_run_prefix [of "concat ss" cps] split: prod.splits)
qed simp

text \<open>
  C36 (round trip): a text of encoded code points, cut into pieces anywhere, also in the middle of a
  sequence, and decoded piece by piece, gives the code points, and no partial sequence is left.
\<close>

theorem utf8_pieces_roundtrip:
  assumes "\<forall>n \<in> set ns. 0 < n \<and> n < 0x110000" and "concat pieces = concat (map utf8_encode ns)"
  shows "\<exists>v. decode_pieces pieces \<lparr>pu_value = 0, pu_n_remain = 0\<rparr> = (map of_nat ns, \<lparr>pu_value = v, pu_n_remain = 0\<rparr>)"
  using decode_pieces_run [of 0 pieces 0] utf8_encode_all [OF assms(1), of "[]" 0] by (auto simp: assms(2))

theorem utf8_pieces_roundtrip_witness:
  "\<exists>v. decode_pieces [[CHR 0x61, CHR 0xE2], [CHR 0x82], [CHR 0xAC]] \<lparr>pu_value = 0, pu_n_remain = 0\<rparr>
     = ([0x61, 0x20AC], \<lparr>pu_value = v, pu_n_remain = 0\<rparr>)"
proof -
  have "concat [[CHR 0x61, CHR 0xE2], [CHR 0x82], [CHR 0xAC]] = concat (map utf8_encode [0x61, 0x20AC])"
    by (simp add: utf8_encode_def char_of_def bit_0)
  from utf8_pieces_roundtrip [OF _ this] show ?thesis by simp
qed

text \<open>
  The two loops treat an invalid sequence differently: the loop that continues a partial sequence
  rejects a byte that is no continuation byte, the loop inside a piece accepts it.
\<close>

lemma invalid_depends_on_pieces:
  "fst (decode_pieces [[CHR 0xC3, CHR 0x41]] \<lparr>pu_value = 0, pu_n_remain = 0\<rparr>) = [0xC1]"
  "fst (decode_pieces [[CHR 0xC3], [CHR 0x41]] \<lparr>pu_value = 0, pu_n_remain = 0\<rparr>) = []"
  by (simp_all add: decode_utf8_def utf8_lookup_def highbits_def byte_of_def first_bits_def add_byte_def Let_def)

end
