(* ===== verification/Grammar.thy ===== *)
theory Grammar
  imports Grammar_Utf8
begin

text \<open>
  Grammar-constrained sampling: the engine of \<open>llama-grammar.cpp\<close>. A grammar is a vector of rules, a
  rule a vector of elements that ends in \<open>END\<close>. A pointer to an element is the number of its rule and
  its index there; a stack is the list of its pointers with the top first. Pointers leave their rule
  only when a rule is malformed, which is \<^term>\<open>None\<close>. So is a recursion that does not end: the
  recursive functions are partial functions, and that they return is proved where they do.
\<close>

section \<open>Definitions\<close>

datatype gretype =
    GRE_END | GRE_ALT | GRE_RULE_REF | GRE_CHAR | GRE_CHAR_NOT | GRE_CHAR_RNG_UPPER | GRE_CHAR_ALT
  | GRE_CHAR_ANY | GRE_TOKEN | GRE_TOKEN_NOT

record grammar_element =
  e_type :: gretype
  e_value :: "32 word"

type_synonym grammar_rule = "grammar_element list"
type_synonym grammar_rules = "grammar_rule list"
type_synonym grammar_pos = "nat \<times> nat"
type_synonym grammar_stack = "grammar_pos list"

abbreviation elem :: "gretype \<Rightarrow> 32 word \<Rightarrow> grammar_element" where
  "elem t v \<equiv> \<lparr>e_type = t, e_value = v\<rparr>"

definition elem_at :: "grammar_rules \<Rightarrow> grammar_pos \<Rightarrow> grammar_element option" where
  "elem_at rules p = Option.bind (nth_opt rules (fst p)) (\<lambda>rule. nth_opt rule (snd p))"

definition advance_pos :: "grammar_pos \<Rightarrow> nat \<Rightarrow> grammar_pos" where
  "advance_pos p k = (fst p, snd p + k)"

definition is_end_of_sequence :: "grammar_element \<Rightarrow> bool" where
  "is_end_of_sequence e \<longleftrightarrow> e_type e = GRE_END \<or> e_type e = GRE_ALT"

subsection \<open>Matching\<close>

definition is_positive_char :: "grammar_element \<Rightarrow> bool" where
  "is_positive_char e \<longleftrightarrow> e_type e = GRE_CHAR \<or> e_type e = GRE_CHAR_ANY"

text \<open>
  The loop over the elements of a character range: the elements from \<open>pos\<close> on, whether the
  character was found so far, and how far \<open>pos\<close> has advanced.
\<close>

fun match_loop :: "code_point \<Rightarrow> bool \<Rightarrow> nat \<Rightarrow> grammar_element list \<Rightarrow> (bool \<times> nat) option" where
  "match_loop chr found k (e # n # es) =
     (if e_type n = GRE_CHAR_RNG_UPPER then
        (let found' = (found \<or> (e_value e \<le> chr \<and> chr \<le> e_value n)) in
         case es of [] \<Rightarrow> None
         | f # _ \<Rightarrow> if e_type f = GRE_CHAR_ALT then match_loop chr found' (k + 2) es else Some (found', k + 2))
      else
        (let found' = (if e_type e = GRE_CHAR_ANY then True else found \<or> e_value e = chr) in
         if e_type n = GRE_CHAR_ALT then match_loop chr found' (k + 1) (n # es) else Some (found', k + 1)))"
| "match_loop chr found k _ = None"

definition elems_from :: "grammar_rules \<Rightarrow> grammar_pos \<Rightarrow> grammar_element list" where
  "elems_from rules p = (if fst p < length rules then drop (snd p) (rules ! fst p) else [])"

definition match_char :: "grammar_rules \<Rightarrow> grammar_pos \<Rightarrow> code_point \<Rightarrow> (bool \<times> grammar_pos) option" where
  "match_char rules pos chr = do {
     e \<leftarrow> elem_at rules pos;
     ensure (is_positive_char e \<or> e_type e = GRE_CHAR_NOT);
     (found, k) \<leftarrow> match_loop chr False 0 (elems_from rules pos);
     Some (found = is_positive_char e, advance_pos pos k)
   }"

fun match_partial_loop :: "code_point \<Rightarrow> code_point \<Rightarrow> bool \<Rightarrow> grammar_element list \<Rightarrow> bool option" where
  "match_partial_loop low high positive (e # n # es) =
     (if e_type n = GRE_CHAR_RNG_UPPER then
        (if e_value e \<le> high \<and> low \<le> e_value n then Some positive
         else case es of [] \<Rightarrow> None
         | f # _ \<Rightarrow> if e_type f = GRE_CHAR_ALT then match_partial_loop low high positive es else Some (\<not> positive))
      else if e_type e = GRE_CHAR_ANY then Some True
      else if low \<le> e_value e \<and> e_value e \<le> high then Some positive
      else if e_type n = GRE_CHAR_ALT then match_partial_loop low high positive (n # es)
      else Some (\<not> positive))"
| "match_partial_loop low high positive _ = None"

definition partial_low :: "partial_utf8 \<Rightarrow> code_point" where
  "partial_low p =
     (let low = push_bit (nat (pu_n_remain p) * 6) (pu_value p) in
      if low = 0 then
        (if pu_n_remain p = 2 then push_bit 11 1 else if pu_n_remain p = 3 then push_bit 16 1 else low)
      else low)"

definition partial_high :: "partial_utf8 \<Rightarrow> code_point" where
  "partial_high p = push_bit (nat (pu_n_remain p) * 6) (pu_value p) OR (push_bit (nat (pu_n_remain p) * 6) 1 - 1)"

definition match_partial_char :: "grammar_rules \<Rightarrow> grammar_pos \<Rightarrow> partial_utf8 \<Rightarrow> bool option" where
  "match_partial_char rules pos p = do {
     e \<leftarrow> elem_at rules pos;
     ensure (is_positive_char e \<or> e_type e = GRE_CHAR_NOT);
     if pu_n_remain p < 0 \<or> (pu_n_remain p = 1 \<and> pu_value p < 2) then Some False
     else match_partial_loop (partial_low p) (partial_high p) (is_positive_char e) (elems_from rules pos)
   }"

definition match_token :: "grammar_element \<Rightarrow> int \<Rightarrow> bool option" where
  "match_token e token = do {
     ensure (e_type e = GRE_TOKEN \<or> e_type e = GRE_TOKEN_NOT);
     Some (if e_type e = GRE_TOKEN then e_value e = word_of_int token else e_value e \<noteq> word_of_int token)
   }"

subsection \<open>Advancing a stack\<close>

text \<open>
  The starts of the alternates of a rule: the loop scans to the end of an alternate and goes on behind
  it if that end is an \<open>ALT\<close>.
\<close>

fun scan_alts :: "nat \<Rightarrow> grammar_rule \<Rightarrow> nat list option" where
  "scan_alts i [] = None"
| "scan_alts i (e # es) =
     (if e_type e = GRE_END then Some []
      else if e_type e = GRE_ALT then map_option (Cons (Suc i)) (scan_alts (Suc i) es)
      else scan_alts (Suc i) es)"

definition alternates :: "grammar_rule \<Rightarrow> nat list option" where
  "alternates rule = map_option (Cons 0) (scan_alts 0 rule)"

text \<open>A pointer is pushed unless it points to the end of its alternate.\<close>

definition push_pos :: "grammar_rules \<Rightarrow> grammar_pos \<Rightarrow> grammar_stack \<Rightarrow> grammar_stack option" where
  "push_pos rules p st = Option.bind (elem_at rules p) (\<lambda>e. Some (if is_end_of_sequence e then st else p # st))"

definition add_stack :: "grammar_stack \<Rightarrow> grammar_stack list \<Rightarrow> grammar_stack list" where
  "add_stack st sts = (if st \<in> set sts then sts else sts @ [st])"

lemma foldo_mono [partial_function_mono]:
  assumes "\<And>x s. mono_option (\<lambda>f. F f x s)"
  shows "mono_option (\<lambda>f. foldo (F f) xs s)"
proof (induction xs arbitrary: s)
  case (Cons x xs)
  have "mono_option (\<lambda>f. Option.bind (F f x s) (\<lambda>t. foldo (F f) xs t))"
    by (rule bind_mono [OF assms Cons.IH])
  then show ?case by simp
qed (simp add: option.const_mono)

partial_function (option) advance_stack ::
  "grammar_rules \<Rightarrow> grammar_stack \<Rightarrow> grammar_stack list \<Rightarrow> grammar_stack list option" where
  [code]: "advance_stack rules stack new_stacks = (case stack of
     [] \<Rightarrow> Some (add_stack stack new_stacks)
   | pos # st \<Rightarrow> Option.bind (elem_at rules pos) (\<lambda>e.
       if e_type e = GRE_RULE_REF then
         Option.bind (nth_opt rules (unat (e_value e))) (\<lambda>rule.
         Option.bind (alternates rule) (\<lambda>subs.
           foldo (\<lambda>sub ns.
             Option.bind (push_pos rules (advance_pos pos 1) st) (\<lambda>st1.
             Option.bind (push_pos rules (unat (e_value e), sub) st1) (\<lambda>st2.
               advance_stack rules st2 ns))) subs new_stacks))
       else if e_type e = GRE_CHAR \<or> e_type e = GRE_CHAR_NOT \<or> e_type e = GRE_CHAR_ANY
             \<or> e_type e = GRE_TOKEN \<or> e_type e = GRE_TOKEN_NOT
       then Some (add_stack stack new_stacks)
       else None))"

definition accept_chr :: "grammar_rules \<Rightarrow> grammar_stack \<Rightarrow> code_point \<Rightarrow> grammar_stack list \<Rightarrow> grammar_stack list option" where
  "accept_chr rules stack chr new_stacks = (case stack of
     [] \<Rightarrow> Some new_stacks
   | pos # st \<Rightarrow> do {
       e \<leftarrow> elem_at rules pos;
       if e_type e = GRE_TOKEN \<or> e_type e = GRE_TOKEN_NOT then Some new_stacks
       else do {
         (ok, pos') \<leftarrow> match_char rules pos chr;
         if ok then do {
           st' \<leftarrow> push_pos rules pos' st;
           advance_stack rules st' new_stacks
         } else Some new_stacks
       }
     })"

definition accept_stacks :: "grammar_rules \<Rightarrow> grammar_stack list \<Rightarrow> code_point \<Rightarrow> grammar_stack list option" where
  "accept_stacks rules stacks chr = foldo (\<lambda>st. accept_chr rules st chr) stacks []"

subsection \<open>Rejecting candidates\<close>

text \<open>
  A candidate is a token with its decoded code points, which end in zero. Its pointer into them is the
  vector with an index.
\<close>

record grammar_candidate =
  c_index :: nat
  c_code_points :: "code_point list"
  c_off :: nat
  c_partial :: partial_utf8
  c_id :: int

definition cand_chr :: "grammar_candidate \<Rightarrow> code_point option" where
  "cand_chr tok = nth_opt (c_code_points tok) (c_off tok)"

definition reject_empty :: "grammar_candidate \<Rightarrow> grammar_candidate list \<Rightarrow> grammar_candidate list option" where
  "reject_empty tok rejects = do {
     c \<leftarrow> cand_chr tok;
     Some (if c \<noteq> 0 \<or> pu_n_remain (c_partial tok) \<noteq> 0 then rejects @ [tok] else rejects)
   }"

definition reject_token :: "grammar_element \<Rightarrow> grammar_candidate \<Rightarrow> grammar_candidate list \<Rightarrow> grammar_candidate list option" where
  "reject_token e tok rejects = do {
     c \<leftarrow> cand_chr tok;
     if c = 0 then Some (if pu_n_remain (c_partial tok) \<noteq> 0 then rejects @ [tok] else rejects)
     else do {
       ok \<leftarrow> match_token e (c_id tok);
       Some (if ok then rejects else rejects @ [tok])
     }
   }"

definition reject_char :: "grammar_rules \<Rightarrow> grammar_pos \<Rightarrow> grammar_candidate
    \<Rightarrow> grammar_candidate list \<times> grammar_candidate list \<Rightarrow> (grammar_candidate list \<times> grammar_candidate list) option" where
  "reject_char rules pos tok acc = (case acc of (rejects, next) \<Rightarrow> do {
     c \<leftarrow> cand_chr tok;
     if c = 0 then
       if pu_n_remain (c_partial tok) \<noteq> 0 then do {
         ok \<leftarrow> match_partial_char rules pos (c_partial tok);
         Some (if ok then rejects else rejects @ [tok], next)
       } else Some (rejects, next)
     else do {
       (ok, _) \<leftarrow> match_char rules pos c;
       Some (if ok then (rejects, next @ [tok\<lparr>c_off := c_off tok + 1\<rparr>]) else (rejects @ [tok], next))
     }
   })"

definition reject_stacks :: "(grammar_stack \<Rightarrow> grammar_candidate list \<Rightarrow> grammar_candidate list option)
    \<Rightarrow> grammar_stack list \<Rightarrow> grammar_candidate list \<Rightarrow> grammar_candidate list option" where
  "reject_stacks for_stack stacks candidates =
     (if stacks = [] then None
      else if candidates = [] then Some []
      else Option.bind (for_stack (hd stacks) candidates) (foldo for_stack (tl stacks)))"

lemma reject_stacks_mono [partial_function_mono]:
  assumes "\<And>st cs. mono_option (\<lambda>f. F f st cs)"
  shows "mono_option (\<lambda>f. reject_stacks (F f) stacks candidates)"
  unfolding reject_stacks_def
  by (intro if_mono option.const_mono bind_mono foldo_mono assms)

partial_function (option) reject_candidates_for_stack ::
  "grammar_rules \<Rightarrow> grammar_stack \<Rightarrow> grammar_candidate list \<Rightarrow> grammar_candidate list option" where
  [code]: "reject_candidates_for_stack rules stack candidates = (case stack of
     [] \<Rightarrow> foldo reject_empty candidates []
   | pos # st \<Rightarrow> Option.bind (elem_at rules pos) (\<lambda>e.
       if e_type e = GRE_TOKEN \<or> e_type e = GRE_TOKEN_NOT then foldo (reject_token e) candidates []
       else
         Option.bind (foldo (reject_char rules pos) candidates ([], [])) (\<lambda>acc.
         Option.bind (match_char rules pos 0) (\<lambda>after.
         Option.bind (push_pos rules (snd after) st) (\<lambda>stack_after.
         Option.bind (advance_stack rules stack_after []) (\<lambda>next_stacks.
         Option.bind (reject_stacks (\<lambda>st cs. reject_candidates_for_stack rules st cs) next_stacks (snd acc)) (\<lambda>next_rejects.
           Some (fst acc @ map (\<lambda>tok. tok\<lparr>c_off := c_off tok - 1\<rparr>) next_rejects))))))))"

definition reject_candidates :: "grammar_rules \<Rightarrow> grammar_stack list \<Rightarrow> grammar_candidate list \<Rightarrow> grammar_candidate list option" where
  "reject_candidates rules = reject_stacks (reject_candidates_for_stack rules)"

subsection \<open>Left recursion\<close>

record lr_state =
  lr_visited :: "bool list"
  lr_in_progress :: "bool list"
  lr_may_be_empty :: "bool list"

text \<open>The first loop: whether some alternate of the rule is empty.\<close>

fun has_empty_alt :: "bool \<Rightarrow> grammar_rule \<Rightarrow> bool" where
  "has_empty_alt at_rule_start [] = False"
| "has_empty_alt at_rule_start (e # es) =
     (if is_end_of_sequence e then at_rule_start \<or> has_empty_alt True es else has_empty_alt False es)"

text \<open>The second loop, over the elements: whether to return true, \<open>recurse_into_nonterminal\<close>, the vectors.\<close>

definition lr_elem :: "(nat \<Rightarrow> lr_state \<Rightarrow> (bool \<times> lr_state) option) \<Rightarrow> grammar_element
    \<Rightarrow> bool \<times> bool \<times> lr_state \<Rightarrow> (bool \<times> bool \<times> lr_state) option" where
  "lr_elem detect e acc = (case acc of (found, recurse, s) \<Rightarrow>
     if found then Some acc
     else if e_type e = GRE_RULE_REF \<and> recurse then
       Option.bind (detect (unat (e_value e)) s) (\<lambda>r.
         if fst r then Some (True, recurse, snd r)
         else Option.bind (nth_opt (lr_may_be_empty (snd r)) (unat (e_value e))) (\<lambda>m. Some (False, m, snd r)))
     else Some (False, is_end_of_sequence e, s))"

lemma lr_elem_mono [partial_function_mono]:
  assumes "\<And>i s. mono_option (\<lambda>f. F f i s)"
  shows "mono_option (\<lambda>f. lr_elem (F f) e acc)"
  unfolding lr_elem_def prod.case_eq_if
  by (intro if_mono option.const_mono bind_mono assms)

partial_function (option) detect_left_recursion :: "grammar_rules \<Rightarrow> nat \<Rightarrow> lr_state \<Rightarrow> (bool \<times> lr_state) option" where
  [code]: "detect_left_recursion rules i s =
     Option.bind (nth_opt (lr_in_progress s) i) (\<lambda>busy.
       if busy then Some (True, s)
       else Option.bind (nth_opt rules i) (\<lambda>rule.
         Option.bind (foldo (lr_elem (\<lambda>j t. detect_left_recursion rules j t)) rule
           (False, True, s\<lparr>lr_in_progress := (lr_in_progress s)[i := True],
              lr_may_be_empty := (if has_empty_alt True rule then (lr_may_be_empty s)[i := True] else lr_may_be_empty s)\<rparr>))
           (\<lambda>acc. if fst acc then Some (True, snd (snd acc))
             else Some (False, (snd (snd acc))\<lparr>lr_in_progress := (lr_in_progress (snd (snd acc)))[i := False],
                lr_visited := (lr_visited (snd (snd acc)))[i := True]\<rparr>))))"

subsection \<open>The grammar\<close>

text \<open>
  Ollama's own vocabulary; that of the model (\<open>llama_vocab\<close>) appears only through the functions the
  grammar calls. \<open>std::regex\<close> is a parameter of the functions that match trigger patterns.
\<close>

record ollama_vocab =
  ov_pieces :: "32 word \<Rightarrow> string option"
  ov_eog :: "32 word set"

record llama_vocab =
  lv_token_to_piece :: "int \<Rightarrow> string"
  lv_is_eog :: "int \<Rightarrow> bool"
  lv_tokenize :: "string \<Rightarrow> int list"

definition ov_token_to_piece :: "ollama_vocab \<Rightarrow> 32 word \<Rightarrow> string option" where
  "ov_token_to_piece v token = ov_pieces v token"

definition ov_add_token_pieces :: "(32 word \<times> string) list \<Rightarrow> ollama_vocab \<Rightarrow> ollama_vocab" where
  "ov_add_token_pieces ps v = v\<lparr>ov_pieces := fold (\<lambda>(t, s) m. m(t \<mapsto> s)) ps (ov_pieces v)\<rparr>"

definition ov_is_eog :: "ollama_vocab \<Rightarrow> 32 word \<Rightarrow> bool" where
  "ov_is_eog v token \<longleftrightarrow> token \<in> ov_eog v"

definition ov_set_eog_tokens :: "32 word list \<Rightarrow> ollama_vocab \<Rightarrow> ollama_vocab" where
  "ov_set_eog_tokens ts v = v\<lparr>ov_eog := fold insert ts (ov_eog v)\<rparr>"

record grammar =
  g_vocab :: "llama_vocab option"
  g_o_vocab :: "ollama_vocab option"
  g_rules :: grammar_rules
  g_stacks :: "grammar_stack list"
  g_partial :: partial_utf8
  g_lazy :: bool
  g_awaiting_trigger :: bool
  g_trigger_buffer :: string
  g_trigger_positions :: "(int \<times> nat \<times> nat) list"
  g_trigger_tokens :: "int list"
  g_trigger_patterns :: "string list"

definition g_piece :: "grammar \<Rightarrow> int \<Rightarrow> string option" where
  "g_piece g token = (case g_o_vocab g of
     Some v \<Rightarrow> ov_token_to_piece v (word_of_int token)
   | None \<Rightarrow> map_option (\<lambda>v. lv_token_to_piece v token) (g_vocab g))"

definition g_is_eog :: "grammar \<Rightarrow> int \<Rightarrow> bool option" where
  "g_is_eog g token = (case g_o_vocab g of
     Some v \<Rightarrow> Some (ov_is_eog v (word_of_int token))
   | None \<Rightarrow> map_option (\<lambda>v. lv_is_eog v token) (g_vocab g))"

definition grammar_accept :: "grammar \<Rightarrow> code_point \<Rightarrow> grammar option" where
  "grammar_accept g chr = map_option (\<lambda>sts. g\<lparr>g_stacks := sts\<rparr>) (accept_stacks (g_rules g) (g_stacks g) chr)"

definition accept_str :: "grammar \<Rightarrow> string \<Rightarrow> grammar option" where
  "accept_str g piece = do {
     let (cps, p) = decode_utf8 piece (g_partial g);
     g1 \<leftarrow> foldo (\<lambda>c g. grammar_accept g c) (butlast cps) g;
     ensure (g_stacks g1 \<noteq> []);
     Some (g1\<lparr>g_partial := p\<rparr>)
   }"

fun accept_cps :: "grammar_rules \<Rightarrow> grammar_stack list \<Rightarrow> code_point list \<Rightarrow> grammar_stack list option" where
  "accept_cps rules current [] = Some current"
| "accept_cps rules current (c # cs) = do {
     next_stacks \<leftarrow> accept_stacks rules current c;
     if next_stacks = [] then Some next_stacks else accept_cps rules next_stacks cs
   }"

definition accept_token_stack :: "grammar_rules \<Rightarrow> int \<Rightarrow> code_point list \<Rightarrow> grammar_stack
    \<Rightarrow> grammar_stack list \<Rightarrow> grammar_stack list option" where
  "accept_token_stack rules token cps stack stacks_new = (case stack of
     [] \<Rightarrow> Some stacks_new
   | pos # st \<Rightarrow> do {
       e \<leftarrow> elem_at rules pos;
       if e_type e = GRE_TOKEN \<or> e_type e = GRE_TOKEN_NOT then do {
         ok \<leftarrow> match_token e token;
         if ok then do {
           st' \<leftarrow> push_pos rules (advance_pos pos 1) st;
           advance_stack rules st' stacks_new
         } else Some stacks_new
       } else do {
         surviving \<leftarrow> accept_cps rules [stack] cps;
         Some (fold add_stack surviving stacks_new)
       }
     })"

definition accept_token :: "grammar \<Rightarrow> int \<Rightarrow> string \<Rightarrow> grammar option" where
  "accept_token g token piece = do {
     let (cps, p) = decode_utf8 piece (g_partial g);
     stacks_new \<leftarrow> foldo (accept_token_stack (g_rules g) token (butlast cps)) (g_stacks g) [];
     ensure (stacks_new \<noteq> []);
     Some (g\<lparr>g_stacks := stacks_new, g_partial := p\<rparr>)
   }"

text \<open>
  The start of the text a matched pattern gives to the grammar: the first capturing group with a
  nonempty match, or the whole match. A match is the list of positions and lengths of its groups.
\<close>

definition trigger_start :: "(nat \<times> nat) list \<Rightarrow> nat option" where
  "trigger_start groups = (case find (\<lambda>(_, len). 0 < len) (tl groups) of
     Some (pos, _) \<Rightarrow> Some pos
   | None \<Rightarrow> map_option fst (nth_opt groups 0))"

definition replay_token :: "nat \<Rightarrow> int \<times> nat \<times> nat \<Rightarrow> grammar \<Rightarrow> grammar option" where
  "replay_token start entry g = (case entry of (tok, tok_start, tok_end) \<Rightarrow>
     if tok_end \<le> start then Some g
     else let piece_start = (if tok_start < start then start else tok_start) in
       accept_token g tok (take (tok_end - piece_start) (drop piece_start (g_trigger_buffer g))))"

definition accept_impl :: "(string \<Rightarrow> string \<Rightarrow> (nat \<times> nat) list option) \<Rightarrow> grammar \<Rightarrow> int \<Rightarrow> grammar option" where
  "accept_impl regex_match g token = do {
     piece \<leftarrow> g_piece g token;
     if g_awaiting_trigger g then
       if token \<in> set (g_trigger_tokens g)
       then accept_token (g\<lparr>g_awaiting_trigger := False, g_trigger_buffer := []\<rparr>) token piece
       else do {
         let n = length (g_trigger_buffer g);
         let g1 = g\<lparr>g_trigger_positions := g_trigger_positions g @ [(token, n, n + length piece)],
                    g_trigger_buffer := g_trigger_buffer g @ piece\<rparr>;
         case find (\<lambda>pat. regex_match pat (g_trigger_buffer g1) \<noteq> None) (g_trigger_patterns g1) of
           None \<Rightarrow> Some g1
         | Some pat \<Rightarrow> do {
             groups \<leftarrow> regex_match pat (g_trigger_buffer g1);
             start \<leftarrow> trigger_start groups;
             g2 \<leftarrow> foldo (replay_token start) (g_trigger_positions g1) (g1\<lparr>g_awaiting_trigger := False\<rparr>);
             Some (g2\<lparr>g_trigger_buffer := [], g_trigger_positions := []\<rparr>)
           }
       }
     else do {
       eog \<leftarrow> g_is_eog g token;
       if eog then do {
         ensure ([] \<in> set (g_stacks g));
         Some g
       } else accept_token g token piece
     }
   }"

text \<open>Masking the candidates the grammar rejects. The type of logits and minus infinity are parameters.\<close>

record 'l token_data =
  td_id :: int
  td_logit :: 'l

definition mask_logit :: "'l \<Rightarrow> nat \<Rightarrow> 'l token_data list \<Rightarrow> 'l token_data list" where
  "mask_logit neg_inf i cur = cur[i := (cur ! i)\<lparr>td_logit := neg_inf\<rparr>]"

definition apply_collect :: "'l \<Rightarrow> grammar \<Rightarrow> bool \<Rightarrow> nat \<Rightarrow> 'l token_data list \<times> grammar_candidate list
    \<Rightarrow> ('l token_data list \<times> grammar_candidate list) option" where
  "apply_collect neg_inf g allow_eog i acc = (case acc of (cur, cands) \<Rightarrow> do {
     d \<leftarrow> nth_opt cur i;
     piece \<leftarrow> g_piece g (td_id d);
     eog \<leftarrow> g_is_eog g (td_id d);
     if eog then Some (if allow_eog then cur else mask_logit neg_inf i cur, cands)
     else if piece = [] \<or> hd piece = CHR 0x00 then Some (mask_logit neg_inf i cur, cands)
     else let (cps, p) = decode_utf8 piece (g_partial g) in
       Some (cur, cands @ [\<lparr>c_index = i, c_code_points = cps, c_off = 0, c_partial = p, c_id = td_id d\<rparr>])
   })"

definition apply_impl :: "'l \<Rightarrow> grammar \<Rightarrow> 'l token_data list \<Rightarrow> 'l token_data list option" where
  "apply_impl neg_inf g cur =
     (if g_awaiting_trigger g then Some cur
      else do {
        (cur1, cands) \<leftarrow> foldo (apply_collect neg_inf g ([] \<in> set (g_stacks g))) [0..<length cur] (cur, []);
        rejects \<leftarrow> reject_candidates (g_rules g) (g_stacks g) cands;
        Some (fold (\<lambda>r. mask_logit neg_inf (c_index r)) rejects cur1)
      })"

subsection \<open>Construction\<close>

text \<open>A rule is copied up to its first \<open>END\<close>.\<close>

definition copy_rule :: "grammar_rule \<Rightarrow> grammar_rule option" where
  "copy_rule rule = do {
     ensure (\<exists>e \<in> set rule. e_type e = GRE_END);
     Some (takeWhile (\<lambda>e. e_type e \<noteq> GRE_END) rule @ [elem GRE_END 0])
   }"

definition lr_init :: "nat \<Rightarrow> lr_state" where
  "lr_init n = \<lparr>lr_visited = replicate n False, lr_in_progress = replicate n False, lr_may_be_empty = replicate n False\<rparr>"

definition lr_check_rule :: "grammar_rules \<Rightarrow> nat \<Rightarrow> bool \<times> lr_state \<Rightarrow> (bool \<times> lr_state) option" where
  "lr_check_rule rules i acc = (case acc of (found, s) \<Rightarrow>
     if found then Some acc
     else do {
       v \<leftarrow> nth_opt (lr_visited s) i;
       if v then Some acc else detect_left_recursion rules i s
     })"

definition has_left_recursion :: "grammar_rules \<Rightarrow> bool option" where
  "has_left_recursion rules =
     map_option fst (foldo (lr_check_rule rules) [0..<length rules] (False, lr_init (length rules)))"

definition initial_stacks :: "grammar_rules \<Rightarrow> nat \<Rightarrow> grammar_stack list option" where
  "initial_stacks rules start = do {
     rule \<leftarrow> nth_opt rules start;
     subs \<leftarrow> alternates rule;
     foldo (\<lambda>sub ns. do {
       st \<leftarrow> push_pos rules (start, sub) [];
       advance_stack rules st ns
     }) subs []
   }"

definition grammar_of :: "llama_vocab option \<Rightarrow> ollama_vocab option \<Rightarrow> grammar_rules \<Rightarrow> grammar_stack list
    \<Rightarrow> bool \<Rightarrow> int list \<Rightarrow> string list \<Rightarrow> grammar" where
  "grammar_of vocab o_vocab rules stacks lazy tokens patterns =
     \<lparr>g_vocab = vocab, g_o_vocab = o_vocab, g_rules = rules, g_stacks = stacks,
      g_partial = \<lparr>pu_value = 0, pu_n_remain = 0\<rparr>, g_lazy = lazy, g_awaiting_trigger = lazy,
      g_trigger_buffer = [], g_trigger_positions = [], g_trigger_tokens = tokens, g_trigger_patterns = patterns\<rparr>"

text \<open>The result of the constructors: \<^term>\<open>Some None\<close> is the null pointer.\<close>

definition init_impl :: "llama_vocab option \<Rightarrow> ollama_vocab option \<Rightarrow> grammar_rules \<Rightarrow> nat \<Rightarrow> grammar option option" where
  "init_impl vocab o_vocab rules start = do {
     vec_rules \<leftarrow> those (map copy_rule rules);
     bad \<leftarrow> has_left_recursion vec_rules;
     if bad then Some None
     else do {
       stacks \<leftarrow> initial_stacks vec_rules start;
       Some (Some (grammar_of vocab o_vocab vec_rules stacks False [] []))
     }
   }"

end
