(* ===== verification/Grammar_Wf.thy ===== *)
theory Grammar_Wf
  imports Grammar
begin

text \<open>
  Well-formed rules, as the parser produces them, and the operations on pointers there: no pointer
  leaves its rule, and stacks only hold pointers to the start of a symbol.
\<close>

section \<open>Well-formed rules\<close>

fun may_follow :: "gretype \<Rightarrow> gretype \<Rightarrow> bool" where
  "may_follow t GRE_CHAR_ALT \<longleftrightarrow> t \<in> {GRE_CHAR, GRE_CHAR_NOT, GRE_CHAR_ALT, GRE_CHAR_RNG_UPPER}"
| "may_follow t GRE_CHAR_RNG_UPPER \<longleftrightarrow> t \<in> {GRE_CHAR, GRE_CHAR_NOT, GRE_CHAR_ALT}"
| "may_follow t _ \<longleftrightarrow> True"

definition refs_below :: "nat \<Rightarrow> grammar_rule \<Rightarrow> bool" where
  "refs_below n rule \<longleftrightarrow> (\<forall>e \<in> set rule. e_type e = GRE_RULE_REF \<longrightarrow> unat (e_value e) < n)"

definition rule_ok :: "nat \<Rightarrow> grammar_rule \<Rightarrow> bool" where
  "rule_ok n rule \<longleftrightarrow> rule \<noteq> [] \<and> last rule = elem GRE_END 0
     \<and> (\<forall>e \<in> set (butlast rule). e_type e \<noteq> GRE_END)
     \<and> refs_below n rule \<and> successively may_follow (GRE_ALT # map e_type rule)"

definition rules_ok :: "grammar_rules \<Rightarrow> bool" where
  "rules_ok rules \<longleftrightarrow> (\<forall>rule \<in> set rules. rule_ok (length rules) rule)"

text \<open>A pointer to the start of a symbol or to the end of an alternate.\<close>

definition pos_good :: "grammar_rules \<Rightarrow> grammar_pos \<Rightarrow> bool" where
  "pos_good rules p \<longleftrightarrow> (\<exists>e. elem_at rules p = Some e \<and> e_type e \<notin> {GRE_CHAR_ALT, GRE_CHAR_RNG_UPPER})"

definition pos_ok :: "grammar_rules \<Rightarrow> grammar_pos \<Rightarrow> bool" where
  "pos_ok rules p \<longleftrightarrow> (\<exists>e. elem_at rules p = Some e \<and> \<not> is_end_of_sequence e
     \<and> e_type e \<notin> {GRE_CHAR_ALT, GRE_CHAR_RNG_UPPER})"

definition stack_ok :: "grammar_rules \<Rightarrow> grammar_stack \<Rightarrow> bool" where
  "stack_ok rules st \<longleftrightarrow> (\<forall>p \<in> set st. pos_ok rules p)"

lemma stack_ok_simps [simp]:
  "stack_ok rules []" "stack_ok rules (p # st) \<longleftrightarrow> pos_ok rules p \<and> stack_ok rules st"
  by (auto simp: stack_ok_def)

lemma elem_at_Some [simp]:
  "elem_at rules p = Some e \<longleftrightarrow> fst p < length rules \<and> snd p < length (rules ! fst p) \<and> rules ! fst p ! snd p = e"
  by (auto simp: elem_at_def Option.bind_eq_Some_conv)

lemma rules_ok_rule: "rules_ok rules \<Longrightarrow> i < length rules \<Longrightarrow> rule_ok (length rules) (rules ! i)"
  by (simp add: rules_ok_def)

lemma successively_nth: "successively P xs \<Longrightarrow> Suc i < length xs \<Longrightarrow> P (xs ! i) (xs ! Suc i)"
  by (simp add: successively_conv_nth)

lemma rule_ok_follow:
  assumes "rule_ok n rule" "Suc i < length rule"
  shows "may_follow (e_type (rule ! i)) (e_type (rule ! Suc i))"
  using assms successively_nth [of may_follow "GRE_ALT # map e_type rule" "Suc i"] by (simp add: rule_ok_def)

lemma rule_ok_first: "rule_ok n rule \<Longrightarrow> may_follow GRE_ALT (e_type (rule ! 0))"
  using successively_nth [of may_follow "GRE_ALT # map e_type rule" 0] by (simp add: rule_ok_def)

lemma rule_ok_next:
  assumes "rule_ok n rule" "i < length rule" "e_type (rule ! i) \<noteq> GRE_END"
  shows "Suc i < length rule"
proof (rule ccontr)
  assume "\<not> Suc i < length rule"
  with assms(2) have "i = length rule - 1" by simp
  with assms show False by (auto simp: rule_ok_def last_conv_nth)
qed

lemma rule_ok_ref:
  "rule_ok n rule \<Longrightarrow> i < length rule \<Longrightarrow> e_type (rule ! i) = GRE_RULE_REF \<Longrightarrow> unat (e_value (rule ! i)) < n"
  by (simp add: rule_ok_def refs_below_def)

text \<open>Behind an element other than a character a symbol starts or the alternate ends.\<close>

lemma pos_good_next:
  assumes "rules_ok rules" "elem_at rules p = Some e" "e_type e \<in> {GRE_ALT, GRE_RULE_REF, GRE_CHAR_ANY, GRE_TOKEN, GRE_TOKEN_NOT}"
  shows "pos_good rules (advance_pos p 1)"
proof -
  from assms(2) have p: "fst p < length rules" "snd p < length (rules ! fst p)" "rules ! fst p ! snd p = e" by auto
  note ok = rules_ok_rule [OF assms(1) p(1)]
  have n: "Suc (snd p) < length (rules ! fst p)" using rule_ok_next [OF ok p(2)] assms(3) p(3) by auto
  show ?thesis using rule_ok_follow [OF ok n] n p assms(3)
    by (auto simp: pos_good_def advance_pos_def)
qed

lemma push_pos_good:
  assumes "pos_good rules p"
  obtains st' where "push_pos rules p st = Some st'"
    and "\<And>st'. push_pos rules p st = Some st' \<Longrightarrow> stack_ok rules st \<Longrightarrow> stack_ok rules st'"
  using assms by (auto simp: pos_good_def push_pos_def pos_ok_def elem_at_def split: if_splits)

section \<open>Alternates\<close>

lemma scan_alts_Some: "e_type (last (e # es)) = GRE_END \<Longrightarrow> \<exists>subs. scan_alts i (e # es) = Some subs"
  by (induction es arbitrary: e i) auto

lemma scan_alts_set:
  "scan_alts i es = Some subs \<Longrightarrow> s \<in> set subs \<Longrightarrow>
     \<exists>j. s = Suc (i + j) \<and> Suc j < length es \<and> e_type (es ! j) = GRE_ALT"
proof (induction i es arbitrary: subs rule: scan_alts.induct)
  case (2 i e es)
  consider "e_type e = GRE_END" | "e_type e = GRE_ALT" "s = Suc i"
    | subs' where "scan_alts (Suc i) es = Some subs'" "s \<in> set subs'" "e_type e \<noteq> GRE_END"
    using "2.prems" by (auto split: if_splits)
  then show ?case
  proof cases
    case 1
    with "2.prems" show ?thesis by simp
  next
    case 2
    have "es \<noteq> []" using "2.prems"(1) 2 by auto
    with 2 show ?thesis by (intro exI [of _ 0]) auto
  next
    case 3
    have "\<exists>j. s = Suc (Suc i + j) \<and> Suc j < length es \<and> e_type (es ! j) = GRE_ALT"
      using 3 "2.IH" by (cases "e_type e = GRE_ALT") auto
    then obtain j where "s = Suc (Suc i + j)" "Suc j < length es" "e_type (es ! j) = GRE_ALT" by auto
    then show ?thesis by (intro exI [of _ "Suc j"]) simp
  qed
qed simp

lemma alternates_ok:
  assumes "rules_ok rules" "r < length rules"
  obtains subs where "alternates (rules ! r) = Some subs" "subs \<noteq> []"
    and "\<And>s. s \<in> set subs \<Longrightarrow> pos_good rules (r, s)"
proof -
  note ok = rules_ok_rule [OF assms]
  then have ne: "rules ! r \<noteq> []" "e_type (last (rules ! r)) = GRE_END" by (auto simp: rule_ok_def)
  then obtain subs where s: "scan_alts 0 (rules ! r) = Some subs"
    using scan_alts_Some [of "hd (rules ! r)" "tl (rules ! r)" 0] by auto
  have first: "pos_good rules (r, 0)" using rule_ok_first [OF ok] ne(1) assms(2) by (auto simp: pos_good_def)
  have rest: "pos_good rules (r, s')" if s': "s' \<in> set subs" for s'
  proof -
    obtain j where "s' = Suc j" "Suc j < length (rules ! r)" "e_type (rules ! r ! j) = GRE_ALT"
      using scan_alts_set [OF s s'] by auto
    then show ?thesis using pos_good_next [OF assms(1), of "(r, j)"] assms(2) by (auto simp: advance_pos_def)
  qed
  show ?thesis by (rule that [of "0 # subs"]) (use s first rest in \<open>auto simp: alternates_def\<close>)
qed

section \<open>Character ranges\<close>

lemma drop_two: "Suc i < length xs \<Longrightarrow> drop i xs = xs ! i # xs ! Suc i # drop (Suc (Suc i)) xs"
  by (metis Cons_nth_drop_Suc Suc_lessD)

text \<open>The range that starts at index \<open>i\<close> of a rule has \<open>j\<close> elements, and both loops stop behind it.\<close>

definition range_at :: "grammar_rule \<Rightarrow> nat \<Rightarrow> nat \<Rightarrow> bool" where
  "range_at rule i j \<longleftrightarrow> 0 < j \<and> i + j < length rule \<and> e_type (rule ! (i + j)) \<notin> {GRE_CHAR_ALT, GRE_CHAR_RNG_UPPER}
     \<and> (\<forall>chr found k. \<exists>b. match_loop chr found k (drop i rule) = Some (b, k + j))
     \<and> (\<forall>low high pos. \<exists>b. match_partial_loop low high pos (drop i rule) = Some b)"

lemma match_loops_total:
  assumes "rule_ok n rule" "i < length rule"
    and "e_type (rule ! i) \<in> {GRE_CHAR, GRE_CHAR_NOT, GRE_CHAR_ALT, GRE_CHAR_ANY}"
  shows "\<exists>j. range_at rule i j"
  using assms(2,3)
proof (induction "length rule - i" arbitrary: i rule: less_induct)
  case less
  note ok = assms(1)
  have n: "Suc i < length rule" using rule_ok_next [OF ok less.prems(1)] less.prems(2) by auto
  note d = drop_two [OF n]
  show ?case
  proof (cases "e_type (rule ! Suc i) = GRE_CHAR_RNG_UPPER")
    case True
    then have n2: "Suc (Suc i) < length rule" using rule_ok_next [OF ok n] by simp
    then have d2: "drop (Suc (Suc i)) rule = rule ! Suc (Suc i) # drop (Suc (Suc (Suc i))) rule"
      by (simp add: Cons_nth_drop_Suc)
    have no_rng: "e_type (rule ! Suc (Suc i)) \<noteq> GRE_CHAR_RNG_UPPER" using rule_ok_follow [OF ok n2] True by auto
    show ?thesis
    proof (cases "e_type (rule ! Suc (Suc i)) = GRE_CHAR_ALT")
      case alt: True
      obtain j where j: "range_at rule (Suc (Suc i)) j" using less.hyps [of "Suc (Suc i)"] n2 alt by (auto simp: diff_less_mono2)
      have "\<exists>b. match_loop chr found (Suc (Suc k)) (drop (Suc (Suc i)) rule) = Some (b, Suc (Suc k) + j)" for chr found k
        using j unfolding range_at_def by blast
      then show ?thesis using j d2 True alt by (intro exI [of _ "Suc (Suc j)"]) (simp add: range_at_def d)
    next
      case False
      show ?thesis using False no_rng True n2 by (intro exI [of _ 2]) (auto simp: range_at_def d d2)
    qed
  next
    case False
    show ?thesis
    proof (cases "e_type (rule ! Suc i) = GRE_CHAR_ALT")
      case alt: True
      obtain j where j: "range_at rule (Suc i) j" using less.hyps [of "Suc i"] n alt by (auto simp: diff_less_mono2)
      have d1: "drop (Suc i) rule = rule ! Suc i # drop (Suc (Suc i)) rule" using n by (simp add: Cons_nth_drop_Suc)
      have "\<exists>b. match_loop chr found (Suc k) (drop (Suc i) rule) = Some (b, Suc k + j)" for chr found k
        using j unfolding range_at_def by blast
      then show ?thesis using j False alt by (intro exI [of _ "Suc j"]) (simp add: range_at_def d d1, blast?)
    next
      case no_alt: False
      show ?thesis using False no_alt n by (intro exI [of _ 1]) (auto simp: range_at_def d)
    qed
  qed
qed

definition is_char_pos :: "grammar_rules \<Rightarrow> grammar_pos \<Rightarrow> bool" where
  "is_char_pos rules p \<longleftrightarrow> (\<exists>e. elem_at rules p = Some e \<and> e_type e \<in> {GRE_CHAR, GRE_CHAR_NOT, GRE_CHAR_ANY})"

lemma match_char_total:
  assumes "rules_ok rules" "is_char_pos rules p"
  obtains p' where "pos_good rules p'" "\<And>c. \<exists>b. match_char rules p c = Some (b, p')"
    and "\<And>u. \<exists>b. match_partial_char rules p u = Some b"
proof -
  from assms(2) obtain e where e: "fst p < length rules" "snd p < length (rules ! fst p)" "rules ! fst p ! snd p = e"
    "e_type e \<in> {GRE_CHAR, GRE_CHAR_NOT, GRE_CHAR_ANY}" by (auto simp: is_char_pos_def)
  obtain j where j: "range_at (rules ! fst p) (snd p) j"
    using match_loops_total [OF rules_ok_rule [OF assms(1) e(1)] e(2)] e(3,4) by auto
  have kind: "is_positive_char e \<or> e_type e = GRE_CHAR_NOT" using e(4) by (auto simp: is_positive_char_def)
  have at: "elem_at rules p = Some e" using e by simp
  have good: "pos_good rules (advance_pos p j)" using j e by (auto simp: pos_good_def advance_pos_def range_at_def)
  have "\<exists>b. match_char rules p c = Some (b, advance_pos p j)" for c
  proof -
    have "\<exists>b. match_loop c False 0 (drop (snd p) (rules ! fst p)) = Some (b, 0 + j)"
      using j unfolding range_at_def by blast
    then obtain b where "match_loop c False 0 (elems_from rules p) = Some (b, j)" using e(1) by (auto simp: elems_from_def)
    then show ?thesis using kind by (simp add: match_char_def at)
  qed
  moreover have "\<exists>b. match_partial_char rules p u = Some b" for u
    using j e(1) kind by (auto simp: match_partial_char_def at elems_from_def range_at_def)
  ultimately show ?thesis using that good by blast
qed

lemma match_char_same_pos:
  assumes "rules_ok rules" "match_char rules p c = Some (b, p1)" "match_char rules p d = Some (b', p2)"
  shows "p1 = p2"
proof -
  have "is_char_pos rules p" using assms(2)
    by (auto simp: match_char_def is_char_pos_def is_positive_char_def Option.bind_eq_Some_conv split: if_splits)
  then show ?thesis using match_char_total [OF assms(1)] assms(2,3) by (metis Pair_inject option.inject)
qed

declare elem_at_Some [simp del]

end
