(* ===== verification/Grammar_Lang.thy ===== *)
theory Grammar_Lang
  imports Grammar_Wf
begin

text \<open>
  The language of a grammar, and that the stacks of the engine recognise it. A pointer derives the
  words that the rest of its alternate derives; a stack derives what its pointers derive one after the
  other. Advancing a stack keeps what it derives, accepting a character takes that character off.
\<close>

section \<open>Derivations\<close>

inductive derives :: "grammar_rules \<Rightarrow> grammar_pos \<Rightarrow> code_point list \<Rightarrow> bool" for rules where
  derives_end: "elem_at rules p = Some e \<Longrightarrow> is_end_of_sequence e \<Longrightarrow> derives rules p []"
| derives_ref: "elem_at rules p = Some e \<Longrightarrow> e_type e = GRE_RULE_REF \<Longrightarrow> unat (e_value e) < length rules
    \<Longrightarrow> alternates (rules ! unat (e_value e)) = Some subs \<Longrightarrow> sub \<in> set subs
    \<Longrightarrow> derives rules (unat (e_value e), sub) u \<Longrightarrow> derives rules (advance_pos p 1) v
    \<Longrightarrow> derives rules p (u @ v)"
| derives_chr: "match_char rules p c = Some (True, p') \<Longrightarrow> derives rules p' w \<Longrightarrow> derives rules p (c # w)"

definition rule_derives :: "grammar_rules \<Rightarrow> nat \<Rightarrow> code_point list \<Rightarrow> bool" where
  "rule_derives rules r w \<longleftrightarrow> r < length rules
     \<and> (\<exists>subs sub. alternates (rules ! r) = Some subs \<and> sub \<in> set subs \<and> derives rules (r, sub) w)"

fun stack_derives :: "grammar_rules \<Rightarrow> grammar_stack \<Rightarrow> code_point list \<Rightarrow> bool" where
  "stack_derives rules [] w \<longleftrightarrow> w = []"
| "stack_derives rules (p # st) w \<longleftrightarrow> (\<exists>u v. w = u @ v \<and> derives rules p u \<and> stack_derives rules st v)"

definition is_terminal :: "grammar_element \<Rightarrow> bool" where
  "is_terminal e \<longleftrightarrow> e_type e \<in> {GRE_CHAR, GRE_CHAR_NOT, GRE_CHAR_ANY, GRE_TOKEN, GRE_TOKEN_NOT}"

lemma match_char_elem:
  assumes "match_char rules p c = Some r"
  obtains e where "elem_at rules p = Some e" "e_type e \<in> {GRE_CHAR, GRE_CHAR_NOT, GRE_CHAR_ANY}"
  using assms that by (auto simp: match_char_def is_positive_char_def Option.bind_eq_Some_conv split: if_splits)

lemma derives_at_end:
  assumes "elem_at rules p = Some e" "is_end_of_sequence e"
  shows "derives rules p w \<longleftrightarrow> w = []"
proof
  assume "derives rules p w"
  then show "w = []"
    using assms by cases (auto simp: is_end_of_sequence_def elim: match_char_elem)
qed (use derives_end [OF assms] in simp)

lemma derives_at_ref:
  assumes "elem_at rules p = Some e" "e_type e = GRE_RULE_REF"
  shows "derives rules p w \<longleftrightarrow>
    (\<exists>u v. w = u @ v \<and> rule_derives rules (unat (e_value e)) u \<and> derives rules (advance_pos p 1) v)"
proof
  assume "derives rules p w"
  then show "\<exists>u v. w = u @ v \<and> rule_derives rules (unat (e_value e)) u \<and> derives rules (advance_pos p 1) v"
  proof cases
    case (derives_ref e' subs sub u v)
    with assms show ?thesis by (auto simp: rule_derives_def)
  qed (use assms in \<open>auto simp: is_end_of_sequence_def elim: match_char_elem\<close>)
next
  assume "\<exists>u v. w = u @ v \<and> rule_derives rules (unat (e_value e)) u \<and> derives rules (advance_pos p 1) v"
  then show "derives rules p w" using derives_ref [OF assms] by (auto simp: rule_derives_def)
qed

lemma derives_at_chr:
  assumes "elem_at rules p = Some e" "is_terminal e"
  shows "derives rules p w \<longleftrightarrow> (\<exists>c p' v. w = c # v \<and> match_char rules p c = Some (True, p') \<and> derives rules p' v)"
proof
  assume "derives rules p w"
  then show "\<exists>c p' v. w = c # v \<and> match_char rules p c = Some (True, p') \<and> derives rules p' v"
    using assms by cases (auto simp: is_end_of_sequence_def is_terminal_def)
qed (auto intro: derives_chr)

lemma push_pos_derives:
  assumes "push_pos rules p st = Some st'"
  shows "stack_derives rules st' w \<longleftrightarrow> (\<exists>u v. w = u @ v \<and> derives rules p u \<and> stack_derives rules st v)"
proof -
  obtain e where e: "elem_at rules p = Some e" "st' = (if is_end_of_sequence e then st else p # st)"
    using assms by (auto simp: push_pos_def Option.bind_eq_Some_conv)
  then show ?thesis using derives_at_end [OF e(1)] by auto
qed

section \<open>Expansion of stacks\<close>

inductive expands :: "grammar_rules \<Rightarrow> grammar_stack \<Rightarrow> grammar_stack \<Rightarrow> bool" for rules where
  expands_nil: "expands rules [] []"
| expands_term: "elem_at rules p = Some e \<Longrightarrow> is_terminal e \<Longrightarrow> expands rules (p # st) (p # st)"
| expands_ref: "elem_at rules p = Some e \<Longrightarrow> e_type e = GRE_RULE_REF \<Longrightarrow> unat (e_value e) < length rules
    \<Longrightarrow> alternates (rules ! unat (e_value e)) = Some subs \<Longrightarrow> sub \<in> set subs
    \<Longrightarrow> push_pos rules (advance_pos p 1) st = Some st1 \<Longrightarrow> push_pos rules (unat (e_value e), sub) st1 = Some st2
    \<Longrightarrow> expands rules st2 st' \<Longrightarrow> expands rules (p # st) st'"

inductive_simps expands_Nil [simp]: "expands rules [] st'"
inductive_simps expands_Cons: "expands rules (p # st) st'"

definition expanded :: "grammar_rules \<Rightarrow> grammar_stack \<Rightarrow> bool" where
  "expanded rules st \<longleftrightarrow> (case st of [] \<Rightarrow> True | p # _ \<Rightarrow> (\<exists>e. elem_at rules p = Some e \<and> is_terminal e))"

lemma expands_expanded: "expands rules st st' \<Longrightarrow> expanded rules st'"
  by (induction rule: expands.induct) (auto simp: expanded_def)

lemma set_add_stack [simp]: "set (add_stack st sts) = insert st (set sts)"
  by (auto simp: add_stack_def)

lemma foldo_union:
  assumes "foldo f xs ns = Some ns'"
    and "\<And>x ns ns'. x \<in> set xs \<Longrightarrow> f x ns = Some ns' \<Longrightarrow> set ns' = set ns \<union> S x"
  shows "set ns' = set ns \<union> (\<Union>x \<in> set xs. S x)"
  using assms
proof (induction xs arbitrary: ns)
  case (Cons x xs)
  then obtain n1 where n1: "f x ns = Some n1" "foldo f xs n1 = Some ns'" by (auto simp: Option.bind_eq_Some_conv)
  have "set n1 = set ns \<union> S x" using Cons.prems(2) n1(1) by simp
  moreover have "set ns' = set n1 \<union> (\<Union>x \<in> set xs. S x)" using Cons.IH [OF n1(2)] Cons.prems(2) by simp
  ultimately show ?case by auto
qed simp

lemma advance_stack_set:
  assumes "advance_stack rules st ns = Some ns'"
  shows "set ns' = set ns \<union> {st'. expands rules st st'}"
proof (rule advance_stack.raw_induct [OF _ assms, of "\<lambda>rules st ns ns'. set ns' = set ns \<union> {st'. expands rules st st'}"])
  fix adv :: "grammar_rules \<Rightarrow> grammar_stack \<Rightarrow> grammar_stack list \<Rightarrow> grammar_stack list option"
  fix rules stack ns ns'
  assume IH: "\<And>rules st ns ns'. adv rules st ns = Some ns' \<Longrightarrow> set ns' = set ns \<union> {st'. expands rules st st'}"
    and body: "(case stack of [] \<Rightarrow> Some (add_stack stack ns)
   | pos # st \<Rightarrow> Option.bind (elem_at rules pos) (\<lambda>e.
       if e_type e = GRE_RULE_REF then
         Option.bind (nth_opt rules (unat (e_value e))) (\<lambda>rule.
         Option.bind (alternates rule) (\<lambda>subs.
           foldo (\<lambda>sub ns.
             Option.bind (push_pos rules (advance_pos pos 1) st) (\<lambda>st1.
             Option.bind (push_pos rules (unat (e_value e), sub) st1) (\<lambda>st2. adv rules st2 ns))) subs ns))
       else if e_type e = GRE_CHAR \<or> e_type e = GRE_CHAR_NOT \<or> e_type e = GRE_CHAR_ANY
             \<or> e_type e = GRE_TOKEN \<or> e_type e = GRE_TOKEN_NOT
       then Some (add_stack stack ns) else None)) = Some ns'"
  show "set ns' = set ns \<union> {st'. expands rules stack st'}"
  proof (cases stack)
    case Nil
    with body show ?thesis by auto
  next
    case (Cons p st)
    then obtain e where e: "elem_at rules p = Some e" using body by (auto simp: Option.bind_eq_Some_conv)
    show ?thesis
    proof (cases "e_type e = GRE_RULE_REF")
      case True
      define v where "v = unat (e_value e)"
      define f where "f = (\<lambda>sub ns. Option.bind (push_pos rules (advance_pos p 1) st) (\<lambda>st1.
             Option.bind (push_pos rules (v, sub) st1) (\<lambda>st2. adv rules st2 ns)))"
      from body e True obtain subs where subs: "v < length rules" "alternates (rules ! v) = Some subs"
          "foldo f subs ns = Some ns'"
        by (auto simp: Cons v_def f_def Option.bind_eq_Some_conv split: if_splits)
      define S where "S = (\<lambda>sub. {st'. \<exists>st1 st2. push_pos rules (advance_pos p 1) st = Some st1
         \<and> push_pos rules (v, sub) st1 = Some st2 \<and> expands rules st2 st'})"
      have step: "set n1 = set n0 \<union> S sub" if "f sub n0 = Some n1" for sub n0 n1
      proof -
        from that obtain st1 st2 where st: "push_pos rules (advance_pos p 1) st = Some st1"
            "push_pos rules (v, sub) st1 = Some st2" "adv rules st2 n0 = Some n1"
          unfolding f_def by (auto simp: Option.bind_eq_Some_conv)
        then have "S sub = {st'. expands rules st2 st'}" by (simp add: S_def)
        then show ?thesis using IH [OF st(3)] by simp
      qed
      have "set ns' = set ns \<union> (\<Union>sub \<in> set subs. S sub)" by (rule foldo_union [OF subs(3)]) (rule step)
      moreover have "{st'. expands rules stack st'} = (\<Union>sub \<in> set subs. S sub)"
        using e True subs(1,2) unfolding Cons S_def
        by (auto simp: expands_Cons is_terminal_def v_def)
      ultimately show ?thesis by simp
    next
      case False
      with body e show ?thesis
        by (auto simp: Cons expands_Cons is_terminal_def split: if_splits)
    qed
  qed
qed

text \<open>A stack derives exactly what its expansions derive.\<close>

lemma expands_sound: "expands rules st st' \<Longrightarrow> stack_derives rules st' w \<Longrightarrow> stack_derives rules st w"
proof (induction rule: expands.induct)
  case (expands_ref p e subs sub st st1 st2 st')
  then have "stack_derives rules st2 w" by blast
  then obtain u v1 v2 where "w = u @ v1 @ v2" "derives rules (unat (e_value e), sub) u"
      "derives rules (advance_pos p 1) v1" "stack_derives rules st v2"
    using push_pos_derives [OF expands_ref.hyps(6)] push_pos_derives [OF expands_ref.hyps(7)] by auto
  moreover from this have "derives rules p (u @ v1)" using derives.derives_ref [OF expands_ref.hyps(1-5)] by blast
  ultimately show ?case unfolding stack_derives.simps by (intro exI [of _ "u @ v1"] exI [of _ v2]) simp
qed auto

definition expansion_derives :: "grammar_rules \<Rightarrow> grammar_stack \<Rightarrow> code_point list \<Rightarrow> bool" where
  "expansion_derives rules st w \<longleftrightarrow> (\<exists>st'. expands rules st st' \<and> stack_derives rules st' w)"

lemma push_pos_total: "elem_at rules p = Some e \<Longrightarrow> push_pos rules p st = Some (if is_end_of_sequence e then st else p # st)"
  by (simp add: push_pos_def)

lemma derives_elem: "derives rules p w \<Longrightarrow> \<exists>e. elem_at rules p = Some e"
  by (erule derives.cases) (auto elim: match_char_elem)

lemma push_expansion:
  "derives rules p u \<Longrightarrow> push_pos rules p st = Some st1 \<Longrightarrow> expansion_derives rules st v
     \<Longrightarrow> expansion_derives rules st1 (u @ v)"
proof (induction arbitrary: st st1 v rule: derives.induct)
  case (derives_end p e)
  then show ?case by (simp add: push_pos_def)
next
  case (derives_ref p e subs sub u1 u2)
  have st1: "st1 = p # st" using derives_ref.prems(1) derives_ref.hyps(1,2) by (simp add: push_pos_def is_end_of_sequence_def)
  obtain st2 where st2: "push_pos rules (advance_pos p 1) st = Some st2"
    using derives_elem [OF derives_ref.hyps(7)] push_pos_total by blast
  obtain st3 where st3: "push_pos rules (unat (e_value e), sub) st2 = Some st3"
    using derives_elem [OF derives_ref.hyps(6)] push_pos_total by blast
  have "expansion_derives rules st3 (u1 @ u2 @ v)"
    using derives_ref.IH(1) [OF st3 derives_ref.IH(2) [OF st2 derives_ref.prems(2)]] .
  then show ?case using expands_ref [OF derives_ref.hyps(1-5) st2 st3] by (auto simp: expansion_derives_def st1)
next
  case (derives_chr p c p' w)
  obtain e where e: "elem_at rules p = Some e" "e_type e \<in> {GRE_CHAR, GRE_CHAR_NOT, GRE_CHAR_ANY}"
    using match_char_elem [OF derives_chr.hyps(1)] .
  have st1: "st1 = p # st" using derives_chr.prems(1) e by (auto simp: push_pos_def is_end_of_sequence_def)
  have "stack_derives rules st v" using derives_chr.prems(2) expands_sound by (auto simp: expansion_derives_def)
  moreover have "derives rules p (c # w)" using derives.derives_chr [OF derives_chr.hyps] .
  ultimately have "stack_derives rules (p # st) ((c # w) @ v)" by (simp only: stack_derives.simps) blast
  moreover have "expands rules (p # st) (p # st)" using e by (intro expands_term) (auto simp: is_terminal_def)
  ultimately show ?case unfolding expansion_derives_def st1 by (intro exI conjI)
qed

lemma expansion_complete:
  "stack_ok rules st \<Longrightarrow> stack_derives rules st w \<Longrightarrow> expansion_derives rules st w"
proof (induction st arbitrary: w)
  case (Cons p st)
  from Cons.prems obtain u v where w: "w = u @ v" "derives rules p u" "stack_derives rules st v" by auto
  have "push_pos rules p st = Some (p # st)" using Cons.prems(1) by (auto simp: pos_ok_def push_pos_def)
  with push_expansion w Cons show ?case by auto
qed (auto simp: expansion_derives_def intro: expands_nil)

lemma expansion_derives_iff: "stack_ok rules st \<Longrightarrow> expansion_derives rules st w \<longleftrightarrow> stack_derives rules st w"
  using expansion_complete expands_sound by (auto simp: expansion_derives_def)

section \<open>Accepting characters\<close>

lemma push_pos_ok: "pos_good rules p \<Longrightarrow> stack_ok rules st \<Longrightarrow> push_pos rules p st = Some st' \<Longrightarrow> stack_ok rules st'"
  by (auto simp: pos_good_def push_pos_def pos_ok_def split: if_splits)

lemma alternate_good:
  "rules_ok rules \<Longrightarrow> r < length rules \<Longrightarrow> alternates (rules ! r) = Some subs \<Longrightarrow> sub \<in> set subs \<Longrightarrow> pos_good rules (r, sub)"
  by (metis alternates_ok option.inject)

lemma expands_ok: "expands rules st st' \<Longrightarrow> rules_ok rules \<Longrightarrow> stack_ok rules st \<Longrightarrow> stack_ok rules st'"
proof (induction rule: expands.induct)
  case (expands_ref p e subs sub st st1 st2 st')
  have "pos_good rules (advance_pos p 1)" using pos_good_next expands_ref.hyps(1,2) expands_ref.prems(1) by auto
  then have "stack_ok rules st1" using push_pos_ok [OF _ _ expands_ref.hyps(6)] expands_ref.prems by simp
  then have "stack_ok rules st2" using push_pos_ok alternate_good expands_ref by blast
  with expands_ref show ?case by blast
qed auto

lemma matched_good: "rules_ok rules \<Longrightarrow> match_char rules p c = Some (b, p') \<Longrightarrow> pos_good rules p'"
  by (metis is_char_pos_def match_char_elem match_char_total option.inject prod.inject)

text \<open>The stacks that a stack becomes when a character is taken off.\<close>

definition successors :: "grammar_rules \<Rightarrow> code_point \<Rightarrow> grammar_stack \<Rightarrow> grammar_stack set" where
  "successors rules c st = {st'. \<exists>p rest p' st1. st = p # rest \<and> match_char rules p c = Some (True, p')
     \<and> push_pos rules p' rest = Some st1 \<and> expands rules st1 st'}"

lemma successors_match:
  "match_char rules p c = Some (True, p') \<Longrightarrow> push_pos rules p' rest = Some st1
     \<Longrightarrow> successors rules c (p # rest) = {st'. expands rules st1 st'}"
  by (simp add: successors_def del: split_paired_Ex)

lemma accept_chr_set:
  assumes "accept_chr rules st c ns = Some ns'"
  shows "set ns' = set ns \<union> successors rules c st"
proof (cases st)
  case Nil
  with assms show ?thesis by (simp add: accept_chr_def successors_def)
next
  case (Cons p rest)
  then obtain e where e: "elem_at rules p = Some e" using assms by (auto simp: accept_chr_def Option.bind_eq_Some_conv)
  show ?thesis
  proof (cases "e_type e = GRE_TOKEN \<or> e_type e = GRE_TOKEN_NOT")
    case True
    then have "match_char rules p c = None" using e by (auto simp: match_char_def is_positive_char_def)
    with True assms e show ?thesis by (auto simp: Cons accept_chr_def successors_def)
  next
    case False
    then obtain ok p' where m: "match_char rules p c = Some (ok, p')"
      using assms e by (auto simp: Cons accept_chr_def Option.bind_eq_Some_conv)
    show ?thesis
    proof (cases ok)
      case True
      then obtain st1 where "push_pos rules p' rest = Some st1" "advance_stack rules st1 ns = Some ns'"
        using assms e False m by (auto simp: Cons accept_chr_def Option.bind_eq_Some_conv)
      then show ?thesis using advance_stack_set True m successors_match by (simp add: Cons)
    next
      case not_ok: False
      with assms e False m show ?thesis by (auto simp: Cons accept_chr_def successors_def)
    qed
  qed
qed

lemma accept_stacks_set:
  "accept_stacks rules sts c = Some sts' \<Longrightarrow> set sts' = (\<Union>st \<in> set sts. successors rules c st)"
  unfolding accept_stacks_def using foldo_union [of _ sts "[]" sts' "successors rules c"] accept_chr_set by fastforce

lemma successors_ok:
  assumes "rules_ok rules" "stack_ok rules st" "st' \<in> successors rules c st"
  shows "stack_ok rules st' \<and> expanded rules st'"
proof -
  obtain p rest p' st1 where st: "st = p # rest" "match_char rules p c = Some (True, p')"
      "push_pos rules p' rest = Some st1" "expands rules st1 st'"
    using assms(3) by (auto simp: successors_def)
  have "stack_ok rules st1" using push_pos_ok [OF matched_good [OF assms(1) st(2)] _ st(3)] assms(2) st(1) by simp
  then show ?thesis using expands_ok [OF st(4) assms(1)] expands_expanded [OF st(4)] by simp
qed

lemma stack_derives_chr:
  assumes "elem_at rules p = Some e" "is_terminal e"
  shows "stack_derives rules (p # rest) (c # w) \<longleftrightarrow>
    (\<exists>p'. match_char rules p c = Some (True, p') \<and> (\<exists>u v. w = u @ v \<and> derives rules p' u \<and> stack_derives rules rest v))"
proof
  assume "stack_derives rules (p # rest) (c # w)"
  then obtain u v where "c # w = u @ v" "derives rules p u" "stack_derives rules rest v" by auto
  moreover from this obtain p' u' where "u = c # u'" "match_char rules p c = Some (True, p')" "derives rules p' u'"
    using derives_at_chr [OF assms] by auto
  ultimately show "\<exists>p'. match_char rules p c = Some (True, p') \<and> (\<exists>u v. w = u @ v \<and> derives rules p' u \<and> stack_derives rules rest v)"
    by (intro exI [of _ p']) auto
next
  assume "\<exists>p'. match_char rules p c = Some (True, p') \<and> (\<exists>u v. w = u @ v \<and> derives rules p' u \<and> stack_derives rules rest v)"
  then obtain p' u v where "match_char rules p c = Some (True, p')" "w = u @ v" "derives rules p' u" "stack_derives rules rest v"
    by auto
  moreover from this have "derives rules p (c # u)" by (blast intro: derives_chr)
  ultimately show "stack_derives rules (p # rest) (c # w)"
    unfolding stack_derives.simps by (intro exI [of _ "c # u"] exI [of _ v]) simp
qed

lemma successors_derive:
  assumes "rules_ok rules" "stack_ok rules st" "expanded rules st"
  shows "(\<exists>st' \<in> successors rules c st. stack_derives rules st' w) \<longleftrightarrow> stack_derives rules st (c # w)"
proof (cases st)
  case (Cons p rest)
  with assms(3) obtain e where e: "elem_at rules p = Some e" "is_terminal e" by (auto simp: expanded_def)
  show ?thesis
  proof (cases "\<exists>p'. match_char rules p c = Some (True, p')")
    case True
    then obtain p' where m: "match_char rules p c = Some (True, p')" by blast
    obtain e' where e': "elem_at rules p' = Some e'" using matched_good [OF assms(1) m] by (auto simp: pos_good_def)
    define st1 where "st1 = (if is_end_of_sequence e' then rest else p' # rest)"
    have push: "push_pos rules p' rest = Some st1" unfolding st1_def by (rule push_pos_total [OF e'])
    have ok: "stack_ok rules st1" using push_pos_ok [OF matched_good [OF assms(1) m] _ push] assms(2) Cons by simp
    have "(\<exists>st' \<in> successors rules c st. stack_derives rules st' w) \<longleftrightarrow> expansion_derives rules st1 w"
      using successors_match [OF m push] by (auto simp: expansion_derives_def Cons)
    also have "\<dots> \<longleftrightarrow> (\<exists>u v. w = u @ v \<and> derives rules p' u \<and> stack_derives rules rest v)"
      using expansion_derives_iff [OF ok] push_pos_derives [OF push] by simp
    also have "\<dots> \<longleftrightarrow> stack_derives rules st (c # w)"
      unfolding Cons stack_derives_chr [OF e] using m by (simp del: split_paired_Ex)
    finally show ?thesis .
  next
    case False
    then show ?thesis unfolding Cons stack_derives_chr [OF e] by (auto simp: successors_def)
  qed
qed (simp add: successors_def)

end
