(* ===== verification/Grammar_Term.thy ===== *)
theory Grammar_Term
  imports Grammar_Lang
begin

text \<open>
  Left recursion. The check of the grammar decides whether the relation "calls at its left end" on
  rules has a cycle, where a rule counts as empty only when one of its alternates is; it rejects no
  grammar that is free of left recursion in the usual sense, where a rule is empty when it derives the
  empty text. Advancing a stack ends for grammars that are free of it in the usual sense.
\<close>

lemma termipI: "(\<And>q. R p q \<Longrightarrow> termip R q) \<Longrightarrow> termip R p"
  by (rule accp.accI) simp

lemma termip_induct [consumes 1, case_names step]:
  assumes "termip R p" and "\<And>p. (\<And>q. R p q \<Longrightarrow> P q) \<Longrightarrow> P p"
  shows "P p"
  using assms(1) by (induction rule: accp.induct) (use assms(2) in simp)

section \<open>The check\<close>

definition nullable_direct :: "grammar_rules \<Rightarrow> nat \<Rightarrow> bool" where
  "nullable_direct rules r \<longleftrightarrow> has_empty_alt True (rules ! r)"

definition next_flag :: "grammar_rules \<Rightarrow> bool \<Rightarrow> grammar_element \<Rightarrow> bool" where
  "next_flag rules recurse e =
     (if e_type e = GRE_RULE_REF \<and> recurse then nullable_direct rules (unat (e_value e)) else is_end_of_sequence e)"

text \<open>For each element of a rule, whether the check looks at it when it is a reference.\<close>

fun left_flags :: "grammar_rules \<Rightarrow> bool \<Rightarrow> grammar_rule \<Rightarrow> bool list" where
  "left_flags rules recurse [] = []"
| "left_flags rules recurse (e # es) = recurse # left_flags rules (next_flag rules recurse e) es"

definition left_call :: "grammar_rules \<Rightarrow> nat \<Rightarrow> nat \<Rightarrow> bool" where
  "left_call rules r r' \<longleftrightarrow> r < length rules \<and> (\<exists>k < length (rules ! r). e_type (rules ! r ! k) = GRE_RULE_REF
     \<and> unat (e_value (rules ! r ! k)) = r' \<and> left_flags rules True (rules ! r) ! k)"

definition lr_ok :: "grammar_rules \<Rightarrow> lr_state \<Rightarrow> bool" where
  "lr_ok rules s \<longleftrightarrow> length (lr_visited s) = length rules \<and> length (lr_in_progress s) = length rules
     \<and> length (lr_may_be_empty s) = length rules
     \<and> (\<forall>j < length rules. lr_may_be_empty s ! j \<longrightarrow> nullable_direct rules j)
     \<and> (\<forall>j < length rules. lr_visited s ! j \<longrightarrow> termip (left_call rules) j)"

definition lr_le :: "grammar_rules \<Rightarrow> lr_state \<Rightarrow> lr_state \<Rightarrow> bool" where
  "lr_le rules s t \<longleftrightarrow> lr_ok rules t \<and> lr_in_progress t = lr_in_progress s
     \<and> (\<forall>j < length rules. lr_may_be_empty s ! j \<longrightarrow> lr_may_be_empty t ! j)
     \<and> (\<forall>j < length rules. lr_visited s ! j \<longrightarrow> lr_visited t ! j)"

lemma lr_le_refl: "lr_ok rules s \<Longrightarrow> lr_le rules s s"
  by (simp add: lr_le_def)

lemma lr_le_trans: "lr_le rules s t \<Longrightarrow> lr_le rules t u \<Longrightarrow> lr_le rules s u"
  by (simp add: lr_le_def)

text \<open>
  What a run of the check from rule \<open>i\<close> establishes: no cycle below \<open>i\<close>, or a cycle. The rules in
  progress call \<open>i\<close>.
\<close>

definition lr_result :: "grammar_rules \<Rightarrow> nat \<Rightarrow> lr_state \<Rightarrow> bool \<Rightarrow> lr_state \<Rightarrow> bool" where
  "lr_result rules i s b s' \<longleftrightarrow>
     (if b then (\<forall>j < length rules. lr_in_progress s ! j \<longrightarrow> (left_call rules)\<^sup>+\<^sup>+ j i) \<longrightarrow> (\<exists>r. (left_call rules)\<^sup>+\<^sup>+ r r)
      else lr_le rules s s' \<and> (lr_may_be_empty s' ! i \<longleftrightarrow> nullable_direct rules i) \<and> lr_visited s' ! i
         \<and> termip (left_call rules) i)"

lemma left_flags_nth:
  "k < length es \<Longrightarrow> length (left_flags rules recurse es) = length es
     \<and> (Suc k < length es \<longrightarrow> left_flags rules recurse es ! Suc k = next_flag rules (left_flags rules recurse es ! k) (es ! k))"
proof (induction es arbitrary: recurse k)
  case (Cons e es)
  show ?case
  proof (cases k)
    case 0
    then show ?thesis using Cons.IH [of 0] by (cases es) auto
  next
    case (Suc k')
    then show ?thesis using Cons.IH [of k'] Cons.prems by auto
  qed
qed simp

text \<open>What a run over the elements of a rule establishes.\<close>

definition lr_scan :: "grammar_rules \<Rightarrow> bool \<Rightarrow> grammar_rule \<Rightarrow> lr_state \<Rightarrow> bool \<Rightarrow> lr_state \<Rightarrow> bool" where
  "lr_scan rules recurse es s b s' \<longleftrightarrow>
     (if b then \<exists>k t t'. k < length es \<and> e_type (es ! k) = GRE_RULE_REF \<and> left_flags rules recurse es ! k
        \<and> lr_in_progress t = lr_in_progress s \<and> lr_result rules (unat (e_value (es ! k))) t True t'
      else lr_le rules s s' \<and> (\<forall>k < length es. e_type (es ! k) = GRE_RULE_REF \<longrightarrow> left_flags rules recurse es ! k
        \<longrightarrow> termip (left_call rules) (unat (e_value (es ! k)))))"

lemma lr_scan_step:
  assumes "lr_scan rules (next_flag rules recurse e) es t b s'" and "lr_le rules s t"
    and "e_type e = GRE_RULE_REF \<Longrightarrow> recurse \<Longrightarrow> termip (left_call rules) (unat (e_value e))"
  shows "lr_scan rules recurse (e # es) s b s'"
proof (cases b)
  case True
  with assms(1) obtain k u t' where "k < length es" "e_type (es ! k) = GRE_RULE_REF"
      "left_flags rules (next_flag rules recurse e) es ! k" "lr_in_progress u = lr_in_progress t"
      "lr_result rules (unat (e_value (es ! k))) u True t'"
    by (auto simp: lr_scan_def)
  with True assms(2) show ?thesis
    unfolding lr_scan_def lr_le_def by (simp, intro exI [of _ "Suc k"] exI [of _ u] conjI exI [of _ t']) simp_all
next
  case False
  with assms lr_le_trans [OF assms(2)] show ?thesis by (auto simp: lr_scan_def less_Suc_eq_0_disj)
qed

lemma lr_loop:
  assumes "foldo (lr_elem detect) es (False, recurse, s) = Some (b, recurse', s')" and "lr_ok rules s"
    and "\<And>e t b t'. e \<in> set es \<Longrightarrow> e_type e = GRE_RULE_REF \<Longrightarrow> lr_ok rules t \<Longrightarrow> lr_in_progress t = lr_in_progress s
      \<Longrightarrow> detect (unat (e_value e)) t = Some (b, t') \<Longrightarrow> lr_result rules (unat (e_value e)) t b t'"
    and "refs_below (length rules) es"
  shows "lr_scan rules recurse es s b s'"
  using assms
proof (induction es arbitrary: recurse s)
  case Nil
  then show ?case by (auto simp: lr_scan_def intro: lr_le_refl)
next
  case (Cons e es)
  have stop: "foldo (lr_elem detect) xs (True, r, t) = Some (True, r, t)" for xs r t
    by (induction xs) (auto simp: lr_elem_def)
  have refs: "refs_below (length rules) es" using Cons.prems(4) by (simp add: refs_below_def)
  show ?case
  proof (cases "e_type e = GRE_RULE_REF \<and> recurse")
    case False
    then have "lr_elem detect e (False, recurse, s) = Some (False, next_flag rules recurse e, s)"
      by (auto simp: lr_elem_def next_flag_def)
    with Cons.prems(1) have run: "foldo (lr_elem detect) es (False, next_flag rules recurse e, s) = Some (b, recurse', s')"
      by simp
    have "lr_scan rules (next_flag rules recurse e) es s b s'"
      by (rule Cons.IH [OF run Cons.prems(2) Cons.prems(3) refs]) simp_all
    then show ?thesis by (rule lr_scan_step) (use False Cons.prems(2) lr_le_refl in auto)
  next
    case True
    define v where "v = unat (e_value e)"
    have v: "v < length rules" using Cons.prems(4) True by (simp add: refs_below_def v_def)
    obtain b1 t where d: "detect v s = Some (b1, t)"
      using Cons.prems(1) True by (auto simp: lr_elem_def v_def Option.bind_eq_Some_conv split: if_splits)
    have res: "lr_result rules v s b1 t" using Cons.prems(2) Cons.prems(3) [of e s b1 t] True d by (simp add: v_def)
    show ?thesis
    proof (cases b1)
      case b1: True
      then have "lr_elem detect e (False, recurse, s) = Some (True, recurse, t)" using True d by (simp add: lr_elem_def v_def)
      then have "b" using Cons.prems(1) stop by simp
      then show ?thesis using True res b1 unfolding lr_scan_def by (simp, intro exI [of _ 0]) (auto simp: v_def)
    next
      case b1: False
      have t: "lr_le rules s t" "lr_may_be_empty t ! v \<longleftrightarrow> nullable_direct rules v" "termip (left_call rules) v"
        using res b1 by (auto simp: lr_result_def)
      have ok: "lr_ok rules t" "lr_in_progress t = lr_in_progress s" using t(1) by (auto simp: lr_le_def)
      then have "lr_elem detect e (False, recurse, s) = Some (False, next_flag rules recurse e, t)"
        using True d b1 t(2) v by (simp add: lr_elem_def v_def next_flag_def lr_ok_def nth_opt_Some)
      then have run: "foldo (lr_elem detect) es (False, next_flag rules recurse e, t) = Some (b, recurse', s')"
        using Cons.prems(1) by simp
      have "lr_scan rules (next_flag rules recurse e) es t b s'"
        by (rule Cons.IH [OF run ok(1) _ refs]) (use Cons.prems(3) in \<open>simp add: ok(2)\<close>)
      then show ?thesis by (rule lr_scan_step [OF _ t(1)]) (use t(3) in \<open>simp add: v_def\<close>)
    qed
  qed
qed

lemma accp_left_callI:
  assumes "\<forall>k < length (rules ! i). e_type (rules ! i ! k) = GRE_RULE_REF \<longrightarrow> left_flags rules True (rules ! i) ! k
     \<longrightarrow> termip (left_call rules) (unat (e_value (rules ! i ! k)))"
  shows "termip (left_call rules) i"
  by (rule termipI) (use assms in \<open>auto simp: left_call_def\<close>)

lemma detect_step:
  assumes IH: "\<And>j t r. detect j t = Some r \<Longrightarrow> j < length rules \<Longrightarrow> lr_ok rules t \<Longrightarrow> lr_result rules j t (fst r) (snd r)"
    and run: "foldo (lr_elem detect) (rules ! i) (False, True, s1) = Some acc"
    and s1: "s1 = s\<lparr>lr_in_progress := (lr_in_progress s)[i := True],
      lr_may_be_empty := (if has_empty_alt True (rules ! i) then (lr_may_be_empty s)[i := True] else lr_may_be_empty s)\<rparr>"
    and ok: "rules_ok rules" "i < length rules" "lr_ok rules s" "\<not> lr_in_progress s ! i"
  shows "lr_result rules i s (fst acc) (if fst acc then snd (snd acc)
     else (snd (snd acc))\<lparr>lr_in_progress := (lr_in_progress (snd (snd acc)))[i := False],
        lr_visited := (lr_visited (snd (snd acc)))[i := True]\<rparr>)"
proof -
  obtain b rec t where acc: "acc = (b, rec, t)" by (cases acc)
  have refs: "refs_below (length rules) (rules ! i)" using rules_ok_rule [OF ok(1,2)] by (simp add: rule_ok_def)
  have ok1: "lr_ok rules s1" using ok(2,3) by (auto simp: s1 lr_ok_def nth_upd nullable_direct_def)
  have scan: "lr_scan rules True (rules ! i) s1 b t"
    by (rule lr_loop [OF run [unfolded acc] ok1 _ refs]) (use IH refs in \<open>force simp: refs_below_def\<close>)
  show ?thesis
  proof (cases b)
    case True
    with scan obtain k u u' where k: "k < length (rules ! i)" "e_type (rules ! i ! k) = GRE_RULE_REF"
        "left_flags rules True (rules ! i) ! k" "lr_in_progress u = lr_in_progress s1"
        "lr_result rules (unat (e_value (rules ! i ! k))) u True u'"
      by (auto simp: lr_scan_def)
    have call: "left_call rules i (unat (e_value (rules ! i ! k)))" using k ok(2) by (auto simp: left_call_def)
    have "(\<exists>r. (left_call rules)\<^sup>+\<^sup>+ r r)" if path: "\<forall>j < length rules. lr_in_progress s ! j \<longrightarrow> (left_call rules)\<^sup>+\<^sup>+ j i"
    proof -
      have "(left_call rules)\<^sup>+\<^sup>+ j (unat (e_value (rules ! i ! k)))" if j: "j < length rules" "lr_in_progress u ! j" for j
      proof (cases "j = i")
        case True
        then show ?thesis using call by blast
      next
        case False
        then have "lr_in_progress s ! j" using j k(4) by (simp add: s1)
        then have "(left_call rules)\<^sup>+\<^sup>+ j i" using path j(1) by simp
        from this call show ?thesis by (rule tranclp.trancl_into_trancl)
      qed
      then have "\<forall>j < length rules. lr_in_progress u ! j \<longrightarrow> (left_call rules)\<^sup>+\<^sup>+ j (unat (e_value (rules ! i ! k)))"
        by blast
      with k(5) show ?thesis unfolding lr_result_def if_True by (rule mp)
    qed
    then show ?thesis using True unfolding lr_result_def acc by (simp only: fst_conv if_True) blast
  next
    case False
    then have le: "lr_le rules s1 t" and acc_i: "termip (left_call rules) i"
      using scan accp_left_callI by (auto simp: lr_scan_def)
    have "(lr_in_progress s)[i := True, i := False] = lr_in_progress s" using ok(2-4) by (simp add: lr_ok_def list_update_same_conv)
    moreover have "lr_may_be_empty t ! i \<longleftrightarrow> nullable_direct rules i"
    proof
      assume "nullable_direct rules i"
      then have "lr_may_be_empty s1 ! i" using ok(2,3) by (simp add: s1 nullable_direct_def lr_ok_def)
      then show "lr_may_be_empty t ! i" using le ok(2) by (simp add: lr_le_def)
    qed (use le ok(2) in \<open>simp add: lr_le_def lr_ok_def\<close>)
    ultimately show ?thesis using False le acc_i ok(2,3)
      by (auto simp: lr_result_def acc lr_le_def lr_ok_def s1 nth_upd split: if_splits)
  qed
qed

lemma detect_sound:
  assumes "detect_left_recursion rules i s = Some (b, s')" and "rules_ok rules" "i < length rules" "lr_ok rules s"
  shows "lr_result rules i s b s'"
proof -
  have "rules_ok rules \<longrightarrow> i < length rules \<longrightarrow> lr_ok rules s \<longrightarrow> lr_result rules i s (fst r) (snd r)"
    if "detect_left_recursion rules i s = Some r" for r
    using that
  proof (induct rule: detect_left_recursion.raw_induct [rotated 1, consumes 1])
    case (1 detect rules i s r)
    show ?case
    proof (intro impI)
      assume ok: "rules_ok rules" "i < length rules" "lr_ok rules s"
      show "lr_result rules i s (fst r) (snd r)"
      proof (cases "lr_in_progress s ! i")
        case True
        then show ?thesis using 1(2) ok by (auto simp: lr_ok_def lr_result_def)
      next
        case False
        define s1 where "s1 = s\<lparr>lr_in_progress := (lr_in_progress s)[i := True],
          lr_may_be_empty := (if has_empty_alt True (rules ! i) then (lr_may_be_empty s)[i := True] else lr_may_be_empty s)\<rparr>"
        obtain acc where run: "foldo (lr_elem (detect rules)) (rules ! i) (False, True, s1) = Some acc"
          and r: "r = (fst acc, if fst acc then snd (snd acc)
            else (snd (snd acc))\<lparr>lr_in_progress := (lr_in_progress (snd (snd acc)))[i := False],
              lr_visited := (lr_visited (snd (snd acc)))[i := True]\<rparr>)"
          using 1(2) False ok by (auto simp: lr_ok_def s1_def Option.bind_eq_Some_conv split: if_splits)
        show ?thesis
          using detect_step [OF _ run s1_def ok False] 1(1) ok(1) by (simp add: r)
      qed
    qed
  qed
  with assms show ?thesis by fastforce
qed

text \<open>The check ends: every call marks one more rule as in progress.\<close>

lemma lr_loop_total:
  assumes "lr_ok rules s" and "refs_below (length rules) es"
    and "\<And>e t. e \<in> set es \<Longrightarrow> e_type e = GRE_RULE_REF \<Longrightarrow> lr_ok rules t \<Longrightarrow> lr_in_progress t = lr_in_progress s
      \<Longrightarrow> \<exists>b t'. detect (unat (e_value e)) t = Some (b, t') \<and> lr_result rules (unat (e_value e)) t b t'"
  shows "\<exists>acc. foldo (lr_elem detect) es (False, recurse, s) = Some acc"
proof -
  define P where "P = (\<lambda>acc :: bool \<times> bool \<times> lr_state. fst acc \<or> (lr_ok rules (snd (snd acc)) \<and> lr_in_progress (snd (snd acc)) = lr_in_progress s))"
  have "\<exists>acc'. lr_elem detect e acc = Some acc' \<and> P acc'" if e: "e \<in> set es" and acc: "P acc" for e acc
  proof -
    obtain found rec t where a: "acc = (found, rec, t)" by (cases acc)
    show ?thesis
    proof (cases "\<not> found \<and> e_type e = GRE_RULE_REF \<and> rec")
      case True
      then have t: "lr_ok rules t" "lr_in_progress t = lr_in_progress s" using acc by (auto simp: P_def a)
      obtain b t' where d: "detect (unat (e_value e)) t = Some (b, t')" "lr_result rules (unat (e_value e)) t b t'"
        using assms(3) [OF e _ t] True by blast
      have v: "unat (e_value e) < length rules" using assms(2) e True by (auto simp: refs_below_def)
      show ?thesis using d v t True by (cases b) (auto simp: lr_elem_def a P_def lr_result_def lr_le_def lr_ok_def)
    next
      case False
      then show ?thesis using acc by (auto simp: lr_elem_def a P_def)
    qed
  qed
  moreover have "P (False, recurse, s)" using assms(1) by (simp add: P_def)
  ultimately show ?thesis using foldo_invariant [of P] by blast
qed

definition idle :: "lr_state \<Rightarrow> nat" where
  "idle s = length (filter Not (lr_in_progress s))"

lemma idle_mark: "i < length (lr_in_progress s) \<Longrightarrow> \<not> lr_in_progress s ! i \<Longrightarrow> lr_in_progress t = (lr_in_progress s)[i := True] \<Longrightarrow> idle t < idle s"
proof -
  have "i < length xs \<Longrightarrow> \<not> xs ! i \<Longrightarrow> length (filter Not (xs[i := True])) < length (filter Not xs)" for xs
    by (induction xs arbitrary: i) (auto split: nat.splits simp: nth_Cons)
  then show "i < length (lr_in_progress s) \<Longrightarrow> \<not> lr_in_progress s ! i \<Longrightarrow> lr_in_progress t = (lr_in_progress s)[i := True] \<Longrightarrow> idle t < idle s"
    by (simp add: idle_def)
qed

lemma detect_total:
  assumes "rules_ok rules" "i < length rules" "lr_ok rules s"
  shows "\<exists>b s'. detect_left_recursion rules i s = Some (b, s')"
  using assms(2,3)
proof (induction "idle s" arbitrary: i s rule: less_induct)
  case less
  show ?case
  proof (cases "lr_in_progress s ! i")
    case True
    with less.prems show ?thesis by (subst detect_left_recursion.simps) (auto simp: lr_ok_def)
  next
    case False
    define s1 where "s1 = s\<lparr>lr_in_progress := (lr_in_progress s)[i := True],
      lr_may_be_empty := (if has_empty_alt True (rules ! i) then (lr_may_be_empty s)[i := True] else lr_may_be_empty s)\<rparr>"
    have ok1: "lr_ok rules s1" using less.prems by (auto simp: s1_def lr_ok_def nth_upd nullable_direct_def)
    have refs: "refs_below (length rules) (rules ! i)" using rules_ok_rule [OF assms(1) less.prems(1)] by (simp add: rule_ok_def)
    have idle: "idle t < idle s" if "lr_in_progress t = lr_in_progress s1" for t
      using idle_mark [of i s t] that False less.prems by (simp add: s1_def lr_ok_def)
    have "\<exists>b t'. detect_left_recursion rules (unat (e_value e)) t = Some (b, t') \<and> lr_result rules (unat (e_value e)) t b t'"
      if "e \<in> set (rules ! i)" "e_type e = GRE_RULE_REF" "lr_ok rules t" "lr_in_progress t = lr_in_progress s1" for e t
    proof -
      have "unat (e_value e) < length rules" using refs that(1,2) by (simp add: refs_below_def)
      then show ?thesis using less.hyps [OF idle [OF that(4)]] that(3) detect_sound [OF _ assms(1)] by blast
    qed
    then obtain acc where "foldo (lr_elem (detect_left_recursion rules)) (rules ! i) (False, True, s1) = Some acc"
      using lr_loop_total [OF ok1 refs] by blast
    then show ?thesis using False less.prems
      by (subst detect_left_recursion.simps) (cases "fst acc"; auto simp: lr_ok_def s1_def)
  qed
qed

lemma has_left_recursion_spec:
  assumes "rules_ok rules"
  shows "\<exists>b. has_left_recursion rules = Some b \<and> (b \<longrightarrow> (\<exists>r. (left_call rules)\<^sup>+\<^sup>+ r r))
     \<and> (\<not> b \<longrightarrow> (\<forall>i < length rules. termip (left_call rules) i))"
proof -
  define n where "n = length rules"
  define P where "P = (\<lambda>i (acc :: bool \<times> lr_state). if fst acc then \<exists>r. (left_call rules)\<^sup>+\<^sup>+ r r
     else lr_ok rules (snd acc) \<and> (\<forall>j < n. \<not> lr_in_progress (snd acc) ! j) \<and> (\<forall>j < i. lr_visited (snd acc) ! j))"
  have init: "P 0 (False, lr_init n)" by (auto simp: P_def lr_init_def lr_ok_def n_def)
  have step: "\<exists>acc'. lr_check_rule rules i acc = Some acc' \<and> P (Suc i) acc'" if i: "i < n" and acc: "P i acc" for i acc
  proof -
    obtain found s where a: "acc = (found, s)" by (cases acc)
    consider "found" | "\<not> found" "lr_visited s ! i" | "\<not> found" "\<not> lr_visited s ! i" by blast
    then show ?thesis
    proof cases
      case 3
      have ok: "lr_ok rules s" "i < length rules" using acc 3 i by (auto simp: P_def a n_def)
      obtain b s' where d: "detect_left_recursion rules i s = Some (b, s')" using detect_total [OF assms ok(2,1)] by blast
      have "lr_result rules i s b s'" using detect_sound [OF d assms ok(2,1)] .
      then have "P (Suc i) (b, s')" using acc 3 i by (auto simp: P_def a n_def lr_result_def lr_le_def less_Suc_eq)
      then show ?thesis using d 3 ok by (auto simp: lr_check_rule_def a lr_ok_def)
    qed (use acc i in \<open>auto simp: lr_check_rule_def a P_def lr_ok_def n_def less_Suc_eq\<close>)
  qed
  obtain acc where "foldo (lr_check_rule rules) [0..<n] (False, lr_init n) = Some acc" "P n acc"
    using foldo_upt_invariant [where P = P and f = "lr_check_rule rules" and n = n, OF init step] by auto
  then show ?thesis by (cases "fst acc") (auto simp: has_left_recursion_def n_def P_def lr_ok_def)
qed

section \<open>Advancing ends\<close>

text \<open>The pointers that advancing can put on top of a stack without taking a character off.\<close>

definition left_step :: "grammar_rules \<Rightarrow> grammar_pos \<Rightarrow> grammar_pos \<Rightarrow> bool" where
  "left_step rules p q \<longleftrightarrow> (\<exists>e. elem_at rules p = Some e \<and> e_type e = GRE_RULE_REF \<and> unat (e_value e) < length rules
     \<and> ((\<exists>subs. alternates (rules ! unat (e_value e)) = Some subs \<and> fst q = unat (e_value e) \<and> snd q \<in> set subs)
        \<or> q = advance_pos p 1 \<and> rule_derives rules (unat (e_value e)) []))"

definition left_free :: "grammar_rules \<Rightarrow> bool" where
  "left_free rules \<longleftrightarrow> (\<forall>p. pos_good rules p \<longrightarrow> termip (left_step rules) p)"

lemma left_stepE:
  assumes "left_step rules p q"
  obtains e subs where "elem_at rules p = Some e" "e_type e = GRE_RULE_REF" "fst q < length rules"
      "fst q = unat (e_value e)" "alternates (rules ! fst q) = Some subs" "snd q \<in> set subs"
    | e where "elem_at rules p = Some e" "e_type e = GRE_RULE_REF" "q = advance_pos p 1" "rule_derives rules (unat (e_value e)) []"
  using assms by (auto simp: left_step_def)

text \<open>
  Left recursion itself, which the check approximates: the elements that a rule can reach from the start
  of an alternate through references to rules that derive the empty text, and the rules it refers to
  there.
\<close>

inductive begins :: "grammar_rules \<Rightarrow> nat \<Rightarrow> nat \<Rightarrow> bool" for rules where
  starts: "alternates (rules ! r) = Some subs \<Longrightarrow> sub \<in> set subs \<Longrightarrow> begins rules r sub"
| skips: "begins rules r k \<Longrightarrow> k < length (rules ! r) \<Longrightarrow> e_type (rules ! r ! k) = GRE_RULE_REF
    \<Longrightarrow> rule_derives rules (unat (e_value (rules ! r ! k))) [] \<Longrightarrow> begins rules r (Suc k)"

definition left_ref :: "grammar_rules \<Rightarrow> nat \<Rightarrow> nat \<Rightarrow> bool" where
  "left_ref rules r r' \<longleftrightarrow> r < length rules \<and> (\<exists>k < length (rules ! r). begins rules r k
     \<and> e_type (rules ! r ! k) = GRE_RULE_REF \<and> unat (e_value (rules ! r ! k)) = r')"

definition no_left_recursion :: "grammar_rules \<Rightarrow> bool" where
  "no_left_recursion rules \<longleftrightarrow> \<not> (\<exists>r. (left_ref rules)\<^sup>+\<^sup>+ r r)"

lemma left_ref_below: "rules_ok rules \<Longrightarrow> left_ref rules r r' \<Longrightarrow> r < length rules \<and> r' < length rules"
  using rule_ok_ref [OF rules_ok_rule] by (auto simp: left_ref_def)

lemma no_left_recursion_termip:
  assumes "rules_ok rules" "no_left_recursion rules"
  shows "termip (left_ref rules) r"
proof -
  define R where "R = {(q, p). left_ref rules q p}"
  have "R \<subseteq> {..< length rules} \<times> {..< length rules}" using left_ref_below [OF assms(1)] by (auto simp: R_def)
  then have "finite R" using finite_subset by blast
  moreover have "acyclic R"
    using assms(2) tranclp_trancl_eq [of R] by (auto simp: R_def acyclic_def no_left_recursion_def)
  ultimately have "wf (R\<inverse>)" by (rule finite_acyclic_wf_converse)
  moreover have "R\<inverse> = {(p, q). (left_ref rules)\<inverse>\<inverse> p q}" by (auto simp: R_def)
  ultimately have "wfp ((left_ref rules)\<inverse>\<inverse>)" by (simp add: wfp_def)
  then show ?thesis by (simp add: wfp_iff_accp)
qed

lemma no_left_recursionI: "(\<And>r r'. left_ref rules r r' \<Longrightarrow> r < r') \<Longrightarrow> no_left_recursion rules"
proof -
  assume up: "\<And>r r'. left_ref rules r r' \<Longrightarrow> r < r'"
  have "r < r'" if "(left_ref rules)\<^sup>+\<^sup>+ r r'" for r r'
    using that by (induction rule: tranclp.induct) (auto dest: up)
  then show ?thesis by (auto simp: no_left_recursion_def)
qed

lemma starts_terminate:
  assumes "termip (left_ref rules) r" and ok: "rules_ok rules"
  shows "r < length rules \<longrightarrow> alternates (rules ! r) = Some subs \<longrightarrow> sub \<in> set subs \<longrightarrow> termip (left_step rules) (r, sub)"
  using assms(1)
proof (induction arbitrary: subs sub rule: termip_induct)
  case (step r)
  have visible: "termip (left_step rules) (r, i)"
    if "r < length rules" "i < length (rules ! r)" "begins rules r i" for i
    using that
  proof (induction "length (rules ! r) - i" arbitrary: i rule: less_induct)
    case less
    show ?case
    proof (rule termipI)
      fix q assume "left_step rules (r, i) q"
      then show "termip (left_step rules) q"
      proof (cases rule: left_stepE)
        case (1 e subs)
        have "left_ref rules r (fst q)" using 1 less.prems by (auto simp: left_ref_def elem_at_Some)
        from step.IH [OF this, rule_format, OF 1(3,5,6)] show ?thesis by (simp only: prod.collapse)
      next
        case (2 e)
        have e: "rules ! r ! i = e" using 2(1) by (simp add: elem_at_Some)
        have n: "Suc i < length (rules ! r)"
          using rule_ok_next [OF rules_ok_rule [OF ok less.prems(1)] less.prems(2)] e 2(2) by simp
        have "begins rules r (Suc i)" using skips [OF less.prems(3,2)] e 2(2,4) by simp
        then show ?thesis using less.hyps [of "Suc i"] n less.prems(1) 2(3) by (simp add: advance_pos_def)
      qed
    qed
  qed
  show ?case
  proof (intro impI)
    assume a: "r < length rules" "alternates (rules ! r) = Some subs" "sub \<in> set subs"
    have "sub < length (rules ! r)" using alternate_good [OF ok a] by (auto simp: pos_good_def elem_at_Some)
    then show "termip (left_step rules) (r, sub)" using visible [OF a(1)] starts [OF a(2,3)] by blast
  qed
qed

lemma no_left_recursion_free:
  assumes ok: "rules_ok rules" and free: "no_left_recursion rules"
  shows "left_free rules"
proof -
  have "termip (left_step rules) (r, i)" if "r < length rules" "i < length (rules ! r)" for r i
    using that(2)
  proof (induction "length (rules ! r) - i" arbitrary: i rule: less_induct)
    case less
    show ?case
    proof (rule termipI)
      fix q assume "left_step rules (r, i) q"
      then show "termip (left_step rules) q"
      proof (cases rule: left_stepE)
        case (1 e subs)
        then show ?thesis
          using starts_terminate [OF no_left_recursion_termip [OF ok free] ok, of "fst q" subs "snd q"] by (cases q) simp
      next
        case (2 e)
        have "Suc i < length (rules ! r)"
          using rule_ok_next [OF rules_ok_rule [OF ok that(1)] less.prems] 2(1,2) by (simp add: elem_at_Some)
        then show ?thesis using less.hyps [of "Suc i"] 2(3) by (simp add: advance_pos_def)
      qed
    qed
  qed
  then show ?thesis by (auto simp: left_free_def pos_good_def elem_at_Some)
qed

text \<open>The check rejects no grammar without left recursion.\<close>

lemma scan_alts_mem:
  "scan_alts i es = Some subs \<Longrightarrow> j < length es \<Longrightarrow> e_type (es ! j) = GRE_ALT
     \<Longrightarrow> \<forall>e \<in> set (butlast es). e_type e \<noteq> GRE_END \<Longrightarrow> Suc (i + j) \<in> set subs"
proof (induction i es arbitrary: subs j rule: scan_alts.induct)
  case (2 i e es)
  then show ?case by (cases j) (auto split: if_splits)
qed simp

lemma has_empty_alt_found:
  "has_empty_alt b es \<Longrightarrow> \<forall>e \<in> set (butlast es). e_type e \<noteq> GRE_END \<Longrightarrow>
     b \<and> es \<noteq> [] \<and> is_end_of_sequence (es ! 0)
     \<or> (\<exists>j. Suc j < length es \<and> e_type (es ! j) = GRE_ALT \<and> is_end_of_sequence (es ! Suc j))"
proof (induction es arbitrary: b)
  case (Cons e es)
  consider "b" "is_end_of_sequence e"
    | b' where "has_empty_alt b' es" "es \<noteq> []" "b' \<longrightarrow> is_end_of_sequence e"
    using Cons.prems(1) by (cases es) (auto split: if_splits)
  then show ?case
  proof cases
    case 2
    then consider "b'" "is_end_of_sequence (es ! 0)"
      | j where "Suc j < length es" "e_type (es ! j) = GRE_ALT" "is_end_of_sequence (es ! Suc j)"
      using Cons.IH [of b'] Cons.prems(2) by auto
    then show ?thesis
    proof cases
      case 1
      then have "e_type e = GRE_ALT" using 2 Cons.prems(2) by (auto simp: is_end_of_sequence_def)
      with 1 2 show ?thesis by (intro disjI2 exI [of _ 0]) simp
    next
      case (2 j)
      then show ?thesis by (intro disjI2 exI [of _ "Suc j"]) simp
    qed
  qed simp
qed simp

lemma alternate_behind:
  assumes "rules_ok rules" "r < length rules" "Suc j < length (rules ! r)" "e_type (rules ! r ! j) = GRE_ALT"
  obtains subs where "alternates (rules ! r) = Some subs" "Suc j \<in> set subs"
proof -
  note ok = rules_ok_rule [OF assms(1,2)]
  obtain subs where subs: "alternates (rules ! r) = Some subs" by (rule alternates_ok [OF assms(1,2)])
  then obtain subs' where "scan_alts 0 (rules ! r) = Some subs'" "subs = 0 # subs'" by (auto simp: alternates_def)
  then have "Suc j \<in> set subs" using scan_alts_mem [of 0 "rules ! r" subs' j] assms(3,4) ok by (auto simp: rule_ok_def)
  with subs that show ?thesis by blast
qed

lemma nullable_direct_derives:
  assumes "rules_ok rules" "r < length rules" "nullable_direct rules r"
  shows "rule_derives rules r []"
proof -
  note ok = rules_ok_rule [OF assms(1,2)]
  have stop: "derives rules (r, i) []" if "i < length (rules ! r)" "is_end_of_sequence (rules ! r ! i)" for i
    using derives_end [of rules "(r, i)" "rules ! r ! i"] that assms(2) by (simp add: elem_at_Some)
  obtain subs where subs: "alternates (rules ! r) = Some subs" by (rule alternates_ok [OF assms(1,2)])
  consider "is_end_of_sequence (rules ! r ! 0)" "0 < length (rules ! r)"
    | j where "Suc j < length (rules ! r)" "e_type (rules ! r ! j) = GRE_ALT" "is_end_of_sequence (rules ! r ! Suc j)"
    using has_empty_alt_found [of True "rules ! r"] assms(3) ok by (auto simp: nullable_direct_def rule_ok_def)
  then show ?thesis
  proof cases
    case 1
    have "0 \<in> set subs" using subs by (auto simp: alternates_def)
    with 1 subs stop assms(2) show ?thesis by (auto simp: rule_derives_def)
  next
    case (2 j)
    then obtain subs' where "alternates (rules ! r) = Some subs'" "Suc j \<in> set subs'"
      using alternate_behind [OF assms(1,2)] by blast
    with 2 stop assms(2) show ?thesis by (auto simp: rule_derives_def)
  qed
qed

lemma flag_begins:
  assumes ok: "rules_ok rules" and r: "r < length rules"
  shows "k < length (rules ! r) \<Longrightarrow> left_flags rules True (rules ! r) ! k \<Longrightarrow> begins rules r k"
proof (induction k)
  case 0
  obtain subs where "alternates (rules ! r) = Some subs" by (rule alternates_ok [OF ok r])
  then show ?case using starts [of rules r subs 0] by (auto simp: alternates_def)
next
  case (Suc k)
  note rok = rules_ok_rule [OF ok r]
  have flag: "next_flag rules (left_flags rules True (rules ! r) ! k) (rules ! r ! k)"
    using left_flags_nth [of k "rules ! r" rules True] Suc.prems by simp
  have not_end: "e_type (rules ! r ! k) \<noteq> GRE_END"
    using rok Suc.prems(1) nth_mem [of k "butlast (rules ! r)"] by (auto simp: rule_ok_def nth_butlast)
  show ?case
  proof (cases "e_type (rules ! r ! k) = GRE_RULE_REF \<and> left_flags rules True (rules ! r) ! k")
    case True
    have "rule_derives rules (unat (e_value (rules ! r ! k))) []"
      using nullable_direct_derives [OF ok] rule_ok_ref [OF rok] True flag Suc.prems(1) by (auto simp: next_flag_def)
    then show ?thesis using skips [of rules r k] Suc True by simp
  next
    case False
    then have "e_type (rules ! r ! k) = GRE_ALT" using flag not_end by (auto simp: next_flag_def is_end_of_sequence_def)
    then show ?thesis using alternate_behind [OF ok r Suc.prems(1)] starts by metis
  qed
qed

lemma left_call_ref: "rules_ok rules \<Longrightarrow> left_call rules r r' \<Longrightarrow> left_ref rules r r'"
  using flag_begins by (auto simp: left_call_def left_ref_def)

text \<open>A stack that can be advanced, and the rule for pushing a pointer.\<close>

definition advances :: "grammar_rules \<Rightarrow> grammar_stack \<Rightarrow> bool" where
  "advances rules st \<longleftrightarrow> (\<forall>ns. \<exists>ns'. advance_stack rules st ns = Some ns')"

lemma advances_ref:
  assumes "elem_at rules p = Some e" "e_type e = GRE_RULE_REF" "v = unat (e_value e)" "v < length rules"
    and "alternates (rules ! v) = Some subs" "push_pos rules (advance_pos p 1) st = Some st1"
    and "\<And>sub. sub \<in> set subs \<Longrightarrow> \<exists>st2. push_pos rules (v, sub) st1 = Some st2 \<and> advances rules st2"
  shows "advances rules (p # st)"
  unfolding advances_def
proof
  fix ns
  define f where "f = (\<lambda>sub ns. Option.bind (push_pos rules (advance_pos p 1) st) (\<lambda>st1.
     Option.bind (push_pos rules (v, sub) st1) (\<lambda>st2. advance_stack rules st2 ns)))"
  have "\<exists>ns'. f sub ns = Some ns'" if "sub \<in> set subs" for sub ns
    using assms(6) assms(7) [OF that] by (auto simp: f_def advances_def)
  then obtain ns' where "foldo f subs ns = Some ns'" using foldo_total [of subs f ns] by auto
  then show "\<exists>ns'. advance_stack rules (p # st) ns = Some ns'"
    using assms(1-5) by (subst advance_stack.simps) (simp add: f_def)
qed

lemma advances_push:
  assumes "termip (left_step rules) p" and ok: "rules_ok rules"
  shows "pos_good rules p \<longrightarrow> push_pos rules p st = Some st' \<longrightarrow> (derives rules p [] \<longrightarrow> advances rules st) \<longrightarrow> advances rules st'"
  using assms(1)
proof (induction arbitrary: st st' rule: termip_induct)
  case (step p)
  show ?case
  proof (intro impI)
    assume good: "pos_good rules p" and push: "push_pos rules p st = Some st'"
      and rest: "derives rules p [] \<longrightarrow> advances rules st"
    obtain e where e: "elem_at rules p = Some e" "e_type e \<notin> {GRE_CHAR_ALT, GRE_CHAR_RNG_UPPER}"
      using good by (auto simp: pos_good_def)
    have st': "st' = (if is_end_of_sequence e then st else p # st)" using push push_pos_total [OF e(1)] by simp
    consider "is_end_of_sequence e" | "is_terminal e" | "e_type e = GRE_RULE_REF"
      using e(2) by (cases "e_type e") (auto simp: is_end_of_sequence_def is_terminal_def)
    then show "advances rules st'"
    proof cases
      case 1
      then show ?thesis using rest derives_end [OF e(1)] st' by simp
    next
      case 2
      then have "\<not> is_end_of_sequence e" by (auto simp: is_terminal_def is_end_of_sequence_def)
      then show ?thesis using 2 e(1) st' unfolding advances_def
        by (subst advance_stack.simps) (auto simp: is_terminal_def)
    next
      case 3
      define v where "v = unat (e_value e)"
      have v: "v < length rules" using e(1) 3 rule_ok_ref [OF rules_ok_rule [OF ok]] by (auto simp: elem_at_Some v_def)
      obtain subs where subs: "alternates (rules ! v) = Some subs" and good_sub: "\<And>s. s \<in> set subs \<Longrightarrow> pos_good rules (v, s)"
        using alternates_ok [OF ok v] by metis
      have good1: "pos_good rules (advance_pos p 1)" using pos_good_next [OF ok e(1)] 3 by auto
      obtain st1 where st1: "push_pos rules (advance_pos p 1) st = Some st1" using push_pos_good [OF good1] by metis
      have adv: "\<exists>st2. push_pos rules (v, sub) st1 = Some st2 \<and> advances rules st2" if sub: "sub \<in> set subs" for sub
      proof -
        obtain st2 where st2: "push_pos rules (v, sub) st1 = Some st2" using push_pos_good [OF good_sub [OF sub]] by metis
        have ls: "left_step rules p (v, sub)" using e(1) 3 v subs sub by (auto simp: left_step_def v_def)
        have "advances rules st1" if null: "derives rules (v, sub) []"
        proof -
          have rd: "rule_derives rules v []" using null v subs sub by (auto simp: rule_derives_def)
          then have ls: "left_step rules p (advance_pos p 1)" using e(1) 3 v by (auto simp: left_step_def v_def)
          have "derives rules p []" if "derives rules (advance_pos p 1) []"
            using derives_at_ref [OF e(1) 3, of "[]"] rd that by (simp add: v_def)
          then show ?thesis using step.IH [OF ls, rule_format, OF good1 st1] rest by blast
        qed
        then have "advances rules st2" using step.IH [OF ls, rule_format, OF good_sub [OF sub] st2] by blast
        with st2 show ?thesis by blast
      qed
      have "advances rules (p # st)" using advances_ref [OF e(1) 3 v_def v subs st1] adv by blast
      then show ?thesis using st' 3 by (simp add: is_end_of_sequence_def)
    qed
  qed
qed

end
