(* ===== verification/Grammar_Match.thy ===== *)
theory Grammar_Match
  imports Grammar_Wf
begin

text \<open>
  What the elements of a character range denote: a list of code points and inclusive intervals, and
  what matching a complete and a partial character against it decides.
\<close>

type_synonym class_item = "code_point \<times> code_point option"

fun item_has :: "code_point \<Rightarrow> class_item \<Rightarrow> bool" where
  "item_has c (lo, None) \<longleftrightarrow> c = lo"
| "item_has c (lo, Some hi) \<longleftrightarrow> lo \<le> c \<and> c \<le> hi"

definition in_class :: "class_item list \<Rightarrow> code_point \<Rightarrow> bool" where
  "in_class items c \<longleftrightarrow> (\<exists>item \<in> set items. item_has c item)"

fun item_elems :: "gretype \<Rightarrow> class_item \<Rightarrow> grammar_element list" where
  "item_elems t (lo, None) = [elem t lo]"
| "item_elems t (lo, Some hi) = [elem t lo, elem GRE_CHAR_RNG_UPPER hi]"

fun class_elems :: "gretype \<Rightarrow> class_item list \<Rightarrow> grammar_element list" where
  "class_elems t [] = []"
| "class_elems t (item # items) = item_elems t item @ class_elems GRE_CHAR_ALT items"

text \<open>The elements at a pointer form a class, and the class ends there.\<close>

definition class_at :: "grammar_rules \<Rightarrow> grammar_pos \<Rightarrow> gretype \<Rightarrow> class_item list \<Rightarrow> bool" where
  "class_at rules pos t items \<longleftrightarrow> fst pos < length rules \<and> t \<in> {GRE_CHAR, GRE_CHAR_NOT} \<and> items \<noteq> []
     \<and> (\<exists>e rest. elems_from rules pos = class_elems t items @ e # rest
          \<and> e_type e \<notin> {GRE_CHAR_ALT, GRE_CHAR_RNG_UPPER})"

lemma in_class_simps [simp]:
  "in_class [] c \<longleftrightarrow> False" "in_class (item # items) c \<longleftrightarrow> item_has c item \<or> in_class items c"
  by (auto simp: in_class_def)

lemma class_elems_head: "items \<noteq> [] \<Longrightarrow> \<exists>v es. class_elems t items = elem t v # es"
proof -
  assume "items \<noteq> []"
  then obtain lo h rest where "items = (lo, h) # rest" by (metis list.exhaust prod.exhaust)
  then show ?thesis by (cases h) auto
qed

lemma class_at_elem:
  assumes "class_at rules pos t items"
  obtains e where "elem_at rules pos = Some e" "e_type e = t"
proof -
  obtain e rest where f: "elems_from rules pos = class_elems t items @ e # rest" and r: "fst pos < length rules"
    and ne: "items \<noteq> []" using assms by (auto simp: class_at_def)
  obtain v es where c: "class_elems t items = elem t v # es" using class_elems_head [OF ne] by blast
  have d: "drop (snd pos) (rules ! fst pos) = elem t v # es @ e # rest" using f c r by (simp add: elems_from_def)
  then have "snd pos < length (rules ! fst pos)" by (metis drop_eq_Nil leI list.distinct(1))
  with d have "rules ! fst pos ! snd pos = elem t v" by (simp add: Cons_nth_drop_Suc [symmetric])
  with r \<open>snd pos < length (rules ! fst pos)\<close> show ?thesis by (intro that) (auto simp: elem_at_Some)
qed

lemma match_loop_class:
  assumes "items \<noteq> []" "t \<noteq> GRE_CHAR_ANY" "e_type e \<notin> {GRE_CHAR_ALT, GRE_CHAR_RNG_UPPER}"
  shows "match_loop c found k (class_elems t items @ e # rest)
     = Some (found \<or> in_class items c, k + length (class_elems t items))"
  using assms(1,2)
proof (induction items arbitrary: t found k)
  case (Cons item items)
  obtain lo h where item: "item = (lo, h)" by (cases item)
  show ?case
  proof (cases "items = []")
    case True
    with Cons.prems assms(3) show ?thesis by (cases h) (auto simp: item)
  next
    case False
    then obtain v es where es: "class_elems GRE_CHAR_ALT items = elem GRE_CHAR_ALT v # es"
      using class_elems_head by blast
    have IH: "match_loop c found k (elem GRE_CHAR_ALT v # es @ e # rest)
       = Some (found \<or> in_class items c, k + length (class_elems GRE_CHAR_ALT items))" for found k
      using Cons.IH [OF False, of GRE_CHAR_ALT found k] by (simp add: es)
    show ?thesis using Cons.prems by (cases h) (auto simp: item es IH)
  qed
qed simp

text \<open>
  C34 (functional): at a class of characters, \<open>match_char\<close> decides membership, inverted for a
  negated class, and points behind the class.
\<close>

theorem match_char_class:
  assumes "class_at rules pos t items"
  shows "match_char rules pos c = Some ((t = GRE_CHAR) = in_class items c, advance_pos pos (length (class_elems t items)))"
proof -
  obtain e0 where e0: "elem_at rules pos = Some e0" "e_type e0 = t" using class_at_elem [OF assms] .
  obtain e rest where f: "elems_from rules pos = class_elems t items @ e # rest"
    and e: "e_type e \<notin> {GRE_CHAR_ALT, GRE_CHAR_RNG_UPPER}" and t: "t \<in> {GRE_CHAR, GRE_CHAR_NOT}" and ne: "items \<noteq> []"
    using assms by (auto simp: class_at_def)
  have "match_loop c False 0 (elems_from rules pos) = Some (in_class items c, length (class_elems t items))"
    using match_loop_class [OF ne _ e] t f by auto
  then show ?thesis using t e0 by (auto simp: match_char_def is_positive_char_def)
qed

theorem match_char_class_witness:
  "match_char [[elem GRE_CHAR_NOT 0x61, elem GRE_CHAR_RNG_UPPER 0x7A, elem GRE_CHAR_ALT 0x5F, elem GRE_END 0]] (0, 0) 0x5F
     = Some (False, (0, 3))"
proof -
  have "class_at [[elem GRE_CHAR_NOT 0x61, elem GRE_CHAR_RNG_UPPER 0x7A, elem GRE_CHAR_ALT 0x5F, elem GRE_END 0]] (0, 0)
     GRE_CHAR_NOT [(0x61, Some 0x7A), (0x5F, None)]"
    by (auto simp: class_at_def elems_from_def)
  from match_char_class [OF this, of "0x5F"] show ?thesis by (simp add: advance_pos_def)
qed


section \<open>Partial characters\<close>

definition item_valid :: "class_item \<Rightarrow> bool" where
  "item_valid item \<longleftrightarrow> (case snd item of None \<Rightarrow> True | Some hi \<Rightarrow> fst item \<le> hi)"

lemma partial_low_le_high: "0 \<le> pu_n_remain p \<Longrightarrow> partial_low p \<le> partial_high p"
proof -
  have or_ge: "x \<le> x OR y" for x y :: code_point
    unfolding word_le_def uint_or by (rule or_greater_eq) simp
  define low where "low = push_bit (nat (pu_n_remain p) * 6) (pu_value p)"
  show ?thesis
  proof (cases "low = 0 \<and> pu_n_remain p \<in> {2, 3}")
    case True
    then show ?thesis
      by (auto simp: partial_low_def partial_high_def low_def push_bit_eq_mult Let_def)
  next
    case False
    then have "partial_low p = low" by (auto simp: partial_low_def low_def Let_def)
    then show ?thesis by (simp add: partial_high_def low_def [symmetric] or_ge)
  qed
qed

lemma item_meets:
  assumes "item_valid item" "low \<le> high"
  shows "(\<exists>c. low \<le> c \<and> c \<le> high \<and> item_has c item) \<longleftrightarrow> (case snd item of
     None \<Rightarrow> low \<le> fst item \<and> fst item \<le> high | Some hi \<Rightarrow> fst item \<le> high \<and> low \<le> hi)"
proof (cases item)
  case (Pair lo h)
  show ?thesis
  proof (cases h)
    case (Some hi)
    have "low \<le> max low lo \<and> max low lo \<le> high \<and> lo \<le> max low lo \<and> max low lo \<le> hi" if "lo \<le> high" "low \<le> hi"
      using that assms by (auto simp: item_valid_def Pair Some max_def)
    then have "\<exists>c \<ge> low. c \<le> high \<and> lo \<le> c \<and> c \<le> hi" if "lo \<le> high" "low \<le> hi" using that by blast
    then show ?thesis by (auto simp: Pair Some intro: order_trans)
  qed (auto simp: Pair)
qed

lemma match_partial_loop_class:
  assumes "items \<noteq> []" "t \<noteq> GRE_CHAR_ANY" "e_type e \<notin> {GRE_CHAR_ALT, GRE_CHAR_RNG_UPPER}"
    and "\<forall>item \<in> set items. item_valid item" "low \<le> high"
  shows "match_partial_loop low high positive (class_elems t items @ e # rest)
     = Some ((\<exists>c. low \<le> c \<and> c \<le> high \<and> in_class items c) = positive)"
  using assms(1,2,4)
proof (induction items arbitrary: t)
  case (Cons item items)
  obtain lo h where item: "item = (lo, h)" by (cases item)
  have meets: "(\<exists>c. low \<le> c \<and> c \<le> high \<and> in_class (item # items) c) \<longleftrightarrow>
     (case h of None \<Rightarrow> low \<le> lo \<and> lo \<le> high | Some hi \<Rightarrow> lo \<le> high \<and> low \<le> hi)
     \<or> (\<exists>c. low \<le> c \<and> c \<le> high \<and> in_class items c)"
    using item_meets [of "(lo, h)" low high] Cons.prems(3) assms(5) by (cases h) (auto simp: item)
  show ?case
  proof (cases "items = []")
    case True
    with Cons.prems assms(3) show ?thesis unfolding meets by (cases h) (auto simp: item)
  next
    case False
    then obtain v es where es: "class_elems GRE_CHAR_ALT items = elem GRE_CHAR_ALT v # es"
      using class_elems_head by blast
    have IH: "match_partial_loop low high positive (elem GRE_CHAR_ALT v # es @ e # rest)
       = Some ((\<exists>c. low \<le> c \<and> c \<le> high \<and> in_class items c) = positive)"
      using Cons.IH [OF False, of GRE_CHAR_ALT] Cons.prems(3) by (simp add: es)
    show ?thesis using Cons.prems unfolding meets by (cases h) (auto simp: item es IH)
  qed
qed simp

text \<open>
  C35 (functional): at a class, \<open>match_partial_char\<close> looks at the code points an incomplete sequence
  can still become. It accepts a class if one of them is in it, and a negated class only if none of
  them is excluded, although another completion could match then.
\<close>

theorem match_partial_class:
  assumes "class_at rules pos t items" "\<forall>item \<in> set items. item_valid item"
    and "0 \<le> pu_n_remain p" "pu_n_remain p = 1 \<Longrightarrow> 2 \<le> pu_value p"
  shows "match_partial_char rules pos p =
     Some ((\<exists>c. partial_low p \<le> c \<and> c \<le> partial_high p \<and> in_class items c) = (t = GRE_CHAR))"
proof -
  obtain e0 where e0: "elem_at rules pos = Some e0" "e_type e0 = t" using class_at_elem [OF assms(1)] .
  obtain e rest where f: "elems_from rules pos = class_elems t items @ e # rest"
    and e: "e_type e \<notin> {GRE_CHAR_ALT, GRE_CHAR_RNG_UPPER}" and t: "t \<in> {GRE_CHAR, GRE_CHAR_NOT}" and ne: "items \<noteq> []"
    using assms(1) by (auto simp: class_at_def)
  have ok: "\<not> (pu_n_remain p < 0 \<or> pu_n_remain p = 1 \<and> pu_value p < 2)" using assms(3,4) by auto
  have pos: "is_positive_char e0 = (t = GRE_CHAR)" "is_positive_char e0 \<or> e_type e0 = GRE_CHAR_NOT"
    using t e0(2) by (auto simp: is_positive_char_def)
  have "match_partial_loop (partial_low p) (partial_high p) (t = GRE_CHAR) (class_elems t items @ e # rest)
     = Some ((\<exists>c. partial_low p \<le> c \<and> c \<le> partial_high p \<and> in_class items c) = (t = GRE_CHAR))"
    by (rule match_partial_loop_class [OF ne _ e assms(2) partial_low_le_high [OF assms(3)]]) (use t in auto)
  then show ?thesis unfolding match_partial_char_def e0(1) f pos(1) using ok pos(2) by (auto simp: pos(1))
qed

text \<open>A negated class rejects a first byte although the sequence can become a character outside the class.\<close>

theorem match_partial_class_witness:
  "match_partial_char [[elem GRE_CHAR_NOT 0xE9, elem GRE_END 0]] (0, 0) \<lparr>pu_value = 3, pu_n_remain = 1\<rparr> = Some False
   \<and> (\<exists>c. partial_low \<lparr>pu_value = 3, pu_n_remain = 1\<rparr> \<le> c \<and> c \<le> partial_high \<lparr>pu_value = 3, pu_n_remain = 1\<rparr>
        \<and> match_char [[elem GRE_CHAR_NOT 0xE9, elem GRE_END 0]] (0, 0) c = Some (True, (0, 1)))"
proof -
  have cls: "class_at [[elem GRE_CHAR_NOT 0xE9, elem GRE_END 0]] (0, 0) GRE_CHAR_NOT [(0xE9, None)]"
    by (auto simp: class_at_def elems_from_def)
  have low: "partial_low \<lparr>pu_value = 3, pu_n_remain = 1\<rparr> = 0xC0" "partial_high \<lparr>pu_value = 3, pu_n_remain = 1\<rparr> = 0xFF"
    by (simp_all add: partial_low_def partial_high_def Let_def push_bit_eq_mult)
  have "match_char [[elem GRE_CHAR_NOT 0xE9, elem GRE_END 0]] (0, 0) 0xE0 = Some (True, (0, 1))"
    by (simp add: match_char_def elem_at_def is_positive_char_def elems_from_def advance_pos_def)
  then have "\<exists>c. 0xC0 \<le> c \<and> c \<le> 0xFF \<and> match_char [[elem GRE_CHAR_NOT 0xE9, elem GRE_END 0]] (0, 0) c = Some (True, (0, 1))"
    by (intro exI [of _ "0xE0"]) simp
  moreover have "\<exists>c. (0xC0 :: code_point) \<le> c \<and> c \<le> 0xFF \<and> in_class [(0xE9, None)] c" by (intro exI [of _ "0xE9"]) simp
  ultimately show ?thesis
    using match_partial_class [OF cls, of "\<lparr>pu_value = 3, pu_n_remain = 1\<rparr>"] by (simp add: low item_valid_def)
qed

end
