(* ===== verification/Grammar_Engine.thy ===== *)
theory Grammar_Engine
  imports Grammar_Term Grammar_Match
begin

text \<open>
  The engine as a whole: for grammars without left recursion it always returns, and after accepting a
  text the empty stack is present exactly when the start rule derives that text.
\<close>

section \<open>Left recursion\<close>

lemma termip_no_cycle: "termip R r \<Longrightarrow> \<not> R\<^sup>+\<^sup>+ r r"
proof (induction rule: termip_induct)
  case (step r)
  show ?case
  proof
    assume "R\<^sup>+\<^sup>+ r r"
    then obtain q where q: "R r q" "R\<^sup>*\<^sup>* q r" by (auto dest: tranclpD)
    then have "R\<^sup>+\<^sup>+ q q" by (meson rtranclp_into_tranclp1)
    with step q(1) show False by blast
  qed
qed

lemma left_recursion_check:
  assumes "rules_ok rules"
  shows "has_left_recursion rules = Some (\<exists>r. (left_call rules)\<^sup>+\<^sup>+ r r)"
proof -
  obtain b where b: "has_left_recursion rules = Some b" "b \<longrightarrow> (\<exists>r. (left_call rules)\<^sup>+\<^sup>+ r r)"
      "\<not> b \<longrightarrow> (\<forall>i < length rules. termip (left_call rules) i)"
    using has_left_recursion_spec [OF assms] by blast
  have "r < length rules" if "(left_call rules)\<^sup>+\<^sup>+ r r" for r
    using tranclpD [OF that] by (auto simp: left_call_def)
  with b termip_no_cycle have "b \<longleftrightarrow> (\<exists>r. (left_call rules)\<^sup>+\<^sup>+ r r)" by metis
  with b(1) show ?thesis by simp
qed

text \<open>
  C33 (equivalence): on well-formed rules the recursive check returns, and its answer is whether the
  relation between rules and the rules they call at their left end has a cycle.
\<close>

theorem left_recursion_detected:
  assumes "rules_ok rules"
  shows "has_left_recursion rules = Some (\<exists>r. (left_call rules)\<^sup>+\<^sup>+ r r)"
  by (rule left_recursion_check [OF assms])

text \<open>A grammar with a loop through a rule that may be empty: \<open>root ::= sp root | "x"\<close>, \<open>sp ::= | " "\<close>.\<close>

definition demo_cyclic :: grammar_rules where
  "demo_cyclic =
     [[elem GRE_RULE_REF 1, elem GRE_RULE_REF 0, elem GRE_ALT 0, elem GRE_CHAR 0x78, elem GRE_END 0],
      [elem GRE_ALT 0, elem GRE_CHAR 0x20, elem GRE_END 0]]"

theorem left_recursion_detected_witness: "\<exists>r. (left_call demo_cyclic)\<^sup>+\<^sup>+ r r"
proof -
  have "has_left_recursion demo_cyclic = Some True" by code_simp
  moreover have "rules_ok demo_cyclic"
    by (simp add: rules_ok_def rule_ok_def refs_below_def demo_cyclic_def)
  ultimately show ?thesis using left_recursion_detected [of demo_cyclic] by simp
qed

lemma no_left_recursion_check:
  assumes "rules_ok rules" "no_left_recursion rules"
  shows "has_left_recursion rules = Some False"
proof -
  have "(left_ref rules)\<^sup>+\<^sup>+ r r'" if "(left_call rules)\<^sup>+\<^sup>+ r r'" for r r'
    using that by (induction rule: tranclp.induct) (auto intro: left_call_ref [OF assms(1)] tranclp.intros)
  then show ?thesis using left_recursion_check [OF assms(1)] assms(2) by (auto simp: no_left_recursion_def)
qed

section \<open>Totality\<close>

lemma advances_stack:
  assumes "rules_ok rules" "left_free rules" "stack_ok rules st"
  shows "advances rules st"
  using assms(3)
proof (induction st)
  case Nil
  show ?case unfolding advances_def by (subst advance_stack.simps) simp
next
  case (Cons p st)
  have push: "push_pos rules p st = Some (p # st)" using Cons.prems by (auto simp: pos_ok_def push_pos_def)
  have good: "pos_good rules p" using Cons.prems by (auto simp: pos_ok_def pos_good_def)
  then have "termip (left_step rules) p" using assms(2) unfolding left_free_def by blast
  from advances_push [OF this assms(1)] good push Cons show ?case by auto
qed

lemma advance_stack_expands:
  assumes "advance_stack rules st ns = Some ns'"
  shows "\<exists>st'. expands rules st st'"
  using assms
proof (induct rule: advance_stack.raw_induct [rotated 1, consumes 1])
  case (1 adv rules stack ns ns')
  show ?case
  proof (cases stack)
    case (Cons p st)
    then obtain e where e: "elem_at rules p = Some e" using 1(2) by (auto simp: Option.bind_eq_Some_conv)
    show ?thesis
    proof (cases "e_type e = GRE_RULE_REF")
      case True
      define f where "f = (\<lambda>sub ns. Option.bind (push_pos rules (advance_pos p 1) st) (\<lambda>st1.
             Option.bind (push_pos rules (unat (e_value e), sub) st1) (\<lambda>st2. adv rules st2 ns)))"
      obtain subs where subs: "unat (e_value e) < length rules" "alternates (rules ! unat (e_value e)) = Some subs"
          "foldo f subs ns = Some ns'"
        using 1(2) e True by (auto simp: Cons f_def Option.bind_eq_Some_conv split: if_splits)
      then obtain sub rest where "subs = sub # rest" by (auto simp: alternates_def)
      moreover from this obtain st1 st2 n1 where "push_pos rules (advance_pos p 1) st = Some st1"
          "push_pos rules (unat (e_value e), sub) st1 = Some st2" "adv rules st2 ns = Some n1"
        using subs(3) by (auto simp: f_def Option.bind_eq_Some_conv)
      ultimately show ?thesis using 1(1) expands_ref [OF e True subs(1,2)] Cons by (metis list.set_intros(1))
    next
      case False
      then have "is_terminal e" using 1(2) e by (auto simp: Cons is_terminal_def split: if_splits)
      then show ?thesis using expands_term [OF e] Cons by blast
    qed
  qed (auto intro: expands_nil)
qed

text \<open>
  C32 (termination): on well-formed rules without left recursion (no rule refers to itself at its left
  end, directly or through references and with references before them that may be empty), advancing a
  stack returns, and it adds exactly the expansions of the stack, of which there is one at least.
\<close>

theorem advance_stack_returns:
  assumes "rules_ok rules" "no_left_recursion rules" "stack_ok rules st"
  shows "\<exists>ns'. advance_stack rules st ns = Some ns' \<and> set ns' = set ns \<union> {st'. expands rules st st'} \<and> ns' \<noteq> []"
proof -
  obtain ns' where ns': "advance_stack rules st ns = Some ns'"
    using advances_stack [OF assms(1) no_left_recursion_free [OF assms(1,2)] assms(3)] by (auto simp: advances_def)
  obtain st' where "expands rules st st'" using advance_stack_expands [OF ns'] by blast
  with advance_stack_set [OF ns'] ns' show ?thesis by (intro exI [of _ ns']) auto
qed

text \<open>A grammar for \<open>a*b\<close>: \<open>root ::= as "b"\<close>, \<open>as ::= "a" as |\<close>.\<close>

definition demo_rules :: grammar_rules where
  "demo_rules =
     [[elem GRE_RULE_REF 1, elem GRE_CHAR 0x62, elem GRE_END 0],
      [elem GRE_CHAR 0x61, elem GRE_RULE_REF 1, elem GRE_ALT 0, elem GRE_END 0]]"

lemma demo_rules_ok: "rules_ok demo_rules"
  by (simp add: rules_ok_def rule_ok_def refs_below_def demo_rules_def)

lemma demo_rules_begins: "begins demo_rules r k \<Longrightarrow> (r = 0 \<longrightarrow> k < 2) \<and> (r = 1 \<longrightarrow> k = 0 \<or> k = 3)"
proof (induction rule: begins.induct)
  case (starts r subs sub)
  have "alternates (demo_rules ! 0) = Some [0]" "alternates (demo_rules ! 1) = Some [0, 3]" by code_simp+
  with starts show ?case by auto
qed (auto simp: demo_rules_def less_Suc_eq numeral_2_eq_2)

lemma demo_rules_free: "no_left_recursion demo_rules"
proof (rule no_left_recursionI)
  fix r r' assume "left_ref demo_rules r r'"
  then obtain k where k: "r < 2" "begins demo_rules r k" "k < length (demo_rules ! r)"
      "e_type (demo_rules ! r ! k) = GRE_RULE_REF" "unat (e_value (demo_rules ! r ! k)) = r'"
    by (auto simp: left_ref_def demo_rules_def)
  then show "r < r'" using demo_rules_begins [OF k(2)] by (auto simp: demo_rules_def less_Suc_eq numeral_2_eq_2)
qed

theorem advance_stack_returns_witness:
  "\<exists>ns'. advance_stack demo_rules [(0, 0)] [] = Some ns' \<and> set ns' = {st'. expands demo_rules [(0, 0)] st'} \<and> ns' \<noteq> []"
  using advance_stack_returns [OF demo_rules_ok demo_rules_free, of "[(0, 0)]" "[]"]
  by (auto simp: pos_ok_def elem_at_def demo_rules_def is_end_of_sequence_def)

text \<open>
  The check looks for empty alternates only, so it misses left recursion through a rule that is empty
  because the rule it refers to is: \<open>root ::= a root | "x"\<close>, \<open>a ::= b\<close>, \<open>b ::= | "y"\<close> passes, and the first
  advance never returns.
\<close>

definition demo_missed :: grammar_rules where
  "demo_missed =
     [[elem GRE_RULE_REF 1, elem GRE_RULE_REF 0, elem GRE_ALT 0, elem GRE_CHAR 0x78, elem GRE_END 0],
      [elem GRE_RULE_REF 2, elem GRE_END 0],
      [elem GRE_ALT 0, elem GRE_CHAR 0x79, elem GRE_END 0]]"

lemma demo_missed_facts:
  "elem_at demo_missed (0, 0) = Some (elem GRE_RULE_REF 1)" "elem_at demo_missed (0, 1) = Some (elem GRE_RULE_REF 0)"
  "elem_at demo_missed (1, 0) = Some (elem GRE_RULE_REF 2)" "length demo_missed = 3"
  "alternates (demo_missed ! 0) = Some [0, 3]" "alternates (demo_missed ! 1) = Some [0]"
  "alternates (demo_missed ! 2) = Some [0, 1]"
  "push_pos demo_missed (0, 0) [] = Some [(0, 0)]" "push_pos demo_missed (0, 1) [] = Some [(0, 1)]"
  "push_pos demo_missed (0, 2) [] = Some []" "push_pos demo_missed (1, 0) [(0, 1)] = Some [(1, 0), (0, 1)]"
  "push_pos demo_missed (1, 1) [(0, 1)] = Some [(0, 1)]" "push_pos demo_missed (2, 0) [(0, 1)] = Some [(0, 1)]"
  by code_simp+

lemma missed_left_recursion:
  "has_left_recursion demo_missed = Some False" "advance_stack demo_missed [(0, 0)] ns = None"
proof -
  have "rules = demo_missed \<longrightarrow> st \<notin> {[(0, 0)], [(1, 0), (0, 1)], [(0, 1)]}" if "advance_stack rules st ns = Some r" for rules st ns r
    using that
  proof (induct rule: advance_stack.raw_induct [rotated 1, consumes 1])
    case (1 adv rules st ns r)
    show ?case
    proof (intro impI)
      assume rules: "rules = demo_missed"
      have no: "adv demo_missed t b = None" if "t \<in> {[(0, 0)], [(Suc 0, 0), (0, Suc 0)], [(0, Suc 0)]}" for t b
        using 1(1) [of demo_missed t b] that by (cases "adv demo_missed t b") auto
      show "st \<notin> {[(0, 0)], [(1, 0), (0, 1)], [(0, 1)]}"
        using 1(2)
        by (auto simp: rules demo_missed_facts [unfolded One_nat_def] advance_pos_def numeral_2_eq_2 [symmetric] Option.bind_eq_Some_conv no)
    qed
  qed
  then show "advance_stack demo_missed [(0, 0)] ns = None" by (cases "advance_stack demo_missed [(0, 0)] ns") auto
  show "has_left_recursion demo_missed = Some False" by code_simp
qed

lemma missed_is_recursive: "\<not> no_left_recursion demo_missed"
proof -
  have stop: "elem_at demo_missed (2, 0) = Some (elem GRE_ALT 0)" "elem_at demo_missed (1, 1) = Some (elem GRE_END 0)" by code_simp+
  have "derives demo_missed (2, 0) []" by (rule derives_end [OF stop(1)]) (simp add: is_end_of_sequence_def)
  then have "rule_derives demo_missed 2 []" using demo_missed_facts(4,7) by (auto simp: rule_derives_def)
  moreover have "derives demo_missed (1, 1) []" by (rule derives_end [OF stop(2)]) (simp add: is_end_of_sequence_def)
  ultimately have "derives demo_missed (1, 0) []"
    using derives_at_ref [OF demo_missed_facts(3)] by (auto simp: advance_pos_def)
  then have "rule_derives demo_missed 1 []" using demo_missed_facts(4,6) by (auto simp: rule_derives_def)
  moreover have "begins demo_missed 0 0" using starts [of demo_missed 0 "[0, 3]" 0] demo_missed_facts(5) by simp
  ultimately have "begins demo_missed 0 1" using skips [of demo_missed 0 0] by (simp add: demo_missed_def)
  then have "left_ref demo_missed 0 0" by (auto simp: left_ref_def demo_missed_def intro!: exI [of _ 1])
  then show ?thesis by (auto simp: no_left_recursion_def)
qed

section \<open>The language of a grammar\<close>

definition stacks_ok :: "grammar_rules \<Rightarrow> grammar_stack list \<Rightarrow> bool" where
  "stacks_ok rules sts \<longleftrightarrow> (\<forall>st \<in> set sts. stack_ok rules st \<and> expanded rules st)"

definition stacks_derive :: "grammar_rules \<Rightarrow> grammar_stack list \<Rightarrow> code_point list \<Rightarrow> bool" where
  "stacks_derive rules sts w \<longleftrightarrow> (\<exists>st \<in> set sts. stack_derives rules st w)"

lemma advance_total:
  assumes "rules_ok rules" "left_free rules" "stack_ok rules st"
  obtains ns' where "advance_stack rules st ns = Some ns'"
  using advances_stack [OF assms] by (auto simp: advances_def)

lemma terminal_char_pos:
  "elem_at rules p = Some e \<Longrightarrow> is_terminal e \<Longrightarrow> \<not> (e_type e = GRE_TOKEN \<or> e_type e = GRE_TOKEN_NOT) \<Longrightarrow> is_char_pos rules p"
  by (auto simp: is_char_pos_def is_terminal_def)

lemma accept_chr_total:
  assumes "rules_ok rules" "left_free rules" "stack_ok rules st" "expanded rules st"
  shows "\<exists>ns'. accept_chr rules st c ns = Some ns'"
proof (cases st)
  case (Cons p rest)
  with assms(4) obtain e where e: "elem_at rules p = Some e" "is_terminal e" by (auto simp: expanded_def)
  show ?thesis
  proof (cases "e_type e = GRE_TOKEN \<or> e_type e = GRE_TOKEN_NOT")
    case False
    obtain ok p' where m: "match_char rules p c = Some (ok, p')"
      using match_char_total [OF assms(1) terminal_char_pos [OF e False]] by metis
    note good = matched_good [OF assms(1) m]
    obtain st' where push: "push_pos rules p' rest = Some st'" using push_pos_good [OF good] by metis
    then have "stack_ok rules st'" using push_pos_ok [OF good _ push] assms(3) Cons by simp
    then obtain ns' where "advance_stack rules st' ns = Some ns'" using advance_total [OF assms(1,2)] by blast
    then show ?thesis using e(1) False m push by (cases ok) (auto simp: Cons accept_chr_def)
  qed (use e in \<open>simp add: Cons accept_chr_def\<close>)
qed (simp add: accept_chr_def)

lemma accept_stacks_spec:
  assumes "rules_ok rules" "left_free rules" "stacks_ok rules sts"
  obtains sts' where "accept_stacks rules sts c = Some sts'" "stacks_ok rules sts'"
    and "\<And>w. stacks_derive rules sts' w \<longleftrightarrow> stacks_derive rules sts (c # w)"
proof -
  have "\<exists>ns'. accept_chr rules st c ns = Some ns'" if "st \<in> set sts" for st ns
    using accept_chr_total [OF assms(1,2)] assms(3) that by (simp add: stacks_ok_def)
  then obtain sts' where a: "accept_stacks rules sts c = Some sts'"
    using foldo_total [of sts "\<lambda>st. accept_chr rules st c" "[]"] by (auto simp: accept_stacks_def)
  note eq = accept_stacks_set [OF a]
  have "stacks_ok rules sts'" using successors_ok [OF assms(1)] assms(3) by (auto simp: stacks_ok_def eq)
  moreover have "stacks_derive rules sts' w \<longleftrightarrow> stacks_derive rules sts (c # w)" for w
    using successors_derive [OF assms(1)] assms(3) by (auto simp: stacks_derive_def stacks_ok_def eq)
  ultimately show ?thesis using that a by blast
qed

lemma accept_word_spec:
  assumes "rules_ok rules" "left_free rules" "stacks_ok rules sts"
  obtains sts' where "foldo (\<lambda>c sts. accept_stacks rules sts c) w sts = Some sts'" "stacks_ok rules sts'"
    and "\<And>v. stacks_derive rules sts' v \<longleftrightarrow> stacks_derive rules sts (w @ v)"
  using assms(3)
proof (induction w arbitrary: sts thesis)
  case (Cons c w)
  obtain s1 where s1: "accept_stacks rules sts c = Some s1" "stacks_ok rules s1"
    "\<And>w. stacks_derive rules s1 w \<longleftrightarrow> stacks_derive rules sts (c # w)"
    using accept_stacks_spec [OF assms(1,2) Cons.prems(2)] by metis
  obtain s2 where s2: "foldo (\<lambda>c sts. accept_stacks rules sts c) w s1 = Some s2" "stacks_ok rules s2"
    "\<And>v. stacks_derive rules s2 v \<longleftrightarrow> stacks_derive rules s1 (w @ v)"
    using Cons.IH [OF _ s1(2)] by metis
  show ?case using Cons.prems(1) [of s2] s1 s2 by simp
qed simp

lemma empty_stack_iff:
  assumes "stacks_ok rules sts"
  shows "[] \<in> set sts \<longleftrightarrow> stacks_derive rules sts []"
proof
  assume "stacks_derive rules sts []"
  then obtain st where st: "st \<in> set sts" "stack_derives rules st []" by (auto simp: stacks_derive_def)
  have "st = []"
  proof (cases st)
    case (Cons p rest)
    have "expanded rules (p # rest)" using assms st(1) Cons by (auto simp: stacks_ok_def)
    then obtain e where "elem_at rules p = Some e" "is_terminal e" by (auto simp: expanded_def)
    with st(2) Cons show ?thesis using derives_at_chr by simp
  qed simp
  with st(1) show "[] \<in> set sts" by simp
qed (auto simp: stacks_derive_def intro!: bexI [of _ "[]"])

text \<open>The stack that starts with an alternate of the start rule.\<close>

lemma start_stack:
  assumes "rules_ok rules" "left_free rules" "pos_good rules p"
  obtains st where "push_pos rules p [] = Some st" "stack_ok rules st" "\<exists>st'. expands rules st st'"
    and "\<And>w. expansion_derives rules st w \<longleftrightarrow> derives rules p w" "\<And>ns. \<exists>ns'. advance_stack rules st ns = Some ns'"
proof -
  obtain st where st: "push_pos rules p [] = Some st" "stack_ok rules st"
    using push_pos_good [OF assms(3), of "[]"] by (metis stack_ok_simps(1))
  have adv: "\<exists>ns'. advance_stack rules st ns = Some ns'" for ns using advance_total [OF assms(1,2) st(2)] by metis
  then have "\<exists>st'. expands rules st st'" using advance_stack_expands by blast
  moreover have "expansion_derives rules st w \<longleftrightarrow> derives rules p w" for w
    using expansion_derives_iff [OF st(2)] push_pos_derives [OF st(1)] by simp
  ultimately show ?thesis using that st adv by blast
qed

lemma initial_stacks_spec:
  assumes "rules_ok rules" "left_free rules" "start < length rules"
  obtains sts where "initial_stacks rules start = Some sts" "stacks_ok rules sts" "sts \<noteq> []"
    and "\<And>w. stacks_derive rules sts w \<longleftrightarrow> rule_derives rules start w"
proof -
  obtain subs where subs: "alternates (rules ! start) = Some subs" "subs \<noteq> []" and good: "\<And>s. s \<in> set subs \<Longrightarrow> pos_good rules (start, s)"
    using alternates_ok [OF assms(1,3)] by metis
  define S where "S = (\<lambda>sub. {st'. \<exists>st. push_pos rules (start, sub) [] = Some st \<and> expands rules st st'})"
  define f where "f = (\<lambda>sub ns. Option.bind (push_pos rules (start, sub) []) (\<lambda>st. advance_stack rules st ns))"
  have total: "\<exists>ns'. f sub ns = Some ns'" if sub: "sub \<in> set subs" for sub ns
    using start_stack [OF assms(1,2) good [OF sub]] by (metis bind.bind_lunit f_def)
  then obtain sts where sts: "foldo f subs [] = Some sts" using foldo_total [of subs f "[]"] by auto
  have step: "set n1 = set n0 \<union> S sub" if run: "f sub n0 = Some n1" for sub n0 n1
  proof -
    obtain st where st: "push_pos rules (start, sub) [] = Some st" "advance_stack rules st n0 = Some n1"
      using run by (auto simp: f_def Option.bind_eq_Some_conv)
    then show ?thesis using advance_stack_set [OF st(2)] by (simp add: S_def)
  qed
  have eq: "set sts = (\<Union>sub \<in> set subs. S sub)" using foldo_union [OF sts step] by simp
  have S: "S sub \<noteq> {} \<and> (\<forall>st' \<in> S sub. stack_ok rules st' \<and> expanded rules st')
     \<and> (\<forall>w. (\<exists>st' \<in> S sub. stack_derives rules st' w) \<longleftrightarrow> derives rules (start, sub) w)" if sub: "sub \<in> set subs" for sub
  proof -
    obtain st where st: "push_pos rules (start, sub) [] = Some st" "stack_ok rules st" "\<exists>st'. expands rules st st'"
      "\<And>w. expansion_derives rules st w \<longleftrightarrow> derives rules (start, sub) w"
      using start_stack [OF assms(1,2) good [OF sub]] by metis
    have "S sub = {st'. expands rules st st'}" using st(1) by (simp add: S_def)
    then show ?thesis
      using st(2,3) st(4) [unfolded expansion_derives_def] expands_ok [OF _ assms(1) st(2)] expands_expanded by auto
  qed
  have "stacks_ok rules sts" using S by (auto simp: stacks_ok_def eq)
  moreover have "stacks_derive rules sts w \<longleftrightarrow> rule_derives rules start w" for w
    using assms(3) subs(1) S by (auto simp: stacks_derive_def eq rule_derives_def)
  moreover have "set sts \<noteq> {}" using eq S subs(2) by (cases subs) auto
  moreover have "initial_stacks rules start = Some sts" using sts assms(3) subs(1) by (simp add: initial_stacks_def f_def)
  ultimately show ?thesis using that by force
qed

lemma copy_rules_ok:
  assumes "rules_ok rules"
  shows "those (map copy_rule rules) = Some rules"
proof -
  have "copy_rule rule = Some rule" if rule: "rule \<in> set rules" for rule
  proof -
    have ok: "rule_ok (length rules) rule" using assms rule by (simp add: rules_ok_def)
    then have split: "rule = butlast rule @ [elem GRE_END 0]" by (metis append_butlast_last_id rule_ok_def)
    have "takeWhile (\<lambda>e. e_type e \<noteq> GRE_END) (butlast rule @ [elem GRE_END 0]) = butlast rule"
      using ok by (subst takeWhile_append2) (auto simp: rule_ok_def)
    moreover have "elem GRE_END 0 \<in> set rule" using split by (metis in_set_conv_decomp)
    then have "\<exists>e \<in> set rule. e_type e = GRE_END" by (rule rev_bexI) simp
    ultimately show ?thesis using split by (simp add: copy_rule_def)
  qed
  then show ?thesis using those_map_Some [of rules copy_rule "\<lambda>r. r"] by simp
qed

lemma init_impl_spec:
  assumes "rules_ok rules" "no_left_recursion rules" "start < length rules"
  obtains g where "init_impl vocab o_vocab rules start = Some (Some g)" "g_rules g = rules" "stacks_ok rules (g_stacks g)"
    and "g_stacks g \<noteq> []" "\<And>w. stacks_derive rules (g_stacks g) w \<longleftrightarrow> rule_derives rules start w"
proof -
  note free = no_left_recursion_free [OF assms(1,2)]
  obtain sts where sts: "initial_stacks rules start = Some sts" "stacks_ok rules sts" "sts \<noteq> []"
      "\<And>w. stacks_derive rules sts w \<longleftrightarrow> rule_derives rules start w"
    using initial_stacks_spec [OF assms(1) free assms(3)] by metis
  define g where "g = grammar_of vocab o_vocab rules sts False [] []"
  have "init_impl vocab o_vocab rules start = Some (Some g)"
    using copy_rules_ok [OF assms(1)] no_left_recursion_check [OF assms(1,2)] sts(1)
    by (simp add: init_impl_def g_def)
  moreover have "g_rules g = rules" "g_stacks g = sts" by (simp_all add: g_def grammar_of_def)
  ultimately show ?thesis using that sts by simp
qed

lemma grammar_accept_word:
  "foldo (\<lambda>c g. grammar_accept g c) w g = map_option (\<lambda>sts. g\<lparr>g_stacks := sts\<rparr>) (foldo (\<lambda>c sts. accept_stacks (g_rules g) sts c) w (g_stacks g))"
proof (induction w arbitrary: g)
  case (Cons c w)
  show ?case
  proof (cases "accept_stacks (g_rules g) (g_stacks g) c")
    case (Some sts)
    then show ?thesis using Cons.IH [of "g\<lparr>g_stacks := sts\<rparr>"] by (simp add: grammar_accept_def)
  qed (simp add: grammar_accept_def)
qed simp

lemma accepts_language:
  assumes "rules_ok rules" "left_free rules" "g_rules g = rules" "stacks_ok rules (g_stacks g)"
    and "\<And>w. stacks_derive rules (g_stacks g) w \<longleftrightarrow> rule_derives rules start w"
  shows "\<exists>g'. foldo (\<lambda>c g. grammar_accept g c) w g = Some g' \<and> ([] \<in> set (g_stacks g') \<longleftrightarrow> rule_derives rules start w)"
proof -
  obtain sts where sts: "foldo (\<lambda>c sts. accept_stacks rules sts c) w (g_stacks g) = Some sts" "stacks_ok rules sts"
      "\<And>v. stacks_derive rules sts v \<longleftrightarrow> stacks_derive rules (g_stacks g) (w @ v)"
    using accept_word_spec [OF assms(1,2,4)] by metis
  show ?thesis using sts(1) sts(3) [of "[]"] empty_stack_iff [OF sts(2)] assms(3,5) by (simp add: grammar_accept_word)
qed

text \<open>
  C29 (functional): a grammar of well-formed rules without left recursion (no rule refers to itself at
  its left end, directly or through references and with references before them that may be empty) is
  constructed, every text can be given to it character by character, and the empty stack, at which
  generation may end, is present exactly when the start rule derives the text.
\<close>

theorem grammar_language:
  assumes "rules_ok rules" "no_left_recursion rules" "start < length rules"
  shows "\<exists>g. init_impl vocab o_vocab rules start = Some (Some g)
     \<and> (\<forall>w. \<exists>g'. foldo (\<lambda>c g. grammar_accept g c) w g = Some g'
          \<and> ([] \<in> set (g_stacks g') \<longleftrightarrow> rule_derives rules start w))"
proof -
  obtain g where "init_impl vocab o_vocab rules start = Some (Some g)" "g_rules g = rules" "stacks_ok rules (g_stacks g)"
      "\<And>w. stacks_derive rules (g_stacks g) w \<longleftrightarrow> rule_derives rules start w"
    using init_impl_spec [OF assms] by metis
  then show ?thesis using accepts_language [OF assms(1) no_left_recursion_free [OF assms(1,2)]] by blast
qed

theorem grammar_language_witness:
  "\<exists>g. init_impl None None demo_rules 0 = Some (Some g)
     \<and> (\<forall>w. \<exists>g'. foldo (\<lambda>c g. grammar_accept g c) w g = Some g'
          \<and> ([] \<in> set (g_stacks g') \<longleftrightarrow> rule_derives demo_rules 0 w))"
  using grammar_language [OF demo_rules_ok demo_rules_free] by (simp add: demo_rules_def)

end
