(* ===== verification/Grammar_Reject.thy ===== *)
theory Grammar_Reject
  imports Grammar_Engine
begin

text \<open>
  Candidates for the next token. A candidate survives a stack if its code points can be taken off the
  stack one after the other and what is left of an incomplete character may still match. Exactly the
  candidates that survive no stack are rejected, and a token that is left can be accepted.
\<close>

section \<open>Which candidates survive\<close>

fun viable :: "grammar_rules \<Rightarrow> int \<Rightarrow> partial_utf8 \<Rightarrow> grammar_stack \<Rightarrow> code_point list \<Rightarrow> bool" where
  "viable rules token u st [] \<longleftrightarrow> pu_n_remain u = 0 \<or>
     (case st of [] \<Rightarrow> False | p # _ \<Rightarrow> match_partial_char rules p u = Some True)"
| "viable rules token u st (c # ws) \<longleftrightarrow>
     (case st of [] \<Rightarrow> False | p # _ \<Rightarrow> Option.bind (elem_at rules p) (\<lambda>e. match_token e token) = Some True)
     \<or> (\<exists>st' \<in> successors rules c st. viable rules token u st' ws)"

definition cand_rest :: "grammar_candidate \<Rightarrow> code_point list" where
  "cand_rest tok = drop (c_off tok) (butlast (c_code_points tok))"

definition cand_ok :: "grammar_candidate \<Rightarrow> bool" where
  "cand_ok tok \<longleftrightarrow> (\<exists>ws. c_code_points tok = ws @ [0] \<and> 0 \<notin> set ws \<and> c_off tok \<le> length ws)"

definition survives :: "grammar_rules \<Rightarrow> grammar_stack \<Rightarrow> grammar_candidate \<Rightarrow> bool" where
  "survives rules st tok \<longleftrightarrow> viable rules (c_id tok) (c_partial tok) st (cand_rest tok)"

lemma cand_chr_rest:
  assumes "cand_ok tok"
  shows "cand_chr tok = Some (case cand_rest tok of [] \<Rightarrow> 0 | c # _ \<Rightarrow> c)"
proof -
  obtain ws where ws: "c_code_points tok = ws @ [0]" "c_off tok \<le> length ws" using assms by (auto simp: cand_ok_def)
  show ?thesis
  proof (cases "c_off tok = length ws")
    case False
    with ws have "drop (c_off tok) ws = ws ! c_off tok # drop (Suc (c_off tok)) ws" by (simp add: Cons_nth_drop_Suc)
    with ws False show ?thesis by (auto simp: cand_chr_def cand_rest_def nth_append)
  qed (use ws in \<open>auto simp: cand_chr_def cand_rest_def\<close>)
qed

lemma cand_rest_nonzero: "cand_ok tok \<Longrightarrow> 0 \<notin> set (cand_rest tok)"
  by (auto simp: cand_ok_def cand_rest_def dest: in_set_dropD)

lemma cand_next:
  assumes "cand_ok tok" "cand_rest tok = c # ws"
  shows "cand_ok (tok\<lparr>c_off := Suc (c_off tok)\<rparr>)" "cand_rest (tok\<lparr>c_off := Suc (c_off tok)\<rparr>) = ws" "c \<noteq> 0"
proof -
  obtain vs where vs: "c_code_points tok = vs @ [0]" "0 \<notin> set vs" using assms(1) by (auto simp: cand_ok_def)
  have d: "drop (c_off tok) vs = c # ws" using assms(2) vs(1) by (simp add: cand_rest_def)
  then have "c_off tok < length vs" by (metis drop_eq_Nil leI list.distinct(1))
  with vs show "cand_ok (tok\<lparr>c_off := Suc (c_off tok)\<rparr>)" by (auto simp: cand_ok_def)
  show "cand_rest (tok\<lparr>c_off := Suc (c_off tok)\<rparr>) = ws" using d vs(1) by (simp add: cand_rest_def drop_Suc flip: tl_drop)
  show "c \<noteq> 0" using cand_rest_nonzero [OF assms(1)] assms(2) by auto
qed

text \<open>Loops that collect the candidates that fail a test.\<close>

lemma foldo_collect:
  assumes "\<And>x acc. x \<in> set xs \<Longrightarrow> f x acc = Some (if T x then acc else acc @ [x])"
  shows "foldo f xs acc = Some (acc @ filter (\<lambda>x. \<not> T x) xs)"
  using assms by (induction xs arbitrary: acc) auto

section \<open>One stack\<close>

lemma reject_empty_spec:
  assumes "\<forall>tok \<in> set cands. cand_ok tok"
  shows "foldo reject_empty cands [] = Some (filter (\<lambda>tok. \<not> survives rules [] tok) cands)"
proof -
  have "reject_empty tok acc = Some (if survives rules [] tok then acc else acc @ [tok])" if "tok \<in> set cands" for tok acc
    using cand_chr_rest [of tok] cand_rest_nonzero [of tok] assms that
    by (cases "cand_rest tok") (auto simp: reject_empty_def survives_def successors_def)
  then show ?thesis using foldo_collect [of cands reject_empty "survives rules []" "[]"] by simp
qed

lemma reject_token_spec:
  assumes "\<forall>tok \<in> set cands. cand_ok tok" and "elem_at rules p = Some e" "e_type e = GRE_TOKEN \<or> e_type e = GRE_TOKEN_NOT"
  shows "foldo (reject_token e) cands [] = Some (filter (\<lambda>tok. \<not> survives rules (p # st) tok) cands)"
proof -
  have none: "match_char rules p c = None" "match_partial_char rules p u = None" for c u
    using assms(2,3) by (auto simp: match_char_def match_partial_char_def is_positive_char_def)
  have "reject_token e tok acc = Some (if survives rules (p # st) tok then acc else acc @ [tok])" if "tok \<in> set cands" for tok acc
    using cand_chr_rest [of tok] cand_rest_nonzero [of tok] assms that none
    by (cases "cand_rest tok") (auto simp: reject_token_def survives_def successors_def match_token_def)
  then show ?thesis using foldo_collect [of cands "reject_token e" "survives rules (p # st)" "[]"] by simp
qed

text \<open>The loop over the candidates at a character: those that fail at once, and those that take the character off.\<close>

definition cand_fails :: "grammar_rules \<Rightarrow> grammar_pos \<Rightarrow> grammar_candidate \<Rightarrow> bool" where
  "cand_fails rules p tok \<longleftrightarrow> (case cand_rest tok of
     [] \<Rightarrow> pu_n_remain (c_partial tok) \<noteq> 0 \<and> match_partial_char rules p (c_partial tok) \<noteq> Some True
   | c # _ \<Rightarrow> \<not> (\<exists>p'. match_char rules p c = Some (True, p')))"

definition cand_goes_on :: "grammar_rules \<Rightarrow> grammar_pos \<Rightarrow> grammar_candidate \<Rightarrow> bool" where
  "cand_goes_on rules p tok \<longleftrightarrow> cand_rest tok \<noteq> [] \<and> \<not> cand_fails rules p tok"

lemma reject_char_spec:
  assumes "\<forall>tok \<in> set cands. cand_ok tok" "rules_ok rules" "is_char_pos rules p"
  shows "foldo (reject_char rules p) cands (rej, nxt) = Some (rej @ filter (cand_fails rules p) cands,
     nxt @ map (\<lambda>tok. tok\<lparr>c_off := Suc (c_off tok)\<rparr>) (filter (cand_goes_on rules p) cands))"
  using assms(1)
proof (induction cands arbitrary: rej nxt)
  case (Cons tok cands)
  obtain p' where p': "\<And>c. \<exists>b. match_char rules p c = Some (b, p')" "\<And>u. \<exists>b. match_partial_char rules p u = Some b"
    using match_char_total [OF assms(2,3)] by metis
  have chr: "cand_chr tok = Some (case cand_rest tok of [] \<Rightarrow> 0 | c # _ \<Rightarrow> c)" using cand_chr_rest Cons.prems by simp
  have "reject_char rules p tok (rej, nxt) = Some (if cand_fails rules p tok then rej @ [tok] else rej,
     if cand_goes_on rules p tok then nxt @ [tok\<lparr>c_off := Suc (c_off tok)\<rparr>] else nxt)"
  proof (cases "cand_rest tok")
    case Nil
    obtain b where "match_partial_char rules p (c_partial tok) = Some b" using p'(2) by blast
    then show ?thesis using chr Nil by (auto simp: reject_char_def cand_fails_def cand_goes_on_def)
  next
    case (Cons c ws)
    obtain b where "match_char rules p c = Some (b, p')" using p'(1) by blast
    moreover have "c \<noteq> 0" using cand_next(3) Cons \<open>\<forall>tok \<in> set (tok # cands). cand_ok tok\<close> by auto
    ultimately show ?thesis using chr Cons by (auto simp: reject_char_def cand_fails_def cand_goes_on_def)
  qed
  then show ?case using Cons.IH Cons.prems by simp
qed simp

section \<open>All stacks\<close>

lemma reject_stacks_spec:
  assumes "\<And>st cs. st \<in> set sts \<Longrightarrow> \<forall>tok \<in> set cs. Q tok \<Longrightarrow> \<exists>rej. f st cs = Some rej \<and> set rej = {tok \<in> set cs. \<not> V st tok}"
    and "sts \<noteq> []" "\<forall>tok \<in> set cs. Q tok"
  shows "\<exists>rej. reject_stacks f sts cs = Some rej \<and> set rej = {tok \<in> set cs. \<forall>st \<in> set sts. \<not> V st tok}"
proof -
  have loop: "\<exists>rej. foldo f xs cs = Some rej \<and> set rej = {tok \<in> set cs. \<forall>st \<in> set xs. \<not> V st tok}"
    if "set xs \<subseteq> set sts" "\<forall>tok \<in> set cs. Q tok" for xs cs
    using that
  proof (induction xs arbitrary: cs)
    case (Cons st xs)
    obtain r1 where r1: "f st cs = Some r1" "set r1 = {tok \<in> set cs. \<not> V st tok}" using assms(1) Cons.prems by force
    obtain r2 where "foldo f xs r1 = Some r2" "set r2 = {tok \<in> set r1. \<forall>st \<in> set xs. \<not> V st tok}"
      using Cons.IH [of r1] Cons.prems r1(2) by auto
    with r1 show ?case by auto
  qed simp
  show ?thesis
  proof (cases "cs = []")
    case False
    have "reject_stacks f sts cs = foldo f sts cs" using assms(2) False by (cases sts) (auto simp: reject_stacks_def)
    then show ?thesis using loop [of sts cs] assms(3) by simp
  qed (use assms(2) in \<open>simp add: reject_stacks_def\<close>)
qed

lemma survives_char:
  assumes "cand_ok tok" "match_char rules p 0 = Some (b, p')" "rules_ok rules" "is_char_pos rules p"
    and "push_pos rules p' rest = Some st1"
  shows "survives rules (p # rest) tok \<longleftrightarrow> \<not> cand_fails rules p tok \<and> (cand_goes_on rules p tok \<longrightarrow>
     (\<exists>st'. expands rules st1 st' \<and> survives rules st' (tok\<lparr>c_off := Suc (c_off tok)\<rparr>)))"
proof (cases "cand_rest tok")
  case Nil
  then show ?thesis by (simp add: survives_def cand_fails_def cand_goes_on_def)
next
  case (Cons c ws)
  obtain e where e: "elem_at rules p = Some e" "e_type e \<in> {GRE_CHAR, GRE_CHAR_NOT, GRE_CHAR_ANY}"
    using assms(4) by (auto simp: is_char_pos_def)
  have tok: "Option.bind (elem_at rules p) (\<lambda>e. match_token e (c_id tok)) \<noteq> Some True" using e by (auto simp: match_token_def)
  show ?thesis
  proof (cases "\<exists>q. match_char rules p c = Some (True, q)")
    case True
    then have m: "match_char rules p c = Some (True, p')" using match_char_same_pos [OF assms(3) assms(2)] by metis
    have suc: "successors rules c (p # rest) = {st'. expands rules st1 st'}" by (rule successors_match [OF m assms(5)])
    show ?thesis using tok m cand_next [OF assms(1) Cons]
      by (simp add: survives_def Cons suc cand_fails_def cand_goes_on_def)
  next
    case False
    then have "successors rules c (p # rest) = {}" by (auto simp: successors_def)
    with False tok show ?thesis by (simp add: survives_def Cons cand_fails_def)
  qed
qed

lemma char_or_token:
  assumes "expanded rules (p # rest)"
  obtains e where "elem_at rules p = Some e" "e_type e = GRE_TOKEN \<or> e_type e = GRE_TOKEN_NOT"
    | e where "elem_at rules p = Some e" "\<not> (e_type e = GRE_TOKEN \<or> e_type e = GRE_TOKEN_NOT)" "is_char_pos rules p"
  using assms by (auto simp: expanded_def is_char_pos_def is_terminal_def)

abbreviation shorter :: "nat \<Rightarrow> grammar_candidate \<Rightarrow> bool" where
  "shorter n tok \<equiv> cand_ok tok \<and> length (cand_rest tok) < n"

lemma reject_at_char:
  assumes ok: "rules_ok rules" "left_free rules" "stack_ok rules rest"
    and cands: "\<forall>tok \<in> set cands. cand_ok tok \<and> length (cand_rest tok) \<le> n"
    and p: "elem_at rules p = Some e" "\<not> (e_type e = GRE_TOKEN \<or> e_type e = GRE_TOKEN_NOT)" "is_char_pos rules p"
    and IH: "\<And>st cs. 0 < n \<Longrightarrow> stack_ok rules st \<Longrightarrow> expanded rules st \<Longrightarrow> \<forall>tok \<in> set cs. shorter n tok
      \<Longrightarrow> \<exists>rej. reject_candidates_for_stack rules st cs = Some rej \<and> set rej = {tok \<in> set cs. \<not> survives rules st tok}"
  shows "\<exists>rej. reject_candidates_for_stack rules (p # rest) cands = Some rej \<and> set rej = {tok \<in> set cands. \<not> survives rules (p # rest) tok}"
proof -
  have cok: "\<forall>tok \<in> set cands. cand_ok tok" using cands by blast
  obtain b p' where m: "match_char rules p 0 = Some (b, p')" using match_char_total [OF ok(1) p(3)] by metis
  obtain st1 where push: "push_pos rules p' rest = Some st1" using push_pos_good [OF matched_good [OF ok(1) m]] by metis
  have ok1: "stack_ok rules st1" using push_pos_ok [OF matched_good [OF ok(1) m] ok(3) push] .
  obtain nss where nss: "advance_stack rules st1 [] = Some nss" using advance_total [OF ok(1,2) ok1] by blast
  have set_nss: "set nss = {st'. expands rules st1 st'}" using advance_stack_set [OF nss] by simp
  then have ne: "nss \<noteq> []" using advance_stack_expands [OF nss] by auto
  define inc where "inc = (\<lambda>tok :: grammar_candidate. tok\<lparr>c_off := Suc (c_off tok)\<rparr>)"
  define nxt where "nxt = map inc (filter (cand_goes_on rules p) cands)"
  have nxt: "shorter n t" if t: "t \<in> set nxt" for t
  proof -
    obtain tok where tok: "tok \<in> set cands" "cand_goes_on rules p tok" "t = inc tok" using t by (auto simp: nxt_def)
    obtain c ws where "cand_rest tok = c # ws" using tok(2) by (cases "cand_rest tok") (auto simp: cand_goes_on_def)
    then show ?thesis using cand_next [of tok c ws] cands tok by (force simp: inc_def)
  qed
  have "\<exists>rej. reject_stacks (reject_candidates_for_stack rules) nss nxt = Some rej
     \<and> set rej = {t \<in> set nxt. \<forall>st \<in> set nss. \<not> survives rules st t}"
  proof (cases "nxt = []")
    case False
    then have "0 < n" using nxt [OF hd_in_set [OF False]] by (metis gr_zeroI not_less0)
    then show ?thesis using ne nxt set_nss expands_ok [OF _ ok(1) ok1] expands_expanded
      by (intro reject_stacks_spec [where Q = "shorter n"] IH) auto
  qed (use ne in \<open>simp add: reject_stacks_def\<close>)
  then obtain rej where rej: "reject_stacks (reject_candidates_for_stack rules) nss nxt = Some rej"
    "set rej = {t \<in> set nxt. \<forall>st \<in> set nss. \<not> survives rules st t}" by blast
  have "reject_candidates_for_stack rules (p # rest) cands = Some (filter (cand_fails rules p) cands @ map (\<lambda>tok. tok\<lparr>c_off := c_off tok - 1\<rparr>) rej)"
    using p(1,2) reject_char_spec [OF cok ok(1) p(3), of "[]" "[]"] m push nss rej(1)
    by (subst reject_candidates_for_stack.simps) (simp add: nxt_def inc_def)
  moreover have "(\<lambda>tok. tok\<lparr>c_off := c_off tok - 1\<rparr>) ` set rej =
     {tok \<in> set cands. cand_goes_on rules p tok \<and> (\<forall>st \<in> set nss. \<not> survives rules st (inc tok))}"
    unfolding rej(2) nxt_def by (force simp: inc_def)
  moreover have "\<not> survives rules (p # rest) tok \<longleftrightarrow> cand_fails rules p tok
     \<or> cand_goes_on rules p tok \<and> (\<forall>st \<in> set nss. \<not> survives rules st (inc tok))" if "tok \<in> set cands" for tok
    using survives_char [OF _ m ok(1) p(3) push, of tok] cok that by (auto simp: set_nss inc_def)
  ultimately show ?thesis by auto
qed

lemma reject_for_stack_spec:
  assumes "rules_ok rules" "left_free rules"
  shows "stack_ok rules st \<Longrightarrow> expanded rules st \<Longrightarrow> \<forall>tok \<in> set cands. cand_ok tok \<and> length (cand_rest tok) \<le> n
    \<Longrightarrow> \<exists>rej. reject_candidates_for_stack rules st cands = Some rej \<and> set rej = {tok \<in> set cands. \<not> survives rules st tok}"
proof (induction n arbitrary: st cands rule: less_induct)
  case (less n)
  have ok: "\<forall>tok \<in> set cands. cand_ok tok" using less.prems(3) by blast
  show ?case
  proof (cases st)
    case Nil
    then show ?thesis using reject_empty_spec [OF ok, of rules]
      by (subst reject_candidates_for_stack.simps) auto
  next
    case (Cons p rest)
    from char_or_token [OF less.prems(2) [unfolded Cons]] show ?thesis
    proof cases
      case (1 e)
      then show ?thesis using reject_token_spec [OF ok 1, of rest]
        by (subst reject_candidates_for_stack.simps) (auto simp: Cons)
    next
      case (2 e)
      show ?thesis unfolding Cons
      proof (rule reject_at_char [OF assms _ less.prems(3) 2])
        show "stack_ok rules rest" using less.prems(1) Cons by simp
        fix st' cs assume a: "0 < n" "stack_ok rules st'" "expanded rules st'" "\<forall>tok \<in> set cs. shorter n tok"
        show "\<exists>rej. reject_candidates_for_stack rules st' cs = Some rej \<and> set rej = {tok \<in> set cs. \<not> survives rules st' tok}"
          by (rule less.IH [of "n - 1"]) (use a in auto)
      qed
    qed
  qed
qed

lemma reject_candidates_exact:
  assumes "rules_ok rules" "left_free rules" "stacks_ok rules sts" "sts \<noteq> []" "\<forall>tok \<in> set cands. cand_ok tok"
  shows "\<exists>rej. reject_candidates rules sts cands = Some rej
     \<and> set rej = {tok \<in> set cands. \<forall>st \<in> set sts. \<not> survives rules st tok}"
  unfolding reject_candidates_def
proof (rule reject_stacks_spec [OF _ assms(4,5)])
  fix st cs assume st: "st \<in> set sts" and cs: "\<forall>tok \<in> set cs. cand_ok tok"
  define n where "n = Max (insert 0 ((\<lambda>tok. length (cand_rest tok)) ` set cs))"
  have "length (cand_rest tok) \<le> n" if "tok \<in> set cs" for tok using that by (simp add: n_def)
  then show "\<exists>rej. reject_candidates_for_stack rules st cs = Some rej \<and> set rej = {tok \<in> set cs. \<not> survives rules st tok}"
    using reject_for_stack_spec [OF assms(1,2), of st cs n] assms(3) st cs by (auto simp: stacks_ok_def)
qed

text \<open>
  C31 (functional): for well-formed rules without left recursion (no rule refers to itself at its left
  end, directly or through references and with references before them that may be empty), stacks of
  such rules (one at least) and candidates whose code points end with 0 and hold no other, rejecting
  returns, and exactly the candidates that no stack lets through are rejected; the assertion that there
  is a stack to continue with never fails.
\<close>

theorem reject_candidates_spec:
  assumes "rules_ok rules" "no_left_recursion rules" "stacks_ok rules sts" "sts \<noteq> []" "\<forall>tok \<in> set cands. cand_ok tok"
  shows "\<exists>rej. reject_candidates rules sts cands = Some rej
     \<and> set rej = {tok \<in> set cands. \<forall>st \<in> set sts. \<not> survives rules st tok}"
  by (rule reject_candidates_exact [OF assms(1) no_left_recursion_free [OF assms(1,2)] assms(3-5)])

abbreviation demo_candidate :: "code_point list \<Rightarrow> grammar_candidate" where
  "demo_candidate ws \<equiv> \<lparr>c_index = 0, c_code_points = ws @ [0], c_off = 0, c_partial = \<lparr>pu_value = 0, pu_n_remain = 0\<rparr>, c_id = 7\<rparr>"

theorem reject_candidates_spec_witness:
  "\<exists>rej. reject_candidates demo_rules [[(1, 0), (0, 1)], [(0, 1)]] [demo_candidate [0x61, 0x62], demo_candidate [0x62, 0x61]] = Some rej
     \<and> set rej = {tok \<in> {demo_candidate [0x61, 0x62], demo_candidate [0x62, 0x61]}.
         \<forall>st \<in> {[(1, 0), (0, 1)], [(0, 1)]}. \<not> survives demo_rules st tok}"
proof -
  have sts: "stacks_ok demo_rules [[(1, 0), (0, 1)], [(0, 1)]]"
    by (auto simp: stacks_ok_def expanded_def pos_ok_def is_terminal_def is_end_of_sequence_def elem_at_def demo_rules_def)
  have cands: "\<forall>tok \<in> set [demo_candidate [0x61, 0x62], demo_candidate [0x62, 0x61]]. cand_ok tok" by (simp add: cand_ok_def)
  from reject_candidates_spec [OF demo_rules_ok demo_rules_free sts _ cands] show ?thesis by simp
qed

section \<open>Accepting what was not rejected\<close>

definition no_tokens :: "grammar_rules \<Rightarrow> bool" where
  "no_tokens rules \<longleftrightarrow> (\<forall>rule \<in> set rules. \<forall>e \<in> set rule. e_type e \<noteq> GRE_TOKEN \<and> e_type e \<noteq> GRE_TOKEN_NOT)"

lemma no_tokens_elem: "no_tokens rules \<Longrightarrow> elem_at rules p = Some e \<Longrightarrow> e_type e \<noteq> GRE_TOKEN \<and> e_type e \<noteq> GRE_TOKEN_NOT"
  unfolding no_tokens_def elem_at_Some by (metis nth_mem)

lemma viable_steps:
  assumes "no_tokens rules" "viable rules token u st (c # ws)"
  shows "\<exists>st' \<in> successors rules c st. viable rules token u st' ws"
proof -
  have "Option.bind (elem_at rules p) (\<lambda>e. match_token e token) \<noteq> Some True" for p
    using no_tokens_elem [OF assms(1), of p] by (auto simp: match_token_def Option.bind_eq_Some_conv)
  then show ?thesis using assms(2) by (auto split: list.splits)
qed

lemma accept_cps_spec:
  assumes "rules_ok rules" "left_free rules" "no_tokens rules"
  shows "stacks_ok rules sts \<Longrightarrow> \<exists>sts'. accept_cps rules sts ws = Some sts' \<and> stacks_ok rules sts'
    \<and> ((\<exists>st \<in> set sts. viable rules token u st ws) \<longrightarrow> sts' \<noteq> [])"
proof (induction ws arbitrary: sts)
  case Nil
  then show ?case by auto
next
  case (Cons c ws)
  obtain s1 where s1: "accept_stacks rules sts c = Some s1" "stacks_ok rules s1"
    using accept_stacks_spec [OF assms(1,2) Cons.prems] by metis
  obtain s2 where s2: "accept_cps rules s1 ws = Some s2" "stacks_ok rules s2"
      "(\<exists>st \<in> set s1. viable rules token u st ws) \<longrightarrow> s2 \<noteq> []"
    using Cons.IH [OF s1(2)] by blast
  have via: "\<exists>st \<in> set s1. viable rules token u st ws" if "\<exists>st \<in> set sts. viable rules token u st (c # ws)"
    using that viable_steps [OF assms(3)] accept_stacks_set [OF s1(1)] by fastforce
  show ?case
  proof (cases "s1 = []")
    case True
    then show ?thesis using s1 via by auto
  next
    case False
    then show ?thesis using s1 s2 via by auto
  qed
qed

lemma set_fold_add_stack: "set (fold add_stack xs ns) = set ns \<union> set xs"
  by (induction xs arbitrary: ns) auto

text \<open>What accepting a token makes of one stack.\<close>

definition token_stacks :: "grammar_rules \<Rightarrow> int \<Rightarrow> code_point list \<Rightarrow> grammar_stack \<Rightarrow> grammar_stack set \<Rightarrow> bool" where
  "token_stacks rules token ws st S \<longleftrightarrow>
     (\<forall>ns. \<exists>ns'. accept_token_stack rules token ws st ns = Some ns' \<and> set ns' = set ns \<union> S)
     \<and> (\<forall>st' \<in> S. stack_ok rules st' \<and> expanded rules st')
     \<and> (st \<noteq> [] \<longrightarrow> (\<exists>u. viable rules token u st ws) \<longrightarrow> S \<noteq> {})"

lemma token_stacks_exists:
  assumes "rules_ok rules" "left_free rules" "no_tokens rules" "stack_ok rules st" "expanded rules st"
  shows "\<exists>S. token_stacks rules token ws st S"
proof (cases st)
  case Nil
  then show ?thesis by (intro exI [of _ "{}"]) (simp add: token_stacks_def accept_token_stack_def)
next
  case (Cons p rest)
  obtain e where e: "elem_at rules p = Some e" using assms(5) by (auto simp: Cons expanded_def)
  have ok: "stacks_ok rules [st]" using assms(4,5) by (simp add: stacks_ok_def)
  obtain sts' where sts': "accept_cps rules [st] ws = Some sts'" "stacks_ok rules sts'"
    using accept_cps_spec [OF assms(1-3) ok, of ws] by blast
  have "sts' \<noteq> []" if "viable rules token u st ws" for u
    using accept_cps_spec [OF assms(1-3) ok, of ws token u] sts'(1) that by simp
  moreover have "accept_token_stack rules token ws st ns = Some (fold add_stack sts' ns)" for ns
    using sts'(1) e no_tokens_elem [OF assms(3) e] by (simp add: Cons accept_token_stack_def)
  ultimately show ?thesis using sts'(2)
    by (intro exI [of _ "set sts'"]) (auto simp: token_stacks_def set_fold_add_stack stacks_ok_def)
qed

end
