(* ===== verification/Grammar_Apply.thy ===== *)
theory Grammar_Apply
  imports Grammar_Reject
begin

text \<open>
  Masking and accepting belong together: a token whose logit \<open>apply_impl\<close> leaves alone can be given to
  \<open>accept_impl\<close>, which neither throws nor aborts then.
\<close>

section \<open>Decoded pieces\<close>

lemma decode_loop_shape:
  "decode_loop s v n acc = (cps, u) \<Longrightarrow> (\<exists>ws. cps = ws @ [0])
     \<and> (acc \<noteq> [] \<or> n \<noteq> 0 \<or> (s \<noteq> [] \<and> hd s \<noteq> CHR 0x00) \<longrightarrow> cps \<noteq> [0] \<or> pu_n_remain u \<noteq> 0)"
proof (induction s v n acc rule: decode_loop.induct)
  case (2 c cs v n acc)
  show ?case
  proof (cases "c = CHR 0x00 \<or> utf8_lookup ! highbits c = 0")
    case True
    with "2.prems" show ?thesis by (auto split: if_splits)
  next
    case False
    define k where "k = utf8_lookup ! highbits c - 1"
    obtain v' n' cs' where f: "finish cs (first_bits (7 - k) c) k = (v', n', cs')"
      by (cases "finish cs (first_bits (7 - k) c) k")
    have "decode_loop cs' v' (int n') (if n' = 0 then acc @ [v'] else acc) = (cps, u)"
      using "2.prems" False f
      by (simp only: decode_loop.simps k_def [symmetric] Let_def prod.case if_False de_Morgan_disj)
    from "2.IH" [OF _ _ k_def f [symmetric] refl refl this] False show ?thesis by auto
  qed
qed auto

lemma decode_utf8_shape:
  assumes "decode_utf8 s p = (cps, u)"
  shows "\<exists>ws. cps = ws @ [0]" and "s \<noteq> [] \<Longrightarrow> hd s \<noteq> CHR 0x00 \<Longrightarrow> cps \<noteq> [0] \<or> pu_n_remain u \<noteq> 0"
proof -
  have "(\<exists>ws. cps = ws @ [0]) \<and> (s \<noteq> [] \<and> hd s \<noteq> CHR 0x00 \<longrightarrow> cps \<noteq> [0] \<or> pu_n_remain u \<noteq> 0)"
  proof (cases "0 < pu_n_remain p")
    case True
    show ?thesis
    proof (cases "resume s (pu_value p) (nat (pu_n_remain p))")
      case None
      with True assms show ?thesis by (auto simp: decode_utf8_def)
    next
      case (Some r)
      obtain v n cs where r: "r = (v, n, cs)" by (cases r)
      have "decode_loop cs v (int n) (if n = 0 then [v] else []) = (cps, u)"
        using assms True Some by (simp add: decode_utf8_def r)
      from decode_loop_shape [OF this] show ?thesis by auto
    qed
  next
    case False
    with assms decode_loop_shape show ?thesis by (auto simp: decode_utf8_def)
  qed
  then show "\<exists>ws. cps = ws @ [0]" "s \<noteq> [] \<Longrightarrow> hd s \<noteq> CHR 0x00 \<Longrightarrow> cps \<noteq> [0] \<or> pu_n_remain u \<noteq> 0" by blast+
qed

section \<open>Accepting a token\<close>

definition grammar_inv :: "grammar \<Rightarrow> bool" where
  "grammar_inv g \<longleftrightarrow> rules_ok (g_rules g) \<and> no_left_recursion (g_rules g) \<and> stacks_ok (g_rules g) (g_stacks g) \<and> g_stacks g \<noteq> []"

lemma grammar_invD:
  assumes "grammar_inv g"
  shows "rules_ok (g_rules g)" "left_free (g_rules g)" "stacks_ok (g_rules g) (g_stacks g)" "g_stacks g \<noteq> []"
  using assms no_left_recursion_free by (auto simp: grammar_inv_def)

lemma accept_token_viable:
  assumes inv: "grammar_inv g" "no_tokens (g_rules g)" and dec: "decode_utf8 piece (g_partial g) = (cps, u)"
    and st: "st \<in> set (g_stacks g)" "viable (g_rules g) token u st (butlast cps)"
    and piece: "piece \<noteq> []" "hd piece \<noteq> CHR 0x00"
  obtains g' where "accept_token g token piece = Some g'" "grammar_inv g'" "g_rules g' = g_rules g"
proof -
  note ok = grammar_invD [OF inv(1)]
  obtain ws where ws: "cps = ws @ [0]" using decode_utf8_shape(1) [OF dec] by blast
  have stne: "st \<noteq> []"
  proof
    assume "st = []"
    with st(2) ws have "ws = [] \<and> pu_n_remain u = 0" by (cases ws) (auto simp: successors_def)
    with decode_utf8_shape(2) [OF dec piece] ws show False by simp
  qed
  have "\<forall>st \<in> set (g_stacks g). \<exists>S. token_stacks (g_rules g) token ws st S"
    using token_stacks_exists [OF ok(1,2) inv(2)] ok(3) by (simp add: stacks_ok_def)
  then obtain S where S: "\<And>st. st \<in> set (g_stacks g) \<Longrightarrow> token_stacks (g_rules g) token ws st (S st)" by metis
  obtain new where new: "foldo (accept_token_stack (g_rules g) token ws) (g_stacks g) [] = Some new"
    using foldo_total [of "g_stacks g" "accept_token_stack (g_rules g) token ws" "[]"] S
    unfolding token_stacks_def by blast
  have step: "set n1 = set n0 \<union> S st" if "st \<in> set (g_stacks g)" "accept_token_stack (g_rules g) token ws st n0 = Some n1" for st n0 n1
    using S [OF that(1)] that(2) unfolding token_stacks_def by (metis option.inject)
  have eq: "set new = (\<Union>st \<in> set (g_stacks g). S st)" using foldo_union [OF new step] by simp
  have "stacks_ok (g_rules g) new" using S by (auto simp: stacks_ok_def eq token_stacks_def)
  moreover have "S st \<noteq> {}" using S [OF st(1)] st(2) stne ws by (auto simp: token_stacks_def)
  then have "new \<noteq> []" using eq st(1) by auto
  moreover from this have "accept_token g token piece = Some (g\<lparr>g_stacks := new, g_partial := u\<rparr>)"
    using new ws by (simp add: accept_token_def dec)
  ultimately show ?thesis using that inv(1) by (simp add: grammar_inv_def)
qed

section \<open>Masking\<close>

text \<open>The candidate that \<open>apply_impl\<close> makes of a token.\<close>

definition candidate_of :: "grammar \<Rightarrow> nat \<Rightarrow> int \<Rightarrow> string \<Rightarrow> grammar_candidate" where
  "candidate_of g i token piece =
     \<lparr>c_index = i, c_code_points = fst (decode_utf8 piece (g_partial g)), c_off = 0,
      c_partial = snd (decode_utf8 piece (g_partial g)), c_id = token\<rparr>"

text \<open>A token the vocabulary knows, whose piece has no code point zero (an overlong encoding).\<close>

definition known_token :: "grammar \<Rightarrow> int \<Rightarrow> bool" where
  "known_token g token \<longleftrightarrow> (\<exists>piece eog. g_piece g token = Some piece \<and> g_is_eog g token = Some eog
     \<and> 0 \<notin> set (butlast (fst (decode_utf8 piece (g_partial g)))))"

text \<open>Why a token is left alone by the first loop: it may end the text, or it is a candidate.\<close>

definition passed :: "grammar \<Rightarrow> grammar_candidate list \<Rightarrow> nat \<Rightarrow> int \<Rightarrow> bool" where
  "passed g cands i token \<longleftrightarrow> (g_is_eog g token = Some True \<and> [] \<in> set (g_stacks g))
     \<or> (\<exists>piece. g_is_eog g token = Some False \<and> g_piece g token = Some piece \<and> piece \<noteq> [] \<and> hd piece \<noteq> CHR 0x00
          \<and> candidate_of g i token piece \<in> set cands)"

lemma apply_collect_loop:
  assumes "\<forall>d \<in> set cur. known_token g (td_id d)"
  obtains cur1 cands where "foldo (apply_collect neg_inf g ([] \<in> set (g_stacks g))) [0..<length cur] (cur, []) = Some (cur1, cands)"
    and "length cur1 = length cur" "\<And>i. i < length cur \<Longrightarrow> td_id (cur1 ! i) = td_id (cur ! i)" "\<forall>tok \<in> set cands. cand_ok tok"
    and "\<And>i. i < length cur \<Longrightarrow> td_logit (cur1 ! i) \<noteq> neg_inf \<Longrightarrow> passed g cands i (td_id (cur ! i))"
proof -
  define P where "P = (\<lambda>k (acc :: 'a token_data list \<times> grammar_candidate list). length (fst acc) = length cur
     \<and> (\<forall>i < length cur. td_id (fst acc ! i) = td_id (cur ! i)) \<and> (\<forall>tok \<in> set (snd acc). cand_ok tok)
     \<and> (\<forall>i < k. td_logit (fst acc ! i) \<noteq> neg_inf \<longrightarrow> passed g (snd acc) i (td_id (cur ! i))))"
  have more: "passed g cands i t \<Longrightarrow> passed g (cands @ cs) i t" for cands cs i t by (auto simp: passed_def)
  have step: "\<exists>acc'. apply_collect neg_inf g ([] \<in> set (g_stacks g)) i acc = Some acc' \<and> P (Suc i) acc'"
    if i: "i < length cur" and acc: "P i acc" for i acc
  proof -
    obtain c cands where a: "acc = (c, cands)" by (cases acc)
    define token where "token = td_id (cur ! i)"
    have c: "i < length c" "td_id (c ! i) = token" using acc i by (auto simp: P_def a token_def)
    obtain piece eog where t: "g_piece g token = Some piece" "g_is_eog g token = Some eog"
        "0 \<notin> set (butlast (fst (decode_utf8 piece (g_partial g))))"
    proof -
      have "known_token g token" using assms i by (simp add: token_def)
      then show ?thesis using that by (auto simp: known_token_def)
    qed
    obtain ws u where dec: "decode_utf8 piece (g_partial g) = (ws @ [0], u)"
      using decode_utf8_shape(1) by (cases "decode_utf8 piece (g_partial g)") metis
    have cok: "cand_ok (candidate_of g i token piece)" using t(3) dec by (auto simp: cand_ok_def candidate_of_def)
    consider (masked) "apply_collect neg_inf g ([] \<in> set (g_stacks g)) i acc = Some (mask_logit neg_inf i c, cands)"
      | (eog) "apply_collect neg_inf g ([] \<in> set (g_stacks g)) i acc = Some (c, cands)" "passed g cands i token"
      | (cand) "apply_collect neg_inf g ([] \<in> set (g_stacks g)) i acc = Some (c, cands @ [candidate_of g i token piece])"
          "passed g (cands @ [candidate_of g i token piece]) i token"
      using c t dec by (cases eog; cases "[] \<in> set (g_stacks g)"; cases "piece = [] \<or> hd piece = CHR 0x00")
        (auto simp: apply_collect_def a passed_def candidate_of_def)
    then show ?thesis
    proof cases
      case masked
      then show ?thesis using acc c by (auto simp: P_def a mask_logit_def nth_upd less_Suc_eq)
    next
      case eog
      then show ?thesis using acc by (auto simp: P_def a token_def less_Suc_eq)
    next
      case cand
      then show ?thesis using acc more cok by (auto simp: P_def a token_def less_Suc_eq)
    qed
  qed
  have init: "P 0 (cur, [])" by (simp add: P_def)
  obtain acc where "foldo (apply_collect neg_inf g ([] \<in> set (g_stacks g))) [0..<length cur] (cur, []) = Some acc" "P (length cur) acc"
    using foldo_upt_invariant [where P = P and n = "length cur" and
        f = "apply_collect neg_inf g ([] \<in> set (g_stacks g))", OF init step] by blast
  then show ?thesis using that [of "fst acc" "snd acc"] by (simp add: P_def)
qed

lemma mask_rejects:
  "i < length cur \<Longrightarrow> td_logit (fold (\<lambda>r. mask_logit neg_inf (c_index r)) rej cur ! i) \<noteq> neg_inf
     \<Longrightarrow> td_logit (cur ! i) \<noteq> neg_inf \<and> i \<notin> c_index ` set rej"
proof (induction rej arbitrary: cur)
  case (Cons r rej)
  from Cons.prems Cons.IH [of "mask_logit neg_inf (c_index r) cur"]
  have "td_logit (mask_logit neg_inf (c_index r) cur ! i) \<noteq> neg_inf" "i \<notin> c_index ` set rej"
    by (auto simp: mask_logit_def)
  with Cons.prems(1) show ?case by (auto simp: mask_logit_def nth_upd split: if_splits)
qed simp

lemma length_mask_rejects: "length (fold (\<lambda>r. mask_logit neg_inf (c_index r)) rej cur) = length cur"
  by (induction rej arbitrary: cur) (auto simp: mask_logit_def)

lemma passed_accepted:
  assumes inv: "grammar_inv g" "no_tokens (g_rules g)" "\<not> g_awaiting_trigger g" "known_token g token"
    and p: "passed g cands i token"
    and rej: "set rej = {tok \<in> set cands. \<forall>st \<in> set (g_stacks g). \<not> survives (g_rules g) st tok}" "i \<notin> c_index ` set rej"
  shows "\<exists>g'. accept_impl regex_match g token = Some g' \<and> grammar_inv g'"
proof -
  from p consider "g_is_eog g token = Some True" "[] \<in> set (g_stacks g)"
    | piece where "g_is_eog g token = Some False" "g_piece g token = Some piece" "piece \<noteq> []" "hd piece \<noteq> CHR 0x00"
        "candidate_of g i token piece \<in> set cands"
    by (auto simp: passed_def)
  then show ?thesis
  proof cases
    case 1
    then show ?thesis using inv(1,3,4) by (auto simp: accept_impl_def known_token_def)
  next
    case (2 piece)
    have "candidate_of g i token piece \<notin> set rej" using rej(2) by (force simp: candidate_of_def)
    then obtain st where st: "st \<in> set (g_stacks g)" "survives (g_rules g) st (candidate_of g i token piece)"
      using rej(1) 2(5) by blast
    obtain cps u where dec: "decode_utf8 piece (g_partial g) = (cps, u)" by (cases "decode_utf8 piece (g_partial g)")
    have "viable (g_rules g) token u st (butlast cps)" using st(2) by (simp add: survives_def candidate_of_def cand_rest_def dec)
    from accept_token_viable [OF inv(1,2) dec st(1) this 2(3,4)] show ?thesis
      using 2(1,2) inv(3) by (auto simp: accept_impl_def)
  qed
qed

text \<open>
  C30 (safety): for a grammar without token elements (nor left recursion) that waits for no trigger, and
  tokens with known pieces that hold no zero character inside, masking the logits returns, and a token whose logit is
  not masked afterwards is accepted without an exception or an abort, after which the grammar can again
  be asked. (With token elements an unmasked token may throw.)
\<close>

theorem unmasked_accepted:
  assumes "grammar_inv g" "no_tokens (g_rules g)" "\<not> g_awaiting_trigger g" "\<forall>d \<in> set cur. known_token g (td_id d)"
  shows "\<exists>cur'. apply_impl neg_inf g cur = Some cur' \<and> length cur' = length cur
     \<and> (\<forall>i < length cur. td_logit (cur' ! i) \<noteq> neg_inf \<longrightarrow>
          (\<exists>g'. accept_impl regex_match g (td_id (cur ! i)) = Some g' \<and> grammar_inv g'))"
proof -
  note ok = grammar_invD [OF assms(1)]
  obtain cur1 cands where c: "foldo (apply_collect neg_inf g ([] \<in> set (g_stacks g))) [0..<length cur] (cur, []) = Some (cur1, cands)"
      "length cur1 = length cur" "\<forall>tok \<in> set cands. cand_ok tok"
      "\<And>i. i < length cur \<Longrightarrow> td_logit (cur1 ! i) \<noteq> neg_inf \<Longrightarrow> passed g cands i (td_id (cur ! i))"
    using apply_collect_loop [OF assms(4), of neg_inf] by metis
  obtain rej where rej: "reject_candidates (g_rules g) (g_stacks g) cands = Some rej"
      "set rej = {tok \<in> set cands. \<forall>st \<in> set (g_stacks g). \<not> survives (g_rules g) st tok}"
    using reject_candidates_exact [OF ok(1-4) c(3)] by blast
  define cur' where "cur' = fold (\<lambda>r. mask_logit neg_inf (c_index r)) rej cur1"
  have "apply_impl neg_inf g cur = Some cur'" using assms(3) c(1) rej(1) by (simp add: apply_impl_def cur'_def)
  moreover have "length cur' = length cur" by (simp add: cur'_def length_mask_rejects c(2))
  moreover have "\<exists>g'. accept_impl regex_match g (td_id (cur ! i)) = Some g' \<and> grammar_inv g'"
    if i: "i < length cur" "td_logit (cur' ! i) \<noteq> neg_inf" for i
  proof -
    have m: "td_logit (cur1 ! i) \<noteq> neg_inf" "i \<notin> c_index ` set rej"
      using mask_rejects [of i cur1 neg_inf rej] i c(2) by (auto simp: cur'_def)
    then show ?thesis using passed_accepted [OF assms(1-3) _ c(4) [OF i(1) m(1)] rej(2) m(2)] assms(4) i(1) by simp
  qed
  ultimately show ?thesis by blast
qed

text \<open>Tokens \<open>1\<close>: \<open>a\<close>, \<open>2\<close>: \<open>b\<close>, \<open>3\<close>: the end of generation.\<close>

definition demo_grammar :: grammar where
  "demo_grammar = grammar_of None (Some \<lparr>ov_pieces = [1 \<mapsto> ''a'', 2 \<mapsto> ''b'', 3 \<mapsto> []], ov_eog = {3}\<rparr>)
     demo_rules [[(1, 0), (0, 1)], [(0, 1)]] False [] []"

lemma demo_grammar_inv: "grammar_inv demo_grammar"
  using demo_rules_ok demo_rules_free
  by (auto simp: grammar_inv_def demo_grammar_def grammar_of_def stacks_ok_def expanded_def pos_ok_def is_terminal_def
      is_end_of_sequence_def elem_at_def demo_rules_def)

lemma demo_known: "t \<in> {1, 2, 3} \<Longrightarrow> known_token demo_grammar t"
proof -
  have "decode_utf8 ''a'' \<lparr>pu_value = 0, pu_n_remain = 0\<rparr> = ([0x61, 0], \<lparr>pu_value = 0x61, pu_n_remain = 0\<rparr>)"
    "decode_utf8 ''b'' \<lparr>pu_value = 0, pu_n_remain = 0\<rparr> = ([0x62, 0], \<lparr>pu_value = 0x62, pu_n_remain = 0\<rparr>)"
    "decode_utf8 [] \<lparr>pu_value = 0, pu_n_remain = 0\<rparr> = ([0], \<lparr>pu_value = 0, pu_n_remain = 0\<rparr>)"
    by (simp_all add: decode_utf8_def utf8_lookup_def highbits_def byte_of_def first_bits_def)
  then show "t \<in> {1, 2, 3} \<Longrightarrow> known_token demo_grammar t"
    by (auto simp: known_token_def demo_grammar_def grammar_of_def g_piece_def g_is_eog_def ov_token_to_piece_def ov_is_eog_def)
qed

abbreviation demo_logits :: "int option token_data list" where
  "demo_logits \<equiv> map (\<lambda>t. \<lparr>td_id = t, td_logit = Some 0\<rparr>) [1, 2, 3]"

theorem unmasked_accepted_witness:
  "\<exists>cur'. apply_impl None demo_grammar demo_logits = Some cur' \<and> length cur' = length demo_logits
     \<and> (\<forall>i < length demo_logits. td_logit (cur' ! i) \<noteq> None \<longrightarrow>
          (\<exists>g'. accept_impl (\<lambda>_ _. None) demo_grammar (td_id (demo_logits ! i)) = Some g' \<and> grammar_inv g'))"
proof (rule unmasked_accepted [OF demo_grammar_inv])
  show "no_tokens (g_rules demo_grammar)" "\<not> g_awaiting_trigger demo_grammar"
    by (auto simp: no_tokens_def demo_grammar_def grammar_of_def demo_rules_def)
qed (use demo_known in auto)

text \<open>
  With token elements the agreement fails: in \<open>root ::= "a" <[5]>\<close> token \<open>5\<close> with the text \<open>ab\<close> is not
  masked, because the character \<open>a\<close> leads to the token element and only the identifier is compared
  there, but accepting it stops with an exception, because \<open>b\<close> is not accepted at a token element.
\<close>

definition demo_token_grammar :: grammar where
  "demo_token_grammar = grammar_of None (Some \<lparr>ov_pieces = [5 \<mapsto> ''ab''], ov_eog = {}\<rparr>)
     [[elem GRE_CHAR 0x61, elem GRE_TOKEN 5, elem GRE_END 0]] [[(0, 0)]] False [] []"

lemma token_inside_piece:
  "apply_impl None demo_token_grammar [\<lparr>td_id = 5, td_logit = Some (0 :: int)\<rparr>] = Some [\<lparr>td_id = 5, td_logit = Some 0\<rparr>]"
  "accept_impl regex_match demo_token_grammar 5 = None"
proof -
  show "apply_impl None demo_token_grammar [\<lparr>td_id = 5, td_logit = Some (0 :: int)\<rparr>] = Some [\<lparr>td_id = 5, td_logit = Some 0\<rparr>]"
    by code_simp
  show "accept_impl regex_match demo_token_grammar 5 = None" by code_simp
qed

end
