(* ===== verification/Grammar_Parser.thy ===== *)
theory Grammar_Parser
  imports Grammar "HOL-Library.AList"
begin

text \<open>
  The parser of grammar texts (\<open>llama_grammar_parser\<close> in \<open>llama-grammar.cpp\<close>). A C string is the list of
  its bytes up to the terminating zero, so a pointer into it is a suffix of that list and \<open>*pos\<close> is zero
  when the suffix is empty. Every \<open>throw\<close> is a value of \<open>parse_error\<close>. Nested alternates make the
  functions for sequences and alternates mutually recursive; they carry fuel, and \<^term>\<open>None\<close> means
  that it did not suffice.
\<close>

section \<open>Definitions\<close>

datatype parse_error =
    Expecting_hex | Expecting_name | Expecting_integer | Unknown_escape | Unexpected_end
  | Expecting_char char | No_vocab | Invalid_token | Expecting_preceding_item | Too_many_repetitions
  | Expecting_define | Expecting_newline | Undefined_rule | Undefined_rule_identifier string | Out_of_range

type_synonym 'a res = "parse_error + 'a"

definition res_bind :: "'a res \<Rightarrow> ('a \<Rightarrow> 'b res) \<Rightarrow> 'b res" where
  "res_bind r k = (case r of Inl e \<Rightarrow> Inl e | Inr x \<Rightarrow> k x)"

lemma res_bind_simps [simp]: "res_bind (Inl e) k = Inl e" "res_bind (Inr x) k = k x"
  by (simp_all add: res_bind_def)

lemma res_bind_Inr: "res_bind r k = Inr y \<longleftrightarrow> (\<exists>x. r = Inr x \<and> k x = Inr y)"
  by (cases r) auto

subsection \<open>Lexical elements\<close>

definition is_digit_char :: "char \<Rightarrow> bool" where
  "is_digit_char c \<longleftrightarrow> 0x30 \<le> (of_char c :: nat) \<and> (of_char c :: nat) \<le> 0x39"

definition is_word_char :: "char \<Rightarrow> bool" where
  "is_word_char c \<longleftrightarrow> (0x61 \<le> (of_char c :: nat) \<and> (of_char c :: nat) \<le> 0x7A)
     \<or> (0x41 \<le> (of_char c :: nat) \<and> (of_char c :: nat) \<le> 0x5A) \<or> c = CHR ''-'' \<or> is_digit_char c"

definition hex_digit :: "char \<Rightarrow> code_point option" where
  "hex_digit c = (let n = (of_char c :: nat) in
     if 0x61 \<le> n \<and> n \<le> 0x66 then Some (of_nat (n - 0x61 + 10))
     else if 0x41 \<le> n \<and> n \<le> 0x46 then Some (of_nat (n - 0x41 + 10))
     else if 0x30 \<le> n \<and> n \<le> 0x39 then Some (of_nat (n - 0x30))
     else None)"

fun parse_hex :: "nat \<Rightarrow> code_point \<Rightarrow> string \<Rightarrow> (code_point \<times> string) res" where
  "parse_hex 0 v cs = Inr (v, cs)"
| "parse_hex (Suc n) v [] = Inl Expecting_hex"
| "parse_hex (Suc n) v (c # cs) = (case hex_digit c of
     None \<Rightarrow> Inl Expecting_hex
   | Some d \<Rightarrow> parse_hex n (push_bit 4 v + d) cs)"

fun skip_comment :: "string \<Rightarrow> string" where
  "skip_comment [] = []"
| "skip_comment (c # cs) = (if c = CHR 0x0D \<or> c = CHR 0x0A then c # cs else skip_comment cs)"

lemma skip_comment_shorter: "length (skip_comment cs) \<le> length cs"
  by (induction cs) auto

function parse_space :: "bool \<Rightarrow> string \<Rightarrow> string" where
  "parse_space newline_ok [] = []"
| "parse_space newline_ok (c # cs) =
     (if c = CHR '' '' \<or> c = CHR 0x09 \<or> (newline_ok \<and> (c = CHR 0x0D \<or> c = CHR 0x0A)) then parse_space newline_ok cs
      else if c = CHR ''#'' then parse_space newline_ok (skip_comment cs)
      else c # cs)"
  by pat_completeness auto
termination
  by (relation "measure (\<lambda>(_, cs). length cs)") (auto simp: le_imp_less_Suc skip_comment_shorter)

definition parse_name :: "string \<Rightarrow> (string \<times> string) res" where
  "parse_name src = (if takeWhile is_word_char src = [] then Inl Expecting_name
     else Inr (takeWhile is_word_char src, dropWhile is_word_char src))"

definition parse_int :: "string \<Rightarrow> (string \<times> string) res" where
  "parse_int src = (if takeWhile is_digit_char src = [] then Inl Expecting_integer
     else Inr (takeWhile is_digit_char src, dropWhile is_digit_char src))"

text \<open>\<open>std::stoul\<close> on a nonempty string of digits; \<open>unsigned long\<close> has 64 bits.\<close>

definition stoul :: "string \<Rightarrow> 64 word res" where
  "stoul ds = (let n = foldl (\<lambda>a c. 10 * a + (of_char c - 0x30 :: int)) 0 ds in
     if n < 18446744073709551616 then Inr (word_of_int n) else Inl Out_of_range)"

definition parse_char :: "string \<Rightarrow> (code_point \<times> string) res" where
  "parse_char src =
     (case src of [] \<Rightarrow> Inl Unexpected_end
      | c # cs \<Rightarrow>
        if c = CHR 0x5C then
          (case cs of [] \<Rightarrow> Inl Unknown_escape
           | d # ds \<Rightarrow>
             if d = CHR ''x'' then parse_hex 2 0 ds
             else if d = CHR ''u'' then parse_hex 4 0 ds
             else if d = CHR ''U'' then parse_hex 8 0 ds
             else if d = CHR ''t'' then Inr (0x09, ds)
             else if d = CHR ''r'' then Inr (0x0D, ds)
             else if d = CHR ''n'' then Inr (0x0A, ds)
             else if d = CHR 0x5C \<or> d = CHR 0x22 \<or> d = CHR ''['' \<or> d = CHR '']'' then Inr (of_char d, ds)
             else Inl Unknown_escape)
        else (case decode_utf8_char src of None \<Rightarrow> Inl Unexpected_end | Some r \<Rightarrow> Inr r))"

definition expect :: "char \<Rightarrow> string \<Rightarrow> string res" where
  "expect c src = (case src of [] \<Rightarrow> Inl (Expecting_char c) | d # ds \<Rightarrow> if d = c then Inr ds else Inl (Expecting_char c))"

text \<open>A name in angle brackets must be exactly one token of the vocabulary.\<close>

definition single_token :: "int list \<Rightarrow> 32 word res" where
  "single_token ts = (case ts of [t] \<Rightarrow> Inr (word_of_int t) | _ \<Rightarrow> Inl Invalid_token)"

definition parse_token :: "llama_vocab option \<Rightarrow> string \<Rightarrow> (32 word \<times> string) res" where
  "parse_token vocab src =
     res_bind (expect (CHR ''<'') src) (\<lambda>pos.
       if pos \<noteq> [] \<and> hd pos = CHR ''['' then
         res_bind (parse_int (tl pos)) (\<lambda>(digits, pos).
         res_bind (stoul digits) (\<lambda>token_id.
         res_bind (expect (CHR '']'') pos) (\<lambda>pos.
         res_bind (expect (CHR ''>'') pos) (\<lambda>pos.
           Inr (ucast token_id, pos)))))
       else (case vocab of None \<Rightarrow> Inl No_vocab
         | Some v \<Rightarrow>
           res_bind (expect (CHR ''>'') (dropWhile (\<lambda>c. c \<noteq> CHR ''>'') pos)) (\<lambda>rest.
           res_bind (single_token (lv_tokenize v (take (length src - length rest) src))) (\<lambda>t. Inr (t, rest)))))"

subsection \<open>Symbols and rules\<close>

record grammar_parser =
  ps_vocab :: "llama_vocab option"
  ps_symbol_ids :: "(string \<times> 32 word) list"
  ps_rules :: grammar_rules

text \<open>\<open>std::to_string\<close>\<close>

fun to_string :: "nat \<Rightarrow> string" where
  "to_string n = (if n < 10 then [] else to_string (n div 10)) @ [char_of (0x30 + n mod 10)]"

declare to_string.simps [simp del]

definition next_id :: "grammar_parser \<Rightarrow> 32 word" where
  "next_id ps = of_nat (length (ps_symbol_ids ps))"

definition get_symbol_id :: "string \<Rightarrow> grammar_parser \<Rightarrow> 32 word \<times> grammar_parser" where
  "get_symbol_id name ps = (case map_of (ps_symbol_ids ps) name of
     Some i \<Rightarrow> (i, ps)
   | None \<Rightarrow> (next_id ps, ps\<lparr>ps_symbol_ids := AList.update name (next_id ps) (ps_symbol_ids ps)\<rparr>))"

definition generate_symbol_id :: "string \<Rightarrow> grammar_parser \<Rightarrow> 32 word \<times> grammar_parser" where
  "generate_symbol_id base_name ps =
     (next_id ps, ps\<lparr>ps_symbol_ids :=
        AList.update (base_name @ ''_'' @ to_string (unat (next_id ps))) (next_id ps) (ps_symbol_ids ps)\<rparr>)"

text \<open>\<open>rule_id + 1\<close> is computed in \<open>uint32_t\<close>.\<close>

definition add_rule :: "32 word \<Rightarrow> grammar_rule \<Rightarrow> grammar_parser \<Rightarrow> grammar_parser" where
  "add_rule rule_id rule ps =
     (let rules = (if length (ps_rules ps) \<le> unat rule_id then vec_resize (unat (rule_id + 1)) [] (ps_rules ps) else ps_rules ps)
      in ps\<lparr>ps_rules := rules[unat rule_id := rule]\<rparr>)"

subsection \<open>Repetitions\<close>

definition UINT64_MAX :: "64 word" where "UINT64_MAX = - 1"

definition MAX_REPETITION_THRESHOLD :: "64 word" where "MAX_REPETITION_THRESHOLD = 2000"

text \<open>The number of optional repetitions, a difference of \<open>uint64_t\<close>, which wraps around.\<close>

definition n_opt :: "64 word \<Rightarrow> 64 word \<Rightarrow> nat" where
  "n_opt min_times max_times = (if max_times = UINT64_MAX then 1 else unat (max_times - min_times))"

definition rec_rule :: "grammar_rule \<Rightarrow> bool \<Rightarrow> bool \<Rightarrow> 32 word \<Rightarrow> 32 word \<Rightarrow> grammar_rule" where
  "rec_rule prev first no_max rec_rule_id last_rec_rule_id =
     prev @ (if \<not> first \<or> no_max then [elem GRE_RULE_REF (if no_max then rec_rule_id else last_rec_rule_id)] else [])
     @ [elem GRE_ALT 0, elem GRE_END 0]"

fun repeat_rules :: "nat \<Rightarrow> bool \<Rightarrow> string \<Rightarrow> grammar_rule \<Rightarrow> bool \<Rightarrow> 32 word \<Rightarrow> grammar_parser \<Rightarrow> 32 word \<times> grammar_parser" where
  "repeat_rules 0 first name prev no_max last_id ps = (last_id, ps)"
| "repeat_rules (Suc n) first name prev no_max last_id ps =
     (let (rec_rule_id, ps) = generate_symbol_id name ps;
          ps = add_rule rec_rule_id (rec_rule prev first no_max rec_rule_id last_id) ps
      in repeat_rules n False name prev no_max rec_rule_id ps)"

definition handle_repetitions :: "string \<Rightarrow> 64 word \<Rightarrow> 64 word \<Rightarrow> grammar_rule \<Rightarrow> nat \<Rightarrow> grammar_parser \<Rightarrow> (grammar_rule \<times> grammar_parser) res" where
  "handle_repetitions name min_times max_times rule last_sym_start ps =
     (if last_sym_start = length rule then Inl Expecting_preceding_item
      else
        let prev = drop last_sym_start rule;
            rule = (if min_times = 0 then take last_sym_start rule else rule @ concat (replicate (unat min_times - 1) prev));
            n = n_opt min_times max_times;
            (last_id, ps) = repeat_rules n True name prev (max_times = UINT64_MAX) 0 ps
        in Inr (if 0 < n then rule @ [elem GRE_RULE_REF last_id] else rule, ps))"

text \<open>The bounds in braces, and the check of their size.\<close>

definition parse_max_times :: "bool \<Rightarrow> 64 word \<Rightarrow> string \<Rightarrow> (64 word \<times> string) res" where
  "parse_max_times is_nested min_times pos =
     (if pos \<noteq> [] \<and> hd pos = CHR ''}'' then Inr (min_times, parse_space is_nested (tl pos))
      else if pos \<noteq> [] \<and> hd pos = CHR '','' then
        (let pos = parse_space is_nested (tl pos) in
         res_bind
           (if pos \<noteq> [] \<and> is_digit_char (hd pos) then
              res_bind (parse_int pos) (\<lambda>(digits, pos).
              res_bind (stoul digits) (\<lambda>max_times. Inr (max_times, parse_space is_nested pos)))
            else Inr (UINT64_MAX, pos)) (\<lambda>(max_times, pos).
         res_bind (expect (CHR ''}'') pos) (\<lambda>pos. Inr (max_times, parse_space is_nested pos))))
      else Inl (Expecting_char (CHR '','')))"

definition parse_bounds :: "bool \<Rightarrow> string \<Rightarrow> (64 word \<times> 64 word \<times> string) res" where
  "parse_bounds is_nested src =
     res_bind (parse_int src) (\<lambda>(digits, pos).
     res_bind (stoul digits) (\<lambda>min_times.
     res_bind (parse_max_times is_nested min_times (parse_space is_nested pos)) (\<lambda>(max_times, pos).
       if MAX_REPETITION_THRESHOLD < min_times \<or> (max_times \<noteq> UINT64_MAX \<and> MAX_REPETITION_THRESHOLD < max_times)
       then Inl Too_many_repetitions
       else Inr (min_times, max_times, pos))))"

subsection \<open>Literals and character ranges\<close>

lemma decode_rest_shorter: "length (snd (decode_rest n v cs)) \<le> length cs"
  by (induction n v cs rule: decode_rest.induct) auto

lemma parse_hex_shorter: "parse_hex n v cs = Inr (w, rest) \<Longrightarrow> length rest \<le> length cs"
  by (induction n v cs rule: parse_hex.induct) (auto split: option.splits)

lemma parse_char_shorter: "parse_char src = Inr (v, rest) \<Longrightarrow> length rest < length src"
proof (cases src)
  case (Cons c cs)
  assume p: "parse_char src = Inr (v, rest)"
  show ?thesis
  proof (cases "c = CHR 0x5C")
    case True
    with p Cons show ?thesis by (auto simp: parse_char_def less_Suc_eq_le split: list.splits if_splits dest!: parse_hex_shorter)
  next
    case False
    with p Cons obtain n w where "decode_rest n w cs = (v, rest)" by (auto simp: parse_char_def decode_utf8_char_def Let_def)
    then show ?thesis using decode_rest_shorter [of n w cs] Cons by simp
  qed
qed (simp add: parse_char_def)

function parse_literal :: "string \<Rightarrow> grammar_rule \<Rightarrow> (string \<times> grammar_rule) res" where
  "parse_literal pos rule =
     (if pos = [] then Inl Unexpected_end
      else if hd pos = CHR 0x22 then Inr (tl pos, rule)
      else (case parse_char pos of
          Inl err \<Rightarrow> Inl err
        | Inr (v, pos') \<Rightarrow> parse_literal pos' (rule @ [elem GRE_CHAR v])))"
  by pat_completeness auto
termination by (relation "measure (\<lambda>(pos, _). length pos)") (auto dest: parse_char_shorter)

declare parse_literal.simps [simp del]

definition parse_range_end :: "string \<Rightarrow> grammar_rule \<Rightarrow> (string \<times> grammar_rule) res" where
  "parse_range_end pos rule =
     (if pos \<noteq> [] \<and> hd pos = CHR ''-'' \<and> \<not> (tl pos \<noteq> [] \<and> hd (tl pos) = CHR '']'') then
        (if tl pos = [] then Inl Unexpected_end
         else res_bind (parse_char (tl pos)) (\<lambda>(v, pos). Inr (pos, rule @ [elem GRE_CHAR_RNG_UPPER v])))
      else Inr (pos, rule))"

lemma parse_range_end_shorter: "parse_range_end pos rule = Inr (pos', rule') \<Longrightarrow> length pos' \<le> length pos"
  by (cases pos) (auto simp: parse_range_end_def res_bind_Inr split: if_splits dest!: parse_char_shorter)

function parse_range :: "gretype \<Rightarrow> nat \<Rightarrow> string \<Rightarrow> grammar_rule \<Rightarrow> (string \<times> grammar_rule) res" where
  "parse_range start_type last_sym_start pos rule =
     (if pos = [] then Inl Unexpected_end
      else if hd pos = CHR '']'' then Inr (tl pos, rule)
      else (case parse_char pos of
          Inl err \<Rightarrow> Inl err
        | Inr (v, pos') \<Rightarrow>
          (case parse_range_end pos' (rule @ [elem (if last_sym_start < length rule then GRE_CHAR_ALT else start_type) v]) of
            Inl err \<Rightarrow> Inl err
          | Inr (pos'', rule') \<Rightarrow> parse_range start_type last_sym_start pos'' rule')))"
  by pat_completeness auto
termination
  by (relation "measure (\<lambda>(_, _, pos, _). length pos)") (auto dest!: parse_char_shorter parse_range_end_shorter)

declare parse_range.simps [simp del]

subsection \<open>Sequences and alternates\<close>

text \<open>
  One pass of the loop of \<open>parse_sequence\<close> other than a group: the new position, parser, rule and
  \<open>last_sym_start\<close>, or \<^term>\<open>None\<close> where the loop ends.
\<close>

type_synonym seq_state = "string \<times> grammar_parser \<times> grammar_rule \<times> nat"

definition seq_repeat :: "string \<Rightarrow> 64 word \<Rightarrow> 64 word \<Rightarrow> string \<Rightarrow> grammar_parser \<Rightarrow> grammar_rule \<Rightarrow> nat \<Rightarrow> seq_state option res" where
  "seq_repeat name min_times max_times pos ps rule last_sym_start =
     res_bind (handle_repetitions name min_times max_times rule last_sym_start ps) (\<lambda>(rule, ps).
       Inr (Some (pos, ps, rule, last_sym_start)))"

definition seq_item :: "string \<Rightarrow> bool \<Rightarrow> seq_state \<Rightarrow> seq_state option res" where
  "seq_item name is_nested st = (case st of (pos, ps, rule, last_sym_start) \<Rightarrow>
     (case pos of [] \<Rightarrow> Inr None
      | c # cs \<Rightarrow>
        if c = CHR 0x22 then
          res_bind (parse_literal cs rule) (\<lambda>(pos, rule').
            Inr (Some (parse_space is_nested pos, ps, rule', length rule)))
        else if c = CHR ''['' then
          (let neg = (cs \<noteq> [] \<and> hd cs = CHR ''^'') in
           res_bind (parse_range (if neg then GRE_CHAR_NOT else GRE_CHAR) (length rule) (if neg then tl cs else cs) rule)
             (\<lambda>(pos, rule'). Inr (Some (parse_space is_nested pos, ps, rule', length rule))))
        else if c = CHR ''<'' \<or> c = CHR ''!'' then
          res_bind (parse_token (ps_vocab ps) (if c = CHR ''!'' then cs else pos)) (\<lambda>(t, pos).
            Inr (Some (parse_space is_nested pos, ps,
              rule @ [elem (if c = CHR ''!'' then GRE_TOKEN_NOT else GRE_TOKEN) t], length rule)))
        else if is_word_char c then
          res_bind (parse_name pos) (\<lambda>(ref, pos).
            let (ref_rule_id, ps) = get_symbol_id ref ps in
            Inr (Some (parse_space is_nested pos, ps, rule @ [elem GRE_RULE_REF ref_rule_id], length rule)))
        else if c = CHR ''.'' then
          Inr (Some (parse_space is_nested cs, ps, rule @ [elem GRE_CHAR_ANY 0], length rule))
        else if c = CHR ''*'' then seq_repeat name 0 UINT64_MAX (parse_space is_nested cs) ps rule last_sym_start
        else if c = CHR ''+'' then seq_repeat name 1 UINT64_MAX (parse_space is_nested cs) ps rule last_sym_start
        else if c = CHR ''?'' then seq_repeat name 0 1 (parse_space is_nested cs) ps rule last_sym_start
        else if c = CHR ''{'' then
          res_bind (parse_bounds is_nested (parse_space is_nested cs)) (\<lambda>(min_times, max_times, pos).
            seq_repeat name min_times max_times pos ps rule last_sym_start)
        else Inr None))"

definition fuel_bind :: "'a res option \<Rightarrow> ('a \<Rightarrow> 'b res option) \<Rightarrow> 'b res option" where
  "fuel_bind r k = Option.bind r (\<lambda>x. case x of Inl e \<Rightarrow> Some (Inl e) | Inr y \<Rightarrow> k y)"

lemma fuel_bind_simps [simp]:
  "fuel_bind None k = None" "fuel_bind (Some (Inl e)) k = Some (Inl e)" "fuel_bind (Some (Inr y)) k = k y"
  by (simp_all add: fuel_bind_def)

function (sequential) parse_sequence :: "nat \<Rightarrow> string \<Rightarrow> bool \<Rightarrow> seq_state \<Rightarrow> (string \<times> grammar_parser \<times> grammar_rule) res option"
  and parse_alternates :: "nat \<Rightarrow> string \<Rightarrow> 32 word \<Rightarrow> bool \<Rightarrow> string \<Rightarrow> grammar_parser \<Rightarrow> (string \<times> grammar_parser) res option"
  and parse_more_alternates :: "nat \<Rightarrow> string \<Rightarrow> 32 word \<Rightarrow> bool \<Rightarrow> string \<Rightarrow> grammar_parser \<Rightarrow> grammar_rule \<Rightarrow> (string \<times> grammar_parser) res option"
where
  "parse_sequence 0 name is_nested st = None"
| "parse_sequence (Suc n) name is_nested st = (case st of (pos, ps, rule, last_sym_start) \<Rightarrow>
      if pos \<noteq> [] \<and> hd pos = CHR ''('' then
        (let (sub_rule_id, ps1) = generate_symbol_id name ps in
         fuel_bind (parse_alternates n name sub_rule_id True (parse_space True (tl pos)) ps1) (\<lambda>(pos2, ps2).
         fuel_bind (Some (expect (CHR '')'') pos2)) (\<lambda>pos3.
           parse_sequence n name is_nested
             (parse_space is_nested pos3, ps2, rule @ [elem GRE_RULE_REF sub_rule_id], length rule))))
      else
        fuel_bind (Some (seq_item name is_nested (pos, ps, rule, last_sym_start))) (\<lambda>next.
          case next of None \<Rightarrow> Some (Inr (pos, ps, rule))
          | Some st \<Rightarrow> parse_sequence n name is_nested st))"
| "parse_alternates 0 name rule_id is_nested src ps = None"
| "parse_alternates (Suc n) name rule_id is_nested src ps =
     fuel_bind (parse_sequence n name is_nested (src, ps, [], 0)) (\<lambda>(pos, ps, rule).
       parse_more_alternates n name rule_id is_nested pos ps rule)"
| "parse_more_alternates 0 name rule_id is_nested pos ps rule = None"
| "parse_more_alternates (Suc n) name rule_id is_nested pos ps rule =
     (if pos \<noteq> [] \<and> hd pos = CHR ''|'' then
        fuel_bind (parse_sequence n name is_nested
            (parse_space True (tl pos), ps, rule @ [elem GRE_ALT 0], length rule + 1)) (\<lambda>(pos, ps, rule).
          parse_more_alternates n name rule_id is_nested pos ps rule)
      else Some (Inr (pos, add_rule rule_id (rule @ [elem GRE_END 0]) ps)))"
  by pat_completeness auto
termination
  by (relation "measure (\<lambda>x. case x of Inl (n, _) \<Rightarrow> n | Inr (Inl (n, _)) \<Rightarrow> n | Inr (Inr (n, _)) \<Rightarrow> n)") simp_all

declare parse_sequence.simps [simp del] parse_alternates.simps [simp del] parse_more_alternates.simps [simp del]

subsection \<open>Rules\<close>

definition parse_define :: "string \<Rightarrow> string res" where
  "parse_define pos = (if take 3 pos = ''::='' then Inr (drop 3 pos) else Inl Expecting_define)"

definition parse_newline :: "string \<Rightarrow> string res" where
  "parse_newline pos = (case pos of [] \<Rightarrow> Inr []
     | c # cs \<Rightarrow>
       if c = CHR 0x0D then Inr (if cs \<noteq> [] \<and> hd cs = CHR 0x0A then tl cs else cs)
       else if c = CHR 0x0A then Inr cs
       else Inl Expecting_newline)"

definition parse_rule :: "nat \<Rightarrow> string \<Rightarrow> grammar_parser \<Rightarrow> (string \<times> grammar_parser) res option" where
  "parse_rule n src ps =
     fuel_bind (Some (parse_name src)) (\<lambda>(name, pos).
     let (rule_id, ps) = get_symbol_id name ps in
     fuel_bind (Some (parse_define (parse_space False pos))) (\<lambda>pos.
     fuel_bind (parse_alternates n name rule_id False (parse_space True pos) ps) (\<lambda>(pos, ps).
     fuel_bind (Some (parse_newline pos)) (\<lambda>pos.
       Some (Inr (parse_space True pos, ps))))))"

fun parse_rules :: "nat \<Rightarrow> string \<Rightarrow> grammar_parser \<Rightarrow> grammar_parser res option" where
  "parse_rules 0 pos ps = None"
| "parse_rules (Suc n) pos ps =
     (if pos = [] then Some (Inr ps)
      else fuel_bind (parse_rule n pos ps) (\<lambda>(pos, ps). parse_rules n pos ps))"

declare parse_rules.simps [simp del]

text \<open>
  The validation of all rules. The loop over the symbols finds the name of the missing rule; ids are
  given out once, so the order in which the symbols are searched does not matter.
\<close>

definition check_elem :: "grammar_parser \<Rightarrow> grammar_element \<Rightarrow> parse_error option" where
  "check_elem ps e =
     (if e_type e = GRE_RULE_REF \<and> (length (ps_rules ps) \<le> unat (e_value e) \<or> ps_rules ps ! unat (e_value e) = []) then
        map_option (\<lambda>(name, _). Undefined_rule_identifier name) (find (\<lambda>(_, i). i = e_value e) (ps_symbol_ids ps))
      else None)"

definition check_rule :: "grammar_parser \<Rightarrow> grammar_rule \<Rightarrow> parse_error option" where
  "check_rule ps rule =
     (if rule = [] then Some Undefined_rule
      else (case List.map_filter (check_elem ps) rule of [] \<Rightarrow> None | err # _ \<Rightarrow> Some err))"

definition check_rules :: "grammar_parser \<Rightarrow> parse_error option" where
  "check_rules ps = (case List.map_filter (check_rule ps) (ps_rules ps) of [] \<Rightarrow> None | err # _ \<Rightarrow> Some err)"

definition parser_new :: "llama_vocab option \<Rightarrow> grammar_parser" where
  "parser_new vocab = \<lparr>ps_vocab = vocab, ps_symbol_ids = [], ps_rules = []\<rparr>"

definition parse_fuel :: "string \<Rightarrow> nat" where
  "parse_fuel src = 2 * length src + 3"

text \<open>
  \<open>parse\<close>: \<^term>\<open>Inl\<close> is the error that was caught, where the code returns false and has cleared the rules.
\<close>

definition parse :: "string \<Rightarrow> grammar_parser \<Rightarrow> grammar_parser res option" where
  "parse src ps = fuel_bind (parse_rules (parse_fuel src) (parse_space True src) ps) (\<lambda>ps.
     Some (case check_rules ps of None \<Rightarrow> Inr ps | Some err \<Rightarrow> Inl err))"

text \<open>
  The constructor from a text. A missing entry for \<open>grammar_root\<close> is the exception of \<open>map::at\<close>; the
  pattern of a trigger is compiled by \<open>std::regex\<close>, which is outside the model, and kept as text.
\<close>

definition init_impl_str :: "llama_vocab option \<Rightarrow> ollama_vocab option \<Rightarrow> string \<Rightarrow> string \<Rightarrow> bool \<Rightarrow> string list \<Rightarrow> int list
    \<Rightarrow> grammar option option" where
  "init_impl_str vocab o_vocab grammar_str grammar_root lazy trigger_patterns trigger_tokens = do {
     r \<leftarrow> parse grammar_str (parser_new vocab);
     case r of
       Inl _ \<Rightarrow> Some None
     | Inr ps \<Rightarrow>
       if ps_rules ps = [] then Some None
       else if map_of (ps_symbol_ids ps) ''root'' = None then Some None
       else do {
         start \<leftarrow> map_of (ps_symbol_ids ps) grammar_root;
         vec_rules \<leftarrow> those (map copy_rule (ps_rules ps));
         bad \<leftarrow> has_left_recursion vec_rules;
         if bad then Some None
         else do {
           stacks \<leftarrow> initial_stacks vec_rules (unat start);
           Some (Some (grammar_of vocab o_vocab vec_rules stacks lazy trigger_tokens trigger_patterns))
         }
       }
   }"

end
