(* ===== verification/Grammar_Parser_Wf.thy ===== *)
theory Grammar_Parser_Wf
  imports Grammar_Parser Grammar_Engine
begin

text \<open>
  The parser always returns, with rules or with an error, and the rules it returns are well-formed in
  the sense the engine needs.
\<close>

section \<open>The parser returns\<close>

lemma parse_space_shorter: "length (parse_space b cs) \<le> length cs"
proof (induction b cs rule: parse_space.induct)
  case (2 b c cs)
  then show ?case using skip_comment_shorter [of cs] by auto
qed simp

lemma expect_shorter: "expect c src = Inr rest \<Longrightarrow> length rest < length src"
  by (auto simp: expect_def split: list.splits if_splits)

lemma dropWhile_shorter: "takeWhile P xs \<noteq> [] \<Longrightarrow> length (dropWhile P xs) < length xs"
  by (metis add_diff_cancel_left' length_append length_greater_0_conv takeWhile_dropWhile_id less_add_same_cancel2)

lemma parse_name_shorter: "parse_name src = Inr (name, rest) \<Longrightarrow> length rest < length src"
  by (auto simp: parse_name_def dropWhile_shorter split: if_splits)

lemma parse_int_shorter: "parse_int src = Inr (ds, rest) \<Longrightarrow> length rest < length src"
  by (auto simp: parse_int_def dropWhile_shorter split: if_splits)

lemma parse_token_shorter: "parse_token v src = Inr (t, rest) \<Longrightarrow> length rest < length src"
proof -
  assume p: "parse_token v src = Inr (t, rest)"
  then obtain pos where pos: "expect (CHR ''<'') src = Inr pos" by (auto simp: parse_token_def res_bind_Inr)
  note l1 = expect_shorter [OF pos]
  show ?thesis
  proof (cases "pos \<noteq> [] \<and> hd pos = CHR ''[''")
    case True
    with p pos show ?thesis using l1
      by (auto simp: parse_token_def res_bind_Inr dest!: parse_int_shorter expect_shorter)
  next
    case False
    with p pos obtain v' r where "v = Some v'" "expect (CHR ''>'') (dropWhile (\<lambda>c. c \<noteq> CHR ''>'') pos) = Inr r" "rest = r"
      by (auto simp: parse_token_def res_bind_Inr split: option.splits)
    then show ?thesis using l1 expect_shorter length_dropWhile_le [of "\<lambda>c. c \<noteq> CHR ''>''" pos] by fastforce
  qed
qed

lemma parse_literal_shorter: "parse_literal pos rule = Inr (pos', rule') \<Longrightarrow> length pos' < length pos"
proof (induction pos rule rule: parse_literal.induct)
  case (1 pos rule)
  show ?case
  proof (cases "pos = [] \<or> hd pos = CHR 0x22")
    case True
    with "1.prems" show ?thesis by (auto simp: parse_literal.simps [of pos rule] split: if_splits)
  next
    case False
    then obtain v pos1 where c: "parse_char pos = Inr (v, pos1)" "parse_literal pos1 (rule @ [elem GRE_CHAR v]) = Inr (pos', rule')"
      using "1.prems" by (auto simp: parse_literal.simps [of pos rule] split: sum.splits)
    then show ?thesis using "1.IH" False parse_char_shorter [OF c(1)] by fastforce
  qed
qed

lemma parse_range_shorter: "parse_range t k pos rule = Inr (pos', rule') \<Longrightarrow> length pos' < length pos"
proof (induction t k pos rule rule: parse_range.induct)
  case (1 t k pos rule)
  show ?case
  proof (cases "pos = [] \<or> hd pos = CHR '']''")
    case True
    with "1.prems" show ?thesis by (auto simp: parse_range.simps [of t k pos rule] split: if_splits)
  next
    case False
    then obtain v pos1 pos2 rule2 where c: "parse_char pos = Inr (v, pos1)"
        "parse_range_end pos1 (rule @ [elem (if k < length rule then GRE_CHAR_ALT else t) v]) = Inr (pos2, rule2)"
        "parse_range t k pos2 rule2 = Inr (pos', rule')"
      using "1.prems" by (auto simp: parse_range.simps [of t k pos rule] split: sum.splits)
    then have "length pos' < length pos2" using "1.IH" False by blast
    then show ?thesis using parse_char_shorter [OF c(1)] parse_range_end_shorter [OF c(2)] by linarith
  qed
qed

lemma parse_space_le: "length cs \<le> n \<Longrightarrow> length (parse_space b cs) \<le> n"
  using parse_space_shorter le_trans by blast

lemma parse_max_times_shorter: "parse_max_times b m pos = Inr (n, rest) \<Longrightarrow> length rest \<le> length pos"
proof -
  assume p: "parse_max_times b m pos = Inr (n, rest)"
  then obtain c cs where pos: "pos = c # cs" by (cases pos) (auto simp: parse_max_times_def)
  show ?thesis
  proof (cases "c = CHR ''}''")
    case True
    with p pos show ?thesis using parse_space_shorter [of b cs] by (auto simp: parse_max_times_def)
  next
    case False
    with p pos have comma: "c = CHR '',''" by (auto simp: parse_max_times_def split: if_splits)
    define q where "q = parse_space b cs"
    have q: "length q \<le> length cs" by (simp add: q_def parse_space_shorter)
    obtain mx pos1 pos2 where e: "expect (CHR ''}'') pos1 = Inr pos2" "rest = parse_space b pos2"
      and mx: "(if q \<noteq> [] \<and> is_digit_char (hd q) then
              res_bind (parse_int q) (\<lambda>(digits, pos).
              res_bind (stoul digits) (\<lambda>max_times. Inr (max_times, parse_space b pos)))
            else Inr (UINT64_MAX, q)) = Inr (mx, pos1)"
      using p False comma by (auto simp: pos parse_max_times_def q_def [symmetric] res_bind_Inr)
    have "length pos1 \<le> length q"
    proof (cases "q \<noteq> [] \<and> is_digit_char (hd q)")
      case True
      with mx obtain ds r where "parse_int q = Inr (ds, r)" "pos1 = parse_space b r" by (auto simp: res_bind_Inr)
      then show ?thesis using parse_int_shorter [of q ds r] parse_space_shorter [of b r] by simp
    qed (use mx in auto)
    then show ?thesis using q expect_shorter [OF e(1)] parse_space_shorter [of b pos2] by (simp add: pos e(2))
  qed
qed

lemma parse_bounds_shorter: "parse_bounds b src = Inr (m, n, rest) \<Longrightarrow> length rest < length src"
proof -
  assume "parse_bounds b src = Inr (m, n, rest)"
  then obtain ds p1 where p1: "parse_int src = Inr (ds, p1)" "parse_max_times b m (parse_space b p1) = Inr (n, rest)"
    by (auto simp: parse_bounds_def res_bind_Inr split: if_splits)
  then show ?thesis
    using parse_int_shorter [OF p1(1)] parse_max_times_shorter [OF p1(2)] parse_space_shorter [of b p1] by linarith
qed

text \<open>The branches of the loop of \<open>parse_sequence\<close>.\<close>

lemma seq_repeat_Inr:
  "seq_repeat name m n pos ps rule k = Inr (Some (pos', ps', rule', k')) \<longleftrightarrow>
     handle_repetitions name m n rule k ps = Inr (rule', ps') \<and> pos' = pos \<and> k' = k"
  by (auto simp: seq_repeat_def res_bind_Inr)

lemma seq_item_cases [consumes 1, case_names literal range token ref any repeat]:
  assumes "seq_item name b (c # cs, ps, rule, k) = Inr (Some (pos', ps', rule', k'))"
  obtains
    q where "parse_literal cs rule = Inr (q, rule')" "pos' = parse_space b q" "ps' = ps" "k' = length rule"
  | t cs' q where "t \<in> {GRE_CHAR, GRE_CHAR_NOT}" "length cs' \<le> length cs" "parse_range t (length rule) cs' rule = Inr (q, rule')"
      "pos' = parse_space b q" "ps' = ps" "k' = length rule"
  | t v q src where "length src \<le> Suc (length cs)" "parse_token (ps_vocab ps) src = Inr (v, q)" "t \<in> {GRE_TOKEN, GRE_TOKEN_NOT}"
      "rule' = rule @ [elem t v]" "pos' = parse_space b q" "ps' = ps" "k' = length rule"
  | ref q i where "parse_name (c # cs) = Inr (ref, q)" "get_symbol_id ref ps = (i, ps')"
      "rule' = rule @ [elem GRE_RULE_REF i]" "pos' = parse_space b q" "k' = length rule"
  | "rule' = rule @ [elem GRE_CHAR_ANY 0]" "pos' = parse_space b cs" "ps' = ps" "k' = length rule"
  | m n where "handle_repetitions name m n rule k ps = Inr (rule', ps')" "length pos' \<le> length cs" "k' = k"
proof -
  note item = assms [unfolded seq_item_def prod.case list.case]
  show ?thesis
  proof (cases "c = CHR 0x22")
    case True
    with item show ?thesis using that(1) by (auto simp: res_bind_Inr)
  next
    case n1: False
    show ?thesis
    proof (cases "c = CHR ''[''")
      case True
      define neg where "neg = (cs \<noteq> [] \<and> hd cs = CHR ''^'')"
      from item n1 True obtain q where "parse_range (if neg then GRE_CHAR_NOT else GRE_CHAR) (length rule) (if neg then tl cs else cs) rule = Inr (q, rule')"
          "pos' = parse_space b q" "ps' = ps" "k' = length rule"
        by (auto simp: res_bind_Inr Let_def neg_def)
      then show ?thesis by (intro that(2) [of "if neg then GRE_CHAR_NOT else GRE_CHAR" "if neg then tl cs else cs"]) auto
    next
      case n2: False
      show ?thesis
      proof (cases "c = CHR ''<'' \<or> c = CHR ''!''")
        case True
        define src where "src = (if c = CHR ''!'' then cs else c # cs)"
        from item n1 n2 True obtain v q where "parse_token (ps_vocab ps) src = Inr (v, q)"
            "rule' = rule @ [elem (if c = CHR ''!'' then GRE_TOKEN_NOT else GRE_TOKEN) v]"
            "pos' = parse_space b q" "ps' = ps" "k' = length rule"
          by (auto simp: res_bind_Inr src_def)
        then show ?thesis by (intro that(3) [of src v q "if c = CHR ''!'' then GRE_TOKEN_NOT else GRE_TOKEN"]) (auto simp: src_def)
      next
        case n3: False
        show ?thesis
        proof (cases "is_word_char c")
          case True
          with item n1 n2 n3 obtain ref q where name: "parse_name (c # cs) = Inr (ref, q)" by (auto simp: res_bind_Inr)
          obtain i ps1 where "get_symbol_id ref ps = (i, ps1)" by (cases "get_symbol_id ref ps")
          with item n1 n2 n3 True name show ?thesis using that(4) [of ref q i] by auto
        next
          case n4: False
          show ?thesis
          proof (cases "c = CHR ''{''")
            case True
            with item n1 n2 n3 n4 obtain m n q where "parse_bounds b (parse_space b cs) = Inr (m, n, q)"
                "handle_repetitions name m n rule k ps = Inr (rule', ps')" "pos' = q" "k' = k"
              by (auto simp: res_bind_Inr seq_repeat_Inr)
            then show ?thesis using parse_bounds_shorter [of b _ m n q] parse_space_shorter [of b cs]
              by (intro that(6) [of m n]) force+
          next
            case n5: False
            have "c = CHR ''.'' \<or> c = CHR ''*'' \<or> c = CHR ''+'' \<or> c = CHR ''?''"
              using item n1 n2 n3 n4 n5 by (auto split: if_splits)
            then show ?thesis using item n1 n2 n3 n4 n5 that(5,6) parse_space_shorter [of b cs]
              by (elim disjE) (auto simp: seq_repeat_Inr)
          qed
        qed
      qed
    qed
  qed
qed

lemma seq_item_shorter:
  assumes "seq_item name b (pos, ps, rule, k) = Inr (Some (pos', ps', rule', k'))"
  shows "length pos' < length pos"
proof (cases pos)
  case (Cons c cs)
  have le: "length q < length pos \<Longrightarrow> length (parse_space b q) < length pos" for q using parse_space_shorter [of b q] by simp
  from assms [unfolded Cons] show ?thesis
  proof (cases rule: seq_item_cases)
    case (literal q)
    then show ?thesis using parse_literal_shorter [OF literal(1)] le Cons by simp
  next
    case (range t cs' q)
    then show ?thesis using parse_range_shorter [OF range(3)] le Cons by simp
  next
    case (token t v q src)
    then show ?thesis using parse_token_shorter [OF token(2)] le Cons by simp
  next
    case (ref r q i)
    then show ?thesis using parse_name_shorter [OF ref(1)] le Cons by simp
  next
    case any
    then show ?thesis using le Cons by simp
  next
    case (repeat m n)
    then show ?thesis using Cons by simp
  qed
qed (use assms in \<open>simp add: seq_item_def\<close>)

text \<open>Two units of fuel per byte suffice: one for a pass of the loop, one for a group.\<close>

abbreviation seq_returns :: "nat \<Rightarrow> string \<Rightarrow> bool \<Rightarrow> seq_state \<Rightarrow> bool" where
  "seq_returns n name b st \<equiv> \<exists>r. parse_sequence n name b st = Some r
     \<and> (\<forall>pos ps rule. r = Inr (pos, ps, rule) \<longrightarrow> length pos \<le> length (fst st))"

abbreviation alts_return :: "(string \<times> grammar_parser) res option \<Rightarrow> string \<Rightarrow> bool" where
  "alts_return x src \<equiv> \<exists>r. x = Some r \<and> (\<forall>pos ps. r = Inr (pos, ps) \<longrightarrow> length pos \<le> length src)"

lemma parse_sequence_item:
  "\<not> (pos \<noteq> [] \<and> hd pos = CHR ''('') \<Longrightarrow> parse_sequence (Suc n) name b (pos, ps, rule, k) =
     fuel_bind (Some (seq_item name b (pos, ps, rule, k))) (\<lambda>next.
       case next of None \<Rightarrow> Some (Inr (pos, ps, rule)) | Some st \<Rightarrow> parse_sequence n name b st)"
  by (auto simp: parse_sequence.simps)

lemma sequence_step:
  assumes alts: "\<And>i src ps. 2 * length src + 2 \<le> n \<Longrightarrow> alts_return (parse_alternates n name i True src ps) src"
    and seq: "\<And>st. 2 * length (fst st) + 1 \<le> n \<Longrightarrow> seq_returns n name b st"
    and fuel: "2 * length pos \<le> n"
  shows "seq_returns (Suc n) name b (pos, ps, rule, k)"
proof (cases "pos \<noteq> [] \<and> hd pos = CHR ''(''")
  case True
  then obtain cs where pos: "pos = CHR ''('' # cs" by (cases pos) auto
  obtain i ps1 where g: "generate_symbol_id name ps = (i, ps1)" by (cases "generate_symbol_id name ps")
  obtain r where r: "parse_alternates n name i True (parse_space True cs) ps1 = Some r"
      "\<And>pos ps. r = Inr (pos, ps) \<Longrightarrow> length pos \<le> length (parse_space True cs)"
    using alts [of "parse_space True cs" i ps1] parse_space_shorter [of True cs] fuel pos by auto
  show ?thesis
  proof (cases r)
    case (Inl e)
    with r(1) g show ?thesis by (simp add: parse_sequence.simps pos)
  next
    case (Inr x)
    obtain pos2 ps2 where x: "x = (pos2, ps2)" by (cases x)
    show ?thesis
    proof (cases "expect (CHR '')'') pos2")
      case (Inl e)
      with r(1) g Inr x show ?thesis by (simp add: parse_sequence.simps pos)
    next
      case e: (Inr pos3)
      have len: "length (parse_space b pos3) \<le> length cs"
        using parse_space_shorter [of b pos3] expect_shorter [OF e] r(2) Inr x parse_space_shorter [of True cs] by fastforce
      then show ?thesis using seq [of "(parse_space b pos3, ps2, rule @ [elem GRE_RULE_REF i], length rule)"] fuel r(1) g Inr x e
        by (force simp: parse_sequence.simps pos)
    qed
  qed
next
  case False
  show ?thesis
  proof (cases "seq_item name b (pos, ps, rule, k)")
    case (Inl e)
    with False show ?thesis by (simp add: parse_sequence_item)
  next
    case (Inr nxt)
    show ?thesis
    proof (cases nxt)
      case None
      with False Inr show ?thesis by (simp add: parse_sequence_item)
    next
      case (Some st)
      then have "length (fst st) < length pos" using seq_item_shorter Inr by (cases st) auto
      then show ?thesis using seq [of st] fuel False Inr Some by (force simp: parse_sequence_item)
    qed
  qed
qed

lemma more_alternates_step:
  assumes seq: "\<And>st. 2 * length (fst st) + 1 \<le> n \<Longrightarrow> seq_returns n name b st"
    and more: "\<And>pos ps rule. 2 * length pos + 1 \<le> n \<Longrightarrow> alts_return (parse_more_alternates n name i b pos ps rule) pos"
    and fuel: "2 * length pos \<le> n"
  shows "alts_return (parse_more_alternates (Suc n) name i b pos ps rule) pos"
proof (cases "pos \<noteq> [] \<and> hd pos = CHR ''|''")
  case True
  then obtain cs where pos: "pos = CHR ''|'' # cs" by (cases pos) auto
  define st where "st = (parse_space True cs, ps, rule @ [elem GRE_ALT 0], length rule + 1)"
  have st: "length (fst st) \<le> length cs" by (simp add: st_def parse_space_shorter)
  then obtain r where r: "parse_sequence n name b st = Some r" "\<And>pos ps rule. r = Inr (pos, ps, rule) \<Longrightarrow> length pos \<le> length cs"
    using seq [of st] fuel pos by force
  show ?thesis
  proof (cases r)
    case (Inl e)
    with r(1) show ?thesis by (simp add: parse_more_alternates.simps pos st_def)
  next
    case (Inr x)
    obtain pos2 ps2 rule2 where x: "x = (pos2, ps2, rule2)" by (cases x)
    have "length pos2 \<le> length cs" using r(2) Inr x by simp
    then show ?thesis using more [of pos2 ps2 rule2] fuel pos r(1) Inr x
      by (force simp: parse_more_alternates.simps st_def)
  qed
qed (auto simp: parse_more_alternates.simps)

lemma alternates_step:
  assumes seq: "seq_returns n name b (src, ps, [], 0)"
    and more: "\<And>pos ps rule. 2 * length pos + 1 \<le> n \<Longrightarrow> alts_return (parse_more_alternates n name i b pos ps rule) pos"
    and fuel: "2 * length src + 1 \<le> n"
  shows "alts_return (parse_alternates (Suc n) name i b src ps) src"
proof -
  obtain r where r: "parse_sequence n name b (src, ps, [], 0) = Some r" "\<And>pos ps rule. r = Inr (pos, ps, rule) \<Longrightarrow> length pos \<le> length src"
    using seq by auto
  show ?thesis
  proof (cases r)
    case (Inl e)
    with r(1) show ?thesis by (simp add: parse_alternates.simps)
  next
    case (Inr x)
    obtain pos2 ps2 rule2 where x: "x = (pos2, ps2, rule2)" by (cases x)
    have "length pos2 \<le> length src" using r(2) Inr x by simp
    then show ?thesis using more [of pos2 ps2 rule2] fuel r(1) Inr x by (force simp: parse_alternates.simps)
  qed
qed

lemma parser_returns:
  "(\<forall>name b st. 2 * length (fst st) + 1 \<le> n \<longrightarrow> seq_returns n name b st)
   \<and> (\<forall>name i b src ps. 2 * length src + 2 \<le> n \<longrightarrow> alts_return (parse_alternates n name i b src ps) src)
   \<and> (\<forall>name i b pos ps rule. 2 * length pos + 1 \<le> n \<longrightarrow> alts_return (parse_more_alternates n name i b pos ps rule) pos)"
proof (induction n)
  case (Suc n)
  have 1: "seq_returns (Suc n) name b st" if "2 * length (fst st) + 1 \<le> Suc n" for name b st
  proof -
    obtain pos ps rule k where st: "st = (pos, ps, rule, k)" by (cases st)
    show ?thesis unfolding st by (rule sequence_step) (use Suc.IH that st in auto)
  qed
  have 2: "alts_return (parse_alternates (Suc n) name i b src ps) src" if "2 * length src + 2 \<le> Suc n" for name i b src ps
    by (rule alternates_step) (use Suc.IH that in auto)
  have 3: "alts_return (parse_more_alternates (Suc n) name i b pos ps rule) pos" if "2 * length pos + 1 \<le> Suc n" for name i b pos ps rule
    by (rule more_alternates_step) (use Suc.IH that in auto)
  from 1 2 3 show ?case by blast
qed simp

lemma parse_define_shorter: "parse_define pos = Inr rest \<Longrightarrow> length rest \<le> length pos"
  by (auto simp: parse_define_def split: if_splits)

lemma parse_newline_shorter: "parse_newline pos = Inr rest \<Longrightarrow> length rest \<le> length pos"
  by (cases pos) (auto simp: parse_newline_def split: if_splits)

lemma parse_rule_returns:
  assumes "2 * length src \<le> n"
  shows "\<exists>r. parse_rule n src ps = Some r \<and> (\<forall>pos ps'. r = Inr (pos, ps') \<longrightarrow> length pos < length src)"
proof (cases "parse_name src")
  case (Inl e)
  then show ?thesis by (simp add: parse_rule_def)
next
  case (Inr x)
  obtain name p1 where x: "x = (name, p1)" by (cases x)
  obtain i ps1 where g: "get_symbol_id name ps = (i, ps1)" by (cases "get_symbol_id name ps")
  have l1: "length p1 < length src" using parse_name_shorter Inr x by simp
  show ?thesis
  proof (cases "parse_define (parse_space False p1)")
    case (Inl e)
    then show ?thesis using Inr x g by (simp add: parse_rule_def)
  next
    case p2: (Inr p2)
    have l2: "length (parse_space True p2) \<le> length p1"
      using parse_define_shorter [OF p2] parse_space_shorter [of False p1] parse_space_shorter [of True p2] by linarith
    have "2 * length (parse_space True p2) + 2 \<le> n" using l1 l2 assms by linarith
    then have "alts_return (parse_alternates n name i False (parse_space True p2) ps1) (parse_space True p2)"
      using parser_returns [of n] by blast
    then obtain r where r: "parse_alternates n name i False (parse_space True p2) ps1 = Some r"
        "\<forall>pos ps. r = Inr (pos, ps) \<longrightarrow> length pos \<le> length (parse_space True p2)"
      by blast
    show ?thesis
    proof (cases r)
      case (Inl e)
      then show ?thesis using Inr x g p2 r(1) by (simp add: parse_rule_def)
    next
      case y: (Inr y)
      obtain p3 ps2 where y': "y = (p3, ps2)" by (cases y)
      show ?thesis
      proof (cases "parse_newline p3")
        case (Inl e)
        then show ?thesis using Inr x g p2 r(1) y y' by (simp add: parse_rule_def)
      next
        case p4: (Inr p4)
        have "length (parse_space True p4) < length src"
          using parse_newline_shorter [OF p4] parse_space_shorter [of True p4] r(2) y y' l1 l2 by fastforce
        then show ?thesis using Inr x g p2 r(1) y y' p4 by (simp add: parse_rule_def)
      qed
    qed
  qed
qed

lemma parse_rules_return: "2 * length pos + 1 \<le> n \<Longrightarrow> \<exists>r. parse_rules n pos ps = Some r"
proof (induction n arbitrary: pos ps)
  case (Suc n)
  show ?case
  proof (cases "pos = []")
    case False
    obtain r where r: "parse_rule n pos ps = Some r" "\<And>pos' ps'. r = Inr (pos', ps') \<Longrightarrow> length pos' < length pos"
      using parse_rule_returns [of pos n ps] Suc.prems by auto
    show ?thesis
    proof (cases r)
      case (Inl e)
      with r(1) False show ?thesis by (simp add: parse_rules.simps)
    next
      case (Inr x)
      obtain pos' ps' where x: "x = (pos', ps')" by (cases x)
      have "length pos' < length pos" using r(2) Inr x by simp
      then show ?thesis using Suc.IH [of pos' ps'] Suc.prems r(1) Inr x False by (simp add: parse_rules.simps)
    qed
  qed (simp add: parse_rules.simps)
qed simp

text \<open>
  C40 (termination): parsing a grammar text returns for every text, with the parser's result or with an
  error; the recursion through nested groups never exceeds two calls per byte.
\<close>

theorem parse_returns: "\<exists>r. parse src ps = Some r"
proof -
  obtain r where "parse_rules (parse_fuel src) (parse_space True src) ps = Some r"
    using parse_rules_return [of "parse_space True src" "parse_fuel src" ps] parse_space_shorter [of True src]
    by (auto simp: parse_fuel_def)
  then show ?thesis by (cases r) (auto simp: parse_def)
qed

section \<open>The rules are well-formed\<close>

text \<open>A list of complete symbols: it can be followed by another one, and copied.\<close>

definition sym_list :: "grammar_rule \<Rightarrow> bool" where
  "sym_list xs \<longleftrightarrow> (\<forall>e \<in> set xs. e_type e \<noteq> GRE_END) \<and> successively may_follow (GRE_ALT # map e_type xs)"

lemma may_follow_start: "may_follow GRE_ALT t \<Longrightarrow> may_follow u t"
  by (cases t) auto

lemma sym_list_Nil [simp]: "sym_list []"
  by (simp add: sym_list_def)

lemma sym_list_append: "sym_list xs \<Longrightarrow> sym_list ys \<Longrightarrow> sym_list (xs @ ys)"
proof (cases ys)
  case (Cons y ys')
  assume "sym_list xs" "sym_list ys"
  then show ?thesis unfolding sym_list_def Cons map_append append_Cons [symmetric] successively_append_iff
    by (auto simp: may_follow_start)
qed simp

lemma sym_list_one: "t \<notin> {GRE_END, GRE_CHAR_ALT, GRE_CHAR_RNG_UPPER} \<Longrightarrow> sym_list [elem t v]"
  by (cases t) (auto simp: sym_list_def)

lemma sym_list_concat: "\<forall>xs \<in> set xss. sym_list xs \<Longrightarrow> sym_list (concat xss)"
  by (induction xss) (auto intro: sym_list_append)

lemma parse_literal_sym:
  "parse_literal pos rule = Inr (pos', rule') \<Longrightarrow> \<exists>cs. rule' = rule @ map (elem GRE_CHAR) cs"
proof (induction pos rule rule: parse_literal.induct)
  case (1 pos rule)
  show ?case
  proof (cases "pos = [] \<or> hd pos = CHR 0x22")
    case True
    with "1.prems" show ?thesis by (auto simp: parse_literal.simps [of pos rule] split: if_splits)
  next
    case False
    then obtain v pos1 where c: "parse_char pos = Inr (v, pos1)" "parse_literal pos1 (rule @ [elem GRE_CHAR v]) = Inr (pos', rule')"
      using "1.prems" by (auto simp: parse_literal.simps [of pos rule] split: sum.splits)
    then obtain cs where "rule' = (rule @ [elem GRE_CHAR v]) @ map (elem GRE_CHAR) cs" using "1.IH" False by blast
    then show ?thesis by (intro exI [of _ "v # cs"]) simp
  qed
qed

lemma sym_list_literal: "sym_list (map (elem GRE_CHAR) cs)"
  using sym_list_concat [of "map (\<lambda>c. [elem GRE_CHAR c]) cs"] by (auto simp: sym_list_one concat_map_singleton)

definition range_list :: "grammar_rule \<Rightarrow> bool" where
  "range_list xs \<longleftrightarrow> sym_list xs \<and> (\<forall>e \<in> set xs. e_type e \<noteq> GRE_RULE_REF)
     \<and> (xs \<noteq> [] \<longrightarrow> e_type (last xs) \<in> {GRE_CHAR, GRE_CHAR_NOT, GRE_CHAR_ALT, GRE_CHAR_RNG_UPPER})"

lemma sym_list_snoc:
  "sym_list xs \<Longrightarrow> t \<noteq> GRE_END \<Longrightarrow> may_follow (if xs = [] then GRE_ALT else e_type (last xs)) t \<Longrightarrow> sym_list (xs @ [elem t v])"
  using successively_append_iff [of may_follow "GRE_ALT # map e_type xs" "[t]"]
  by (auto simp: sym_list_def last_map)

text \<open>A character range under construction at the end of a rule.\<close>

lemma parse_range_end_range:
  assumes "parse_range_end pos (base @ cls @ [elem t v]) = Inr (pos', rule')" "range_list (cls @ [elem t v])"
    and "t \<in> {GRE_CHAR, GRE_CHAR_NOT, GRE_CHAR_ALT}"
  shows "\<exists>cls'. rule' = base @ cls' \<and> cls' \<noteq> [] \<and> range_list cls'"
proof -
  consider "rule' = base @ cls @ [elem t v]" | w where "rule' = base @ (cls @ [elem t v]) @ [elem GRE_CHAR_RNG_UPPER w]"
    using assms(1) by (auto simp: parse_range_end_def res_bind_Inr split: if_splits)
  then show ?thesis
  proof cases
    case 2
    have "sym_list ((cls @ [elem t v]) @ [elem GRE_CHAR_RNG_UPPER w])"
      by (rule sym_list_snoc) (use assms(2,3) in \<open>auto simp: range_list_def\<close>)
    with 2 assms(2) show ?thesis by (intro exI [of _ "(cls @ [elem t v]) @ [elem GRE_CHAR_RNG_UPPER w]"]) (auto simp: range_list_def)
  qed (use assms(2) in blast)
qed

lemma parse_range_range:
  assumes "parse_range t (length base) pos (base @ cls) = Inr (pos', rule')" "range_list cls" "t \<in> {GRE_CHAR, GRE_CHAR_NOT}"
  shows "\<exists>cls'. rule' = base @ cls' \<and> range_list cls'"
  using assms(1,2)
proof (induction "length pos" arbitrary: pos cls rule: less_induct)
  case less
  show ?case
  proof (cases "pos = [] \<or> hd pos = CHR '']''")
    case True
    with less.prems show ?thesis by (auto simp: parse_range.simps [of t _ pos] split: if_splits)
  next
    case False
    define u where "u = (if cls = [] then t else GRE_CHAR_ALT)"
    obtain v pos1 pos2 rule2 where c: "parse_char pos = Inr (v, pos1)"
        "parse_range_end pos1 (base @ cls @ [elem u v]) = Inr (pos2, rule2)"
        "parse_range t (length base) pos2 rule2 = Inr (pos', rule')"
      using less.prems(1) False by (auto simp: parse_range.simps [of t _ pos] u_def split: sum.splits if_splits)
    have u: "u \<in> {GRE_CHAR, GRE_CHAR_NOT, GRE_CHAR_ALT}" using assms(3) by (auto simp: u_def)
    have "sym_list (cls @ [elem u v])"
      by (rule sym_list_snoc) (use less.prems(2) assms(3) in \<open>auto simp: range_list_def u_def\<close>)
    then have "range_list (cls @ [elem u v])" using less.prems(2) u by (auto simp: range_list_def)
    then obtain cls' where cls': "rule2 = base @ cls'" "range_list cls'" using parse_range_end_range [OF c(2) _ u] by blast
    have "length pos2 < length pos" using parse_char_shorter [OF c(1)] parse_range_end_shorter [OF c(2)] by simp
    then show ?thesis using less.hyps [of pos2 cls'] c(3) cls' by simp
  qed
qed

text \<open>
  The symbol table. Its values are the ids given out; as long as ids do not wrap around, a generated
  name is new, because names in the text have no underscore.
\<close>

definition ids_of :: "grammar_parser \<Rightarrow> 32 word set" where
  "ids_of ps = snd ` set (ps_symbol_ids ps)"

definition known :: "32 word set \<Rightarrow> grammar_rule \<Rightarrow> bool" where
  "known ids xs \<longleftrightarrow> (\<forall>e \<in> set xs. e_type e = GRE_RULE_REF \<longrightarrow> e_value e \<in> ids)"

definition rule_built :: "32 word set \<Rightarrow> grammar_rule \<Rightarrow> bool" where
  "rule_built ids rule \<longleftrightarrow> rule = [] \<or> (\<exists>body. rule = body @ [elem GRE_END 0] \<and> sym_list body \<and> known ids body)"

definition few_ids :: "grammar_parser \<Rightarrow> bool" where
  "few_ids ps \<longleftrightarrow> length (ps_symbol_ids ps) < 2 ^ 32"

definition id_entry_ok :: "nat \<Rightarrow> string \<times> 32 word \<Rightarrow> bool" where
  "id_entry_ok n entry \<longleftrightarrow> unat (snd entry) < n
     \<and> (CHR ''_'' \<in> set (fst entry) \<longrightarrow> (\<exists>b. CHR ''_'' \<notin> set b \<and> fst entry = b @ ''_'' @ to_string (unat (snd entry))))"

definition parser_ok :: "grammar_parser \<Rightarrow> bool" where
  "parser_ok ps \<longleftrightarrow> distinct (map fst (ps_symbol_ids ps))
     \<and> (\<forall>entry \<in> set (ps_symbol_ids ps). id_entry_ok (length (ps_symbol_ids ps)) entry)
     \<and> (\<forall>rule \<in> set (ps_rules ps). rule_built (ids_of ps) rule)"

lemma known_simps [simp]:
  "known ids []" "known ids (xs @ ys) \<longleftrightarrow> known ids xs \<and> known ids ys"
  "known ids (e # xs) \<longleftrightarrow> (e_type e = GRE_RULE_REF \<longrightarrow> e_value e \<in> ids) \<and> known ids xs"
  by (auto simp: known_def)

lemma known_mono: "known ids xs \<Longrightarrow> ids \<subseteq> ids' \<Longrightarrow> known ids' xs"
  by (auto simp: known_def)

lemma rule_built_mono: "rule_built ids rule \<Longrightarrow> ids \<subseteq> ids' \<Longrightarrow> rule_built ids' rule"
  unfolding rule_built_def using known_mono by blast

lemma known_concat: "\<forall>xs \<in> set xss. known ids xs \<Longrightarrow> known ids (concat xss)"
  by (auto simp: known_def)

lemma known_range: "range_list xs \<Longrightarrow> known ids xs"
  by (auto simp: range_list_def known_def)

text \<open>The decimal digits determine the number.\<close>

definition digits_value :: "string \<Rightarrow> nat" where
  "digits_value = foldl (\<lambda>a c. 10 * a + (of_char c - 0x30)) 0"

lemma digits_value_to_string: "digits_value (to_string n) = n"
proof (induction n rule: to_string.induct)
  case (1 n)
  have "of_char (char_of (0x30 + n mod 10 :: nat) :: char) = 0x30 + n mod 10" by (simp add: mod_less)
  with 1 show ?case by (subst to_string.simps) (auto simp: digits_value_def)
qed

lemma to_string_inj: "to_string m = to_string n \<Longrightarrow> m = n"
  by (metis digits_value_to_string)

lemma split_first:
  "c \<notin> set b \<Longrightarrow> c \<notin> set b' \<Longrightarrow> b @ [c] @ r = b' @ [c] @ r' \<Longrightarrow> b = b' \<and> r = r'"
  by (induction b arbitrary: b') (auto simp: Cons_eq_append_conv)

lemma update_fresh: "k \<notin> fst ` set xs \<Longrightarrow> AList.update k v xs = xs @ [(k, v)]"
  by (induction xs) auto

lemma length_update_le: "length xs \<le> length (AList.update k v xs)"
  by (induction xs) auto

lemma unat_next_id: "few_ids ps \<Longrightarrow> unat (next_id ps) = length (ps_symbol_ids ps)"
  by (simp add: few_ids_def next_id_def unat_of_nat take_bit_nat_eq_self)

definition with_symbol :: "string \<Rightarrow> grammar_parser \<Rightarrow> grammar_parser" where
  "with_symbol key ps = ps\<lparr>ps_symbol_ids := AList.update key (next_id ps) (ps_symbol_ids ps)\<rparr>"

lemma with_symbol_ok:
  assumes "parser_ok ps" "few_ids ps" "key \<notin> fst ` set (ps_symbol_ids ps)"
    and "CHR ''_'' \<in> set key \<Longrightarrow> \<exists>b. CHR ''_'' \<notin> set b \<and> key = b @ ''_'' @ to_string (unat (next_id ps))"
  shows "parser_ok (with_symbol key ps)" "ids_of (with_symbol key ps) = insert (next_id ps) (ids_of ps)"
proof -
  show ids: "ids_of (with_symbol key ps) = insert (next_id ps) (ids_of ps)"
    using assms(3) by (auto simp: ids_of_def with_symbol_def update_fresh)
  have "id_entry_ok (Suc (length (ps_symbol_ids ps))) entry" if "entry \<in> set (ps_symbol_ids ps)" for entry
    using assms(1) that less_SucI by (fastforce simp: parser_ok_def id_entry_ok_def)
  moreover have "id_entry_ok (Suc (length (ps_symbol_ids ps))) (key, next_id ps)"
    using assms(4) by (auto simp: id_entry_ok_def unat_next_id [OF assms(2)])
  moreover have "rule_built (ids_of (with_symbol key ps)) rule" if "rule \<in> set (ps_rules ps)" for rule
    using assms(1) that rule_built_mono [of "ids_of ps" rule "ids_of (with_symbol key ps)"] ids by (auto simp: parser_ok_def)
  ultimately show "parser_ok (with_symbol key ps)"
    using assms(1,3) by (auto simp: parser_ok_def with_symbol_def update_fresh)
qed

lemma generated_fresh:
  assumes "parser_ok ps" "few_ids ps" "CHR ''_'' \<notin> set b"
  shows "b @ ''_'' @ to_string (unat (next_id ps)) \<notin> fst ` set (ps_symbol_ids ps)"
proof
  assume "b @ ''_'' @ to_string (unat (next_id ps)) \<in> fst ` set (ps_symbol_ids ps)"
  then obtain v where v: "(b @ ''_'' @ to_string (unat (next_id ps)), v) \<in> set (ps_symbol_ids ps)" by auto
  then have ok: "id_entry_ok (length (ps_symbol_ids ps)) (b @ ''_'' @ to_string (unat (next_id ps)), v)"
    using assms(1) by (auto simp: parser_ok_def)
  then obtain b' where "CHR ''_'' \<notin> set b'" "b @ ''_'' @ to_string (unat (next_id ps)) = b' @ ''_'' @ to_string (unat v)"
    by (auto simp: id_entry_ok_def)
  then have "to_string (unat (next_id ps)) = to_string (unat v)" using split_first [OF assms(3)] by blast
  then have "unat (next_id ps) = unat v" by (rule to_string_inj)
  with ok show False by (simp add: id_entry_ok_def unat_next_id [OF assms(2)])
qed

text \<open>
  What the operations of the parser keep as long as the ids do not wrap around, with a condition on the
  ids before and one on the ids after.
\<close>

type_synonym ids_pred = "32 word set \<Rightarrow> bool"

definition keeps :: "ids_pred \<Rightarrow> grammar_parser \<Rightarrow> grammar_parser \<Rightarrow> ids_pred \<Rightarrow> bool" where
  "keeps P ps ps' Q \<longleftrightarrow> (few_ids ps' \<longrightarrow> few_ids ps
     \<and> (parser_ok ps \<longrightarrow> P (ids_of ps) \<longrightarrow> parser_ok ps' \<and> ids_of ps \<subseteq> ids_of ps' \<and> Q (ids_of ps')))"

lemma keeps_refl: "(\<And>ids. P ids \<Longrightarrow> Q ids) \<Longrightarrow> keeps P ps ps Q"
  by (simp add: keeps_def)

lemma keeps_weaken:
  assumes "keeps P ps ps' Q" "\<And>ids. P' ids \<Longrightarrow> P ids"
    and "\<And>ids ids'. P' ids \<Longrightarrow> ids \<subseteq> ids' \<Longrightarrow> Q ids' \<Longrightarrow> Q' ids'"
  shows "keeps P' ps ps' Q'"
  using assms unfolding keeps_def by blast

lemma keeps_trans: "keeps P ps ps1 Q \<Longrightarrow> keeps Q ps1 ps2 R \<Longrightarrow> keeps P ps ps2 R"
  unfolding keeps_def by blast

lemma keeps_get_symbol_id:
  assumes "get_symbol_id name ps = (i, ps')" "CHR ''_'' \<notin> set name"
  shows "keeps (\<lambda>_. True) ps ps' (\<lambda>ids. i \<in> ids)"
proof -
  have le: "few_ids ps' \<Longrightarrow> few_ids ps"
    using assms(1) length_update_le [of "ps_symbol_ids ps" name "next_id ps"]
    by (auto simp: get_symbol_id_def few_ids_def split: option.splits)
  have "parser_ok ps' \<and> ids_of ps \<subseteq> ids_of ps' \<and> i \<in> ids_of ps'" if small: "few_ids ps'" and ok: "parser_ok ps"
  proof (cases "map_of (ps_symbol_ids ps) name")
    case None
    then have new: "name \<notin> fst ` set (ps_symbol_ids ps)" by (simp add: map_of_eq_None_iff)
    have "ps' = with_symbol name ps" "i = next_id ps" using None assms(1) by (auto simp: get_symbol_id_def with_symbol_def)
    then show ?thesis using with_symbol_ok [OF ok le [OF small] new] assms(2) by auto
  next
    case (Some j)
    then have "(name, j) \<in> set (ps_symbol_ids ps)" by (rule map_of_SomeD)
    with Some assms(1) ok show ?thesis by (force simp: get_symbol_id_def ids_of_def)
  qed
  with le show ?thesis by (simp add: keeps_def)
qed

lemma keeps_generate_symbol_id:
  assumes "generate_symbol_id name ps = (i, ps')" "CHR ''_'' \<notin> set name"
  shows "keeps (\<lambda>_. True) ps ps' (\<lambda>ids. i \<in> ids)"
proof -
  define key where "key = name @ ''_'' @ to_string (unat (next_id ps))"
  have ps': "ps' = with_symbol key ps" "i = next_id ps"
    using assms(1) by (auto simp: generate_symbol_id_def with_symbol_def key_def)
  have le: "few_ids ps' \<Longrightarrow> few_ids ps"
    using length_update_le [of "ps_symbol_ids ps" key "next_id ps"] by (simp add: ps' with_symbol_def few_ids_def)
  have "parser_ok ps' \<and> ids_of ps' = insert i (ids_of ps)" if small: "few_ids ps'" and ok: "parser_ok ps"
    using with_symbol_ok [OF ok le [OF small] generated_fresh [OF ok le [OF small] assms(2)]] assms(2)
    unfolding ps' key_def by blast
  with le show ?thesis by (auto simp: keeps_def)
qed

lemma add_rule_ids [simp]: "ps_symbol_ids (add_rule i rule ps) = ps_symbol_ids ps"
  by (simp add: add_rule_def Let_def)

lemma add_rule_known [simp]: "ids_of (add_rule i rule ps) = ids_of ps" "few_ids (add_rule i rule ps) = few_ids ps"
  by (simp_all add: ids_of_def few_ids_def)

lemma add_rule_rules: "rule' \<in> set (ps_rules (add_rule i rule ps)) \<Longrightarrow> rule' = rule \<or> rule' = [] \<or> rule' \<in> set (ps_rules ps)"
  by (auto simp: add_rule_def Let_def vec_resize_def dest!: subsetD [OF set_update_subset_insert] split: if_splits dest: in_set_takeD)

lemma add_rule_ok: "parser_ok ps \<Longrightarrow> rule_built (ids_of ps) rule \<Longrightarrow> parser_ok (add_rule i rule ps)"
  by (auto simp: parser_ok_def rule_built_def dest!: add_rule_rules)

lemma keeps_add_rule: "(\<And>ids. P ids \<Longrightarrow> rule_built ids rule \<and> Q ids) \<Longrightarrow> keeps P ps (add_rule i rule ps) Q"
  by (simp add: keeps_def add_rule_ok)

lemma rec_rule_built:
  assumes "sym_list prev" "known ids prev" "rec_id \<in> ids" "first \<or> last_id \<in> ids"
  shows "rule_built ids (rec_rule prev first no_max rec_id last_id)"
proof -
  define refs where "refs = (if \<not> first \<or> no_max then [elem GRE_RULE_REF (if no_max then rec_id else last_id)] else [])"
  have "sym_list refs" "known ids refs" using assms(3,4) by (auto simp: refs_def sym_list_one)
  then have "sym_list (prev @ refs @ [elem GRE_ALT 0])" "known ids (prev @ refs @ [elem GRE_ALT 0])"
    using assms(1,2) by (auto intro!: sym_list_append sym_list_one)
  then show ?thesis by (auto simp: rule_built_def rec_rule_def refs_def)
qed

lemma keeps_repeat_rules:
  assumes "repeat_rules n first name prev no_max last_id ps = (i, ps')" "CHR ''_'' \<notin> set name" "sym_list prev"
  shows "keeps (\<lambda>ids. known ids prev \<and> (first \<or> last_id \<in> ids)) ps ps' (\<lambda>ids. 0 < n \<or> \<not> first \<longrightarrow> i \<in> ids)"
  using assms(1)
proof (induction n arbitrary: first last_id ps)
  case (Suc n)
  obtain j ps1 where g: "generate_symbol_id name ps = (j, ps1)" by (cases "generate_symbol_id name ps")
  define ps2 where "ps2 = add_rule j (rec_rule prev first no_max j last_id) ps1"
  have rest: "repeat_rules n False name prev no_max j ps2 = (i, ps')" using Suc.prems g by (simp add: ps2_def)
  have "keeps (\<lambda>ids. known ids prev \<and> (first \<or> last_id \<in> ids)) ps ps1
      (\<lambda>ids. j \<in> ids \<and> known ids prev \<and> (first \<or> last_id \<in> ids))"
    by (rule keeps_weaken [OF keeps_generate_symbol_id [OF g assms(2)]]) (auto intro: known_mono)
  moreover have "keeps (\<lambda>ids. j \<in> ids \<and> known ids prev \<and> (first \<or> last_id \<in> ids)) ps1 ps2
      (\<lambda>ids. known ids prev \<and> (False \<or> j \<in> ids))"
    unfolding ps2_def by (rule keeps_add_rule) (auto intro: rec_rule_built [OF assms(3)])
  moreover have "keeps (\<lambda>ids. known ids prev \<and> (False \<or> j \<in> ids)) ps2 ps' (\<lambda>ids. 0 < Suc n \<or> \<not> first \<longrightarrow> i \<in> ids)"
    by (rule keeps_weaken [OF Suc.IH [OF rest]]) auto
  ultimately show ?case by (blast intro: keeps_trans)
qed (auto intro: keeps_refl)

text \<open>The rule under construction, with the start of its last symbol.\<close>

definition seq_ok :: "grammar_rule \<Rightarrow> nat \<Rightarrow> bool" where
  "seq_ok rule k \<longleftrightarrow> k \<le> length rule \<and> sym_list (take k rule) \<and> sym_list (drop k rule)"

lemma seq_ok_sym_list: "seq_ok rule k \<Longrightarrow> sym_list rule"
  using sym_list_append [of "take k rule" "drop k rule"] by (simp add: seq_ok_def)

lemma seq_ok_append: "seq_ok rule k \<Longrightarrow> sym_list xs \<Longrightarrow> seq_ok (rule @ xs) (length rule)"
  using seq_ok_sym_list [of rule k] by (simp add: seq_ok_def)

lemma known_take_drop: "known ids rule \<Longrightarrow> known ids (take k rule) \<and> known ids (drop k rule)"
  unfolding known_def by (blast dest: in_set_takeD in_set_dropD)

lemma handle_repetitions_ok:
  assumes "handle_repetitions name m n rule k ps = Inr (rule', ps')" "CHR ''_'' \<notin> set name" "seq_ok rule k"
  shows "seq_ok rule' k \<and> keeps (\<lambda>ids. known ids rule) ps ps' (\<lambda>ids. known ids rule')"
proof -
  define prev where "prev = drop k rule"
  define rep where "rep = (if m = 0 then [] else prev @ concat (replicate (unat m - 1) prev))"
  obtain i ps1 where r: "repeat_rules (n_opt m n) True name prev (n = UINT64_MAX) 0 ps = (i, ps1)"
    by (cases "repeat_rules (n_opt m n) True name prev (n = UINT64_MAX) 0 ps")
  define ref where "ref = (if 0 < n_opt m n then [elem GRE_RULE_REF i] else [])"
  have out: "rule' = take k rule @ rep @ ref" "ps' = ps1"
    using assms(1) r append_take_drop_id [of k rule]
    by (auto simp: handle_repetitions_def Let_def prev_def rep_def ref_def split: if_splits simp del: append_take_drop_id)
  have prev: "sym_list prev" and k: "k \<le> length rule" "sym_list (take k rule)" using assms(3) by (auto simp: seq_ok_def prev_def)
  have "sym_list rep" using prev by (auto simp: rep_def intro!: sym_list_append sym_list_concat)
  moreover have "sym_list ref" by (simp add: ref_def sym_list_one)
  ultimately have seq: "seq_ok rule' k" using k by (simp add: seq_ok_def out(1) sym_list_append)
  have new: "known ids rule'" if "known ids rule" "0 < n_opt m n \<longrightarrow> i \<in> ids" for ids
    using that known_take_drop [of ids rule k] by (auto simp: out(1) rep_def ref_def prev_def intro!: known_concat)
  have "keeps (\<lambda>ids. known ids rule) ps ps1 (\<lambda>ids. known ids rule')"
  proof (rule keeps_weaken [OF keeps_repeat_rules [OF r assms(2) prev]])
    fix ids ids'
    show "known ids rule \<Longrightarrow> known ids prev \<and> (True \<or> 0 \<in> ids)" by (simp add: prev_def known_take_drop)
    assume "known ids rule" "ids \<subseteq> ids'" "0 < n_opt m n \<or> \<not> True \<longrightarrow> i \<in> ids'"
    then show "known ids' rule'" by (intro new) (auto intro: known_mono)
  qed
  with seq out(2) show ?thesis by simp
qed

lemma word_no_underscore: "is_word_char c \<Longrightarrow> c \<noteq> CHR ''_''"
  by (auto simp: is_word_char_def is_digit_char_def)

lemma parse_name_no_underscore: "parse_name src = Inr (name, rest) \<Longrightarrow> CHR ''_'' \<notin> set name"
  by (auto simp: parse_name_def dest!: set_takeWhileD word_no_underscore split: if_splits)

lemma seq_item_ok:
  assumes "seq_item name b (pos, ps, rule, k) = Inr (Some (pos', ps', rule', k'))" "CHR ''_'' \<notin> set name" "seq_ok rule k"
  shows "seq_ok rule' k' \<and> keeps (\<lambda>ids. known ids rule) ps ps' (\<lambda>ids. known ids rule')"
proof (cases pos)
  case (Cons c cs)
  have append: "seq_ok (rule @ xs) (length rule) \<and> keeps (\<lambda>ids. known ids rule) ps ps (\<lambda>ids. known ids (rule @ xs))"
    if "sym_list xs" "\<And>ids. known ids xs" for xs using that assms(3) by (auto simp: seq_ok_append intro: keeps_refl)
  from assms(1) [unfolded Cons] show ?thesis
  proof (cases rule: seq_item_cases)
    case (literal q)
    then obtain vs where "rule' = rule @ map (elem GRE_CHAR) vs" using parse_literal_sym by blast
    with literal show ?thesis using append [OF sym_list_literal] by (auto simp: known_def)
  next
    case (range t cs' q)
    have "parse_range t (length rule) cs' (rule @ []) = Inr (q, rule')" "range_list []" using range by (auto simp: range_list_def)
    then obtain cls where cls: "rule' = rule @ cls" "range_list cls" using parse_range_range range(1) by blast
    then have "sym_list cls" "\<And>ids. known ids cls" by (auto simp: range_list_def intro: known_range)
    with range cls show ?thesis using append by simp
  next
    case (token t v q src)
    then have "sym_list [elem t v]" "\<And>ids. known ids [elem t v]" by (auto simp: sym_list_one)
    then show ?thesis using append token by (simp del: known_simps)
  next
    case (ref r q i)
    have "keeps (\<lambda>ids. known ids rule) ps ps' (\<lambda>ids. known ids rule')"
      by (rule keeps_weaken [OF keeps_get_symbol_id [OF ref(2) parse_name_no_underscore [OF ref(1)]]])
        (auto simp: ref intro: known_mono)
    with ref assms(3) show ?thesis by (simp add: seq_ok_append sym_list_one)
  next
    case any
    then have "sym_list [elem GRE_CHAR_ANY 0]" "\<And>ids. known ids [elem GRE_CHAR_ANY 0]" by (auto simp: sym_list_one)
    then show ?thesis using append any by (simp del: known_simps)
  next
    case (repeat m n)
    then show ?thesis using handle_repetitions_ok [OF repeat(1) assms(2,3)] by simp
  qed
qed (use assms(1) in \<open>simp add: seq_item_def\<close>)

lemma fuel_bind_Inr: "fuel_bind r k = Some (Inr y) \<longleftrightarrow> (\<exists>x. r = Some (Inr x) \<and> k x = Some (Inr y))"
  by (cases r) (auto simp: fuel_bind_def split: sum.splits)

definition seq_keeps :: "nat \<Rightarrow> bool" where
  "seq_keeps n \<longleftrightarrow> (\<forall>name b pos ps rule k pos' ps' rule'. CHR ''_'' \<notin> set name \<longrightarrow> seq_ok rule k
     \<longrightarrow> parse_sequence n name b (pos, ps, rule, k) = Some (Inr (pos', ps', rule'))
     \<longrightarrow> sym_list rule' \<and> keeps (\<lambda>ids. known ids rule) ps ps' (\<lambda>ids. known ids rule'))"

definition alts_keep :: "nat \<Rightarrow> bool" where
  "alts_keep n \<longleftrightarrow> (\<forall>name i b src ps pos' ps'. CHR ''_'' \<notin> set name
     \<longrightarrow> parse_alternates n name i b src ps = Some (Inr (pos', ps')) \<longrightarrow> keeps (\<lambda>_. True) ps ps' (\<lambda>_. True))"

definition more_keep :: "nat \<Rightarrow> bool" where
  "more_keep n \<longleftrightarrow> (\<forall>name i b pos ps rule pos' ps'. CHR ''_'' \<notin> set name \<longrightarrow> sym_list rule
     \<longrightarrow> parse_more_alternates n name i b pos ps rule = Some (Inr (pos', ps'))
     \<longrightarrow> keeps (\<lambda>ids. known ids rule) ps ps' (\<lambda>_. True))"

lemma seq_keepsD:
  "seq_keeps n \<Longrightarrow> parse_sequence n name b (pos, ps, rule, k) = Some (Inr (pos', ps', rule')) \<Longrightarrow> CHR ''_'' \<notin> set name
   \<Longrightarrow> seq_ok rule k \<Longrightarrow> sym_list rule' \<and> keeps (\<lambda>ids. known ids rule) ps ps' (\<lambda>ids. known ids rule')"
  unfolding seq_keeps_def by blast

lemma seq_keeps_group:
  assumes "alts_keep n" "seq_keeps n" "CHR ''_'' \<notin> set name" "seq_ok rule k"
    and "parse_sequence (Suc n) name b (CHR ''('' # cs, ps, rule, k) = Some (Inr (pos', ps', rule'))"
  shows "sym_list rule' \<and> keeps (\<lambda>ids. known ids rule) ps ps' (\<lambda>ids. known ids rule')"
proof -
  obtain i ps1 where g: "generate_symbol_id name ps = (i, ps1)" by (cases "generate_symbol_id name ps")
  obtain pos2 ps2 pos3 where a: "parse_alternates n name i True (parse_space True cs) ps1 = Some (Inr (pos2, ps2))"
    and s: "parse_sequence n name b (parse_space b pos3, ps2, rule @ [elem GRE_RULE_REF i], length rule) = Some (Inr (pos', ps', rule'))"
    using assms(5) g by (auto simp: parse_sequence.simps fuel_bind_Inr)
  have "seq_ok (rule @ [elem GRE_RULE_REF i]) (length rule)" by (rule seq_ok_append [OF assms(4)]) (simp add: sym_list_one)
  note rest = seq_keepsD [OF assms(2) s assms(3) this]
  have "keeps (\<lambda>ids. known ids rule) ps ps1 (\<lambda>ids. known ids (rule @ [elem GRE_RULE_REF i]))"
    by (rule keeps_weaken [OF keeps_generate_symbol_id [OF g assms(3)]]) (auto intro: known_mono)
  moreover have "keeps (\<lambda>ids. known ids (rule @ [elem GRE_RULE_REF i])) ps1 ps2 (\<lambda>ids. known ids (rule @ [elem GRE_RULE_REF i]))"
  proof (rule keeps_weaken)
    show "keeps (\<lambda>_. True) ps1 ps2 (\<lambda>_. True)" using assms(1,3) a unfolding alts_keep_def by blast
  qed (rule TrueI, rule known_mono)
  ultimately show ?thesis using rest by (blast intro: keeps_trans)
qed

lemma seq_keeps_item:
  assumes "seq_keeps n" "CHR ''_'' \<notin> set name" "seq_ok rule k" "\<not> (pos \<noteq> [] \<and> hd pos = CHR ''('')"
    and "parse_sequence (Suc n) name b (pos, ps, rule, k) = Some (Inr (pos', ps', rule'))"
  shows "sym_list rule' \<and> keeps (\<lambda>ids. known ids rule) ps ps' (\<lambda>ids. known ids rule')"
proof -
  obtain nxt where i: "seq_item name b (pos, ps, rule, k) = Inr nxt"
    and n: "(case nxt of None \<Rightarrow> Some (Inr (pos, ps, rule)) | Some st \<Rightarrow> parse_sequence n name b st) = Some (Inr (pos', ps', rule'))"
    using assms(5) unfolding parse_sequence_item [OF assms(4)] by (auto simp: fuel_bind_Inr)
  show ?thesis
  proof (cases nxt)
    case None
    with n show ?thesis using seq_ok_sym_list [OF assms(3)] by (simp add: keeps_refl)
  next
    case (Some st)
    obtain p1 ps1 rule1 k1 where st: "st = (p1, ps1, rule1, k1)" by (cases st)
    have item: "seq_ok rule1 k1 \<and> keeps (\<lambda>ids. known ids rule) ps ps1 (\<lambda>ids. known ids rule1)"
      using seq_item_ok [OF _ assms(2,3)] i Some st by blast
    have "parse_sequence n name b (p1, ps1, rule1, k1) = Some (Inr (pos', ps', rule'))" using n Some st by simp
    from seq_keepsD [OF assms(1) this assms(2)] item show ?thesis by (blast intro: keeps_trans)
  qed
qed

lemma seq_keeps_Suc:
  assumes IH: "seq_keeps n" "alts_keep n"
  shows "seq_keeps (Suc n)"
  unfolding seq_keeps_def
proof (intro allI impI)
  fix name b pos ps rule k pos' ps' rule'
  assume *: "CHR ''_'' \<notin> set name" "seq_ok rule k" "parse_sequence (Suc n) name b (pos, ps, rule, k) = Some (Inr (pos', ps', rule'))"
  show "sym_list rule' \<and> keeps (\<lambda>ids. known ids rule) ps ps' (\<lambda>ids. known ids rule')"
  proof (cases "pos \<noteq> [] \<and> hd pos = CHR ''(''")
    case True
    then obtain cs where "pos = CHR ''('' # cs" by (cases pos) auto
    with * show ?thesis using seq_keeps_group IH by blast
  next
    case False
    with * show ?thesis using seq_keeps_item IH by blast
  qed
qed

lemma alts_keep_Suc:
  assumes IH: "seq_keeps n" "more_keep n"
  shows "alts_keep (Suc n)"
  unfolding alts_keep_def
proof (intro allI impI)
  fix name i b src ps pos' ps'
  assume name: "CHR ''_'' \<notin> set name" and p: "parse_alternates (Suc n) name i b src ps = Some (Inr (pos', ps'))"
  obtain pos1 ps1 rule1 where s: "parse_sequence n name b (src, ps, [], 0) = Some (Inr (pos1, ps1, rule1))"
    and m: "parse_more_alternates n name i b pos1 ps1 rule1 = Some (Inr (pos', ps'))"
    using p by (auto simp: parse_alternates.simps fuel_bind_Inr)
  have "sym_list rule1 \<and> keeps (\<lambda>ids. known ids []) ps ps1 (\<lambda>ids. known ids rule1)"
    using seq_keepsD [OF _ s name] IH by (simp add: seq_ok_def)
  then show "keeps (\<lambda>_. True) ps ps' (\<lambda>_. True)" using IH m name unfolding more_keep_def
    by (auto intro: keeps_trans)
qed

lemma more_keep_Suc:
  assumes IH: "seq_keeps n" "more_keep n"
  shows "more_keep (Suc n)"
  unfolding more_keep_def
proof (intro allI impI)
  fix name i b pos ps rule pos' ps'
  assume *: "CHR ''_'' \<notin> set name" "sym_list rule" "parse_more_alternates (Suc n) name i b pos ps rule = Some (Inr (pos', ps'))"
  show "keeps (\<lambda>ids. known ids rule) ps ps' (\<lambda>_. True)"
  proof (cases "pos \<noteq> [] \<and> hd pos = CHR ''|''")
    case True
    then obtain pos1 ps1 rule1 where
      s: "parse_sequence n name b (parse_space True (tl pos), ps, rule @ [elem GRE_ALT 0], length rule + 1) = Some (Inr (pos1, ps1, rule1))"
      and m: "parse_more_alternates n name i b pos1 ps1 rule1 = Some (Inr (pos', ps'))"
      using *(3) by (auto simp: parse_more_alternates.simps fuel_bind_Inr)
    have "seq_ok (rule @ [elem GRE_ALT 0]) (length rule + 1)" using *(2) by (simp add: seq_ok_def sym_list_append sym_list_one)
    then have "sym_list rule1 \<and> keeps (\<lambda>ids. known ids rule) ps ps1 (\<lambda>ids. known ids rule1)"
      using seq_keepsD [OF _ s *(1)] IH by simp
    then show ?thesis using IH m *(1) unfolding more_keep_def by (blast intro: keeps_trans)
  next
    case False
    then have "ps' = add_rule i (rule @ [elem GRE_END 0]) ps" using *(3) by (auto simp: parse_more_alternates.simps split: if_splits)
    then show ?thesis using *(2) by (auto simp: rule_built_def intro!: keeps_add_rule)
  qed
qed

lemma parser_keeps: "seq_keeps n \<and> alts_keep n \<and> more_keep n"
proof (induction n)
  case 0
  show ?case by (simp add: seq_keeps_def alts_keep_def more_keep_def parse_sequence.simps parse_alternates.simps parse_more_alternates.simps)
next
  case (Suc n)
  then show ?case by (simp add: seq_keeps_Suc alts_keep_Suc more_keep_Suc)
qed

lemma parse_rule_keeps:
  assumes "parse_rule n src ps = Some (Inr (pos', ps'))"
  shows "keeps (\<lambda>_. True) ps ps' (\<lambda>_. True)"
proof -
  obtain name p1 where n: "parse_name src = Inr (name, p1)" using assms by (auto simp: parse_rule_def fuel_bind_Inr)
  obtain i ps1 where g: "get_symbol_id name ps = (i, ps1)" by (cases "get_symbol_id name ps")
  obtain q pos2 where a: "parse_alternates n name i False q ps1 = Some (Inr (pos2, ps'))"
    using assms n g by (auto simp: parse_rule_def fuel_bind_Inr)
  note name = parse_name_no_underscore [OF n]
  have "keeps (\<lambda>_. True) ps ps1 (\<lambda>_. True)" by (rule keeps_weaken [OF keeps_get_symbol_id [OF g name]]) auto
  moreover have "keeps (\<lambda>_. True) ps1 ps' (\<lambda>_. True)" using parser_keeps [of n] name a unfolding alts_keep_def by blast
  ultimately show ?thesis by (rule keeps_trans)
qed

lemma parse_rules_keep: "parse_rules n pos ps = Some (Inr ps') \<Longrightarrow> keeps (\<lambda>_. True) ps ps' (\<lambda>_. True)"
proof (induction n pos ps rule: parse_rules.induct)
  case (2 n pos ps)
  show ?case
  proof (cases "pos = []")
    case True
    with "2.prems" show ?thesis by (simp add: parse_rules.simps keeps_refl)
  next
    case False
    then obtain pos1 ps1 where r: "parse_rule n pos ps = Some (Inr (pos1, ps1))" "parse_rules n pos1 ps1 = Some (Inr ps')"
      using "2.prems" by (auto simp: parse_rules.simps fuel_bind_Inr)
    then show ?thesis using keeps_trans [OF parse_rule_keeps [OF r(1)]] "2.IH" [OF False] by blast
  qed
qed (simp add: parse_rules.simps)

text \<open>The validation at the end of \<open>parse\<close> finds every reference without a rule.\<close>

lemma map_filter_Nil: "List.map_filter f xs = [] \<longleftrightarrow> (\<forall>x \<in> set xs. f x = None)"
  by (induction xs) (auto simp: List.map_filter_simps split: option.splits)

lemma check_rules_None: "check_rules ps = None \<longleftrightarrow> (\<forall>rule \<in> set (ps_rules ps). rule \<noteq> [] \<and> (\<forall>e \<in> set rule. check_elem ps e = None))"
proof -
  have first: "(case xs of [] \<Rightarrow> None | err # _ \<Rightarrow> Some err) = None \<longleftrightarrow> xs = []" for xs :: "parse_error list"
    by (cases xs) auto
  show ?thesis by (auto simp: check_rules_def check_rule_def first map_filter_Nil)
qed

lemma check_elem_ref:
  assumes "check_elem ps e = None" "e_type e = GRE_RULE_REF" "e_value e \<in> ids_of ps"
  shows "unat (e_value e) < length (ps_rules ps)"
proof (rule ccontr)
  assume "\<not> ?thesis"
  then have "find (\<lambda>(_, i). i = e_value e) (ps_symbol_ids ps) = None" using assms(1,2) by (auto simp: check_elem_def)
  then show False using assms(3) by (auto simp: find_None_iff ids_of_def)
qed

lemma checked_rule_ok:
  assumes "rule_built (ids_of ps) rule" "rule \<noteq> []" "\<forall>e \<in> set rule. check_elem ps e = None"
  shows "rule_ok (length (ps_rules ps)) rule"
proof -
  obtain body where body: "rule = body @ [elem GRE_END 0]" "sym_list body" "known (ids_of ps) body"
    using assms(1,2) by (auto simp: rule_built_def)
  have "refs_below (length (ps_rules ps)) rule"
    using assms(3) body(1,3) check_elem_ref [of ps] by (auto simp: refs_below_def known_def)
  moreover have "successively may_follow ((GRE_ALT # map e_type body) @ [GRE_END])"
    using body(2) unfolding successively_append_iff by (simp add: sym_list_def)
  ultimately show ?thesis using body(1,2) by (auto simp: rule_ok_def sym_list_def)
qed

lemma parser_new_ok: "parser_ok (parser_new v)"
  by (simp add: parser_ok_def parser_new_def)

lemma parse_rules_ok:
  assumes "parse src (parser_new v) = Some (Inr ps)" "few_ids ps"
  shows "parser_ok ps \<and> rules_ok (ps_rules ps)"
proof -
  have p: "parse_rules (parse_fuel src) (parse_space True src) (parser_new v) = Some (Inr ps)" "check_rules ps = None"
    using assms(1) by (auto simp: parse_def fuel_bind_Inr split: option.splits)
  have ok: "parser_ok ps" using parse_rules_keep [OF p(1)] assms(2) parser_new_ok by (simp add: keeps_def)
  then show ?thesis using p(2) checked_rule_ok by (auto simp: rules_ok_def parser_ok_def check_rules_None)
qed

text \<open>
  C39 (type): every text the parser accepts yields rules on which the engine cannot go wrong: each rule is
  a nonempty sequence of complete symbols closed by its only end marker, a further character of a range
  or its upper bound only follows a character of a range, and every reference names an existing rule.
  The one condition is that the grammar has fewer than \<open>2\<^sup>3\<^sup>2\<close> symbols, generated ones included.
\<close>

theorem parse_wellformed:
  assumes "parse src (parser_new v) = Some (Inr ps)" "length (ps_symbol_ids ps) < 2 ^ 32"
  shows "rules_ok (ps_rules ps)"
  using parse_rules_ok [OF assms(1)] assms(2) by (simp add: few_ids_def)

theorem parse_wellformed_witness:
  "\<exists>ps. parse ''root ::= [a-c]+ (root | .)'' (parser_new None) = Some (Inr ps) \<and> length (ps_rules ps) = 3 \<and> rules_ok (ps_rules ps)"
proof -
  have "case parse ''root ::= [a-c]+ (root | .)'' (parser_new None) of
      Some (Inr ps) \<Rightarrow> length (ps_rules ps) = 3 \<and> length (ps_symbol_ids ps) = 3 | _ \<Rightarrow> False"
    by code_simp
  then obtain ps where "parse ''root ::= [a-c]+ (root | .)'' (parser_new None) = Some (Inr ps)"
      "length (ps_rules ps) = 3" "length (ps_symbol_ids ps) = 3" by (auto split: option.splits sum.splits)
  then show ?thesis using parse_wellformed [of "''root ::= [a-c]+ (root | .)''" None ps] by auto
qed

end
