(* ===== verification/Grammar_Text.thy ===== *)
theory Grammar_Text
  imports Grammar_Parser_Wf
begin

text \<open>
  Grammars constructed from a text: parser, left-recursion check and engine together, and two texts on
  which the code does something else than it means to.
\<close>

section \<open>The language of a grammar text\<close>

text \<open>
  C37 (functional): if a text parses (with fewer than \<open>2 ^ 32\<close> symbols), defines its start symbol, a rule for it and the symbol \<open>root\<close>, and
  no rule refers to itself at its left end, directly or through references and with references before
  them that may be empty, the constructor returns a grammar; every sequence of characters can be given
  to it, and generation may end exactly when the start symbol derives the sequence by the parsed rules.
\<close>

theorem grammar_text_language:
  assumes "parse src (parser_new vocab) = Some (Inr ps)" "length (ps_symbol_ids ps) < 2 ^ 32"
    and "no_left_recursion (ps_rules ps)" "map_of (ps_symbol_ids ps) ''root'' \<noteq> None"
    and "map_of (ps_symbol_ids ps) grammar_root = Some start" "unat start < length (ps_rules ps)"
  shows "\<exists>g. init_impl_str vocab o_vocab src grammar_root lazy patterns tokens = Some (Some g)
     \<and> (\<forall>w. \<exists>g'. foldo (\<lambda>c g. grammar_accept g c) w g = Some g'
          \<and> ([] \<in> set (g_stacks g') \<longleftrightarrow> rule_derives (ps_rules ps) (unat start) w))"
proof -
  define rules where "rules = ps_rules ps"
  have ok: "rules_ok rules" using parse_rules_ok [OF assms(1)] assms(2) by (simp add: few_ids_def rules_def)
  note free = no_left_recursion_free [OF ok, unfolded rules_def, OF assms(3)]
  obtain sts where sts: "initial_stacks rules (unat start) = Some sts" "stacks_ok rules sts"
      "\<And>w. stacks_derive rules sts w \<longleftrightarrow> rule_derives rules (unat start) w"
    using initial_stacks_spec [OF ok] free assms(6) unfolding rules_def by metis
  define g where "g = grammar_of vocab o_vocab rules sts lazy tokens patterns"
  have "rules \<noteq> []" using assms(6) by (auto simp: rules_def)
  moreover have "has_left_recursion rules = Some False"
    using no_left_recursion_check [OF ok] assms(3) by (simp add: rules_def)
  ultimately have "init_impl_str vocab o_vocab src grammar_root lazy patterns tokens = Some (Some g)"
    using assms(1,4,5) copy_rules_ok [OF ok] sts(1) by (simp add: init_impl_str_def rules_def g_def)
  moreover have "g_rules g = rules" "g_stacks g = sts" by (simp_all add: g_def grammar_of_def)
  ultimately show ?thesis using accepts_language [OF ok _ _ _] free sts(2,3) unfolding rules_def by metis
qed

text \<open>
  A grammar with a rule that may be empty and has no empty alternate of its own: \<open>root ::= ws "x"\<close>,
  \<open>ws ::= [a]*\<close>.
\<close>

definition demo_text :: string where
  "demo_text = ''root ::= ws '' @ [CHR 0x22, CHR ''x'', CHR 0x22, CHR 0x0A] @ ''ws ::= [a]*''"

definition space_rules :: grammar_rules where
  "space_rules =
     [[elem GRE_RULE_REF 1, elem GRE_CHAR 0x78, elem GRE_END 0],
      [elem GRE_RULE_REF 2, elem GRE_END 0],
      [elem GRE_CHAR 0x61, elem GRE_RULE_REF 2, elem GRE_ALT 0, elem GRE_END 0]]"

lemma demo_text_parse:
  obtains ps where "parse demo_text (parser_new None) = Some (Inr ps)"
    and "ps_symbol_ids ps = [(''root'', 0), (''ws'', 1), (''ws_2'', 2)]" "ps_rules ps = space_rules"
proof -
  have "case parse demo_text (parser_new None) of
      Some (Inr ps) \<Rightarrow> ps_symbol_ids ps = [(''root'', 0), (''ws'', 1), (''ws_2'', 2)] \<and> ps_rules ps = space_rules | _ \<Rightarrow> False"
    by code_simp
  then show ?thesis using that by (auto split: option.splits sum.splits)
qed

lemma space_rules_begins: "begins space_rules r k \<Longrightarrow> r = 2 \<longrightarrow> k = 0 \<or> k = 3"
proof (induction rule: begins.induct)
  case (starts r subs sub)
  have "alternates (space_rules ! 2) = Some [0, 3]" by code_simp
  with starts show ?case by auto
qed (auto simp: space_rules_def)

lemma space_rules_free: "no_left_recursion space_rules"
proof (rule no_left_recursionI)
  fix r r' assume "left_ref space_rules r r'"
  then obtain k where k: "r < 3" "begins space_rules r k" "k < length (space_rules ! r)"
      "e_type (space_rules ! r ! k) = GRE_RULE_REF" "unat (e_value (space_rules ! r ! k)) = r'"
    by (auto simp: left_ref_def space_rules_def)
  then have r: "r = 0 \<or> r = 1 \<or> r = 2" by linarith
  then have "k = 0 \<or> k = 1 \<or> k = 2 \<or> k = 3" using k(3) by (auto simp: space_rules_def)
  then show "r < r'" using space_rules_begins [OF k(2)] r k(3-5) by (elim disjE) (simp_all add: space_rules_def)
qed

theorem grammar_text_language_witness:
  "\<exists>g. init_impl_str None None demo_text ''root'' False [] [] = Some (Some g)
     \<and> (\<forall>w. \<exists>g'. foldo (\<lambda>c g. grammar_accept g c) w g = Some g' \<and> ([] \<in> set (g_stacks g') \<longleftrightarrow> rule_derives space_rules 0 w))"
proof -
  obtain ps where "parse demo_text (parser_new None) = Some (Inr ps)"
      "ps_symbol_ids ps = [(''root'', 0), (''ws'', 1), (''ws_2'', 2)]" "ps_rules ps = space_rules" by (rule demo_text_parse)
  moreover have "0 < length space_rules" by (simp add: space_rules_def)
  ultimately show ?thesis
    using grammar_text_language [of demo_text None ps "''root''" 0 None False "[]" "[]"] space_rules_free by simp
qed

section \<open>Two texts\<close>

text \<open>
  A rule that is defined twice leaves the symbols of its first definition behind: here \<open>root\<close> is a symbol
  without a rule, which the check of the rules does not see, and the constructor reads a rule behind the
  end of the vector.
\<close>

lemma redefined_rule_leaves_symbol:
  "init_impl_str None None (''a ::= root'' @ [CHR 0x0A] @ ''a ::= .'') ''root'' False [] [] = None"
  by code_simp

text \<open>Bounds in the wrong order are not rejected; their difference wraps around.\<close>

lemma bounds_in_wrong_order:
  "parse_bounds False ''3,2}'' = Inr (3, 2, [])" "n_opt 3 2 = 2 ^ 64 - 1"
proof -
  show "parse_bounds False ''3,2}'' = Inr (3, 2, [])" by code_simp
  show "n_opt 3 2 = 2 ^ 64 - 1" by (simp add: n_opt_def UINT64_MAX_def unsigned_minus_1_eq_mask mask_eq_exp_minus_1)
qed

end
