(* ===== verification/Grammar_Repeat.thy ===== *)
theory Grammar_Repeat
  imports Grammar_Parser_Wf
begin

text \<open>
  The repetition operators. The parser rewrites \<open>x{m,n}\<close> to copies of \<open>x\<close> and references to generated
  rules; here the language of what it writes is shown to be the repetitions of the language of \<open>x\<close>.
\<close>

section \<open>The language of a list of elements\<close>

text \<open>Elements of one alternate: complete symbols, no end of an alternate among them.\<close>

definition item_list :: "grammar_rule \<Rightarrow> bool" where
  "item_list xs \<longleftrightarrow> sym_list xs \<and> (\<forall>e \<in> set xs. e_type e \<noteq> GRE_ALT)"

definition starts_symbol :: "grammar_rule \<Rightarrow> bool" where
  "starts_symbol xs \<longleftrightarrow> xs \<noteq> [] \<and> e_type (hd xs) \<notin> {GRE_CHAR_ALT, GRE_CHAR_RNG_UPPER}"

definition is_char_elem :: "grammar_element \<Rightarrow> bool" where
  "is_char_elem e \<longleftrightarrow> e_type e \<in> {GRE_CHAR, GRE_CHAR_NOT, GRE_CHAR_ANY}"

inductive elems_derive :: "grammar_rules \<Rightarrow> grammar_rule \<Rightarrow> code_point list \<Rightarrow> bool" for rules where
  elems_nil: "elems_derive rules [] []"
| elems_ref: "e_type e = GRE_RULE_REF \<Longrightarrow> rule_derives rules (unat (e_value e)) u \<Longrightarrow> elems_derive rules xs v
    \<Longrightarrow> elems_derive rules (e # xs) (u @ v)"
| elems_chr: "is_char_elem e \<Longrightarrow> match_loop c False 0 ((e # xs) @ [elem GRE_END 0]) = Some (is_positive_char e, j)
    \<Longrightarrow> elems_derive rules (drop j (e # xs)) v \<Longrightarrow> elems_derive rules (e # xs) (c # v)"

inductive_simps elems_derive_Nil [simp]: "elems_derive rules [] w"
inductive_simps elems_derive_Cons: "elems_derive rules (e # xs) w"

lemma item_list_Nil [simp]: "item_list []"
  by (simp add: item_list_def)

lemma item_list_append: "item_list xs \<Longrightarrow> item_list ys \<Longrightarrow> item_list (xs @ ys)"
  by (auto simp: item_list_def intro: sym_list_append)

lemma item_list_ref: "item_list [elem GRE_RULE_REF v]"
  by (simp add: item_list_def sym_list_one)

lemma item_list_starts: "item_list xs \<Longrightarrow> xs \<noteq> [] \<Longrightarrow> starts_symbol xs"
  by (cases xs) (auto simp: item_list_def sym_list_def starts_symbol_def)

text \<open>A tail that starts with a symbol is a list of items again.\<close>

lemma may_follow_new: "t \<notin> {GRE_CHAR_ALT, GRE_CHAR_RNG_UPPER} \<Longrightarrow> may_follow u t"
  by (cases t) auto

definition tail_list :: "grammar_rule \<Rightarrow> bool" where
  "tail_list xs \<longleftrightarrow> successively may_follow (map e_type xs) \<and> (\<forall>e \<in> set xs. e_type e \<notin> {GRE_ALT, GRE_END})"

lemma tail_list_Cons: "tail_list (e # xs) \<Longrightarrow> tail_list xs"
  by (cases xs) (auto simp: tail_list_def)

lemma item_list_iff: "item_list xs \<longleftrightarrow> tail_list xs \<and> (xs \<noteq> [] \<longrightarrow> starts_symbol xs)"
  by (cases xs) (auto simp: item_list_def sym_list_def tail_list_def starts_symbol_def may_follow_new)

lemma item_list_cases:
  assumes "item_list (e # xs)"
  obtains "e_type e = GRE_RULE_REF" | "is_char_elem e" | "e_type e \<in> {GRE_TOKEN, GRE_TOKEN_NOT}"
  using assms by (cases "e_type e") (auto simp: item_list_def sym_list_def is_char_elem_def)

lemma item_list_tl_ref: "item_list (e # xs) \<Longrightarrow> e_type e = GRE_RULE_REF \<Longrightarrow> item_list xs"
  by (cases xs) (auto simp: item_list_iff tail_list_def starts_symbol_def dest: tail_list_Cons)

text \<open>
  Matching a character looks at the elements of its range only: how many there are, and which
  characters they contain, does not depend on what follows.
\<close>

lemma match_loop_split:
  assumes "tail_list xs" "xs \<noteq> []" "e_type (hd xs) \<in> {GRE_CHAR, GRE_CHAR_NOT, GRE_CHAR_ANY, GRE_CHAR_ALT}"
  shows "\<exists>j B. 0 < j \<and> j \<le> length xs \<and> item_list (drop j xs)
     \<and> (\<forall>c f k rest. starts_symbol rest \<longrightarrow> match_loop c f k (xs @ rest) = Some (f \<or> B c, k + j))"
  using assms
proof (induction "length xs" arbitrary: xs rule: less_induct)
  case less
  obtain e es where xs: "xs = e # es" using less.prems(2) by (cases xs) auto
  have es: "tail_list es" using less.prems(1) tail_list_Cons xs by blast
  define b1 where "b1 c = (if e_type e = GRE_CHAR_ANY then True else e_value e = c)" for c
  consider (one) "es = []" | (upper) n fs where "es = n # fs" "e_type n = GRE_CHAR_RNG_UPPER"
    | (alt) n fs where "es = n # fs" "e_type n = GRE_CHAR_ALT"
    | (other) n fs where "es = n # fs" "e_type n \<notin> {GRE_CHAR_ALT, GRE_CHAR_RNG_UPPER}"
    by (cases es) auto
  then show ?case
  proof cases
    case one
    have "match_loop c f k (xs @ rest) = Some (f \<or> b1 c, k + 1)" if "starts_symbol rest" for c f k rest
      using that by (cases rest) (auto simp: xs one b1_def starts_symbol_def)
    then show ?thesis by (intro exI [of _ 1] exI [of _ b1]) (simp add: xs one)
  next
    case other
    have "item_list es" using es other by (simp add: item_list_iff starts_symbol_def)
    moreover have "match_loop c f k (xs @ rest) = Some (f \<or> b1 c, k + 1)" for c f k rest
      using other by (auto simp: xs b1_def)
    ultimately show ?thesis by (intro exI [of _ 1] exI [of _ b1]) (simp add: xs)
  next
    case alt
    obtain j B where j: "0 < j" "j \<le> length es" "item_list (drop j es)"
        "\<And>c f k rest. starts_symbol rest \<Longrightarrow> match_loop c f k (es @ rest) = Some (f \<or> B c, k + j)"
      using less.hyps [of es] es alt xs by auto
    have "match_loop c f k (xs @ rest) = Some (f \<or> (b1 c \<or> B c), k + Suc j)" if "starts_symbol rest" for c f k rest
      using j(4) [OF that, of c "f \<or> b1 c" "k + 1"] alt by (auto simp: xs b1_def)
    with j show ?thesis by (intro exI [of _ "Suc j"] exI [of _ "\<lambda>c. b1 c \<or> B c"]) (simp add: xs)
  next
    case upper
    have fs: "tail_list fs" using es tail_list_Cons upper by blast
    define b2 where "b2 c = (e_value e \<le> c \<and> c \<le> e_value n)" for c
    show ?thesis
    proof (cases "fs \<noteq> [] \<and> e_type (hd fs) = GRE_CHAR_ALT")
      case True
      obtain j B where j: "0 < j" "j \<le> length fs" "item_list (drop j fs)"
          "\<And>c f k rest. starts_symbol rest \<Longrightarrow> match_loop c f k (fs @ rest) = Some (f \<or> B c, k + j)"
        using less.hyps [of fs] fs upper xs True by auto
      obtain g gs where g: "fs = g # gs" "e_type g = GRE_CHAR_ALT" using True by (cases fs) auto
      have "match_loop c f k (xs @ rest) = Some (f \<or> (b2 c \<or> B c), k + Suc (Suc j))" if "starts_symbol rest" for c f k rest
        using j(4) [OF that, of c "f \<or> b2 c" "k + 2"] upper g by (auto simp: xs b2_def)
      with j upper show ?thesis by (intro exI [of _ "Suc (Suc j)"] exI [of _ "\<lambda>c. b2 c \<or> B c"]) (simp add: xs)
    next
      case False
      have "item_list fs" using fs es False upper
        by (cases fs) (auto simp: item_list_iff starts_symbol_def tail_list_def)
      moreover have "match_loop c f k (xs @ rest) = Some (f \<or> b2 c, k + 2)" if "starts_symbol rest" for c f k rest
        using that False upper by (cases fs; cases rest) (auto simp: xs b2_def starts_symbol_def)
      ultimately show ?thesis using upper by (intro exI [of _ 2] exI [of _ b2]) (simp add: xs)
    qed
  qed
qed

lemma item_split:
  assumes "item_list (e # xs)" "is_char_elem e"
  obtains j B where "0 < j" "j \<le> length (e # xs)" "item_list (drop j (e # xs))"
    and "\<And>c rest. starts_symbol rest \<Longrightarrow> match_loop c False 0 ((e # xs) @ rest) = Some (B c, j)"
    and "\<And>rules w. elems_derive rules (e # xs) w \<longleftrightarrow>
      (\<exists>c v. w = c # v \<and> B c = is_positive_char e \<and> elems_derive rules (drop j (e # xs)) v)"
proof -
  have t: "tail_list (e # xs)" using assms(1) by (simp add: item_list_iff)
  have "e_type (hd (e # xs)) \<in> {GRE_CHAR, GRE_CHAR_NOT, GRE_CHAR_ANY, GRE_CHAR_ALT}" using assms(2) by (auto simp: is_char_elem_def)
  from match_loop_split [OF t list.distinct(2) this] obtain j B where j: "0 < j" "j \<le> length (e # xs)" "item_list (drop j (e # xs))"
    and m: "\<forall>c f k rest. starts_symbol rest \<longrightarrow> match_loop c f k ((e # xs) @ rest) = Some (f \<or> B c, k + j)"
    by blast
  have m0: "match_loop c False 0 ((e # xs) @ rest) = Some (B c, j)" if "starts_symbol rest" for c rest
    using m that by fastforce
  have at_end: "match_loop c False 0 ((e # xs) @ [elem GRE_END 0]) = Some (B c, j)" for c
    by (rule m0) (simp add: starts_symbol_def)
  have "elems_derive rules (e # xs) w \<longleftrightarrow> (\<exists>c v. w = c # v \<and> B c = is_positive_char e \<and> elems_derive rules (drop j (e # xs)) v)" for rules w
    using assms(2) at_end unfolding elems_derive_Cons [of rules e xs w] by (auto simp: is_char_elem_def)
  with j m0 show ?thesis by (rule that)
qed

lemma elems_derive_ref:
  "e_type e = GRE_RULE_REF \<Longrightarrow> elems_derive rules (e # xs) w \<longleftrightarrow>
     (\<exists>u v. w = u @ v \<and> rule_derives rules (unat (e_value e)) u \<and> elems_derive rules xs v)"
  by (auto simp: elems_derive_Cons is_char_elem_def)

lemma elems_derive_token: "e_type e \<in> {GRE_TOKEN, GRE_TOKEN_NOT} \<Longrightarrow> \<not> elems_derive rules (e # xs) w"
  by (auto simp: elems_derive_Cons is_char_elem_def)

lemma append_split_left: "(\<exists>u v. w = u @ v \<and> (\<exists>a b. u = a @ b \<and> P a \<and> Q b) \<and> R v) \<longleftrightarrow>
    (\<exists>a x. w = a @ x \<and> P a \<and> (\<exists>b v. x = b @ v \<and> Q b \<and> R v))"
  by (metis append_assoc)

lemma cons_split_left: "(\<exists>u v. w = u @ v \<and> (\<exists>c b. u = c # b \<and> P c \<and> Q b) \<and> R v) \<longleftrightarrow>
    (\<exists>c x. w = c # x \<and> P c \<and> (\<exists>b v. x = b @ v \<and> Q b \<and> R v))"
  by (metis append_Cons)

lemma elems_derive_append:
  assumes "item_list xs" "item_list ys"
  shows "elems_derive rules (xs @ ys) w \<longleftrightarrow> (\<exists>u v. w = u @ v \<and> elems_derive rules xs u \<and> elems_derive rules ys v)"
  using assms(1)
proof (induction "length xs" arbitrary: xs w rule: less_induct)
  case less
  show ?case
  proof (cases xs)
    case (Cons e es)
    from less.prems show ?thesis unfolding Cons
    proof (cases rule: item_list_cases)
      case 1
      have "item_list es" using item_list_tl_ref less.prems Cons 1 by blast
      then have IH: "elems_derive rules (es @ ys) x \<longleftrightarrow> (\<exists>u v. x = u @ v \<and> elems_derive rules es u \<and> elems_derive rules ys v)" for x
        using less.hyps [of es] Cons by simp
      show "elems_derive rules ((e # es) @ ys) w \<longleftrightarrow> (\<exists>u v. w = u @ v \<and> elems_derive rules (e # es) u \<and> elems_derive rules ys v)"
        unfolding append_Cons elems_derive_ref [OF 1] IH append_split_left ..
    next
      case 2
      obtain j B where j: "0 < j" "j \<le> length (e # es)" "item_list (drop j (e # es))"
        and m: "\<And>c rest. starts_symbol rest \<Longrightarrow> match_loop c False 0 ((e # es) @ rest) = Some (B c, j)"
        and d: "\<And>rules w. elems_derive rules (e # es) w \<longleftrightarrow> (\<exists>c v. w = c # v \<and> B c = is_positive_char e \<and> elems_derive rules (drop j (e # es)) v)"
        using item_split [OF less.prems [unfolded Cons] 2] by blast
      have "starts_symbol (ys @ [elem GRE_END 0])"
        using item_list_starts [OF assms(2)] by (cases ys) (auto simp: starts_symbol_def)
      then have "match_loop c False 0 ((e # es @ ys) @ [elem GRE_END 0]) = Some (B c, j)" for c using m by simp
      moreover have dr: "drop j (e # es @ ys) = drop j (e # es) @ ys" using drop_append [of j "e # es" ys] j(2) by simp
      ultimately have d': "elems_derive rules (e # es @ ys) w \<longleftrightarrow>
          (\<exists>c v. w = c # v \<and> B c = is_positive_char e \<and> elems_derive rules (drop j (e # es) @ ys) v)"
        using 2 dr unfolding elems_derive_Cons [of rules e "es @ ys"] by (auto simp: is_char_elem_def)
      have IH: "elems_derive rules (drop j (e # es) @ ys) x \<longleftrightarrow>
          (\<exists>u v. x = u @ v \<and> elems_derive rules (drop j (e # es)) u \<and> elems_derive rules ys v)" for x
        using less.hyps [of "drop j (e # es)"] Cons j by simp
      show "elems_derive rules ((e # es) @ ys) w \<longleftrightarrow> (\<exists>u v. w = u @ v \<and> elems_derive rules (e # es) u \<and> elems_derive rules ys v)"
        unfolding append_Cons d' IH d cons_split_left ..
    next
      case 3
      then show "elems_derive rules ((e # es) @ ys) w \<longleftrightarrow> (\<exists>u v. w = u @ v \<and> elems_derive rules (e # es) u \<and> elems_derive rules ys v)"
        using elems_derive_token [OF 3] by simp
    qed
  qed simp
qed

text \<open>The elements at a pointer, in front of the rest of the rule.\<close>

definition elems_at :: "grammar_rules \<Rightarrow> nat \<Rightarrow> nat \<Rightarrow> grammar_rule \<Rightarrow> bool" where
  "elems_at rules r j xs \<longleftrightarrow> r < length rules \<and> (\<exists>rest. drop j (rules ! r) = xs @ rest \<and> starts_symbol rest)"

lemma elems_at_elem: "elems_at rules r j (e # xs) \<Longrightarrow> elem_at rules (r, j) = Some e"
proof -
  assume a: "elems_at rules r j (e # xs)"
  then obtain rest where r: "r < length rules" "drop j (rules ! r) = e # xs @ rest" by (auto simp: elems_at_def)
  then have "j < length (rules ! r)" by (metis drop_eq_Nil leI list.distinct(1))
  with r show ?thesis by (simp add: elem_at_Some Cons_nth_drop_Suc [symmetric])
qed

lemma elems_at_drop:
  assumes "elems_at rules r j xs" "k \<le> length xs"
  shows "elems_at rules r (j + k) (drop k xs)"
proof -
  obtain rest where rest: "r < length rules" "drop j (rules ! r) = xs @ rest" "starts_symbol rest"
    using assms(1) by (auto simp: elems_at_def)
  have "drop (j + k) (rules ! r) = drop k (drop j (rules ! r))" by (simp add: add.commute)
  also have "\<dots> = drop k xs @ rest" using rest(2) assms(2) by simp
  finally show ?thesis using rest by (auto simp: elems_at_def)
qed

lemma item_match:
  assumes "elems_at rules r j (e # es)" "item_list (e # es)" "is_char_elem e"
  obtains k B where "0 < k" "k \<le> length (e # es)" "item_list (drop k (e # es))"
    and "\<And>c. match_char rules (r, j) c = Some (B c = is_positive_char e, (r, j + k))"
    and "\<And>w. elems_derive rules (e # es) w \<longleftrightarrow> (\<exists>c v. w = c # v \<and> B c = is_positive_char e \<and> elems_derive rules (drop k (e # es)) v)"
proof -
  obtain k B where k: "0 < k" "k \<le> length (e # es)" "item_list (drop k (e # es))"
    and m: "\<And>c rest. starts_symbol rest \<Longrightarrow> match_loop c False 0 ((e # es) @ rest) = Some (B c, k)"
    and d: "\<And>rules w. elems_derive rules (e # es) w \<longleftrightarrow> (\<exists>c v. w = c # v \<and> B c = is_positive_char e \<and> elems_derive rules (drop k (e # es)) v)"
    using item_split [OF assms(2,3)] by blast
  obtain rest where "elems_from rules (r, j) = (e # es) @ rest" "starts_symbol rest"
    using assms(1) by (auto simp: elems_at_def elems_from_def)
  then have "match_loop c False 0 (elems_from rules (r, j)) = Some (B c, k)" for c using m by simp
  then have mc: "match_char rules (r, j) c = Some (B c = is_positive_char e, (r, j + k))" for c
    using elems_at_elem [OF assms(1)] assms(3) by (auto simp: match_char_def is_char_elem_def is_positive_char_def advance_pos_def)
  show ?thesis by (rule that [OF k mc d])
qed

lemma derives_elems:
  assumes "elems_at rules r j xs" "item_list xs"
  shows "derives rules (r, j) w \<longleftrightarrow> (\<exists>u v. w = u @ v \<and> elems_derive rules xs u \<and> derives rules (r, j + length xs) v)"
  using assms
proof (induction "length xs" arbitrary: xs j w rule: less_induct)
  case less
  show ?case
  proof (cases xs)
    case (Cons e es)
    note at = less.prems(1) [unfolded Cons] and e = elems_at_elem [OF less.prems(1) [unfolded Cons]]
    from less.prems(2) show ?thesis unfolding Cons
    proof (cases rule: item_list_cases)
      case 1
      have "item_list es" using item_list_tl_ref less.prems(2) Cons 1 by blast
      then have IH: "derives rules (r, Suc j) x \<longleftrightarrow>
          (\<exists>u v. x = u @ v \<and> elems_derive rules es u \<and> derives rules (r, j + length (e # es)) v)" for x
        using less.hyps [of es "Suc j"] Cons elems_at_drop [OF at, of 1] by simp
      have "derives rules (r, j) w \<longleftrightarrow> (\<exists>u v. w = u @ v \<and> rule_derives rules (unat (e_value e)) u \<and> derives rules (r, Suc j) v)"
        using derives_at_ref [OF e 1] by (simp add: advance_pos_def)
      then show "derives rules (r, j) w \<longleftrightarrow> (\<exists>u v. w = u @ v \<and> elems_derive rules (e # es) u \<and> derives rules (r, j + length (e # es)) v)"
        unfolding elems_derive_ref [OF 1] IH append_split_left .
    next
      case 2
      obtain k B where k: "0 < k" "k \<le> length (e # es)" "item_list (drop k (e # es))"
        and m: "\<And>c. match_char rules (r, j) c = Some (B c = is_positive_char e, (r, j + k))"
        and d: "\<And>w. elems_derive rules (e # es) w \<longleftrightarrow> (\<exists>c v. w = c # v \<and> B c = is_positive_char e \<and> elems_derive rules (drop k (e # es)) v)"
        using item_match [OF at less.prems(2) [unfolded Cons] 2] by blast
      have "derives rules (r, j) w \<longleftrightarrow> (\<exists>c v. w = c # v \<and> B c = is_positive_char e \<and> derives rules (r, j + k) v)"
        using derives_at_chr [OF e] m 2 by (auto simp: is_terminal_def is_char_elem_def)
      moreover have "derives rules (r, j + k) x \<longleftrightarrow>
          (\<exists>u v. x = u @ v \<and> elems_derive rules (drop k (e # es)) u \<and> derives rules (r, j + length (e # es)) v)" for x
        using less.hyps [of "drop k (e # es)" "j + k"] Cons k elems_at_drop [OF at k(2)] by simp
      ultimately show "derives rules (r, j) w \<longleftrightarrow> (\<exists>u v. w = u @ v \<and> elems_derive rules (e # es) u \<and> derives rules (r, j + length (e # es)) v)"
        unfolding d cons_split_left by simp
    next
      case 3
      have "match_char rules (r, j) c = None" for c
        using e 3 by (auto simp: match_char_def is_positive_char_def)
      then have "\<not> derives rules (r, j) w" using derives_at_chr [OF e] 3 by (auto simp: is_terminal_def)
      then show "derives rules (r, j) w \<longleftrightarrow> (\<exists>u v. w = u @ v \<and> elems_derive rules (e # es) u \<and> derives rules (r, j + length (e # es)) v)"
        using elems_derive_token [OF 3] by simp
    qed
  qed simp
qed

section \<open>Repetitions\<close>

type_synonym lang = "code_point list set"

definition lang_of :: "grammar_rules \<Rightarrow> grammar_rule \<Rightarrow> lang" where
  "lang_of rules xs = {w. elems_derive rules xs w}"

definition conc :: "lang \<Rightarrow> lang \<Rightarrow> lang" where
  "conc A B = {u @ v | u v. u \<in> A \<and> v \<in> B}"

primrec pow :: "lang \<Rightarrow> nat \<Rightarrow> lang" where
  "pow A 0 = {[]}"
| "pow A (Suc n) = conc A (pow A n)"

lemma concI: "u \<in> A \<Longrightarrow> v \<in> B \<Longrightarrow> w = u @ v \<Longrightarrow> w \<in> conc A B"
  by (auto simp: conc_def)

lemma conc_unit [simp]: "conc {[]} A = A" "conc A {[]} = A"
  by (auto simp: conc_def)

lemma conc_assoc: "conc (conc A B) C = conc A (conc B C)"
  by (auto simp: conc_def) (metis append_assoc)+

lemma conc_UN: "conc A (\<Union>i \<in> I. B i) = (\<Union>i \<in> I. conc A (B i))" "conc (\<Union>i \<in> I. B i) A = (\<Union>i \<in> I. conc (B i) A)"
  by (auto simp: conc_def)

lemma pow_add: "conc (pow A m) (pow A n) = pow A (m + n)"
  by (induction m) (simp_all add: conc_assoc)

lemma lang_of_Nil [simp]: "lang_of rules [] = {[]}"
  by (auto simp: lang_of_def)

lemma lang_of_append: "item_list xs \<Longrightarrow> item_list ys \<Longrightarrow> lang_of rules (xs @ ys) = conc (lang_of rules xs) (lang_of rules ys)"
  by (auto simp: lang_of_def conc_def elems_derive_append)

lemma lang_of_ref: "lang_of rules [elem GRE_RULE_REF v] = {w. rule_derives rules (unat v) w}"
  by (auto simp: lang_of_def elems_derive_ref)

lemma item_list_copies: "item_list xs \<Longrightarrow> item_list (concat (replicate n xs))"
  by (induction n) (auto intro: item_list_append)

lemma lang_of_copies: "item_list xs \<Longrightarrow> lang_of rules (concat (replicate n xs)) = pow (lang_of rules xs) n"
  by (induction n) (simp_all add: lang_of_append item_list_copies)

text \<open>A generated rule: the items, and an empty alternate.\<close>

lemma scan_alts_items: "\<forall>e \<in> set xs. e_type e \<notin> {GRE_ALT, GRE_END} \<Longrightarrow> scan_alts i (xs @ ys) = scan_alts (i + length xs) ys"
  by (induction xs arbitrary: i) auto

lemma optional_alternates:
  assumes "item_list xs"
  shows "alternates (xs @ [elem GRE_ALT 0, elem GRE_END 0]) = Some [0, Suc (length xs)]"
proof -
  have "\<forall>e \<in> set xs. e_type e \<notin> {GRE_ALT, GRE_END}" using assms by (auto simp: item_list_iff tail_list_def)
  from scan_alts_items [OF this, of 0 "[elem GRE_ALT 0, elem GRE_END 0]"] show ?thesis by (simp add: alternates_def)
qed

lemma optional_ends:
  assumes "r < length rules" "rules ! r = xs @ [elem GRE_ALT 0, elem GRE_END 0]"
  shows "derives rules (r, length xs) w \<longleftrightarrow> w = []" "derives rules (r, Suc (length xs)) w \<longleftrightarrow> w = []"
proof -
  have "elem_at rules (r, length xs) = Some (elem GRE_ALT 0)" "elem_at rules (r, Suc (length xs)) = Some (elem GRE_END 0)"
    using assms by (simp_all add: elem_at_Some nth_append)
  from this [THEN derives_at_end]
  show "derives rules (r, length xs) w \<longleftrightarrow> w = []" "derives rules (r, Suc (length xs)) w \<longleftrightarrow> w = []"
    by (simp_all add: is_end_of_sequence_def)
qed

lemma optional_rule:
  assumes "r < length rules" "rules ! r = xs @ [elem GRE_ALT 0, elem GRE_END 0]" "item_list xs"
  shows "{w. rule_derives rules r w} = insert [] (lang_of rules xs)"
proof -
  have "elems_at rules r 0 xs" using assms by (auto simp: elems_at_def starts_symbol_def)
  then have "derives rules (r, 0) w \<longleftrightarrow> w \<in> lang_of rules xs" for w
    using derives_elems [of rules r 0 xs w] assms(3) optional_ends(1) [OF assms(1,2)] by (simp add: lang_of_def)
  then show ?thesis
    using optional_alternates [OF assms(3)] optional_ends(2) [OF assms(1,2)] assms(1,2) by (auto simp: rule_derives_def)
qed

text \<open>The chain of rules for a bounded number of repetitions.\<close>

lemma bounded_repetition:
  assumes "item_list prev" "base + n \<le> length rules"
    and "\<And>d. d < n \<Longrightarrow> unat (ids d) = base + d"
    and "\<And>d. d < n \<Longrightarrow> rules ! (base + d) =
      prev @ (if d = 0 then [] else [elem GRE_RULE_REF (ids (d - 1))]) @ [elem GRE_ALT 0, elem GRE_END 0]"
    and "d < n"
  shows "{w. rule_derives rules (base + d) w} = (\<Union>i \<in> {..Suc d}. pow (lang_of rules prev) i)"
  using assms(5)
proof (induction d)
  case 0
  have "rules ! base = prev @ [elem GRE_ALT 0, elem GRE_END 0]" using assms(4) [of 0] 0 by simp
  then show ?case using optional_rule [of base rules prev] assms(1,2) 0 by (auto simp: atMost_Suc)
next
  case (Suc d)
  define ref where "ref = [elem GRE_RULE_REF (ids d)]"
  have ref: "item_list ref" "lang_of rules ref = (\<Union>i \<in> {..Suc d}. pow (lang_of rules prev) i)"
    using Suc assms(3) [of d] by (simp_all add: ref_def item_list_ref lang_of_ref)
  have "rules ! (base + Suc d) = (prev @ ref) @ [elem GRE_ALT 0, elem GRE_END 0]" using assms(4) [of "Suc d"] Suc.prems by (simp add: ref_def)
  then have "{w. rule_derives rules (base + Suc d) w} = insert [] (conc (lang_of rules prev) (lang_of rules ref))"
    using optional_rule [of "base + Suc d" rules "prev @ ref"] assms(1,2) Suc.prems ref(1)
    by (simp add: lang_of_append item_list_append)
  also have "\<dots> = pow (lang_of rules prev) 0 \<union> (\<Union>i \<in> {..Suc d}. pow (lang_of rules prev) (Suc i))"
    unfolding ref(2) conc_UN by auto
  also have "\<dots> = (\<Union>i \<in> {..Suc (Suc d)}. pow (lang_of rules prev) i)"
    by (simp add: atMost_Suc_eq_insert_0 [of "Suc d"] del: pow.simps)
  finally show ?case .
qed

text \<open>The recursive rule for an unbounded number of repetitions, by induction on derivations.\<close>

definition star :: "lang \<Rightarrow> lang" where
  "star A = (\<Union>i. pow A i)"

lemma star_Nil [simp]: "[] \<in> star A"
  unfolding star_def by (rule UN_I [of 0]) simp_all

lemma star_conc: "u \<in> A \<Longrightarrow> v \<in> star A \<Longrightarrow> u @ v \<in> star A"
proof -
  assume "u \<in> A" "v \<in> star A"
  then obtain i where "u @ v \<in> pow A (Suc i)" by (auto simp: star_def conc_def)
  then show ?thesis unfolding star_def by blast
qed

lemma conc_star: "conc A (star A) \<subseteq> star A"
  by (auto simp: conc_def intro: star_conc)

lemma recursive_elem:
  assumes "r < length rules" "rules ! r = prev @ [elem GRE_RULE_REF v] @ [elem GRE_ALT 0, elem GRE_END 0]"
    and "elem_at rules (r, j) = Some e"
  shows "(j < length prev \<and> e = prev ! j) \<or> (j = length prev \<and> e = elem GRE_RULE_REF v)
     \<or> (length prev < j \<and> is_end_of_sequence e)"
proof -
  have e: "j < length prev + 3" "(prev @ [elem GRE_RULE_REF v, elem GRE_ALT 0, elem GRE_END 0]) ! j = e"
    using assms by (auto simp: elem_at_Some)
  consider "j < length prev" | "j = length prev" | "j = length prev + 1" | "j = length prev + 2" using e(1) by linarith
  then show ?thesis using e(2) by cases (auto simp: nth_append is_end_of_sequence_def)
qed

lemma items_at:
  assumes "r < length rules" "rules ! r = prev @ rest" "starts_symbol rest" "j \<le> length prev"
  shows "elems_at rules r j (drop j prev)"
  using assms by (auto simp: elems_at_def)

lemma recursive_items:
  assumes "r < length rules" "rules ! r = prev @ [elem GRE_RULE_REF v] @ [elem GRE_ALT 0, elem GRE_END 0]"
    and "unat v = r" "item_list prev"
    and "derives rules p w" "fst p = r"
  shows "(snd p \<le> length prev \<and> item_list (drop (snd p) prev) \<longrightarrow> w \<in> conc (lang_of rules (drop (snd p) prev)) (star (lang_of rules prev)))
     \<and> (length prev < snd p \<longrightarrow> w = [])"
  using assms(5,6)
proof (induction rule: derives.induct)
  case (derives_end p e)
  have "e_type (prev ! snd p) \<notin> {GRE_END, GRE_ALT}" if "snd p < length prev"
    using assms(4) that by (auto simp: item_list_iff tail_list_def)
  then have "length prev < snd p"
    using recursive_elem [OF assms(1,2), of "snd p" e] derives_end by (auto simp: is_end_of_sequence_def)
  then show ?case by simp
next
  case (derives_ref p e subs sub u v')
  obtain j where p: "p = (r, j)" using derives_ref.prems by (cases p) auto
  have nxt: "fst (advance_pos p 1) = r" "snd (advance_pos p 1) = Suc j" by (simp_all add: p advance_pos_def)
  consider "j < length prev" "e = prev ! j" | "j = length prev" "e = elem GRE_RULE_REF v"
    using recursive_elem [OF assms(1,2), of j e] derives_ref.hyps(1,2) p by (auto simp: is_end_of_sequence_def)
  then show ?case
  proof cases
    case 1
    have u: "rule_derives rules (unat (e_value e)) u" using derives_ref.hyps by (auto simp: rule_derives_def)
    have d: "drop j prev = e # drop (Suc j) prev" using 1 by (simp add: Cons_nth_drop_Suc)
    have "u @ v' \<in> conc (lang_of rules (drop j prev)) (star (lang_of rules prev))" if "item_list (drop j prev)"
    proof -
      have "item_list (drop (Suc j) prev)" using that item_list_tl_ref derives_ref.hyps(2) unfolding d by blast
      then obtain a b where "v' = a @ b" "elems_derive rules (drop (Suc j) prev) a" "b \<in> star (lang_of rules prev)"
        using derives_ref.IH(2) nxt 1(1) by (auto simp: conc_def lang_of_def)
      moreover have "u @ a \<in> lang_of rules (drop j prev)" using elems_ref [OF derives_ref.hyps(2) u] calculation(2)
        unfolding d by (simp add: lang_of_def)
      ultimately show ?thesis by (intro concI [of "u @ a" _ b]) simp_all
    qed
    then show ?thesis using p 1(1) by simp
  next
    case 2
    have "v' = []" using derives_ref.IH(2) nxt 2(1) by simp
    moreover have r: "unat (e_value e) = r" using 2(2) assms(3) by simp
    have "item_list (prev @ [elem GRE_RULE_REF v])" using assms(4) by (simp add: item_list_append item_list_ref)
    then have "sub = 0 \<or> length prev < sub"
      using derives_ref.hyps(4,5) optional_alternates assms(2) r by fastforce
    then have "u \<in> star (lang_of rules prev)"
      using derives_ref.IH(1) r assms(4) conc_star by (auto simp: subset_iff)
    ultimately show ?thesis using p 2(1) by simp
  qed
next
  case (derives_chr p c p' w)
  obtain j where p: "p = (r, j)" using derives_chr.prems by (cases p) auto
  obtain e where e: "elem_at rules p = Some e" "e_type e \<in> {GRE_CHAR, GRE_CHAR_NOT, GRE_CHAR_ANY}"
    using match_char_elem [OF derives_chr.hyps(1)] by blast
  then have j: "j < length prev" "prev ! j = e"
    using recursive_elem [OF assms(1,2), of j e] p by (auto simp: is_end_of_sequence_def)
  have d: "drop j prev = e # drop (Suc j) prev" using Cons_nth_drop_Suc [OF j(1)] j(2) by simp
  have "c # w \<in> conc (lang_of rules (drop j prev)) (star (lang_of rules prev))" if items: "item_list (drop j prev)"
  proof -
    have at: "elems_at rules r j (e # drop (Suc j) prev)"
      using items_at [OF assms(1,2), of j] j(1) unfolding d by (simp add: starts_symbol_def)
    obtain k B where k: "0 < k" "k \<le> length (e # drop (Suc j) prev)" "item_list (drop k (e # drop (Suc j) prev))"
      and m: "\<And>c. match_char rules (r, j) c = Some (B c = is_positive_char e, (r, j + k))"
      and ed: "\<And>w. elems_derive rules (e # drop (Suc j) prev) w \<longleftrightarrow>
        (\<exists>c v. w = c # v \<and> B c = is_positive_char e \<and> elems_derive rules (drop k (e # drop (Suc j) prev)) v)"
      using item_match [OF at items [unfolded d] e(2) [folded is_char_elem_def]] by blast
    have p': "p' = (r, j + k)" "B c = is_positive_char e" using m [of c] derives_chr.hyps(1) p by auto
    have dk: "drop k (e # drop (Suc j) prev) = drop (j + k) prev" unfolding d [symmetric] by (simp add: add.commute)
    obtain a b where "w = a @ b" "elems_derive rules (drop (j + k) prev) a" "b \<in> star (lang_of rules prev)"
      using derives_chr.IH k p' j(1) unfolding dk by (auto simp: conc_def lang_of_def)
    moreover have "c # a \<in> lang_of rules (drop j prev)"
      using ed calculation(2) p'(2) unfolding dk d lang_of_def by blast
    ultimately show ?thesis by (intro concI [of "c # a" _ b]) simp_all
  qed
  then show ?case using p j(1) by simp
qed

lemma unbounded_repetition:
  assumes "r < length rules" "rules ! r = prev @ [elem GRE_RULE_REF v] @ [elem GRE_ALT 0, elem GRE_END 0]"
    and "unat v = r" "item_list prev"
  shows "{w. rule_derives rules r w} = star (lang_of rules prev)"
proof -
  have items: "item_list (prev @ [elem GRE_RULE_REF v])" using assms(4) by (simp add: item_list_append item_list_ref)
  have eq: "{w. rule_derives rules r w} = insert [] (conc (lang_of rules prev) {w. rule_derives rules r w})"
    using optional_rule [of r rules "prev @ [elem GRE_RULE_REF v]"] assms items
    by (simp add: lang_of_append item_list_ref lang_of_ref)
  have "rule_derives rules r w \<Longrightarrow> w \<in> star (lang_of rules prev)" for w
  proof -
    assume "rule_derives rules r w"
    then obtain sub where "sub \<in> {0, length prev + 2}" "derives rules (r, sub) w"
      using optional_alternates [OF items] assms(2) by (auto simp: rule_derives_def)
    then show ?thesis using recursive_items [OF assms(1-4), of "(r, sub)" w] assms(4) conc_star by fastforce
  qed
  moreover have "pow (lang_of rules prev) i \<subseteq> {w. rule_derives rules r w}" for i
  proof (induction i)
    case 0
    show ?case using eq by auto
  next
    case (Suc i)
    then have "conc (lang_of rules prev) (pow (lang_of rules prev) i) \<subseteq> conc (lang_of rules prev) {w. rule_derives rules r w}"
      by (auto simp: conc_def)
    then show ?case using eq by auto
  qed
  ultimately show ?thesis by (auto simp: star_def)
qed

section \<open>The generated rules\<close>

lemma add_rule_nth:
  assumes "unat i + 1 < 2 ^ 32"
  shows "unat i < length (ps_rules (add_rule i rule ps))" "ps_rules (add_rule i rule ps) ! unat i = rule"
    and "x < length (ps_rules ps) \<Longrightarrow> x \<noteq> unat i \<Longrightarrow>
      x < length (ps_rules (add_rule i rule ps)) \<and> ps_rules (add_rule i rule ps) ! x = ps_rules ps ! x"
proof -
  have "unat (i + 1) = unat i + 1" using assms by (simp add: unat_word_ariths)
  then show "unat i < length (ps_rules (add_rule i rule ps))" "ps_rules (add_rule i rule ps) ! unat i = rule"
    "x < length (ps_rules ps) \<Longrightarrow> x \<noteq> unat i \<Longrightarrow>
      x < length (ps_rules (add_rule i rule ps)) \<and> ps_rules (add_rule i rule ps) ! x = ps_rules ps ! x"
    by (auto simp: add_rule_def Let_def vec_resize_def nth_append)
qed

lemma repeat_rules_generated:
  assumes "CHR ''_'' \<notin> set name" "sym_list prev" "few_ids ps'"
    and "repeat_rules n first name prev no_max last_id ps = (i, ps')"
    and "parser_ok ps" "known (ids_of ps) prev" "first \<or> last_id \<in> ids_of ps"
  shows "length (ps_symbol_ids ps') = length (ps_symbol_ids ps) + n
     \<and> (0 < n \<longrightarrow> i = of_nat (length (ps_symbol_ids ps) + n - 1))
     \<and> (\<forall>d < n. length (ps_symbol_ids ps) + d < length (ps_rules ps')
          \<and> ps_rules ps' ! (length (ps_symbol_ids ps) + d) =
             rec_rule prev (first \<and> d = 0) no_max (of_nat (length (ps_symbol_ids ps) + d))
               (if d = 0 then last_id else of_nat (length (ps_symbol_ids ps) + d - 1)))
     \<and> (\<forall>x < length (ps_rules ps). x < length (ps_symbol_ids ps) \<longrightarrow> x < length (ps_rules ps') \<and> ps_rules ps' ! x = ps_rules ps ! x)"
  using assms(4-7)
proof (induction n arbitrary: first last_id ps)
  case (Suc n)
  define L where "L = length (ps_symbol_ids ps)"
  define key where "key = name @ ''_'' @ to_string (unat (next_id ps))"
  define ps2 where "ps2 = add_rule (next_id ps) (rec_rule prev first no_max (next_id ps) last_id) (with_symbol key ps)"
  have rest: "repeat_rules n False name prev no_max (next_id ps) ps2 = (i, ps')"
    using Suc.prems(1) by (simp add: ps2_def generate_symbol_id_def with_symbol_def key_def)
  have few2: "few_ids ps2" using keeps_repeat_rules [OF rest assms(1,2)] assms(3) by (simp add: keeps_def)
  then have few: "few_ids ps"
    using length_update_le [of "ps_symbol_ids ps" key "next_id ps"] by (simp add: ps2_def few_ids_def with_symbol_def)
  note fresh = generated_fresh [OF Suc.prems(2) few assms(1), folded key_def]
  have ok: "parser_ok (with_symbol key ps)" "ids_of (with_symbol key ps) = insert (next_id ps) (ids_of ps)"
    using with_symbol_ok [OF Suc.prems(2) few fresh] assms(1) unfolding key_def by blast+
  have ids2: "ids_of ps2 = insert (next_id ps) (ids_of ps)" by (simp add: ps2_def ok(2))
  have len2: "length (ps_symbol_ids ps2) = Suc L" using fresh by (simp add: ps2_def with_symbol_def update_fresh L_def)
  have known2: "known (ids_of ps2) prev" using Suc.prems(3) ids2 known_mono [of "ids_of ps" prev] by blast
  then have ok2: "parser_ok ps2" unfolding ps2_def
    by (intro add_rule_ok ok(1) rec_rule_built [OF assms(2)]) (use Suc.prems(4) ids2 ps2_def in auto)
  have nid: "unat (next_id ps) = L" "next_id ps = of_nat L" using unat_next_id [OF few] by (simp_all add: L_def next_id_def)
  have "unat (next_id ps) + 1 < 2 ^ 32" using few2 len2 nid(1) by (simp add: few_ids_def)
  note add = add_rule_nth [OF this, where rule = "rec_rule prev first no_max (next_id ps) last_id" and ps = "with_symbol key ps", folded ps2_def, unfolded nid(1)]
  have IH: "length (ps_symbol_ids ps') = Suc L + n" "0 < n \<Longrightarrow> i = of_nat (Suc L + n - 1)"
    "\<And>d. d < n \<Longrightarrow> Suc L + d < length (ps_rules ps') \<and> ps_rules ps' ! (Suc L + d) =
       rec_rule prev (False \<and> d = 0) no_max (of_nat (Suc L + d)) (if d = 0 then next_id ps else of_nat (Suc L + d - 1))"
    "\<And>x. x < length (ps_rules ps2) \<Longrightarrow> x < Suc L \<Longrightarrow> x < length (ps_rules ps') \<and> ps_rules ps' ! x = ps_rules ps2 ! x"
    using Suc.IH [OF rest ok2 known2] ids2 unfolding len2 by auto
  have 1: "i = of_nat (L + Suc n - 1)" using IH(2) rest nid(2) by (cases n) auto
  have 2: "L + d < length (ps_rules ps') \<and> ps_rules ps' ! (L + d) =
      rec_rule prev (first \<and> d = 0) no_max (of_nat (L + d)) (if d = 0 then last_id else of_nat (L + d - 1))" if "d < Suc n" for d
  proof (cases d)
    case 0
    show ?thesis using IH(4) [of L] add(1,2) nid(2) 0 by simp
  next
    case (Suc d')
    then show ?thesis using IH(3) [of d'] that nid(2) by (cases d') auto
  qed
  have 3: "x < length (ps_rules ps') \<and> ps_rules ps' ! x = ps_rules ps ! x" if "x < length (ps_rules ps)" "x < L" for x
    using IH(4) [of x] add(3) [of x] that by (simp add: with_symbol_def)
  show ?case using IH(1) 1 2 3 unfolding L_def by simp
qed simp

lemma handle_repetitions_Inr:
  assumes "handle_repetitions name m n rule k ps = Inr (rule', ps')"
  obtains i where "repeat_rules (n_opt m n) True name (drop k rule) (n = UINT64_MAX) 0 ps = (i, ps')"
    and "rule' = take k rule @ concat (replicate (unat m) (drop k rule)) @ (if 0 < n_opt m n then [elem GRE_RULE_REF i] else [])"
proof -
  obtain i ps1 where r: "repeat_rules (n_opt m n) True name (drop k rule) (n = UINT64_MAX) 0 ps = (i, ps1)"
    by (cases "repeat_rules (n_opt m n) True name (drop k rule) (n = UINT64_MAX) 0 ps")
  have copies: "rule @ concat (replicate (unat m - 1) (drop k rule)) = take k rule @ concat (replicate (unat m) (drop k rule))" if "m \<noteq> 0"
  proof -
    have "unat m = Suc (unat m - 1)" using that by (simp add: unat_gt_0)
    then have "concat (replicate (unat m) (drop k rule)) = drop k rule @ concat (replicate (unat m - 1) (drop k rule))"
      by (metis concat.simps(2) replicate_Suc)
    then show ?thesis by (simp add: append_assoc [symmetric])
  qed
  have "ps' = ps1 \<and> rule' = take k rule @ concat (replicate (unat m) (drop k rule)) @ (if 0 < n_opt m n then [elem GRE_RULE_REF i] else [])"
    using assms r copies by (cases "m = 0") (auto simp: handle_repetitions_def Let_def split: if_splits)
  with r show ?thesis using that by blast
qed

text \<open>What the references behind the copies derive.\<close>

lemma repetition_tail:
  assumes "repeat_rules (n_opt m n) True name prev (n = UINT64_MAX) 0 ps = (i, ps')" "CHR ''_'' \<notin> set name"
    and "item_list prev" "parser_ok ps" "known (ids_of ps) prev" "few_ids ps'" "n = UINT64_MAX \<or> m \<le> n"
    and "\<And>r. length (ps_symbol_ids ps) \<le> r \<Longrightarrow> r < length (ps_symbol_ids ps') \<Longrightarrow> r < length rules \<and> rules ! r = ps_rules ps' ! r"
  shows "lang_of rules (if 0 < n_opt m n then [elem GRE_RULE_REF i] else []) =
    (\<Union>j \<in> {j. n \<noteq> UINT64_MAX \<longrightarrow> j \<le> unat n - unat m}. pow (lang_of rules prev) j)"
proof -
  define L where "L = length (ps_symbol_ids ps)"
  have "sym_list prev" using assms(3) by (simp add: item_list_def)
  note gen = repeat_rules_generated [OF assms(2) this assms(6,1,4,5), folded L_def]
  have len: "length (ps_symbol_ids ps') = L + n_opt m n" using gen by simp
  then have small: "L + n_opt m n < 2 ^ 32" using assms(6) by (simp add: few_ids_def)
  have unat_id: "unat (of_nat (L + d) :: 32 word) = L + d" if "d < n_opt m n" for d
    using that small by (simp add: unat_of_nat take_bit_nat_eq_self del: of_nat_add)
  have rule: "L + d < length rules \<and> rules ! (L + d) = rec_rule prev (d = 0) (n = UINT64_MAX) (of_nat (L + d)) (if d = 0 then 0 else of_nat (L + d - 1))"
    if "d < n_opt m n" for d using gen assms(8) [of "L + d"] that len by (auto simp: L_def)
  show ?thesis
  proof (cases "n = UINT64_MAX")
    case True
    then have one: "n_opt m n = 1" by (simp add: n_opt_def)
    have "i = of_nat L" using gen one by simp
    moreover have "{w. rule_derives rules L w} = star (lang_of rules prev)"
      using rule [of 0] unat_id [of 0] one True assms(3) unbounded_repetition [of L rules prev "of_nat L"] by (simp add: rec_rule_def)
    ultimately show ?thesis using one True unat_id [of 0] by (simp add: lang_of_ref star_def)
  next
    case False
    then have num: "n_opt m n = unat n - unat m" using assms(7) by (simp add: n_opt_def unat_sub)
    show ?thesis
    proof (cases "n_opt m n")
      case 0
      then show ?thesis using num False by simp
    next
      case (Suc N)
      have "i = of_nat (L + N)" using gen Suc by simp
      moreover have "{w. rule_derives rules (L + N) w} = (\<Union>j \<in> {..Suc N}. pow (lang_of rules prev) j)"
        by (rule bounded_repetition [of prev L "Suc N" rules "\<lambda>d. of_nat (L + d)"])
          (use assms(3) rule Suc unat_id False in \<open>force simp: rec_rule_def Suc_le_eq\<close>)+
      moreover have "{j. n \<noteq> UINT64_MAX \<longrightarrow> j \<le> unat n - unat m} = {..Suc N}" using num Suc False by auto
      ultimately show ?thesis using unat_id [of N] Suc by (simp add: lang_of_ref)
    qed
  qed
qed

lemma shift_image: "(+) a ` {j. P j} = {x. a \<le> x \<and> P (x - a)}" for a :: nat
  by (force simp: image_iff nat_le_iff_add)

text \<open>
  C38 (functional): the repetition operators mean repetition. Applied to the last symbol of a rule with
  bounds \<open>m\<close> and \<open>n\<close> (\<open>UINT64_MAX\<close> for none) in the right order, what the parser writes in place of
  the symbol derives exactly the words made of at least \<open>m\<close> and at most \<open>n\<close> words of the symbol, in every
  rule set that contains the generated rules; the symbols before are unchanged.
\<close>

theorem repetition_language:
  assumes "handle_repetitions name m n rule k ps = Inr (rule', ps')" "n = UINT64_MAX \<or> m \<le> n"
    and "CHR ''_'' \<notin> set name" "k \<le> length rule" "item_list (drop k rule)"
    and "parser_ok ps" "known (ids_of ps) (drop k rule)" "few_ids ps'"
    and "\<And>r. length (ps_symbol_ids ps) \<le> r \<Longrightarrow> r < length (ps_symbol_ids ps') \<Longrightarrow> r < length rules \<and> rules ! r = ps_rules ps' ! r"
  shows "take k rule' = take k rule \<and> lang_of rules (drop k rule') =
    (\<Union>j \<in> {j. unat m \<le> j \<and> (n \<noteq> UINT64_MAX \<longrightarrow> j \<le> unat n)}. pow (lang_of rules (drop k rule)) j)"
proof -
  define A where "A = lang_of rules (drop k rule)"
  obtain i where r: "repeat_rules (n_opt m n) True name (drop k rule) (n = UINT64_MAX) 0 ps = (i, ps')"
    and out: "rule' = take k rule @ concat (replicate (unat m) (drop k rule)) @ (if 0 < n_opt m n then [elem GRE_RULE_REF i] else [])"
    using handle_repetitions_Inr [OF assms(1)] by blast
  define ref where "ref = (if 0 < n_opt m n then [elem GRE_RULE_REF i] else [])"
  have ref: "item_list ref" "lang_of rules ref = (\<Union>j \<in> {j. n \<noteq> UINT64_MAX \<longrightarrow> j \<le> unat n - unat m}. pow A j)"
    using repetition_tail [OF r assms(3,5-8,2,9)] by (simp_all add: ref_def A_def item_list_ref)
  have cut: "take k rule' = take k rule" "drop k rule' = concat (replicate (unat m) (drop k rule)) @ ref"
    using assms(4) by (simp_all add: out ref_def)
  have "lang_of rules (drop k rule') = (\<Union>j \<in> {j. n \<noteq> UINT64_MAX \<longrightarrow> j \<le> unat n - unat m}. pow A (unat m + j))"
    using assms(5) ref by (simp add: cut(2) lang_of_append item_list_copies lang_of_copies conc_UN pow_add A_def)
  also have "\<dots> = (\<Union>j \<in> (+) (unat m) ` {j. n \<noteq> UINT64_MAX \<longrightarrow> j \<le> unat n - unat m}. pow A j)" by simp
  also have "(+) (unat m) ` {j. n \<noteq> UINT64_MAX \<longrightarrow> j \<le> unat n - unat m} = {j. unat m \<le> j \<and> (n \<noteq> UINT64_MAX \<longrightarrow> j \<le> unat n)}"
  proof -
    have "n \<noteq> UINT64_MAX \<longrightarrow> unat m \<le> unat n" using assms(2) by (auto simp: word_le_nat_alt)
    then show ?thesis unfolding shift_image by auto
  qed
  finally show ?thesis using cut(1) by (simp add: A_def)
qed

text \<open>\<open>"a"{1,2}\<close> in a fresh parser.\<close>

definition demo_parser :: grammar_parser where
  "demo_parser = snd (get_symbol_id ''r'' (parser_new None))"

definition demo_repeated :: grammar_parser where
  "demo_repeated = demo_parser\<lparr>ps_symbol_ids := [(''r'', 0), (''r_1'', 1)],
     ps_rules := [[], [elem GRE_CHAR 0x61, elem GRE_ALT 0, elem GRE_END 0]]\<rparr>"

theorem repetition_language_witness:
  "lang_of (ps_rules demo_repeated) [elem GRE_CHAR 0x61, elem GRE_RULE_REF 1] =
    (\<Union>j \<in> {j. 1 \<le> j \<and> j \<le> 2}. pow (lang_of (ps_rules demo_repeated) [elem GRE_CHAR 0x61]) j)"
proof -
  have ids: "ps_symbol_ids demo_parser = [(''r'', 0)]" "ps_rules demo_parser = []"
    by (simp_all add: demo_parser_def parser_new_def get_symbol_id_def next_id_def)
  have digit: "char_of (49 :: nat) = CHR ''1''" by code_simp
  have two: "replicate 2 ([] :: grammar_rule) = [[], []]" by (simp add: numeral_2_eq_2)
  have "handle_repetitions ''r'' 1 2 [elem GRE_CHAR 0x61] 0 demo_parser
      = Inr ([elem GRE_CHAR 0x61, elem GRE_RULE_REF 1], demo_repeated)"
    by (simp add: handle_repetitions_def n_opt_def UINT64_MAX_def demo_repeated_def generate_symbol_id_def next_id_def ids
        add_rule_def vec_resize_def rec_rule_def to_string.simps digit two)
  moreover have "parser_ok demo_parser" by (simp add: parser_ok_def ids id_entry_ok_def)
  moreover have "item_list [elem GRE_CHAR 0x61]" by (simp add: item_list_def sym_list_one)
  ultimately have "lang_of (ps_rules demo_repeated) (drop 0 [elem GRE_CHAR 0x61, elem GRE_RULE_REF 1]) =
      (\<Union>j \<in> {j. unat (1 :: 64 word) \<le> j \<and> ((2 :: 64 word) \<noteq> UINT64_MAX \<longrightarrow> j \<le> unat (2 :: 64 word))}.
        pow (lang_of (ps_rules demo_repeated) (drop 0 [elem GRE_CHAR 0x61])) j)"
    using repetition_language [of "''r''" 1 2 "[elem GRE_CHAR 0x61]" 0 demo_parser "[elem GRE_CHAR 0x61, elem GRE_RULE_REF 1]" demo_repeated "ps_rules demo_repeated"]
    by (simp add: few_ids_def demo_repeated_def)
  then show ?thesis by (simp add: UINT64_MAX_def)
qed

end
