(* ===== verification/Kv_State.thy ===== *)
theory Kv_State
  imports Kv_Cache
begin

text \<open>
  Saving and restoring the KV cache: \<open>state_write\<close> and \<open>state_read\<close> of \<open>llama-kv-cache.cpp\<close> with the
  reader and writer of \<open>llama-io.h\<close>. The saved state is a list of bytes, integers in it little-endian.
  Here the contents of the key and value tensors matter, so the store adds them to the cache: per layer
  the two tensor types and the bytes of every stream. The sizes of the tensor types (\<open>type_traits\<close> of
  ggml) are a parameter.

  A reader returns \<^term>\<open>None\<close> where an assertion fails, and otherwise an outcome with the store and
  the unread bytes: a value, \<open>Refused\<close> where the code logs an error and returns false, or an exception.
\<close>

section \<open>Bytes\<close>

type_synonym byte = "8 word"

type_synonym bytes = "byte list"

primrec enc_le :: "nat \<Rightarrow> nat \<Rightarrow> bytes" where
  "enc_le 0 v = []"
| "enc_le (Suc n) v = of_nat (v mod 256) # enc_le n (v div 256)"

primrec dec_le :: "bytes \<Rightarrow> nat" where
  "dec_le [] = 0"
| "dec_le (b # bs) = unat b + 256 * dec_le bs"

definition enc_u32 :: "nat \<Rightarrow> bytes" where
  "enc_u32 v = enc_le 4 v"

definition enc_u64 :: "nat \<Rightarrow> bytes" where
  "enc_u64 v = enc_le 8 v"

definition enc_i32 :: "int \<Rightarrow> bytes" where
  "enc_i32 v = enc_le 4 (nat (v mod 4294967296))"

definition dec_i32 :: "bytes \<Rightarrow> int" where
  "dec_i32 bs = (let v = int (dec_le bs) in if v < 2147483648 then v else v - 4294967296)"

section \<open>Tensors\<close>

record ggml_type_traits =
  tt_blck_size :: nat
  tt_type_size :: nat

definition ggml_row_size :: "(int \<Rightarrow> ggml_type_traits) \<Rightarrow> int \<Rightarrow> nat \<Rightarrow> nat option" where
  "ggml_row_size traits type ne = do {
     ensure (tt_blck_size (traits type) \<noteq> 0);
     ensure (ne mod tt_blck_size (traits type) = 0);
     Some (tt_type_size (traits type) * ne div tt_blck_size (traits type)) }"

definition tensor_get :: "bytes \<Rightarrow> nat \<Rightarrow> nat \<Rightarrow> bytes option" where
  "tensor_get t offset n =
     (if n = 0 then Some []
      else do { ensure (offset + n \<le> length t); Some (take n (drop offset t)) })"

definition tensor_set :: "bytes \<Rightarrow> nat \<Rightarrow> bytes \<Rightarrow> bytes option" where
  "tensor_set data offset t =
     (if data = [] then Some t
      else do { ensure (offset + length data \<le> length t); Some (take offset t @ data @ drop (offset + length data) t) })"

record kv_tensors =
  t_k_type :: int
  t_v_type :: int
  t_k_stream :: "bytes list"
  t_v_stream :: "bytes list"

record kv_store =
  st_cache :: kv_cache
  st_tensors :: "kv_tensors list"

section \<open>Writing\<close>

definition cell_written :: "int \<Rightarrow> kv_cells \<Rightarrow> nat \<Rightarrow> bool option" where
  "cell_written seq_id cells i = do {
     e \<leftarrow> is_empty i cells;
     if e then Some False else if seq_id = -1 then Some True else seq_has i seq_id cells }"

text \<open>One pass of the loop that collects the ranges: \<open>cell_count\<close>, \<open>cell_range_begin\<close> and the ranges.\<close>

definition range_step :: "int \<Rightarrow> kv_cells \<Rightarrow> nat \<Rightarrow> nat \<times> nat \<times> (nat \<times> nat) list \<Rightarrow> (nat \<times> nat \<times> (nat \<times> nat) list) option" where
  "range_step seq_id cells i = (\<lambda>(cell_count, begin, data). do {
     w \<leftarrow> cell_written seq_id cells i;
     Some (if w then (cell_count + 1, if begin = cells_size cells then i else begin, data)
           else if begin \<noteq> cells_size cells then (cell_count, cells_size cells, data @ [(begin, i)])
           else (cell_count, begin, data)) })"

definition cell_ranges :: "int \<Rightarrow> kv_cells \<Rightarrow> (nat \<times> (nat \<times> nat) list) option" where
  "cell_ranges seq_id cells = do {
     (cell_count, begin, data) \<leftarrow> foldo (range_step seq_id cells) [0..<cells_size cells] (0, cells_size cells, []);
     let data = (if begin \<noteq> cells_size cells then data @ [(begin, cells_size cells)] else data);
     ensure (cell_count = sum_list (map (\<lambda>(a, b). b - a) data));
     Some (cell_count, data) }"

definition range_cells :: "(nat \<times> nat) list \<Rightarrow> nat list" where
  "range_cells data = concat (map (\<lambda>(a, b). [a..<b]) data)"

definition cell_seq_ids :: "nat \<Rightarrow> int \<Rightarrow> kv_cells \<Rightarrow> nat \<Rightarrow> int list option" where
  "cell_seq_ids n_seq_max seq_id cells i =
     foldo (\<lambda>cur ids.
       if cur = seq_id \<or> seq_id = -1
       then do { h \<leftarrow> seq_has i cur cells; Some (if h then ids @ [cur] else ids) }
       else Some ids) [0..int n_seq_max - 1] []"

definition write_cell :: "nat \<Rightarrow> int \<Rightarrow> kv_cells \<Rightarrow> nat \<Rightarrow> bytes option" where
  "write_cell n_seq_max seq_id cells i = do {
     seq_ids \<leftarrow> cell_seq_ids n_seq_max seq_id cells i;
     pos \<leftarrow> pos_get i cells;
     Some (enc_i32 pos @ enc_u32 (length seq_ids) @ concat (map enc_i32 seq_ids)) }"

definition state_write_meta :: "int \<Rightarrow> nat \<Rightarrow> (nat \<times> nat) list \<Rightarrow> kv_cache \<Rightarrow> bytes option" where
  "state_write_meta seq_id strm data c = do {
     cells \<leftarrow> nth_opt (k_v_cells c) strm;
     bss \<leftarrow> those (map (write_cell (k_n_seq_max c) seq_id cells) (range_cells data));
     Some (concat bss) }"

definition write_rows :: "bytes \<Rightarrow> nat \<Rightarrow> (nat \<times> nat) list \<Rightarrow> bytes option" where
  "write_rows t size_row data = do {
     bss \<leftarrow> those (map (\<lambda>(a, b). tensor_get t (a * size_row) ((b - a) * size_row)) data);
     Some (concat bss) }"

definition write_k :: "(int \<Rightarrow> ggml_type_traits) \<Rightarrow> llama_hparams \<Rightarrow> nat \<Rightarrow> (nat \<times> nat) list \<Rightarrow> kv_layer \<times> kv_tensors \<Rightarrow> bytes option" where
  "write_k traits h strm data = (\<lambda>(layer, t). do {
     n_embd \<leftarrow> n_embd_k_gqa (l_il layer) h;
     k \<leftarrow> nth_opt (t_k_stream t) strm;
     size_row \<leftarrow> ggml_row_size traits (t_k_type t) n_embd;
     rows \<leftarrow> write_rows k size_row data;
     Some (enc_i32 (t_k_type t) @ enc_u64 size_row @ rows) })"

definition write_v :: "(int \<Rightarrow> ggml_type_traits) \<Rightarrow> llama_hparams \<Rightarrow> nat \<Rightarrow> (nat \<times> nat) list \<Rightarrow> kv_layer \<times> kv_tensors \<Rightarrow> bytes option" where
  "write_v traits h strm data = (\<lambda>(layer, t). do {
     n_embd \<leftarrow> n_embd_v_gqa (l_il layer) h;
     v \<leftarrow> nth_opt (t_v_stream t) strm;
     size_row \<leftarrow> ggml_row_size traits (t_v_type t) n_embd;
     rows \<leftarrow> write_rows v size_row data;
     Some (enc_i32 (t_v_type t) @ enc_u64 size_row @ rows) })"

text \<open>Transposed values: the offsets are computed in \<open>uint32_t\<close>.\<close>

definition write_v_row :: "bytes \<Rightarrow> nat \<Rightarrow> nat \<Rightarrow> (nat \<times> nat) list \<Rightarrow> nat \<Rightarrow> bytes option" where
  "write_v_row v size_el kv_size data j = do {
     bss \<leftarrow> those (map (\<lambda>(a, b). tensor_get v (u32 ((a + j * kv_size) * size_el)) ((b - a) * size_el)) data);
     Some (concat bss) }"

definition write_v_trans ::
  "(int \<Rightarrow> ggml_type_traits) \<Rightarrow> llama_hparams \<Rightarrow> nat \<Rightarrow> nat \<Rightarrow> (nat \<times> nat) list \<Rightarrow> kv_layer \<times> kv_tensors \<Rightarrow> bytes option" where
  "write_v_trans traits h strm kv_size data = (\<lambda>(layer, t). do {
     n_embd \<leftarrow> n_embd_v_gqa (l_il layer) h;
     v \<leftarrow> nth_opt (t_v_stream t) strm;
     let size_el = u32 (tt_type_size (traits (t_v_type t)));
     rows \<leftarrow> those (map (write_v_row v size_el kv_size data) [0..<n_embd]);
     Some (enc_i32 (t_v_type t) @ enc_u32 size_el @ enc_u32 n_embd @ concat rows) })"

definition state_write_data :: "(int \<Rightarrow> ggml_type_traits) \<Rightarrow> nat \<Rightarrow> (nat \<times> nat) list \<Rightarrow> kv_store \<Rightarrow> bytes option" where
  "state_write_data traits strm data st = do {
     let c = st_cache st;
     let layers = zip (k_layers c) (st_tensors st);
     cells \<leftarrow> nth_opt (k_v_cells c) strm;
     ks \<leftarrow> those (map (write_k traits (k_hparams c) strm data) layers);
     vs \<leftarrow> (if \<not> k_v_trans c then those (map (write_v traits (k_hparams c) strm data) layers)
            else those (map (write_v_trans traits (k_hparams c) strm (cells_size cells) data) layers));
     Some (enc_u32 (if k_v_trans c then 1 else 0) @ enc_u32 (length (k_layers c)) @ concat ks @ concat vs) }"

definition write_stream :: "(int \<Rightarrow> ggml_type_traits) \<Rightarrow> int \<Rightarrow> kv_store \<Rightarrow> nat \<Rightarrow> bytes option" where
  "write_stream traits seq_id st s = do {
     cells \<leftarrow> nth_opt (k_v_cells (st_cache st)) s;
     (cell_count, data) \<leftarrow> cell_ranges seq_id cells;
     if cell_count = 0 then Some (enc_u32 cell_count)
     else do {
       meta \<leftarrow> state_write_meta seq_id s data (st_cache st);
       body \<leftarrow> state_write_data traits s data st;
       Some (enc_u32 cell_count @ meta @ body) } }"

definition state_write :: "(int \<Rightarrow> ggml_type_traits) \<Rightarrow> int \<Rightarrow> kv_store \<Rightarrow> bytes option" where
  "state_write traits seq_id st = do {
     bss \<leftarrow> those (map (write_stream traits seq_id st) [0..<k_n_stream (st_cache st)]);
     Some (enc_u32 (k_n_stream (st_cache st)) @ concat bss) }"

section \<open>Reading\<close>

datatype io_error = End_of_buffer | N_stream_mismatch | Restore_failed

datatype 'a outcome = Done 'a | Refused | Thrown io_error

type_synonym 'a reader = "kv_store \<times> bytes \<Rightarrow> ('a outcome \<times> kv_store \<times> bytes) option"

definition rd_return :: "'a \<Rightarrow> 'a reader" where
  "rd_return x = (\<lambda>(st, bs). Some (Done x, st, bs))"

definition rd_refuse :: "'a reader" where
  "rd_refuse = (\<lambda>(st, bs). Some (Refused, st, bs))"

definition rd_throw :: "io_error \<Rightarrow> 'a reader" where
  "rd_throw e = (\<lambda>(st, bs). Some (Thrown e, st, bs))"

definition rd_bind :: "'a reader \<Rightarrow> ('a \<Rightarrow> 'b reader) \<Rightarrow> 'b reader" where
  "rd_bind m k s = Option.bind (m s) (\<lambda>(r, s'). case r of
     Done x \<Rightarrow> k x s' | Refused \<Rightarrow> Some (Refused, s') | Thrown e \<Rightarrow> Some (Thrown e, s'))"

text \<open>An operation on the store; \<^term>\<open>None\<close> is a failed assertion.\<close>

definition rd_update :: "(kv_store \<Rightarrow> kv_store option) \<Rightarrow> unit reader" where
  "rd_update f = (\<lambda>(st, bs). Option.bind (f st) (\<lambda>st'. Some (Done (), st', bs)))"

definition rd_query :: "(kv_store \<Rightarrow> 'a option) \<Rightarrow> 'a reader" where
  "rd_query f = (\<lambda>(st, bs). Option.bind (f st) (\<lambda>x. Some (Done x, st, bs)))"

primrec rd_each :: "('b \<Rightarrow> unit reader) \<Rightarrow> 'b list \<Rightarrow> unit reader" where
  "rd_each f [] = rd_return ()"
| "rd_each f (x # xs) = rd_bind (f x) (\<lambda>_. rd_each f xs)"

text \<open>\<open>llama_io_read_buffer::read\<close>\<close>

definition io_read :: "nat \<Rightarrow> bytes reader" where
  "io_read n = (\<lambda>(st, bs). Some (if length bs < n then (Thrown End_of_buffer, st, bs) else (Done (take n bs), st, drop n bs)))"

definition read_u32 :: "nat reader" where
  "read_u32 = rd_bind (io_read 4) (\<lambda>bs. rd_return (dec_le bs))"

definition read_u64 :: "nat reader" where
  "read_u64 = rd_bind (io_read 8) (\<lambda>bs. rd_return (dec_le bs))"

definition read_i32 :: "int reader" where
  "read_i32 = rd_bind (io_read 4) (\<lambda>bs. rd_return (dec_i32 bs))"

subsection \<open>Cells\<close>

definition on_cells :: "nat \<Rightarrow> (kv_cells \<Rightarrow> kv_cells option) \<Rightarrow> kv_store \<Rightarrow> kv_store option" where
  "on_cells strm f st = do {
     cells \<leftarrow> nth_opt (k_v_cells (st_cache st)) strm;
     cells' \<leftarrow> f cells;
     Some (st\<lparr>st_cache := put_cells strm cells' (st_cache st)\<rparr>) }"

definition on_cache :: "(kv_cache \<Rightarrow> kv_cache option) \<Rightarrow> kv_store \<Rightarrow> kv_store option" where
  "on_cache f st = Option.bind (f (st_cache st)) (\<lambda>c. Some (st\<lparr>st_cache := c\<rparr>))"

text \<open>\<open>clear(true)\<close>: all cells of all streams, and all tensor bytes.\<close>

definition clear_tensors :: "kv_tensors \<Rightarrow> kv_tensors" where
  "clear_tensors t = t\<lparr>t_k_stream := map (map (\<lambda>_. 0)) (t_k_stream t), t_v_stream := map (map (\<lambda>_. 0)) (t_v_stream t)\<rparr>"

definition clear_store :: "kv_store \<Rightarrow> kv_store" where
  "clear_store st = st\<lparr>st_cache := kv_clear (st_cache st), st_tensors := map clear_tensors (st_tensors st)\<rparr>"

definition read_seq :: "nat \<Rightarrow> nat \<Rightarrow> unit reader" where
  "read_seq strm i = rd_bind read_i32 (\<lambda>seq_id.
     rd_bind (rd_query (\<lambda>st. Some (k_n_seq_max (st_cache st)))) (\<lambda>n_seq_max.
     if seq_id < 0 \<or> int n_seq_max \<le> seq_id then rd_refuse
     else rd_update (on_cells strm (cells_seq_add i seq_id))))"

definition read_cell :: "nat \<Rightarrow> nat \<Rightarrow> unit reader" where
  "read_cell strm i = rd_bind read_i32 (\<lambda>pos. rd_bind read_u32 (\<lambda>n_seq_id.
     rd_bind (rd_update (on_cells strm (pos_set i pos))) (\<lambda>_.
     rd_each (\<lambda>_. read_seq strm i) [0..<n_seq_id])))"

definition read_meta_all :: "nat \<Rightarrow> nat \<Rightarrow> slot_info reader" where
  "read_meta_all strm cell_count =
     rd_bind (rd_query (\<lambda>st. map_option cells_size (nth_opt (k_v_cells (st_cache st)) strm))) (\<lambda>n.
     if n < cell_count then rd_refuse
     else rd_bind (rd_update (\<lambda>st. Some (clear_store st))) (\<lambda>_.
       rd_bind (rd_each (read_cell strm) [0..<cell_count]) (\<lambda>_.
       rd_bind (rd_update (on_cache (\<lambda>c. do { ensure (strm < length (k_v_heads c)); Some (put_head strm 0 c) }))) (\<lambda>_.
       rd_return \<lparr>si_s0 = strm, si_s1 = strm, si_strm = [strm], si_idxs = [[0..<cell_count]]\<rparr>))))"

text \<open>A single sequence: the positions go into a micro-batch, which is placed like any other.\<close>

primrec read_positions :: "nat \<Rightarrow> int list reader" where
  "read_positions 0 = rd_return []"
| "read_positions (Suc n) = rd_bind read_i32 (\<lambda>pos. rd_bind read_u32 (\<lambda>n_seq_id.
     if n_seq_id \<noteq> 1 then rd_refuse
     else rd_bind read_i32 (\<lambda>_. rd_bind (read_positions n) (\<lambda>ps. rd_return (pos # ps)))))"

definition restore_ubatch :: "llama_hparams \<Rightarrow> int \<Rightarrow> int list \<Rightarrow> llama_ubatch option" where
  "restore_ubatch h dest ps = do {
     (u, _) \<leftarrow> ubatch_reserve (length ps) 1 (batch_allocr_new (n_pos_per_embd h));
     Some (u\<lparr>u_seq_id_unq := (u_seq_id_unq u)[0 := dest], u_pos := ps,
            u_n_seq_id := map (\<lambda>_. 1) ps, u_seq_id := map (\<lambda>_. [dest]) ps\<rparr>) }"

definition restored_ok :: "nat \<Rightarrow> int \<Rightarrow> int list \<Rightarrow> slot_info \<Rightarrow> kv_cache \<Rightarrow> unit option" where
  "restored_ok strm dest ps si c = do {
     cells \<leftarrow> nth_opt (k_v_cells c) strm;
     ensure (slot_n_stream si = 1);
     row \<leftarrow> nth_opt (si_idxs si) 0;
     ensure (length row = length ps);
     foldo (\<lambda>(idx, p) _. do {
       q \<leftarrow> pos_get idx cells;
       ensure (q = p);
       h \<leftarrow> seq_has idx dest cells;
       ensure h }) (zip row ps) () }"

definition read_meta_seq :: "nat \<Rightarrow> nat \<Rightarrow> int \<Rightarrow> slot_info reader" where
  "read_meta_seq strm cell_count dest =
     rd_bind (rd_update (on_cache (\<lambda>c. map_option snd (kv_seq_rm dest (-1) (-1) c)))) (\<lambda>_.
     rd_bind (read_positions cell_count) (\<lambda>ps.
     rd_bind (rd_query (\<lambda>st. restore_ubatch (k_hparams (st_cache st)) dest ps)) (\<lambda>u.
     rd_bind (rd_query (\<lambda>st. find_slot u False (st_cache st))) (\<lambda>si.
     if slot_empty si then rd_refuse
     else rd_bind (rd_update (on_cache (apply_ubatch si u))) (\<lambda>_.
       rd_bind (rd_query (\<lambda>st. restored_ok strm dest ps si (st_cache st))) (\<lambda>_.
       rd_return si))))))"

definition state_read_meta :: "nat \<Rightarrow> nat \<Rightarrow> int \<Rightarrow> slot_info reader" where
  "state_read_meta strm cell_count dest =
     (if dest \<noteq> -1 then read_meta_seq strm cell_count dest else read_meta_all strm cell_count)"

subsection \<open>Tensor data\<close>

definition scatter :: "(nat \<Rightarrow> nat) \<Rightarrow> nat \<Rightarrow> bytes \<Rightarrow> nat list \<Rightarrow> bytes \<Rightarrow> bytes option" where
  "scatter offset_of n data idxs t =
     foldo (\<lambda>(i, idx). tensor_set (take n (drop (i * n) data)) (offset_of idx)) (enumerate 0 idxs) t"

definition place :: "slot_info \<Rightarrow> (nat \<Rightarrow> nat) \<Rightarrow> nat \<Rightarrow> bytes \<Rightarrow> bytes \<Rightarrow> bytes option" where
  "place si offset_of n data t =
     (if is_contiguous si then do { h \<leftarrow> slot_head si; tensor_set data (offset_of h) t }
      else do { idxs \<leftarrow> nth_opt (si_idxs si) 0; scatter offset_of n data idxs t })"

definition on_k :: "nat \<Rightarrow> nat \<Rightarrow> (bytes \<Rightarrow> bytes option) \<Rightarrow> kv_store \<Rightarrow> kv_store option" where
  "on_k l strm f st = do {
     t \<leftarrow> nth_opt (st_tensors st) l;
     k \<leftarrow> nth_opt (t_k_stream t) strm;
     k' \<leftarrow> f k;
     Some (st\<lparr>st_tensors := (st_tensors st)[l := t\<lparr>t_k_stream := (t_k_stream t)[strm := k']\<rparr>]\<rparr>) }"

definition on_v :: "nat \<Rightarrow> nat \<Rightarrow> (bytes \<Rightarrow> bytes option) \<Rightarrow> kv_store \<Rightarrow> kv_store option" where
  "on_v l strm f st = do {
     t \<leftarrow> nth_opt (st_tensors st) l;
     v \<leftarrow> nth_opt (t_v_stream t) strm;
     v' \<leftarrow> f v;
     Some (st\<lparr>st_tensors := (st_tensors st)[l := t\<lparr>t_v_stream := (t_v_stream t)[strm := v']\<rparr>]\<rparr>) }"

text \<open>The widths and the type of layer \<open>l\<close>, as the loops over \<open>layers\<close> read them.\<close>

definition k_info :: "(int \<Rightarrow> ggml_type_traits) \<Rightarrow> nat \<Rightarrow> kv_store \<Rightarrow> (int \<times> nat) option" where
  "k_info traits l st = do {
     layer \<leftarrow> nth_opt (k_layers (st_cache st)) l;
     t \<leftarrow> nth_opt (st_tensors st) l;
     n_embd \<leftarrow> n_embd_k_gqa (l_il layer) (k_hparams (st_cache st));
     size_row \<leftarrow> ggml_row_size traits (t_k_type t) n_embd;
     Some (t_k_type t, size_row) }"

definition v_info :: "(int \<Rightarrow> ggml_type_traits) \<Rightarrow> nat \<Rightarrow> kv_store \<Rightarrow> (int \<times> nat) option" where
  "v_info traits l st = do {
     layer \<leftarrow> nth_opt (k_layers (st_cache st)) l;
     t \<leftarrow> nth_opt (st_tensors st) l;
     n_embd \<leftarrow> n_embd_v_gqa (l_il layer) (k_hparams (st_cache st));
     size_row \<leftarrow> ggml_row_size traits (t_v_type t) n_embd;
     Some (t_v_type t, size_row) }"

definition vt_info :: "(int \<Rightarrow> ggml_type_traits) \<Rightarrow> nat \<Rightarrow> kv_store \<Rightarrow> (int \<times> nat \<times> nat) option" where
  "vt_info traits l st = do {
     layer \<leftarrow> nth_opt (k_layers (st_cache st)) l;
     t \<leftarrow> nth_opt (st_tensors st) l;
     n_embd \<leftarrow> n_embd_v_gqa (l_il layer) (k_hparams (st_cache st));
     Some (t_v_type t, tt_type_size (traits (t_v_type t)), n_embd) }"

definition read_k :: "(int \<Rightarrow> ggml_type_traits) \<Rightarrow> nat \<Rightarrow> nat \<Rightarrow> slot_info \<Rightarrow> nat \<Rightarrow> unit reader" where
  "read_k traits strm cell_count si l =
     rd_bind (rd_query (k_info traits l)) (\<lambda>(type, size_row).
     rd_bind read_i32 (\<lambda>type_ref. if type \<noteq> type_ref then rd_refuse else
     rd_bind read_u64 (\<lambda>size_row_ref. if size_row \<noteq> size_row_ref then rd_refuse else
     if cell_count = 0 then rd_return () else
     rd_bind (io_read (cell_count * size_row)) (\<lambda>data.
       rd_update (on_k l strm (place si (\<lambda>idx. idx * size_row) size_row data))))))"

definition read_v :: "(int \<Rightarrow> ggml_type_traits) \<Rightarrow> nat \<Rightarrow> nat \<Rightarrow> slot_info \<Rightarrow> nat \<Rightarrow> unit reader" where
  "read_v traits strm cell_count si l =
     rd_bind (rd_query (v_info traits l)) (\<lambda>(type, size_row).
     rd_bind read_i32 (\<lambda>type_ref. if type \<noteq> type_ref then rd_refuse else
     rd_bind read_u64 (\<lambda>size_row_ref. if size_row \<noteq> size_row_ref then rd_refuse else
     if cell_count = 0 then rd_return () else
     rd_bind (io_read (cell_count * size_row)) (\<lambda>data.
       rd_update (on_v l strm (place si (\<lambda>idx. idx * size_row) size_row data))))))"

definition read_v_trans :: "(int \<Rightarrow> ggml_type_traits) \<Rightarrow> nat \<Rightarrow> nat \<Rightarrow> nat \<Rightarrow> slot_info \<Rightarrow> nat \<Rightarrow> unit reader" where
  "read_v_trans traits strm kv_size cell_count si l =
     rd_bind (rd_query (vt_info traits l)) (\<lambda>(type, size_el, n_embd).
     rd_bind read_i32 (\<lambda>type_ref. if type \<noteq> type_ref then rd_refuse else
     rd_bind read_u32 (\<lambda>size_el_ref. if size_el \<noteq> size_el_ref then rd_refuse else
     rd_bind read_u32 (\<lambda>n_embd_ref. if n_embd \<noteq> n_embd_ref then rd_refuse else
     if cell_count = 0 then rd_return () else
     rd_each (\<lambda>j. rd_bind (io_read (cell_count * size_el)) (\<lambda>data.
       rd_update (on_v l strm (place si (\<lambda>idx. u32 (idx + j * kv_size) * size_el) size_el data)))) [0..<n_embd]))))"

definition state_read_data :: "(int \<Rightarrow> ggml_type_traits) \<Rightarrow> nat \<Rightarrow> nat \<Rightarrow> slot_info \<Rightarrow> unit reader" where
  "state_read_data traits strm cell_count si =
     rd_bind read_u32 (\<lambda>v_trans. rd_bind read_u32 (\<lambda>n_layer.
     rd_bind (rd_query (\<lambda>st. Some (st_cache st))) (\<lambda>c.
     if n_layer \<noteq> length (k_layers c) then rd_refuse else
     rd_bind (rd_query (\<lambda>st. map_option cells_size (nth_opt (k_v_cells (st_cache st)) strm))) (\<lambda>kv_size.
     if kv_size < cell_count then rd_refuse else
     if k_v_trans c \<noteq> (v_trans \<noteq> 0) then rd_refuse else
     rd_bind (rd_each (read_k traits strm cell_count si) [0..<n_layer]) (\<lambda>_.
     if \<not> k_v_trans c then rd_each (read_v traits strm cell_count si) [0..<n_layer]
     else rd_each (read_v_trans traits strm kv_size cell_count si) [0..<n_layer])))))"

text \<open>One stream, with the clean-up when it was refused.\<close>

definition rd_on_refused :: "'a reader \<Rightarrow> 'a reader \<Rightarrow> 'a reader" where
  "rd_on_refused m k s = Option.bind (m s) (\<lambda>(r, s'). case r of Refused \<Rightarrow> k s' | _ \<Rightarrow> Some (r, s'))"

definition read_stream :: "(int \<Rightarrow> ggml_type_traits) \<Rightarrow> int \<Rightarrow> nat \<Rightarrow> unit reader" where
  "read_stream traits seq_id s = rd_bind read_u32 (\<lambda>cell_count.
     if cell_count = 0 then rd_return ()
     else rd_bind (rd_query (\<lambda>st. if seq_id = -1 then Some s else stream_of (st_cache st) seq_id)) (\<lambda>strm.
       rd_on_refused
         (rd_bind (state_read_meta strm cell_count seq_id) (state_read_data traits strm cell_count))
         (rd_bind (rd_update (\<lambda>st.
             if seq_id = -1 then Some (clear_store st)
             else on_cache (\<lambda>c. map_option snd (kv_seq_rm seq_id (-1) (-1) c)) st)) (\<lambda>_.
           rd_throw Restore_failed))))"

definition state_read :: "(int \<Rightarrow> ggml_type_traits) \<Rightarrow> int \<Rightarrow> unit reader" where
  "state_read traits seq_id =
     rd_bind (rd_query (\<lambda>st. do { ensure (seq_id = -1 \<or> valid_seq (st_cache st) seq_id); Some (k_n_stream (st_cache st)) })) (\<lambda>n_stream.
     rd_bind read_u32 (\<lambda>n_stream_cur.
     if n_stream_cur \<noteq> n_stream then rd_throw N_stream_mismatch
     else rd_each (read_stream traits seq_id) [0..<n_stream]))"

end
