(* ===== verification/Kv_State_Codec.thy ===== *)
theory Kv_State_Codec
  imports Kv_State
begin

text \<open>
  The pieces of a saved state: integers and their encodings, the ranges of cells that are written, and
  blocks of tensor rows.
\<close>

section \<open>Readers\<close>

lemma rd_bind_Done: "m s = Some (Done x, s') \<Longrightarrow> rd_bind m k s = k x s'"
  by (simp add: rd_bind_def)

lemma rd_return_eq [simp]: "rd_return x (st, bs) = Some (Done x, st, bs)"
  by (simp add: rd_return_def)

lemma rd_query_bind [simp]: "f st = Some x \<Longrightarrow> rd_bind (rd_query f) k (st, bs) = k x (st, bs)"
  by (simp add: rd_bind_def rd_query_def)

lemma rd_update_bind [simp]: "f st = Some st' \<Longrightarrow> rd_bind (rd_update f) k (st, bs) = k () (st', bs)"
  by (simp add: rd_bind_def rd_update_def)

lemma rd_update_eq: "f st = Some st' \<Longrightarrow> rd_update f (st, bs) = Some (Done (), st', bs)"
  by (simp add: rd_update_def)

lemma io_read_bind: "n = length xs \<Longrightarrow> rd_bind (io_read n) k (st, xs @ bs) = k xs (st, bs)"
  by (simp add: rd_bind_def io_read_def)

text \<open>What a reader of one value promises: it reads back what was written and leaves the rest.\<close>

locale codec =
  fixes enc :: "'a \<Rightarrow> bytes" and read :: "'a reader" and fits :: "'a \<Rightarrow> bool"
  assumes read_enc: "fits v \<Longrightarrow> read (st, enc v @ bs) = Some (Done v, st, bs)"
begin

lemma read_bind: "fits v \<Longrightarrow> rd_bind read k (st, enc v @ bs) = k v (st, bs)"
  by (rule rd_bind_Done) (rule read_enc)

end

lemma length_enc_le [simp]: "length (enc_le n v) = n"
  by (induction n arbitrary: v) auto

lemma dec_enc_le: "v < 256 ^ n \<Longrightarrow> dec_le (enc_le n v) = v"
proof (induction n arbitrary: v)
  case (Suc n)
  have "v div 256 < 256 ^ n" using Suc.prems by (simp add: less_mult_imp_div_less mult.commute)
  moreover have "unat (of_nat (v mod 256) :: byte) = v mod 256" by (simp add: unat_of_nat take_bit_eq_mod)
  ultimately show ?case using Suc.IH by simp
qed simp

interpretation u32_io: codec enc_u32 read_u32 "\<lambda>v. v < 4294967296"
  by unfold_locales (simp add: enc_u32_def read_u32_def io_read_bind dec_enc_le)

interpretation u64_io: codec enc_u64 read_u64 "\<lambda>v. v < 18446744073709551616"
  by unfold_locales (simp add: enc_u64_def read_u64_def io_read_bind dec_enc_le)

lemma dec_enc_i32: "-2147483648 \<le> v \<Longrightarrow> v < 2147483648 \<Longrightarrow> dec_i32 (enc_i32 v) = v"
proof -
  assume v: "-2147483648 \<le> v" "v < 2147483648"
  have "nat (v mod 4294967296) < 256 ^ 4" by (simp add: nat_less_iff)
  then have d: "dec_i32 (enc_i32 v) = (if v mod 4294967296 < 2147483648 then v mod 4294967296 else v mod 4294967296 - 4294967296)"
    by (simp add: dec_i32_def enc_i32_def dec_enc_le Let_def)
  show ?thesis
  proof (cases "0 \<le> v")
    case True
    then show ?thesis using v d by (simp add: mod_pos_pos_trivial)
  next
    case False
    then have "v mod 4294967296 = v + 4294967296" using v mod_pos_pos_trivial [of "v + 4294967296" 4294967296] by simp
    then show ?thesis using False v d by simp
  qed
qed

interpretation i32_io: codec enc_i32 read_i32 "\<lambda>v. -2147483648 \<le> v \<and> v < 2147483648"
proof
  fix v :: int and st :: kv_store and bs :: bytes
  assume "-2147483648 \<le> v \<and> v < 2147483648"
  then show "read_i32 (st, enc_i32 v @ bs) = Some (Done v, st, bs)"
    by (simp add: read_i32_def io_read_bind enc_i32_def [of v] dec_enc_i32 [unfolded enc_i32_def])
qed

section \<open>Ranges of cells\<close>

lemma range_cells_simps [simp]:
  "range_cells [] = []" "range_cells (xs @ ys) = range_cells xs @ range_cells ys" "range_cells ((a, b) # xs) = [a..<b] @ range_cells xs"
  by (auto simp: range_cells_def)

lemma range_cells_length: "sum_list (map (\<lambda>(a, b). b - a) data) = length (range_cells data)"
  by (induction data) auto

lemma cell_ranges_spec:
  assumes "\<And>i. i < cells_size cells \<Longrightarrow> cell_written seq_id cells i = Some (W i)"
  obtains data where "cell_ranges seq_id cells = Some (length (filter W [0..<cells_size cells]), data)"
    and "range_cells data = filter W [0..<cells_size cells]"
proof -
  define N where "N = cells_size cells"
  define P where "P k s \<longleftrightarrow> (case s of (cnt, b, data) \<Rightarrow> cnt = length (filter W [0..<k])
      \<and> range_cells (data @ (if b = N then [] else [(b, k)])) = filter W [0..<k] \<and> (b \<noteq> N \<longrightarrow> b < k))" for k s
  have "\<exists>s'. foldo (range_step seq_id cells) [0..<N] (0, N, []) = Some s' \<and> P N s'"
  proof (rule foldo_upt_invariant)
    show "P 0 (0, N, [])" by (simp add: P_def)
  next
    fix k s assume k: "k < N" and "P k s"
    obtain cnt b data where s: "s = (cnt, b, data)" by (cases s)
    with \<open>P k s\<close> have inv: "cnt = length (filter W [0..<k])" "range_cells (data @ (if b = N then [] else [(b, k)])) = filter W [0..<k]"
        "b \<noteq> N \<longrightarrow> b < k" by (auto simp: P_def)
    have step: "range_step seq_id cells k s = Some (if W k then (cnt + 1, if b = N then k else b, data)
        else if b \<noteq> N then (cnt, N, data @ [(b, k)]) else (cnt, b, data))"
      using assms [of k] k by (auto simp: range_step_def s N_def)
    have "P (Suc k) (if W k then (cnt + 1, if b = N then k else b, data) else if b \<noteq> N then (cnt, N, data @ [(b, k)]) else (cnt, b, data))"
      using inv k by (cases "b = N") (auto simp: P_def)
    with step show "\<exists>s'. range_step seq_id cells k s = Some s' \<and> P (Suc k) s'" by blast
  qed
  then obtain cnt b data where f: "foldo (range_step seq_id cells) [0..<N] (0, N, []) = Some (cnt, b, data)"
    and P: "P N (cnt, b, data)" by auto
  define all where "all = (if b \<noteq> N then data @ [(b, N)] else data)"
  have all: "range_cells all = filter W [0..<N]" "cnt = length (filter W [0..<N])" using P by (auto simp: P_def all_def)
  have "cell_ranges seq_id cells = Some (length (filter W [0..<N]), all)"
    using f all range_cells_length [of all] by (cases "b = N") (auto simp: cell_ranges_def N_def [symmetric] all_def)
  then show ?thesis using that all(1) by (simp add: N_def)
qed

section \<open>Rows of a tensor\<close>

definition row_at :: "bytes \<Rightarrow> nat \<Rightarrow> nat \<Rightarrow> bytes" where
  "row_at t n i = take n (drop (i * n) t)"

lemma length_row_at [simp]: "Suc i * n \<le> length t \<Longrightarrow> length (row_at t n i) = n"
  by (simp add: row_at_def)

lemma block_rows: "a \<le> b \<Longrightarrow> b * n \<le> length t \<Longrightarrow> take ((b - a) * n) (drop (a * n) t) = concat (map (row_at t n) [a..<b])"
proof (induction b)
  case (Suc b)
  show ?case
  proof (cases "a \<le> b")
    case True
    have "take ((Suc b - a) * n) (drop (a * n) t) = take ((b - a) * n + n) (drop (a * n) t)" using True by (simp add: Suc_diff_le add.commute)
    also have "\<dots> = take ((b - a) * n) (drop (a * n) t) @ take n (drop ((b - a) * n) (drop (a * n) t))" by (rule take_add)
    also have "drop ((b - a) * n) (drop (a * n) t) = drop (b * n) t" using True by (simp add: diff_mult_distrib add.commute)
    finally show ?thesis using True Suc by (simp add: row_at_def)
  next
    case False
    then have "a = Suc b" using Suc.prems(1) by simp
    then show ?thesis by simp
  qed
qed simp

lemma block_of_rows:
  assumes "\<And>x. x \<in> set xs \<Longrightarrow> length (f x) = n"
  shows "length (concat (map f xs)) = length xs * n"
    and "i < length xs \<Longrightarrow> row_at (concat (map f xs) @ r) n i = f (xs ! i)"
proof -
  show "length (concat (map f xs)) = length xs * n" using assms by (induction xs) auto
  show "i < length xs \<Longrightarrow> row_at (concat (map f xs) @ r) n i = f (xs ! i)" using assms
  proof (induction xs arbitrary: i)
    case (Cons x xs)
    then show ?case by (cases i) (auto simp: row_at_def)
  qed simp
qed

text \<open>A range of cells whose rows lie in the tensor, from a byte offset on.\<close>

lemma tensor_get_rows:
  assumes "a < b \<Longrightarrow> b * n \<le> length t"
  shows "tensor_get t (a * n) ((b - a) * n) = Some (concat (map (row_at t n) [a..<b]))"
proof (cases "a < b \<and> n \<noteq> 0")
  case True
  then have "a * n + (b - a) * n = b * n" by (simp add: add_mult_distrib [symmetric])
  then show ?thesis using True assms block_rows [of a b n t] by (simp add: tensor_get_def)
next
  case False
  then show ?thesis by (auto simp: tensor_get_def row_at_def)
qed

lemma range_bounds:
  assumes "(a, b) \<in> set data" "a < b" "\<forall>i \<in> set (range_cells data). i < N"
  shows "b \<le> N"
proof -
  have "b - 1 \<in> set (range_cells data)" using assms(1,2) by (auto simp: range_cells_def intro!: bexI [of _ "(a, b)"])
  then show ?thesis using assms(3) by fastforce
qed

lemma concat_range_cells: "concat (map (\<lambda>(a, b). concat (map f [a..<b])) data) = concat (map f (range_cells data))"
  by (induction data) auto

lemma write_rows_eq:
  assumes "\<forall>i \<in> set (range_cells data). i < N" "N * n \<le> length t"
  shows "write_rows t n data = Some (concat (map (row_at t n) (range_cells data)))"
proof -
  have "tensor_get t (a * n) ((b - a) * n) = Some (concat (map (row_at t n) [a..<b]))" if ab: "(a, b) \<in> set data" for a b
  proof (rule tensor_get_rows)
    assume "a < b"
    then have "b \<le> N" using range_bounds [OF ab] assms(1) by blast
    then have "b * n \<le> N * n" by (rule mult_right_mono) simp
    with assms(2) show "b * n \<le> length t" by (rule order_trans [rotated])
  qed
  then have "those (map (\<lambda>(a, b). tensor_get t (a * n) ((b - a) * n)) data) = Some (map (\<lambda>(a, b). concat (map (row_at t n) [a..<b])) data)"
    by (intro those_map_Some) auto
  then show ?thesis by (simp add: write_rows_def concat_range_cells)
qed

lemma write_v_row_eq:
  assumes "\<forall>i \<in> set (range_cells data). i < kv" "Suc j * kv * n \<le> length v" "length v < 4294967296"
  shows "write_v_row v n kv data j = Some (concat (map (\<lambda>i. row_at v n (i + j * kv)) (range_cells data)))"
proof -
  have "tensor_get v (u32 ((a + j * kv) * n)) ((b - a) * n) = Some (concat (map (\<lambda>i. row_at v n (i + j * kv)) [a..<b]))"
    if ab: "(a, b) \<in> set data" for a b
  proof (cases "a < b")
    case True
    then have "b \<le> kv" using range_bounds [OF ab] assms(1) by blast
    then have "(b + j * kv) * n \<le> Suc j * kv * n" by (intro mult_right_mono) simp_all
    from this assms(2) have le: "(b + j * kv) * n \<le> length v" by (rule order_trans)
    have "(a + j * kv) * n \<le> (b + j * kv) * n" using True by (intro mult_right_mono) simp_all
    then have "(a + j * kv) * n < 4294967296" using le assms(3) by (meson le_less_trans)
    then have "u32 ((a + j * kv) * n) = (a + j * kv) * n" by (rule u32_small)
    moreover have "map (row_at v n) [a + j * kv..<b + j * kv] = map (\<lambda>i. row_at v n (i + j * kv)) [a..<b]"
      by (rule nth_equalityI) (auto simp: ac_simps)
    ultimately show ?thesis using tensor_get_rows [of "a + j * kv" "b + j * kv" n v] le by simp
  qed (simp add: tensor_get_def)
  then have "those (map (\<lambda>(a, b). tensor_get v (u32 ((a + j * kv) * n)) ((b - a) * n)) data)
      = Some (map (\<lambda>(a, b). concat (map (\<lambda>i. row_at v n (i + j * kv)) [a..<b])) data)"
    by (intro those_map_Some) auto
  then show ?thesis by (simp add: write_v_row_def concat_range_cells)
qed

section \<open>Cells\<close>

definition used_cells :: "kv_cells \<Rightarrow> nat list" where
  "used_cells cells = filter (\<lambda>i. c_pos cells ! i \<noteq> -1) [0..<cells_size cells]"

definition seqs_of :: "nat \<Rightarrow> kv_cells \<Rightarrow> nat \<Rightarrow> int list" where
  "seqs_of n cells i = filter (\<lambda>s. s \<in> c_seq cells ! i) [0..int n - 1]"

definition cell_bytes :: "int \<Rightarrow> int list \<Rightarrow> bytes" where
  "cell_bytes p ids = enc_i32 p @ enc_u32 (length ids) @ concat (map enc_i32 ids)"

lemma used_cells_bound: "i \<in> set (used_cells cells) \<Longrightarrow> i < cells_size cells \<and> c_pos cells ! i \<noteq> -1"
  by (simp add: used_cells_def)

lemma length_used_cells: "length (used_cells cells) \<le> cells_size cells"
  unfolding used_cells_def by (metis diff_zero length_filter_le length_upt)

lemma written_ranges:
  assumes "cells_inv cells"
  obtains data where "cell_ranges (-1) cells = Some (length (used_cells cells), data)" "range_cells data = used_cells cells"
proof -
  have "cell_written (-1) cells i = Some (c_pos cells ! i \<noteq> -1)" if "i < cells_size cells" for i
    using is_empty_eq [OF assms that] by (simp add: cell_written_def)
  from cell_ranges_spec [of cells "-1" "\<lambda>i. c_pos cells ! i \<noteq> -1", OF this] show ?thesis
    using that by (auto simp: used_cells_def)
qed

lemma foldo_filter: "foldo (\<lambda>x acc. Some (if P x then acc @ [x] else acc)) xs acc = Some (acc @ filter P xs)"
  by (induction xs arbitrary: acc) auto

lemma cell_seq_ids_all:
  assumes "i < cells_size cells" "int n \<le> LLAMA_MAX_SEQ"
  shows "cell_seq_ids n (-1) cells i = Some (seqs_of n cells i)"
proof -
  have "cell_seq_ids n (-1) cells i = foldo (\<lambda>s ids. Some (if s \<in> c_seq cells ! i then ids @ [s] else ids)) [0..int n - 1] []"
    unfolding cell_seq_ids_def by (rule foldo_cong) (use assms seq_has_eq [OF assms(1)] in auto)
  then show ?thesis by (simp add: foldo_filter seqs_of_def)
qed

lemma write_cell_all:
  assumes "i \<in> set (used_cells cells)" "int n \<le> LLAMA_MAX_SEQ"
  shows "write_cell n (-1) cells i = Some (cell_bytes (c_pos cells ! i) (seqs_of n cells i))"
  using used_cells_bound [OF assms(1)] cell_seq_ids_all [OF _ assms(2)] by (simp add: write_cell_def pos_get_eq cell_bytes_def)

lemma seqs_of_facts:
  "distinct (seqs_of n cells i)" "set (seqs_of n cells i) = c_seq cells ! i \<inter> {0..<int n}"
  by (auto simp: seqs_of_def)

text \<open>Reading one cell back into a free one.\<close>

definition store_cells :: "nat \<Rightarrow> kv_cells \<Rightarrow> kv_store \<Rightarrow> kv_store" where
  "store_cells strm cells st = st\<lparr>st_cache := put_cells strm cells (st_cache st)\<rparr>"

lemma store_cells_simps [simp]:
  "k_v_cells (st_cache (store_cells strm cells st)) = (k_v_cells (st_cache st))[strm := cells]"
  "k_n_seq_max (st_cache (store_cells strm cells st)) = k_n_seq_max (st_cache st)"
  "store_cells strm cells' (store_cells strm cells st) = store_cells strm cells' st"
  by (simp_all add: store_cells_def put_cells_def)

lemma on_cells_eq:
  "strm < length (k_v_cells (st_cache st)) \<Longrightarrow> f (k_v_cells (st_cache st) ! strm) = Some cells' \<Longrightarrow>
     on_cells strm f st = Some (store_cells strm cells' st)"
  by (simp add: on_cells_def store_cells_def)

lemma rd_each_const: "length xs = length ys \<Longrightarrow> rd_each (\<lambda>_. m) xs = rd_each (\<lambda>_. m) ys"
  by (induction xs ys rule: list_induct2) auto

lemma read_seqs:
  assumes "strm < length (k_v_cells (st_cache st))" "int (k_n_seq_max (st_cache st)) \<le> LLAMA_MAX_SEQ"
    and "cells_inv cells" "i < cells_size cells" "cell cells i = (p, e, h, b)" "p \<noteq> -1"
    and "distinct ids" "set ids \<inter> b = {}" "set ids \<subseteq> {0..<int (k_n_seq_max (st_cache st))}"
  shows "\<exists>cells'. rd_each (\<lambda>_. read_seq strm i) ids (store_cells strm cells st, concat (map enc_i32 ids) @ bs)
      = Some (Done (), store_cells strm cells' st, bs)
    \<and> cells_inv cells' \<and> cell_list cells' = (cell_list cells)[i := (p, e, h, b \<union> set ids)]"
  using assms(3-9)
proof (induction ids arbitrary: cells b)
  case Nil
  then show ?case using cell_list_same [of cells i] by (intro exI [of _ cells]) simp
next
  case (Cons s ids)
  have c: "c_pos cells ! i = p" "c_ext cells ! i = e" "c_shift cells ! i = h" "c_seq cells ! i = b"
    using Cons.prems(3) by (simp_all add: cell_def)
  have s: "0 \<le> s" "s < int (k_n_seq_max (st_cache st))" "s < LLAMA_MAX_SEQ" "s \<notin> b"
    using Cons.prems(6,7) assms(2) by auto
  obtain cells1 where c1: "cells_seq_add i s cells = Some cells1" "cells_inv cells1"
      "cell_list cells1 = (cell_list cells)[i := (p, e, h, insert s b)]"
    using cells_seq_add_spec [OF Cons.prems(1,2), of s] s Cons.prems(4) unfolding c by metis
  have size1: "cells_size cells1 = cells_size cells" using arg_cong [OF c1(3), of length] by simp
  have cell1: "cell cells1 i = (p, e, h, insert s b)"
    using arg_cong [OF c1(3), of "\<lambda>xs. xs ! i"] Cons.prems(2) size1 by simp
  obtain cells' where c': "rd_each (\<lambda>_. read_seq strm i) ids (store_cells strm cells1 st, concat (map enc_i32 ids) @ bs)
      = Some (Done (), store_cells strm cells' st, bs)" "cells_inv cells'"
      "cell_list cells' = (cell_list cells1)[i := (p, e, h, insert s b \<union> set ids)]"
    using Cons.IH [OF c1(2) _ cell1 Cons.prems(4)] Cons.prems size1 s by auto
  have fits: "-2147483648 \<le> s \<and> s < 2147483648" using s by (simp add: LLAMA_MAX_SEQ_def)
  have "read_seq strm i (store_cells strm cells st, enc_i32 s @ (concat (map enc_i32 ids) @ bs))
      = Some (Done (), store_cells strm cells1 st, concat (map enc_i32 ids) @ bs)"
    unfolding read_seq_def i32_io.read_bind [OF fits]
    using s on_cells_eq [of strm "store_cells strm cells st" "cells_seq_add i s" cells1] c1(1) assms(1)
    by (simp add: rd_update_eq)
  then show ?case using c' c1(3) by (intro exI [of _ cells']) (simp add: rd_bind_Done)
qed

lemma read_cell_back:
  assumes "strm < length (k_v_cells (st_cache st))" "int (k_n_seq_max (st_cache st)) \<le> LLAMA_MAX_SEQ"
    and "cells_inv cells" "i < cells_size cells" "cell cells i = free_cell" "0 \<le> p" "p \<le> INT32_MAX"
    and "distinct ids" "set ids \<subseteq> {0..<int (k_n_seq_max (st_cache st))}"
  shows "\<exists>cells'. read_cell strm i (store_cells strm cells st, cell_bytes p ids @ bs) = Some (Done (), store_cells strm cells' st, bs)
    \<and> cells_inv cells' \<and> cell_list cells' = (cell_list cells)[i := (p, ext_zero, 0, set ids)]"
proof -
  have c: "c_pos cells ! i = -1" "c_ext cells ! i = ext_zero" using assms(5) by (simp_all add: cell_def free_cell_def)
  obtain cells1 where c1: "pos_set i p cells = Some cells1" "cells_inv cells1" "cell_list cells1 = (cell_list cells)[i := (p, ext_zero, 0, {})]"
    using pos_set_spec [OF assms(3,4) c(1) assms(6,7)] unfolding c(2) by metis
  have size1: "cells_size cells1 = cells_size cells" using arg_cong [OF c1(3), of length] by simp
  have cell1: "cell cells1 i = (p, ext_zero, 0, {})" using arg_cong [OF c1(3), of "\<lambda>xs. xs ! i"] assms(4) size1 by simp
  have "length ids \<le> k_n_seq_max (st_cache st)"
    using card_mono [OF _ assms(9)] distinct_card [OF assms(8)] by simp
  then have fits: "length ids < 4294967296" using assms(2) by (simp add: LLAMA_MAX_SEQ_def)
  have fitp: "-2147483648 \<le> p \<and> p < 2147483648" using assms(6,7) by (simp add: INT32_MAX_def)
  obtain cells' where c': "rd_each (\<lambda>_. read_seq strm i) ids (store_cells strm cells1 st, concat (map enc_i32 ids) @ bs)
      = Some (Done (), store_cells strm cells' st, bs)" "cells_inv cells'"
      "cell_list cells' = (cell_list cells1)[i := (p, ext_zero, 0, set ids)]"
    using read_seqs [OF assms(1,2) c1(2) _ cell1 _ assms(8) _ assms(9)] assms(4,6) size1 by auto
  have "on_cells strm (pos_set i p) (store_cells strm cells st) = Some (store_cells strm cells1 st)"
    using on_cells_eq [of strm "store_cells strm cells st" "pos_set i p" cells1] c1(1) assms(1) by simp
  then have "read_cell strm i (store_cells strm cells st, cell_bytes p ids @ bs) = Some (Done (), store_cells strm cells' st, bs)"
    unfolding read_cell_def cell_bytes_def append_assoc i32_io.read_bind [OF fitp] u32_io.read_bind [OF fits]
    using c'(1) rd_each_const [of "[0..<length ids]" ids "read_seq strm i"] by simp
  then show ?thesis using c'(2,3) c1(3) by (intro exI [of _ cells']) simp
qed

text \<open>All written cells, in order, into the first cells of an empty stream.\<close>

definition saved_cell :: "nat \<Rightarrow> kv_cells \<Rightarrow> nat \<Rightarrow> cell" where
  "saved_cell n cells i = (c_pos cells ! i, ext_zero, 0, c_seq cells ! i \<inter> {0..<int n})"

lemma read_cells_back:
  assumes "strm < length (k_v_cells (st_cache st))" "int (k_n_seq_max (st_cache st)) \<le> LLAMA_MAX_SEQ"
    and "cells_inv src" "cells_inv cells" "cell_list cells = tab @ replicate m free_cell" "length us \<le> m"
    and "\<forall>u \<in> set us. u < cells_size src \<and> c_pos src ! u \<noteq> -1" "n = k_n_seq_max (st_cache st)"
  shows "\<exists>cells'. rd_each (read_cell strm) [length tab..<length tab + length us]
      (store_cells strm cells st, concat (map (\<lambda>u. cell_bytes (c_pos src ! u) (seqs_of n src u)) us) @ bs)
      = Some (Done (), store_cells strm cells' st, bs)
    \<and> cells_inv cells' \<and> cell_list cells' = tab @ map (saved_cell n src) us @ replicate (m - length us) free_cell"
  using assms(4-7)
proof (induction us arbitrary: tab m cells)
  case Nil
  then show ?case by (intro exI [of _ cells]) simp
next
  case (Cons u us)
  define i where "i = length tab"
  have size: "i < cells_size cells" using arg_cong [OF Cons.prems(2), of length] Cons.prems(3) by (simp add: i_def)
  have free: "cell cells i = free_cell"
    using arg_cong [OF Cons.prems(2), of "\<lambda>xs. xs ! i"] size Cons.prems(3) by (simp add: i_def nth_append)
  have u: "u < cells_size src" "c_pos src ! u \<noteq> -1" using Cons.prems(4) by auto
  then have p: "0 \<le> c_pos src ! u" "c_pos src ! u \<le> INT32_MAX" using cells_inv_pos [OF assms(3), of u] by auto
  obtain cells1 where c1: "read_cell strm i (store_cells strm cells st, cell_bytes (c_pos src ! u) (seqs_of n src u) @
        (concat (map (\<lambda>u. cell_bytes (c_pos src ! u) (seqs_of n src u)) us) @ bs))
      = Some (Done (), store_cells strm cells1 st, concat (map (\<lambda>u. cell_bytes (c_pos src ! u) (seqs_of n src u)) us) @ bs)"
      "cells_inv cells1" "cell_list cells1 = (cell_list cells)[i := (c_pos src ! u, ext_zero, 0, set (seqs_of n src u))]"
    using read_cell_back [OF assms(1,2) Cons.prems(1) size free p seqs_of_facts(1)] seqs_of_facts(2) [of n src u] assms(8)
    by blast
  have list1: "cell_list cells1 = (tab @ [saved_cell n src u]) @ replicate (m - 1) free_cell"
    using c1(3) Cons.prems(2,3) by (cases m) (simp_all add: i_def list_update_append saved_cell_def seqs_of_facts(2))
  have i1: "length (tab @ [saved_cell n src u]) = Suc i" by (simp add: i_def)
  have le: "length us \<le> m - 1" and us: "\<forall>u \<in> set us. u < cells_size src \<and> c_pos src ! u \<noteq> -1"
    using Cons.prems(3,4) by auto
  from Cons.IH [OF c1(2) list1 le us, unfolded i1] obtain cells' where c': "rd_each (read_cell strm) [Suc i..<Suc i + length us]
      (store_cells strm cells1 st, concat (map (\<lambda>u. cell_bytes (c_pos src ! u) (seqs_of n src u)) us) @ bs)
      = Some (Done (), store_cells strm cells' st, bs)" "cells_inv cells'"
      "cell_list cells' = (tab @ [saved_cell n src u]) @ map (saved_cell n src) us @ replicate (m - 1 - length us) free_cell"
    by blast
  have "[i..<i + length (u # us)] = i # [Suc i..<Suc i + length us]" using upt_conv_Cons [of i "i + length (u # us)"] by simp
  then show ?case using c1(1) c' by (intro exI [of _ cells']) (simp add: i_def [symmetric] rd_bind_Done)
qed

end
