(* ===== verification/Kv_State_Data.thy ===== *)
theory Kv_State_Data
  imports Kv_State_Codec
begin

text \<open>
  The tensor data of a saved state: what is written for every layer, and that reading it into the first
  cells of a stream puts every row where the row of the saved cell was read.
\<close>

section \<open>Loops over the layers\<close>

lemma rd_bind_assoc: "rd_bind (rd_bind m f) g s = rd_bind m (\<lambda>x. rd_bind (f x) g) s"
  by (auto simp: rd_bind_def Option.bind_assoc split: Option.bind_split outcome.splits)

lemma rd_each_append: "rd_each f (xs @ ys) s = rd_bind (rd_each f xs) (\<lambda>_. rd_each f ys) s"
proof (induction xs arbitrary: s)
  case Nil
  then show ?case by (cases s) (simp add: rd_bind_Done)
next
  case (Cons x xs)
  have "rd_each f (xs @ ys) = (\<lambda>s. rd_bind (rd_each f xs) (\<lambda>_. rd_each f ys) s)" using Cons by blast
  then show ?case by (simp add: rd_bind_assoc)
qed

definition put_tensor :: "nat \<Rightarrow> kv_tensors \<Rightarrow> kv_store \<Rightarrow> kv_store" where
  "put_tensor l t st = st\<lparr>st_tensors := (st_tensors st)[l := t]\<rparr>"

lemma each_layer:
  assumes "\<And>l ts bs. l < n \<Longrightarrow> length ts = length T \<Longrightarrow> ts ! l = T ! l \<Longrightarrow>
      \<exists>t'. f l (st\<lparr>st_tensors := ts\<rparr>, out l @ bs) = Some (Done (), st\<lparr>st_tensors := ts[l := t']\<rparr>, bs) \<and> Q l t'"
    and "n \<le> length T"
  shows "\<exists>ts. rd_each f [0..<n] (st\<lparr>st_tensors := T\<rparr>, concat (map out [0..<n]) @ bs) = Some (Done (), st\<lparr>st_tensors := ts @ drop n T\<rparr>, bs)
    \<and> length ts = n \<and> (\<forall>l < n. Q l (ts ! l))"
  using assms
proof (induction n arbitrary: bs)
  case (Suc n)
  have "\<exists>ts. rd_each f [0..<n] (st\<lparr>st_tensors := T\<rparr>, concat (map out [0..<n]) @ out n @ bs) = Some (Done (), st\<lparr>st_tensors := ts @ drop n T\<rparr>, out n @ bs)
    \<and> length ts = n \<and> (\<forall>l < n. Q l (ts ! l))"
    using Suc.IH [of "out n @ bs"] Suc.prems by simp
  then obtain ts where ts: "rd_each f [0..<n] (st\<lparr>st_tensors := T\<rparr>, concat (map out [0..<n]) @ out n @ bs) = Some (Done (), st\<lparr>st_tensors := ts @ drop n T\<rparr>, out n @ bs)"
      "length ts = n" "\<forall>l < n. Q l (ts ! l)" by blast
  have "length (ts @ drop n T) = length T" "(ts @ drop n T) ! n = T ! n" using ts(2) Suc.prems(2) by (simp_all add: nth_append)
  then obtain t' where t': "f n (st\<lparr>st_tensors := ts @ drop n T\<rparr>, out n @ bs) = Some (Done (), st\<lparr>st_tensors := (ts @ drop n T)[n := t']\<rparr>, bs)" "Q n t'"
    using Suc.prems(1) [of n "ts @ drop n T" bs] by auto
  have "(ts @ drop n T)[n := t'] = (ts @ [t']) @ drop (Suc n) T"
    using ts(2) Suc.prems(2) by (simp add: list_update_append Cons_nth_drop_Suc [symmetric])
  then have "rd_each f [0..<Suc n] (st\<lparr>st_tensors := T\<rparr>, concat (map out [0..<Suc n]) @ bs) = Some (Done (), st\<lparr>st_tensors := (ts @ [t']) @ drop (Suc n) T\<rparr>, bs)"
    using ts(1) t'(1) by (simp add: rd_each_append rd_bind_Done)
  moreover have "\<forall>l < Suc n. Q l ((ts @ [t']) ! l)" using ts(2,3) t'(2) by (auto simp: nth_append less_Suc_eq)
  ultimately show ?case using ts(2) by (intro exI [of _ "ts @ [t']"]) simp
qed simp

section \<open>Writing rows into a tensor\<close>

definition slot_first :: "nat \<Rightarrow> nat \<Rightarrow> slot_info" where
  "slot_first strm n = \<lparr>si_s0 = strm, si_s1 = strm, si_strm = [strm], si_idxs = [[0..<n]]\<rparr>"

lemma slot_first_contiguous: "is_contiguous (slot_first strm n)" "0 < n \<Longrightarrow> slot_head (slot_first strm n) = Some 0"
  by (auto simp: is_contiguous_def slot_head_def slot_first_def)

lemma place_first:
  assumes "0 < n" "offset_of 0 + length data \<le> length t"
  shows "\<exists>t'. place (slot_first strm n) offset_of m data t = Some t' \<and> length t' = length t
     \<and> take (length data) (drop (offset_of 0) t') = data \<and> take (offset_of 0) t' = take (offset_of 0) t"
  using assms by (auto simp: place_def slot_first_contiguous tensor_set_def)

lemma row_at_take:
  assumes "take (k * n) (drop (q * n) t') = concat (map f us)" "length us = k" "\<And>u. u \<in> set us \<Longrightarrow> length (f u) = n" "i < k"
  shows "row_at t' n (i + q) = f (us ! i)"
proof -
  have "row_at t' n (i + q) = take n (drop (i * n) (drop (q * n) t'))" by (simp add: row_at_def add_mult_distrib)
  also have "\<dots> = take n (drop (i * n) (take (k * n) (drop (q * n) t')))"
  proof -
    have "n \<le> (k - i) * n" using assms(4) by (cases "k - i") simp_all
    then have "n \<le> k * n - i * n" by (simp add: diff_mult_distrib)
    then show ?thesis by (simp add: drop_take min_absorb1)
  qed
  also have "\<dots> = row_at (concat (map f us) @ []) n i" using assms(1) by (simp add: row_at_def)
  also have "\<dots> = f (us ! i)" using block_of_rows(2) [of us f n i "[]"] assms by simp
  finally show ?thesis .
qed

section \<open>One layer\<close>

definition k_tensor :: "kv_store \<Rightarrow> nat \<Rightarrow> nat \<Rightarrow> bytes" where
  "k_tensor st strm l = t_k_stream (st_tensors st ! l) ! strm"

definition v_tensor :: "kv_store \<Rightarrow> nat \<Rightarrow> nat \<Rightarrow> bytes" where
  "v_tensor st strm l = t_v_stream (st_tensors st ! l) ! strm"

text \<open>Layer \<open>l\<close> has tensors of the right size for \<open>kv\<close> cells, and its numbers fit the fields of the file.\<close>

definition k_ok :: "(int \<Rightarrow> ggml_type_traits) \<Rightarrow> nat \<Rightarrow> nat \<Rightarrow> kv_store \<Rightarrow> nat \<Rightarrow> int \<times> nat \<Rightarrow> bool" where
  "k_ok traits strm kv st l = (\<lambda>(t, n). k_info traits l st = Some (t, n) \<and> is_i32 t \<and> n < 18446744073709551616
     \<and> strm < length (t_k_stream (st_tensors st ! l)) \<and> kv * n \<le> length (k_tensor st strm l))"

definition v_ok :: "(int \<Rightarrow> ggml_type_traits) \<Rightarrow> nat \<Rightarrow> nat \<Rightarrow> kv_store \<Rightarrow> nat \<Rightarrow> int \<times> nat \<Rightarrow> bool" where
  "v_ok traits strm kv st l = (\<lambda>(t, n). v_info traits l st = Some (t, n) \<and> is_i32 t \<and> n < 18446744073709551616
     \<and> strm < length (t_v_stream (st_tensors st ! l)) \<and> kv * n \<le> length (v_tensor st strm l))"

definition vt_ok :: "(int \<Rightarrow> ggml_type_traits) \<Rightarrow> nat \<Rightarrow> nat \<Rightarrow> kv_store \<Rightarrow> nat \<Rightarrow> int \<times> nat \<times> nat \<Rightarrow> bool" where
  "vt_ok traits strm kv st l = (\<lambda>(t, n, m). vt_info traits l st = Some (t, n, m) \<and> is_i32 t
     \<and> strm < length (t_v_stream (st_tensors st ! l)) \<and> m * kv * n \<le> length (v_tensor st strm l)
     \<and> length (v_tensor st strm l) < 4294967296 \<and> n < 4294967296 \<and> m < 4294967296)"

definition block_bytes :: "int \<times> nat \<Rightarrow> bytes \<Rightarrow> nat list \<Rightarrow> bytes" where
  "block_bytes = (\<lambda>(t, n) x us. enc_i32 t @ enc_u64 n @ concat (map (row_at x n) us))"

definition trans_bytes :: "int \<times> nat \<times> nat \<Rightarrow> nat \<Rightarrow> bytes \<Rightarrow> nat list \<Rightarrow> bytes" where
  "trans_bytes = (\<lambda>(t, n, m) kv x us. enc_i32 t @ enc_u32 n @ enc_u32 m
     @ concat (map (\<lambda>j. concat (map (\<lambda>i. row_at x n (i + j * kv)) us)) [0..<m]))"

lemma k_info_Some: "k_info traits l st = Some (t, n) \<longleftrightarrow> l < length (k_layers (st_cache st)) \<and> l < length (st_tensors st)
    \<and> t = t_k_type (st_tensors st ! l) \<and> (\<exists>m. n_embd_k_gqa (l_il (k_layers (st_cache st) ! l)) (k_hparams (st_cache st)) = Some m
      \<and> ggml_row_size traits t m = Some n)"
  by (auto simp: k_info_def Option.bind_eq_Some_conv)

lemma v_info_Some: "v_info traits l st = Some (t, n) \<longleftrightarrow> l < length (k_layers (st_cache st)) \<and> l < length (st_tensors st)
    \<and> t = t_v_type (st_tensors st ! l) \<and> (\<exists>m. n_embd_v_gqa (l_il (k_layers (st_cache st) ! l)) (k_hparams (st_cache st)) = Some m
      \<and> ggml_row_size traits t m = Some n)"
  by (auto simp: v_info_def Option.bind_eq_Some_conv)

lemma vt_info_Some: "vt_info traits l st = Some (t, n, m) \<longleftrightarrow> l < length (k_layers (st_cache st)) \<and> l < length (st_tensors st)
    \<and> t = t_v_type (st_tensors st ! l) \<and> n = tt_type_size (traits t)
    \<and> n_embd_v_gqa (l_il (k_layers (st_cache st) ! l)) (k_hparams (st_cache st)) = Some m"
  by (auto simp: vt_info_def Option.bind_eq_Some_conv)

lemma k_info_cong:
  "st_cache st' = st_cache st \<Longrightarrow> length (st_tensors st') = length (st_tensors st) \<Longrightarrow> st_tensors st' ! l = st_tensors st ! l
    \<Longrightarrow> k_info traits l st' = k_info traits l st \<and> v_info traits l st' = v_info traits l st \<and> vt_info traits l st' = vt_info traits l st"
  by (simp add: k_info_def v_info_def vt_info_def nth_opt_def)

lemma write_k_eq:
  assumes "k_ok traits strm kv st l info" "\<forall>i \<in> set (range_cells data). i < kv"
  shows "write_k traits (k_hparams (st_cache st)) strm data (k_layers (st_cache st) ! l, st_tensors st ! l)
    = Some (block_bytes info (k_tensor st strm l) (range_cells data))"
proof -
  obtain t n where info: "info = (t, n)" by (cases info)
  with assms(1) obtain m where "n_embd_k_gqa (l_il (k_layers (st_cache st) ! l)) (k_hparams (st_cache st)) = Some m"
      "ggml_row_size traits (t_k_type (st_tensors st ! l)) m = Some n" "t = t_k_type (st_tensors st ! l)"
      "strm < length (t_k_stream (st_tensors st ! l))" "kv * n \<le> length (k_tensor st strm l)"
    by (auto simp: k_ok_def k_info_Some)
  then show ?thesis using write_rows_eq [OF assms(2)] by (simp add: info write_k_def block_bytes_def k_tensor_def)
qed

lemma write_v_eq:
  assumes "v_ok traits strm kv st l info" "\<forall>i \<in> set (range_cells data). i < kv"
  shows "write_v traits (k_hparams (st_cache st)) strm data (k_layers (st_cache st) ! l, st_tensors st ! l)
    = Some (block_bytes info (v_tensor st strm l) (range_cells data))"
proof -
  obtain t n where info: "info = (t, n)" by (cases info)
  with assms(1) obtain m where "n_embd_v_gqa (l_il (k_layers (st_cache st) ! l)) (k_hparams (st_cache st)) = Some m"
      "ggml_row_size traits (t_v_type (st_tensors st ! l)) m = Some n" "t = t_v_type (st_tensors st ! l)"
      "strm < length (t_v_stream (st_tensors st ! l))" "kv * n \<le> length (v_tensor st strm l)"
    by (auto simp: v_ok_def v_info_Some)
  then show ?thesis using write_rows_eq [OF assms(2)] by (simp add: info write_v_def block_bytes_def v_tensor_def)
qed

lemma write_v_trans_eq:
  assumes "vt_ok traits strm kv st l info" "\<forall>i \<in> set (range_cells data). i < kv"
  shows "write_v_trans traits (k_hparams (st_cache st)) strm kv data (k_layers (st_cache st) ! l, st_tensors st ! l)
    = Some (trans_bytes info kv (v_tensor st strm l) (range_cells data))"
proof -
  obtain t n m where info: "info = (t, n, m)" by (cases info)
  have ok: "m * kv * n \<le> length (v_tensor st strm l)" "length (v_tensor st strm l) < 4294967296"
    using assms(1) by (auto simp: vt_ok_def info)
  have "write_v_row (v_tensor st strm l) n kv data j = Some (concat (map (\<lambda>i. row_at (v_tensor st strm l) n (i + j * kv)) (range_cells data)))"
    if "j < m" for j
  proof (rule write_v_row_eq [OF assms(2) _ ok(2)])
    have "Suc j * kv * n \<le> m * kv * n" using that by (intro mult_right_mono) simp_all
    from this ok(1) show "Suc j * kv * n \<le> length (v_tensor st strm l)" by (rule order_trans)
  qed
  then have "those (map (write_v_row (v_tensor st strm l) n kv data) [0..<m])
      = Some (map (\<lambda>j. concat (map (\<lambda>i. row_at (v_tensor st strm l) n (i + j * kv)) (range_cells data))) [0..<m])"
    by (intro those_map_Some) simp
  then show ?thesis using assms(1)
    by (auto simp: info vt_ok_def vt_info_Some write_v_trans_def trans_bytes_def v_tensor_def Let_def)
qed

text \<open>Reading the block of a layer back into the first cells.\<close>

definition rows_restored :: "bytes \<Rightarrow> bytes \<Rightarrow> nat \<Rightarrow> nat list \<Rightarrow> bool" where
  "rows_restored x x' n us \<longleftrightarrow> (\<forall>i < length us. row_at x' n i = row_at x n (us ! i))"

lemma place_rows:
  assumes "us \<noteq> []" "\<forall>u \<in> set us. Suc u * n \<le> length x" "length us * n \<le> length x'"
  shows "\<exists>y. place (slot_first strm (length us)) (\<lambda>idx. idx * n) n (concat (map (row_at x n) us)) x' = Some y
    \<and> length y = length x' \<and> rows_restored x y n us"
proof -
  have len: "length (row_at x n u) = n" if "u \<in> set us" for u using assms(2) that by simp
  note rows = block_of_rows(1) [of us "row_at x n" n, OF len]
  obtain y where y: "place (slot_first strm (length us)) (\<lambda>idx. idx * n) n (concat (map (row_at x n) us)) x' = Some y" "length y = length x'"
      "take (length us * n) (drop (0 * n) y) = concat (map (row_at x n) us)"
    using place_first [of "length us" "\<lambda>idx. idx * n" "concat (map (row_at x n) us)" x' strm n] assms rows by auto
  have "rows_restored x y n us"
    unfolding rows_restored_def using row_at_take [OF y(3) refl len] by simp
  with y(1,2) show ?thesis by blast
qed

lemma read_k_back:
  assumes "k_ok traits strm kv' st' l info" "us \<noteq> []" "length us \<le> kv'" "\<forall>u \<in> set us. Suc u * snd info \<le> length x"
  shows "\<exists>y. read_k traits strm (length us) (slot_first strm (length us)) l (st', block_bytes info x us @ bs)
      = Some (Done (), put_tensor l ((st_tensors st' ! l)\<lparr>t_k_stream := (t_k_stream (st_tensors st' ! l))[strm := y]\<rparr>) st', bs)
    \<and> length y = length (k_tensor st' strm l) \<and> rows_restored x y (snd info) us"
proof -
  obtain t n where info: "info = (t, n)" by (cases info)
  have ok: "k_info traits l st' = Some (t, n)" "-2147483648 \<le> t \<and> t < 2147483648" "n < 18446744073709551616"
      "strm < length (t_k_stream (st_tensors st' ! l))" "kv' * n \<le> length (k_tensor st' strm l)" "l < length (st_tensors st')"
    using assms(1) by (auto simp: k_ok_def info i32_defs k_info_Some)
  have "length us * n \<le> kv' * n" using assms(3) by (rule mult_right_mono) simp
  from this ok(5) have le: "length us * n \<le> length (k_tensor st' strm l)" by (rule order_trans)
  then obtain y where y: "place (slot_first strm (length us)) (\<lambda>idx. idx * n) n (concat (map (row_at x n) us)) (k_tensor st' strm l) = Some y"
      "length y = length (k_tensor st' strm l)" "rows_restored x y n us"
    using place_rows [OF assms(2), of n x "k_tensor st' strm l" strm] assms(4) info by auto
  have rows: "length us * n = length (concat (map (row_at x n) us))"
    using block_of_rows(1) [of us "row_at x n" n] assms(4) info by simp
  have upd: "on_k l strm (place (slot_first strm (length us)) (\<lambda>idx. idx * n) n (concat (map (row_at x n) us))) st'
      = Some (put_tensor l ((st_tensors st' ! l)\<lparr>t_k_stream := (t_k_stream (st_tensors st' ! l))[strm := y]\<rparr>) st')"
    using y(1) ok(4,6) by (simp add: on_k_def put_tensor_def k_tensor_def)
  show ?thesis using y(2,3) assms(2) ok(1) upd
    unfolding info block_bytes_def read_k_def prod.case append_assoc
    by (intro exI [of _ y]) (simp add: i32_io.read_bind [OF ok(2)] u64_io.read_bind [OF ok(3)] io_read_bind [OF rows] rd_update_eq)
qed

lemma read_v_back:
  assumes "v_ok traits strm kv' st' l info" "us \<noteq> []" "length us \<le> kv'" "\<forall>u \<in> set us. Suc u * snd info \<le> length x"
  shows "\<exists>y. read_v traits strm (length us) (slot_first strm (length us)) l (st', block_bytes info x us @ bs)
      = Some (Done (), put_tensor l ((st_tensors st' ! l)\<lparr>t_v_stream := (t_v_stream (st_tensors st' ! l))[strm := y]\<rparr>) st', bs)
    \<and> length y = length (v_tensor st' strm l) \<and> rows_restored x y (snd info) us"
proof -
  obtain t n where info: "info = (t, n)" by (cases info)
  have ok: "v_info traits l st' = Some (t, n)" "-2147483648 \<le> t \<and> t < 2147483648" "n < 18446744073709551616"
      "strm < length (t_v_stream (st_tensors st' ! l))" "kv' * n \<le> length (v_tensor st' strm l)" "l < length (st_tensors st')"
    using assms(1) by (auto simp: v_ok_def info i32_defs v_info_Some)
  have "length us * n \<le> kv' * n" using assms(3) by (rule mult_right_mono) simp
  from this ok(5) have le: "length us * n \<le> length (v_tensor st' strm l)" by (rule order_trans)
  then obtain y where y: "place (slot_first strm (length us)) (\<lambda>idx. idx * n) n (concat (map (row_at x n) us)) (v_tensor st' strm l) = Some y"
      "length y = length (v_tensor st' strm l)" "rows_restored x y n us"
    using place_rows [OF assms(2), of n x "v_tensor st' strm l" strm] assms(4) info by auto
  have rows: "length us * n = length (concat (map (row_at x n) us))"
    using block_of_rows(1) [of us "row_at x n" n] assms(4) info by simp
  have upd: "on_v l strm (place (slot_first strm (length us)) (\<lambda>idx. idx * n) n (concat (map (row_at x n) us))) st'
      = Some (put_tensor l ((st_tensors st' ! l)\<lparr>t_v_stream := (t_v_stream (st_tensors st' ! l))[strm := y]\<rparr>) st')"
    using y(1) ok(4,6) by (simp add: on_v_def put_tensor_def v_tensor_def)
  show ?thesis using y(2,3) assms(2) ok(1) upd
    unfolding info block_bytes_def read_v_def prod.case append_assoc
    by (intro exI [of _ y]) (simp add: i32_io.read_bind [OF ok(2)] u64_io.read_bind [OF ok(3)] io_read_bind [OF rows] rd_update_eq)
qed

text \<open>The transposed values: \<open>m\<close> rows of one element per cell.\<close>

definition trans_restored :: "bytes \<Rightarrow> nat \<Rightarrow> bytes \<Rightarrow> nat \<Rightarrow> nat \<Rightarrow> nat \<Rightarrow> nat list \<Rightarrow> bool" where
  "trans_restored x kv y kv' n m us \<longleftrightarrow>
     (\<forall>j < m. \<forall>i < length us. row_at y n (i + j * kv') = row_at x n (us ! i + j * kv))"

lemma row_at_prefix: "take k t' = take k t \<Longrightarrow> Suc i * n \<le> k \<Longrightarrow> row_at t' n i = row_at t n i"
proof -
  assume a: "take k t' = take k t" "Suc i * n \<le> k"
  have "row_at s n i = row_at (take k s) n i" for s :: bytes
    using a(2) by (simp add: row_at_def drop_take min_absorb1)
  then show ?thesis using a(1) by metis
qed

lemma place_trans_row:
  assumes "us \<noteq> []" "length us \<le> kv'" "\<forall>u \<in> set us. Suc (u + j * kv) * n \<le> length x"
    and "Suc j * kv' * n \<le> length x'" "length x' < 4294967296" "trans_restored x kv x' kv' n j us"
  shows "\<exists>y. place (slot_first strm (length us)) (\<lambda>idx. u32 (idx + j * kv') * n) n (concat (map (\<lambda>u. row_at x n (u + j * kv)) us)) x' = Some y
    \<and> length y = length x' \<and> trans_restored x kv y kv' n (Suc j) us"
proof (cases "n = 0")
  case True
  have "place (slot_first strm (length us)) (\<lambda>idx. u32 (idx + j * kv') * n) n (concat (map (\<lambda>u. row_at x n (u + j * kv)) us)) x' = Some x'"
    using True assms(1) by (simp add: row_at_def place_def slot_first_contiguous tensor_set_def concat_map_singleton)
  then show ?thesis using True by (auto simp: trans_restored_def row_at_def)
next
  case False
  have len: "length (row_at x n (u + j * kv)) = n" if "u \<in> set us" for u using assms(3) that by simp
  note rows = block_of_rows(1) [of us "\<lambda>u. row_at x n (u + j * kv)" n, OF len]
  have "j * kv' \<le> Suc j * kv' * n" using False by (cases n) (simp_all add: trans_le_add1)
  then have small: "u32 (0 + j * kv') * n = (j * kv') * n" using assms(4,5) by simp
  have "(j * kv') * n + length us * n \<le> Suc j * kv' * n" using assms(2) by (simp add: add_mult_distrib)
  then have fit: "(j * kv') * n + length us * n \<le> length x'" using assms(4) by (rule order_trans)
  obtain y where y: "place (slot_first strm (length us)) (\<lambda>idx. u32 (idx + j * kv') * n) n (concat (map (\<lambda>u. row_at x n (u + j * kv)) us)) x' = Some y"
      "length y = length x'" "take (length us * n) (drop ((j * kv') * n) y) = concat (map (\<lambda>u. row_at x n (u + j * kv)) us)"
      "take ((j * kv') * n) y = take ((j * kv') * n) x'"
    using place_first [of "length us" "\<lambda>idx. u32 (idx + j * kv') * n" "concat (map (\<lambda>u. row_at x n (u + j * kv)) us)" x' strm n]
      assms(1) rows small fit by auto
  have "row_at y n (i + j' * kv') = row_at x n (us ! i + j' * kv)" if "j' < Suc j" "i < length us" for i j'
  proof (cases "j' = j")
    case True
    then show ?thesis using row_at_take [OF y(3) refl len that(2)] by simp
  next
    case False
    then have "Suc j' * kv' \<le> j * kv'" using that(1) by (intro mult_right_mono) simp_all
    moreover have "Suc (i + j' * kv') \<le> Suc j' * kv'" using that(2) assms(2) by simp
    ultimately have "Suc (i + j' * kv') * n \<le> (j * kv') * n" by (intro mult_right_mono) simp_all
    then have "row_at y n (i + j' * kv') = row_at x' n (i + j' * kv')" by (rule row_at_prefix [OF y(4)])
    then show ?thesis using assms(6) False that by (simp add: trans_restored_def)
  qed
  with y(1,2) show ?thesis by (auto simp: trans_restored_def)
qed

abbreviation put_v :: "nat \<Rightarrow> nat \<Rightarrow> bytes \<Rightarrow> kv_store \<Rightarrow> kv_store" where
  "put_v l strm y st \<equiv> put_tensor l ((st_tensors st ! l)\<lparr>t_v_stream := (t_v_stream (st_tensors st ! l))[strm := y]\<rparr>) st"

lemma put_v_facts:
  assumes "l < length (st_tensors st)" "strm < length (t_v_stream (st_tensors st ! l))"
  shows "st_tensors (put_v l strm y st) ! l = (st_tensors st ! l)\<lparr>t_v_stream := (t_v_stream (st_tensors st ! l))[strm := y]\<rparr>"
    "length (st_tensors (put_v l strm y st)) = length (st_tensors st)"
    "v_tensor (put_v l strm y st) strm l = y" "put_v l strm z (put_v l strm y st) = put_v l strm z st"
  using assms by (simp_all add: put_tensor_def v_tensor_def)

lemma read_trans_rows:
  assumes "us \<noteq> []" "length us \<le> kv'" "l < length (st_tensors st')" "strm < length (t_v_stream (st_tensors st' ! l))"
    and "m * kv' * n \<le> length (v_tensor st' strm l)" "length (v_tensor st' strm l) < 4294967296"
    and "\<forall>u \<in> set us. u < kv" "m * kv * n \<le> length x" "k \<le> m"
  shows "\<exists>y. rd_each (\<lambda>j. rd_bind (io_read (length us * n)) (\<lambda>data.
        rd_update (on_v l strm (place (slot_first strm (length us)) (\<lambda>idx. u32 (idx + j * kv') * n) n data)))) [0..<k]
        (st', concat (map (\<lambda>j. concat (map (\<lambda>u. row_at x n (u + j * kv)) us)) [0..<k]) @ bs) = Some (Done (), put_v l strm y st', bs)
    \<and> length y = length (v_tensor st' strm l) \<and> trans_restored x kv y kv' n k us"
  using assms(9)
proof (induction k arbitrary: bs)
  case 0
  show ?case by (intro exI [of _ "v_tensor st' strm l"]) (simp add: put_tensor_def v_tensor_def trans_restored_def)
next
  case (Suc k)
  define out where "out j = concat (map (\<lambda>u. row_at x n (u + j * kv)) us)" for j
  define body where "body j = rd_bind (io_read (length us * n)) (\<lambda>data.
      rd_update (on_v l strm (place (slot_first strm (length us)) (\<lambda>idx. u32 (idx + j * kv') * n) n data)))" for j
  obtain y where y: "rd_each body [0..<k] (st', concat (map out [0..<k]) @ out k @ bs) = Some (Done (), put_v l strm y st', out k @ bs)"
      "length y = length (v_tensor st' strm l)" "trans_restored x kv y kv' n k us"
    using Suc.IH [of "out k @ bs"] Suc.prems unfolding out_def body_def by auto
  have u: "\<forall>u \<in> set us. Suc (u + k * kv) * n \<le> length x"
  proof
    fix u assume "u \<in> set us"
    then have "Suc (u + k * kv) \<le> Suc k * kv" using assms(7) by (simp add: Suc_leI)
    also have "\<dots> \<le> m * kv" using Suc.prems by (intro mult_right_mono) simp_all
    finally have "Suc (u + k * kv) * n \<le> m * kv * n" by (rule mult_right_mono) simp
    from this assms(8) show "Suc (u + k * kv) * n \<le> length x" by (rule order_trans)
  qed
  have "Suc k * kv' * n \<le> m * kv' * n" using Suc.prems by (intro mult_right_mono) simp_all
  then have "Suc k * kv' * n \<le> length y" using assms(5) y(2) by linarith
  then obtain z where z: "place (slot_first strm (length us)) (\<lambda>idx. u32 (idx + k * kv') * n) n (out k) y = Some z" "length z = length y"
      "trans_restored x kv z kv' n (Suc k) us"
    using place_trans_row [OF assms(1,2) u, of y strm] y(2,3) assms(6) unfolding out_def by auto
  have rows: "length us * n = length (out k)"
    using block_of_rows(1) [of us "\<lambda>u. row_at x n (u + k * kv)" n] u unfolding out_def by simp
  have "on_v l strm (place (slot_first strm (length us)) (\<lambda>idx. u32 (idx + k * kv') * n) n (out k)) (put_v l strm y st') = Some (put_v l strm z st')"
    using z(1) assms(3,4) put_v_facts [OF assms(3,4), of y] by (simp add: on_v_def put_tensor_def)
  then have "body k (put_v l strm y st', out k @ bs) = Some (Done (), put_v l strm z st', bs)"
    unfolding body_def io_read_bind [OF rows] by (rule rd_update_eq)
  then have "rd_each body [0..<Suc k] (st', concat (map out [0..<Suc k]) @ bs) = Some (Done (), put_v l strm z st', bs)"
    using y(1) by (simp add: rd_each_append rd_bind_Done)
  then show ?case using z(2,3) y(2) unfolding out_def body_def by (intro exI [of _ z]) simp
qed

lemma read_v_trans_back:
  assumes "vt_ok traits strm kv' st' l info" "us \<noteq> []" "length us \<le> kv'"
    and "\<forall>u \<in> set us. u < kv" "snd (snd info) * kv * fst (snd info) \<le> length x"
  shows "\<exists>y. read_v_trans traits strm kv' (length us) (slot_first strm (length us)) l (st', trans_bytes info kv x us @ bs)
      = Some (Done (), put_v l strm y st', bs)
    \<and> length y = length (v_tensor st' strm l) \<and> trans_restored x kv y kv' (fst (snd info)) (snd (snd info)) us"
proof -
  obtain t n m where info: "info = (t, n, m)" by (cases info)
  have ok: "vt_info traits l st' = Some (t, n, m)" "-2147483648 \<le> t \<and> t < 2147483648" "n < 4294967296" "m < 4294967296"
      "strm < length (t_v_stream (st_tensors st' ! l))" "m * kv' * n \<le> length (v_tensor st' strm l)"
      "length (v_tensor st' strm l) < 4294967296" "l < length (st_tensors st')"
    using assms(1) by (auto simp: vt_ok_def info i32_defs vt_info_Some)
  obtain y where y: "rd_each (\<lambda>j. rd_bind (io_read (length us * n)) (\<lambda>data.
        rd_update (on_v l strm (place (slot_first strm (length us)) (\<lambda>idx. u32 (idx + j * kv') * n) n data)))) [0..<m]
        (st', concat (map (\<lambda>j. concat (map (\<lambda>u. row_at x n (u + j * kv)) us)) [0..<m]) @ bs) = Some (Done (), put_v l strm y st', bs)"
      "length y = length (v_tensor st' strm l)" "trans_restored x kv y kv' n m us"
    using read_trans_rows [OF assms(2,3) ok(8,5,6,7) assms(4), of x m bs] assms(5) info by auto
  show ?thesis using y assms(2) ok(1)
    unfolding info trans_bytes_def read_v_trans_def prod.case append_assoc
    by (intro exI [of _ y])
      (simp add: i32_io.read_bind [OF ok(2)] u32_io.read_bind [OF ok(3)] u32_io.read_bind [OF ok(4)])
qed

end
