(* ===== verification/Kv_State_Rt.thy ===== *)
theory Kv_State_Rt
  imports Kv_State_Data Kv_Ops
begin

text \<open>
  Saving the whole cache and restoring it: the used cells come back in order, with the positions, the
  sequences and the keys and values they had.
\<close>

section \<open>Stores that can be saved\<close>

definition strm_size :: "nat \<Rightarrow> kv_store \<Rightarrow> nat" where
  "strm_size sm st = cells_size (k_v_cells (st_cache st) ! sm)"

definition n_layers :: "kv_store \<Rightarrow> nat" where
  "n_layers st = length (k_layers (st_cache st))"

definition state_ok :: "(int \<Rightarrow> ggml_type_traits) \<Rightarrow> nat \<Rightarrow> kv_store \<Rightarrow> bool" where
  "state_ok traits sm st \<longleftrightarrow> sm < length (k_v_cells (st_cache st)) \<and> sm < length (k_v_heads (st_cache st))
     \<and> cells_inv (k_v_cells (st_cache st) ! sm) \<and> strm_size sm st < 4294967296
     \<and> int (k_n_seq_max (st_cache st)) \<le> LLAMA_MAX_SEQ
     \<and> length (st_tensors st) = n_layers st \<and> n_layers st < 4294967296
     \<and> (\<forall>l < n_layers st. k_ok traits sm (strm_size sm st) st l (the (k_info traits l st))
          \<and> (if k_v_trans (st_cache st) then vt_ok traits sm (strm_size sm st) st l (the (vt_info traits l st))
             else v_ok traits sm (strm_size sm st) st l (the (v_info traits l st))))"

text \<open>The same layers with the same types and widths.\<close>

definition same_layout :: "(int \<Rightarrow> ggml_type_traits) \<Rightarrow> kv_store \<Rightarrow> kv_store \<Rightarrow> bool" where
  "same_layout traits st st' \<longleftrightarrow> n_layers st' = n_layers st \<and> k_v_trans (st_cache st') = k_v_trans (st_cache st)
     \<and> k_n_seq_max (st_cache st') = k_n_seq_max (st_cache st) \<and> k_n_stream (st_cache st') = k_n_stream (st_cache st)
     \<and> (\<forall>l < n_layers st. k_info traits l st' = k_info traits l st \<and> v_info traits l st' = v_info traits l st
          \<and> vt_info traits l st' = vt_info traits l st)"

lemma k_ok_same:
  "k_layers (st_cache st2) = k_layers (st_cache st1) \<Longrightarrow> k_hparams (st_cache st2) = k_hparams (st_cache st1) \<Longrightarrow> length (st_tensors st2) = length (st_tensors st1)
    \<Longrightarrow> t_k_type (st_tensors st2 ! l) = t_k_type (st_tensors st1 ! l) \<Longrightarrow> t_k_stream (st_tensors st2 ! l) = t_k_stream (st_tensors st1 ! l)
    \<Longrightarrow> k_ok traits sm kv st2 l info = k_ok traits sm kv st1 l info"
  by (cases info) (simp add: k_ok_def k_info_Some k_tensor_def)

lemma v_ok_same:
  "k_layers (st_cache st2) = k_layers (st_cache st1) \<Longrightarrow> k_hparams (st_cache st2) = k_hparams (st_cache st1) \<Longrightarrow> length (st_tensors st2) = length (st_tensors st1)
    \<Longrightarrow> t_v_type (st_tensors st2 ! l) = t_v_type (st_tensors st1 ! l) \<Longrightarrow> t_v_stream (st_tensors st2 ! l) = t_v_stream (st_tensors st1 ! l)
    \<Longrightarrow> v_ok traits sm kv st2 l info = v_ok traits sm kv st1 l info"
  by (cases info) (simp add: v_ok_def v_info_Some v_tensor_def)

lemma vt_ok_same:
  "k_layers (st_cache st2) = k_layers (st_cache st1) \<Longrightarrow> k_hparams (st_cache st2) = k_hparams (st_cache st1) \<Longrightarrow> length (st_tensors st2) = length (st_tensors st1)
    \<Longrightarrow> t_v_type (st_tensors st2 ! l) = t_v_type (st_tensors st1 ! l) \<Longrightarrow> t_v_stream (st_tensors st2 ! l) = t_v_stream (st_tensors st1 ! l)
    \<Longrightarrow> vt_ok traits sm kv st2 l info = vt_ok traits sm kv st1 l info"
  by (cases info) (simp add: vt_ok_def vt_info_Some v_tensor_def)

section \<open>Data\<close>

definition v_bytes :: "(int \<Rightarrow> ggml_type_traits) \<Rightarrow> nat \<Rightarrow> kv_store \<Rightarrow> nat list \<Rightarrow> nat \<Rightarrow> bytes" where
  "v_bytes traits sm st us l =
     (if k_v_trans (st_cache st) then trans_bytes (the (vt_info traits l st)) (strm_size sm st) (v_tensor st sm l) us
      else block_bytes (the (v_info traits l st)) (v_tensor st sm l) us)"

definition data_bytes :: "(int \<Rightarrow> ggml_type_traits) \<Rightarrow> nat \<Rightarrow> kv_store \<Rightarrow> nat list \<Rightarrow> bytes" where
  "data_bytes traits sm st us = enc_u32 (if k_v_trans (st_cache st) then 1 else 0) @ enc_u32 (n_layers st)
     @ concat (map (\<lambda>l. block_bytes (the (k_info traits l st)) (k_tensor st sm l) us) [0..<n_layers st])
     @ concat (map (v_bytes traits sm st us) [0..<n_layers st])"

lemma zip_upt: "length xs = n \<Longrightarrow> length ys = n \<Longrightarrow> zip xs ys = map (\<lambda>i. (xs ! i, ys ! i)) [0..<n]"
  by (rule nth_equalityI) auto

lemma those_zip:
  assumes "length xs = n" "length ys = n" "\<And>l. l < n \<Longrightarrow> f (xs ! l, ys ! l) = Some (g l)"
  shows "those (map f (zip xs ys)) = Some (map g [0..<n])"
proof -
  have "map f (zip xs ys) = map (\<lambda>l. f (xs ! l, ys ! l)) [0..<n]" using zip_upt [OF assms(1,2)] by simp
  then show ?thesis using those_map_Some [of "[0..<n]" "\<lambda>l. f (xs ! l, ys ! l)" g] assms(3) by simp
qed

lemma write_data:
  assumes "state_ok traits sm st" "\<forall>i \<in> set (range_cells data). i < strm_size sm st"
  shows "state_write_data traits sm data st = Some (data_bytes traits sm st (range_cells data))"
proof -
  define c where "c = st_cache st"
  have len: "length (k_layers c) = n_layers st" "length (st_tensors st) = n_layers st"
    using assms(1) by (simp_all add: state_ok_def n_layers_def c_def)
  have ok: "k_ok traits sm (strm_size sm st) st l (the (k_info traits l st))"
      "if k_v_trans c then vt_ok traits sm (strm_size sm st) st l (the (vt_info traits l st))
       else v_ok traits sm (strm_size sm st) st l (the (v_info traits l st))" if "l < n_layers st" for l
    using assms(1) that by (auto simp: state_ok_def c_def)
  have k: "those (map (write_k traits (k_hparams c) sm data) (zip (k_layers c) (st_tensors st)))
      = Some (map (\<lambda>l. block_bytes (the (k_info traits l st)) (k_tensor st sm l) (range_cells data)) [0..<n_layers st])"
    by (rule those_zip [OF len]) (use write_k_eq [OF ok(1) assms(2)] in \<open>simp add: c_def\<close>)
  have v: "(if \<not> k_v_trans c then those (map (write_v traits (k_hparams c) sm data) (zip (k_layers c) (st_tensors st)))
      else those (map (write_v_trans traits (k_hparams c) sm (strm_size sm st) data) (zip (k_layers c) (st_tensors st))))
      = Some (map (v_bytes traits sm st (range_cells data)) [0..<n_layers st])"
  proof (cases "k_v_trans c")
    case True
    have "those (map (write_v_trans traits (k_hparams c) sm (strm_size sm st) data) (zip (k_layers c) (st_tensors st)))
        = Some (map (v_bytes traits sm st (range_cells data)) [0..<n_layers st])"
      by (rule those_zip [OF len])
        (use ok(2) True write_v_trans_eq [OF _ assms(2)] in \<open>simp add: c_def v_bytes_def\<close>)
    with True show ?thesis by simp
  next
    case False
    have "those (map (write_v traits (k_hparams c) sm data) (zip (k_layers c) (st_tensors st)))
        = Some (map (v_bytes traits sm st (range_cells data)) [0..<n_layers st])"
      by (rule those_zip [OF len])
        (use ok(2) False write_v_eq [OF _ assms(2)] in \<open>simp add: c_def v_bytes_def\<close>)
    with False show ?thesis by simp
  qed
  have sm: "sm < length (k_v_cells c)" using assms(1) by (simp add: state_ok_def c_def)
  have kv: "cells_size (k_v_cells c ! sm) = strm_size sm st" by (simp add: strm_size_def c_def)
  show ?thesis using k v sm
    by (cases "k_v_trans c") (simp_all add: state_write_data_def c_def [symmetric] data_bytes_def kv len(1))
qed

definition data_restored :: "(int \<Rightarrow> ggml_type_traits) \<Rightarrow> nat \<Rightarrow> kv_store \<Rightarrow> kv_store \<Rightarrow> nat list \<Rightarrow> bool" where
  "data_restored traits sm st st' us \<longleftrightarrow> (\<forall>l < n_layers st.
     rows_restored (k_tensor st sm l) (k_tensor st' sm l) (snd (the (k_info traits l st))) us
     \<and> (if k_v_trans (st_cache st)
        then trans_restored (v_tensor st sm l) (strm_size sm st) (v_tensor st' sm l) (strm_size sm st')
          (fst (snd (the (vt_info traits l st)))) (snd (snd (the (vt_info traits l st)))) us
        else rows_restored (v_tensor st sm l) (v_tensor st' sm l) (snd (the (v_info traits l st))) us))"

lemma ok_rows:
  "k_ok traits sm kv st l info \<Longrightarrow> u < kv \<Longrightarrow> Suc u * snd info \<le> length (k_tensor st sm l)"
  "v_ok traits sm kv st l info \<Longrightarrow> u < kv \<Longrightarrow> Suc u * snd info \<le> length (v_tensor st sm l)"
proof -
  have mono: "kv * n \<le> k \<Longrightarrow> u < kv \<Longrightarrow> Suc u * n \<le> k" for n k by (meson Suc_leI le_trans mult_le_mono1)
  show "k_ok traits sm kv st l info \<Longrightarrow> u < kv \<Longrightarrow> Suc u * snd info \<le> length (k_tensor st sm l)"
    by (auto simp: k_ok_def simp del: mult_Suc intro!: mono)
  show "v_ok traits sm kv st l info \<Longrightarrow> u < kv \<Longrightarrow> Suc u * snd info \<le> length (v_tensor st sm l)"
    by (auto simp: v_ok_def simp del: mult_Suc intro!: mono)
qed

text \<open>The keys of all layers, then the values.\<close>

lemma read_keys:
  assumes "state_ok traits sm st" "state_ok traits sm st'" "same_layout traits st st'"
    and "us \<noteq> []" "length us \<le> strm_size sm st'" "\<forall>u \<in> set us. u < strm_size sm st"
  shows "\<exists>ts. rd_each (read_k traits sm (length us) (slot_first sm (length us))) [0..<n_layers st]
      (st', concat (map (\<lambda>l. block_bytes (the (k_info traits l st)) (k_tensor st sm l) us) [0..<n_layers st]) @ bs)
      = Some (Done (), st'\<lparr>st_tensors := ts\<rparr>, bs) \<and> length ts = n_layers st
    \<and> (\<forall>l < n_layers st. \<exists>y. ts ! l = (st_tensors st' ! l)\<lparr>t_k_stream := (t_k_stream (st_tensors st' ! l))[sm := y]\<rparr>
          \<and> rows_restored (k_tensor st sm l) y (snd (the (k_info traits l st))) us)"
proof -
  define T where "T = st_tensors st'"
  define Q where "Q l t \<longleftrightarrow> (\<exists>y. t = (T ! l)\<lparr>t_k_stream := (t_k_stream (T ! l))[sm := y]\<rparr>
    \<and> rows_restored (k_tensor st sm l) y (snd (the (k_info traits l st))) us)" for l t
  have n: "length T = n_layers st" using assms(2,3) by (simp add: T_def state_ok_def same_layout_def)
  have "\<exists>ts. rd_each (read_k traits sm (length us) (slot_first sm (length us))) [0..<n_layers st]
      (st'\<lparr>st_tensors := T\<rparr>, concat (map (\<lambda>l. block_bytes (the (k_info traits l st)) (k_tensor st sm l) us) [0..<n_layers st]) @ bs)
      = Some (Done (), st'\<lparr>st_tensors := ts @ drop (n_layers st) T\<rparr>, bs) \<and> length ts = n_layers st \<and> (\<forall>l < n_layers st. Q l (ts ! l))"
  proof (rule each_layer)
    fix l ts bs
    assume l: "l < n_layers st" and ts: "length ts = length T" "ts ! l = T ! l"
    have "k_ok traits sm (strm_size sm st') st' l (the (k_info traits l st))"
      using assms(2,3) l by (auto simp: state_ok_def same_layout_def)
    then have ok: "k_ok traits sm (strm_size sm st') (st'\<lparr>st_tensors := ts\<rparr>) l (the (k_info traits l st))"
      using k_ok_same [of "st'\<lparr>st_tensors := ts\<rparr>" st' l] ts by (simp add: T_def)
    have "k_ok traits sm (strm_size sm st) st l (the (k_info traits l st))" using assms(1) l by (auto simp: state_ok_def)
    then have rows: "\<forall>u \<in> set us. Suc u * snd (the (k_info traits l st)) \<le> length (k_tensor st sm l)"
      using ok_rows(1) assms(6) by blast
    from read_k_back [OF ok assms(4,5) rows, of bs] ts
    show "\<exists>t'. read_k traits sm (length us) (slot_first sm (length us)) l
        (st'\<lparr>st_tensors := ts\<rparr>, block_bytes (the (k_info traits l st)) (k_tensor st sm l) us @ bs)
        = Some (Done (), st'\<lparr>st_tensors := ts[l := t']\<rparr>, bs) \<and> Q l t'"
      by (auto simp: put_tensor_def Q_def)
  qed (simp add: n)
  then show ?thesis using n by (simp add: Q_def T_def)
qed

lemma read_values:
  assumes "state_ok traits sm st" "state_ok traits sm st'" "same_layout traits st st'"
    and "us \<noteq> []" "length us \<le> strm_size sm st'" "\<forall>u \<in> set us. u < strm_size sm st"
    and "length T = n_layers st" "\<And>l. l < n_layers st \<Longrightarrow> t_v_type (T ! l) = t_v_type (st_tensors st' ! l) \<and> t_v_stream (T ! l) = t_v_stream (st_tensors st' ! l)"
  shows "\<exists>ts. rd_each (if \<not> k_v_trans (st_cache st) then read_v traits sm (length us) (slot_first sm (length us))
        else read_v_trans traits sm (strm_size sm st') (length us) (slot_first sm (length us))) [0..<n_layers st]
      (st'\<lparr>st_tensors := T\<rparr>, concat (map (v_bytes traits sm st us) [0..<n_layers st]) @ bs)
      = Some (Done (), st'\<lparr>st_tensors := ts\<rparr>, bs) \<and> length ts = n_layers st
    \<and> (\<forall>l < n_layers st. \<exists>y. ts ! l = (T ! l)\<lparr>t_v_stream := (t_v_stream (T ! l))[sm := y]\<rparr>
        \<and> (if k_v_trans (st_cache st)
          then trans_restored (v_tensor st sm l) (strm_size sm st) y (strm_size sm st')
            (fst (snd (the (vt_info traits l st)))) (snd (snd (the (vt_info traits l st)))) us
          else rows_restored (v_tensor st sm l) y (snd (the (v_info traits l st))) us))"
proof -
  define Q where "Q l t \<longleftrightarrow> (\<exists>y. t = (T ! l)\<lparr>t_v_stream := (t_v_stream (T ! l))[sm := y]\<rparr>
    \<and> (if k_v_trans (st_cache st)
          then trans_restored (v_tensor st sm l) (strm_size sm st) y (strm_size sm st')
            (fst (snd (the (vt_info traits l st)))) (snd (snd (the (vt_info traits l st)))) us
          else rows_restored (v_tensor st sm l) y (snd (the (v_info traits l st))) us))" for l t
  define f where "f = (if \<not> k_v_trans (st_cache st) then read_v traits sm (length us) (slot_first sm (length us))
        else read_v_trans traits sm (strm_size sm st') (length us) (slot_first sm (length us)))"
  have len': "length (st_tensors st') = n_layers st" using assms(2,3) by (simp add: state_ok_def same_layout_def)
  have "\<exists>ts. rd_each f [0..<n_layers st] (st'\<lparr>st_tensors := T\<rparr>, concat (map (v_bytes traits sm st us) [0..<n_layers st]) @ bs)
      = Some (Done (), st'\<lparr>st_tensors := ts @ drop (n_layers st) T\<rparr>, bs) \<and> length ts = n_layers st \<and> (\<forall>l < n_layers st. Q l (ts ! l))"
  proof (rule each_layer)
    fix l ts bs
    assume l: "l < n_layers st" and ts: "length ts = length T" "ts ! l = T ! l"
    note same = ts assms(7) len' assms(8) [OF l]
    show "\<exists>t'. f l (st'\<lparr>st_tensors := ts\<rparr>, v_bytes traits sm st us l @ bs) = Some (Done (), st'\<lparr>st_tensors := ts[l := t']\<rparr>, bs) \<and> Q l t'"
    proof (cases "k_v_trans (st_cache st)")
      case True
      have src: "vt_ok traits sm (strm_size sm st) st l (the (vt_info traits l st))"
        and "vt_ok traits sm (strm_size sm st') st' l (the (vt_info traits l st))"
        using assms(1-3) l True by (auto simp: state_ok_def same_layout_def)
      then have ok: "vt_ok traits sm (strm_size sm st') (st'\<lparr>st_tensors := ts\<rparr>) l (the (vt_info traits l st))"
        using vt_ok_same [of "st'\<lparr>st_tensors := ts\<rparr>" st' l] same by simp
      have "snd (snd (the (vt_info traits l st))) * strm_size sm st * fst (snd (the (vt_info traits l st))) \<le> length (v_tensor st sm l)"
        using src by (auto simp: vt_ok_def)
      from read_v_trans_back [OF ok assms(4,5,6) this, of bs] True ts
      show ?thesis by (auto simp: put_tensor_def Q_def f_def v_bytes_def)
    next
      case False
      have src: "v_ok traits sm (strm_size sm st) st l (the (v_info traits l st))"
        and "v_ok traits sm (strm_size sm st') st' l (the (v_info traits l st))"
        using assms(1-3) l False by (auto simp: state_ok_def same_layout_def)
      then have ok: "v_ok traits sm (strm_size sm st') (st'\<lparr>st_tensors := ts\<rparr>) l (the (v_info traits l st))"
        using v_ok_same [of "st'\<lparr>st_tensors := ts\<rparr>" st' l] same by simp
      have "\<forall>u \<in> set us. Suc u * snd (the (v_info traits l st)) \<le> length (v_tensor st sm l)"
        using ok_rows(2) [OF src] assms(6) by blast
      from read_v_back [OF ok assms(4,5) this, of bs] False ts
      show ?thesis by (auto simp: put_tensor_def Q_def f_def v_bytes_def)
    qed
  qed (simp add: assms(7))
  then show ?thesis using assms(7) by (simp add: Q_def f_def)
qed

lemma read_data:
  assumes "state_ok traits sm st" "state_ok traits sm st'" "same_layout traits st st'"
    and "us \<noteq> []" "length us \<le> strm_size sm st'" "\<forall>u \<in> set us. u < strm_size sm st"
  shows "\<exists>ts. state_read_data traits sm (length us) (slot_first sm (length us)) (st', data_bytes traits sm st us @ bs)
      = Some (Done (), st'\<lparr>st_tensors := ts\<rparr>, bs) \<and> data_restored traits sm st (st'\<lparr>st_tensors := ts\<rparr>) us"
proof -
  obtain T where T: "rd_each (read_k traits sm (length us) (slot_first sm (length us))) [0..<n_layers st]
      (st', concat (map (\<lambda>l. block_bytes (the (k_info traits l st)) (k_tensor st sm l) us) [0..<n_layers st])
        @ concat (map (v_bytes traits sm st us) [0..<n_layers st]) @ bs)
      = Some (Done (), st'\<lparr>st_tensors := T\<rparr>, concat (map (v_bytes traits sm st us) [0..<n_layers st]) @ bs)" "length T = n_layers st"
    and Tk: "\<And>l. l < n_layers st \<Longrightarrow> \<exists>y. T ! l = (st_tensors st' ! l)\<lparr>t_k_stream := (t_k_stream (st_tensors st' ! l))[sm := y]\<rparr>
          \<and> rows_restored (k_tensor st sm l) y (snd (the (k_info traits l st))) us"
    using read_keys [OF assms, of "concat (map (v_bytes traits sm st us) [0..<n_layers st]) @ bs"] by auto
  have "t_v_type (T ! l) = t_v_type (st_tensors st' ! l) \<and> t_v_stream (T ! l) = t_v_stream (st_tensors st' ! l)" if "l < n_layers st" for l
    using Tk [OF that] by auto
  from read_values [OF assms T(2) this, of bs] obtain ts where ts:
    "rd_each (if \<not> k_v_trans (st_cache st) then read_v traits sm (length us) (slot_first sm (length us))
        else read_v_trans traits sm (strm_size sm st') (length us) (slot_first sm (length us))) [0..<n_layers st]
      (st'\<lparr>st_tensors := T\<rparr>, concat (map (v_bytes traits sm st us) [0..<n_layers st]) @ bs) = Some (Done (), st'\<lparr>st_tensors := ts\<rparr>, bs)"
    and tv: "\<And>l. l < n_layers st \<Longrightarrow> \<exists>y. ts ! l = (T ! l)\<lparr>t_v_stream := (t_v_stream (T ! l))[sm := y]\<rparr>
        \<and> (if k_v_trans (st_cache st)
          then trans_restored (v_tensor st sm l) (strm_size sm st) y (strm_size sm st')
            (fst (snd (the (vt_info traits l st)))) (snd (snd (the (vt_info traits l st)))) us
          else rows_restored (v_tensor st sm l) y (snd (the (v_info traits l st))) us)"
    by blast
  have "data_restored traits sm st (st'\<lparr>st_tensors := ts\<rparr>) us"
    unfolding data_restored_def
  proof (intro allI impI)
    fix l assume l: "l < n_layers st"
    obtain y z where y: "T ! l = (st_tensors st' ! l)\<lparr>t_k_stream := (t_k_stream (st_tensors st' ! l))[sm := y]\<rparr>"
        "rows_restored (k_tensor st sm l) y (snd (the (k_info traits l st))) us"
      and z: "ts ! l = (T ! l)\<lparr>t_v_stream := (t_v_stream (T ! l))[sm := z]\<rparr>"
        "if k_v_trans (st_cache st)
          then trans_restored (v_tensor st sm l) (strm_size sm st) z (strm_size sm st')
            (fst (snd (the (vt_info traits l st)))) (snd (snd (the (vt_info traits l st)))) us
          else rows_restored (v_tensor st sm l) z (snd (the (v_info traits l st))) us"
      using Tk [OF l] tv [OF l] by blast
    have lens: "sm < length (t_k_stream (st_tensors st' ! l))" "sm < length (t_v_stream (st_tensors st' ! l))"
      using assms(2,3) l by (auto simp: state_ok_def same_layout_def k_ok_def v_ok_def vt_ok_def split: if_splits)
    have "k_tensor (st'\<lparr>st_tensors := ts\<rparr>) sm l = y" "v_tensor (st'\<lparr>st_tensors := ts\<rparr>) sm l = z"
      using y(1) z(1) lens by (simp_all add: k_tensor_def v_tensor_def)
    then show "rows_restored (k_tensor st sm l) (k_tensor (st'\<lparr>st_tensors := ts\<rparr>) sm l) (snd (the (k_info traits l st))) us
      \<and> (if k_v_trans (st_cache st)
          then trans_restored (v_tensor st sm l) (strm_size sm st) (v_tensor (st'\<lparr>st_tensors := ts\<rparr>) sm l) (strm_size sm (st'\<lparr>st_tensors := ts\<rparr>))
            (fst (snd (the (vt_info traits l st)))) (snd (snd (the (vt_info traits l st)))) us
          else rows_restored (v_tensor st sm l) (v_tensor (st'\<lparr>st_tensors := ts\<rparr>) sm l) (snd (the (v_info traits l st))) us)"
      using y(2) z(2) by (cases "k_v_trans (st_cache st)") (simp_all add: strm_size_def)
  qed
  moreover have "state_read_data traits sm (length us) (slot_first sm (length us)) (st', data_bytes traits sm st us @ bs)
      = Some (Done (), st'\<lparr>st_tensors := ts\<rparr>, bs)"
  proof -
    have flag: "(if k_v_trans (st_cache st) then 1 else 0 :: nat) < 4294967296" by simp
    have nl: "n_layers st < 4294967296" using assms(1) by (simp add: state_ok_def)
    have same: "length (k_layers (st_cache st')) = n_layers st" "k_v_trans (st_cache st') = k_v_trans (st_cache st)"
      using assms(3) by (simp_all add: same_layout_def n_layers_def)
    have sm: "nth_opt (k_v_cells (st_cache st')) sm = Some (k_v_cells (st_cache st') ! sm)"
      using assms(2) by (simp add: state_ok_def)
    show ?thesis using T(1) ts assms(5) same sm
      unfolding data_bytes_def state_read_data_def append_assoc u32_io.read_bind [OF flag] u32_io.read_bind [OF nl]
      by (cases "k_v_trans (st_cache st)") (simp_all add: rd_bind_Done strm_size_def)
  qed
  ultimately show ?thesis by blast
qed

section \<open>Cells\<close>

definition meta_bytes :: "nat \<Rightarrow> kv_cells \<Rightarrow> bytes" where
  "meta_bytes n cells = concat (map (\<lambda>u. cell_bytes (c_pos cells ! u) (seqs_of n cells u)) (used_cells cells))"

lemma write_meta:
  assumes "state_ok traits sm st" "range_cells data = used_cells (k_v_cells (st_cache st) ! sm)"
  shows "state_write_meta (-1) sm data (st_cache st) = Some (meta_bytes (k_n_seq_max (st_cache st)) (k_v_cells (st_cache st) ! sm))"
proof -
  have "those (map (write_cell (k_n_seq_max (st_cache st)) (-1) (k_v_cells (st_cache st) ! sm)) (used_cells (k_v_cells (st_cache st) ! sm)))
    = Some (map (\<lambda>u. cell_bytes (c_pos (k_v_cells (st_cache st) ! sm) ! u) (seqs_of (k_n_seq_max (st_cache st)) (k_v_cells (st_cache st) ! sm) u)) (used_cells (k_v_cells (st_cache st) ! sm)))"
    by (rule those_map_Some, rule write_cell_all) (use assms(1) in \<open>auto simp: state_ok_def\<close>)
  then show ?thesis using assms by (simp add: state_write_meta_def meta_bytes_def state_ok_def)
qed

lemma clear_store_simps [simp]:
  "k_v_cells (st_cache (clear_store st)) = map cells_reset (k_v_cells (st_cache st))"
  "k_v_heads (st_cache (clear_store st)) = map (\<lambda>_. 0) (k_v_heads (st_cache st))"
  "k_layers (st_cache (clear_store st)) = k_layers (st_cache st)" "k_hparams (st_cache (clear_store st)) = k_hparams (st_cache st)"
  "k_n_seq_max (st_cache (clear_store st)) = k_n_seq_max (st_cache st)" "k_v_trans (st_cache (clear_store st)) = k_v_trans (st_cache st)"
  "k_n_stream (st_cache (clear_store st)) = k_n_stream (st_cache st)" "st_tensors (clear_store st) = map clear_tensors (st_tensors st)"
  by (simp_all add: clear_store_def kv_clear_def)

lemma store_cells_same: "store_cells sm (k_v_cells (st_cache st) ! sm) st = st"
proof -
  have "(st_cache st)\<lparr>k_v_cells := k_v_cells (st_cache st)\<rparr> = st_cache st" by (cases "st_cache st") simp
  then show ?thesis by (cases st) (simp add: store_cells_def put_cells_def)
qed

lemma read_meta:
  assumes "state_ok traits sm st" "state_ok traits sm st'" "same_layout traits st st'"
    and "us = used_cells (k_v_cells (st_cache st) ! sm)" "us \<noteq> []" "length us \<le> strm_size sm st'"
  shows "\<exists>cells. state_read_meta sm (length us) (-1) (st', meta_bytes (k_n_seq_max (st_cache st)) (k_v_cells (st_cache st) ! sm) @ bs)
      = Some (Done (slot_first sm (length us)),
          (clear_store st')\<lparr>st_cache := put_head sm 0 (put_cells sm cells (st_cache (clear_store st')))\<rparr>, bs)
    \<and> cells_inv cells \<and> cell_list cells = map (saved_cell (k_n_seq_max (st_cache st)) (k_v_cells (st_cache st) ! sm)) us
        @ replicate (strm_size sm st' - length us) free_cell"
proof -
  define src where "src = k_v_cells (st_cache st) ! sm"
  define n where "n = k_n_seq_max (st_cache st)"
  define d where "d = clear_store st'"
  define empty where "empty = k_v_cells (st_cache d) ! sm"
  have ok: "sm < length (k_v_cells (st_cache st'))" "sm < length (k_v_heads (st_cache st'))" "cells_inv (k_v_cells (st_cache st') ! sm)"
      "int (k_n_seq_max (st_cache st')) \<le> LLAMA_MAX_SEQ" "cells_inv src" "k_n_seq_max (st_cache st') = n"
    using assms(1-3) by (simp_all add: state_ok_def same_layout_def src_def n_def)
  have emp: "cells_inv empty" "cell_list empty = [] @ replicate (strm_size sm st') free_cell"
    using cells_inv_reset [OF ok(3)] ok(1) by (simp_all add: empty_def d_def strm_size_def)
  have d: "sm < length (k_v_cells (st_cache d))" "int (k_n_seq_max (st_cache d)) \<le> LLAMA_MAX_SEQ" "n = k_n_seq_max (st_cache d)"
      using ok by (simp_all add: d_def)
  have same: "store_cells sm empty d = d" unfolding empty_def by (rule store_cells_same)
  have us: "\<forall>u \<in> set us. u < cells_size src \<and> c_pos src ! u \<noteq> -1" using assms(4) used_cells_bound by (auto simp: src_def)
  obtain cells where c: "rd_each (read_cell sm) [0..<length us]
      (d, concat (map (\<lambda>u. cell_bytes (c_pos src ! u) (seqs_of n src u)) us) @ bs) = Some (Done (), store_cells sm cells d, bs)"
      "cells_inv cells" "cell_list cells = map (saved_cell n src) us @ replicate (strm_size sm st' - length us) free_cell"
    using read_cells_back [OF d(1,2) ok(5) emp assms(6) us d(3), of bs] same by auto
  have size: "nth_opt (k_v_cells (st_cache st')) sm = Some (k_v_cells (st_cache st') ! sm)" using ok(1) by simp
  have head: "on_cache (\<lambda>c. do { ensure (sm < length (k_v_heads c)); Some (put_head sm 0 c) }) (store_cells sm cells d)
      = Some (d\<lparr>st_cache := put_head sm 0 (put_cells sm cells (st_cache d))\<rparr>)"
    using ok(2) by (simp add: on_cache_def store_cells_def put_cells_def d_def)
  have "state_read_meta sm (length us) (-1) (st', meta_bytes n src @ bs)
      = Some (Done (slot_first sm (length us)), d\<lparr>st_cache := put_head sm 0 (put_cells sm cells (st_cache d))\<rparr>, bs)"
    using assms(6) size c(1) head assms(4)
    by (simp add: state_read_meta_def read_meta_all_def strm_size_def d_def [symmetric] meta_bytes_def src_def [symmetric] rd_bind_Done slot_first_def)
  then show ?thesis using c(2,3) unfolding src_def n_def d_def by blast
qed

text \<open>The store with empty tensors and the cells read so far has the layout of the store before.\<close>

definition emptied :: "nat \<Rightarrow> kv_cells \<Rightarrow> kv_store \<Rightarrow> kv_store" where
  "emptied sm cells st = (clear_store st)\<lparr>st_cache := put_head sm 0 (put_cells sm cells (st_cache (clear_store st)))\<rparr>"

lemma emptied_simps [simp]:
  "k_layers (st_cache (emptied sm cells st)) = k_layers (st_cache st)" "k_hparams (st_cache (emptied sm cells st)) = k_hparams (st_cache st)"
  "k_n_seq_max (st_cache (emptied sm cells st)) = k_n_seq_max (st_cache st)" "k_v_trans (st_cache (emptied sm cells st)) = k_v_trans (st_cache st)"
  "k_n_stream (st_cache (emptied sm cells st)) = k_n_stream (st_cache st)" "st_tensors (emptied sm cells st) = map clear_tensors (st_tensors st)"
  "k_v_cells (st_cache (emptied sm cells st)) = (map cells_reset (k_v_cells (st_cache st)))[sm := cells]"
  "length (k_v_heads (st_cache (emptied sm cells st))) = length (k_v_heads (st_cache st))"
  by (simp_all add: emptied_def put_head_def put_cells_def)

lemma emptied_info:
  assumes "l < length (st_tensors st)"
  shows "k_info traits l (emptied sm cells st) = k_info traits l st" "v_info traits l (emptied sm cells st) = v_info traits l st"
    "vt_info traits l (emptied sm cells st) = vt_info traits l st"
    "k_ok traits s kv (emptied sm cells st) l i = k_ok traits s kv st l i" "v_ok traits s kv (emptied sm cells st) l i = v_ok traits s kv st l i"
    "vt_ok traits s kv (emptied sm cells st) l j = vt_ok traits s kv st l j"
proof -
  show info: "k_info traits l (emptied sm cells st) = k_info traits l st" "v_info traits l (emptied sm cells st) = v_info traits l st"
    "vt_info traits l (emptied sm cells st) = vt_info traits l st"
    using assms by (simp_all add: k_info_def v_info_def vt_info_def nth_opt_def clear_tensors_def)
  have len: "sm' < length (t_k_stream (st_tensors st ! l)) \<Longrightarrow> length (k_tensor (emptied sm cells st) sm' l) = length (k_tensor st sm' l)"
    "sm' < length (t_v_stream (st_tensors st ! l)) \<Longrightarrow> length (v_tensor (emptied sm cells st) sm' l) = length (v_tensor st sm' l)" for sm'
    using assms by (simp_all add: k_tensor_def v_tensor_def clear_tensors_def)
  show "k_ok traits s kv (emptied sm cells st) l i = k_ok traits s kv st l i" "v_ok traits s kv (emptied sm cells st) l i = v_ok traits s kv st l i"
    "vt_ok traits s kv (emptied sm cells st) l j = vt_ok traits s kv st l j"
    using assms by (auto simp: k_ok_def v_ok_def vt_ok_def info len) (simp_all add: clear_tensors_def len)
qed

lemma emptied_ok:
  assumes "state_ok traits sm st" "cells_inv cells" "cells_size cells = strm_size sm st"
  shows "state_ok traits sm (emptied sm cells st)" "strm_size sm (emptied sm cells st) = strm_size sm st"
proof -
  show size: "strm_size sm (emptied sm cells st) = strm_size sm st" using assms by (simp add: strm_size_def state_ok_def)
  have n: "n_layers (emptied sm cells st) = n_layers st" by (simp add: n_layers_def)
  show "state_ok traits sm (emptied sm cells st)"
    using assms unfolding state_ok_def size n by (simp add: emptied_info n_layers_def)
qed

lemma emptied_layout: "state_ok traits sm st \<Longrightarrow> same_layout traits src st \<Longrightarrow> same_layout traits src (emptied sm cells st)"
  by (simp add: same_layout_def state_ok_def emptied_info n_layers_def)

section \<open>Round trip\<close>

text \<open>One stream: what was written for it is read back, and all other streams are cleared.\<close>

lemma stream_roundtrip:
  assumes "state_ok traits sm st" "state_ok traits sm st'" "same_layout traits st st'"
    and "us = used_cells (k_v_cells (st_cache st) ! sm)" "us \<noteq> []" "length us \<le> strm_size sm st'"
  shows "\<exists>out cells ts. write_stream traits (-1) st sm = Some out
    \<and> read_stream traits (-1) sm (st', out @ bs) = Some (Done (), (emptied sm cells st')\<lparr>st_tensors := ts\<rparr>, bs)
    \<and> cells_inv cells \<and> cell_list cells = map (saved_cell (k_n_seq_max (st_cache st)) (k_v_cells (st_cache st) ! sm)) us
        @ replicate (strm_size sm st' - length us) free_cell
    \<and> data_restored traits sm st ((emptied sm cells st')\<lparr>st_tensors := ts\<rparr>) us"
proof -
  define src where "src = k_v_cells (st_cache st) ! sm"
  have ok: "cells_inv src" "sm < length (k_v_cells (st_cache st))" "strm_size sm st < 4294967296"
    using assms(1) by (simp_all add: state_ok_def src_def)
  obtain data where data: "cell_ranges (-1) src = Some (length us, data)" "range_cells data = us"
    using written_ranges [OF ok(1)] assms(4) by (auto simp: src_def)
  have bound: "\<forall>u \<in> set us. u < strm_size sm st" using assms(4) used_cells_bound by (auto simp: strm_size_def)
  define meta where "meta = meta_bytes (k_n_seq_max (st_cache st)) src"
  define out where "out = enc_u32 (length us) @ meta @ data_bytes traits sm st us"
  have w: "write_stream traits (-1) st sm = Some out"
    using write_meta [OF assms(1)] write_data [OF assms(1)] data bound ok(2) assms(4,5)
    by (simp add: write_stream_def src_def [symmetric] out_def meta_def)
  obtain cells where cells: "state_read_meta sm (length us) (-1) (st', meta @ data_bytes traits sm st us @ bs)
      = Some (Done (slot_first sm (length us)), emptied sm cells st', data_bytes traits sm st us @ bs)" "cells_inv cells"
      "cell_list cells = map (saved_cell (k_n_seq_max (st_cache st)) src) us @ replicate (strm_size sm st' - length us) free_cell"
    using read_meta [OF assms, of "data_bytes traits sm st us @ bs"] unfolding emptied_def meta_def src_def by blast
  have size: "cells_size cells = strm_size sm st'" using arg_cong [OF cells(3), of length] assms(6) by simp
  note e = emptied_ok [OF assms(2) cells(2) size]
  obtain ts where ts: "state_read_data traits sm (length us) (slot_first sm (length us)) (emptied sm cells st', data_bytes traits sm st us @ bs)
      = Some (Done (), (emptied sm cells st')\<lparr>st_tensors := ts\<rparr>, bs)" "data_restored traits sm st ((emptied sm cells st')\<lparr>st_tensors := ts\<rparr>) us"
    using read_data [OF assms(1) e(1) emptied_layout [OF assms(2,3)] assms(5) _ bound, of bs] assms(6) e(2) by auto
  have "length us \<le> strm_size sm st" using length_used_cells [of src] assms(4) by (simp add: src_def strm_size_def)
  then have small: "length us < 4294967296" using ok(3) by simp
  have "rd_bind (state_read_meta sm (length us) (-1)) (state_read_data traits sm (length us)) (st', meta @ data_bytes traits sm st us @ bs)
      = Some (Done (), (emptied sm cells st')\<lparr>st_tensors := ts\<rparr>, bs)"
    using ts(1) cells(1) by (simp add: rd_bind_Done)
  then have "read_stream traits (-1) sm (st', out @ bs) = Some (Done (), (emptied sm cells st')\<lparr>st_tensors := ts\<rparr>, bs)"
    unfolding read_stream_def out_def append_assoc u32_io.read_bind [OF small]
    using assms(5) by (simp add: rd_on_refused_def)
  with w cells(2,3) ts(2) show ?thesis unfolding src_def by blast
qed

text \<open>
  C23 (roundtrip): saving a whole cache with one stream and restoring it into any cache with the same
  layers and enough cells succeeds and reads exactly the bytes that were written. The used cells come
  back in order in the first cells, with their positions and sequences, all other cells are free, and
  every key and value row (with transposed values, every element) equals the row of the saved cell. The
  two-dimensional positions and pending shifts are not saved.
\<close>

theorem state_roundtrip:
  assumes "state_ok traits 0 st" "state_ok traits 0 st'" "same_layout traits st st'" "k_n_stream (st_cache st) = 1"
    and "us = used_cells (k_v_cells (st_cache st) ! 0)" "us \<noteq> []" "length us \<le> strm_size 0 st'"
  shows "\<exists>out st''. state_write traits (-1) st = Some out \<and> state_read traits (-1) (st', out) = Some (Done (), st'', [])
    \<and> cells_inv (k_v_cells (st_cache st'') ! 0)
    \<and> cell_list (k_v_cells (st_cache st'') ! 0) = map (saved_cell (k_n_seq_max (st_cache st)) (k_v_cells (st_cache st) ! 0)) us
        @ replicate (strm_size 0 st' - length us) free_cell
    \<and> data_restored traits 0 st st'' us"
proof -
  obtain out cells ts where r: "write_stream traits (-1) st 0 = Some out"
      "read_stream traits (-1) 0 (st', out @ []) = Some (Done (), (emptied 0 cells st')\<lparr>st_tensors := ts\<rparr>, [])"
      "cells_inv cells" "cell_list cells = map (saved_cell (k_n_seq_max (st_cache st)) (k_v_cells (st_cache st) ! 0)) us
        @ replicate (strm_size 0 st' - length us) free_cell"
      "data_restored traits 0 st ((emptied 0 cells st')\<lparr>st_tensors := ts\<rparr>) us"
    using stream_roundtrip [OF assms(1-3,5-7), of "[]"] by blast
  define st'' where "st'' = (emptied 0 cells st')\<lparr>st_tensors := ts\<rparr>"
  have "0 < length (k_v_cells (st_cache st'))" using assms(2) by (simp add: state_ok_def)
  then have cells: "k_v_cells (st_cache st'') ! 0 = cells" by (simp add: st''_def)
  have n: "k_n_stream (st_cache st') = 1" using assms(3,4) by (simp add: same_layout_def)
  have one: "(1 :: nat) < 4294967296" by simp
  have "state_write traits (-1) st = Some (enc_u32 1 @ out)" using r(1) assms(4) by (simp add: state_write_def)
  moreover have "state_read traits (-1) (st', enc_u32 1 @ out) = Some (Done (), st'', [])"
    using r(2) n by (simp add: state_read_def u32_io.read_bind [OF one, unfolded One_nat_def] rd_bind_Done st''_def)
  ultimately show ?thesis using r(3-5) cells by (metis st''_def)
qed

text \<open>One layer with rows of 16 bytes, one used cell of four.\<close>

definition demo_traits :: "int \<Rightarrow> ggml_type_traits" where
  "demo_traits t = \<lparr>tt_blck_size = 1, tt_type_size = 1\<rparr>"

definition demo_store :: "kv_cache \<Rightarrow> kv_store" where
  "demo_store c = \<lparr>st_cache = c\<lparr>k_layers := [\<lparr>l_il = 0, l_n_embd_k = 0, l_n_embd_v = 0\<rparr>], k_v_trans := False, k_n_seq_max := 2\<rparr>,
     st_tensors = [\<lparr>t_k_type = 0, t_v_type = 0, t_k_stream = [map of_nat [0..<64]], t_v_stream = [map of_nat [0..<64]]\<rparr>]\<rparr>"

theorem state_roundtrip_witness:
  "\<exists>st out st''. used_cells (k_v_cells (st_cache st) ! 0) = [1] \<and> state_write demo_traits (-1) st = Some out
     \<and> state_read demo_traits (-1) (st, out) = Some (Done (), st'', [])
     \<and> cell_list (k_v_cells (st_cache st'') ! 0) = [(5, ext_zero, 0, {0}), free_cell, free_cell, free_cell]
     \<and> data_restored demo_traits 0 st st'' [1]"
proof -
  obtain c where c: "kv_inv c" "k_n_stream c = 1" "kv_tables c = [[free_cell, (5, ext_zero, 0, {0}), free_cell, free_cell]]" "k_hparams c = demo_hparams"
    using demo_cache by metis
  define st where "st = demo_store c"
  define cells where "cells = k_v_cells c ! 0"
  have s0: "0 < length (k_v_cells c)" "0 < length (k_v_heads c)" "cells_inv cells"
      "cell_list cells = [free_cell, (5, ext_zero, 0, {0}), free_cell, free_cell]"
    using kv_inv_stream [OF c(1), of 0] c(2,3) by (simp_all add: cells_def)
  have size: "cells_size cells = 4" using arg_cong [OF s0(4), of length] by simp
  have nth: "cell cells i = [free_cell, (5, ext_zero, 0, {0}), free_cell, free_cell] ! i" if "i < 4" for i
    using arg_cong [OF s0(4), of "\<lambda>xs. xs ! i"] that size by simp
  have pos: "c_pos cells ! 0 = -1" "c_pos cells ! 1 = 5" "c_pos cells ! 2 = -1" "c_pos cells ! 3 = -1" "c_seq cells ! 1 = {0}"
    using nth [of 0] nth [of 1] nth [of 2] nth [of 3] by (simp_all add: cell_def free_cell_def)
  have used: "used_cells cells = [1]" using pos by (simp add: used_cells_def size upt_rec [of _ 4] numeral_2_eq_2 numeral_3_eq_3)
  have st: "st_cache st = c\<lparr>k_layers := [\<lparr>l_il = 0, l_n_embd_k = 0, l_n_embd_v = 0\<rparr>], k_v_trans := False, k_n_seq_max := 2\<rparr>"
      "k_v_cells (st_cache st) ! 0 = cells" by (simp_all add: st_def demo_store_def cells_def)
  have info: "k_info demo_traits 0 st = Some (0, 16)" "v_info demo_traits 0 st = Some (0, 16)"
    by (simp_all add: k_info_def v_info_def st_def demo_store_def n_embd_k_gqa_def n_embd_v_gqa_def n_head_kv_def c(4) demo_hparams_def
        ggml_row_size_def demo_traits_def)
  have "state_ok demo_traits 0 st"
    using s0 size info by (simp add: state_ok_def strm_size_def st n_layers_def k_ok_def v_ok_def LLAMA_MAX_SEQ_def i32_defs)
      (simp add: st_def demo_store_def k_tensor_def v_tensor_def cells_def [symmetric])
  moreover have "same_layout demo_traits st st" by (simp add: same_layout_def)
  ultimately obtain out st'' where r: "state_write demo_traits (-1) st = Some out" "state_read demo_traits (-1) (st, out) = Some (Done (), st'', [])"
      "cell_list (k_v_cells (st_cache st'') ! 0) = map (saved_cell 2 cells) [1] @ replicate 3 free_cell" "data_restored demo_traits 0 st st'' [1]"
    using state_roundtrip [of demo_traits st st "[1]"] used c(2) size by (auto simp: st(1) strm_size_def cells_def [symmetric])
  have "saved_cell 2 cells 1 = (5, ext_zero, 0, {0})" using pos by (auto simp: saved_cell_def)
  then have "cell_list (k_v_cells (st_cache st'') ! 0) = [(5, ext_zero, 0, {0}), free_cell, free_cell, free_cell]"
    using r(3) by (simp add: numeral_3_eq_3)
  then show ?thesis using r used st(2) by blast
qed

section \<open>Limits of a restore\<close>

text \<open>
  Restoring one stream clears all streams first. When a state with several streams is restored as a
  whole, each stream therefore wipes the ones restored before it.
\<close>

lemma restore_clears_other_streams:
  assumes "state_ok traits sm st" "state_ok traits sm st'" "same_layout traits st st'"
    and "used_cells (k_v_cells (st_cache st) ! sm) \<noteq> []" "length (used_cells (k_v_cells (st_cache st) ! sm)) \<le> strm_size sm st'"
    and "other < length (k_v_cells (st_cache st'))" "other \<noteq> sm"
  obtains out st'' where "write_stream traits (-1) st sm = Some out" "read_stream traits (-1) sm (st', out) = Some (Done (), st'', [])"
    and "k_v_cells (st_cache st'') ! other = cells_reset (k_v_cells (st_cache st') ! other)"
proof -
  obtain out cells ts where r: "write_stream traits (-1) st sm = Some out"
      "read_stream traits (-1) sm (st', out @ []) = Some (Done (), (emptied sm cells st')\<lparr>st_tensors := ts\<rparr>, [])"
    using stream_roundtrip [OF assms(1-3) refl assms(4,5), of "[]"] by blast
  have "k_v_cells (st_cache ((emptied sm cells st')\<lparr>st_tensors := ts\<rparr>)) ! other = cells_reset (k_v_cells (st_cache st') ! other)"
    using assms(6,7) by simp
  with r show ?thesis using that by simp
qed

text \<open>A state without cells changes nothing, so the cells in the cache before it stay.\<close>

lemma restore_empty_keeps_cells:
  assumes "k_n_stream (st_cache st) = 1"
  shows "state_read traits (-1) (st, enc_u32 1 @ enc_u32 0) = Some (Done (), st, [])"
proof -
  have one: "(Suc 0) < (4294967296 :: nat)" and zero: "(0 :: nat) < 4294967296" by simp_all
  have "read_stream traits (-1) 0 (st, enc_u32 0 @ []) = Some (Done (), st, [])"
    unfolding read_stream_def u32_io.read_bind [OF zero] by simp
  then show ?thesis using assms by (simp add: state_read_def u32_io.read_bind [OF one] rd_bind_Done)
qed

text \<open>
  The micro-batch a sequence is restored with has one position per token, but with multi-dimensional
  positions the tokens are placed as if it had several: \<open>apply_ubatch\<close> reads behind the end.
\<close>

lemma restore_ubatch_short:
  assumes "is_pos_2d u" "length (u_pos u) = u_n_tokens u" "slot_size si = Some n" "0 < n" "si_strm si \<noteq> []"
    and "u_n_tokens u = slot_n_stream si * n"
  shows "apply_ubatch si u c = None"
proof -
  have "0 < u_n_tokens u" using assms(4,5,6) by (simp add: slot_n_stream_def)
  then have x: "nth_opt (u_pos u) (0 * n + 0 + u_n_tokens u * 2) = None" using assms(2) by (simp add: nth_opt_def)
  have first: "emplace_token si u n 0 0 st = None" for st
  proof (rule ccontr)
    assume "emplace_token si u n 0 0 st \<noteq> None"
    then obtain r where "emplace_token si u n 0 0 st = Some r" by blast
    then show False using assms(1) x by (cases st) (auto simp: emplace_token_def Option.bind_eq_Some_conv nth_opt_def split: if_splits)
  qed
  have "[0..<n] = 0 # [1..<n]" "[0..<slot_n_stream si] = 0 # [1..<slot_n_stream si]"
    using assms(4,5) by (simp_all add: upt_rec slot_n_stream_def)
  then have "foldo (\<lambda>s st. foldo (emplace_token si u n s) [0..<n] st) [0..<slot_n_stream si] (c, \<lambda>_. -1) = None"
    using first by simp
  then show ?thesis using assms(3,6) by (simp add: apply_ubatch_def)
qed

end
