(* ===== verification/Recurrent.thy ===== *)
theory Recurrent
  imports Kv_Cache
begin

text \<open>
  The memory of recurrent models (\<open>llama-memory-recurrent.cpp\<close>): each cell holds the whole state of the
  sequences it is shared by. The cell with the number of a sequence has, besides its own contents, the
  \<open>tail\<close> of that sequence: the number of the cell its state is in, or -1. \<open>src\<close> says from which row of
  the state tensors the state of a cell is to be copied before the next graph runs, -1 for a state that
  starts at zero; \<open>src0\<close> is the value staged for that graph. The rows of the state tensors are a list
  of values of an arbitrary type with a zero.
\<close>

section \<open>Definitions\<close>

record mem_cell =
  mc_pos :: int
  mc_src :: int
  mc_src0 :: int
  mc_tail :: int
  mc_seq_id :: "int set"

definition mem_cell_new :: mem_cell where
  "mem_cell_new = \<lparr>mc_pos = -1, mc_src = -1, mc_src0 = -1, mc_tail = -1, mc_seq_id = {}\<rparr>"

definition has_seq_id :: "int \<Rightarrow> mem_cell \<Rightarrow> bool" where
  "has_seq_id seq_id c \<longleftrightarrow> seq_id \<in> mc_seq_id c"

definition mc_is_empty :: "mem_cell \<Rightarrow> bool" where
  "mc_is_empty c \<longleftrightarrow> mc_seq_id c = {}"

record memory_recurrent =
  r_hparams :: llama_hparams
  r_n_seq_max :: nat
  r_head :: nat
  r_size :: nat
  r_used :: nat
  r_n :: nat
  r_rs_z :: int
  r_cells :: "mem_cell list"
  r_layers :: "bool list"

text \<open>\<open>r_layers\<close> says which layers have state tensors. Buffers are allocated by a backend and left out.\<close>

definition recurrent_new :: "llama_hparams \<Rightarrow> nat \<Rightarrow> nat \<Rightarrow> (nat \<Rightarrow> bool) option \<Rightarrow> memory_recurrent" where
  "recurrent_new h mem_size n_seq_max layer_filter =
     \<lparr>r_hparams = h, r_n_seq_max = n_seq_max, r_head = 0, r_size = mem_size, r_used = 0, r_n = 0, r_rs_z = -1,
      r_cells = replicate mem_size mem_cell_new,
      r_layers = map (\<lambda>i. case layer_filter of None \<Rightarrow> True | Some f \<Rightarrow> f i) [0..<h_n_layer h]\<rparr>"

text \<open>Access by a signed index, as the code does with sequences and tails.\<close>

definition cell_at :: "int \<Rightarrow> memory_recurrent \<Rightarrow> mem_cell option" where
  "cell_at i m = (if i < 0 then None else nth_opt (r_cells m) (nat i))"

definition on_cell :: "int \<Rightarrow> (mem_cell \<Rightarrow> mem_cell) \<Rightarrow> memory_recurrent \<Rightarrow> memory_recurrent option" where
  "on_cell i f m = do { cell \<leftarrow> cell_at i m; Some (m\<lparr>r_cells := (r_cells m)[nat i := f cell]\<rparr>) }"

definition dec32 :: "nat \<Rightarrow> nat" where
  "dec32 n = u32 (n + 4294967295)"

definition u32_of_int :: "int \<Rightarrow> nat" where
  "u32_of_int x = nat (x mod 4294967296)"

subsection \<open>Sequences\<close>

definition rs_clear :: "memory_recurrent \<Rightarrow> memory_recurrent option" where
  "rs_clear m = do {
     ensure (r_size m \<le> length (r_cells m));
     Some (m\<lparr>r_cells := map (\<lambda>c. c\<lparr>mc_pos := -1, mc_seq_id := {}, mc_src := -1, mc_tail := -1\<rparr>) (take (r_size m) (r_cells m))
                         @ drop (r_size m) (r_cells m),
             r_head := 0, r_used := 0\<rparr>) }"

text \<open>\<^term>\<open>Some None\<close> is the refusal of a partial range.\<close>

definition rm_tail :: "int \<Rightarrow> int \<Rightarrow> int \<Rightarrow> memory_recurrent \<Rightarrow> memory_recurrent option option" where
  "rm_tail seq_id p0 p1 m = do {
     meta \<leftarrow> cell_at seq_id m;
     if mc_tail meta \<ge> 0
     then do {
       cell \<leftarrow> cell_at (mc_tail meta) m;
       if 0 < p0 \<and> p0 \<le> mc_pos cell \<and> p1 > mc_pos cell then Some None
       else if p0 \<le> mc_pos cell \<and> mc_pos cell < p1
       then map_option Some (on_cell seq_id (\<lambda>c. c\<lparr>mc_tail := -1\<rparr>) m)
       else Some (Some m) }
     else Some (Some m) }"

definition free_cell_at :: "nat \<Rightarrow> memory_recurrent \<times> nat \<Rightarrow> memory_recurrent \<times> nat" where
  "free_cell_at i = (\<lambda>(m, new_head).
     (m\<lparr>r_cells := (r_cells m)[i := (r_cells m ! i)\<lparr>mc_pos := -1, mc_src := -1, mc_seq_id := {}\<rparr>],
        r_used := (if mc_pos (r_cells m ! i) \<ge> 0 then dec32 (r_used m) else r_used m)\<rparr>,
      if new_head = r_size m then i else new_head))"

definition rs_rm_cell :: "int \<Rightarrow> int \<Rightarrow> int \<Rightarrow> nat \<Rightarrow> memory_recurrent \<times> nat \<Rightarrow> (memory_recurrent \<times> nat) option" where
  "rs_rm_cell seq_id p0 p1 i = (\<lambda>(m, new_head). do {
     cell \<leftarrow> nth_opt (r_cells m) i;
     if \<not> (mc_pos cell \<ge> p0 \<and> mc_pos cell < p1) then Some (m, new_head)
     else if seq_id \<ge> 0 \<and> \<not> has_seq_id seq_id cell then Some (m, new_head)
     else let ids = (if seq_id < 0 then {} else mc_seq_id cell - {seq_id}) in
       if ids = {} then Some (free_cell_at i (m, new_head))
       else Some (m\<lparr>r_cells := (r_cells m)[i := cell\<lparr>mc_seq_id := ids\<rparr>]\<rparr>, new_head) })"

definition rs_seq_rm :: "int \<Rightarrow> int \<Rightarrow> int \<Rightarrow> memory_recurrent \<Rightarrow> (bool \<times> memory_recurrent) option" where
  "rs_seq_rm seq_id p0 p1 m = (let p0 = range_lo p0; p1 = range_hi p1 in
     if seq_id \<ge> int (r_size m) then Some (False, m)
     else do {
       checked \<leftarrow>
         (if 0 \<le> seq_id then rm_tail seq_id p0 p1 m
          else if p0 \<noteq> p1 \<and> (p0 \<noteq> 0 \<or> p1 \<noteq> INT32_MAX) then Some None else Some (Some m));
       (case checked of
          None \<Rightarrow> Some (False, m)
        | Some m1 \<Rightarrow> do {
            (m2, new_head) \<leftarrow> foldo (rs_rm_cell seq_id p0 p1) [0..<r_size m] (m1, r_size m);
            Some (True, m2\<lparr>r_head := lower_head new_head (r_size m) (r_head m2)\<rparr>) }) })"

text \<open>A sequence leaves the cell its state is in.\<close>

definition detach :: "int \<Rightarrow> memory_recurrent \<Rightarrow> memory_recurrent option" where
  "detach seq_id m = do {
     meta \<leftarrow> cell_at seq_id m;
     if mc_tail meta < 0 then Some m
     else do {
       m1 \<leftarrow> on_cell (mc_tail meta) (\<lambda>c. c\<lparr>mc_seq_id := mc_seq_id c - {seq_id}\<rparr>) m;
       m2 \<leftarrow> on_cell seq_id (\<lambda>c. c\<lparr>mc_tail := -1\<rparr>) m1;
       cell \<leftarrow> cell_at (mc_tail meta) m2;
       if mc_is_empty cell
       then map_option (\<lambda>m'. m'\<lparr>r_used := dec32 (r_used m')\<rparr>)
              (on_cell (mc_tail meta) (\<lambda>c. c\<lparr>mc_pos := -1, mc_src := -1\<rparr>) m2)
       else Some m2 } }"

definition attach :: "int \<Rightarrow> int \<Rightarrow> memory_recurrent \<Rightarrow> memory_recurrent option" where
  "attach src dst m = do {
     meta \<leftarrow> cell_at src m;
     if mc_tail meta < 0 then Some m
     else do {
       m1 \<leftarrow> on_cell (mc_tail meta) (\<lambda>c. c\<lparr>mc_seq_id := insert dst (mc_seq_id c)\<rparr>) m;
       on_cell dst (\<lambda>c. c\<lparr>mc_tail := mc_tail meta\<rparr>) m1 } }"

definition rs_seq_cp :: "int \<Rightarrow> int \<Rightarrow> int \<Rightarrow> int \<Rightarrow> memory_recurrent \<Rightarrow> memory_recurrent option" where
  "rs_seq_cp src dst p0 p1 m =
     (if src = dst then Some m
      else if u32_of_int dst < r_size m \<and> u32_of_int src < r_size m
      then do { m1 \<leftarrow> detach dst m; attach src dst m1 }
      else Some m)"

definition rs_keep_cell :: "int \<Rightarrow> nat \<Rightarrow> memory_recurrent \<times> nat \<Rightarrow> (memory_recurrent \<times> nat) option" where
  "rs_keep_cell seq_id i = (\<lambda>(m, new_head). do {
     cell \<leftarrow> nth_opt (r_cells m) i;
     let cell1 = (if int i \<noteq> seq_id then cell\<lparr>mc_tail := -1\<rparr> else cell);
     let m1 = m\<lparr>r_cells := (r_cells m)[i := cell1]\<rparr>;
     if \<not> has_seq_id seq_id cell1 then Some (free_cell_at i (m1, new_head))
     else Some (m1\<lparr>r_cells := (r_cells m1)[i := cell1\<lparr>mc_seq_id := {seq_id}\<rparr>]\<rparr>, new_head) })"

definition rs_seq_keep :: "int \<Rightarrow> memory_recurrent \<Rightarrow> memory_recurrent option" where
  "rs_seq_keep seq_id m = do {
     (m1, new_head) \<leftarrow> foldo (rs_keep_cell seq_id) [0..<r_size m] (m, r_size m);
     Some (m1\<lparr>r_head := lower_head new_head (r_size m) (r_head m1)\<rparr>) }"

text \<open>The state of one sequence, for \<open>seq_add\<close> and \<open>seq_div\<close>.\<close>

definition on_tail_pos :: "int \<Rightarrow> int \<Rightarrow> int \<Rightarrow> (int \<Rightarrow> int option) \<Rightarrow> memory_recurrent \<Rightarrow> memory_recurrent option" where
  "on_tail_pos seq_id p0 p1 f m =
     (if p0 = p1 then Some m
      else if 0 \<le> seq_id \<and> seq_id < int (r_size m)
      then do {
        meta \<leftarrow> cell_at seq_id m;
        if mc_tail meta < 0 then Some m
        else do {
          cell \<leftarrow> cell_at (mc_tail meta) m;
          if has_seq_id seq_id cell \<and> p0 \<le> mc_pos cell \<and> mc_pos cell < p1
          then do { p \<leftarrow> f (mc_pos cell); on_cell (mc_tail meta) (\<lambda>c. c\<lparr>mc_pos := p\<rparr>) m }
          else Some m } }
      else Some m)"

definition rs_seq_add :: "int \<Rightarrow> int \<Rightarrow> int \<Rightarrow> int \<Rightarrow> memory_recurrent \<Rightarrow> memory_recurrent option" where
  "rs_seq_add seq_id p0 p1 shift m =
     (if shift = 0 then Some m else on_tail_pos seq_id (range_lo p0) (range_hi p1) (\<lambda>p. add_i32 p shift) m)"

definition rs_seq_div :: "int \<Rightarrow> int \<Rightarrow> int \<Rightarrow> int \<Rightarrow> memory_recurrent \<Rightarrow> memory_recurrent option" where
  "rs_seq_div seq_id p0 p1 d m =
     (if d = 1 then Some m
      else on_tail_pos seq_id (range_lo p0) (range_hi p1) (\<lambda>p. do { ensure (d \<noteq> 0); Some (tdiv p d) }) m)"

definition rs_seq_pos_min :: "int \<Rightarrow> memory_recurrent \<Rightarrow> int option" where
  "rs_seq_pos_min seq_id m = do {
     result \<leftarrow> foldo (\<lambda>i r. do { cell \<leftarrow> nth_opt (r_cells m) i; Some (if has_seq_id seq_id cell then min r (mc_pos cell) else r) })
       [0..<r_size m] INT32_MAX;
     Some (if result = INT32_MAX then -1 else result) }"

definition rs_seq_pos_max :: "int \<Rightarrow> memory_recurrent \<Rightarrow> int option" where
  "rs_seq_pos_max seq_id m =
     foldo (\<lambda>i r. do { cell \<leftarrow> nth_opt (r_cells m) i; Some (if has_seq_id seq_id cell then max r (mc_pos cell) else r) })
       [0..<r_size m] (-1)"

subsection \<open>Finding a slot\<close>

text \<open>The sequences of the set \<open>s\<close> of a micro-batch, read off its first token.\<close>

definition seq_set :: "llama_ubatch \<Rightarrow> nat \<Rightarrow> int list option" where
  "seq_set u s = do {
     n_seq_id \<leftarrow> nth_opt (u_n_seq_id u) (s * u_n_seq_tokens u);
     ids \<leftarrow> nth_opt (u_seq_id u) (s * u_n_seq_tokens u);
     ensure (0 \<le> n_seq_id \<and> nat n_seq_id \<le> length ids);
     Some (take (nat n_seq_id) ids) }"

definition first_seq :: "llama_ubatch \<Rightarrow> nat \<Rightarrow> int option" where
  "first_seq u s = do { ids \<leftarrow> nth_opt (u_seq_id u) (s * u_n_seq_tokens u); nth_opt ids 0 }"

text \<open>A loop that ends early with \<open>return false\<close>.\<close>

primrec while_ok :: "('a \<Rightarrow> 's \<Rightarrow> (bool \<times> 's) option) \<Rightarrow> 'a list \<Rightarrow> 's \<Rightarrow> (bool \<times> 's) option" where
  "while_ok f [] s = Some (True, s)"
| "while_ok f (x # xs) s = do { (ok, s') \<leftarrow> f x s; if ok then while_ok f xs s' else Some (False, s') }"

definition claim_seq :: "nat \<times> int \<Rightarrow> memory_recurrent \<Rightarrow> (bool \<times> memory_recurrent) option" where
  "claim_seq = (\<lambda>(j, seq_id) m.
     if seq_id < 0 \<or> u32_of_int seq_id \<ge> r_size m then Some (False, m)
     else if j > 0 then map_option (Pair True) (detach seq_id m)
     else Some (True, m))"

definition claim_set :: "llama_ubatch \<Rightarrow> nat \<Rightarrow> memory_recurrent \<Rightarrow> (bool \<times> memory_recurrent) option" where
  "claim_set u s m = do { ids \<leftarrow> seq_set u s; while_ok claim_seq (enumerate 0 ids) m }"

primrec first_empty :: "nat \<Rightarrow> nat \<Rightarrow> memory_recurrent \<Rightarrow> nat option" where
  "first_empty 0 i m = Some i"
| "first_empty (Suc k) i m = (let i = (if i \<ge> r_size m then i - r_size m else i) in do {
     cell \<leftarrow> nth_opt (r_cells m) i;
     if mc_is_empty cell then Some i else first_empty k (i + 1) m })"

primrec next_empty :: "nat \<Rightarrow> nat \<Rightarrow> memory_recurrent \<Rightarrow> nat option" where
  "next_empty 0 i m = Some i"
| "next_empty (Suc k) i m = (let i = (if i + 1 \<ge> r_size m then i + 1 - r_size m else i + 1) in do {
     cell \<leftarrow> nth_opt (r_cells m) i;
     if mc_is_empty cell then Some i else next_empty k i m })"

definition owns_cell :: "int \<Rightarrow> memory_recurrent \<Rightarrow> bool option" where
  "owns_cell seq_id m = do {
     meta \<leftarrow> cell_at seq_id m;
     if mc_tail meta \<ge> 0
     then do { cell \<leftarrow> cell_at (mc_tail meta) m; ensure (has_seq_id seq_id cell); Some (card (mc_seq_id cell) = 1) }
     else Some False }"

text \<open>A sequence without a cell of its own gets an empty one, with a copy of a state it shares.\<close>

definition take_cell :: "int \<Rightarrow> nat \<Rightarrow> memory_recurrent \<Rightarrow> memory_recurrent option" where
  "take_cell seq_id e m = do {
     empty_cell \<leftarrow> nth_opt (r_cells m) e;
     ensure (mc_is_empty empty_cell);
     meta \<leftarrow> cell_at seq_id m;
     m' \<leftarrow>
       (if mc_tail meta \<ge> 0
        then do {
          orig_cell \<leftarrow> cell_at (mc_tail meta) m;
          m1 \<leftarrow> on_cell (int e) (\<lambda>c. c\<lparr>mc_pos := mc_pos orig_cell, mc_src := mc_src orig_cell\<rparr>) m;
          m2 \<leftarrow> on_cell (mc_tail meta) (\<lambda>c. c\<lparr>mc_seq_id := mc_seq_id c - {seq_id}\<rparr>) m1;
          m3 \<leftarrow> on_cell (int e) (\<lambda>c. c\<lparr>mc_seq_id := insert seq_id (mc_seq_id c)\<rparr>) m2;
          orig_cell' \<leftarrow> cell_at (mc_tail meta) m3;
          ensure (\<not> mc_is_empty orig_cell');
          Some m3 }
        else Some m);
     on_cell seq_id (\<lambda>c. c\<lparr>mc_tail := int e\<rparr>) m' }"

definition pick_cell ::
  "llama_ubatch \<Rightarrow> nat \<Rightarrow> memory_recurrent \<times> nat \<times> int \<times> int \<Rightarrow> (memory_recurrent \<times> nat \<times> int \<times> int) option" where
  "pick_cell u s = (\<lambda>(m, next_cell, lo, hi). do {
     seq_id \<leftarrow> first_seq u s;
     has_cell \<leftarrow> owns_cell seq_id m;
     (m1, next_cell1) \<leftarrow>
       (if has_cell then Some (m, next_cell)
        else do {
          m' \<leftarrow> take_cell seq_id next_cell m;
          e \<leftarrow> (if s + 1 < u_n_seqs u then next_empty (r_size m') next_cell m' else Some next_cell);
          Some (m', e) });
     meta \<leftarrow> cell_at seq_id m1;
     Some (m1, next_cell1, min lo (mc_tail meta), max hi (mc_tail meta)) })"

definition swap_tail :: "int \<Rightarrow> int \<Rightarrow> mem_cell \<Rightarrow> mem_cell" where
  "swap_tail src dst c = c\<lparr>mc_tail := (if mc_tail c = src then dst else if mc_tail c = dst then src else mc_tail c)\<rparr>"

definition gather_cell :: "llama_ubatch \<Rightarrow> int \<Rightarrow> nat \<Rightarrow> memory_recurrent \<Rightarrow> memory_recurrent option" where
  "gather_cell u lo s m = do {
     seq_id \<leftarrow> first_seq u s;
     meta \<leftarrow> cell_at seq_id m;
     let dst_id = int s + lo;
     let src_id = mc_tail meta;
     if dst_id = src_id then Some m
     else do {
       dst_cell \<leftarrow> cell_at dst_id m;
       src_cell \<leftarrow> cell_at src_id m;
       m1 \<leftarrow> on_cell dst_id (\<lambda>c. c\<lparr>mc_pos := mc_pos src_cell, mc_src := mc_src src_cell, mc_seq_id := mc_seq_id src_cell\<rparr>) m;
       m2 \<leftarrow> on_cell src_id (\<lambda>c. c\<lparr>mc_pos := mc_pos dst_cell, mc_src := mc_src dst_cell, mc_seq_id := mc_seq_id dst_cell\<rparr>) m1;
       Some (m2\<lparr>r_cells := map (swap_tail src_id dst_id) (r_cells m2)\<rparr>) } }"

definition place_seq :: "int \<Rightarrow> int \<Rightarrow> memory_recurrent \<Rightarrow> memory_recurrent option" where
  "place_seq cell_id seq_id m = do {
     m1 \<leftarrow> on_cell cell_id (\<lambda>c. c\<lparr>mc_seq_id := insert seq_id (mc_seq_id c)\<rparr>) m;
     on_cell seq_id (\<lambda>c. c\<lparr>mc_tail := cell_id\<rparr>) m1 }"

definition place_set :: "llama_ubatch \<Rightarrow> int \<Rightarrow> nat \<Rightarrow> memory_recurrent \<Rightarrow> memory_recurrent option" where
  "place_set u lo s m = do {
     ensure (0 < u_n_seq_tokens u);
     last_pos \<leftarrow> nth_opt (u_pos u) (s * u_n_seq_tokens u + u_n_seq_tokens u - 1);
     let cell_id = int s + lo;
     m1 \<leftarrow> on_cell cell_id (\<lambda>c. c\<lparr>mc_pos := last_pos, mc_seq_id := {}\<rparr>) m;
     ids \<leftarrow> seq_set u s;
     foldo (place_seq cell_id) ids m1 }"

text \<open>The first cell of the slot whose row no cell is copied from serves as the zero state.\<close>

definition zero_cell :: "int \<Rightarrow> int \<Rightarrow> memory_recurrent \<Rightarrow> int option" where
  "zero_cell lo hi m = do {
     ensure (\<forall>c \<in> set (r_cells m). mc_src c < int (r_size m));
     Some (case find (\<lambda>i. \<forall>c \<in> set (r_cells m). mc_src c \<noteq> i) [lo..hi] of None \<Rightarrow> -1 | Some i \<Rightarrow> i) }"

definition stage_cell :: "int \<Rightarrow> int \<Rightarrow> memory_recurrent \<Rightarrow> memory_recurrent option" where
  "stage_cell z i m = do {
     cell \<leftarrow> cell_at i m;
     ensure (mc_src cell < 0 \<longrightarrow> z \<ge> 0);
     on_cell i (\<lambda>c. c\<lparr>mc_src0 := (if mc_src c < 0 then z else mc_src c), mc_src := i\<rparr>) m }"

definition count_used :: "memory_recurrent \<Rightarrow> nat" where
  "count_used m = length (filter (\<lambda>c. \<not> mc_is_empty c) (r_cells m))"

definition rs_find_slot :: "llama_ubatch \<Rightarrow> memory_recurrent \<Rightarrow> (bool \<times> memory_recurrent) option" where
  "rs_find_slot u m = do {
     let m = (if r_head m > u32 (r_used m + 2 * u_n_seqs u) then m\<lparr>r_head := 0\<rparr> else m);
     ensure (u_equal_seqs u);
     (ok, m1) \<leftarrow> while_ok (claim_set u) [0..<u_n_seqs u] m;
     if \<not> ok then Some (False, m1)
     else do {
       e \<leftarrow> first_empty (r_size m1) (r_head m1) m1;
       (m2, _, lo, hi) \<leftarrow> foldo (pick_cell u) [0..<u_n_seqs u] (m1, e, int (r_size m1) - 1, 0);
       m3 \<leftarrow> foldo (gather_cell u lo) [0..<u_n_seqs u] m2;
       m4 \<leftarrow> foldo (place_set u lo) [0..<u_n_seqs u] m3;
       z \<leftarrow> zero_cell lo hi m4;
       m5 \<leftarrow> foldo (stage_cell z) [lo..hi] m4;
       let n = nat (hi - lo + 1);
       Some (n \<ge> u_n_seqs u, m5\<lparr>r_rs_z := z, r_head := nat lo, r_n := n, r_used := count_used m5\<rparr>) } }"

subsection \<open>Batches\<close>

definition rs_prepare :: "llama_ubatch list \<Rightarrow> memory_recurrent \<Rightarrow> (bool \<times> memory_recurrent) option" where
  "rs_prepare ubatches m = do {
     (success, m1) \<leftarrow> while_ok rs_find_slot ubatches m;
     Some (success, m1\<lparr>r_cells := r_cells m, r_used := r_used m, r_head := r_head m\<rparr>) }"

record recurrent_context =
  rx_status :: memory_status
  rx_i_next :: nat
  rx_ubatches :: "llama_ubatch list"
  rx_is_full :: bool

definition rs_context_status :: "memory_status \<Rightarrow> recurrent_context" where
  "rs_context_status st = \<lparr>rx_status = st, rx_i_next = 0, rx_ubatches = [], rx_is_full = False\<rparr>"

definition rs_init_batch ::
  "batch_allocr \<Rightarrow> nat \<Rightarrow> bool \<Rightarrow> memory_recurrent \<Rightarrow> (recurrent_context \<times> batch_allocr \<times> memory_recurrent) option" where
  "rs_init_batch a n_ubatch embd_all m = do {
     let a0 = split_reset a;
     (ubatches, a1) \<leftarrow> split_run (if embd_all then split_seq n_ubatch else split_equal n_ubatch True) (Suc (get_n_tokens a0)) a0;
     if get_n_used a1 < get_n_tokens a1 then Some (rs_context_status STATUS_FAILED_PREPARE, a1, m)
     else do {
       (ok, m1) \<leftarrow> rs_prepare ubatches m;
       Some (if ok then (rs_context_status STATUS_SUCCESS)\<lparr>rx_ubatches := ubatches\<rparr>
             else rs_context_status STATUS_FAILED_PREPARE, a1, m1) } }"

definition rs_init_full :: recurrent_context where
  "rs_init_full = (rs_context_status STATUS_SUCCESS)\<lparr>rx_is_full := True\<rparr>"

definition rs_init_update :: recurrent_context where
  "rs_init_update = rs_context_status STATUS_NO_UPDATE"

definition rs_next :: "recurrent_context \<Rightarrow> (bool \<times> recurrent_context) option" where
  "rs_next x = do {
     ensure (rx_status x = STATUS_SUCCESS);
     let i = rx_i_next x + 1;
     Some (i < length (rx_ubatches x), x\<lparr>rx_i_next := i\<rparr>) }"

definition rs_apply :: "recurrent_context \<Rightarrow> memory_recurrent \<Rightarrow> (bool \<times> memory_recurrent) option" where
  "rs_apply x m = do {
     ensure (\<not> status_is_fail (rx_status x));
     if rx_ubatches x = [] then do { ensure (rx_status x = STATUS_NO_UPDATE); Some (True, m) }
     else do {
       u \<leftarrow> nth_opt (rx_ubatches x) (rx_i_next x);
       (_, m') \<leftarrow> rs_find_slot u m;
       Some (True, m') } }"

definition get_n_rs :: "recurrent_context \<Rightarrow> memory_recurrent \<Rightarrow> nat" where
  "get_n_rs x m = (if rx_is_full x then r_size m else r_n m)"

definition get_rs_head :: "recurrent_context \<Rightarrow> memory_recurrent \<Rightarrow> nat" where
  "get_rs_head x m = (if rx_is_full x then 0 else r_head m)"

definition get_rs_z :: "recurrent_context \<Rightarrow> memory_recurrent \<Rightarrow> int" where
  "get_rs_z x m = (if rx_is_full x then 0 else r_rs_z m)"

definition s_copy :: "nat \<Rightarrow> memory_recurrent \<Rightarrow> int option" where
  "s_copy i m = map_option mc_src0 (nth_opt (r_cells m) (i + r_head m))"

subsection \<open>The states in the graph\<close>

text \<open>
  The part of the graph that moves states: one row is set to zero, the states of the micro-batch are
  gathered, and the other rows of the slot are copied to their places.
\<close>

definition set_input_s_copy :: "nat \<Rightarrow> memory_recurrent \<Rightarrow> int list option" where
  "set_input_s_copy n_rs m = those (map (\<lambda>i. s_copy i m) [0..<n_rs])"

definition get_rows :: "'s list \<Rightarrow> int list \<Rightarrow> 's list option" where
  "get_rows states ids = those (map (\<lambda>i. if i < 0 then None else nth_opt states (nat i)) ids)"

definition build_rs :: "'s \<Rightarrow> int list \<Rightarrow> nat \<Rightarrow> nat \<Rightarrow> int \<Rightarrow> 's list \<Rightarrow> ('s list \<times> 's list) option" where
  "build_rs zero state_copy n_seqs rs_head rs_zero states = do {
     states1 \<leftarrow> (if rs_zero \<ge> 0 then do { ensure (nat rs_zero < length states); Some (states[nat rs_zero := zero]) } else Some states);
     ensure (n_seqs \<le> length state_copy \<and> rs_head + length state_copy \<le> length states);
     output_states \<leftarrow> get_rows states1 (take n_seqs state_copy);
     states_extra \<leftarrow> get_rows states1 (drop n_seqs state_copy);
     Some (output_states, take (rs_head + n_seqs) states1 @ states_extra @ drop (rs_head + length state_copy) states1) }"

text \<open>The new states of the micro-batch are stored at the head of the slot.\<close>

definition store_states :: "nat \<Rightarrow> 's list \<Rightarrow> 's list \<Rightarrow> 's list option" where
  "store_states rs_head new states = do {
     ensure (rs_head + length new \<le> length states);
     Some (take rs_head states @ new @ drop (rs_head + length new) states) }"

text \<open>
  One micro-batch: a slot, the graph's input, the states gathered, and the new states that the layers
  (\<open>f\<close>, a parameter) make of them.
\<close>

definition rs_compute ::
  "'s \<Rightarrow> ('s list \<Rightarrow> 's list) \<Rightarrow> llama_ubatch \<Rightarrow> memory_recurrent \<times> 's list \<Rightarrow> (bool \<times> 's list \<times> memory_recurrent \<times> 's list) option" where
  "rs_compute zero f u = (\<lambda>(m, rows). do {
     (ok, m1) \<leftarrow> rs_find_slot u m;
     if \<not> ok then Some (False, [], m1, rows)
     else do {
       state_copy \<leftarrow> set_input_s_copy (r_n m1) m1;
       (states, rows1) \<leftarrow> build_rs zero state_copy (u_n_seqs u) (r_head m1) (r_rs_z m1) rows;
       rows2 \<leftarrow> store_states (r_head m1) (f states) rows1;
       Some (True, states, m1, rows2) } })"

end
