(* ===== verification/Recurrent_Inv.thy ===== *)
theory Recurrent_Inv
  imports Recurrent
begin

text \<open>
  The invariant of the recurrent memory and its abstract view, a map from sequences to a position and a
  state. The sequence operations keep the invariant and have the effect on that map one expects.
\<close>

section \<open>Reading and writing cells\<close>

abbreviation seqs_at :: "memory_recurrent \<Rightarrow> nat \<Rightarrow> int set" where
  "seqs_at m i \<equiv> mc_seq_id (r_cells m ! i)"

abbreviation pos_at :: "memory_recurrent \<Rightarrow> nat \<Rightarrow> int" where
  "pos_at m i \<equiv> mc_pos (r_cells m ! i)"

abbreviation src_at :: "memory_recurrent \<Rightarrow> nat \<Rightarrow> int" where
  "src_at m i \<equiv> mc_src (r_cells m ! i)"

abbreviation tail_of :: "memory_recurrent \<Rightarrow> int \<Rightarrow> int" where
  "tail_of m q \<equiv> mc_tail (r_cells m ! nat q)"

definition upd_cell :: "nat \<Rightarrow> (mem_cell \<Rightarrow> mem_cell) \<Rightarrow> memory_recurrent \<Rightarrow> memory_recurrent" where
  "upd_cell i f m = m\<lparr>r_cells := (r_cells m)[i := f (r_cells m ! i)]\<rparr>"

definition seq_valid :: "memory_recurrent \<Rightarrow> int \<Rightarrow> bool" where
  "seq_valid m q \<longleftrightarrow> 0 \<le> q \<and> q < int (r_size m)"

lemma cell_at_nat [simp]: "cell_at (int i) m = nth_opt (r_cells m) i"
  by (simp add: cell_at_def)

lemma cell_at_eq: "0 \<le> i \<Longrightarrow> nat i < length (r_cells m) \<Longrightarrow> cell_at i m = Some (r_cells m ! nat i)"
  by (simp add: cell_at_def)

lemma on_cell_eq: "0 \<le> i \<Longrightarrow> nat i < length (r_cells m) \<Longrightarrow> on_cell i f m = Some (upd_cell (nat i) f m)"
  by (simp add: on_cell_def cell_at_eq upd_cell_def)

lemma upd_cell_simps [simp]:
  "r_hparams (upd_cell i f m) = r_hparams m" "r_n_seq_max (upd_cell i f m) = r_n_seq_max m"
  "r_head (upd_cell i f m) = r_head m" "r_size (upd_cell i f m) = r_size m" "r_used (upd_cell i f m) = r_used m"
  "r_n (upd_cell i f m) = r_n m" "r_rs_z (upd_cell i f m) = r_rs_z m" "r_layers (upd_cell i f m) = r_layers m"
  "length (r_cells (upd_cell i f m)) = length (r_cells m)"
  by (simp_all add: upd_cell_def)

lemma upd_cell_nth [simp]:
  "j < length (r_cells m) \<Longrightarrow> r_cells (upd_cell i f m) ! j = (if i = j then f (r_cells m ! j) else r_cells m ! j)"
  by (auto simp: upd_cell_def nth_upd)

lemma length_filter_update:
  "i < length xs \<Longrightarrow> length (filter P (xs[i := y])) + (if P (xs ! i) then 1 else 0) = length (filter P xs) + (if P y then 1 else 0)"
proof (induction xs arbitrary: i)
  case (Cons x xs)
  then show ?case by (cases i) auto
qed simp

lemma count_used_upd:
  assumes "i < length (r_cells m)"
  shows "count_used (upd_cell i f m) + (if seqs_at m i \<noteq> {} then 1 else 0)
    = count_used m + (if mc_seq_id (f (r_cells m ! i)) \<noteq> {} then 1 else 0)"
  using length_filter_update [OF assms, of "\<lambda>c. \<not> mc_is_empty c" "f (r_cells m ! i)"]
  by (simp add: count_used_def upd_cell_def mc_is_empty_def)

lemma count_used_cong: "map mc_seq_id (r_cells m) = map mc_seq_id (r_cells m') \<Longrightarrow> count_used m = count_used m'"
proof -
  have "count_used m = length (filter (\<lambda>s. s \<noteq> {}) (map mc_seq_id (r_cells m)))" for m
    by (simp add: count_used_def filter_map comp_def mc_is_empty_def)
  then show "map mc_seq_id (r_cells m) = map mc_seq_id (r_cells m') \<Longrightarrow> count_used m = count_used m'" by metis
qed

lemma count_used_le: "count_used m \<le> length (r_cells m)"
  by (simp add: count_used_def)

lemma count_used_pos: "i < length (r_cells m) \<Longrightarrow> seqs_at m i \<noteq> {} \<Longrightarrow> 0 < count_used m"
proof -
  assume "i < length (r_cells m)" "seqs_at m i \<noteq> {}"
  then have "r_cells m ! i \<in> set (filter (\<lambda>c. \<not> mc_is_empty c) (r_cells m))" by (simp add: mc_is_empty_def)
  then show ?thesis unfolding count_used_def by (metis length_pos_if_in_set)
qed

lemma dec32_eq: "0 < n \<Longrightarrow> n < 4294967296 \<Longrightarrow> dec32 n = n - 1"
proof -
  assume "0 < n" "n < 4294967296"
  then obtain k where "n = Suc k" "k < 4294967296" by (metis Suc_lessD gr0_implies_Suc)
  then show ?thesis by (simp add: dec32_def u32_def)
qed

section \<open>The invariant\<close>

text \<open>
  Every sequence is in at most one cell, its tail. During the slot search the sequences in \<open>R\<close> may have
  an empty cell reserved for them.
\<close>

definition cell_ok :: "memory_recurrent \<Rightarrow> nat \<Rightarrow> bool" where
  "cell_ok m i \<longleftrightarrow> (\<forall>q \<in> seqs_at m i. seq_valid m q \<and> tail_of m q = int i)
     \<and> (if seqs_at m i = {} then pos_at m i = -1 else 0 \<le> pos_at m i \<and> pos_at m i < INT32_MAX)"

definition tail_ok :: "int set \<Rightarrow> memory_recurrent \<Rightarrow> int \<Rightarrow> bool" where
  "tail_ok R m q \<longleftrightarrow> tail_of m q = -1
     \<or> (0 \<le> tail_of m q \<and> tail_of m q < int (r_size m)
        \<and> (q \<in> seqs_at m (nat (tail_of m q)) \<or> (q \<in> R \<and> seqs_at m (nat (tail_of m q)) = {})))"

definition reserved_once :: "memory_recurrent \<Rightarrow> bool" where
  "reserved_once m \<longleftrightarrow> (\<forall>q q'. seq_valid m q \<longrightarrow> seq_valid m q' \<longrightarrow> 0 \<le> tail_of m q \<longrightarrow> tail_of m q = tail_of m q'
     \<longrightarrow> seqs_at m (nat (tail_of m q)) = {} \<longrightarrow> q = q')"

definition tails_ok :: "int set \<Rightarrow> memory_recurrent \<Rightarrow> bool" where
  "tails_ok R m \<longleftrightarrow> length (r_cells m) = r_size m \<and> 0 < r_size m \<and> r_size m < 2147483648
     \<and> (\<forall>i < r_size m. cell_ok m i) \<and> (\<forall>q. seq_valid m q \<longrightarrow> tail_ok R m q) \<and> reserved_once m"

definition src_ok :: "memory_recurrent \<Rightarrow> nat \<Rightarrow> bool" where
  "src_ok m i \<longleftrightarrow> src_at m i = int i \<or> (seqs_at m i = {} \<and> src_at m i = -1)"

definition rs_inv :: "memory_recurrent \<Rightarrow> bool" where
  "rs_inv m \<longleftrightarrow> tails_ok {} m \<and> r_head m < r_size m \<and> r_used m = count_used m \<and> (\<forall>i < r_size m. src_ok m i)"

text \<open>An empty cell that is not marked for clearing holds the zero state.\<close>

definition rows_ok :: "'s \<Rightarrow> memory_recurrent \<Rightarrow> 's list \<Rightarrow> bool" where
  "rows_ok zero m rows \<longleftrightarrow> length rows = r_size m \<and> (\<forall>i < r_size m. seqs_at m i = {} \<and> src_at m i \<ge> 0 \<longrightarrow> rows ! i = zero)"

text \<open>The abstract view.\<close>

definition states_of :: "memory_recurrent \<Rightarrow> 's list \<Rightarrow> int \<Rightarrow> (int \<times> 's) option" where
  "states_of m rows q =
     (if seq_valid m q \<and> 0 \<le> tail_of m q then Some (pos_at m (nat (tail_of m q)), rows ! nat (tail_of m q)) else None)"

lemma tails_okD:
  assumes "tails_ok R m"
  shows "length (r_cells m) = r_size m" "0 < r_size m" "r_size m < 2147483648"
    and "i < r_size m \<Longrightarrow> q \<in> seqs_at m i \<Longrightarrow> seq_valid m q \<and> tail_of m q = int i"
    and "seq_valid m q \<Longrightarrow> tail_of m q \<noteq> -1 \<Longrightarrow> 0 \<le> tail_of m q \<and> tail_of m q < int (r_size m)
       \<and> (q \<in> seqs_at m (nat (tail_of m q)) \<or> (q \<in> R \<and> seqs_at m (nat (tail_of m q)) = {}))"
    and "seq_valid m q \<Longrightarrow> seq_valid m q' \<Longrightarrow> 0 \<le> tail_of m q \<Longrightarrow> tail_of m q = tail_of m q' \<Longrightarrow> seqs_at m (nat (tail_of m q)) = {} \<Longrightarrow> q = q'"
    and "i < r_size m \<Longrightarrow> seqs_at m i = {} \<Longrightarrow> pos_at m i = -1"
    and "i < r_size m \<Longrightarrow> seqs_at m i \<noteq> {} \<Longrightarrow> 0 \<le> pos_at m i \<and> pos_at m i < INT32_MAX"
proof -
  show "length (r_cells m) = r_size m" "0 < r_size m" "r_size m < 2147483648" using assms by (simp_all add: tails_ok_def)
  have c: "i < r_size m \<Longrightarrow> cell_ok m i" using assms by (simp add: tails_ok_def)
  then show "i < r_size m \<Longrightarrow> q \<in> seqs_at m i \<Longrightarrow> seq_valid m q \<and> tail_of m q = int i"
    "i < r_size m \<Longrightarrow> seqs_at m i = {} \<Longrightarrow> pos_at m i = -1"
    "i < r_size m \<Longrightarrow> seqs_at m i \<noteq> {} \<Longrightarrow> 0 \<le> pos_at m i \<and> pos_at m i < INT32_MAX" by (simp_all add: cell_ok_def)
  have t: "seq_valid m q \<Longrightarrow> tail_ok R m q" using assms by (simp add: tails_ok_def)
  show "seq_valid m q \<Longrightarrow> tail_of m q \<noteq> -1 \<Longrightarrow> 0 \<le> tail_of m q \<and> tail_of m q < int (r_size m)
       \<and> (q \<in> seqs_at m (nat (tail_of m q)) \<or> (q \<in> R \<and> seqs_at m (nat (tail_of m q)) = {}))"
    using t unfolding tail_ok_def by blast
  have "reserved_once m" using assms by (simp add: tails_ok_def)
  then show "seq_valid m q \<Longrightarrow> seq_valid m q' \<Longrightarrow> 0 \<le> tail_of m q \<Longrightarrow> tail_of m q = tail_of m q'
      \<Longrightarrow> seqs_at m (nat (tail_of m q)) = {} \<Longrightarrow> q = q'" unfolding reserved_once_def by blast
qed

lemma seq_validD: "tails_ok R m \<Longrightarrow> seq_valid m q \<Longrightarrow> 0 \<le> q \<and> nat q < length (r_cells m) \<and> int (nat q) = q"
  using tails_okD(1) [of R m] by (auto simp: seq_valid_def)

lemma seq_valid_nat: "seq_valid m q \<Longrightarrow> seq_valid m q' \<Longrightarrow> nat q = nat q' \<longleftrightarrow> q = q'"
  by (auto simp: seq_valid_def)

text \<open>A valid sequence at rest is in the cell of its tail, or nowhere.\<close>

lemma tail_cases:
  assumes "tails_ok {} m" "seq_valid m q"
  obtains (none) "tail_of m q = -1" "\<And>i. i < r_size m \<Longrightarrow> q \<notin> seqs_at m i"
  | (cell) t where "tail_of m q = int t" "t < r_size m" "q \<in> seqs_at m t" "\<And>i. i < r_size m \<Longrightarrow> q \<in> seqs_at m i \<longleftrightarrow> i = t"
proof (cases "tail_of m q = -1")
  case True
  then show ?thesis using none tails_okD(4) [OF assms(1)] by fastforce
next
  case False
  then have t: "0 \<le> tail_of m q" "tail_of m q < int (r_size m)" "q \<in> seqs_at m (nat (tail_of m q))"
    using tails_okD(5) [OF assms False] by auto
  define j where "j = nat (tail_of m q)"
  have "i = j" if "i < r_size m" "q \<in> seqs_at m i" for i
    using tails_okD(4) [OF assms(1) that] by (simp add: j_def)
  moreover have "tail_of m q = int j" "j < r_size m" "q \<in> seqs_at m j" using t by (simp_all add: j_def)
  ultimately show ?thesis by (intro cell) blast+
qed

lemma tails_ok_restI:
  assumes "length (r_cells m) = r_size m" "0 < r_size m" "r_size m < 2147483648"
    and "\<And>i q. i < r_size m \<Longrightarrow> q \<in> seqs_at m i \<Longrightarrow> seq_valid m q \<and> tail_of m q = int i"
    and "\<And>q. seq_valid m q \<Longrightarrow> tail_of m q = -1 \<or> (\<exists>t < r_size m. tail_of m q = int t \<and> q \<in> seqs_at m t)"
    and "\<And>i. i < r_size m \<Longrightarrow> seqs_at m i = {} \<Longrightarrow> pos_at m i = -1"
    and "\<And>i. i < r_size m \<Longrightarrow> seqs_at m i \<noteq> {} \<Longrightarrow> 0 \<le> pos_at m i \<and> pos_at m i < INT32_MAX"
  shows "tails_ok {} m"
proof -
  have t: "tail_ok {} m q" if "seq_valid m q" for q
    using assms(5) [OF that] by (auto simp: tail_ok_def)
  moreover have "reserved_once m" unfolding reserved_once_def
  proof (intro allI impI)
    fix q q' assume "seq_valid m q" "0 \<le> tail_of m q" "seqs_at m (nat (tail_of m q)) = {}"
    then show "q = q'" using t [of q] by (simp add: tail_ok_def)
  qed
  moreover have "cell_ok m i" if "i < r_size m" for i
    using assms(4,6,7) [OF that] by (simp add: cell_ok_def)
  ultimately show ?thesis using assms(1-3) by (simp add: tails_ok_def)
qed

section \<open>Steps and their effect on the abstract view\<close>

definition steps_to :: "'s \<Rightarrow> memory_recurrent \<Rightarrow> memory_recurrent \<Rightarrow> ((int \<Rightarrow> (int \<times> 's) option) \<Rightarrow> int \<Rightarrow> (int \<times> 's) option) \<Rightarrow> bool" where
  "steps_to zero m m' eff \<longleftrightarrow> rs_inv m' \<and> r_size m' = r_size m \<and> r_hparams m' = r_hparams m \<and> r_layers m' = r_layers m
     \<and> (\<forall>rows. rows_ok zero m rows \<longrightarrow> rows_ok zero m' rows \<and> states_of m' rows = eff (states_of m rows))"

lemma steps_to_refl: "rs_inv m \<Longrightarrow> (\<And>rows. eff (states_of m rows) = states_of m rows) \<Longrightarrow> steps_to zero m m eff"
  by (simp add: steps_to_def)

lemma steps_to_trans:
  "steps_to zero m m1 f \<Longrightarrow> steps_to zero m1 m2 g \<Longrightarrow> (\<And>s. h s = g (f s)) \<Longrightarrow> steps_to zero m m2 h"
  by (simp add: steps_to_def)

lemma seq_valid_cong: "r_size m' = r_size m \<Longrightarrow> seq_valid m' q \<longleftrightarrow> seq_valid m q"
  by (simp add: seq_valid_def)

lemma rs_invD:
  assumes "rs_inv m"
  shows "tails_ok {} m" "r_head m < r_size m" "r_used m = count_used m" "r_used m < 4294967296"
    and "i < r_size m \<Longrightarrow> src_at m i = int i \<or> (seqs_at m i = {} \<and> src_at m i = -1)"
  using assms count_used_le [of m] tails_okD(1-3) [of "{}" m] by (simp_all add: rs_inv_def src_ok_def)

lemma detach_cell:
  assumes "rs_inv m" "seq_valid m q" "tail_of m q = int t" "t < r_size m"
  shows "detach q m = Some (let m2 = upd_cell (nat q) (\<lambda>c. c\<lparr>mc_tail := -1\<rparr>) (upd_cell t (\<lambda>c. c\<lparr>mc_seq_id := mc_seq_id c - {q}\<rparr>) m) in
    if seqs_at m t - {q} = {} then (upd_cell t (\<lambda>c. c\<lparr>mc_pos := -1, mc_src := -1\<rparr>) m2)\<lparr>r_used := dec32 (r_used m)\<rparr> else m2)"
proof -
  note ok = rs_invD(1) [OF assms(1)]
  note q = seq_validD [OF ok assms(2)]
  have "t < length (r_cells m)" using tails_okD(1) [OF ok] assms(4) by simp
  then show ?thesis using q assms(3) by (simp add: detach_def cell_at_eq on_cell_eq mc_is_empty_def Let_def)
qed

lemma detach_spec:
  assumes inv: "rs_inv m" and q: "seq_valid m q"
  obtains m' where "detach q m = Some m'" "steps_to zero m m' (\<lambda>s. s(q := None))" "tail_of m' q = -1"
    "\<And>q'. q' \<noteq> q \<Longrightarrow> seq_valid m q' \<Longrightarrow> tail_of m' q' = tail_of m q'"
    "r_head m' = r_head m" "r_used m' \<le> r_used m"
  using rs_invD(1) [OF inv] q
proof (cases rule: tail_cases)
  case none
  have "detach q m = Some m" using none(1) seq_validD [OF rs_invD(1) [OF inv] q] by (simp add: detach_def cell_at_eq)
  moreover have "steps_to zero m m (\<lambda>s. s(q := None))"
    using inv none(1) by (intro steps_to_refl) (auto simp: states_of_def fun_eq_iff)
  ultimately show ?thesis using that none(1) by blast
next
  case (cell t)
  note ok = rs_invD(1) [OF inv]
  note d = tails_okD [OF ok]
  note qv = seq_validD [OF ok q]
  have len: "t < length (r_cells m)" using d(1) cell(2) by simp
  define m2 where "m2 = upd_cell (nat q) (\<lambda>c. c\<lparr>mc_tail := -1\<rparr>) (upd_cell t (\<lambda>c. c\<lparr>mc_seq_id := mc_seq_id c - {q}\<rparr>) m)"
  define m' where "m' = (if seqs_at m t - {q} = {} then (upd_cell t (\<lambda>c. c\<lparr>mc_pos := -1, mc_src := -1\<rparr>) m2)\<lparr>r_used := dec32 (r_used m)\<rparr> else m2)"
  have run: "detach q m = Some m'" using detach_cell [OF inv q cell(1,2)] by (simp add: m'_def m2_def)
  have size: "r_size m' = r_size m" "length (r_cells m') = length (r_cells m)" by (simp_all add: m'_def m2_def)
  have S: "seqs_at m' i = (if i = t then seqs_at m t - {q} else seqs_at m i)" if "i < r_size m" for i
    using that d(1) by (simp add: m'_def m2_def)
  have P: "pos_at m' i = (if i = t \<and> seqs_at m t - {q} = {} then -1 else pos_at m i)" if "i < r_size m" for i
    using that d(1) by (simp add: m'_def m2_def)
  have R: "src_at m' i = (if i = t \<and> seqs_at m t - {q} = {} then -1 else src_at m i)" if "i < r_size m" for i
    using that d(1) by (simp add: m'_def m2_def)
  have T: "tail_of m' x = (if x = q then -1 else tail_of m x)" if "seq_valid m x" for x
    using seq_validD [OF ok that] qv seq_valid_nat [OF q that] by (simp add: m'_def m2_def)
  have valid: "seq_valid m' x \<longleftrightarrow> seq_valid m x" for x using size by (simp add: seq_valid_def)
  have tails: "tails_ok {} m'"
  proof (rule tails_ok_restI)
    show "length (r_cells m') = r_size m'" "0 < r_size m'" "r_size m' < 2147483648" using size d(1-3) by simp_all
    show "seq_valid m' x \<and> tail_of m' x = int i" if "i < r_size m'" "x \<in> seqs_at m' i" for i x
      using that d(4) [of i x] cell(4) [of i] S [of i] T [of x] size valid by (auto split: if_splits)
    show "tail_of m' x = -1 \<or> (\<exists>j < r_size m'. tail_of m' x = int j \<and> x \<in> seqs_at m' j)" if "seq_valid m' x" for x
    proof (cases "x = q")
      case False
      then show ?thesis using that T [of x] valid S size by (cases rule: tail_cases [OF ok, of x]) auto
    qed (use T [OF q] in simp)
    show "pos_at m' i = -1" if "i < r_size m'" "seqs_at m' i = {}" for i
      using that S [of i] P [of i] d(7) [of i] size by (auto split: if_splits)
    show "0 \<le> pos_at m' i \<and> pos_at m' i < INT32_MAX" if "i < r_size m'" "seqs_at m' i \<noteq> {}" for i
      using that S [of i] P [of i] d(8) [of i] size by (auto split: if_splits)
  qed
  have c2: "count_used m2 + (if seqs_at m t \<noteq> {} then 1 else 0) = count_used m + (if seqs_at m t - {q} \<noteq> {} then 1 else 0)"
    using count_used_upd [OF len, of "\<lambda>c. c\<lparr>mc_seq_id := mc_seq_id c - {q}\<rparr>"]
      count_used_upd [of "nat q" "upd_cell t (\<lambda>c. c\<lparr>mc_seq_id := mc_seq_id c - {q}\<rparr>) m" "\<lambda>c. c\<lparr>mc_tail := -1\<rparr>"] qv
    by (simp add: m2_def split: if_splits)
  have pos: "0 < count_used m" using count_used_pos [OF len] cell(3) by blast
  have used: "r_used m' = count_used m'"
  proof (cases "seqs_at m t - {q} = {}")
    case True
    have e: "count_used m' = count_used (upd_cell t (\<lambda>c. c\<lparr>mc_pos := -1, mc_src := -1\<rparr>) m2)"
      using True by (simp add: m'_def count_used_def)
    have "count_used m' = count_used m2"
      using e count_used_upd [of t m2 "\<lambda>c. c\<lparr>mc_pos := -1, mc_src := -1\<rparr>"] len by (simp add: m2_def split: if_splits)
    moreover have "r_used m' = r_used m - 1"
      using True dec32_eq [of "r_used m"] rs_invD(3,4) [OF inv] pos by (simp add: m'_def)
    ultimately show ?thesis using c2 True cell(3) rs_invD(3) [OF inv] by (auto split: if_splits)
  next
    case False
    have "seqs_at m t \<noteq> {}" using cell(3) by blast
    then have "count_used m2 = count_used m" using c2 False by simp
    then show ?thesis using False rs_invD(3) [OF inv] by (simp add: m'_def) (simp add: m2_def)
  qed
  have src: "src_ok m' i" if "i < r_size m" for i
    using rs_invD(5) [OF inv that] S [OF that] R [OF that] by (auto simp: src_ok_def)
  have inv': "rs_inv m'" using tails rs_invD(2) [OF inv] used src size by (simp add: rs_inv_def) (simp add: m'_def m2_def)
  have "rows_ok zero m' rows \<and> states_of m' rows = (states_of m rows)(q := None)" if "rows_ok zero m rows" for rows
  proof
    show "rows_ok zero m' rows" using that S R size by (auto simp: rows_ok_def)
    show "states_of m' rows = (states_of m rows)(q := None)"
    proof
      fix x
      show "states_of m' rows x = ((states_of m rows)(q := None)) x"
      proof (cases "x \<noteq> q \<and> seq_valid m x \<and> tail_of m x \<noteq> -1")
        case True
        then have "x \<in> seqs_at m (nat (tail_of m x))" "nat (tail_of m x) < r_size m" using d(5) [of x] by auto
        then show ?thesis using True T [of x] P [of "nat (tail_of m x)"] valid by (auto simp: states_of_def)
      next
        case False
        then show ?thesis using T [of x] valid [of x] d(5) [of x] by (auto simp: states_of_def)
      qed
    qed
  qed
  then have "steps_to zero m m' (\<lambda>s. s(q := None))" using inv' size by (simp add: steps_to_def) (simp add: m'_def m2_def)
  moreover have "r_head m' = r_head m" by (simp add: m'_def m2_def)
  moreover have "r_used m' \<le> r_used m" using dec32_eq [of "r_used m"] rs_invD(3,4) [OF inv] pos by (simp add: m'_def m2_def)
  ultimately show ?thesis using that [OF run] T q by metis
qed

end
