(* ===== verification/Recurrent_Ops.thy ===== *)
theory Recurrent_Ops
  imports Recurrent_Inv
begin

text \<open>
  The sequence operations of the recurrent memory: each keeps the invariant and has the effect on the
  abstract map from sequences to states that its name says.
\<close>

section \<open>Copying\<close>

lemma attach_spec:
  assumes inv: "rs_inv m" and q: "seq_valid m src" "seq_valid m dst" and free: "tail_of m dst = -1"
  obtains m' where "attach src dst m = Some m'" "steps_to zero m m' (\<lambda>s. s(dst := s src))"
  using rs_invD(1) [OF inv] q(1)
proof (cases rule: tail_cases)
  case none
  have "attach src dst m = Some m" using none(1) seq_validD [OF rs_invD(1) [OF inv] q(1)] by (simp add: attach_def cell_at_eq)
  moreover have "steps_to zero m m (\<lambda>s. s(dst := s src))"
    using inv none(1) free by (intro steps_to_refl) (auto simp: states_of_def fun_eq_iff)
  ultimately show ?thesis using that by blast
next
  case (cell t)
  note ok = rs_invD(1) [OF inv]
  note d = tails_okD [OF ok]
  note dv = seq_validD [OF ok q(2)]
  have len: "t < length (r_cells m)" using d(1) cell(2) by simp
  define m' where "m' = upd_cell (nat dst) (\<lambda>c. c\<lparr>mc_tail := int t\<rparr>) (upd_cell t (\<lambda>c. c\<lparr>mc_seq_id := insert dst (mc_seq_id c)\<rparr>) m)"
  have run: "attach src dst m = Some m'"
    using seq_validD [OF ok q(1)] dv cell(1) len by (simp add: attach_def cell_at_eq on_cell_eq m'_def)
  have size: "r_size m' = r_size m" "length (r_cells m') = length (r_cells m)" by (simp_all add: m'_def)
  have S: "seqs_at m' i = (if i = t then insert dst (seqs_at m t) else seqs_at m i)" if "i < r_size m" for i
    using that d(1) by (simp add: m'_def)
  have same: "pos_at m' i = pos_at m i" "src_at m' i = src_at m i" if "i < r_size m" for i
    using that d(1) by (simp_all add: m'_def)
  have T: "tail_of m' x = (if x = dst then int t else tail_of m x)" if "seq_valid m x" for x
    using seq_validD [OF ok that] dv seq_valid_nat [OF q(2) that] by (simp add: m'_def)
  have valid: "seq_valid m' x \<longleftrightarrow> seq_valid m x" for x using size by (simp add: seq_valid_def)
  have absent: "dst \<notin> seqs_at m i" if "i < r_size m" for i using d(4) [OF that, of dst] free by auto
  have tails: "tails_ok {} m'"
  proof (rule tails_ok_restI)
    show "length (r_cells m') = r_size m'" "0 < r_size m'" "r_size m' < 2147483648" using size d(1-3) by simp_all
    show "seq_valid m' x \<and> tail_of m' x = int i" if "i < r_size m'" "x \<in> seqs_at m' i" for i x
      using that d(4) [of i x] S [of i] T [of x] T [OF q(2)] size valid q(2) absent [of i] by (auto split: if_splits)
    show "tail_of m' x = -1 \<or> (\<exists>j < r_size m'. tail_of m' x = int j \<and> x \<in> seqs_at m' j)" if "seq_valid m' x" for x
    proof (cases "x = dst")
      case False
      then show ?thesis using that T [of x] valid S size by (cases rule: tail_cases [OF ok, of x]) auto
    qed (use T [OF q(2)] S cell(2) size in auto)
    show "pos_at m' i = -1" if "i < r_size m'" "seqs_at m' i = {}" for i
      using that S [of i] same [of i] d(7) [of i] size by (auto split: if_splits)
    show "0 \<le> pos_at m' i \<and> pos_at m' i < INT32_MAX" if "i < r_size m'" "seqs_at m' i \<noteq> {}" for i
      using that S [of i] same [of i] d(8) [of i] size cell(2,3) by (auto split: if_splits)
  qed
  have "count_used m' = count_used m"
    using count_used_upd [OF len, of "\<lambda>c. c\<lparr>mc_seq_id := insert dst (mc_seq_id c)\<rparr>"] cell(3)
      count_used_upd [of "nat dst" "upd_cell t (\<lambda>c. c\<lparr>mc_seq_id := insert dst (mc_seq_id c)\<rparr>) m" "\<lambda>c. c\<lparr>mc_tail := int t\<rparr>"] dv
    by (auto simp: m'_def split: if_splits)
  moreover have "src_ok m' i" if "i < r_size m" for i
    using rs_invD(5) [OF inv that] S [OF that] same [OF that] cell(3) by (auto simp: src_ok_def)
  ultimately have inv': "rs_inv m'" using tails rs_invD(2,3) [OF inv] size by (simp add: rs_inv_def) (simp add: m'_def)
  have "rows_ok zero m' rows \<and> states_of m' rows = (states_of m rows)(dst := states_of m rows src)" if "rows_ok zero m rows" for rows
  proof
    show "rows_ok zero m' rows" using that S same size by (auto simp: rows_ok_def)
    show "states_of m' rows = (states_of m rows)(dst := states_of m rows src)"
    proof
      fix x
      show "states_of m' rows x = ((states_of m rows)(dst := states_of m rows src)) x"
      proof (cases "x = dst")
        case False
        then show ?thesis using T [of x] valid [of x] same [of "nat (tail_of m x)"] d(5) [of x] by (auto simp: states_of_def)
      qed (use T [OF q(2)] valid q same [OF cell(2)] cell(1) in \<open>simp add: states_of_def\<close>)
    qed
  qed
  then have "steps_to zero m m' (\<lambda>s. s(dst := s src))" using inv' size by (simp add: steps_to_def) (simp add: m'_def)
  then show ?thesis using that [OF run] by blast
qed

lemma u32_of_int_valid: "seq_valid m q \<Longrightarrow> r_size m < 2147483648 \<Longrightarrow> u32_of_int q < r_size m"
  by (auto simp: u32_of_int_def seq_valid_def nat_less_iff)

lemma seq_cp_spec:
  assumes inv: "rs_inv m" and q: "seq_valid m src" "seq_valid m dst"
  obtains m' where "rs_seq_cp src dst p0 p1 m = Some m'" "steps_to zero m m' (\<lambda>s. s(dst := s src))"
proof (cases "src = dst")
  case True
  then have "steps_to zero m m (\<lambda>s. s(dst := s src))" by (intro steps_to_refl inv) simp
  then show ?thesis using that [of m] True by (simp add: rs_seq_cp_def)
next
  case False
  obtain m1 where m1: "detach dst m = Some m1" "steps_to zero m m1 (\<lambda>s. s(dst := None))" "tail_of m1 dst = -1"
    using detach_spec [OF inv q(2)] by metis
  have v: "rs_inv m1" "seq_valid m1 src" "seq_valid m1 dst" using m1(2) q by (simp_all add: steps_to_def seq_valid_def)
  obtain m' where m': "attach src dst m1 = Some m'" "steps_to zero m1 m' (\<lambda>s. s(dst := s src))"
    using attach_spec [OF v m1(3)] by metis
  have "rs_seq_cp src dst p0 p1 m = Some m'"
    using False m1(1) m'(1) u32_of_int_valid q tails_okD(3) [OF rs_invD(1) [OF inv]] by (simp add: rs_seq_cp_def)
  moreover have "steps_to zero m m' (\<lambda>s. s(dst := s src))" using steps_to_trans [OF m1(2) m'(2)] False by simp
  ultimately show ?thesis using that by blast
qed

section \<open>Removing\<close>

text \<open>A loop whose body does something at one index only.\<close>

lemma foldo_only:
  assumes "t < n" "\<And>i. i < t \<Longrightarrow> f i s = Some s" "f t s = Some s'" "\<And>i. t < i \<Longrightarrow> i < n \<Longrightarrow> f i s' = Some s'"
  shows "foldo f [0..<n] s = Some s'"
proof -
  have "\<exists>r. foldo f [0..<n] s = Some r \<and> (if n \<le> t then r = s else r = s')"
  proof (rule foldo_upt_invariant [where P = "\<lambda>k r. if k \<le> t then r = s else r = s'"])
    show "\<exists>r'. f i r = Some r' \<and> (if Suc i \<le> t then r' = s else r' = s')" if "i < n" "if i \<le> t then r = s else r = s'" for i r
      using assms(2) [of i] assms(3) assms(4) [of i] that by (cases i t rule: linorder_cases) auto
  qed simp
  then show ?thesis using assms(1) by auto
qed

lemma foldo_skips: "(\<And>i. i < n \<Longrightarrow> f i s = Some s) \<Longrightarrow> foldo f [0..<n] s = Some s"
  by (induction n) (auto simp: foldo_append)

lemma upd_cell_commute:
  assumes "i < length (r_cells m)" "j < length (r_cells m)" "\<And>c. f (g c) = g (f c)"
  shows "upd_cell i f (upd_cell j g m) = upd_cell j g (upd_cell i f m)"
  using assms by (cases "i = j") (simp_all add: upd_cell_def list_update_swap)

lemma upd_cell_twice: "upd_cell i f (upd_cell i g m) = upd_cell i (\<lambda>c. f (g c)) m"
  by (cases "i < length (r_cells m)") (simp_all add: upd_cell_def list_update_beyond)

lemma upd_cell_cong: "f (r_cells m ! i) = g (r_cells m ! i) \<Longrightarrow> upd_cell i f m = upd_cell i g m"
  by (simp add: upd_cell_def)

lemma free_cell_at_eq:
  "free_cell_at i (m, k) = ((upd_cell i (\<lambda>c. c\<lparr>mc_pos := -1, mc_src := -1, mc_seq_id := {}\<rparr>) m)
     \<lparr>r_used := (if pos_at m i \<ge> 0 then dec32 (r_used m) else r_used m)\<rparr>, if k = r_size m then i else k)"
  by (simp add: free_cell_at_def upd_cell_def)

lemma head_frame [simp]:
  "seq_valid (m\<lparr>r_head := k\<rparr>) q \<longleftrightarrow> seq_valid m q" "tails_ok R (m\<lparr>r_head := k\<rparr>) \<longleftrightarrow> tails_ok R m"
  "count_used (m\<lparr>r_head := k\<rparr>) = count_used m" "rows_ok zero (m\<lparr>r_head := k\<rparr>) rows \<longleftrightarrow> rows_ok zero m rows"
  "states_of (m\<lparr>r_head := k\<rparr>) rows = states_of m rows"
proof -
  show v: "seq_valid (m\<lparr>r_head := k\<rparr>) q \<longleftrightarrow> seq_valid m q" for q by (simp add: seq_valid_def)
  show "tails_ok R (m\<lparr>r_head := k\<rparr>) \<longleftrightarrow> tails_ok R m"
    by (simp add: tails_ok_def cell_ok_def tail_ok_def reserved_once_def v)
  show "count_used (m\<lparr>r_head := k\<rparr>) = count_used m" "rows_ok zero (m\<lparr>r_head := k\<rparr>) rows \<longleftrightarrow> rows_ok zero m rows"
    by (simp_all add: count_used_def rows_ok_def)
  show "states_of (m\<lparr>r_head := k\<rparr>) rows = states_of m rows" by (simp add: states_of_def v fun_eq_iff)
qed

lemma steps_to_head: "steps_to zero m m' eff \<Longrightarrow> k < r_size m \<Longrightarrow> steps_to zero m (m'\<lparr>r_head := k\<rparr>) eff"
  by (simp add: steps_to_def rs_inv_def src_ok_def)

lemma rs_rm_cell_more:
  assumes "t < length (r_cells m)" "p0 \<le> pos_at m t" "pos_at m t < p1" "0 \<le> q" "q \<in> seqs_at m t" "seqs_at m t - {q} \<noteq> {}"
  shows "rs_rm_cell q p0 p1 t (m, k) = Some (upd_cell t (\<lambda>c. c\<lparr>mc_seq_id := mc_seq_id c - {q}\<rparr>) m, k)"
  using assms by (simp add: rs_rm_cell_def has_seq_id_def upd_cell_def)

lemma seq_rm_loop:
  assumes inv: "rs_inv m" and q: "seq_valid m q" and t: "tail_of m q = int t" "t < r_size m" "q \<in> seqs_at m t"
    and p: "p0 \<le> pos_at m t" "pos_at m t < p1" "detach q m = Some m'"
  shows "foldo (rs_rm_cell q p0 p1) [0..<r_size m] (upd_cell (nat q) (\<lambda>c. c\<lparr>mc_tail := -1\<rparr>) m, r_size m)
    = Some (m', if seqs_at m t = {q} then t else r_size m)"
proof (rule foldo_only [OF t(2)])
  note ok = rs_invD(1) [OF inv]
  note d = tails_okD [OF ok]
  note qv = seq_validD [OF ok q]
  have q0: "0 \<le> q" using q by (simp add: seq_valid_def)
  have len: "t < length (r_cells m)" using d(1) t(2) by simp
  have only: "q \<notin> seqs_at m i" if "i < r_size m" "i \<noteq> t" for i using d(4) [of i q] that t(1) by auto
  let ?e = "\<lambda>c. c\<lparr>mc_seq_id := mc_seq_id c - {q}\<rparr>" and ?t = "\<lambda>c. c\<lparr>mc_tail := -1\<rparr>"
  note m' = p(3) [unfolded detach_cell [OF inv q t(1,2)] Let_def, unfolded option.inject, symmetric]
  show "rs_rm_cell q p0 p1 i (upd_cell (nat q) ?t m, r_size m) = Some (upd_cell (nat q) ?t m, r_size m)" if "i < t" for i
    using that only [of i] t(2) d(1) q0 by (simp add: rs_rm_cell_def has_seq_id_def)
  have swap: "upd_cell t ?e (upd_cell (nat q) ?t m) = upd_cell (nat q) ?t (upd_cell t ?e m)"
    using upd_cell_commute [OF len, of "nat q" ?e ?t] qv by simp
  show "rs_rm_cell q p0 p1 t (upd_cell (nat q) ?t m, r_size m) = Some (m', if seqs_at m t = {q} then t else r_size m)"
  proof (cases "seqs_at m t = {q}")
    case True
    have "0 \<le> pos_at m t" using d(8) [OF t(2)] True by simp
    then have "rs_rm_cell q p0 p1 t (upd_cell (nat q) ?t m, r_size m) = Some (free_cell_at t (upd_cell (nat q) ?t m, r_size m))"
      using True p(1,2) len q0 by (simp add: rs_rm_cell_def has_seq_id_def)
    moreover have "free_cell_at t (upd_cell (nat q) ?t m, r_size m) = (m', t)"
    proof -
      let ?x = "upd_cell (nat q) ?t m" and ?f = "\<lambda>c. c\<lparr>mc_pos := -1, mc_src := -1\<rparr>"
      have "m' = (upd_cell t ?f (upd_cell t ?e ?x))\<lparr>r_used := dec32 (r_used m)\<rparr>" using True by (simp add: m' swap)
      also have "upd_cell t ?f (upd_cell t ?e ?x) = upd_cell t (\<lambda>c. c\<lparr>mc_pos := -1, mc_src := -1, mc_seq_id := {}\<rparr>) ?x"
        unfolding upd_cell_twice using len True by (intro upd_cell_cong) (cases "r_cells m ! t", simp)
      finally show ?thesis using \<open>0 \<le> pos_at m t\<close> len by (simp add: free_cell_at_eq)
    qed
    ultimately show ?thesis using True by simp
  next
    case False
    then have ne: "seqs_at m t - {q} \<noteq> {}" using t(3) by blast
    have "rs_rm_cell q p0 p1 t (upd_cell (nat q) ?t m, r_size m) = Some (upd_cell t ?e (upd_cell (nat q) ?t m), r_size m)"
      using rs_rm_cell_more [of t "upd_cell (nat q) ?t m" p0 p1 q "r_size m"] ne p(1,2) len q0 t(3) by simp
    moreover have "m' = upd_cell t ?e (upd_cell (nat q) ?t m)" unfolding swap by (simp only: m' ne if_False)
    ultimately show ?thesis using False by simp
  qed
  show "rs_rm_cell q p0 p1 i (m', if seqs_at m t = {q} then t else r_size m) = Some (m', if seqs_at m t = {q} then t else r_size m)"
    if "t < i" "i < r_size m" for i
  proof -
    have "seqs_at m' i = seqs_at m i" "i < length (r_cells m')" using that d(1) by (simp_all add: m' split: if_splits)
    then show ?thesis using only [of i] that q0 by (simp add: rs_rm_cell_def has_seq_id_def)
  qed
qed

text \<open>A range that does not contain the position of the sequence removes nothing.\<close>

lemma seq_rm_nothing:
  assumes "rs_inv m" "seq_valid m q" "\<And>i. i < r_size m \<Longrightarrow> q \<in> seqs_at m i \<Longrightarrow> \<not> (p0 \<le> pos_at m i \<and> pos_at m i < p1)"
  shows "foldo (rs_rm_cell q p0 p1) [0..<r_size m] (m, r_size m) = Some (m, r_size m)"
proof (rule foldo_skips)
  fix i assume "i < r_size m"
  then show "rs_rm_cell q p0 p1 i (m, r_size m) = Some (m, r_size m)"
    using assms(2,3) tails_okD(1) [OF rs_invD(1) [OF assms(1)]] by (auto simp: rs_rm_cell_def has_seq_id_def seq_valid_def)
qed

definition rm_refused :: "int \<Rightarrow> int \<Rightarrow> (int \<times> 's) option \<Rightarrow> bool" where
  "rm_refused p0 p1 x \<longleftrightarrow> (case x of None \<Rightarrow> False | Some (p, _) \<Rightarrow> 0 < range_lo p0 \<and> range_lo p0 \<le> p \<and> p < range_hi p1)"

definition rm_effect :: "int \<Rightarrow> int \<Rightarrow> int \<Rightarrow> (int \<Rightarrow> (int \<times> 's) option) \<Rightarrow> int \<Rightarrow> (int \<times> 's) option" where
  "rm_effect q p0 p1 s = (case s q of None \<Rightarrow> s
     | Some (p, _) \<Rightarrow> if range_lo p0 = 0 \<and> p < range_hi p1 then s(q := None) else s)"

lemma range_lo_nonneg: "0 \<le> range_lo p0"
  by (simp add: range_lo_def)

lemma lower_head_less: "h < n \<Longrightarrow> lower_head k n h < n"
  by (simp add: lower_head_def)

lemma seq_rm_spec:
  fixes rows :: "'s list" and zero :: 's
  assumes inv: "rs_inv m" and q: "seq_valid m q"
  obtains m' where "rs_seq_rm q p0 p1 m = Some (\<not> rm_refused p0 p1 (states_of m rows q), m')" "steps_to zero m m' (rm_effect q p0 p1)"
proof -
  note ok = rs_invD(1) [OF inv]
  note qv = seq_validD [OF ok q]
  have q': "\<not> int (r_size m) \<le> q" "0 \<le> q" using q by (simp_all add: seq_valid_def)
  let ?lo = "range_lo p0" and ?hi = "range_hi p1"
  note run = rs_seq_rm_def Let_def q' rm_tail_def cell_at_eq on_cell_eq
  from ok q show ?thesis
  proof (cases rule: tail_cases)
    case none
    have "rs_seq_rm q p0 p1 m = Some (True, m)"
      using none(1) qv seq_rm_nothing [OF inv q, of ?lo ?hi] none(2) by (simp add: run lower_head_def)
    moreover have "states_of m r q = None" for r :: "'s list" using none(1) by (simp add: states_of_def)
    moreover have "states_of m rows q = None" using none(1) by (simp add: states_of_def)
    ultimately show ?thesis using that [of m] steps_to_refl [OF inv, of "rm_effect q p0 p1" zero] by (simp add: rm_refused_def rm_effect_def)
  next
    case (cell t)
    have len: "t < length (r_cells m)" using cell(2) tails_okD(1) [OF ok] by simp
    have st: "states_of m r q = Some (pos_at m t, r ! t)" for r :: "'s list" using cell(1) q by (simp add: states_of_def)
    have pos0: "0 \<le> pos_at m t" using tails_okD(8) [OF ok cell(2)] cell(3) by blast
    show ?thesis
    proof (cases "?lo \<le> pos_at m t \<and> pos_at m t < ?hi")
      case False
      have "rs_seq_rm q p0 p1 m = Some (True, m)"
        using False cell qv len seq_rm_nothing [OF inv q, of ?lo ?hi] by (auto simp: run lower_head_def)
      moreover have "steps_to zero m m (rm_effect q p0 p1)"
        using False pos0 st by (intro steps_to_refl inv) (auto simp: rm_effect_def)
      ultimately show ?thesis using that [of m] False st by (simp add: rm_refused_def)
    next
      case True
      show ?thesis
      proof (cases "0 < ?lo")
        case pos: True
        have "rs_seq_rm q p0 p1 m = Some (False, m)" using pos True cell(1) qv len by (simp add: run)
        moreover have "steps_to zero m m (rm_effect q p0 p1)"
          using pos st by (intro steps_to_refl inv) (auto simp: rm_effect_def)
        ultimately show ?thesis using that [of m] pos True st by (simp add: rm_refused_def)
      next
        case zero: False
        then have lo: "?lo = 0" using range_lo_nonneg [of p0] by simp
        obtain m1 where m1: "detach q m = Some m1" "steps_to zero m m1 (\<lambda>s. s(q := None))" "r_head m1 = r_head m"
          using detach_spec [OF inv q] by metis
        define k where "k = (if seqs_at m t = {q} then t else r_size m)"
        define m' where "m' = m1\<lparr>r_head := lower_head k (r_size m) (r_head m1)\<rparr>"
        have "rs_seq_rm q p0 p1 m = Some (True, m')"
          using lo True cell(1) qv len seq_rm_loop [OF inv q cell(1-3) _ _ m1(1), of ?lo ?hi] by (simp add: run m'_def k_def)
        moreover have "steps_to zero m m' (\<lambda>s. s(q := None))"
          unfolding m'_def using m1(2,3) rs_invD(2) [OF inv] by (intro steps_to_head lower_head_less) simp_all
        then have "steps_to zero m m' (rm_effect q p0 p1)" using lo True st by (simp add: steps_to_def rm_effect_def)
        ultimately show ?thesis using that [of m'] zero st by (simp add: rm_refused_def)
      qed
    qed
  qed
qed

section \<open>Keeping one sequence\<close>

definition kept_cell :: "int \<Rightarrow> nat \<Rightarrow> mem_cell \<Rightarrow> mem_cell" where
  "kept_cell q i c = (let c1 = (if int i \<noteq> q then c\<lparr>mc_tail := -1\<rparr> else c) in
     if q \<in> mc_seq_id c then c1\<lparr>mc_seq_id := {q}\<rparr> else c1\<lparr>mc_pos := -1, mc_src := -1, mc_seq_id := {}\<rparr>)"

lemma kept_cell_simps [simp]:
  "mc_seq_id (kept_cell q i c) = (if q \<in> mc_seq_id c then {q} else {})"
  "mc_pos (kept_cell q i c) = (if q \<in> mc_seq_id c then mc_pos c else -1)"
  "mc_src (kept_cell q i c) = (if q \<in> mc_seq_id c then mc_src c else -1)"
  "mc_tail (kept_cell q i c) = (if int i \<noteq> q then -1 else mc_tail c)"
  by (simp_all add: kept_cell_def Let_def)

lemma rs_keep_cell_eq:
  assumes "i < length (r_cells m)"
  shows "rs_keep_cell q i (m, k) = Some (if q \<in> seqs_at m i then (upd_cell i (kept_cell q i) m, k)
    else ((upd_cell i (kept_cell q i) m)\<lparr>r_used := (if pos_at m i \<ge> 0 then dec32 (r_used m) else r_used m)\<rparr>, if k = r_size m then i else k))"
  using assms by (simp add: rs_keep_cell_def has_seq_id_def free_cell_at_def upd_cell_def kept_cell_def Let_def)

definition kept_upto :: "int \<Rightarrow> memory_recurrent \<Rightarrow> nat \<Rightarrow> memory_recurrent \<Rightarrow> bool" where
  "kept_upto q m k m' \<longleftrightarrow> r_size m' = r_size m \<and> r_hparams m' = r_hparams m \<and> r_layers m' = r_layers m \<and> r_head m' = r_head m
     \<and> length (r_cells m') = length (r_cells m) \<and> r_used m' = count_used m'
     \<and> (\<forall>i < r_size m. r_cells m' ! i = (if i < k then kept_cell q i (r_cells m ! i) else r_cells m ! i))"

lemma kept_step:
  assumes inv: "rs_inv m" and k: "k < r_size m" and m': "kept_upto q m k m'"
  shows "\<exists>m'' h'. rs_keep_cell q k (m', h) = Some (m'', h') \<and> kept_upto q m (Suc k) m''"
proof -
  note d = tails_okD [OF rs_invD(1) [OF inv]]
  have len: "k < length (r_cells m')" and c: "r_cells m' ! k = r_cells m ! k" using m' k d(1) by (simp_all add: kept_upto_def)
  let ?u = "upd_cell k (kept_cell q k) m'"
  have cells: "\<forall>i < r_size m. r_cells ?u ! i = (if i < Suc k then kept_cell q i (r_cells m ! i) else r_cells m ! i)"
    using m' k d(1) by (auto simp: kept_upto_def less_Suc_eq)
  have frame: "r_size m' = r_size m" "r_hparams m' = r_hparams m" "r_layers m' = r_layers m" "r_head m' = r_head m"
      "length (r_cells m') = length (r_cells m)" "r_used m' = count_used m'"
    using m' by (simp_all add: kept_upto_def)
  show ?thesis
  proof (cases "q \<in> seqs_at m k")
    case True
    then have "seqs_at m k \<noteq> {}" by blast
    then have "count_used ?u = count_used m'" using count_used_upd [OF len, of "kept_cell q k"] c True by simp
    then have "kept_upto q m (Suc k) ?u" using cells frame unfolding kept_upto_def by simp
    then show ?thesis using rs_keep_cell_eq [OF len, of q h] True c by simp
  next
    case False
    let ?n = "?u\<lparr>r_used := (if pos_at m' k \<ge> 0 then dec32 (r_used m') else r_used m')\<rparr>"
    have "r_used ?n = count_used ?u"
    proof (cases "seqs_at m k = {}")
      case True
      then show ?thesis using d(7) [OF k True] c count_used_upd [OF len, of "kept_cell q k"] frame(6) by simp
    next
      case ne: False
      have "0 < r_used m'" using count_used_pos [OF len] ne c frame(6) by simp
      moreover have "r_used m' < 4294967296" using frame(5,6) count_used_le [of m'] d(1,3) by simp
      ultimately show ?thesis using d(8) [OF k ne] c count_used_upd [OF len, of "kept_cell q k"] frame(6) ne False by (simp add: dec32_eq)
    qed
    moreover have "count_used ?n = count_used ?u" by (simp add: count_used_def)
    ultimately have "kept_upto q m (Suc k) ?n" using cells frame unfolding kept_upto_def by simp
    then show ?thesis using rs_keep_cell_eq [OF len, of q h] False c by simp
  qed
qed

lemma seq_keep_spec:
  assumes inv: "rs_inv m"
  obtains m' where "rs_seq_keep q m = Some m'" "steps_to zero m m' (\<lambda>s x. if x = q then s x else None)"
proof -
  note ok = rs_invD(1) [OF inv]
  note d = tails_okD [OF ok]
  have "\<exists>r. foldo (rs_keep_cell q) [0..<r_size m] (m, r_size m) = Some r \<and> kept_upto q m (r_size m) (fst r)"
  proof (rule foldo_upt_invariant)
    show "kept_upto q m 0 (fst (m, r_size m))" using rs_invD(3) [OF inv] by (simp add: kept_upto_def)
    show "\<exists>r'. rs_keep_cell q i r = Some r' \<and> kept_upto q m (Suc i) (fst r')" if "i < r_size m" "kept_upto q m i (fst r)" for i r
      using kept_step [OF inv that, of "snd r"] by (metis fst_conv prod.collapse)
  qed
  then obtain m1 h where m1: "foldo (rs_keep_cell q) [0..<r_size m] (m, r_size m) = Some (m1, h)" "kept_upto q m (r_size m) m1"
    by (metis fst_conv surj_pair)
  have c: "r_cells m1 ! i = kept_cell q i (r_cells m ! i)" if "i < r_size m" for i using m1(2) that by (simp add: kept_upto_def)
  have size: "r_size m1 = r_size m" "length (r_cells m1) = r_size m" "r_head m1 = r_head m" "r_used m1 = count_used m1"
    using m1(2) d(1) by (simp_all add: kept_upto_def)
  have valid: "seq_valid m1 x \<longleftrightarrow> seq_valid m x" for x using size by (simp add: seq_valid_def)
  have T: "tail_of m1 x = (if x = q then tail_of m x else -1)" if "seq_valid m x" for x
    using seq_validD [OF ok that] c [of "nat x"] d(1) by auto
  have tails: "tails_ok {} m1"
  proof (rule tails_ok_restI)
    show "length (r_cells m1) = r_size m1" "0 < r_size m1" "r_size m1 < 2147483648" using size d(1-3) by simp_all
    show "seq_valid m1 x \<and> tail_of m1 x = int i" if "i < r_size m1" "x \<in> seqs_at m1 i" for i x
      using that d(4) [of i x] c [of i] T [of x] size valid by (auto split: if_splits)
    show "tail_of m1 x = -1 \<or> (\<exists>j < r_size m1. tail_of m1 x = int j \<and> x \<in> seqs_at m1 j)" if "seq_valid m1 x" for x
    proof (cases "x = q")
      case True
      then show ?thesis using that T [of x] valid c size by (cases rule: tail_cases [OF ok, of x]) auto
    qed (use that T [of x] valid in simp)
    show "pos_at m1 i = -1" if "i < r_size m1" "seqs_at m1 i = {}" for i
      using that c [of i] size by (auto split: if_splits)
    show "0 \<le> pos_at m1 i \<and> pos_at m1 i < INT32_MAX" if "i < r_size m1" "seqs_at m1 i \<noteq> {}" for i
      using that c [of i] d(8) [of i] size by (auto split: if_splits)
  qed
  have "src_ok m1 i" if "i < r_size m1" for i
    using that size rs_invD(5) [OF inv, of i] c [of i] by (auto simp: src_ok_def)
  then have inv1: "rs_inv m1" using tails rs_invD(2) [OF inv] size by (simp add: rs_inv_def)
  have "states_of m1 rows = (\<lambda>x. if x = q then states_of m rows x else None)" for rows :: "'a list"
  proof
    fix x
    show "states_of m1 rows x = (if x = q then states_of m rows x else None)"
    proof (cases "seq_valid m x \<and> x = q \<and> tail_of m x \<noteq> -1")
      case True
      then have "x \<in> seqs_at m (nat (tail_of m x))" "nat (tail_of m x) < r_size m" "0 \<le> tail_of m x" using d(5) [of x] by auto
      then show ?thesis using True T [of x] c [of "nat (tail_of m x)"] valid by (simp add: states_of_def)
    qed (use T [of x] valid [of x] in \<open>auto simp: states_of_def\<close>)
  qed
  moreover have "rows_ok zero m1 rows" if "rows_ok zero m rows" for rows
    using that c size by (auto simp: rows_ok_def)
  ultimately have "steps_to zero m m1 (\<lambda>s x. if x = q then s x else None)" using inv1 m1(2) by (simp add: steps_to_def kept_upto_def)
  then have "steps_to zero m (m1\<lparr>r_head := lower_head h (r_size m) (r_head m1)\<rparr>) (\<lambda>s x. if x = q then s x else None)"
    using rs_invD(2) [OF inv] size(3) by (intro steps_to_head lower_head_less) simp_all
  then show ?thesis using that m1(1) by (simp add: rs_seq_keep_def)
qed

section \<open>Positions\<close>

text \<open>The sequences that share the state of a sequence, whose positions move with it.\<close>

definition sharers :: "memory_recurrent \<Rightarrow> int \<Rightarrow> int set" where
  "sharers m q = {x. seq_valid m x \<and> 0 \<le> tail_of m x \<and> tail_of m x = tail_of m q}"

fun move_state :: "int \<Rightarrow> int \<Rightarrow> (int \<Rightarrow> int) \<Rightarrow> (int \<times> 's) option \<Rightarrow> (int \<times> 's) option" where
  "move_state lo hi f None = None"
| "move_state lo hi f (Some (p, x)) = (if lo \<le> p \<and> p < hi then Some (f p, x) else Some (p, x))"

lemma on_tail_pos_spec:
  assumes inv: "rs_inv m" and q: "seq_valid m q" and lo: "lo \<noteq> hi"
    and f: "\<And>t. tail_of m q = int t \<Longrightarrow> lo \<le> pos_at m t \<Longrightarrow> pos_at m t < hi
       \<Longrightarrow> f (pos_at m t) = Some (g (pos_at m t)) \<and> 0 \<le> g (pos_at m t) \<and> g (pos_at m t) < INT32_MAX"
  obtains m' where "on_tail_pos q lo hi f m = Some m'"
    "steps_to zero m m' (\<lambda>s x. if x \<in> sharers m q then move_state lo hi g (s x) else s x)"
proof -
  note ok = rs_invD(1) [OF inv]
  note d = tails_okD [OF ok]
  note qv = seq_validD [OF ok q]
  have q': "0 \<le> q \<and> q < int (r_size m)" using q by (simp add: seq_valid_def)
  from ok q show ?thesis
  proof (cases rule: tail_cases)
    case none
    have "on_tail_pos q lo hi f m = Some m" using none(1) qv q' by (simp add: on_tail_pos_def cell_at_eq)
    moreover have "sharers m q = {}" using none(1) by (auto simp: sharers_def)
    moreover have "steps_to zero m m (\<lambda>s x. if x \<in> sharers m q then move_state lo hi g (s x) else s x)"
      using \<open>sharers m q = {}\<close> by (intro steps_to_refl inv) simp
    ultimately show ?thesis using that by blast
  next
    case (cell t)
    have len: "t < length (r_cells m)" using cell(2) d(1) by simp
    have st: "states_of m rows x = Some (pos_at m t, rows ! t)" if "x \<in> sharers m q" for x and rows :: "'a list"
      using that cell(1) by (simp add: states_of_def sharers_def)
    have in_t: "x \<in> sharers m q \<longleftrightarrow> seq_valid m x \<and> tail_of m x = int t" for x using cell(1) by (auto simp: sharers_def)
    show ?thesis
    proof (cases "lo \<le> pos_at m t \<and> pos_at m t < hi")
      case False
      have "on_tail_pos q lo hi f m = Some m" using False cell(1) len qv q' by (auto simp: on_tail_pos_def cell_at_eq)
      moreover have "steps_to zero m m (\<lambda>s x. if x \<in> sharers m q then move_state lo hi g (s x) else s x)"
        using False st by (intro steps_to_refl inv) (auto simp: fun_eq_iff)
      ultimately show ?thesis using that by blast
    next
      case True
      note g = f [OF cell(1) conjunct1 [OF True] conjunct2 [OF True]]
      define m' where "m' = upd_cell t (\<lambda>c. c\<lparr>mc_pos := g (pos_at m t)\<rparr>) m"
      have run: "on_tail_pos q lo hi f m = Some m'"
        using True cell(1,3) len qv q' g lo by (simp add: on_tail_pos_def cell_at_eq on_cell_eq has_seq_id_def m'_def)
      have size: "r_size m' = r_size m" "length (r_cells m') = length (r_cells m)" "r_head m' = r_head m" by (simp_all add: m'_def)
      have same: "seqs_at m' i = seqs_at m i" "src_at m' i = src_at m i" "mc_tail (r_cells m' ! i) = mc_tail (r_cells m ! i)"
        "pos_at m' i = (if i = t then g (pos_at m t) else pos_at m i)" if "i < r_size m" for i
        using that d(1) by (simp_all add: m'_def)
      have valid: "seq_valid m' x \<longleftrightarrow> seq_valid m x" for x using size by (simp add: seq_valid_def)
      have T: "tail_of m' x = tail_of m x" if "seq_valid m x" for x using seq_validD [OF ok that] same(3) d(1) by simp
      have tails: "tails_ok {} m'"
      proof (rule tails_ok_restI)
        show "length (r_cells m') = r_size m'" "0 < r_size m'" "r_size m' < 2147483648" using size d(1-3) by simp_all
        show "seq_valid m' x \<and> tail_of m' x = int i" if "i < r_size m'" "x \<in> seqs_at m' i" for i x
          using that d(4) [of i x] same [of i] T [of x] size valid by simp
        show "tail_of m' x = -1 \<or> (\<exists>j < r_size m'. tail_of m' x = int j \<and> x \<in> seqs_at m' j)" if "seq_valid m' x" for x
          using that valid T [of x] same size by (cases rule: tail_cases [OF ok, of x]) auto
        show "pos_at m' i = -1" if "i < r_size m'" "seqs_at m' i = {}" for i
          using that same [of i] d(7) [of i] size cell(3) by auto
        show "0 \<le> pos_at m' i \<and> pos_at m' i < INT32_MAX" if "i < r_size m'" "seqs_at m' i \<noteq> {}" for i
          using that same [of i] d(8) [of i] size g by auto
      qed
      have "count_used m' = count_used m"
        using count_used_upd [OF len, of "\<lambda>c. c\<lparr>mc_pos := g (pos_at m t)\<rparr>"] by (simp add: m'_def split: if_splits)
      then have used: "r_used m' = count_used m'" using rs_invD(3) [OF inv] by (simp add: m'_def)
      have "src_ok m' i" if "i < r_size m" for i using rs_invD(5) [OF inv that] same [OF that] by (simp add: src_ok_def)
      then have inv': "rs_inv m'" using tails rs_invD(2) [OF inv] size used by (simp add: rs_inv_def)
      have "rows_ok zero m' rows \<and> states_of m' rows = (\<lambda>x. if x \<in> sharers m q then move_state lo hi g (states_of m rows x) else states_of m rows x)"
        if "rows_ok zero m rows" for rows
      proof
        show "rows_ok zero m' rows" using that same size by (simp add: rows_ok_def)
        show "states_of m' rows = (\<lambda>x. if x \<in> sharers m q then move_state lo hi g (states_of m rows x) else states_of m rows x)"
        proof
          fix x
          show "states_of m' rows x = (if x \<in> sharers m q then move_state lo hi g (states_of m rows x) else states_of m rows x)"
          proof (cases "x \<in> sharers m q")
            case shared: True
            then have "states_of m' rows x = Some (g (pos_at m t), rows ! t)"
              using in_t T [of x] valid same(4) [OF cell(2)] by (simp add: states_of_def)
            then show ?thesis using shared st [OF shared, of rows] True by simp
          next
            case False
            then have "nat (tail_of m x) \<noteq> t \<or> \<not> 0 \<le> tail_of m x" if "seq_valid m x" using that in_t [of x] by auto
            then show ?thesis using False T [of x] valid [of x] same(4) [of "nat (tail_of m x)"] d(5) [of x]
              by (auto simp: states_of_def)
          qed
        qed
      qed
      then have "steps_to zero m m' (\<lambda>s x. if x \<in> sharers m q then move_state lo hi g (s x) else s x)"
        using inv' size by (simp add: steps_to_def) (simp add: m'_def)
      then show ?thesis using that run by blast
    qed
  qed
qed

section \<open>Clearing and construction\<close>

lemma fresh_inv:
  assumes "0 < r_size m" "r_size m < 2147483648" "length (r_cells m) = r_size m" "r_head m = 0" "r_used m = 0"
    and "\<And>c. c \<in> set (r_cells m) \<Longrightarrow> mc_seq_id c = {} \<and> mc_tail c = -1 \<and> mc_src c = -1 \<and> mc_pos c = -1"
  shows "rs_inv m" and "states_of m rows = (\<lambda>_. None)" and "length rows = r_size m \<Longrightarrow> rows_ok zero m rows"
proof -
  have c: "seqs_at m i = {} \<and> mc_tail (r_cells m ! i) = -1 \<and> src_at m i = -1 \<and> pos_at m i = -1" if "i < r_size m" for i
    using assms(3,6) that by simp
  have t: "tail_of m q = -1" if "seq_valid m q" for q
    using c [of "nat q"] that by (auto simp: seq_valid_def)
  have "tails_ok {} m" using assms(1-3) c t by (intro tails_ok_restI) auto
  moreover have "count_used m = 0" using assms(6) by (auto simp: count_used_def filter_empty_conv mc_is_empty_def)
  ultimately show "rs_inv m" using assms(1,4,5) c by (simp add: rs_inv_def src_ok_def)
  show "states_of m rows = (\<lambda>_. None)" using t by (auto simp: states_of_def fun_eq_iff)
  show "length rows = r_size m \<Longrightarrow> rows_ok zero m rows" using c by (simp add: rows_ok_def)
qed

lemma clear_spec:
  assumes "rs_inv m"
  obtains m' where "rs_clear m = Some m'" "steps_to zero m m' (\<lambda>_ _. None)"
proof -
  note d = tails_okD [OF rs_invD(1) [OF assms]]
  define m' where "m' = m\<lparr>r_cells := map (\<lambda>c. c\<lparr>mc_pos := -1, mc_seq_id := {}, mc_src := -1, mc_tail := -1\<rparr>) (r_cells m), r_head := 0, r_used := 0\<rparr>"
  have "rs_clear m = Some m'" using d(1) by (simp add: rs_clear_def m'_def)
  moreover have fresh: "0 < r_size m'" "r_size m' < 2147483648" "length (r_cells m') = r_size m'" "r_head m' = 0" "r_used m' = 0"
    "\<And>c. c \<in> set (r_cells m') \<Longrightarrow> mc_seq_id c = {} \<and> mc_tail c = -1 \<and> mc_src c = -1 \<and> mc_pos c = -1"
    using d(1-3) by (auto simp: m'_def)
  have "r_size m' = r_size m" "r_hparams m' = r_hparams m" "r_layers m' = r_layers m" by (simp_all add: m'_def)
  then have "steps_to zero m m' (\<lambda>_ _. None)"
    by (simp add: steps_to_def rows_ok_def [of zero m] fresh_inv(1) [OF fresh] fresh_inv(2) [OF fresh] fresh_inv(3) [OF fresh])
  ultimately show ?thesis using that by blast
qed

lemma new_spec:
  assumes "0 < n" "n < 2147483648"
  shows "rs_inv (recurrent_new h n k flt)" "states_of (recurrent_new h n k flt) rows = (\<lambda>_. None)"
    "rows_ok zero (recurrent_new h n k flt) (replicate n zero)"
proof -
  let ?m = "recurrent_new h n k flt"
  have f: "0 < r_size ?m" "r_size ?m < 2147483648" "length (r_cells ?m) = r_size ?m" "r_head ?m = 0" "r_used ?m = 0"
    "\<And>c. c \<in> set (r_cells ?m) \<Longrightarrow> mc_seq_id c = {} \<and> mc_tail c = -1 \<and> mc_src c = -1 \<and> mc_pos c = -1"
    using assms by (simp_all add: recurrent_new_def mem_cell_new_def split: if_splits)
  show "rs_inv ?m" "states_of ?m rows = (\<lambda>_. None)" "rows_ok zero ?m (replicate n zero)"
    by (rule fresh_inv [OF f], assumption?)+ (simp add: recurrent_new_def)
qed

section \<open>Queries\<close>

lemma has_seq_only:
  assumes "rs_inv m" "seq_valid m q"
  shows "rs_seq_pos_max q m = Some (case states_of m rows q of None \<Rightarrow> -1 | Some (p, _) \<Rightarrow> p)"
    and "rs_seq_pos_min q m = Some (case states_of m rows q of None \<Rightarrow> -1 | Some (p, _) \<Rightarrow> p)"
proof -
  note ok = rs_invD(1) [OF assms(1)]
  note d = tails_okD [OF ok]
  let ?f = "\<lambda>h i r. do { cell \<leftarrow> nth_opt (r_cells m) i; Some (if has_seq_id q cell then h r (mc_pos cell) else (r :: int)) }"
  from ok assms(2) have "rs_seq_pos_max q m = Some (case states_of m rows q of None \<Rightarrow> -1 | Some (p, _) \<Rightarrow> p)
    \<and> rs_seq_pos_min q m = Some (case states_of m rows q of None \<Rightarrow> -1 | Some (p, _) \<Rightarrow> p)"
  proof (cases rule: tail_cases)
    case none
    have "foldo (?f h) [0..<r_size m] r = Some r" for h r
      using none(2) d(1) by (intro foldo_skips) (simp add: has_seq_id_def)
    then show ?thesis using none(1) by (simp add: rs_seq_pos_max_def rs_seq_pos_min_def states_of_def)
  next
    case (cell t)
    have f: "foldo (?f h) [0..<r_size m] r = Some (h r (pos_at m t))" for h r
      using cell(2,4) d(1) by (intro foldo_only [OF cell(2)]) (simp_all add: has_seq_id_def)
    have "0 \<le> pos_at m t \<and> pos_at m t < INT32_MAX" using d(8) [OF cell(2)] cell(3) by blast
    then show ?thesis using f cell(1) assms(2) by (simp add: rs_seq_pos_max_def rs_seq_pos_min_def states_of_def)
  qed
  then show "rs_seq_pos_max q m = Some (case states_of m rows q of None \<Rightarrow> -1 | Some (p, _) \<Rightarrow> p)"
    "rs_seq_pos_min q m = Some (case states_of m rows q of None \<Rightarrow> -1 | Some (p, _) \<Rightarrow> p)" by simp_all
qed

end
