(* ===== verification/Recurrent_Slot.thy ===== *)
theory Recurrent_Slot
  imports Recurrent_Ops
begin

text \<open>
  The slot search of the recurrent memory: which sequences of a micro-batch get which cells, up to the
  point where their cells lie one after the other.
\<close>

section \<open>Micro-batches\<close>

definition ids_of :: "llama_ubatch \<Rightarrow> nat \<Rightarrow> int list" where
  "ids_of u s = (case seq_set u s of None \<Rightarrow> [] | Some ids \<Rightarrow> ids)"

definition last_pos :: "llama_ubatch \<Rightarrow> nat \<Rightarrow> int" where
  "last_pos u s = u_pos u ! (s * u_n_seq_tokens u + u_n_seq_tokens u - 1)"

text \<open>
  A micro-batch as the sequential equal split makes it, for a memory with \<open>n\<close> cells: sets of sequences
  that have no sequence in common and are numbered below \<open>n\<close>.
\<close>

definition rs_batch :: "nat \<Rightarrow> llama_ubatch \<Rightarrow> bool" where
  "rs_batch n u \<longleftrightarrow> u_equal_seqs u \<and> 0 < u_n_seqs u \<and> 0 < u_n_seq_tokens u
     \<and> (\<forall>s < u_n_seqs u. seq_set u s \<noteq> None \<and> ids_of u s \<noteq> [] \<and> distinct (ids_of u s)
          \<and> (\<forall>q \<in> set (ids_of u s). 0 \<le> q \<and> q < int n)
          \<and> s * u_n_seq_tokens u + u_n_seq_tokens u \<le> length (u_pos u) \<and> 0 \<le> last_pos u s \<and> last_pos u s < INT32_MAX)
     \<and> (\<forall>s < u_n_seqs u. \<forall>s' < u_n_seqs u. s \<noteq> s' \<longrightarrow> set (ids_of u s) \<inter> set (ids_of u s') = {})"

definition lead :: "llama_ubatch \<Rightarrow> nat \<Rightarrow> int" where
  "lead u s = hd (ids_of u s)"

lemma rs_batchD:
  assumes "rs_batch n u"
  shows "u_equal_seqs u" "0 < u_n_seqs u" "0 < u_n_seq_tokens u"
    and "s < u_n_seqs u \<Longrightarrow> seq_set u s = Some (ids_of u s)"
    and "s < u_n_seqs u \<Longrightarrow> ids_of u s \<noteq> [] \<and> distinct (ids_of u s)"
    and "s < u_n_seqs u \<Longrightarrow> q \<in> set (ids_of u s) \<Longrightarrow> 0 \<le> q \<and> q < int n"
    and "s < u_n_seqs u \<Longrightarrow> s * u_n_seq_tokens u + u_n_seq_tokens u \<le> length (u_pos u) \<and> 0 \<le> last_pos u s \<and> last_pos u s < INT32_MAX"
    and "s < u_n_seqs u \<Longrightarrow> s' < u_n_seqs u \<Longrightarrow> q \<in> set (ids_of u s) \<Longrightarrow> q \<in> set (ids_of u s') \<Longrightarrow> s = s'"
  using assms unfolding rs_batch_def ids_of_def by (fastforce split: option.splits)+

lemma first_seq_lead: "rs_batch n u \<Longrightarrow> s < u_n_seqs u \<Longrightarrow> first_seq u s = Some (lead u s)"
proof -
  assume a: "rs_batch n u" "s < u_n_seqs u"
  define ids where "ids = u_seq_id u ! (s * u_n_seq_tokens u)"
  define k where "k = u_n_seq_id u ! (s * u_n_seq_tokens u)"
  have k: "s * u_n_seq_tokens u < length (u_seq_id u)" "u_seq_id u ! (s * u_n_seq_tokens u) = ids" "ids_of u s = take (nat k) ids"
    using rs_batchD(4) [OF a] by (simp_all add: seq_set_def ids_def k_def split: if_splits)
  then have "ids \<noteq> []" "hd (take (nat k) ids) = hd ids" using rs_batchD(5) [OF a] by (auto simp: hd_take)
  then show ?thesis using k by (simp add: first_seq_def lead_def hd_conv_nth)
qed

lemma lead_in: "rs_batch n u \<Longrightarrow> s < u_n_seqs u \<Longrightarrow> lead u s \<in> set (ids_of u s)"
  using rs_batchD(5) by (simp add: lead_def)

lemma lead_inj: "rs_batch n u \<Longrightarrow> s < u_n_seqs u \<Longrightarrow> s' < u_n_seqs u \<Longrightarrow> lead u s = lead u s' \<longleftrightarrow> s = s'"
  using lead_in rs_batchD(8) by metis

section \<open>Sequences that become shared\<close>

text \<open>A loop that never returns early, by the part of the list that is done.\<close>

lemma while_ok_prefix:
  assumes "P [] s" and "\<And>ys x zs s. xs = ys @ x # zs \<Longrightarrow> P ys s \<Longrightarrow> \<exists>s'. f x s = Some (True, s') \<and> P (ys @ [x]) s'"
  shows "\<exists>s'. while_ok f xs s = Some (True, s') \<and> P xs s'"
  using assms
proof (induction xs arbitrary: P s)
  case (Cons x xs)
  obtain t where t: "f x s = Some (True, t)" "P ([] @ [x]) t" using Cons.prems(2) [of "[]" x xs s] Cons.prems(1) by auto
  have "\<exists>s'. while_ok f xs t = Some (True, s') \<and> P (x # xs) s'"
  proof (rule Cons.IH [of "\<lambda>ys. P (x # ys)"])
    show "P [x] t" using t(2) by simp
    show "\<exists>s'. f y s = Some (True, s') \<and> P (x # ys @ [y]) s'" if "xs = ys @ y # zs" "P (x # ys) s" for ys y zs s
      using Cons.prems(2) [of "x # ys" y zs s] that by simp
  qed
  then show ?case using t(1) by auto
qed simp

definition claimed :: "'s \<Rightarrow> memory_recurrent \<Rightarrow> int set \<Rightarrow> memory_recurrent \<Rightarrow> bool" where
  "claimed zero m D m' \<longleftrightarrow> steps_to zero m m' (\<lambda>s x. if x \<in> D then None else s x) \<and> r_head m' = r_head m
     \<and> (\<forall>x. seq_valid m x \<longrightarrow> tail_of m' x = (if x \<in> D then -1 else tail_of m x))"

lemma claimed_refl: "rs_inv m \<Longrightarrow> claimed zero m {} m"
  by (simp add: claimed_def steps_to_def)

lemma claimed_detach:
  assumes "rs_inv m" "claimed zero m D m1" "seq_valid m q"
  obtains m2 where "detach q m1 = Some m2" "claimed zero m (insert q D) m2"
proof -
  have inv: "rs_inv m1" and q: "seq_valid m1 q" using assms by (simp_all add: claimed_def steps_to_def seq_valid_def)
  obtain m2 where m2: "detach q m1 = Some m2" "steps_to zero m1 m2 (\<lambda>s. s(q := None))" "tail_of m2 q = -1"
    "\<And>q'. q' \<noteq> q \<Longrightarrow> seq_valid m1 q' \<Longrightarrow> tail_of m2 q' = tail_of m1 q'" "r_head m2 = r_head m1"
    using detach_spec [OF inv q] by metis
  have "steps_to zero m m2 (\<lambda>s x. if x \<in> insert q D then None else s x)"
    using assms(2) unfolding claimed_def by (intro steps_to_trans [OF _ m2(2)]) auto
  moreover have "tail_of m2 x = (if x \<in> insert q D then -1 else tail_of m x)" if "seq_valid m x" for x
    using m2(3) m2(4) [of x] assms(2) that by (cases "x = q") (auto simp: claimed_def steps_to_def seq_valid_def)
  ultimately have "claimed zero m (insert q D) m2" using m2(5) assms(2) by (simp add: claimed_def)
  then show ?thesis using that m2(1) by blast
qed

lemma claim_set_spec:
  assumes inv: "rs_inv m" and u: "rs_batch (r_size m) u" "s < u_n_seqs u" and c: "claimed zero m D m1"
  shows "\<exists>m2. claim_set u s m1 = Some (True, m2) \<and> claimed zero m (D \<union> set (tl (ids_of u s))) m2"
proof -
  have size: "r_size m1 = r_size m" "r_size m < 2147483648"
    using c tails_okD(3) [OF rs_invD(1) [OF inv]] by (simp_all add: claimed_def steps_to_def)
  let ?P = "\<lambda>ys m2. claimed zero m (D \<union> set (map snd (filter (\<lambda>(j, q). 0 < j) ys))) m2"
  have "\<exists>m2. while_ok claim_seq (enumerate 0 (ids_of u s)) m1 = Some (True, m2) \<and> ?P (enumerate 0 (ids_of u s)) m2"
  proof (rule while_ok_prefix)
    show "?P [] m1" using c by simp
    fix ys x zs m2
    assume x: "enumerate 0 (ids_of u s) = ys @ x # zs" and p: "?P ys m2"
    obtain j q where jq: "x = (j, q)" by force
    have "(j, q) \<in> set (enumerate 0 (ids_of u s))" using x jq by simp
    then have "q \<in> set (ids_of u s)" by (auto simp: in_set_enumerate_eq)
    then have q: "seq_valid m q" using rs_batchD(6) [OF u] by (simp add: seq_valid_def)
    have "r_size m2 = r_size m" using p by (simp add: claimed_def steps_to_def)
    then have ok: "\<not> (q < 0 \<or> u32_of_int q \<ge> r_size m2)" using q u32_of_int_valid [OF q size(2)] by (simp add: seq_valid_def)
    show "\<exists>m3. claim_seq x m2 = Some (True, m3) \<and> ?P (ys @ [x]) m3"
    proof (cases "0 < j")
      case True
      obtain m3 where "detach q m2 = Some m3" "claimed zero m (insert q (D \<union> set (map snd (filter (\<lambda>(j, q). 0 < j) ys)))) m3"
        using claimed_detach [OF inv p q] by metis
      then show ?thesis using True ok jq by (auto simp: claim_seq_def)
    qed (use p ok jq in \<open>auto simp: claim_seq_def\<close>)
  qed
  moreover have "set (map snd (filter (\<lambda>(j, q). 0 < j) (enumerate 0 ids))) = set (tl ids)" for ids :: "int list"
  proof (cases ids)
    case (Cons a xs)
    have "filter (\<lambda>(j, q). 0 < j) (enumerate (Suc 0) xs) = enumerate (Suc 0) xs"
      by (rule filter_True) (auto simp: in_set_enumerate_eq)
    then show ?thesis using Cons by simp
  qed simp
  ultimately show ?thesis using rs_batchD(4) [OF u] by (simp add: claim_set_def)
qed

definition seconds :: "llama_ubatch \<Rightarrow> int set" where
  "seconds u = (\<Union>s \<in> {..<u_n_seqs u}. set (tl (ids_of u s)))"

lemma claim_all:
  assumes inv: "rs_inv m" and u: "rs_batch (r_size m) u"
  obtains m1 where "while_ok (claim_set u) [0..<u_n_seqs u] m = Some (True, m1)" "claimed zero m (seconds u) m1"
proof -
  let ?P = "\<lambda>ys m1. claimed zero m (\<Union>s \<in> set ys. set (tl (ids_of u s))) m1"
  have "\<exists>m1. while_ok (claim_set u) [0..<u_n_seqs u] m = Some (True, m1) \<and> ?P [0..<u_n_seqs u] m1"
  proof (rule while_ok_prefix)
    show "?P [] m" using claimed_refl [OF inv] by simp
    fix ys x zs m1
    assume x: "[0..<u_n_seqs u] = ys @ x # zs" and p: "?P ys m1"
    then have "x \<in> set [0..<u_n_seqs u]" by simp
    then have "x < u_n_seqs u" by simp
    from claim_set_spec [OF inv u this p] show "\<exists>m2. claim_set u x m1 = Some (True, m2) \<and> ?P (ys @ [x]) m2"
      by (simp add: Un_commute)
  qed
  then show ?thesis using that by (auto simp: seconds_def atLeast0LessThan)
qed

section \<open>Searching the ring\<close>

lemma wrap_index: "(i::nat) \<le> n \<Longrightarrow> 0 < n \<Longrightarrow> (if n \<le> i then i - n else i) = i mod n"
  by (cases "i = n") auto

lemma next_index: "(i::nat) < n \<Longrightarrow> (if n \<le> i + 1 then i + 1 - n else i + 1) = (i + 1) mod n"
  using wrap_index [of "i + 1" n] by simp

lemma first_empty_total:
  assumes "length (r_cells m) = r_size m" "0 < r_size m" "i \<le> r_size m"
  shows "\<exists>j \<le> r_size m. first_empty n i m = Some j"
  using assms(3)
proof (induction n arbitrary: i)
  case (Suc n)
  have "i mod r_size m + 1 \<le> r_size m" using assms(2) by (simp add: Suc_leI)
  then show ?case using Suc.IH [of "i mod r_size m + 1"] assms wrap_index [OF Suc.prems assms(2)] by (simp add: Let_def)
qed simp

lemma first_empty_hits:
  assumes "length (r_cells m) = r_size m" "0 < r_size m" "i \<le> r_size m" "k < n"
    and "seqs_at m ((i + k) mod r_size m) = {}" "\<And>j. j < k \<Longrightarrow> seqs_at m ((i + j) mod r_size m) \<noteq> {}"
  shows "first_empty n i m = Some ((i + k) mod r_size m)"
  using assms(3-)
proof (induction n arbitrary: i k)
  case (Suc n)
  let ?i = "i mod r_size m"
  have i: "?i < r_size m" using assms(2) by simp
  have step: "first_empty (Suc n) i m = (if seqs_at m ?i = {} then Some ?i else first_empty n (?i + 1) m)"
    using assms(1) i wrap_index [OF Suc.prems(1) assms(2)] by (simp add: Let_def mc_is_empty_def)
  show ?case
  proof (cases k)
    case 0
    then show ?thesis using step Suc.prems(3) by simp
  next
    case (Suc k')
    have e: "(?i + 1 + j) mod r_size m = (i + Suc j) mod r_size m" for j using mod_add_left_eq [of i "r_size m" "Suc j"] by simp
    have "seqs_at m ?i \<noteq> {}" using Suc.prems(4) [of 0] Suc by simp
    moreover have "first_empty n (?i + 1) m = Some ((?i + 1 + k') mod r_size m)"
      using Suc.prems(2-4) Suc i by (intro Suc.IH) (simp_all only: e, simp_all)
    ultimately show ?thesis using step Suc e by simp
  qed
qed simp

lemma next_empty_total:
  assumes "length (r_cells m) = r_size m" "0 < r_size m" "i < r_size m"
  shows "\<exists>j < r_size m. next_empty n i m = Some j"
  using assms(3)
proof (induction n arbitrary: i)
  case (Suc n)
  have "(i + 1) mod r_size m < r_size m" using assms(2) by simp
  then show ?case using Suc.IH [of "(i + 1) mod r_size m"] assms next_index [OF Suc.prems] by (simp add: Let_def)
qed simp

lemma next_empty_hits:
  assumes "length (r_cells m) = r_size m" "0 < r_size m" "i < r_size m" "k < n"
    and "seqs_at m ((i + Suc k) mod r_size m) = {}" "\<And>j. j < k \<Longrightarrow> seqs_at m ((i + Suc j) mod r_size m) \<noteq> {}"
  shows "next_empty n i m = Some ((i + Suc k) mod r_size m)"
  using assms(3-)
proof (induction n arbitrary: i k)
  case (Suc n)
  let ?i = "(i + 1) mod r_size m"
  have i: "?i < r_size m" using assms(2) by simp
  have step: "next_empty (Suc n) i m = (if seqs_at m ?i = {} then Some ?i else next_empty n ?i m)"
    using assms(1) i next_index [OF Suc.prems(1)] by (simp add: Let_def mc_is_empty_def)
  show ?case
  proof (cases k)
    case 0
    then show ?thesis using step Suc.prems(3) by simp
  next
    case (Suc k')
    have e: "(?i + Suc j) mod r_size m = (i + Suc (Suc j)) mod r_size m" for j using mod_add_left_eq [of "i + 1" "r_size m" "Suc j"] by simp
    have "seqs_at m ?i \<noteq> {}" using Suc.prems(4) [of 0] Suc by simp
    moreover have "next_empty n ?i m = Some ((?i + Suc k') mod r_size m)"
      using Suc.prems(2-4) Suc i by (intro Suc.IH) (simp_all only: e, simp_all)
    ultimately show ?thesis using step Suc e by simp
  qed
qed simp

section \<open>Free cells\<close>

text \<open>A cell is free when it is no sequence's tail. Free cells are empty, but an empty cell may be reserved.\<close>

definition free :: "memory_recurrent \<Rightarrow> nat \<Rightarrow> bool" where
  "free m i \<longleftrightarrow> i < r_size m \<and> (\<forall>q. seq_valid m q \<longrightarrow> tail_of m q \<noteq> int i)"

lemma free_empty: "tails_ok R m \<Longrightarrow> free m i \<Longrightarrow> seqs_at m i = {}"
  using tails_okD(4) [of R m i] by (auto simp: free_def)

lemma empty_free: "tails_ok {} m \<Longrightarrow> i < r_size m \<Longrightarrow> seqs_at m i = {} \<Longrightarrow> free m i"
  using tails_okD(5) [of "{}" m] by (force simp: free_def)

text \<open>There is a free cell for a sequence that has no cell or is not alone in it.\<close>

lemma free_exists:
  assumes ok: "tails_ok R m" and q: "seq_valid m q"
    and "tail_of m q = -1 \<or> (\<exists>q' \<noteq> q. seq_valid m q' \<and> tail_of m q' = tail_of m q)"
  shows "\<exists>e. free m e"
proof (rule ccontr)
  assume none: "\<nexists>e. free m e"
  let ?Q = "{x. seq_valid m x \<and> x \<noteq> q}"
  have "{..<r_size m} \<subseteq> (\<lambda>x. nat (tail_of m x)) ` ?Q"
  proof
    fix i assume "i \<in> {..<r_size m}"
    then obtain x where x: "seq_valid m x" "tail_of m x = int i" using none by (auto simp: free_def)
    show "i \<in> (\<lambda>x. nat (tail_of m x)) ` ?Q"
    proof (cases "x = q")
      case True
      then obtain q' where "q' \<noteq> q" "seq_valid m q'" "tail_of m q' = int i" using assms(3) x by auto
      then show ?thesis by force
    qed (use x in force)
  qed
  moreover have Q: "?Q = {0..<int (r_size m)} - {q}" by (auto simp: seq_valid_def)
  then have "finite ?Q" by simp
  ultimately have "card {..<r_size m} \<le> card ?Q" by (meson card_image_le card_mono finite_imageI le_trans)
  moreover have "card ?Q = r_size m - 1" unfolding Q using q by (subst card_Diff_singleton) (auto simp: seq_valid_def)
  ultimately show False using tails_okD(2) [OF ok] by simp
qed

definition ring_ok :: "nat \<Rightarrow> memory_recurrent \<Rightarrow> nat \<Rightarrow> bool" where
  "ring_ok h m e \<longleftrightarrow> e \<le> r_size m \<and> ((\<exists>x. free m x) \<longrightarrow>
     (\<exists>J < r_size m. e = (h + J) mod r_size m \<and> free m e \<and> (\<forall>j < J. \<not> free m ((h + j) mod r_size m))
        \<and> (\<forall>j. J \<le> j \<and> j < r_size m \<and> seqs_at m ((h + j) mod r_size m) = {} \<longrightarrow> free m ((h + j) mod r_size m))))"

lemma ring_index: "h < n \<Longrightarrow> i < n \<Longrightarrow> \<exists>j < n. i = (h + j) mod (n::nat)"
proof (cases "h \<le> i")
  case False
  assume "h < n" "i < n"
  with False have "i = (h + (i + n - h)) mod n" "i + n - h < n" by simp_all
  then show ?thesis by blast
qed (auto intro!: exI [of _ "i - h"])

lemma ring_inj: "(h + i) mod n = (h + j) mod (n::nat) \<Longrightarrow> i < n \<Longrightarrow> j < n \<Longrightarrow> i = j"
proof -
  assume a: "(h + i) mod n = (h + j) mod n" "i < n" "j < n"
  then obtain q r where "h + i + n * q = h + j + n * r" by (auto simp: nat_mod_eq_iff)
  then have "(i + n * q) mod n = (j + n * r) mod n" by simp
  with a show ?thesis by simp
qed

end
