(* ===== verification/Recurrent_Pick.thy ===== *)
theory Recurrent_Pick
  imports Recurrent_Slot
begin

text \<open>
  Picking cells for a micro-batch and gathering them: throughout, the tail of every sequence leads to
  the position it had and, through \<open>src\<close>, to the state it had.
\<close>

section \<open>What the search carries along\<close>

definition src_val :: "'s \<Rightarrow> 's list \<Rightarrow> memory_recurrent \<Rightarrow> nat \<Rightarrow> 's" where
  "src_val zero rows m i = (if src_at m i < 0 then zero else rows ! nat (src_at m i))"

definition old_state :: "'s \<Rightarrow> (int \<times> 's) option \<Rightarrow> int \<times> 's" where
  "old_state zero s = (case s of None \<Rightarrow> (-1, zero) | Some px \<Rightarrow> px)"

text \<open>
  \<open>m0\<close> is the memory before the search, \<open>R\<close> the sequences that have got a cell of their own, \<open>T\<close> the
  cells that may have been changed otherwise than by a sequence leaving.
\<close>

definition carries :: "'s \<Rightarrow> 's list \<Rightarrow> memory_recurrent \<Rightarrow> int set \<Rightarrow> nat set \<Rightarrow> memory_recurrent \<Rightarrow> bool" where
  "carries zero rows m0 R T m \<longleftrightarrow> tails_ok R m \<and> r_size m = r_size m0 \<and> r_hparams m = r_hparams m0 \<and> r_layers m = r_layers m0
     \<and> (\<forall>q \<in> R. seq_valid m q \<and> 0 \<le> tail_of m q \<and> seqs_at m (nat (tail_of m q)) \<subseteq> {q})
     \<and> (\<forall>i < r_size m. -1 \<le> src_at m i \<and> src_at m i < int (r_size m) \<and> (seqs_at m i = {} \<longrightarrow> src_val zero rows m i = zero))
     \<and> (\<forall>q. seq_valid m q \<longrightarrow> 0 \<le> tail_of m q
          \<longrightarrow> (pos_at m (nat (tail_of m q)), src_val zero rows m (nat (tail_of m q))) = old_state zero (states_of m0 rows q))
     \<and> (\<forall>q. seq_valid m q \<longrightarrow> (tail_of m q = -1 \<longleftrightarrow> q \<notin> R \<and> tail_of m0 q = -1))
     \<and> (\<forall>i < r_size m. i \<notin> T \<longrightarrow> src_at m i = src_at m0 i \<and> seqs_at m i \<subseteq> seqs_at m0 i)"

lemma carriesD:
  assumes "carries zero rows m0 R T m"
  shows "tails_ok R m" "r_size m = r_size m0" "r_hparams m = r_hparams m0" "r_layers m = r_layers m0"
    and "q \<in> R \<Longrightarrow> seq_valid m q \<and> 0 \<le> tail_of m q \<and> seqs_at m (nat (tail_of m q)) \<subseteq> {q}"
    and "i < r_size m \<Longrightarrow> -1 \<le> src_at m i \<and> src_at m i < int (r_size m)"
    and "i < r_size m \<Longrightarrow> seqs_at m i = {} \<Longrightarrow> src_val zero rows m i = zero"
    and "seq_valid m q \<Longrightarrow> 0 \<le> tail_of m q
       \<Longrightarrow> (pos_at m (nat (tail_of m q)), src_val zero rows m (nat (tail_of m q))) = old_state zero (states_of m0 rows q)"
    and "seq_valid m q \<Longrightarrow> tail_of m q = -1 \<longleftrightarrow> q \<notin> R \<and> tail_of m0 q = -1"
    and "i < r_size m \<Longrightarrow> i \<notin> T \<Longrightarrow> src_at m i = src_at m0 i \<and> seqs_at m i \<subseteq> seqs_at m0 i"
  using assms unfolding carries_def by blast+

lemma carries_weaken: "carries zero rows m0 R T m \<Longrightarrow> T \<subseteq> T' \<Longrightarrow> carries zero rows m0 R T' m"
  unfolding carries_def by blast

lemma carries_refl:
  assumes "rs_inv m" "rows_ok zero m rows"
  shows "carries zero rows m {} {} m"
proof -
  note d = tails_okD [OF rs_invD(1) [OF assms(1)]]
  have v: "src_at m i = int i \<or> (seqs_at m i = {} \<and> src_at m i = -1)" if "i < r_size m" for i using rs_invD(5) [OF assms(1) that] .
  have z: "seqs_at m i = {} \<longrightarrow> src_val zero rows m i = zero" if "i < r_size m" for i
    using v [OF that] assms(2) that by (auto simp: src_val_def rows_ok_def)
  have c: "(pos_at m (nat (tail_of m q)), src_val zero rows m (nat (tail_of m q))) = old_state zero (states_of m rows q)"
    if "seq_valid m q" "0 \<le> tail_of m q" for q
  proof -
    have t: "nat (tail_of m q) < r_size m" "seqs_at m (nat (tail_of m q)) \<noteq> {}" using d(5) [OF that(1)] that(2) by auto
    then have "src_at m (nat (tail_of m q)) = tail_of m q" using v [OF t(1)] that(2) by simp
    then show ?thesis using that by (simp add: states_of_def old_state_def src_val_def)
  qed
  have b: "-1 \<le> src_at m i \<and> src_at m i < int (r_size m)" if "i < r_size m" for i using v [OF that] that by auto
  show ?thesis using rs_invD(1) [OF assms(1)] b z c by (simp add: carries_def)
qed

text \<open>The search also starts from a memory some sequences have just left.\<close>

section \<open>Taking an empty cell\<close>

lemma take_cell_views:
  assumes ok: "tails_ok R m" and q: "seq_valid m q" and e: "free m e"
    and alone: "tail_of m q = -1 \<or> (0 \<le> tail_of m q \<and> tail_of m q < int (r_size m) \<and> seqs_at m (nat (tail_of m q)) - {q} \<noteq> {})"
  obtains m' where "take_cell q e m = Some m'" "r_size m' = r_size m" "r_hparams m' = r_hparams m" "r_layers m' = r_layers m"
    "length (r_cells m') = length (r_cells m)"
    "\<And>i. i < r_size m \<Longrightarrow> seqs_at m' i = (if i = e then (if tail_of m q = -1 then {} else {q}) else seqs_at m i - {q})"
    "\<And>i. i < r_size m \<Longrightarrow> pos_at m' i = (if i = e \<and> tail_of m q \<noteq> -1 then pos_at m (nat (tail_of m q)) else pos_at m i)"
    "\<And>i. i < r_size m \<Longrightarrow> src_at m' i = (if i = e \<and> tail_of m q \<noteq> -1 then src_at m (nat (tail_of m q)) else src_at m i)"
    "\<And>x. seq_valid m x \<Longrightarrow> tail_of m' x = (if x = q then int e else tail_of m x)"
proof -
  note d = tails_okD [OF ok]
  note qv = seq_validD [OF ok q]
  have el: "e < length (r_cells m)" "seqs_at m e = {}" using e free_empty [OF ok e] d(1) by (simp_all add: free_def)
  have notin: "q \<notin> seqs_at m i" if "i < r_size m" "int i \<noteq> tail_of m q" for i using d(4) [OF that(1), of q] that(2) by auto
  show ?thesis
  proof (cases "tail_of m q = -1")
    case True
    define m' where "m' = upd_cell (nat q) (\<lambda>c. c\<lparr>mc_tail := int e\<rparr>) m"
    have "take_cell q e m = Some m'" using True qv el by (simp add: take_cell_def cell_at_eq on_cell_eq mc_is_empty_def m'_def)
    moreover have "tail_of m' x = (if x = q then int e else tail_of m x)" if "seq_valid m x" for x
      using seq_validD [OF ok that] seq_valid_nat [OF q that] by (simp add: m'_def)
    ultimately show ?thesis using that [of m'] True el d(1) notin by (simp add: m'_def)
  next
    case False
    define t where "t = nat (tail_of m q)"
    have t: "tail_of m q = int t" "t < length (r_cells m)" "seqs_at m t - {q} \<noteq> {}" "t \<noteq> e" using alone False d(1) el by (auto simp: t_def)
    let ?a = "upd_cell e (\<lambda>c. c\<lparr>mc_pos := pos_at m t, mc_src := src_at m t\<rparr>) m"
    let ?b = "upd_cell t (\<lambda>c. c\<lparr>mc_seq_id := mc_seq_id c - {q}\<rparr>) ?a"
    let ?c = "upd_cell e (\<lambda>c. c\<lparr>mc_seq_id := insert q (mc_seq_id c)\<rparr>) ?b"
    define m' where "m' = upd_cell (nat q) (\<lambda>c. c\<lparr>mc_tail := int e\<rparr>) ?c"
    have "take_cell q e m = Some m'"
      using t qv el by (simp add: take_cell_def cell_at_eq on_cell_eq mc_is_empty_def m'_def)
    moreover have "tail_of m' x = (if x = q then int e else tail_of m x)" if "seq_valid m x" for x
      using seq_validD [OF ok that] seq_valid_nat [OF q that] by (simp add: m'_def)
    moreover have "seqs_at m' i = (if i = e then {q} else seqs_at m i - {q})" if "i < r_size m" for i
      using that d(1) t el notin [OF that] by (simp add: m'_def)
    moreover have "pos_at m' i = (if i = e then pos_at m t else pos_at m i)" "src_at m' i = (if i = e then src_at m t else src_at m i)"
      if "i < r_size m" for i using that d(1) t by (simp_all add: m'_def)
    ultimately show ?thesis using that [of m'] t(1) by (simp add: m'_def)
  qed
qed

lemma take_carries:
  assumes c: "carries zero rows m0 R T m" and q: "seq_valid m q" "q \<notin> R" and e: "free m e"
    and alone: "tail_of m q = -1 \<or> seqs_at m (nat (tail_of m q)) - {q} \<noteq> {}"
  obtains m' where "take_cell q e m = Some m'" "carries zero rows m0 (insert q R) (insert e T) m'"
    "\<And>x. seq_valid m x \<Longrightarrow> tail_of m' x = (if x = q then int e else tail_of m x)"
    "\<And>i. i < r_size m \<Longrightarrow> i \<noteq> e \<Longrightarrow> seqs_at m' i = {} \<longleftrightarrow> seqs_at m i = {}" "r_size m' = r_size m"
proof -
  note ok = carriesD(1) [OF c]
  note d = tails_okD [OF ok]
  have el: "e < r_size m" "seqs_at m e = {}" "\<And>x. seq_valid m x \<Longrightarrow> tail_of m x \<noteq> int e"
    using e free_empty [OF ok e] by (simp_all add: free_def)
  have qt: "tail_of m q = -1 \<or> (0 \<le> tail_of m q \<and> tail_of m q < int (r_size m) \<and> q \<in> seqs_at m (nat (tail_of m q)))"
    using d(5) [OF q(1)] q(2) by blast
  then have "tail_of m q = -1 \<or> (0 \<le> tail_of m q \<and> tail_of m q < int (r_size m) \<and> seqs_at m (nat (tail_of m q)) - {q} \<noteq> {})"
    using alone by blast
  from take_cell_views [OF ok q(1) e this] obtain m' where m': "take_cell q e m = Some m'" "r_size m' = r_size m"
    "r_hparams m' = r_hparams m" "r_layers m' = r_layers m" "length (r_cells m') = length (r_cells m)"
    and S: "\<And>i. i < r_size m \<Longrightarrow> seqs_at m' i = (if i = e then (if tail_of m q = -1 then {} else {q}) else seqs_at m i - {q})"
    and P: "\<And>i. i < r_size m \<Longrightarrow> pos_at m' i = (if i = e \<and> tail_of m q \<noteq> -1 then pos_at m (nat (tail_of m q)) else pos_at m i)"
    and R: "\<And>i. i < r_size m \<Longrightarrow> src_at m' i = (if i = e \<and> tail_of m q \<noteq> -1 then src_at m (nat (tail_of m q)) else src_at m i)"
    and T: "\<And>x. seq_valid m x \<Longrightarrow> tail_of m' x = (if x = q then int e else tail_of m x)" by blast
  have valid: "seq_valid m' x \<longleftrightarrow> seq_valid m x" for x using m'(2) by (simp add: seq_valid_def)
  have empty: "seqs_at m' i = {} \<longleftrightarrow> seqs_at m i = {}" if "i < r_size m" "i \<noteq> e" for i
  proof (cases "q \<in> seqs_at m i")
    case True
    then have "tail_of m q = int i" using d(4) [OF that(1)] by blast
    then show ?thesis using alone S [OF that(1)] that(2) True by auto
  qed (use S [OF that(1)] that(2) in simp)
  have inV: "src_val zero rows m' i = (if i = e \<and> tail_of m q \<noteq> -1 then src_val zero rows m (nat (tail_of m q)) else src_val zero rows m i)"
    if "i < r_size m" for i using R [OF that] by (cases "i = e \<and> tail_of m q \<noteq> -1") (auto simp: src_val_def)
  have other: "nat (tail_of m x) \<noteq> e \<and> nat (tail_of m x) < r_size m" if "seq_valid m x" "0 \<le> tail_of m x" for x
    using el(3) [OF that(1)] d(5) [OF that(1)] that(2) by auto
  have qpos: "0 \<le> pos_at m (nat (tail_of m q)) \<and> pos_at m (nat (tail_of m q)) < INT32_MAX" if "tail_of m q \<noteq> -1"
  proof (rule d(8))
    show "nat (tail_of m q) < r_size m" "seqs_at m (nat (tail_of m q)) \<noteq> {}" using qt that by auto
  qed
  have tails: "tails_ok (insert q R) m'" unfolding tails_ok_def
  proof (intro conjI allI impI)
    show "length (r_cells m') = r_size m'" "0 < r_size m'" "r_size m' < 2147483648" using m' d(1-3) by simp_all
    fix i assume i: "i < r_size m'"
    have "seq_valid m' x \<and> tail_of m' x = int i" if "x \<in> seqs_at m' i" for x
      using that d(4) [of i x] S [of i] T [of x] i m'(2) valid q(1) by (auto split: if_splits)
    moreover have "if seqs_at m' i = {} then pos_at m' i = -1 else 0 \<le> pos_at m' i \<and> pos_at m' i < INT32_MAX"
    proof (cases "i = e")
      case True
      then show ?thesis using qpos S [of i] P [of i] i m'(2) el(2) d(7) [of e] by (auto split: if_splits)
    qed (use empty [of i] P [of i] i m'(2) d(7) [of i] d(8) [of i] in auto)
    ultimately show "cell_ok m' i" by (simp add: cell_ok_def)
  next
    fix x assume x: "seq_valid m' x"
    show "tail_ok (insert q R) m' x"
    proof (cases "x = q")
      case True
      then show ?thesis using T [OF q(1)] S [OF el(1)] el(1) m'(2) by (auto simp: tail_ok_def)
    next
      case False
      then have tx: "tail_of m' x = tail_of m x" using T x valid by simp
      show ?thesis
      proof (cases "tail_of m x = -1")
        case nn: False
        then have h: "0 \<le> tail_of m x" "tail_of m x < int (r_size m)"
          "x \<in> seqs_at m (nat (tail_of m x)) \<or> (x \<in> R \<and> seqs_at m (nat (tail_of m x)) = {})"
          using d(5) [of x] x valid by auto
        have o: "nat (tail_of m x) \<noteq> e" "nat (tail_of m x) < r_size m" using other x valid h(1) by auto
        then show ?thesis using h tx S [OF o(2)] False empty [OF o(2,1)] m'(2) by (auto simp: tail_ok_def)
      qed (use tx in \<open>simp add: tail_ok_def\<close>)
    qed
  next
    show "reserved_once m'" unfolding reserved_once_def
    proof (intro allI impI)
      fix x y assume xy: "seq_valid m' x" "seq_valid m' y" "0 \<le> tail_of m' x" "tail_of m' x = tail_of m' y" "seqs_at m' (nat (tail_of m' x)) = {}"
      show "x = y"
      proof (cases "x = q \<or> y = q")
        case True
        then show ?thesis using xy T [of x] T [of y] el(3) [of x] el(3) [of y] valid by (auto split: if_splits)
      next
        case False
        then have t: "tail_of m x = tail_of m y" "0 \<le> tail_of m x" "tail_of m' x = tail_of m x" using xy T [of x] T [of y] valid by auto
        have "seqs_at m (nat (tail_of m x)) = {}"
          using empty [of "nat (tail_of m x)"] other [of x] xy(1,5) t valid by auto
        then show ?thesis using d(6) [of x y] xy(1,2) t valid by auto
      qed
    qed
  qed
  have resv: "seq_valid m' x \<and> 0 \<le> tail_of m' x \<and> seqs_at m' (nat (tail_of m' x)) \<subseteq> {x}" if "x \<in> insert q R" for x
  proof (cases "x = q")
    case False
    then have x: "seq_valid m x" "0 \<le> tail_of m x" "seqs_at m (nat (tail_of m x)) \<subseteq> {x}" using that carriesD(5) [OF c, of x] by auto
    then show ?thesis using T [OF x(1)] S [of "nat (tail_of m x)"] other [OF x(1,2)] valid False by auto
  qed (use T [OF q(1)] S [OF el(1)] q(1) valid in auto)
  have srcs: "-1 \<le> src_at m' i \<and> src_at m' i < int (r_size m') \<and> (seqs_at m' i = {} \<longrightarrow> src_val zero rows m' i = zero)"
    if "i < r_size m'" for i
  proof (cases "i = e \<and> tail_of m q \<noteq> -1")
    case True
    then show ?thesis using qt R [of i] S [of i] that m'(2) carriesD(6) [OF c, of "nat (tail_of m q)"] by auto
  next
    case False
    then show ?thesis using that m'(2) R [of i] inV [of i] carriesD(6,7) [OF c, of i] empty [of i] el(2) by auto
  qed
  have cont: "(pos_at m' (nat (tail_of m' x)), src_val zero rows m' (nat (tail_of m' x))) = old_state zero (states_of m0 rows x)"
    if "seq_valid m' x" "0 \<le> tail_of m' x" for x
  proof (cases "x = q")
    case True
    show ?thesis
    proof (cases "tail_of m q = -1")
      case none: True
      then have "states_of m0 rows q = None" using carriesD(9) [OF c q(1)] by (simp add: states_of_def)
      then show ?thesis using True none T [OF q(1)] P [OF el(1)] inV [OF el(1)] d(7) [OF el(1,2)] carriesD(7) [OF c el(1,2)]
        by (simp add: old_state_def)
    next
      case False
      then show ?thesis using True T [OF q(1)] P [OF el(1)] inV [OF el(1)] carriesD(8) [OF c q(1)] qt by auto
    qed
  next
    case False
    then have t: "tail_of m' x = tail_of m x" "seq_valid m x" "0 \<le> tail_of m x" using T that valid by auto
    then show ?thesis using P [of "nat (tail_of m x)"] inV [of "nat (tail_of m x)"] other [OF t(2,3)] carriesD(8) [OF c t(2,3)] by auto
  qed
  have gone: "tail_of m' x = -1 \<longleftrightarrow> x \<notin> insert q R \<and> tail_of m0 x = -1" if "seq_valid m' x" for x
    using that T [of x] valid carriesD(9) [OF c, of x] by auto
  have rest: "src_at m' i = src_at m0 i \<and> seqs_at m' i \<subseteq> seqs_at m0 i" if "i < r_size m'" "i \<notin> insert e T" for i
    using that m'(2) R [of i] S [of i] carriesD(10) [OF c, of i] by auto
  have "carries zero rows m0 (insert q R) (insert e T) m'"
    unfolding carries_def using tails m'(2-4) carriesD(2-4) [OF c] resv srcs cont gone rest by auto
  then show ?thesis using that [OF m'(1)] T empty m'(2) by blast
qed

section \<open>Picking\<close>

lemma free_after_take:
  assumes ok: "tails_ok R m" and q: "seq_valid m q" and e: "free m e" and size: "r_size m' = r_size m"
    and T: "\<And>x. seq_valid m x \<Longrightarrow> tail_of m' x = (if x = q then int e else tail_of m x)"
    and alone: "tail_of m q = -1 \<or> (0 \<le> tail_of m q \<and> tail_of m q < int (r_size m) \<and> seqs_at m (nat (tail_of m q)) - {q} \<noteq> {})"
  shows "free m' x \<longleftrightarrow> free m x \<and> x \<noteq> e"
proof -
  have valid: "seq_valid m' y \<longleftrightarrow> seq_valid m y" for y using size by (simp add: seq_valid_def)
  show ?thesis
  proof
    assume f: "free m' x"
    then have x: "x < r_size m" "x \<noteq> e" "\<And>y. seq_valid m y \<Longrightarrow> y \<noteq> q \<Longrightarrow> tail_of m y \<noteq> int x"
      using T T [OF q] q size valid by (auto simp: free_def)
    have "tail_of m q \<noteq> int x"
    proof
      assume t: "tail_of m q = int x"
      then obtain y where "y \<in> seqs_at m x" "y \<noteq> q" using alone by auto
      then show False using tails_okD(4) [OF ok x(1)] x(3) by blast
    qed
    then show "free m x \<and> x \<noteq> e" using x by (auto simp: free_def)
  next
    assume "free m x \<and> x \<noteq> e"
    then show "free m' x" using T size valid by (auto simp: free_def)
  qed
qed

lemma ring_take:
  assumes ok: "tails_ok R m'" and size: "r_size m' = r_size m" and h: "h < r_size m" and ring: "ring_ok h m e" and e: "free m e"
    and fr: "\<And>x. free m' x \<longleftrightarrow> free m x \<and> x \<noteq> e"
    and em: "\<And>i. i < r_size m \<Longrightarrow> i \<noteq> e \<Longrightarrow> seqs_at m' i = {} \<longleftrightarrow> seqs_at m i = {}"
  shows "\<exists>e'. next_empty (r_size m') e m' = Some e' \<and> ring_ok h m' e'"
proof -
  let ?n = "r_size m"
  let ?at = "\<lambda>j. (h + j) mod ?n"
  have len: "length (r_cells m') = r_size m'" "0 < r_size m'" and n0: "0 < ?n" using tails_okD(1,2) [OF ok] size by simp_all
  have el: "e < ?n" using e by (simp add: free_def)
  show ?thesis
  proof (cases "\<exists>x. free m' x")
    case False
    then show ?thesis using next_empty_total [OF len, of e "r_size m'"] el size by (auto simp: ring_ok_def)
  next
    case True
    obtain J where J: "J < ?n" "e = ?at J" "\<And>j. j < J \<Longrightarrow> \<not> free m (?at j)"
      "\<And>j. J \<le> j \<Longrightarrow> j < ?n \<Longrightarrow> seqs_at m (?at j) = {} \<Longrightarrow> free m (?at j)"
      using ring e unfolding ring_ok_def by blast
    define J' where "J' = (LEAST j. j < ?n \<and> free m' (?at j))"
    obtain x where x: "free m' x" "x < ?n" using True size by (auto simp: free_def)
    obtain j where "j < ?n" "x = ?at j" using ring_index [OF h x(2)] by blast
    then have J': "J' < ?n" "free m' (?at J')" "\<And>j. j < J' \<Longrightarrow> \<not> free m' (?at j)"
      using LeastI [of "\<lambda>j. j < ?n \<and> free m' (?at j)" j] not_less_Least [of _ "\<lambda>j. j < ?n \<and> free m' (?at j)"] x(1)
      unfolding J'_def by (blast, blast, meson less_trans)
    have "J < J'" using J(2) J(3) [of J'] J'(2) fr by (cases J J' rule: linorder_cases) auto
    define k where "k = J' - Suc J"
    have at: "(e + Suc j) mod ?n = ?at (J + Suc j)" for j
      unfolding J(2) using mod_add_left_eq [of "h + J" ?n "Suc j"] by (simp only: add.assoc)
    have Jk: "J + Suc k = J'" using \<open>J < J'\<close> by (simp add: k_def)
    have at': "(e + Suc k) mod r_size m' = ?at J'" using at [of k] Jk size by (simp only:)
    have free_of: "free m' (?at j)" if "J < j" "j < ?n" "seqs_at m' (?at j) = {}" for j
    proof -
      have "?at j \<noteq> e" using ring_inj [of h j ?n J] that J(1,2) by auto
      then show ?thesis using em [of "?at j"] that J(4) [of j] fr n0 by simp
    qed
    have "next_empty (r_size m') e m' = Some ((e + Suc k) mod r_size m')"
    proof (rule next_empty_hits [OF len])
      show "e < r_size m'" "k < r_size m'" using el size J'(1) Jk by simp_all
      show "seqs_at m' ((e + Suc k) mod r_size m') = {}" using free_empty [OF ok J'(2)] at' by (simp only:)
      show "seqs_at m' ((e + Suc j) mod r_size m') \<noteq> {}" if "j < k" for j
        using free_of [of "J + Suc j"] J'(1) J'(3) [of "J + Suc j"] that Jk at [of j] size by auto
    qed
    moreover have "ring_ok h m' (?at J')"
      unfolding ring_ok_def size using J' free_of \<open>J < J'\<close> n0 by (intro conjI impI exI [of _ J']) (auto simp: less_imp_le)
    ultimately show ?thesis using at' by (simp only:) blast
  qed
qed

definition pick_inv ::
  "'s \<Rightarrow> 's list \<Rightarrow> memory_recurrent \<Rightarrow> llama_ubatch \<Rightarrow> nat \<Rightarrow> nat \<Rightarrow> memory_recurrent \<times> nat \<times> int \<times> int \<Rightarrow> bool" where
  "pick_inv zero rows m0 u h k = (\<lambda>(m, e, lo, hi).
     carries zero rows m0 (lead u ` {..<k}) ((\<lambda>s. nat (tail_of m (lead u s))) ` {..<k}) m
     \<and> (k < u_n_seqs u \<longrightarrow> ring_ok h m e) \<and> (\<forall>s < k. lo \<le> tail_of m (lead u s) \<and> tail_of m (lead u s) \<le> hi)
     \<and> (if k = 0 then lo = int (r_size m) - 1 \<and> hi = 0
        else (\<exists>s < k. tail_of m (lead u s) = lo) \<and> (\<exists>s < k. tail_of m (lead u s) = hi)))"

text \<open>A sequence that is alone in its cell keeps it.\<close>

lemma carries_owner:
  assumes c: "carries zero rows m0 R T m" and q: "seq_valid m q" "0 \<le> tail_of m q" "seqs_at m (nat (tail_of m q)) \<subseteq> {q}"
  shows "carries zero rows m0 (insert q R) T m"
proof -
  note ok = carriesD(1) [OF c]
  have "tails_ok (insert q R) m" using ok unfolding tails_ok_def tail_ok_def by blast
  moreover have "tail_of m x = -1 \<longleftrightarrow> x \<notin> insert q R \<and> tail_of m0 x = -1" if "seq_valid m x" for x
    using carriesD(9) [OF c that] q(2) by auto
  ultimately show ?thesis using c q unfolding carries_def by blast
qed

lemma pick_bounds:
  assumes "pick_inv zero rows m0 u h k (m, e, lo, hi)" "0 \<le> t" "t < int (r_size m)"
    and "\<And>s. s < k \<Longrightarrow> tail_of m' (lead u s) = tail_of m (lead u s)" "tail_of m' (lead u k) = t"
  shows "\<forall>s < Suc k. min lo t \<le> tail_of m' (lead u s) \<and> tail_of m' (lead u s) \<le> max hi t"
    and "\<exists>s < Suc k. tail_of m' (lead u s) = min lo t" and "\<exists>s < Suc k. tail_of m' (lead u s) = max hi t"
proof -
  have b: "\<And>s. s < k \<Longrightarrow> lo \<le> tail_of m (lead u s) \<and> tail_of m (lead u s) \<le> hi"
    and z: "if k = 0 then lo = int (r_size m) - 1 \<and> hi = 0 else (\<exists>s < k. tail_of m (lead u s) = lo) \<and> (\<exists>s < k. tail_of m (lead u s) = hi)"
    using assms(1) by (simp_all add: pick_inv_def)
  show "\<forall>s < Suc k. min lo t \<le> tail_of m' (lead u s) \<and> tail_of m' (lead u s) \<le> max hi t"
    using b assms(4,5) by (auto simp: less_Suc_eq min_le_iff_disj le_max_iff_disj)
  show "\<exists>s < Suc k. tail_of m' (lead u s) = min lo t"
  proof (cases "k = 0 \<or> t \<le> lo")
    case True
    then show ?thesis using z assms(3,5) by (intro exI [of _ k]) (auto simp: min_def)
  next
    case False
    then obtain s where "s < k" "tail_of m (lead u s) = lo" using z by auto
    then show ?thesis using False assms(4) by (intro exI [of _ s]) (auto simp: min_def)
  qed
  show "\<exists>s < Suc k. tail_of m' (lead u s) = max hi t"
  proof (cases "k = 0 \<or> hi \<le> t")
    case True
    then show ?thesis using z assms(2,5) by (intro exI [of _ k]) (auto simp: max_def)
  next
    case False
    then obtain s where "s < k" "tail_of m (lead u s) = hi" using z by auto
    then show ?thesis using False assms(4) by (intro exI [of _ s]) (auto simp: max_def)
  qed
qed

lemma pick_step:
  assumes u: "rs_batch (r_size m0) u" and h: "h < r_size m0" and k: "k < u_n_seqs u"
    and p: "pick_inv zero rows m0 u h k (m, e, lo, hi)"
  shows "\<exists>r. pick_cell u k (m, e, lo, hi) = Some r \<and> pick_inv zero rows m0 u h (Suc k) r"
proof -
  let ?R = "lead u ` {..<k}" and ?T = "\<lambda>m k. (\<lambda>s. nat (tail_of m (lead u s))) ` {..<k}"
  let ?q = "lead u k"
  have c: "carries zero rows m0 ?R (?T m k) m" and ring: "ring_ok h m e" using p k by (simp_all add: pick_inv_def)
  note ok = carriesD(1) [OF c]
  note d = tails_okD [OF ok]
  have size: "r_size m = r_size m0" using carriesD(2) [OF c] .
  have valid: "seq_valid m (lead u s)" if "s < u_n_seqs u" for s
    using rs_batchD(6) [OF u that lead_in [OF u that]] size by (simp add: seq_valid_def)
  have q: "seq_valid m ?q" using valid [OF k] .
  note qv = seq_validD [OF ok q]
  have qR: "?q \<notin> ?R"
  proof
    assume "?q \<in> ?R"
    then obtain s where "s < k" "lead u k = lead u s" by auto
    then show False using lead_inj [OF u k, of s] k by simp
  qed
  have first: "first_seq u k = Some ?q" using first_seq_lead [OF u k] .
  have qt: "tail_of m ?q = -1 \<or> (0 \<le> tail_of m ?q \<and> tail_of m ?q < int (r_size m) \<and> ?q \<in> seqs_at m (nat (tail_of m ?q)))"
    using d(5) [OF q] qR by blast
  have ins: "insert ?q ?R = lead u ` {..<Suc k}" by (auto simp: less_Suc_eq)
  show ?thesis
  proof (cases "0 \<le> tail_of m ?q \<and> seqs_at m (nat (tail_of m ?q)) = {?q}")
    case True
    then have t: "tail_of m ?q < int (r_size m)" using qt by auto
    then have tl: "nat (tail_of m ?q) < length (r_cells m)" using True d(1) by linarith
    have own: "owns_cell ?q m = Some True" using True qv tl by (simp add: owns_cell_def cell_at_eq has_seq_id_def)
    have run: "pick_cell u k (m, e, lo, hi) = Some (m, e, min lo (tail_of m ?q), max hi (tail_of m ?q))"
      using first own qv by (simp add: pick_cell_def cell_at_eq)
    have "carries zero rows m0 (insert ?q ?R) (?T m (Suc k)) m"
      by (rule carries_weaken [OF carries_owner [OF c q]]) (use True in auto)
    then show ?thesis using run pick_bounds [OF p _ t, of m] True ring ins
      by (intro exI [of _ "(m, e, min lo (tail_of m ?q), max hi (tail_of m ?q))"]) (simp add: pick_inv_def)
  next
    case False
    have alone: "tail_of m ?q = -1 \<or> seqs_at m (nat (tail_of m ?q)) - {?q} \<noteq> {}" using False qt by auto
    have "owns_cell ?q m = Some False"
    proof (cases "tail_of m ?q = -1")
      case nn: False
      then have x: "0 \<le> tail_of m ?q" "nat (tail_of m ?q) < length (r_cells m)" "?q \<in> seqs_at m (nat (tail_of m ?q))" using qt d(1) by auto
      moreover have "card (seqs_at m (nat (tail_of m ?q))) \<noteq> 1" using False x by (auto simp: card_1_singleton_iff)
      ultimately show ?thesis using qv by (simp add: owns_cell_def cell_at_eq has_seq_id_def)
    qed (use qv in \<open>simp add: owns_cell_def cell_at_eq\<close>)
    note own = this
    have "tail_of m ?q = -1 \<or> (\<exists>q' \<noteq> ?q. seq_valid m q' \<and> tail_of m q' = tail_of m ?q)"
    proof (cases "tail_of m ?q = -1")
      case nn: False
      then obtain y where "y \<in> seqs_at m (nat (tail_of m ?q))" "y \<noteq> ?q" using alone by auto
      then show ?thesis using d(4) [of "nat (tail_of m ?q)" y] nn qt by auto
    qed simp
    then have "free m e" using free_exists [OF ok q] ring unfolding ring_ok_def by blast
    note e = this
    obtain m' where m': "take_cell ?q e m = Some m'" "carries zero rows m0 (insert ?q ?R) (insert e (?T m k)) m'"
      and T: "\<And>x. seq_valid m x \<Longrightarrow> tail_of m' x = (if x = ?q then int e else tail_of m x)"
      and em: "\<And>i. i < r_size m \<Longrightarrow> i \<noteq> e \<Longrightarrow> seqs_at m' i = {} \<longleftrightarrow> seqs_at m i = {}" "r_size m' = r_size m"
      using take_carries [OF c q qR e alone] by blast
    note ok' = carriesD(1) [OF m'(2)]
    have el: "e < r_size m" using e by (simp add: free_def)
    have tq: "tail_of m' ?q = int e" using T [OF q] by simp
    have tl: "tail_of m' (lead u s) = tail_of m (lead u s)" if "s < k" for s
      using T [OF valid, of s] lead_inj [OF u, of s k] that k by simp
    have alone': "tail_of m ?q = -1 \<or> (0 \<le> tail_of m ?q \<and> tail_of m ?q < int (r_size m) \<and> seqs_at m (nat (tail_of m ?q)) - {?q} \<noteq> {})"
      using alone qt by blast
    have "\<exists>e'. (if k + 1 < u_n_seqs u then next_empty (r_size m') e m' else Some e) = Some e' \<and> (Suc k < u_n_seqs u \<longrightarrow> ring_ok h m' e')"
      using ring_take [OF ok' em(2) _ ring e free_after_take [OF ok q e em(2) T alone'] em(1)] h size by auto
    then obtain e' where e': "(if k + 1 < u_n_seqs u then next_empty (r_size m') e m' else Some e) = Some e'" "Suc k < u_n_seqs u \<longrightarrow> ring_ok h m' e'"
      by blast
    have qv': "0 \<le> ?q" "nat ?q < length (r_cells m')" using qv tails_okD(1) [OF ok'] em(2) d(1) by simp_all
    have run: "pick_cell u k (m, e, lo, hi) = Some (m', e', min lo (int e), max hi (int e))"
      using first own m'(1) e'(1) qv' tq by (simp add: pick_cell_def cell_at_eq)
    have "carries zero rows m0 (insert ?q ?R) (?T m' (Suc k)) m'"
    proof (rule carries_weaken [OF m'(2)])
      show "insert e (?T m k) \<subseteq> ?T m' (Suc k)" using tq tl by (force simp: less_Suc_eq image_iff)
    qed
    then show ?thesis using run pick_bounds [OF p _ _ tl tq] el e'(2) ins
      by (intro exI [of _ "(m', e', min lo (int e), max hi (int e))"]) (simp add: pick_inv_def)
  qed
qed

end
