(* ===== verification/Recurrent_Gather.thy ===== *)
theory Recurrent_Gather
  imports Recurrent_Pick
begin

text \<open>
  The whole search: the cells picked for a micro-batch are gathered side by side, its sequences are
  placed in them, and the sources of their states are staged for the graph.
\<close>

section \<open>All cells picked\<close>

lemma pick_all:
  assumes inv: "rs_inv m0" and rows: "rows_ok zero m0 rows" and u: "rs_batch (r_size m0) u"
  obtains e m e' lo hi where "first_empty (r_size m0) (r_head m0) m0 = Some e"
    "foldo (pick_cell u) [0..<u_n_seqs u] (m0, e, int (r_size m0) - 1, 0) = Some (m, e', lo, hi)"
    "carries zero rows m0 (lead u ` {..<u_n_seqs u}) {nat lo..nat hi} m"
    "\<And>s. s < u_n_seqs u \<Longrightarrow> lo \<le> tail_of m (lead u s) \<and> tail_of m (lead u s) \<le> hi"
    "0 \<le> lo" "lo \<le> hi" "hi < int (r_size m0)"
proof -
  note ok = rs_invD(1) [OF inv]
  note d = tails_okD [OF ok]
  have h: "r_head m0 < r_size m0" using rs_invD(2) [OF inv] .
  let ?at = "\<lambda>j. (r_head m0 + j) mod r_size m0"
  have "\<exists>e. first_empty (r_size m0) (r_head m0) m0 = Some e \<and> ring_ok (r_head m0) m0 e"
  proof (cases "\<exists>x. free m0 x")
    case True
    then obtain x where x: "free m0 x" "x < r_size m0" by (auto simp: free_def)
    obtain j where j: "j < r_size m0" "x = ?at j" using ring_index [OF h x(2)] by blast
    define J where "J = (LEAST j. j < r_size m0 \<and> free m0 (?at j))"
    have J: "J < r_size m0" "free m0 (?at J)" "\<And>j. j < J \<Longrightarrow> \<not> free m0 (?at j)"
      using LeastI [of "\<lambda>j. j < r_size m0 \<and> free m0 (?at j)" j] not_less_Least [of _ "\<lambda>j. j < r_size m0 \<and> free m0 (?at j)"] x(1) j
      unfolding J_def by (blast, blast, meson less_trans)
    have mod: "?at j < r_size m0" for j using d(2) by simp
    have "first_empty (r_size m0) (r_head m0) m0 = Some (?at J)"
    proof (rule first_empty_hits [OF d(1,2)])
      show "seqs_at m0 (?at J) = {}" using free_empty [OF ok J(2)] .
      show "seqs_at m0 (?at j) \<noteq> {}" if "j < J" for j using J(3) [OF that] empty_free [OF ok mod] by blast
    qed (use h J(1) in simp_all)
    moreover have "ring_ok (r_head m0) m0 (?at J)"
      unfolding ring_ok_def using J mod empty_free [OF ok mod] by (intro conjI impI exI [of _ J]) (auto simp: less_imp_le)
    ultimately show ?thesis by blast
  next
    case False
    then show ?thesis using first_empty_total [OF d(1,2), of "r_head m0" "r_size m0"] h by (auto simp: ring_ok_def)
  qed
  then obtain e where e: "first_empty (r_size m0) (r_head m0) m0 = Some e" "ring_ok (r_head m0) m0 e" by blast
  have "pick_inv zero rows m0 u (r_head m0) 0 (m0, e, int (r_size m0) - 1, 0)"
    using carries_refl [OF inv rows] e(2) by (simp add: pick_inv_def)
  from foldo_upt_invariant [where P = "pick_inv zero rows m0 u (r_head m0)" and f = "pick_cell u" and n = "u_n_seqs u", OF this]
  obtain r where r: "foldo (pick_cell u) [0..<u_n_seqs u] (m0, e, int (r_size m0) - 1, 0) = Some r"
    "pick_inv zero rows m0 u (r_head m0) (u_n_seqs u) r"
    using pick_step [OF u h] by (metis prod_cases4)
  obtain m e' lo hi where [simp]: "r = (m, e', lo, hi)" by (cases r) auto
  have c: "carries zero rows m0 (lead u ` {..<u_n_seqs u}) ((\<lambda>s. nat (tail_of m (lead u s))) ` {..<u_n_seqs u}) m"
    and b: "\<And>s. s < u_n_seqs u \<Longrightarrow> lo \<le> tail_of m (lead u s) \<and> tail_of m (lead u s) \<le> hi"
    and ex: "\<exists>s < u_n_seqs u. tail_of m (lead u s) = lo" "\<exists>s < u_n_seqs u. tail_of m (lead u s) = hi"
    using r(2) rs_batchD(2) [OF u] by (simp_all add: pick_inv_def)
  have t: "0 \<le> tail_of m (lead u s) \<and> tail_of m (lead u s) < int (r_size m0)" if "s < u_n_seqs u" for s
    using carriesD(5) [OF c, of "lead u s"] carriesD(2) [OF c] tails_okD(5) [OF carriesD(1) [OF c], of "lead u s"] that by auto
  have "carries zero rows m0 (lead u ` {..<u_n_seqs u}) {nat lo..nat hi} m"
  proof (rule carries_weaken [OF c])
    have "nat lo \<le> nat (tail_of m (lead u s)) \<and> nat (tail_of m (lead u s)) \<le> nat hi" if "s < u_n_seqs u" for s
      using b [OF that] by (simp add: nat_mono)
    then show "(\<lambda>s. nat (tail_of m (lead u s))) ` {..<u_n_seqs u} \<subseteq> {nat lo..nat hi}" by auto
  qed
  moreover have "0 \<le> lo" "lo \<le> hi" "hi < int (r_size m0)" using ex t b by (metis, metis, metis)
  ultimately show ?thesis using that [OF e(1)] r(1) b by simp
qed

section \<open>Gathering\<close>

definition swp :: "nat \<Rightarrow> nat \<Rightarrow> nat \<Rightarrow> nat" where
  "swp a b i = (if i = a then b else if i = b then a else i)"

lemma swp_swp [simp]: "swp a b (swp a b i) = i"
  by (simp add: swp_def)

lemma swp_less: "a < n \<Longrightarrow> b < n \<Longrightarrow> i < n \<Longrightarrow> swp a b i < n"
  by (simp add: swp_def)

text \<open>Exchanging the contents of two cells together with the tails that lead to them.\<close>

lemma swap_carries:
  assumes c: "carries zero rows m0 R T m" and ab: "a < r_size m" "b < r_size m" "a \<in> T" "b \<in> T"
    and m': "r_size m' = r_size m" "r_hparams m' = r_hparams m" "r_layers m' = r_layers m" "length (r_cells m') = length (r_cells m)"
    and V: "\<And>i. i < r_size m \<Longrightarrow> seqs_at m' i = seqs_at m (swp a b i) \<and> pos_at m' i = pos_at m (swp a b i) \<and> src_at m' i = src_at m (swp a b i)"
    and M: "\<And>x. seq_valid m x \<Longrightarrow> tail_of m' x = (if tail_of m x = -1 then -1 else int (swp a b (nat (tail_of m x))))"
  shows "carries zero rows m0 R T m'"
proof -
  note ok = carriesD(1) [OF c]
  note d = tails_okD [OF ok]
  have valid: "seq_valid m' x \<longleftrightarrow> seq_valid m x" for x using m'(1) by (simp add: seq_valid_def)
  have sw: "swp a b i < r_size m" if "i < r_size m" for i using swp_less [OF ab(1,2) that] .
  have tl: "tail_of m' x = int (swp a b (nat (tail_of m x)))" "nat (tail_of m x) < r_size m" "0 \<le> tail_of m x"
    if "seq_valid m x" "tail_of m x \<noteq> -1" for x using M [OF that(1)] d(5) [OF that] that(2) by auto
  have at: "seqs_at m' (nat (tail_of m' x)) = seqs_at m (nat (tail_of m x))" "pos_at m' (nat (tail_of m' x)) = pos_at m (nat (tail_of m x))"
      "src_at m' (nat (tail_of m' x)) = src_at m (nat (tail_of m x))" if "seq_valid m x" "tail_of m x \<noteq> -1" for x
    using V [OF sw [OF tl(2) [OF that]]] tl(1) [OF that] by simp_all
  have neg: "tail_of m' x = -1 \<longleftrightarrow> tail_of m x = -1" if "seq_valid m x" for x using M [OF that] by auto
  have nonneg: "tail_of m x \<noteq> -1" if "seq_valid m x" "0 \<le> tail_of m' x" for x using neg [OF that(1)] that(2) by auto
  have "cell_ok m' i" if i: "i < r_size m" for i
  proof -
    have "tail_of m' x = int i \<and> seq_valid m x" if x: "x \<in> seqs_at m' i" for x
    proof -
      have "seq_valid m x" "tail_of m x = int (swp a b i)" using x V [OF i] d(4) [OF sw [OF i], of x] by auto
      then show ?thesis using M [of x] by simp
    qed
    then show ?thesis using V [OF i] d(7,8) [OF sw [OF i]] valid by (simp add: cell_ok_def)
  qed
  moreover have "tail_ok R m' x" if x: "seq_valid m x" for x
  proof (cases "tail_of m x = -1")
    case False
    then show ?thesis using tl [OF x] at(1) [OF x] d(5) [OF x] sw [of "nat (tail_of m x)"] m'(1) by (auto simp: tail_ok_def)
  qed (use neg [OF x] in \<open>simp add: tail_ok_def\<close>)
  moreover have "reserved_once m'" unfolding reserved_once_def
  proof (intro allI impI)
    fix x y assume xy: "seq_valid m' x" "seq_valid m' y" "0 \<le> tail_of m' x" "tail_of m' x = tail_of m' y" "seqs_at m' (nat (tail_of m' x)) = {}"
    then have n: "seq_valid m x" "seq_valid m y" "tail_of m x \<noteq> -1" "tail_of m y \<noteq> -1" using valid nonneg [of x] nonneg [of y] by auto
    have "swp a b (nat (tail_of m x)) = swp a b (nat (tail_of m y))" using xy(4) tl(1) n by simp
    then have "nat (tail_of m x) = nat (tail_of m y)" by (metis swp_swp)
    then have "tail_of m x = tail_of m y" using tl(3) n by (metis nat_0_le)
    then show "x = y" using d(6) [OF n(1,2)] tl(3) [OF n(1,3)] at(1) [OF n(1,3)] xy(5) by simp
  qed
  ultimately have tails: "tails_ok R m'" using m' d(1-3) valid by (simp add: tails_ok_def)
  have val: "src_val zero rows m' i = src_val zero rows m (swp a b i)" if "i < r_size m" for i
    using V [OF that] by (simp add: src_val_def)
  have "seq_valid m' x \<and> 0 \<le> tail_of m' x \<and> seqs_at m' (nat (tail_of m' x)) \<subseteq> {x}" if "x \<in> R" for x
  proof -
    have x: "seq_valid m x" "0 \<le> tail_of m x" "seqs_at m (nat (tail_of m x)) \<subseteq> {x}" using carriesD(5) [OF c that] by auto
    then show ?thesis using at(1) [OF x(1)] tl(1) [OF x(1)] valid by simp
  qed
  moreover have "(pos_at m' (nat (tail_of m' x)), src_val zero rows m' (nat (tail_of m' x))) = old_state zero (states_of m0 rows x)"
    if x: "seq_valid m x" "0 \<le> tail_of m' x" for x
  proof -
    have "src_val zero rows m' (nat (tail_of m' x)) = src_val zero rows m (nat (tail_of m x))"
      using at(3) [OF x(1) nonneg [OF x]] by (simp add: src_val_def)
    then show ?thesis using carriesD(8) [OF c x(1) tl(3) [OF x(1) nonneg [OF x]]] at(2) [OF x(1) nonneg [OF x]] by simp
  qed
  moreover have "src_at m' i = src_at m0 i \<and> seqs_at m' i \<subseteq> seqs_at m0 i" if "i < r_size m" "i \<notin> T" for i
  proof -
    have "swp a b i = i" using that(2) ab(3,4) by (auto simp: swp_def)
    then show ?thesis using V [OF that(1)] carriesD(10) [OF c that] by simp
  qed
  moreover have "-1 \<le> src_at m' i \<and> src_at m' i < int (r_size m) \<and> (seqs_at m' i = {} \<longrightarrow> src_val zero rows m' i = zero)"
    if "i < r_size m" for i using V [OF that] val [OF that] carriesD(6,7) [OF c sw [OF that]] by simp
  ultimately show ?thesis unfolding carries_def using tails m' carriesD(2-4) [OF c] neg carriesD(9) [OF c] valid by auto
qed

lemma gather_views:
  assumes "length (r_cells m) = r_size m" "seq_valid m q" "first_seq u s = Some q"
    and "tail_of m q = int b" "b < r_size m" "int s + lo = int a" "a < r_size m" "a \<noteq> b"
  obtains m' where "gather_cell u lo s m = Some m'" "r_size m' = r_size m" "r_hparams m' = r_hparams m" "r_layers m' = r_layers m"
    "length (r_cells m') = length (r_cells m)"
    "\<And>i. i < r_size m \<Longrightarrow> seqs_at m' i = seqs_at m (swp a b i) \<and> pos_at m' i = pos_at m (swp a b i) \<and> src_at m' i = src_at m (swp a b i)"
    "\<And>i. i < r_size m \<Longrightarrow> mc_tail (r_cells m' ! i) = (if mc_tail (r_cells m ! i) = int b then int a
       else if mc_tail (r_cells m ! i) = int a then int b else mc_tail (r_cells m ! i))"
proof -
  let ?c = "\<lambda>i c. c\<lparr>mc_pos := pos_at m i, mc_src := src_at m i, mc_seq_id := seqs_at m i\<rparr>"
  define m2 where "m2 = upd_cell b (?c a) (upd_cell a (?c b) m)"
  define m' where "m' = m2\<lparr>r_cells := map (swap_tail (int b) (int a)) (r_cells m2)\<rparr>"
  have q: "0 \<le> q" "nat q < length (r_cells m)" using assms(1,2) by (auto simp: seq_valid_def)
  have run: "gather_cell u lo s m = Some m'"
    using assms q by (simp add: gather_cell_def cell_at_eq on_cell_eq m'_def m2_def)
  have "length (r_cells m2) = length (r_cells m)" by (simp add: m2_def)
  then have "r_cells m' ! i = swap_tail (int b) (int a) (r_cells m2 ! i)" if "i < r_size m" for i
    using that assms(1) by (simp add: m'_def)
  then have "seqs_at m' i = seqs_at m (swp a b i) \<and> pos_at m' i = pos_at m (swp a b i) \<and> src_at m' i = src_at m (swp a b i)
      \<and> mc_tail (r_cells m' ! i) = (if mc_tail (r_cells m ! i) = int b then int a
       else if mc_tail (r_cells m ! i) = int a then int b else mc_tail (r_cells m ! i))" if "i < r_size m" for i
    using that assms(1,5,7,8) by (simp add: m2_def swap_tail_def swp_def)
  then show ?thesis using that [OF run] by (simp add: m'_def m2_def)
qed

text \<open>The tails of different leaders differ, so their cells fit between the least and the greatest.\<close>

lemma carries_distinct:
  assumes c: "carries zero rows m0 R T m" and q: "q \<in> R" "q' \<in> R" "tail_of m q = tail_of m q'"
  shows "q = q'"
proof -
  note d = tails_okD [OF carriesD(1) [OF c]]
  note v = carriesD(5) [OF c q(1)] carriesD(5) [OF c q(2)]
  show ?thesis
  proof (cases "seqs_at m (nat (tail_of m q)) = {}")
    case True
    then show ?thesis using d(6) [of q q'] v q(3) by simp
  next
    case False
    then show ?thesis using v q(3) by auto
  qed
qed

lemma slot_wide_enough:
  assumes u: "rs_batch n u" and c: "carries zero rows m0 (lead u ` {..<u_n_seqs u}) T m"
    and b: "\<And>s. s < u_n_seqs u \<Longrightarrow> lo \<le> tail_of m (lead u s) \<and> tail_of m (lead u s) \<le> hi" and "lo \<le> hi"
  shows "u_n_seqs u \<le> nat (hi - lo + 1)"
proof -
  have "inj_on (\<lambda>s. tail_of m (lead u s)) {..<u_n_seqs u}"
  proof (rule inj_onI)
    fix s s' assume s: "s \<in> {..<u_n_seqs u}" "s' \<in> {..<u_n_seqs u}" "tail_of m (lead u s) = tail_of m (lead u s')"
    then have "lead u s = lead u s'" using carries_distinct [OF c] by auto
    then show "s = s'" using lead_inj [OF u] s by simp
  qed
  moreover have "(\<lambda>s. tail_of m (lead u s)) ` {..<u_n_seqs u} \<subseteq> {lo..hi}" using b by auto
  ultimately have "card {..<u_n_seqs u} \<le> card {lo..hi}" by (metis card_image card_mono finite_atLeastAtMost_int)
  then show ?thesis using assms(4) by simp
qed

lemma gather_all:
  assumes u: "rs_batch (r_size m0) u" and c: "carries zero rows m0 (lead u ` {..<u_n_seqs u}) {nat lo..nat hi} m"
    and b: "\<And>s. s < u_n_seqs u \<Longrightarrow> lo \<le> tail_of m (lead u s) \<and> tail_of m (lead u s) \<le> hi"
    and lo: "0 \<le> lo" "lo \<le> hi" "hi < int (r_size m0)"
  obtains m' where "foldo (gather_cell u lo) [0..<u_n_seqs u] m = Some m'"
    "carries zero rows m0 (lead u ` {..<u_n_seqs u}) {nat lo..nat hi} m'" "\<And>s. s < u_n_seqs u \<Longrightarrow> tail_of m' (lead u s) = int s + lo"
proof -
  let ?P = "\<lambda>k m. carries zero rows m0 (lead u ` {..<u_n_seqs u}) {nat lo..nat hi} m
    \<and> (\<forall>s < u_n_seqs u. lo \<le> tail_of m (lead u s) \<and> tail_of m (lead u s) \<le> hi) \<and> (\<forall>s < k. tail_of m (lead u s) = int s + lo)"
  have step: "\<exists>m'. gather_cell u lo k m = Some m' \<and> ?P (Suc k) m'" if k: "k < u_n_seqs u" and p: "?P k m" for k m
  proof -
    have c: "carries zero rows m0 (lead u ` {..<u_n_seqs u}) {nat lo..nat hi} m"
      and b: "\<And>s. s < u_n_seqs u \<Longrightarrow> lo \<le> tail_of m (lead u s) \<and> tail_of m (lead u s) \<le> hi"
      and passed: "\<And>s. s < k \<Longrightarrow> tail_of m (lead u s) = int s + lo" using p by auto
    note ok = carriesD(1) [OF c]
    note d = tails_okD [OF ok]
    have size: "r_size m = r_size m0" using carriesD(2) [OF c] .
    have valid: "seq_valid m (lead u s)" if "s < u_n_seqs u" for s using carriesD(5) [OF c, of "lead u s"] that by auto
    have wide: "u_n_seqs u \<le> nat (hi - lo + 1)" using slot_wide_enough [OF u c b lo(2)] by blast
    define a where "a = nat (int k + lo)"
    define t where "t = nat (tail_of m (lead u k))"
    have a: "int k + lo = int a" "a < r_size m" "a \<in> {nat lo..nat hi}" using lo wide k size by (auto simp: a_def)
    have t: "tail_of m (lead u k) = int t" "t < r_size m" "t \<in> {nat lo..nat hi}" using b [OF k] lo size by (auto simp: t_def)
    have qv: "0 \<le> lead u k" "nat (lead u k) < length (r_cells m)" using seq_validD [OF ok valid [OF k]] by auto
    have first: "first_seq u k = Some (lead u k)" using first_seq_lead [OF u k] .
    show ?thesis
    proof (cases "a = t")
      case True
      then have "gather_cell u lo k m = Some m" using first qv t(1) a(1) by (simp add: gather_cell_def cell_at_eq)
      then show ?thesis using p True t(1) a(1) by (auto simp: less_Suc_eq)
    next
      case False
      obtain m' where m': "gather_cell u lo k m = Some m'" "r_size m' = r_size m" "r_hparams m' = r_hparams m" "r_layers m' = r_layers m"
          "length (r_cells m') = length (r_cells m)"
        and V: "\<And>i. i < r_size m \<Longrightarrow> seqs_at m' i = seqs_at m (swp a t i) \<and> pos_at m' i = pos_at m (swp a t i) \<and> src_at m' i = src_at m (swp a t i)"
        and M: "\<And>i. i < r_size m \<Longrightarrow> mc_tail (r_cells m' ! i) = (if mc_tail (r_cells m ! i) = int t then int a
          else if mc_tail (r_cells m ! i) = int a then int t else mc_tail (r_cells m ! i))"
        using gather_views [OF d(1) valid [OF k] first t(1,2) a(1,2) False] by blast
      have T: "tail_of m' x = (if tail_of m x = int t then int a else if tail_of m x = int a then int t else tail_of m x)"
        if "seq_valid m x" for x using M [of "nat x"] seq_validD [OF ok that] d(1) by simp
      have T': "tail_of m' x = (if tail_of m x = -1 then -1 else int (swp a t (nat (tail_of m x))))" if x: "seq_valid m x" for x
      proof (cases "tail_of m x = -1")
        case False
        then obtain j where "tail_of m x = int j" using d(5) [OF x] by (metis nonneg_int_cases)
        then show ?thesis using T [OF x] by (simp add: swp_def)
      qed (use T [OF x] in simp)
      have "carries zero rows m0 (lead u ` {..<u_n_seqs u}) {nat lo..nat hi} m'"
        by (rule swap_carries [OF c a(2) t(2) a(3) t(3) m'(2-5) V T'])
      moreover have "lo \<le> tail_of m' (lead u s) \<and> tail_of m' (lead u s) \<le> hi" if "s < u_n_seqs u" for s
        using T [OF valid [OF that]] b [OF that] a t lo by auto
      moreover have "tail_of m' (lead u s) = int s + lo" if s: "s < Suc k" for s
      proof (cases "s = k")
        case True
        then show ?thesis using T [OF valid [OF k]] t(1) a(1) by simp
      next
        case ne: False
        then have "s < k" "s < u_n_seqs u" using s k by auto
        then have "tail_of m (lead u s) = int s + lo" "tail_of m (lead u s) \<noteq> tail_of m (lead u k)"
          using passed carries_distinct [OF c, of "lead u s" "lead u k"] lead_inj [OF u, of s k] k ne by auto
        then show ?thesis using T [OF valid, of s] \<open>s < u_n_seqs u\<close> t(1) a(1) ne by auto
      qed
      ultimately show ?thesis using m'(1) by blast
    qed
  qed
  have "?P 0 m" using c b by simp
  from foldo_upt_invariant [where P = ?P and f = "gather_cell u lo" and n = "u_n_seqs u", OF this step]
  show ?thesis using that by blast
qed

end
