(* ===== verification/Recurrent_Compute.thy ===== *)
theory Recurrent_Compute
  imports Recurrent_Gather
begin

text \<open>
  Placing the sequences of a micro-batch, staging the sources of the states, and running the graph:
  every sequence of the micro-batch is given the state it had, every other sequence keeps its state.
\<close>

section \<open>Placing\<close>

lemma place_seqs:
  assumes "length (r_cells m) = r_size m" "a < r_size m" "\<forall>q \<in> set ids. seq_valid m q"
  shows "\<exists>m'. foldo (place_seq (int a)) ids m = Some m' \<and> r_size m' = r_size m \<and> r_hparams m' = r_hparams m \<and> r_layers m' = r_layers m
    \<and> length (r_cells m') = length (r_cells m)
    \<and> (\<forall>i < r_size m. pos_at m' i = pos_at m i \<and> src_at m' i = src_at m i \<and> seqs_at m' i = (if i = a then seqs_at m a \<union> set ids else seqs_at m i))
    \<and> (\<forall>x. seq_valid m x \<longrightarrow> tail_of m' x = (if x \<in> set ids then int a else tail_of m x))"
  using assms
proof (induction ids arbitrary: m)
  case (Cons q ids)
  have q: "seq_valid m q" "0 \<le> q" "nat q < length (r_cells m)" using Cons.prems by (auto simp: seq_valid_def)
  define m1 where "m1 = upd_cell (nat q) (\<lambda>c. c\<lparr>mc_tail := int a\<rparr>) (upd_cell a (\<lambda>c. c\<lparr>mc_seq_id := insert q (mc_seq_id c)\<rparr>) m)"
  have run: "place_seq (int a) q m = Some m1" using q Cons.prems by (simp add: place_seq_def on_cell_eq m1_def)
  have f: "r_size m1 = r_size m" "r_hparams m1 = r_hparams m" "r_layers m1 = r_layers m" "length (r_cells m1) = length (r_cells m)"
    by (simp_all add: m1_def)
  have v: "pos_at m1 i = pos_at m i \<and> src_at m1 i = src_at m i \<and> seqs_at m1 i = (if i = a then insert q (seqs_at m a) else seqs_at m i)"
    if "i < r_size m" for i using that Cons.prems(1) by (simp add: m1_def)
  have t: "tail_of m1 x = (if x = q then int a else tail_of m x)" if "seq_valid m x" for x
  proof -
    have "nat x < length (r_cells m)" using that Cons.prems(1) by (auto simp: seq_valid_def)
    then show ?thesis using seq_valid_nat [OF q(1) that] q(3) by (simp add: m1_def)
  qed
  have valid: "seq_valid m1 x \<longleftrightarrow> seq_valid m x" for x using f(1) by (simp add: seq_valid_def)
  obtain m' where "foldo (place_seq (int a)) ids m1 = Some m'" "r_size m' = r_size m1" "r_hparams m' = r_hparams m1" "r_layers m' = r_layers m1"
    "length (r_cells m') = length (r_cells m1)"
    "\<forall>i < r_size m1. pos_at m' i = pos_at m1 i \<and> src_at m' i = src_at m1 i \<and> seqs_at m' i = (if i = a then seqs_at m1 a \<union> set ids else seqs_at m1 i)"
    "\<forall>x. seq_valid m1 x \<longrightarrow> tail_of m' x = (if x \<in> set ids then int a else tail_of m1 x)"
    using Cons.IH [of m1] Cons.prems f valid by auto
  then show ?case using run f v t valid Cons.prems(2) by auto
qed simp

definition placed_upto :: "llama_ubatch \<Rightarrow> nat \<Rightarrow> memory_recurrent \<Rightarrow> nat \<Rightarrow> memory_recurrent \<Rightarrow> bool" where
  "placed_upto u a m k m' \<longleftrightarrow> r_size m' = r_size m \<and> r_hparams m' = r_hparams m \<and> r_layers m' = r_layers m \<and> length (r_cells m') = length (r_cells m)
     \<and> (\<forall>i < r_size m. src_at m' i = src_at m i)
     \<and> (\<forall>s < k. seqs_at m' (a + s) = set (ids_of u s) \<and> pos_at m' (a + s) = last_pos u s)
     \<and> (\<forall>i < r_size m. i \<notin> {a..<a + k} \<longrightarrow> seqs_at m' i = seqs_at m i \<and> pos_at m' i = pos_at m i)
     \<and> (\<forall>s < k. \<forall>x \<in> set (ids_of u s). tail_of m' x = int (a + s))
     \<and> (\<forall>x. seq_valid m x \<longrightarrow> (\<forall>s < k. x \<notin> set (ids_of u s)) \<longrightarrow> tail_of m' x = tail_of m x)"

lemma place_step:
  assumes u: "rs_batch (r_size m) u" and len: "length (r_cells m) = r_size m" and k: "k < u_n_seqs u" "a + k < r_size m"
    and p: "placed_upto u a m k m1"
  shows "\<exists>m2. place_set u (int a) k m1 = Some m2 \<and> placed_upto u a m (Suc k) m2"
proof -
  have f: "r_size m1 = r_size m" "r_hparams m1 = r_hparams m" "r_layers m1 = r_layers m" "length (r_cells m1) = r_size m"
    using p len by (simp_all add: placed_upto_def)
  have valid: "seq_valid m1 x \<longleftrightarrow> seq_valid m x" for x using f(1) by (simp add: seq_valid_def)
  have ids: "seq_valid m x" if "s < u_n_seqs u" "x \<in> set (ids_of u s)" for s x
    using rs_batchD(6) [OF u that] by (simp add: seq_valid_def)
  let ?c = "upd_cell (a + k) (\<lambda>c. c\<lparr>mc_pos := last_pos u k, mc_seq_id := {}\<rparr>) m1"
  have "\<forall>q \<in> set (ids_of u k). seq_valid ?c q" using ids [OF k(1)] f(1) by (simp add: seq_valid_def)
  from place_seqs [OF _ _ this, of "a + k"] obtain m2 where m2: "foldo (place_seq (int (a + k))) (ids_of u k) ?c = Some m2" "r_size m2 = r_size m"
    "r_hparams m2 = r_hparams m" "r_layers m2 = r_layers m" "length (r_cells m2) = length (r_cells m)"
    and v: "\<And>i. i < r_size m \<Longrightarrow> pos_at m2 i = pos_at ?c i \<and> src_at m2 i = src_at ?c i
      \<and> seqs_at m2 i = (if i = a + k then seqs_at ?c (a + k) \<union> set (ids_of u k) else seqs_at ?c i)"
    and t: "\<And>x. seq_valid m x \<Longrightarrow> tail_of m2 x = (if x \<in> set (ids_of u k) then int (a + k) else tail_of ?c x)"
    using f k(2) len valid by (auto simp: seq_valid_def)
  have pos: "k * u_n_seq_tokens u + u_n_seq_tokens u - 1 < length (u_pos u)"
    using rs_batchD(3,7) [OF u] k(1) by (metis Suc_diff_1 Suc_le_eq add_gr_0)
  have run: "place_set u (int a) k m1 = Some m2"
    using m2(1) rs_batchD(3) [OF u] rs_batchD(4) [OF u k(1)] pos k(2) f(4)
    by (simp add: place_set_def on_cell_eq last_pos_def add.commute nat_add_distrib)
  have c: "seqs_at ?c i = (if i = a + k then {} else seqs_at m1 i)" "pos_at ?c i = (if i = a + k then last_pos u k else pos_at m1 i)"
    "src_at ?c i = src_at m1 i" if "i < r_size m" for i using that f(4) by simp_all
  have ct: "tail_of ?c x = tail_of m1 x" if "seq_valid m x" for x
  proof -
    have "nat x < length (r_cells m1)" using that f(4) by (auto simp: seq_valid_def)
    then show ?thesis by simp
  qed
  have v2: "pos_at m2 i = (if i = a + k then last_pos u k else pos_at m1 i)" "src_at m2 i = src_at m1 i"
    "seqs_at m2 i = (if i = a + k then set (ids_of u k) else seqs_at m1 i)" if "i < r_size m" for i
    using v [OF that] c [OF that] c(1) [OF k(2)] by simp_all
  have t2: "tail_of m2 x = (if x \<in> set (ids_of u k) then int (a + k) else tail_of m1 x)" if "seq_valid m x" for x
    using t [OF that] ct [OF that] by simp
  have "placed_upto u a m (Suc k) m2" unfolding placed_upto_def
  proof (intro conjI allI impI ballI)
    show "r_size m2 = r_size m" "r_hparams m2 = r_hparams m" "r_layers m2 = r_layers m" "length (r_cells m2) = length (r_cells m)" using m2 by auto
    show "src_at m2 i = src_at m i" if "i < r_size m" for i using v2 [OF that] p that by (simp add: placed_upto_def)
    show "seqs_at m2 (a + s) = set (ids_of u s)" "pos_at m2 (a + s) = last_pos u s" if "s < Suc k" for s
      using that v2 [of "a + s"] p k(2) by (auto simp: placed_upto_def less_Suc_eq)
    show "seqs_at m2 i = seqs_at m i" "pos_at m2 i = pos_at m i" if "i < r_size m" "i \<notin> {a..<a + Suc k}" for i
      using that v2 [of i] p by (auto simp: placed_upto_def)
    show "tail_of m2 x = int (a + s)" if "s < Suc k" "x \<in> set (ids_of u s)" for s x
    proof (cases "s = k")
      case False
      then have s: "s < k" "s < u_n_seqs u" using that k by auto
      then have "x \<notin> set (ids_of u k)" using rs_batchD(8) [OF u s(2) k(1) that(2)] by auto
      then show ?thesis using t2 [OF ids [OF s(2) that(2)]] p s(1) that(2) by (simp add: placed_upto_def)
    qed (use t2 [OF ids [OF k(1)]] that in auto)
    show "tail_of m2 x = tail_of m x" if "seq_valid m x" "\<forall>s < Suc k. x \<notin> set (ids_of u s)" for x
      using t2 [OF that(1)] that p by (auto simp: placed_upto_def)
  qed
  then show ?thesis using run by blast
qed

lemma place_all:
  assumes u: "rs_batch (r_size m) u" and len: "length (r_cells m) = r_size m" and a: "a + u_n_seqs u \<le> r_size m"
  obtains m' where "foldo (place_set u (int a)) [0..<u_n_seqs u] m = Some m'" "placed_upto u a m (u_n_seqs u) m'"
proof -
  have "placed_upto u a m 0 m" by (simp add: placed_upto_def)
  from foldo_upt_invariant [where P = "placed_upto u a m" and f = "place_set u (int a)" and n = "u_n_seqs u", OF this]
  show ?thesis using place_step [OF u len] a that by (metis add_less_cancel_left less_le_trans)
qed

section \<open>Staging\<close>

lemma upto_map: "lo \<le> hi + 1 \<Longrightarrow> [lo..hi] = map (\<lambda>k. lo + int k) [0..<nat (hi - lo + 1)]"
  by (rule nth_equalityI) simp_all

definition staged_upto :: "int \<Rightarrow> nat \<Rightarrow> memory_recurrent \<Rightarrow> nat \<Rightarrow> memory_recurrent \<Rightarrow> bool" where
  "staged_upto z a m k m' \<longleftrightarrow> r_size m' = r_size m \<and> r_hparams m' = r_hparams m \<and> r_layers m' = r_layers m \<and> length (r_cells m') = length (r_cells m)
     \<and> (\<forall>i < r_size m. r_cells m' ! i = (if i \<in> {a..<a + k}
          then (r_cells m ! i)\<lparr>mc_src0 := (if src_at m i < 0 then z else src_at m i), mc_src := int i\<rparr> else r_cells m ! i))"

lemma stage_all:
  assumes len: "length (r_cells m) = r_size m" and lo: "0 \<le> lo" "lo \<le> hi" "hi < int (r_size m)"
    and z: "\<And>i. nat lo \<le> i \<Longrightarrow> i \<le> nat hi \<Longrightarrow> src_at m i < 0 \<Longrightarrow> 0 \<le> z"
  obtains m' where "foldo (stage_cell z) [lo..hi] m = Some m'" "staged_upto z (nat lo) m (nat (hi - lo + 1)) m'"
proof -
  let ?a = "nat lo" and ?n = "nat (hi - lo + 1)"
  have step: "\<exists>m2. stage_cell z (lo + int k) m1 = Some m2 \<and> staged_upto z ?a m (Suc k) m2" if k: "k < ?n" and p: "staged_upto z ?a m k m1" for k m1
  proof -
    have i: "lo + int k = int (?a + k)" "?a + k < r_size m" "?a + k \<le> nat hi" using lo k by auto
    have l1: "length (r_cells m1) = r_size m" "r_cells m1 ! (?a + k) = r_cells m ! (?a + k)" using p len i(2) by (auto simp: staged_upto_def)
    let ?m2 = "upd_cell (?a + k) (\<lambda>c. c\<lparr>mc_src0 := (if mc_src c < 0 then z else mc_src c), mc_src := int (?a + k)\<rparr>) m1"
    have "stage_cell z (lo + int k) m1 = Some ?m2"
      using l1 i z [of "?a + k"] unfolding i(1) by (simp add: stage_cell_def on_cell_eq del: of_nat_add)
    moreover have "staged_upto z ?a m (Suc k) ?m2" using p l1 i(2) len by (auto simp: staged_upto_def)
    ultimately show ?thesis by blast
  qed
  have "staged_upto z ?a m 0 m" by (simp add: staged_upto_def)
  from foldo_upt_invariant [where P = "staged_upto z ?a m" and f = "\<lambda>k. stage_cell z (lo + int k)" and n = ?n, OF this step]
  obtain m' where "foldo (\<lambda>k. stage_cell z (lo + int k)) [0..<?n] m = Some m'" "staged_upto z ?a m ?n m'" by blast
  then show ?thesis using that [of m'] upto_map [of lo hi] lo by (simp add: foldo_over_map)
qed

text \<open>When a state in the slot starts at zero, there is a row in the slot that nothing is copied from.\<close>

lemma zero_cell_spec:
  assumes len: "length (r_cells m) = r_size m" and lo: "0 \<le> lo" "lo \<le> hi" "hi < int (r_size m)"
    and src: "\<And>i. i < r_size m \<Longrightarrow> src_at m i < int (r_size m)"
    and out: "\<And>i. i < r_size m \<Longrightarrow> i \<notin> {nat lo..nat hi} \<Longrightarrow> src_at m i = -1 \<or> src_at m i = int i"
  obtains z where "zero_cell lo hi m = Some z" "z = -1 \<or> (lo \<le> z \<and> z \<le> hi)" "\<And>i. 0 \<le> z \<Longrightarrow> i < r_size m \<Longrightarrow> src_at m i \<noteq> z"
    "\<And>i. nat lo \<le> i \<Longrightarrow> i \<le> nat hi \<Longrightarrow> src_at m i < 0 \<Longrightarrow> 0 \<le> z"
proof -
  have all: "(\<forall>c \<in> set (r_cells m). P c) \<longleftrightarrow> (\<forall>i < r_size m. P (r_cells m ! i))" for P
    using len by (metis in_set_conv_nth)
  let ?f = "find (\<lambda>i. \<forall>c \<in> set (r_cells m). mc_src c \<noteq> i) [lo..hi]"
  have run: "zero_cell lo hi m = Some (case ?f of None \<Rightarrow> -1 | Some i \<Rightarrow> i)" using src all by (simp add: zero_cell_def)
  show ?thesis
  proof (cases ?f)
    case (Some z)
    then have "z \<in> set [lo..hi]" "\<forall>c \<in> set (r_cells m). mc_src c \<noteq> z" by (auto simp: find_Some_iff)
    then show ?thesis using that [of z] run Some all lo by auto
  next
    case None
    have "\<exists>i < r_size m. src_at m i = j" if "j \<in> {lo..hi}" for j using None that all by (auto simp: find_None_iff)
    have img: "{lo..hi} \<subseteq> src_at m ` {i. nat lo \<le> i \<and> i \<le> nat hi \<and> 0 \<le> src_at m i}"
    proof
      fix j assume j: "j \<in> {lo..hi}"
      then obtain i where i: "i < r_size m" "src_at m i = j" using \<open>\<And>j. j \<in> {lo..hi} \<Longrightarrow> \<exists>i < r_size m. src_at m i = j\<close> by blast
      then have "i \<in> {nat lo..nat hi}" using out [OF i(1)] j lo by (cases "i \<in> {nat lo..nat hi}") auto
      then show "j \<in> src_at m ` {i. nat lo \<le> i \<and> i \<le> nat hi \<and> 0 \<le> src_at m i}" using i j lo by auto
    qed
    have "0 \<le> src_at m i" if i: "nat lo \<le> i" "i \<le> nat hi" for i
    proof (rule ccontr)
      assume "\<not> 0 \<le> src_at m i"
      then have "{i. nat lo \<le> i \<and> i \<le> nat hi \<and> 0 \<le> src_at m i} \<subseteq> {nat lo..nat hi} - {i}" by auto
      then have "card {i. nat lo \<le> i \<and> i \<le> nat hi \<and> 0 \<le> src_at m i} \<le> card ({nat lo..nat hi} - {i})" by (intro card_mono) auto
      also have "\<dots> < card {nat lo..nat hi}" using i by (intro card_Diff1_less) auto
      also have "\<dots> = card {lo..hi}" using lo by simp
      finally show False using card_mono [OF _ img] card_image_le [of "{i. nat lo \<le> i \<and> i \<le> nat hi \<and> 0 \<le> src_at m i}" "src_at m"]
        by (simp add: finite_subset [of _ "{nat lo..nat hi}"] subset_iff)
    qed
    then show ?thesis using that [of "-1"] run None by force
  qed
qed

section \<open>The memory after the search\<close>

text \<open>What the search leaves: \<open>m1\<close> is the memory after sequences became shared, \<open>m3\<close> the gathered one.\<close>

definition searched ::
  "'s \<Rightarrow> 's list \<Rightarrow> llama_ubatch \<Rightarrow> memory_recurrent \<Rightarrow> memory_recurrent \<Rightarrow> nat \<Rightarrow> nat \<Rightarrow> memory_recurrent \<Rightarrow> bool" where
  "searched zero rows u m1 m3 a w m' \<longleftrightarrow> carries zero rows m1 (lead u ` {..<u_n_seqs u}) {a..<a + w} m3
     \<and> (\<forall>s < u_n_seqs u. tail_of m3 (lead u s) = int (a + s)) \<and> u_n_seqs u \<le> w \<and> a + w \<le> r_size m1
     \<and> r_size m' = r_size m1 \<and> r_hparams m' = r_hparams m1 \<and> r_layers m' = r_layers m1 \<and> r_head m' = a \<and> r_n m' = w \<and> r_used m' = count_used m'
     \<and> (r_rs_z m' = -1 \<or> (int a \<le> r_rs_z m' \<and> r_rs_z m' < int (a + w)))
     \<and> (\<forall>i < r_size m1. 0 \<le> r_rs_z m' \<longrightarrow> src_at m3 i \<noteq> r_rs_z m')
     \<and> (\<forall>i. a \<le> i \<longrightarrow> i < a + w \<longrightarrow> src_at m3 i < 0 \<longrightarrow> 0 \<le> r_rs_z m')
     \<and> length (r_cells m') = r_size m1
     \<and> (\<exists>m4. placed_upto u a m3 (u_n_seqs u) m4
          \<and> (\<forall>i < r_size m1. r_cells m' ! i = (if i \<in> {a..<a + w}
               then (r_cells m4 ! i)\<lparr>mc_src0 := (if src_at m4 i < 0 then r_rs_z m' else src_at m4 i), mc_src := int i\<rparr> else r_cells m4 ! i)))"

lemma rs_batch_size: "rs_batch n u \<Longrightarrow> n = k \<Longrightarrow> rs_batch k u"
  by simp

lemma find_slot_searched:
  assumes inv: "rs_inv m" and rows: "rows_ok zero m rows" and u: "rs_batch (r_size m) u"
  obtains m1 m3 a w m' where "rs_find_slot u m = Some (True, m')" "rs_inv m1" "rows_ok zero m1 rows" "r_size m1 = r_size m"
    "states_of m1 rows = (\<lambda>x. if x \<in> seconds u then None else states_of m rows x)"
    "\<forall>x. x \<in> seconds u \<longrightarrow> tail_of m1 x = -1"
    "r_hparams m1 = r_hparams m" "r_layers m1 = r_layers m" "searched zero rows u m1 m3 a w m'"
proof -
  define m0 where "m0 = (if r_head m > u32 (r_used m + 2 * u_n_seqs u) then m\<lparr>r_head := 0\<rparr> else m)"
  have size0: "r_size m0 = r_size m" "r_hparams m0 = r_hparams m" "r_layers m0 = r_layers m" by (simp_all add: m0_def)
  have st0: "states_of m0 rows = states_of m rows" "rows_ok zero m0 rows" "seq_valid m0 x \<longleftrightarrow> seq_valid m x" for x
    using rows by (simp_all add: m0_def)
  have inv0: "rs_inv m0" using inv tails_okD(2) [OF rs_invD(1) [OF inv]] by (simp add: m0_def rs_inv_def src_ok_def)
  obtain m1 where m1: "while_ok (claim_set u) [0..<u_n_seqs u] m0 = Some (True, m1)" "claimed zero m0 (seconds u) m1"
    using claim_all [OF inv0] u size0(1) by metis
  have inv1: "rs_inv m1" "rows_ok zero m1 rows" "r_size m1 = r_size m" "r_hparams m1 = r_hparams m" "r_layers m1 = r_layers m"
    "states_of m1 rows = (\<lambda>x. if x \<in> seconds u then None else states_of m rows x)"
    using m1(2) size0 st0(2) by (simp_all add: claimed_def steps_to_def st0(1) cong: if_cong)
  have u1: "rs_batch (r_size m1) u" using u inv1(3) by simp
  have sec: "tail_of m1 x = -1" if sx: "x \<in> seconds u" for x
  proof -
    obtain s where s: "s < u_n_seqs u" "x \<in> set (tl (ids_of u s))" using sx by (auto simp: seconds_def)
    then have "x \<in> set (ids_of u s)" by (cases "ids_of u s") auto
    then have "seq_valid m0 x" using rs_batchD(6) [OF u s(1)] size0(1) by (simp add: seq_valid_def)
    then show ?thesis using m1(2) sx by (simp add: claimed_def)
  qed
  obtain e m2 e' lo hi where p: "first_empty (r_size m1) (r_head m1) m1 = Some e"
    "foldo (pick_cell u) [0..<u_n_seqs u] (m1, e, int (r_size m1) - 1, 0) = Some (m2, e', lo, hi)"
    "carries zero rows m1 (lead u ` {..<u_n_seqs u}) {nat lo..nat hi} m2"
    "\<And>s. s < u_n_seqs u \<Longrightarrow> lo \<le> tail_of m2 (lead u s) \<and> tail_of m2 (lead u s) \<le> hi"
    and b: "0 \<le> lo" "lo \<le> hi" "hi < int (r_size m1)"
    using pick_all [OF inv1(1,2) u1] by metis
  obtain m3 where m3: "foldo (gather_cell u lo) [0..<u_n_seqs u] m2 = Some m3"
    "carries zero rows m1 (lead u ` {..<u_n_seqs u}) {nat lo..nat hi} m3" "\<And>s. s < u_n_seqs u \<Longrightarrow> tail_of m3 (lead u s) = int s + lo"
    using gather_all [OF u1 p(3,4) b] by blast
  define a where "a = nat lo"
  define w where "w = nat (hi - lo + 1)"
  have aw: "lo = int a" "{nat lo..nat hi} = {a..<a + w}" "a + w \<le> r_size m1" using b by (auto simp: a_def w_def)
  have N: "u_n_seqs u \<le> w" using slot_wide_enough [OF u1 p(3,4) b(2)] by (simp add: w_def)
  have size3: "r_size m3 = r_size m1" "r_hparams m3 = r_hparams m1" "r_layers m3 = r_layers m1" "length (r_cells m3) = r_size m1"
    using carriesD(2-4) [OF m3(2)] tails_okD(1) [OF carriesD(1) [OF m3(2)]] by simp_all
  obtain m4 where m4: "foldo (place_set u lo) [0..<u_n_seqs u] m3 = Some m4" "placed_upto u a m3 (u_n_seqs u) m4"
    using place_all [OF rs_batch_size [OF u1 size3(1) [symmetric]], of a] size3 aw N by auto
  have size4: "r_size m4 = r_size m1" "r_hparams m4 = r_hparams m1" "r_layers m4 = r_layers m1" "length (r_cells m4) = r_size m1"
    and src4: "\<And>i. i < r_size m1 \<Longrightarrow> src_at m4 i = src_at m3 i"
    using m4(2) size3 by (auto simp: placed_upto_def)
  have src3: "src_at m3 i < int (r_size m1)" if "i < r_size m1" for i using carriesD(6) [OF m3(2), of i] size3 that by simp
  have out: "src_at m4 i = -1 \<or> src_at m4 i = int i" if "i < r_size m1" "i \<notin> {nat lo..nat hi}" for i
    using carriesD(10) [OF m3(2), of i] rs_invD(5) [OF inv1(1) that(1)] src4 [OF that(1)] size3 that by auto
  obtain z where z: "zero_cell lo hi m4 = Some z" "z = -1 \<or> (lo \<le> z \<and> z \<le> hi)" "\<And>i. 0 \<le> z \<Longrightarrow> i < r_size m4 \<Longrightarrow> src_at m4 i \<noteq> z"
    "\<And>i. nat lo \<le> i \<Longrightarrow> i \<le> nat hi \<Longrightarrow> src_at m4 i < 0 \<Longrightarrow> 0 \<le> z"
    by (rule zero_cell_spec [of m4 lo hi]) (use b size4 src4 src3 out in auto)
  obtain m5 where m5: "foldo (stage_cell z) [lo..hi] m4 = Some m5" "staged_upto z (nat lo) m4 (nat (hi - lo + 1)) m5"
    using stage_all [of m4 lo hi z] b size4 z(4) by metis
  define m' where "m' = m5\<lparr>r_rs_z := z, r_head := nat lo, r_n := w, r_used := count_used m5\<rparr>"
  have run: "rs_find_slot u m = Some (True, m')"
    using m1(1) p(1,2) m3(1) m4(1) z(1) m5(1) N rs_batchD(1) [OF u]
    by (simp add: rs_find_slot_def m0_def [symmetric] Let_def m'_def w_def)
  have "searched zero rows u m1 m3 a w m'" unfolding searched_def
  proof (intro conjI)
    show "carries zero rows m1 (lead u ` {..<u_n_seqs u}) {a..<a + w} m3" using m3(2) aw(2) by simp
    show "\<forall>s < u_n_seqs u. tail_of m3 (lead u s) = int (a + s)" using m3(3) aw(1) by simp
    show "u_n_seqs u \<le> w" "a + w \<le> r_size m1" using N aw by auto
    show "r_size m' = r_size m1" "r_hparams m' = r_hparams m1" "r_layers m' = r_layers m1" "length (r_cells m') = r_size m1"
      "r_head m' = a" "r_n m' = w" "r_used m' = count_used m'"
      using m5(2) size4 by (simp_all add: m'_def staged_upto_def a_def count_used_def)
    show "r_rs_z m' = -1 \<or> (int a \<le> r_rs_z m' \<and> r_rs_z m' < int (a + w))" using z(2) b by (auto simp: m'_def a_def w_def)
    show "\<forall>i < r_size m1. 0 \<le> r_rs_z m' \<longrightarrow> src_at m3 i \<noteq> r_rs_z m'" using z(3) size4 src4 by (auto simp: m'_def)
    show "\<forall>i. a \<le> i \<longrightarrow> i < a + w \<longrightarrow> src_at m3 i < 0 \<longrightarrow> 0 \<le> r_rs_z m'"
    proof (intro allI impI)
      fix i assume i: "a \<le> i" "i < a + w" "src_at m3 i < 0"
      then have "nat lo \<le> i" "i \<le> nat hi" "i < r_size m1" using b by (auto simp: a_def w_def)
      then show "0 \<le> r_rs_z m'" using z(4) src4 i(3) by (simp add: m'_def)
    qed
    show "\<exists>m4. placed_upto u a m3 (u_n_seqs u) m4
          \<and> (\<forall>i < r_size m1. r_cells m' ! i = (if i \<in> {a..<a + w}
               then (r_cells m4 ! i)\<lparr>mc_src0 := (if src_at m4 i < 0 then r_rs_z m' else src_at m4 i), mc_src := int i\<rparr> else r_cells m4 ! i))"
      using m4(2) m5(2) size4 by (intro exI [of _ m4]) (simp add: staged_upto_def m'_def a_def w_def)
  qed
  then show ?thesis using that [OF run inv1(1-3,6) _ inv1(4,5)] sec by blast
qed

end
