(* ===== verification/Recurrent_States.thy ===== *)
theory Recurrent_States
  imports Recurrent_Compute
begin

text \<open>
  The recurrent memory as its users see it: a map from sequences to states. One micro-batch reads and
  writes the states of its sequences and leaves all others alone, whatever cells they are moved to, and
  a slot is found in every state that can be reached.
\<close>

section \<open>The invariant after a micro-batch\<close>

lemma searchedD:
  assumes "searched zero rows u m1 m3 a w m'" "rs_batch (r_size m1) u"
  shows "carries zero rows m1 (lead u ` {..<u_n_seqs u}) {a..<a + w} m3" "r_size m3 = r_size m1"
    and "s < u_n_seqs u \<Longrightarrow> tail_of m3 (lead u s) = int (a + s)" "u_n_seqs u \<le> w" "a + w \<le> r_size m1"
    and "r_size m' = r_size m1" "r_hparams m' = r_hparams m1" "r_layers m' = r_layers m1" "r_head m' = a" "r_n m' = w"
      "r_used m' = count_used m'" "length (r_cells m') = r_size m1"
    and "r_rs_z m' = -1 \<or> (int a \<le> r_rs_z m' \<and> r_rs_z m' < int (a + w))"
    and "i < r_size m1 \<Longrightarrow> 0 \<le> r_rs_z m' \<Longrightarrow> src_at m3 i \<noteq> r_rs_z m'"
    and "a \<le> i \<Longrightarrow> i < a + w \<Longrightarrow> src_at m3 i < 0 \<Longrightarrow> 0 \<le> r_rs_z m'"
    and "s < u_n_seqs u \<Longrightarrow> seqs_at m' (a + s) = set (ids_of u s) \<and> pos_at m' (a + s) = last_pos u s"
    and "i < r_size m1 \<Longrightarrow> i \<notin> {a..<a + u_n_seqs u} \<Longrightarrow> seqs_at m' i = seqs_at m3 i \<and> pos_at m' i = pos_at m3 i"
    and "s < u_n_seqs u \<Longrightarrow> x \<in> set (ids_of u s) \<Longrightarrow> tail_of m' x = int (a + s)"
    and "seq_valid m1 x \<Longrightarrow> (\<And>s. s < u_n_seqs u \<Longrightarrow> x \<notin> set (ids_of u s)) \<Longrightarrow> tail_of m' x = tail_of m3 x"
    and "i < r_size m1 \<Longrightarrow> src_at m' i = (if i \<in> {a..<a + w} then int i else src_at m3 i)"
    and "a \<le> i \<Longrightarrow> i < a + w \<Longrightarrow> mc_src0 (r_cells m' ! i) = (if src_at m3 i < 0 then r_rs_z m' else src_at m3 i)"
proof -
  obtain m4 where m4: "placed_upto u a m3 (u_n_seqs u) m4"
    and c: "\<And>i. i < r_size m1 \<Longrightarrow> r_cells m' ! i = (if i \<in> {a..<a + w}
       then (r_cells m4 ! i)\<lparr>mc_src0 := (if src_at m4 i < 0 then r_rs_z m' else src_at m4 i), mc_src := int i\<rparr> else r_cells m4 ! i)"
    using assms(1) unfolding searched_def by blast
  show car: "carries zero rows m1 (lead u ` {..<u_n_seqs u}) {a..<a + w} m3" using assms(1) by (simp add: searched_def)
  show size: "r_size m3 = r_size m1" using carriesD(2) [OF car] .
  show w: "u_n_seqs u \<le> w" "a + w \<le> r_size m1" using assms(1) by (simp_all add: searched_def)
  show "s < u_n_seqs u \<Longrightarrow> tail_of m3 (lead u s) = int (a + s)"
    "r_size m' = r_size m1" "r_hparams m' = r_hparams m1" "r_layers m' = r_layers m1" "r_head m' = a" "r_n m' = w"
    "r_used m' = count_used m'" "length (r_cells m') = r_size m1"
    "r_rs_z m' = -1 \<or> (int a \<le> r_rs_z m' \<and> r_rs_z m' < int (a + w))"
    "i < r_size m1 \<Longrightarrow> 0 \<le> r_rs_z m' \<Longrightarrow> src_at m3 i \<noteq> r_rs_z m'"
    "a \<le> i \<Longrightarrow> i < a + w \<Longrightarrow> src_at m3 i < 0 \<Longrightarrow> 0 \<le> r_rs_z m'"
    using assms(1) by (simp_all add: searched_def)
  have same: "seqs_at m' i = seqs_at m4 i" "pos_at m' i = pos_at m4 i" "mc_tail (r_cells m' ! i) = mc_tail (r_cells m4 ! i)"
    if "i < r_size m1" for i using c [OF that] by simp_all
  have src4: "src_at m4 i = src_at m3 i" if "i < r_size m1" for i using m4 size that by (simp add: placed_upto_def)
  show "s < u_n_seqs u \<Longrightarrow> seqs_at m' (a + s) = set (ids_of u s) \<and> pos_at m' (a + s) = last_pos u s"
    using same [of "a + s"] w m4 by (simp add: placed_upto_def)
  show "i < r_size m1 \<Longrightarrow> i \<notin> {a..<a + u_n_seqs u} \<Longrightarrow> seqs_at m' i = seqs_at m3 i \<and> pos_at m' i = pos_at m3 i"
    using same [of i] m4 size by (simp add: placed_upto_def)
  have nat: "nat x < r_size m1" if "seq_valid m1 x" for x using that by (auto simp: seq_valid_def)
  show "tail_of m' x = int (a + s)" if "s < u_n_seqs u" "x \<in> set (ids_of u s)"
  proof -
    have "seq_valid m1 x" using rs_batchD(6) [OF assms(2) that] by (simp add: seq_valid_def)
    then show ?thesis using same(3) [OF nat] m4 that by (simp add: placed_upto_def)
  qed
  show "tail_of m' x = tail_of m3 x" if "seq_valid m1 x" "\<And>s. s < u_n_seqs u \<Longrightarrow> x \<notin> set (ids_of u s)"
  proof -
    have "seq_valid m3 x" using that(1) size by (simp add: seq_valid_def)
    then show ?thesis using same(3) [OF nat [OF that(1)]] m4 that(2) by (simp add: placed_upto_def)
  qed
  show "i < r_size m1 \<Longrightarrow> src_at m' i = (if i \<in> {a..<a + w} then int i else src_at m3 i)" using c [of i] src4 [of i] by simp
  show "a \<le> i \<Longrightarrow> i < a + w \<Longrightarrow> mc_src0 (r_cells m' ! i) = (if src_at m3 i < 0 then r_rs_z m' else src_at m3 i)"
    using c [of i] src4 [of i] w(2) by simp
qed

text \<open>Where the sequences outside the micro-batch are: in cells that it does not occupy.\<close>

lemma other_tail:
  assumes s: "searched zero rows u m1 m3 a w m'" and u: "rs_batch (r_size m1) u"
    and x: "seq_valid m1 x" "\<And>s. s < u_n_seqs u \<Longrightarrow> x \<notin> set (ids_of u s)" "tail_of m3 x \<noteq> -1"
  obtains t where "tail_of m3 x = int t" "t < r_size m1" "t \<notin> {a..<a + u_n_seqs u}" "x \<in> seqs_at m3 t"
proof -
  note D = searchedD [OF s u]
  note d = tails_okD [OF carriesD(1) [OF D(1)]]
  have v: "seq_valid m3 x" using x(1) D(2) by (simp add: seq_valid_def)
  have notR: "x \<notin> lead u ` {..<u_n_seqs u}" using x(2) lead_in [OF u] by blast
  have t: "0 \<le> tail_of m3 x" "tail_of m3 x < int (r_size m3)" "x \<in> seqs_at m3 (nat (tail_of m3 x))"
    using d(5) [OF v x(3)] notR by blast+
  have "nat (tail_of m3 x) \<noteq> a + s" if sN: "s < u_n_seqs u" for s
  proof
    assume e: "nat (tail_of m3 x) = a + s"
    have "seqs_at m3 (a + s) \<subseteq> {lead u s}" using carriesD(5) [OF D(1), of "lead u s"] D(3) [OF sN] sN by (simp del: of_nat_add)
    then have "x = lead u s" using t(3) e by auto
    then show False using notR sN by blast
  qed
  then have "nat (tail_of m3 x) \<notin> {a..<a + u_n_seqs u}"
    by (metis atLeastLessThan_iff le_add_diff_inverse nat_add_left_cancel_less)
  moreover have "tail_of m3 x = int (nat (tail_of m3 x))" "nat (tail_of m3 x) < r_size m1" using t D(2) by auto
  ultimately show ?thesis using that t(3) by blast
qed

lemma searched_tails:
  assumes s: "searched zero rows u m1 m3 a w m'" and u: "rs_batch (r_size m1) u" and sec: "\<And>x. x \<in> seconds u \<Longrightarrow> tail_of m1 x = -1"
  shows "tails_ok {} m'"
proof -
  note D = searchedD [OF s u]
  note d = tails_okD [OF carriesD(1) [OF D(1)]]
  have valid: "seq_valid m' x \<longleftrightarrow> seq_valid m1 x" "seq_valid m3 x \<longleftrightarrow> seq_valid m1 x" for x using D(2,6) by (simp_all add: seq_valid_def)
  have ids: "seq_valid m1 x" if "r < u_n_seqs u" "x \<in> set (ids_of u r)" for r x
    using rs_batchD(6) [OF u that] by (simp add: seq_valid_def)
  have in_slot: "\<exists>r < u_n_seqs u. i = a + r" if "i \<in> {a..<a + u_n_seqs u}" for i
    using that by (intro exI [of _ "i - a"]) auto
  text \<open>A sequence of the micro-batch is in no cell outside its slot.\<close>
  have left: "x \<notin> set (ids_of u r)" if i: "i < r_size m1" "i \<notin> {a..<a + u_n_seqs u}" "x \<in> seqs_at m3 i" "r < u_n_seqs u" for x i r
  proof
    assume xr: "x \<in> set (ids_of u r)"
    have t: "tail_of m3 x = int i" using d(4) [of i x] i D(2) by simp
    show False
    proof (cases "x = lead u r")
      case True
      then show False using D(3) [OF i(4)] t i(2,4) by auto
    next
      case False
      then have "x \<in> set (tl (ids_of u r))" using xr by (cases "ids_of u r") (auto simp: lead_def)
      then have "tail_of m1 x = -1" using sec i(4) by (auto simp: seconds_def)
      moreover have "x \<notin> lead u ` {..<u_n_seqs u}"
        using False xr rs_batchD(8) [OF u i(4)] lead_in [OF u] by (metis imageE lessThan_iff)
      ultimately have "tail_of m3 x = -1" using carriesD(9) [OF D(1), of x] ids [OF i(4) xr] valid by blast
      then show False using t by simp
    qed
  qed
  show ?thesis
  proof (rule tails_ok_restI)
    show "length (r_cells m') = r_size m'" "0 < r_size m'" "r_size m' < 2147483648" using D(2,6,12) d(2,3) by simp_all
  next
    fix i x assume i: "i < r_size m'" "x \<in> seqs_at m' i"
    show "seq_valid m' x \<and> tail_of m' x = int i"
    proof (cases "i \<in> {a..<a + u_n_seqs u}")
      case True
      then obtain r where r: "r < u_n_seqs u" "i = a + r" using in_slot by blast
      then show ?thesis using i(2) D(16) [OF r(1)] D(18) [OF r(1), of x] ids [OF r(1)] valid by auto
    next
      case False
      then have x: "x \<in> seqs_at m3 i" using i D(6,17) by simp
      then have "seq_valid m1 x" "tail_of m3 x = int i" using d(4) [of i x] i(1) D(2,6) valid by auto
      then show ?thesis using D(19) [of x] left [of i x] False i(1) x D(6) valid by simp
    qed
  next
    fix x assume x: "seq_valid m' x"
    show "tail_of m' x = -1 \<or> (\<exists>t < r_size m'. tail_of m' x = int t \<and> x \<in> seqs_at m' t)"
    proof (cases "\<exists>r < u_n_seqs u. x \<in> set (ids_of u r)")
      case True
      then obtain r where r: "r < u_n_seqs u" "x \<in> set (ids_of u r)" by blast
      then show ?thesis using D(16) [OF r(1)] D(18) [OF r] D(4,5,6) by (intro disjI2 exI [of _ "a + r"]) simp
    next
      case False
      then have e: "tail_of m' x = tail_of m3 x" using D(19) x valid by blast
      show ?thesis
      proof (cases "tail_of m3 x = -1")
        case nn: False
        obtain t where "tail_of m3 x = int t" "t < r_size m1" "t \<notin> {a..<a + u_n_seqs u}" "x \<in> seqs_at m3 t"
          using other_tail [OF s u _ _ nn] x valid False by blast
        then show ?thesis using e D(6,17) by auto
      qed (use e in simp)
    qed
  next
    fix i assume i: "i < r_size m'" "seqs_at m' i = {}"
    then have "i \<notin> {a..<a + u_n_seqs u}" using in_slot [of i] D(16) rs_batchD(5) [OF u] by auto
    then show "pos_at m' i = -1" using i D(2,6) D(17) [of i] d(7) [of i] by simp
  next
    fix i assume i: "i < r_size m'" "seqs_at m' i \<noteq> {}"
    show "0 \<le> pos_at m' i \<and> pos_at m' i < INT32_MAX"
    proof (cases "i \<in> {a..<a + u_n_seqs u}")
      case True
      then obtain r where r: "r < u_n_seqs u" "i = a + r" using in_slot by blast
      then show ?thesis using D(16) [OF r(1)] rs_batchD(7) [OF u r(1)] by simp
    next
      case False
      then show ?thesis using i D(2,6) D(17) [of i] d(8) [of i] by simp
    qed
  qed
qed

lemma searched_inv:
  assumes s: "searched zero rows u m1 m3 a w m'" and u: "rs_batch (r_size m1) u" and inv: "rs_inv m1"
    and sec: "\<And>x. x \<in> seconds u \<Longrightarrow> tail_of m1 x = -1"
  shows "rs_inv m'"
proof -
  note D = searchedD [OF s u]
  have "src_ok m' i" if i: "i < r_size m'" for i
  proof (cases "i \<in> {a..<a + w}")
    case True
    then show ?thesis using D(20) [of i] i D(6) by (simp add: src_ok_def)
  next
    case False
    then have n: "i \<notin> {a..<a + u_n_seqs u}" using D(4) by auto
    have "src_at m3 i = src_at m1 i \<and> seqs_at m3 i \<subseteq> seqs_at m1 i" using carriesD(10) [OF D(1), of i] False i D(2,6) by simp
    then show ?thesis using rs_invD(5) [OF inv, of i] D(20) [of i] D(17) [OF _ n] False i D(6) by (auto simp: src_ok_def)
  qed
  moreover have "a < r_size m'" using D(4-6) rs_batchD(2) [OF u] by simp
  ultimately show ?thesis using searched_tails [OF s u sec] D(9,11) by (simp add: rs_inv_def)
qed

section \<open>The states in the graph\<close>

lemma get_rows_map:
  "(\<And>i. i \<in> set is \<Longrightarrow> 0 \<le> f i \<and> nat (f i) < length states \<and> states ! nat (f i) = g i) \<Longrightarrow> get_rows states (map f is) = Some (map g is)"
  unfolding get_rows_def map_map by (rule those_map_Some) (simp add: nth_opt_def not_less)

lemma searched_copy:
  assumes s: "searched zero rows u m1 m3 a w m'" and u: "rs_batch (r_size m1) u"
  shows "set_input_s_copy w m' = Some (map (\<lambda>i. mc_src0 (r_cells m' ! i)) [a..<a + w])"
proof -
  note D = searchedD [OF s u]
  have "set_input_s_copy w m' = Some (map (\<lambda>i. mc_src0 (r_cells m' ! (i + a))) [0..<w])"
    unfolding set_input_s_copy_def using D(5,9,12) by (intro those_map_Some) (simp add: s_copy_def)
  also have "map (\<lambda>i. mc_src0 (r_cells m' ! (i + a))) [0..<w] = map (\<lambda>i. mc_src0 (r_cells m' ! i)) [a..<a + w]"
    by (rule nth_equalityI) (simp_all add: add.commute)
  finally show ?thesis .
qed

text \<open>The gathered states are those the sources lead to; the rest of the slot is copied to its place.\<close>

lemma searched_build:
  assumes s: "searched zero rows u m1 m3 a w m'" and u: "rs_batch (r_size m1) u" and len: "length rows = r_size m1"
  defines "n \<equiv> u_n_seqs u"
  obtains rows1 where "build_rs zero (map (\<lambda>i. mc_src0 (r_cells m' ! i)) [a..<a + w]) n a (r_rs_z m') rows
      = Some (map (src_val zero rows m3) [a..<a + n], rows1)"
    "length rows1 = r_size m1" "\<And>i. a + n \<le> i \<Longrightarrow> i < a + w \<Longrightarrow> rows1 ! i = src_val zero rows m3 i"
    "\<And>i. i < r_size m1 \<Longrightarrow> i \<notin> {a..<a + w} \<Longrightarrow> rows1 ! i = rows ! i"
proof -
  note D = searchedD [OF s u]
  have nw: "n \<le> w" "a + w \<le> r_size m1" using D(4,5) by (simp_all add: n_def)
  let ?z = "r_rs_z m'"
  define st where "st = (if ?z \<ge> 0 then rows[nat ?z := zero] else rows)"
  have stl: "length st = r_size m1" using len by (simp add: st_def)
  have zl: "?z \<ge> 0 \<Longrightarrow> nat ?z < r_size m1 \<and> nat ?z \<in> {a..<a + w}" using D(13) nw(2) by auto
  have st1: "(if ?z \<ge> 0 then do { ensure (nat ?z < length rows); Some (rows[nat ?z := zero]) } else Some rows) = Some st"
    using zl len by (simp add: st_def)
  let ?f = "\<lambda>i. mc_src0 (r_cells m' ! i)"
  have val: "0 \<le> ?f i \<and> nat (?f i) < length st \<and> st ! nat (?f i) = src_val zero rows m3 i" if i: "a \<le> i" "i < a + w" for i
  proof (cases "src_at m3 i < 0")
    case True
    then have "0 \<le> ?z" "?f i = ?z" using D(15) [OF i] D(21) [OF i] by simp_all
    then show ?thesis using zl len True by (simp add: st_def src_val_def)
  next
    case False
    have i': "i < r_size m1" using i(2) nw(2) by simp
    have "src_at m3 i < int (r_size m1)" using carriesD(6) [OF D(1), of i] i' D(2) by simp
    moreover have "?f i = src_at m3 i" using False D(21) [OF i] by simp
    moreover have "0 \<le> ?z \<Longrightarrow> nat ?z \<noteq> nat (src_at m3 i)" using D(14) [OF i'] False by (simp add: eq_nat_nat_iff)
    ultimately show ?thesis using False len stl by (auto simp: st_def src_val_def)
  qed
  have split: "take n (map ?f [a..<a + w]) = map ?f [a..<a + n]" "drop n (map ?f [a..<a + w]) = map ?f [a + n..<a + w]"
    using nw(1) by (simp_all add: take_map drop_map)
  have main: "get_rows st (map ?f [a..<a + n]) = Some (map (src_val zero rows m3) [a..<a + n])"
    using val nw(1) by (intro get_rows_map) auto
  have extra: "get_rows st (map ?f [a + n..<a + w]) = Some (map (src_val zero rows m3) [a + n..<a + w])"
    using val by (intro get_rows_map) auto
  define rows1 where "rows1 = take (a + n) st @ map (src_val zero rows m3) [a + n..<a + w] @ drop (a + w) st"
  have "build_rs zero (map ?f [a..<a + w]) n a ?z rows = Some (map (src_val zero rows m3) [a..<a + n], rows1)"
    unfolding build_rs_def st1 using nw len main extra split by (simp add: rows1_def)
  moreover have "length rows1 = r_size m1" using nw stl by (simp add: rows1_def)
  moreover have "rows1 ! i = src_val zero rows m3 i" if "a + n \<le> i" "i < a + w" for i
  proof -
    have "i - (a + n) < w - n" using that by linarith
    then show ?thesis using that nw stl by (simp add: rows1_def nth_append min_def)
  qed
  moreover have "rows1 ! i = rows ! i" if "i < r_size m1" "i \<notin> {a..<a + w}" for i
  proof -
    have "rows1 ! i = st ! i" using that nw stl by (auto simp: rows1_def nth_append min_def not_less)
    moreover have "?z \<ge> 0 \<Longrightarrow> nat ?z \<noteq> i" using zl that(2) by auto
    ultimately show ?thesis by (auto simp: st_def)
  qed
  ultimately show ?thesis using that by blast
qed

lemma store_states_nth:
  assumes "a + length new \<le> length rows"
  obtains rows2 where "store_states a new rows = Some rows2" "length rows2 = length rows"
    "\<And>i. i < length new \<Longrightarrow> rows2 ! (a + i) = new ! i" "\<And>i. i < length rows \<Longrightarrow> i \<notin> {a..<a + length new} \<Longrightarrow> rows2 ! i = rows ! i"
proof -
  define rows2 where "rows2 = take a rows @ new @ drop (a + length new) rows"
  have "store_states a new rows = Some rows2" using assms by (simp add: store_states_def rows2_def)
  moreover have "length rows2 = length rows" using assms by (simp add: rows2_def)
  moreover have "rows2 ! (a + i) = new ! i" if "i < length new" for i using assms that by (simp add: rows2_def nth_append min_def)
  moreover have "rows2 ! i = rows ! i" if "i < length rows" "i \<notin> {a..<a + length new}" for i
    using assms that by (auto simp: rows2_def nth_append min_def not_less)
  ultimately show ?thesis using that by blast
qed

definition in_batch :: "llama_ubatch \<Rightarrow> int \<Rightarrow> bool" where
  "in_batch u q \<longleftrightarrow> (\<exists>s < u_n_seqs u. q \<in> set (ids_of u s))"

text \<open>One micro-batch on the abstract map: \<open>f\<close> makes the new states from the old ones.\<close>

definition batch_effect ::
  "'s \<Rightarrow> ('s list \<Rightarrow> 's list) \<Rightarrow> llama_ubatch \<Rightarrow> (int \<Rightarrow> (int \<times> 's) option) \<Rightarrow> (int \<Rightarrow> (int \<times> 's) option) \<Rightarrow> bool" where
  "batch_effect zero f u old new \<longleftrightarrow>
     (\<forall>s < u_n_seqs u. \<forall>q \<in> set (ids_of u s).
        new q = Some (last_pos u s, f (map (\<lambda>s. snd (old_state zero (old (lead u s)))) [0..<u_n_seqs u]) ! s))
     \<and> (\<forall>q. \<not> in_batch u q \<longrightarrow> new q = old q)"

lemma compute_spec:
  assumes inv: "rs_inv m" and rows: "rows_ok zero m rows" and u: "rs_batch (r_size m) u" and f: "\<And>xs. length (f xs) = length xs"
  obtains states m' rows' where "rs_compute zero f u (m, rows) = Some (True, states, m', rows')"
    "rs_inv m'" "rows_ok zero m' rows'" "r_size m' = r_size m" "r_hparams m' = r_hparams m" "r_layers m' = r_layers m"
    "batch_effect zero f u (states_of m rows) (states_of m' rows')"
proof -
  obtain m1 m3 a w m' where slot: "rs_find_slot u m = Some (True, m')" and m1: "rs_inv m1" "rows_ok zero m1 rows" "r_size m1 = r_size m"
      "states_of m1 rows = (\<lambda>x. if x \<in> seconds u then None else states_of m rows x)" "\<forall>x. x \<in> seconds u \<longrightarrow> tail_of m1 x = -1"
      "r_hparams m1 = r_hparams m" "r_layers m1 = r_layers m"
    and s: "searched zero rows u m1 m3 a w m'"
    by (rule find_slot_searched [OF inv rows u])
  have u1: "rs_batch (r_size m1) u" using u m1(3) by simp
  note D = searchedD [OF s u1]
  let ?n = "u_n_seqs u"
  have len: "length rows = r_size m1" using m1(2) by (simp add: rows_ok_def)
  have an: "a + ?n \<le> r_size m1" using D(4,5) by simp
  obtain rows1 where b: "build_rs zero (map (\<lambda>i. mc_src0 (r_cells m' ! i)) [a..<a + w]) ?n a (r_rs_z m') rows
      = Some (map (src_val zero rows m3) [a..<a + ?n], rows1)"
    "length rows1 = r_size m1" "\<And>i. a + ?n \<le> i \<Longrightarrow> i < a + w \<Longrightarrow> rows1 ! i = src_val zero rows m3 i"
    "\<And>i. i < r_size m1 \<Longrightarrow> i \<notin> {a..<a + w} \<Longrightarrow> rows1 ! i = rows ! i"
    by (rule searched_build [OF s u1 len]) (rule that)
  define states where "states = map (src_val zero rows m3) [a..<a + ?n]"
  have fl: "length (f states) = ?n" using f by (simp add: states_def)
  obtain rows2 where r2: "store_states a (f states) rows1 = Some rows2" "length rows2 = r_size m1"
      "\<And>i. i < ?n \<Longrightarrow> rows2 ! (a + i) = f states ! i" "\<And>i. i < r_size m1 \<Longrightarrow> i \<notin> {a..<a + ?n} \<Longrightarrow> rows2 ! i = rows1 ! i"
    by (rule store_states_nth [of a "f states" rows1]) (use an b(2) fl in simp_all)
  have run: "rs_compute zero f u (m, rows) = Some (True, states, m', rows2)"
    using slot searched_copy [OF s u1] b(1) r2(1) D(9,10) by (simp add: rs_compute_def states_def)
  have sec: "\<And>x. x \<in> seconds u \<Longrightarrow> tail_of m1 x = -1" using m1(5) by blast
  have inv': "rs_inv m'" using searched_inv [OF s u1 m1(1) sec] .
  have valid: "seq_valid m' x \<longleftrightarrow> seq_valid m1 x" "seq_valid m3 x \<longleftrightarrow> seq_valid m1 x" "seq_valid m x \<longleftrightarrow> seq_valid m1 x" for x
    using D(2,6) m1(3) by (simp_all add: seq_valid_def)
  text \<open>Rows outside the part of the slot that is written.\<close>
  have row: "rows2 ! i = src_val zero rows m3 i" if i: "i < r_size m1" "i \<notin> {a..<a + ?n}" "src_at m3 i \<ge> 0 \<or> i \<in> {a..<a + w}" for i
  proof (cases "i \<in> {a..<a + w}")
    case True
    then show ?thesis using r2(4) [OF i(1,2)] b(3) [of i] i(2) by auto
  next
    case False
    have "src_at m3 i = src_at m1 i" using carriesD(10) [OF D(1), of i] i(1) False D(2) by simp
    then have "src_at m3 i = int i" using rs_invD(5) [OF m1(1) i(1)] i(3) False by auto
    then show ?thesis using r2(4) [OF i(1,2)] b(4) [OF i(1) False] by (simp add: src_val_def)
  qed
  have empty_row: "rows2 ! i = zero" if i: "i < r_size m'" "seqs_at m' i = {}" "src_at m' i \<ge> 0" for i
  proof -
    have ni: "i \<notin> {a..<a + ?n}"
    proof
      assume "i \<in> {a..<a + ?n}"
      then have "i = a + (i - a)" "i - a < ?n" by auto
      then have "seqs_at m' i = set (ids_of u (i - a))" using D(16) by metis
      then show False using i(2) rs_batchD(5) [OF u1 \<open>i - a < ?n\<close>] by simp
    qed
    have e3: "seqs_at m3 i = {}" using D(17) [OF _ ni] i D(6) by simp
    have "src_at m3 i \<ge> 0 \<or> i \<in> {a..<a + w}" using D(20) [of i] i D(6) by (auto split: if_splits)
    then show ?thesis using row [OF _ ni] carriesD(7) [OF D(1) _ e3] i(1) D(2,6) by simp
  qed
  then have rows': "rows_ok zero m' rows2" using r2(2) D(6) by (simp add: rows_ok_def)
  have old_lead: "states_of m1 rows (lead u r) = states_of m rows (lead u r)" if "r < ?n" for r
  proof -
    have "lead u r \<notin> seconds u"
    proof
      assume "lead u r \<in> seconds u"
      then obtain r' where r': "r' < ?n" "lead u r \<in> set (tl (ids_of u r'))" by (auto simp: seconds_def)
      then have "lead u r \<in> set (ids_of u r')" by (cases "ids_of u r'") auto
      then have "r' = r" using rs_batchD(8) [OF u \<open>r' < ?n\<close> that] lead_in [OF u that] by blast
      then show False using r'(2) rs_batchD(5) [OF u that] by (cases "ids_of u r") (auto simp: lead_def)
    qed
    then show ?thesis using m1(4) by simp
  qed
  have states: "states = map (\<lambda>r. snd (old_state zero (states_of m rows (lead u r)))) [0..<?n]"
  proof (rule nth_equalityI)
    fix r assume "r < length states"
    then have r: "r < ?n" by (simp add: states_def)
    have l: "seq_valid m3 (lead u r)" using carriesD(5) [OF D(1), of "lead u r"] r by blast
    have "src_val zero rows m3 (a + r) = snd (old_state zero (states_of m1 rows (lead u r)))"
      using carriesD(8) [OF D(1) l] D(3) [OF r] by (simp del: of_nat_add) (metis snd_conv)
    then show "states ! r = map (\<lambda>r. snd (old_state zero (states_of m rows (lead u r)))) [0..<?n] ! r"
      using r old_lead [OF r] by (simp add: states_def)
  qed (simp add: states_def)
  have "states_of m' rows2 q = Some (last_pos u r, f states ! r)" if r: "r < ?n" "q \<in> set (ids_of u r)" for r q
  proof -
    have "seq_valid m1 q" using rs_batchD(6) [OF u1 r] by (simp add: seq_valid_def)
    then show ?thesis using D(16) [OF r(1)] D(18) [OF r] r2(3) [OF r(1)] valid by (simp add: states_of_def del: of_nat_add)
  qed
  moreover have "states_of m' rows2 q = states_of m rows q" if q: "\<not> in_batch u q" for q
  proof (cases "seq_valid m1 q")
    case v: True
    have out: "\<And>r. r < ?n \<Longrightarrow> q \<notin> set (ids_of u r)" using q by (auto simp: in_batch_def)
    have qs: "q \<notin> seconds u"
    proof
      assume "q \<in> seconds u"
      then obtain r where "r < ?n" "q \<in> set (tl (ids_of u r))" by (auto simp: seconds_def)
      then show False using out [of r] by (cases "ids_of u r") auto
    qed
    have t: "tail_of m' q = tail_of m3 q" using D(19) [OF v out] .
    have s1: "states_of m1 rows q = states_of m rows q" using qs m1(4) by simp
    show ?thesis
    proof (cases "tail_of m3 q = -1")
      case True
      then have "tail_of m1 q = -1" using carriesD(9) [OF D(1), of q] v valid by blast
      then show ?thesis using s1 True t by (simp add: states_of_def)
    next
      case False
      obtain i where i: "tail_of m3 q = int i" "i < r_size m1" "i \<notin> {a..<a + ?n}" "q \<in> seqs_at m3 i"
        using other_tail [OF s u1 v out False] by blast
      have old: "(pos_at m3 i, src_val zero rows m3 i) = old_state zero (states_of m1 rows q)"
        using carriesD(8) [OF D(1), of q] v valid i(1) by simp
      have "src_at m3 i \<ge> 0 \<or> i \<in> {a..<a + w}"
      proof (rule ccontr)
        assume "\<not> ?thesis"
        then have "i \<notin> {a..<a + w}" "src_at m3 i < 0" by auto
        then have "src_at m1 i < 0" "q \<in> seqs_at m1 i" using carriesD(10) [OF D(1), of i] i(2,4) D(2) by auto
        then show False using rs_invD(5) [OF m1(1) i(2)] by auto
      qed
      then have new: "states_of m' rows2 q = Some (old_state zero (states_of m1 rows q))"
        using old row [OF i(2,3)] t i(1) v valid D(17) [OF i(2,3)] by (simp add: states_of_def)
      have "q \<notin> lead u ` {..<?n}" using out lead_in [OF u1] by blast
      then have "tail_of m1 q \<noteq> -1"
        using carriesD(9) [OF D(1), of q] v valid False by blast
      then have "states_of m1 rows q \<noteq> None"
        using tails_okD(5) [OF rs_invD(1) [OF m1(1)] v] v by (auto simp: states_of_def)
      then show ?thesis using new s1 by (auto simp: old_state_def)
    qed
  next
    case False
    then show ?thesis using valid by (simp add: states_of_def)
  qed
  ultimately have "batch_effect zero f u (states_of m rows) (states_of m' rows2)" using states by (simp add: batch_effect_def)
  then show ?thesis using that [OF run inv' rows'] D(6-8) m1(3,6,7) by simp
qed

end
