(* ===== verification/Recurrent_Run.thy ===== *)
theory Recurrent_Run
  imports Recurrent_States Hparams
begin

text \<open>
  Runs of the recurrent memory: every operation refines one on the map from sequences to positions and
  states.
\<close>

section \<open>Operations\<close>

datatype 's rs_op =
    Op_rm int int int
  | Op_cp int int int int
  | Op_keep int
  | Op_add int int int int
  | Op_div int int int int
  | Op_clear
  | Op_batch llama_ubatch "'s list \<Rightarrow> 's list"

fun rs_run :: "'s \<Rightarrow> 's rs_op \<Rightarrow> memory_recurrent \<times> 's list \<Rightarrow> (memory_recurrent \<times> 's list) option" where
  "rs_run zero (Op_rm q p0 p1) (m, rows) = map_option (\<lambda>(_, m'). (m', rows)) (rs_seq_rm q p0 p1 m)"
| "rs_run zero (Op_cp src dst p0 p1) (m, rows) = map_option (\<lambda>m'. (m', rows)) (rs_seq_cp src dst p0 p1 m)"
| "rs_run zero (Op_keep q) (m, rows) = map_option (\<lambda>m'. (m', rows)) (rs_seq_keep q m)"
| "rs_run zero (Op_add q p0 p1 d) (m, rows) = map_option (\<lambda>m'. (m', rows)) (rs_seq_add q p0 p1 d m)"
| "rs_run zero (Op_div q p0 p1 d) (m, rows) = map_option (\<lambda>m'. (m', rows)) (rs_seq_div q p0 p1 d m)"
| "rs_run zero Op_clear (m, rows) = map_option (\<lambda>m'. (m', rows)) (rs_clear m)"
| "rs_run zero (Op_batch u f) (m, rows) = map_option (\<lambda>(_, _, m', rows'). (m', rows')) (rs_compute zero f u (m, rows))"

text \<open>Valid arguments: sequences below the number of cells, and positions that stay in range.\<close>

fun op_pre :: "nat \<Rightarrow> 's rs_op \<Rightarrow> (int \<Rightarrow> (int \<times> 's) option) \<Rightarrow> bool" where
  "op_pre n (Op_rm q p0 p1) old \<longleftrightarrow> 0 \<le> q \<and> q < int n"
| "op_pre n (Op_cp src dst p0 p1) old \<longleftrightarrow> 0 \<le> src \<and> src < int n \<and> 0 \<le> dst \<and> dst < int n"
| "op_pre n (Op_keep q) old \<longleftrightarrow> True"
| "op_pre n (Op_add q p0 p1 d) old \<longleftrightarrow> 0 \<le> q \<and> q < int n
     \<and> (case old q of None \<Rightarrow> True | Some (p, _) \<Rightarrow> range_lo p0 \<le> p \<longrightarrow> p < range_hi p1 \<longrightarrow> 0 \<le> p + d \<and> p + d < INT32_MAX)"
| "op_pre n (Op_div q p0 p1 d) old \<longleftrightarrow> 0 \<le> q \<and> q < int n \<and> 0 < d"
| "op_pre n Op_clear old \<longleftrightarrow> True"
| "op_pre n (Op_batch u f) old \<longleftrightarrow> rs_batch n u \<and> (\<forall>xs. length (f xs) = length xs)"

text \<open>
  What an operation does to the map. Shifting the position of a sequence may shift the positions of
  sequences that share its state.
\<close>

definition shift_effect :: "int \<Rightarrow> int \<Rightarrow> int \<Rightarrow> (int \<Rightarrow> int) \<Rightarrow> (int \<Rightarrow> (int \<times> 's) option) \<Rightarrow> (int \<Rightarrow> (int \<times> 's) option) \<Rightarrow> bool" where
  "shift_effect q p0 p1 g old new \<longleftrightarrow> new q = move_state (range_lo p0) (range_hi p1) g (old q)
     \<and> (\<forall>x. new x = old x \<or> (old x = old q \<and> new x = new q))"

fun op_spec :: "'s \<Rightarrow> 's rs_op \<Rightarrow> (int \<Rightarrow> (int \<times> 's) option) \<Rightarrow> (int \<Rightarrow> (int \<times> 's) option) \<Rightarrow> bool" where
  "op_spec zero (Op_rm q p0 p1) old new \<longleftrightarrow> new = rm_effect q p0 p1 old"
| "op_spec zero (Op_cp src dst p0 p1) old new \<longleftrightarrow> new = old(dst := old src)"
| "op_spec zero (Op_keep q) old new \<longleftrightarrow> new = (\<lambda>x. if x = q then old x else None)"
| "op_spec zero (Op_add q p0 p1 d) old new \<longleftrightarrow> shift_effect q p0 p1 (\<lambda>p. p + d) old new"
| "op_spec zero (Op_div q p0 p1 d) old new \<longleftrightarrow> shift_effect q p0 p1 (\<lambda>p. p div d) old new"
| "op_spec zero Op_clear old new \<longleftrightarrow> new = (\<lambda>_. None)"
| "op_spec zero (Op_batch u f) old new \<longleftrightarrow> batch_effect zero f u old new"

definition rs_good :: "'s \<Rightarrow> memory_recurrent \<times> 's list \<Rightarrow> bool" where
  "rs_good zero s \<longleftrightarrow> rs_inv (fst s) \<and> rows_ok zero (fst s) (snd s)"

section \<open>Every operation refines its specification\<close>

definition refines_at :: "'s \<Rightarrow> 's rs_op \<Rightarrow> memory_recurrent \<times> 's list \<Rightarrow> bool" where
  "refines_at zero oper s \<longleftrightarrow> (\<exists>m' rows'. rs_run zero oper s = Some (m', rows') \<and> rs_good zero (m', rows') \<and> r_size m' = r_size (fst s)
     \<and> op_spec zero oper (states_of (fst s) (snd s)) (states_of m' rows'))"

lemma refines_step:
  assumes "rs_good zero (m, rows)" "steps_to zero m m' eff" "rs_run zero oper (m, rows) = Some (m', rows)"
    and "op_spec zero oper (states_of m rows) (eff (states_of m rows))"
  shows "refines_at zero oper (m, rows)"
  using assms by (simp add: refines_at_def rs_good_def steps_to_def)

lemma shift_refines:
  assumes good: "rs_good zero (m, rows)" and q: "seq_valid m q"
    and run: "\<And>r. rs_run zero oper (m, r) = map_option (\<lambda>m'. (m', r)) (on_tail_pos q (range_lo p0) (range_hi p1) f m)"
    and spec: "\<And>old new. shift_effect q p0 p1 g old new \<Longrightarrow> op_spec zero oper old new"
    and f: "\<And>p x. states_of m rows q = Some (p, x) \<Longrightarrow> 0 \<le> p \<Longrightarrow> range_lo p0 \<le> p \<Longrightarrow> p < range_hi p1 \<Longrightarrow> p < INT32_MAX
       \<Longrightarrow> f p = Some (g p) \<and> 0 \<le> g p \<and> g p < INT32_MAX"
  shows "refines_at zero oper (m, rows)"
proof (cases "range_lo p0 = range_hi p1")
  case True
  have "steps_to zero m m (\<lambda>s. s)" using good by (intro steps_to_refl) (simp_all add: rs_good_def)
  moreover have "op_spec zero oper (states_of m rows) (states_of m rows)"
    using True by (intro spec, cases "states_of m rows q") (auto simp: shift_effect_def)
  ultimately show ?thesis using True run by (intro refines_step [OF good]) (simp_all add: on_tail_pos_def)
next
  case False
  have inv: "rs_inv m" using good by (simp add: rs_good_def)
  note d = tails_okD [OF rs_invD(1) [OF inv]]
  have old: "states_of m rows q = Some (pos_at m t, rows ! t)" if "tail_of m q = int t" for t
    using that q by (simp add: states_of_def)
  have fg: "f (pos_at m t) = Some (g (pos_at m t)) \<and> 0 \<le> g (pos_at m t) \<and> g (pos_at m t) < INT32_MAX"
    if t: "tail_of m q = int t" "range_lo p0 \<le> pos_at m t" "pos_at m t < range_hi p1" for t
  proof -
    have "t < r_size m" "seqs_at m t \<noteq> {}" using d(5) [OF q] t(1) by auto
    then have "0 \<le> pos_at m t \<and> pos_at m t < INT32_MAX" using d(8) by blast
    then show ?thesis using f [OF old [OF t(1)]] t(2,3) by blast
  qed
  obtain m' where m': "on_tail_pos q (range_lo p0) (range_hi p1) f m = Some m'"
    "steps_to zero m m' (\<lambda>s x. if x \<in> sharers m q then move_state (range_lo p0) (range_hi p1) g (s x) else s x)"
    by (rule on_tail_pos_spec [OF inv q False, of f g]) (rule fg)
  have none: "states_of m rows q = None" if "q \<notin> sharers m q" using that q by (auto simp: sharers_def states_of_def)
  have share: "states_of m rows x = states_of m rows q" if "x \<in> sharers m q" for x
    using that q by (auto simp: sharers_def states_of_def)
  have qs: "x \<in> sharers m q \<Longrightarrow> q \<in> sharers m q" for x using q by (auto simp: sharers_def)
  show ?thesis
  proof (rule refines_step [OF good m'(2)])
    show "op_spec zero oper (states_of m rows) (\<lambda>x. if x \<in> sharers m q then move_state (range_lo p0) (range_hi p1) g (states_of m rows x) else states_of m rows x)"
    proof (rule spec)
      show "shift_effect q p0 p1 g (states_of m rows)
          (\<lambda>x. if x \<in> sharers m q then move_state (range_lo p0) (range_hi p1) g (states_of m rows x) else states_of m rows x)"
        unfolding shift_effect_def
      proof (intro conjI allI)
        show "(if q \<in> sharers m q then move_state (range_lo p0) (range_hi p1) g (states_of m rows q) else states_of m rows q)
            = move_state (range_lo p0) (range_hi p1) g (states_of m rows q)"
          by (cases "q \<in> sharers m q") (simp_all add: none)
      next
        fix x
        let ?new = "\<lambda>x. if x \<in> sharers m q then move_state (range_lo p0) (range_hi p1) g (states_of m rows x) else states_of m rows x"
        show "?new x = states_of m rows x \<or> (states_of m rows x = states_of m rows q \<and> ?new x = ?new q)"
        proof (cases "x \<in> sharers m q")
          case True
          then show ?thesis using qs [OF True] by (simp add: share [OF True])
        qed simp
      qed
    qed
  qed (use run m'(1) in simp)
qed

lemma op_refines:
  assumes "rs_good zero (m, rows)" "op_pre (r_size m) oper (states_of m rows)"
  shows "refines_at zero oper (m, rows)"
proof -
  have inv: "rs_inv m" "rows_ok zero m rows" using assms(1) by (simp_all add: rs_good_def)
  show ?thesis
  proof (cases oper)
    case (Op_rm q p0 p1)
    then have "seq_valid m q" using assms(2) by (simp add: seq_valid_def)
    from seq_rm_spec [OF inv(1) this] obtain m' where
      "rs_seq_rm q p0 p1 m = Some (\<not> rm_refused p0 p1 (states_of m rows q), m')" "steps_to zero m m' (rm_effect q p0 p1)" .
    then show ?thesis using Op_rm by (intro refines_step [OF assms(1)]) auto
  next
    case (Op_cp src dst p0 p1)
    then have "seq_valid m src" "seq_valid m dst" using assms(2) by (simp_all add: seq_valid_def)
    from seq_cp_spec [OF inv(1) this] obtain m' where
      m': "rs_seq_cp src dst p0 p1 m = Some m'" "steps_to zero m m' (\<lambda>s. s(dst := s src))" .
    show ?thesis by (rule refines_step [OF assms(1) m'(2)]) (use Op_cp m'(1) in simp_all)
  next
    case (Op_keep q)
    from seq_keep_spec [OF inv(1)] obtain m' where
      "rs_seq_keep q m = Some m'" "steps_to zero m m' (\<lambda>s x. if x = q then s x else None)" .
    then show ?thesis using Op_keep by (intro refines_step [OF assms(1)]) auto
  next
    case (Op_add q p0 p1 d)
    have q: "seq_valid m q" using assms(2) Op_add by (simp add: seq_valid_def)
    show ?thesis
    proof (cases "d = 0")
      case True
      have "move_state lo hi (\<lambda>p. p) x = x" for lo hi and x :: "(int \<times> 'a) option" by (cases x) auto
      then have "op_spec zero oper old old" for old using Op_add True by (simp add: shift_effect_def)
      moreover have "steps_to zero m m (\<lambda>s. s)" using inv(1) by (intro steps_to_refl) simp_all
      ultimately show ?thesis using Op_add True by (intro refines_step [OF assms(1)]) (simp_all add: rs_seq_add_def)
    next
      case False
      show ?thesis
      proof (rule shift_refines [OF assms(1) q, where g = "\<lambda>p. p + d"])
        show "rs_run zero oper (m, r) = map_option (\<lambda>m'. (m', r)) (on_tail_pos q (range_lo p0) (range_hi p1) (\<lambda>p. add_i32 p d) m)" for r
          using Op_add False by (simp add: rs_seq_add_def)
        show "add_i32 p d = Some (p + d) \<and> 0 \<le> p + d \<and> p + d < INT32_MAX"
          if "states_of m rows q = Some (p, x)" "range_lo p0 \<le> p" "p < range_hi p1" for p x
          using assms(2) Op_add that by (auto simp: add_i32_def i32_defs)
      qed (use Op_add in simp)
    qed
  next
    case (Op_div q p0 p1 d)
    have q: "seq_valid m q" and d: "0 < d" using assms(2) Op_div by (simp_all add: seq_valid_def)
    show ?thesis
    proof (cases "d = 1")
      case True
      have "move_state lo hi (\<lambda>p. p) x = x" for lo hi and x :: "(int \<times> 'a) option" by (cases x) auto
      then have "op_spec zero oper old old" for old using Op_div True by (simp add: shift_effect_def)
      moreover have "steps_to zero m m (\<lambda>s. s)" using inv(1) by (intro steps_to_refl) simp_all
      ultimately show ?thesis using Op_div True by (intro refines_step [OF assms(1)]) (simp_all add: rs_seq_div_def)
    next
      case False
      show ?thesis
      proof (rule shift_refines [OF assms(1) q, where g = "\<lambda>p. p div d"])
        show "rs_run zero oper (m, r) = map_option (\<lambda>m'. (m', r))
            (on_tail_pos q (range_lo p0) (range_hi p1) (\<lambda>p. do { ensure (d \<noteq> 0); Some (tdiv p d) }) m)" for r
          using Op_div False by (simp add: rs_seq_div_def)
        show "Option.bind (ensure (d \<noteq> 0)) (\<lambda>_. Some (tdiv p d)) = Some (p div d) \<and> 0 \<le> p div d \<and> p div d < INT32_MAX"
          if "0 \<le> p" "p < INT32_MAX" for p
          using that d tdiv_pos [OF that(1) d] tdiv_bounds [OF that(1) d] by simp
      qed (use Op_div in simp)
    qed
  next
    case Op_clear
    from clear_spec [OF inv(1)] obtain m' where "rs_clear m = Some m'" "steps_to zero m m' (\<lambda>_ _. None)" .
    then show ?thesis using Op_clear by (intro refines_step [OF assms(1)]) auto
  next
    case (Op_batch u f)
    have u: "rs_batch (r_size m) u" "\<And>xs. length (f xs) = length xs" using assms(2) Op_batch by simp_all
    obtain states m' rows' where "rs_compute zero f u (m, rows) = Some (True, states, m', rows')"
      "rs_inv m'" "rows_ok zero m' rows'" "r_size m' = r_size m" "batch_effect zero f u (states_of m rows) (states_of m' rows')"
      using compute_spec [OF inv u] by metis
    then show ?thesis using Op_batch by (simp add: refines_at_def rs_good_def)
  qed
qed

text \<open>
  C24 (refinement): every operation of the recurrent memory with valid arguments returns, keeps the
  invariant, and does to the map from sequences to positions and states what its specification says: a
  micro-batch gives each of its sequences the state made from the one it had (or from zero) and leaves
  all other sequences alone, whatever cells the states move to on the way.
\<close>

theorem rs_ops_refine:
  assumes "rs_good zero (m, rows)" "op_pre (r_size m) oper (states_of m rows)"
  shows "\<exists>m' rows'. rs_run zero oper (m, rows) = Some (m', rows') \<and> rs_good zero (m', rows') \<and> r_size m' = r_size m
    \<and> op_spec zero oper (states_of m rows) (states_of m' rows')"
  using op_refines [OF assms] by (simp add: refines_at_def)

definition demo_rs :: memory_recurrent where
  "demo_rs = recurrent_new demo_hparams 2 1 None"

definition demo_rs_batch :: llama_ubatch where
  "demo_rs_batch = ubatch_none\<lparr>u_equal_seqs := True, u_n_tokens := 1, u_n_seq_tokens := 1, u_n_seqs := 1,
     u_pos := [5], u_n_seq_id := [1], u_seq_id := [[1]]\<rparr>"

lemma demo_rs_good: "rs_good 0 (demo_rs, [0::nat, 0])" "states_of demo_rs rows = (\<lambda>_. None)" "r_size demo_rs = 2"
proof -
  show "states_of demo_rs rows = (\<lambda>_. None)" using new_spec(2) [of 2 demo_hparams 1 None] by (simp add: demo_rs_def)
  show "rs_good 0 (demo_rs, [0::nat, 0])"
    using new_spec(1,3) [of 2] by (simp add: rs_good_def demo_rs_def numeral_2_eq_2)
  show "r_size demo_rs = 2" by (simp add: demo_rs_def recurrent_new_def)
qed

lemma demo_rs_batch_ok: "rs_batch 2 demo_rs_batch" "ids_of demo_rs_batch 0 = [1]" "u_n_seqs demo_rs_batch = 1" "last_pos demo_rs_batch 0 = 5"
  by (simp_all add: rs_batch_def demo_rs_batch_def ubatch_none_def ids_of_def seq_set_def last_pos_def INT32_MAX_def)

lemma rs_ops_refine_witness:
  "\<exists>m' rows'. rs_run 0 (Op_batch demo_rs_batch (map (\<lambda>x. x + 7))) (demo_rs, [0, 0]) = Some (m', rows')
     \<and> states_of m' rows' 1 = Some (5, 7::nat)"
proof -
  have "op_pre (r_size demo_rs) (Op_batch demo_rs_batch (map (\<lambda>x. x + 7))) (states_of demo_rs [0, 0])"
    using demo_rs_good(3) demo_rs_batch_ok(1) by simp
  from rs_ops_refine [OF demo_rs_good(1) this] obtain m' rows'
    where "rs_run 0 (Op_batch demo_rs_batch (map (\<lambda>x. x + 7))) (demo_rs, [0::nat, 0]) = Some (m', rows')"
    "op_spec 0 (Op_batch demo_rs_batch (map (\<lambda>x. x + 7))) (states_of demo_rs [0::nat, 0]) (states_of m' rows')" by blast
  moreover from this(2) have "states_of m' rows' 1 = Some (5, 7)"
    using demo_rs_batch_ok(2-4) by (simp add: batch_effect_def demo_rs_good(2) old_state_def)
  ultimately show ?thesis by blast
qed

end
