(* ===== verification/Recurrent_Live.thy ===== *)
theory Recurrent_Live
  imports Recurrent_Run
begin

text \<open>
  The recurrent memory is never stuck: in every state that valid operations lead to, every operation
  returns, every valid micro-batch has a slot, and every list of them is prepared. Removing all
  sequences at once leaves the memory in a state outside of these.
\<close>

section \<open>Preparing\<close>

lemma find_slot_ok:
  assumes inv: "rs_inv m" and rows: "rows_ok zero m rows" and u: "rs_batch (r_size m) u"
  obtains m' rows' where "rs_find_slot u m = Some (True, m')" "rs_inv m'" "rows_ok zero m' rows'" "r_size m' = r_size m"
    "r_hparams m' = r_hparams m" "r_layers m' = r_layers m"
proof -
  obtain states m' rows' where c: "rs_compute zero id u (m, rows) = Some (True, states, m', rows')"
    "rs_inv m'" "rows_ok zero m' rows'" "r_size m' = r_size m" "r_hparams m' = r_hparams m" "r_layers m' = r_layers m"
    using compute_spec [OF inv rows u, of id] by (metis id_apply)
  have "rs_find_slot u m = Some (True, m')"
    using c(1) by (auto simp: rs_compute_def Option.bind_eq_Some_conv split: if_splits)
  then show ?thesis using that c(2-) by blast
qed
lemma slots_ok:
  assumes "rs_inv m" "rows_ok zero m rows" "\<forall>u \<in> set us. rs_batch (r_size m) u"
  shows "\<exists>m'. while_ok rs_find_slot us m = Some (True, m') \<and> r_size m' = r_size m"
  using assms
proof (induction us arbitrary: m rows)
  case (Cons u us)
  obtain m1 rows1 where m1: "rs_find_slot u m = Some (True, m1)" "rs_inv m1" "rows_ok zero m1 rows1" "r_size m1 = r_size m"
    by (rule find_slot_ok [OF Cons.prems(1,2), of u]) (use Cons.prems(3) in auto)
  have "\<exists>m'. while_ok rs_find_slot us m1 = Some (True, m') \<and> r_size m' = r_size m1"
    by (rule Cons.IH [OF m1(2,3)]) (use Cons.prems(3) m1(4) in simp)
  then show ?case using m1(1,4) by auto
qed simp

text \<open>The invariant and the map depend on the cells, their number and the head.\<close>

lemma inv_of_parts:
  assumes "r_cells m' = r_cells m" "r_size m' = r_size m" "r_head m' = r_head m" "r_used m' = r_used m"
  shows "rs_inv m' \<longleftrightarrow> rs_inv m" "rows_ok zero m' rows \<longleftrightarrow> rows_ok zero m rows" "states_of m' rows = states_of m rows"
proof -
  have v: "seq_valid m' q \<longleftrightarrow> seq_valid m q" for q using assms(2) by (simp add: seq_valid_def)
  show "rs_inv m' \<longleftrightarrow> rs_inv m"
    using assms by (simp add: rs_inv_def tails_ok_def cell_ok_def tail_ok_def reserved_once_def src_ok_def count_used_def v)
  show "rows_ok zero m' rows \<longleftrightarrow> rows_ok zero m rows" using assms by (simp add: rows_ok_def)
  show "states_of m' rows = states_of m rows" using assms by (simp add: states_of_def v fun_eq_iff)
qed

lemma prepare_ok:
  assumes "rs_inv m" "rows_ok zero m rows" "\<forall>u \<in> set us. rs_batch (r_size m) u"
  obtains m' where "rs_prepare us m = Some (True, m')" "rs_inv m'" "rows_ok zero m' rows" "states_of m' rows = states_of m rows"
    "r_size m' = r_size m"
proof -
  from slots_ok [OF assms] obtain m1 where m1: "while_ok rs_find_slot us m = Some (True, m1)" "r_size m1 = r_size m" by blast
  define m' where "m' = m1\<lparr>r_cells := r_cells m, r_used := r_used m, r_head := r_head m\<rparr>"
  have run: "rs_prepare us m = Some (True, m')" using m1(1) by (simp add: rs_prepare_def m'_def)
  have p: "r_cells m' = r_cells m" "r_size m' = r_size m" "r_head m' = r_head m" "r_used m' = r_used m"
    using m1(2) by (simp_all add: m'_def)
  show ?thesis
    by (rule that [OF run]) (simp_all only: inv_of_parts [OF p] assms(1,2) p(2))
qed

section \<open>Reachable states\<close>

inductive rs_reachable :: "'s \<Rightarrow> nat \<Rightarrow> memory_recurrent \<times> 's list \<Rightarrow> bool" for zero n where
  created: "rs_reachable zero n (recurrent_new h n k flt, replicate n zero)"
| stepped: "rs_reachable zero n (m, rows) \<Longrightarrow> op_pre n oper (states_of m rows) \<Longrightarrow> rs_run zero oper (m, rows) = Some (m', rows')
    \<Longrightarrow> rs_reachable zero n (m', rows')"

inductive_cases rs_reachable_cases: "rs_reachable zero n (m, rows)"

lemma reachable_good:
  assumes "rs_reachable zero n s" "0 < n" "n < 2147483648"
  shows "rs_good zero s \<and> r_size (fst s) = n"
  using assms(1)
proof induction
  case (created h k flt)
  then show ?case using new_spec [OF assms(2,3)] by (simp add: rs_good_def recurrent_new_def)
next
  case (stepped m rows oper m' rows')
  then show ?case using op_refines [of zero m rows oper] by (simp add: refines_at_def)
qed

text \<open>
  C25 (liveness): in every state that valid operations lead to from a new memory, every operation with
  valid arguments returns, every micro-batch of valid sequences finds a slot, and every list of such
  micro-batches is prepared, which leaves the positions and the states of all sequences as they were.
\<close>

theorem rs_never_stuck:
  assumes "rs_reachable zero n (m, rows)" "0 < n" "n < 2147483648"
  shows "(op_pre n oper (states_of m rows) \<longrightarrow> (\<exists>s'. rs_run zero oper (m, rows) = Some s' \<and> rs_reachable zero n s'))
    \<and> (rs_batch n u \<longrightarrow> (\<exists>m'. rs_find_slot u m = Some (True, m')))
    \<and> ((\<forall>u \<in> set us. rs_batch n u) \<longrightarrow> (\<exists>m'. rs_prepare us m = Some (True, m') \<and> states_of m' rows = states_of m rows))"
proof (intro conjI impI)
  from reachable_good [OF assms] have good: "rs_good zero (m, rows)" and n: "n = r_size m" by simp_all
  have inv: "rs_inv m" "rows_ok zero m rows" using good by (simp_all add: rs_good_def)
  show "\<exists>s'. rs_run zero oper (m, rows) = Some s' \<and> rs_reachable zero n s'" if "op_pre n oper (states_of m rows)"
    using op_refines [OF good, of oper] that n rs_reachable.stepped [OF assms(1) that] by (auto simp: refines_at_def)
  show "\<exists>m'. rs_find_slot u m = Some (True, m')" if "rs_batch n u"
    using find_slot_ok [OF inv, of u] that n by metis
  show "\<exists>m'. rs_prepare us m = Some (True, m') \<and> states_of m' rows = states_of m rows" if "\<forall>u \<in> set us. rs_batch n u"
    using prepare_ok [OF inv, of us] that n by metis
qed
lemma rs_never_stuck_witness: "\<exists>m'. rs_find_slot demo_rs_batch demo_rs = Some (True, m')"
proof -
  have "rs_reachable (0::nat) 2 (demo_rs, replicate 2 0)" unfolding demo_rs_def by (rule created)
  from rs_never_stuck [OF this] demo_rs_batch_ok(1) show ?thesis by simp
qed

section \<open>Removing all sequences\<close>

text \<open>A negative sequence number stands for all of them: the cells are emptied, their tails are not.\<close>

definition emptied_upto :: "memory_recurrent \<Rightarrow> nat \<Rightarrow> memory_recurrent \<Rightarrow> bool" where
  "emptied_upto m k m' \<longleftrightarrow> r_size m' = r_size m \<and> length (r_cells m') = length (r_cells m)
     \<and> (\<forall>i < r_size m. mc_tail (r_cells m' ! i) = mc_tail (r_cells m ! i)
          \<and> (if i < k then seqs_at m' i = {} else seqs_at m' i = seqs_at m i \<and> pos_at m' i = pos_at m i))"

lemma rm_all_step:
  assumes inv: "rs_inv m" and e: "emptied_upto m k m'" and k: "k < r_size m"
  shows "\<exists>m'' h'. rs_rm_cell (-1) 0 INT32_MAX k (m', h) = Some (m'', h') \<and> emptied_upto m (Suc k) m''"
proof -
  note d = tails_okD [OF rs_invD(1) [OF inv]]
  have len: "k < length (r_cells m')" and same: "seqs_at m' k = seqs_at m k" "pos_at m' k = pos_at m k"
    using e k d(1) by (simp_all add: emptied_upto_def)
  show ?thesis
  proof (cases "seqs_at m k = {}")
    case True
    then have "pos_at m' k = -1" using d(7) [OF k] same by simp
    then have "rs_rm_cell (-1) 0 INT32_MAX k (m', h) = Some (m', h)" using len by (simp add: rs_rm_cell_def)
    moreover have "emptied_upto m (Suc k) m'" using e same True by (simp add: emptied_upto_def less_Suc_eq)
    ultimately show ?thesis by blast
  next
    case False
    then have "0 \<le> pos_at m' k" "pos_at m' k < INT32_MAX" using d(8) [OF k] same by simp_all
    then have "rs_rm_cell (-1) 0 INT32_MAX k (m', h) = Some (free_cell_at k (m', h))" using len by (simp add: rs_rm_cell_def)
    moreover have "emptied_upto m (Suc k) (fst (free_cell_at k (m', h)))"
      using e len d(1) by (auto simp: emptied_upto_def free_cell_at_eq less_Suc_eq)
    ultimately show ?thesis by (metis prod.collapse)
  qed
qed

lemma rm_all_spec:
  assumes inv: "rs_inv m"
  obtains m' where "rs_seq_rm (-1) (-1) (-1) m = Some (True, m')" "emptied_upto m (r_size m) m'"
proof -
  have "\<exists>s. foldo (rs_rm_cell (-1) 0 INT32_MAX) [0..<r_size m] (m, r_size m) = Some s \<and> emptied_upto m (r_size m) (fst s)"
  proof (rule foldo_upt_invariant [where P = "\<lambda>k s. emptied_upto m k (fst s)"])
    show "\<exists>s'. rs_rm_cell (-1) 0 INT32_MAX k s = Some s' \<and> emptied_upto m (Suc k) (fst s')"
      if "k < r_size m" "emptied_upto m k (fst s)" for k s
      using rm_all_step [OF inv that(2,1), of "snd s"] by force
  qed (simp add: emptied_upto_def)
  then obtain m1 h where m1: "foldo (rs_rm_cell (-1) 0 INT32_MAX) [0..<r_size m] (m, r_size m) = Some (m1, h)" "emptied_upto m (r_size m) m1"
    by auto
  define m' where "m' = m1\<lparr>r_head := lower_head h (r_size m) (r_head m1)\<rparr>"
  have "rs_seq_rm (-1) (-1) (-1) m = Some (True, m')"
    using m1(1) by (simp add: rs_seq_rm_def range_lo_def range_hi_def m'_def)
  moreover have "emptied_upto m (r_size m) m'" using m1(2) by (simp add: emptied_upto_def m'_def)
  ultimately show ?thesis using that by blast
qed

text \<open>
  C26 (error): removing all sequences with a negative sequence number succeeds but leaves the tails of
  the sequences set, so the assertion that a tail is a cell of its sequence fails when a micro-batch of
  one of them is given to the memory.
\<close>

theorem rm_all_leaves_tails:
  assumes "rs_good zero (m, rows)" "rs_batch (r_size m) u" "u_n_seqs u = 1" "ids_of u 0 = [q]" "states_of m rows q \<noteq> None"
  shows "\<exists>m'. rs_seq_rm (-1) (-1) (-1) m = Some (True, m') \<and> rs_find_slot u m' = None"
proof -
  have inv: "rs_inv m" using assms(1) by (simp add: rs_good_def)
  note ok = rs_invD(1) [OF inv]
  obtain m' where m': "rs_seq_rm (-1) (-1) (-1) m = Some (True, m')" "emptied_upto m (r_size m) m'" by (rule rm_all_spec [OF inv])
  have q: "seq_valid m q" "0 \<le> tail_of m q" using assms(5) by (auto simp: states_of_def split: if_splits)
  from ok q obtain t where t: "tail_of m q = int t" "t < r_size m" by (cases rule: tail_cases) auto
  define n where "n = (if r_head m' > u32 (r_used m' + 2 * u_n_seqs u) then m'\<lparr>r_head := 0\<rparr> else m')"
  have n: "r_size n = r_size m" "r_cells n = r_cells m'" "length (r_cells m') = r_size m"
    using m'(2) tails_okD(1) [OF ok] by (simp_all add: n_def emptied_upto_def)
  have qn: "cell_at q n = Some (r_cells m' ! nat q)" "mc_tail (r_cells m' ! nat q) = int t" "seqs_at m' t = {}"
    using m'(2) t q(1) n by (auto simp: emptied_upto_def seq_valid_def cell_at_eq nat_less_iff)
  have owns: "owns_cell q n = None" using qn t(2) n by (simp add: owns_cell_def has_seq_id_def)
  have seqs: "seq_set u 0 = Some [q]" "first_seq u 0 = Some q"
    using rs_batchD(4) [OF assms(2), of 0] first_seq_lead [OF assms(2), of 0] assms(3,4) by (simp_all add: lead_def)
  have "u32_of_int q < r_size n" using u32_of_int_valid [of m q] q(1) n(1) tails_okD(3) [OF ok] by (simp add: seq_valid_def)
  then have "claim_set u 0 n = Some (True, n)" using seqs(1) q(1) by (simp add: claim_set_def claim_seq_def seq_valid_def)
  then have claim: "while_ok (claim_set u) [0..<u_n_seqs u] n = Some (True, n)" using assms(3) by simp
  have pick: "foldo (pick_cell u) [0..<u_n_seqs u] (n, e, lo, hi) = None" for e lo hi
    using owns seqs(2) assms(3) by (simp add: pick_cell_def)
  have "rs_find_slot u m' = None"
    using claim pick rs_batchD(1) [OF assms(2)]
    by (cases "first_empty (r_size n) (r_head n) n") (simp_all add: rs_find_slot_def n_def [symmetric] Let_def)
  then show ?thesis using m'(1) by blast
qed

lemma rm_all_leaves_tails_witness:
  "\<exists>m rows m'. rs_good (0::nat) (m, rows) \<and> states_of m rows 1 \<noteq> None
     \<and> rs_seq_rm (-1) (-1) (-1) m = Some (True, m') \<and> rs_find_slot demo_rs_batch m' = None"
proof -
  have "refines_at 0 (Op_batch demo_rs_batch id) (demo_rs, [0::nat, 0])"
    by (rule op_refines [OF demo_rs_good(1)]) (simp add: demo_rs_good(3) demo_rs_batch_ok(1))
  then obtain m rows where m: "rs_good (0::nat) (m, rows)" "r_size m = 2" "states_of m rows 1 \<noteq> None"
    using demo_rs_batch_ok(2,3) by (auto simp: refines_at_def batch_effect_def demo_rs_good(3))
  from rm_all_leaves_tails [OF m(1) _ demo_rs_batch_ok(3,2) m(3)] show ?thesis
    using m demo_rs_batch_ok(1) by auto
qed

end
