(* ===== verification/Batch_Fits.thy ===== *)
theory Batch_Fits
  imports Batch_Init Kv_Apply Recurrent_Slot
begin

text \<open>
  What the splitters hand out is what the memories expect: the micro-batches of an initialised batch
  satisfy the preconditions of the slot searches.
\<close>

section \<open>The fields of a micro-batch\<close>

lemma those_nth: "those xs = Some ys \<Longrightarrow> length ys = length xs \<and> (\<forall>i < length xs. xs ! i = Some (ys ! i))"
proof (induction xs arbitrary: ys)
  case (Cons x xs)
  then show ?case by (fastforce simp: less_Suc_eq_0_disj split: option.splits)
qed simp

lemma ubatch_pos_first:
  assumes "ubatch_pos a idxs = Some pos"
  shows "length pos = a_n_pos_per_embd a * length idxs"
    "0 < a_n_pos_per_embd a \<Longrightarrow> k < length idxs \<Longrightarrow> deref (b_pos (a_batch a)) (idxs ! k) = Some (pos ! k)"
proof -
  let ?P = "a_n_pos_per_embd a"
  let ?f = "\<lambda>j. map (\<lambda>i. deref (b_pos (a_batch a))
     ((if b_token (a_batch a) \<noteq> None then 0 else j * nat (b_n_tokens (a_batch a))) + i)) idxs"
  have t: "those (concat (map ?f [0..<?P])) = Some pos"
    using assms by (simp add: ubatch_pos_def)
  have "length (concat (map ?f [0..<p])) = p * length idxs" for p by (induction p) simp_all
  then have len: "length (concat (map ?f [0..<?P])) = ?P * length idxs" .
  then show "length pos = ?P * length idxs" using those_nth [OF t] by simp
  show "deref (b_pos (a_batch a)) (idxs ! k) = Some (pos ! k)" if "0 < ?P" "k < length idxs"
  proof -
    have "[0..<?P] = 0 # [1..<?P]" using that(1) by (simp add: upt_conv_Cons)
    then have "concat (map ?f [0..<?P]) ! k = ?f 0 ! k" using that(2) by (simp only: list.map concat.simps) (simp add: nth_append)
    moreover have "k < ?P * length idxs" using that by (metis less_le_trans mult_le_mono1 mult_1 Suc_leI One_nat_def)
    ultimately show ?thesis using those_nth [OF t] that(2) unfolding len by auto
  qed
qed

lemma ubatch_add_fields:
  assumes "ubatch_add idxs n_seqs eq a = Some (u, a')"
  shows "u_equal_seqs u = eq" "u_n_tokens u = length idxs" "u_n_seqs u = n_seqs" "u_n_seq_tokens u = length idxs div n_seqs"
    "n_seqs \<noteq> 0" "length idxs mod n_seqs = 0" "u_n_pos u = a_n_pos_per_embd a"
    "length (u_n_seq_id u) = length idxs" "length (u_seq_id u) = length idxs"
    "length (u_pos u) = a_n_pos_per_embd a * length idxs"
    "u_seq_id_unq u = snd (index_seqs (\<Union> (set (map set (u_seq_id u)))) (a_n_seq_max a) (\<lambda>_. -1, []))"
    and "k < length idxs \<Longrightarrow> deref (b_n_seq_id (a_batch a)) (idxs ! k) = Some (u_n_seq_id u ! k)
      \<and> token_seq_ids (a_batch a) (idxs ! k) = Some (u_seq_id u ! k)"
    and "k < length idxs \<Longrightarrow> 0 < a_n_pos_per_embd a \<Longrightarrow> deref (b_pos (a_batch a)) (idxs ! k) = Some (u_pos u ! k)"
proof -
  obtain tok emb pos nsid out sids idx ids where p: "ubatch_pos a idxs = Some pos"
    "those (map (deref (b_n_seq_id (a_batch a))) idxs) = Some nsid" "those (map (token_seq_ids (a_batch a)) idxs) = Some sids"
    "n_seqs \<noteq> 0" "length idxs mod n_seqs = 0" "ids = snd (index_seqs (\<Union> (set (map set sids))) (a_n_seq_max a) (\<lambda>_. -1, []))"
    "u = \<lparr>u_equal_seqs = eq, u_n_tokens = length idxs, u_n_seq_tokens = length idxs div n_seqs,
            u_n_seqs = n_seqs, u_n_seqs_unq = length ids, u_n_pos = a_n_pos_per_embd a,
            u_token = tok, u_embd = emb, u_pos = pos, u_n_seq_id = nsid, u_seq_id = sids,
            u_seq_id_unq = ids, u_seq_idx = idx, u_output = out\<rparr>"
    using assms unfolding ubatch_add_def Let_def
    by (simp add: Option.bind_eq_Some_conv case_prod_unfold split: if_splits) blast
  note t = those_nth [OF p(2)] those_nth [OF p(3)]
  show "u_equal_seqs u = eq" "u_n_tokens u = length idxs" "u_n_seqs u = n_seqs" "u_n_seq_tokens u = length idxs div n_seqs"
    "n_seqs \<noteq> 0" "length idxs mod n_seqs = 0" "u_n_pos u = a_n_pos_per_embd a"
    "length (u_n_seq_id u) = length idxs" "length (u_seq_id u) = length idxs"
    "u_seq_id_unq u = snd (index_seqs (\<Union> (set (map set (u_seq_id u)))) (a_n_seq_max a) (\<lambda>_. -1, []))"
    using p(4-7) t by simp_all
  show "length (u_pos u) = a_n_pos_per_embd a * length idxs" using ubatch_pos_first(1) [OF p(1)] p(7) by simp
  show "deref (b_n_seq_id (a_batch a)) (idxs ! k) = Some (u_n_seq_id u ! k)
      \<and> token_seq_ids (a_batch a) (idxs ! k) = Some (u_seq_id u ! k)" if "k < length idxs"
    using t that p(7) by simp
  show "deref (b_pos (a_batch a)) (idxs ! k) = Some (u_pos u ! k)" if "k < length idxs" "0 < a_n_pos_per_embd a"
    using ubatch_pos_first(2) [OF p(1) that(2,1)] p(7) by simp
qed
section \<open>Micro-batches for the recurrent memory\<close>

text \<open>Sequences below \<open>n\<close>, no sequence twice for a token, positions in range.\<close>

definition tokens_fit :: "nat \<Rightarrow> batch_allocr \<Rightarrow> bool" where
  "tokens_fit n a \<longleftrightarrow> 0 < a_n_pos_per_embd a \<and> (\<forall>i < get_n_tokens a. distinct (batch_ids (a_batch a) i)
     \<and> (\<forall>q \<in> set (batch_ids (a_batch a) i). 0 \<le> q \<and> q < int n)
     \<and> 0 \<le> the (b_pos (a_batch a)) ! i \<and> the (b_pos (a_batch a)) ! i < INT32_MAX)"

lemma tokens_fit_took [simp]: "tokens_fit n (took idxs a) \<longleftrightarrow> tokens_fit n a"
  by (simp add: tokens_fit_def)

text \<open>A token of a micro-batch.\<close>

lemma ubatch_token:
  assumes add: "ubatch_add idxs n_seqs eq b = Some (u, a')" and b: "a_batch b = a_batch a" "a_n_pos_per_embd b = a_n_pos_per_embd a"
    and arr: "arrays_ok a" and fit: "tokens_fit n a" and k: "k < length idxs" "idxs ! k < get_n_tokens a"
  shows "token_seqs u k = batch_ids (a_batch a) (idxs ! k)" "token_seqs u k \<noteq> []"
    "0 \<le> u_n_seq_id u ! k" "nat (u_n_seq_id u ! k) \<le> length (u_seq_id u ! k)"
    "u_pos u ! k = the (b_pos (a_batch a)) ! (idxs ! k)" "k < length (u_pos u)" "k < length (u_n_seq_id u)" "k < length (u_seq_id u)"
    "distinct (token_seqs u k)" "q \<in> set (token_seqs u k) \<Longrightarrow> 0 \<le> q \<and> q < int n" "0 \<le> u_pos u ! k" "u_pos u ! k < INT32_MAX"
proof -
  note f = ubatch_add_fields [OF add]
  have pos: "0 < a_n_pos_per_embd a" using fit by (simp add: tokens_fit_def)
  have ns: "deref (b_n_seq_id (a_batch a)) (idxs ! k) = Some (u_n_seq_id u ! k)"
    and ts: "token_seq_ids (a_batch a) (idxs ! k) = Some (u_seq_id u ! k)" using f(12) [OF k(1)] b by simp_all
  have ids: "u_seq_id u ! k = batch_ids (a_batch a) (idxs ! k)" using ts by (simp add: batch_ids_def)
  have ne: "u_seq_id u ! k \<noteq> []" using arrays_ok_ids [OF arr k(2)] ids by simp
  have len: "length (u_seq_id u ! k) = nat (u_n_seq_id u ! k)"
  proof -
    obtain y where "nat (u_n_seq_id u ! k) \<le> length y" "u_seq_id u ! k = take (nat (u_n_seq_id u ! k)) y"
      using ts ns by (auto simp: token_seq_ids_def Option.bind_eq_Some_conv split: if_splits)
    then show ?thesis by (metis length_take min.absorb2)
  qed
  show "0 \<le> u_n_seq_id u ! k" "nat (u_n_seq_id u ! k) \<le> length (u_seq_id u ! k)" using len ne by (auto intro: ccontr)
  show t: "token_seqs u k = batch_ids (a_batch a) (idxs ! k)" using len ids by (simp add: token_seqs_def)
  then show "token_seqs u k \<noteq> []" using ids ne by simp
  have "deref (b_pos (a_batch a)) (idxs ! k) = Some (u_pos u ! k)" using f(13) [OF k(1)] pos b by simp
  then show p: "u_pos u ! k = the (b_pos (a_batch a)) ! (idxs ! k)" by (cases "b_pos (a_batch a)") (simp_all add: deref_def nth_opt_def split: if_splits)
  show "k < length (u_pos u)" 
  proof -
    have "1 * length idxs \<le> a_n_pos_per_embd a * length idxs" using pos by (intro mult_le_mono1) simp
    also have "\<dots> = length (u_pos u)" using f(10) b by simp
    finally show ?thesis using k(1) by simp
  qed
  show "k < length (u_n_seq_id u)" "k < length (u_seq_id u)" using f(8,9) k(1) by simp_all
  show "distinct (token_seqs u k)" "q \<in> set (token_seqs u k) \<Longrightarrow> 0 \<le> q \<and> q < int n" "0 \<le> u_pos u ! k" "u_pos u ! k < INT32_MAX"
    using fit k(2) t p by (simp_all add: tokens_fit_def)
qed

text \<open>Micro-batches in which all tokens of a block have the sequences of its first token.\<close>

definition blocks_ok :: "llama_ubatch \<Rightarrow> bool" where
  "blocks_ok u \<longleftrightarrow> u_n_tokens u = u_n_seq_tokens u * u_n_seqs u
     \<and> (\<forall>i < u_n_tokens u. set (token_seqs u i) = set (ids_of u (i div u_n_seq_tokens u)))"

lemma seq_set_token:
  assumes "s * u_n_seq_tokens u < length (u_n_seq_id u)" "s * u_n_seq_tokens u < length (u_seq_id u)"
    and "0 \<le> u_n_seq_id u ! (s * u_n_seq_tokens u)" "nat (u_n_seq_id u ! (s * u_n_seq_tokens u)) \<le> length (u_seq_id u ! (s * u_n_seq_tokens u))"
  shows "seq_set u s = Some (token_seqs u (s * u_n_seq_tokens u))" "ids_of u s = token_seqs u (s * u_n_seq_tokens u)"
  using assms by (simp_all add: seq_set_def ids_of_def token_seqs_def)

lemma equal_rs_batch:
  assumes ok: "equal_ok sq a" and un: "unused a \<noteq> []" and fit: "tokens_fit n a" and split: "split_equal nb sq a = Some (u, c)"
  shows "rs_batch n u \<and> blocks_ok u"
proof -
  have alloc: "alloc_ok a" and arr: "arrays_ok a" using ok by (simp_all add: equal_ok_def alloc_ok_def)
  define p where "p = equal_pick nb sq a"
  obtain cur m where sh: "0 < m" "u_equal_seqs u" "u_n_seqs u = length cur" "u_n_seq_tokens u = m" "u_n_tokens u = m * length cur"
      "cur \<noteq> []" "sorted_wrt (\<lambda>S T. S \<inter> T = {}) cur" "map ((!) (a_seq_set a)) p = concat (map (replicate m) cur)"
      "handed p a u"
    by (rule split_equal_shape [OF ok un, of nb]) (use split in \<open>auto simp: p_def\<close>)
  have add: "ubatch_add p (length (equal_sets nb sq a)) True (fold mark_used p a) = Some (u, c)"
    using split_equal_call [OF ok un, of nb] split by (simp add: p_def)
  have len: "length p = m * length cur" using sh(5,9) by (simp add: handed_def)
  have sub: "set p \<subseteq> set (unused a)"
    using ok un by (auto simp: equal_ok_def p_def elim: equal_pick_spec [of a nb sq])
  have lt: "p ! k < get_n_tokens a" if "k < length p" for k using that sub nth_mem unused_less by blast
  have b: "a_batch (fold mark_used p a) = a_batch a" "a_n_pos_per_embd (fold mark_used p a) = a_n_pos_per_embd a"
    by (simp_all add: fold_mark_used)
  note tok = ubatch_token [OF add b arr fit _ lt]
  have div: "s * m + j < length p" if "s < length cur" "j < m" for s j
  proof -
    have "s * m + j < Suc s * m" using that by simp
    also have "\<dots> \<le> length cur * m" using that by (intro mult_le_mono1) simp
    finally show ?thesis using len by (simp add: mult.commute)
  qed
  have seqs: "set (token_seqs u k) = cur ! (k div m)" if k: "k < length p" for k
  proof -
    have "k div m < length cur" "k mod m < m" using k sh(1) len by (simp_all add: less_mult_imp_div_less mult.commute)
    then have "concat (map (replicate m) cur) ! (k div m * m + k mod m) = cur ! (k div m)"
      by (subst nth_concat_equal [where n = m]) auto
    then have "a_seq_set a ! (p ! k) = cur ! (k div m)"
      using arg_cong [OF sh(8), of "\<lambda>xs. xs ! k"] k by simp
    then show ?thesis using tok(1) [OF k k] lt [OF k] alloc by (simp add: alloc_ok_def)
  qed
  have set0: "seq_set u s = Some (token_seqs u (s * m))" "ids_of u s = token_seqs u (s * m)" "set (ids_of u s) = cur ! s"
    "s * m < length p" if "s < length cur" for s
  proof -
    have k: "s * m < length p" using div [OF that sh(1)] by simp
    show "s * m < length p" by (rule k)
    show "seq_set u s = Some (token_seqs u (s * m))" and i: "ids_of u s = token_seqs u (s * m)"
      using seq_set_token [of s u] tok(3,4,7,8) [OF k k] sh(4) by simp_all
    show "set (ids_of u s) = cur ! s" using seqs [OF k] sh(1) i by simp
  qed
  have last: "last_pos u s = u_pos u ! (s * m + (m - 1))" for s using sh(1,4) by (simp add: last_pos_def)
  have "rs_batch n u" unfolding rs_batch_def
  proof (intro conjI allI impI)
    fix s assume s: "s < u_n_seqs u"
    then have s': "s < length cur" using sh(3) by simp
    note k = set0(4) [OF s']
    have l: "s * m + (m - 1) < length p" by (rule div [OF s']) (use sh(1) in simp)
    show "seq_set u s \<noteq> None" "ids_of u s \<noteq> []" "distinct (ids_of u s)" using set0 [OF s'] tok(2,9) [OF k k] by simp_all
    show "\<forall>q \<in> set (ids_of u s). 0 \<le> q \<and> q < int n" using set0(2) [OF s'] tok(10) [OF k k] by simp
    show "s * u_n_seq_tokens u + u_n_seq_tokens u \<le> length (u_pos u)" using tok(6) [OF l l] sh(1,4) by simp
    show "0 \<le> last_pos u s" "last_pos u s < INT32_MAX" using tok(11,12) [OF l l] last by simp_all
  next
    fix s s' assume "s < u_n_seqs u" "s' < u_n_seqs u" "s \<noteq> s'"
    then have s: "s < length cur" "s' < length cur" "s \<noteq> s'" using sh(3) by simp_all
    then show "set (ids_of u s) \<inter> set (ids_of u s') = {}"
      using set0(3) [OF s(1)] set0(3) [OF s(2)] sorted_wrt_nth_less [OF sh(7), of s s'] sorted_wrt_nth_less [OF sh(7), of s' s]
      by (cases "s < s'") auto
  qed (use sh in simp_all)
  moreover have "blocks_ok u"
    unfolding blocks_ok_def
  proof (intro conjI allI impI)
    fix i assume "i < u_n_tokens u"
    then have i: "i < length p" using sh(5) len by simp
    then have "i div m < length cur" using len by (simp add: less_mult_imp_div_less mult.commute)
    then show "set (token_seqs u i) = set (ids_of u (i div u_n_seq_tokens u))" using seqs [OF i] set0(3) sh(4) by simp
  qed (use sh in simp)
  ultimately show ?thesis by blast
qed
lemma seq_rs_batch:
  assumes ok: "alloc_ok a" and un: "unused a \<noteq> []" and fit: "tokens_fit n a" and split: "split_seq nb a = Some (u, c)"
  shows "rs_batch n u"
proof -
  have arr: "arrays_ok a" and len: "length (a_used a) = get_n_tokens a" "length (a_seq_set a) = get_n_tokens a"
    using ok by (simp_all add: alloc_ok_def)
  define p where "p = seq_pick nb a"
  note pick = seq_pick_spec [OF ok un, of nb, folded p_def]
  have add: "ubatch_add p 1 True (fold mark_used p a) = Some (u, c)"
    using split un first_unused_spec(1) [OF len(1)] by (simp add: split_seq_def Let_def len pick(1) split: if_splits)
  note f = ubatch_add_fields [OF add]
  have lt: "p ! k < get_n_tokens a" if "k < length p" for k using that pick(4) nth_mem unused_less by blast
  have b: "a_batch (fold mark_used p a) = a_batch a" "a_n_pos_per_embd (fold mark_used p a) = a_n_pos_per_embd a"
    by (simp_all add: fold_mark_used)
  note tok = ubatch_token [OF add b arr fit _ lt]
  have p: "0 < length p" "length p - 1 < length p" using pick(2) by simp_all
  have s: "seq_set u 0 = Some (token_seqs u 0)" "ids_of u 0 = token_seqs u 0"
    using seq_set_token [of 0 u] tok(3,4,7,8) [OF p(1) p(1)] by simp_all
  have "u_n_seq_tokens u = length p" using f(4) by simp
  then show ?thesis
    using s tok(2,9,10) [OF p(1) p(1)] tok(6,11,12) [OF p(2) p(2)] f(1,3) p(1) by (auto simp: rs_batch_def last_pos_def)
qed

section \<open>Micro-batches for a cache with one stream\<close>

lemma kv_ubatch_ok:
  assumes inv: "kv_inv c" and one: "k_n_stream c = 1" and valid: "\<And>t. 0 \<le> t \<Longrightarrow> t < int (a_n_seq_max a) \<Longrightarrow> valid_seq c t"
    and arr: "arrays_ok a" and fit: "tokens_fit (a_n_seq_max a) a" and p: "p \<noteq> []" "set p \<subseteq> set (unused a)"
    and add: "ubatch_add p ns eq (fold mark_used p a) = Some (u, a')"
  shows "ubatch_ok c u 1 (length p)"
proof -
  note f = ubatch_add_fields [OF add]
  have lt: "p ! k < get_n_tokens a" if "k < length p" for k using that p(2) nth_mem unused_less by blast
  have b: "a_batch (fold mark_used p a) = a_batch a" "a_n_pos_per_embd (fold mark_used p a) = a_n_pos_per_embd a"
    "a_n_seq_max (fold mark_used p a) = a_n_seq_max a"
    by (simp_all add: fold_mark_used)
  note tok = ubatch_token [OF add b(1,2) arr fit _ lt]
  have zero: "strm c t = 0" if "valid_seq c t" for t using kv_inv_seq(2) [OF inv that] one by simp
  obtain idx ids where ix: "index_seqs (\<Union> (set (map set (u_seq_id u)))) (a_n_seq_max a) (\<lambda>_. -1, []) = (idx, ids)" by fastforce
  have unq: "u_seq_id_unq u = filter (\<lambda>s. s \<in> \<Union> (set (map set (u_seq_id u)))) [0..int (a_n_seq_max a) - 1]"
    using f(11) b(3) ix index_seqs_eq(1) [OF ix] by simp
  have p0: "0 < length p" using p(1) by simp
  obtain q where q: "q \<in> set (token_seqs u 0)" using tok(2) [OF p0 p0] by (cases "token_seqs u 0") auto
  have "q \<in> set (u_seq_id u ! 0)" using q in_set_takeD by (fastforce simp: token_seqs_def)
  moreover have "u_seq_id u ! 0 \<in> set (u_seq_id u)" using tok(8) [OF p0 p0] nth_mem by blast
  ultimately have "q \<in> set (u_seq_id_unq u)" using tok(10) [OF p0 p0 q] unfolding unq by auto
  then have len: "0 < length (u_seq_id_unq u)" by (cases "u_seq_id_unq u") auto
  then have v: "valid_seq c (u_seq_id_unq u ! 0)"
    using nth_mem [OF len] valid unfolding unq by auto
  have two: "i + u_n_tokens u * 2 < length (u_pos u)" if "is_pos_2d u" "i < length p" for i
  proof -
    have "3 * length p \<le> a_n_pos_per_embd a * length p" using that(1) f(7) b(2) by (intro mult_le_mono1) (simp add: is_pos_2d_def)
    moreover have "length (u_pos u) = a_n_pos_per_embd a * length p" using f(10) b(2) by simp
    ultimately show ?thesis using that(2) f(2) by linarith
  qed
  have "token_ok c u i 0" if i: "i < length p" for i
    using tok [OF i i] two [OF _ i] valid zero unfolding token_ok_def by blast
  then show ?thesis using one len v zero [OF v] f(2) p0 by (simp add: ubatch_ok_def ubatch_seqs_ok_def Suc_le_eq)
qed

end
