(* ===== verification/Hybrid.thy ===== *)
theory Hybrid
  imports Kv_Iswa Recurrent_Live Batch_Fits
begin

text \<open>
  The memory of models with attention layers and recurrent layers (\<open>llama-memory-hybrid.cpp\<close>): a KV
  cache and a recurrent memory side by side. Every sequence operation acts on both; a batch is
  prepared in both before its micro-batches are placed in both. Here are the definitions and the
  preparation of a batch; \<open>Hybrid_Sync\<close> shows that the two memories agree on where sequences end.
\<close>

section \<open>Definitions\<close>

record memory_hybrid =
  hy_hparams :: llama_hparams
  hy_attn :: kv_cache
  hy_recr :: memory_recurrent

definition hybrid_new ::
  "llama_hparams \<Rightarrow> bool \<Rightarrow> nat \<Rightarrow> nat \<Rightarrow> nat \<Rightarrow> llama_swa_type \<Rightarrow> nat \<Rightarrow> nat \<Rightarrow> bool \<Rightarrow> (nat \<Rightarrow> bool) option \<Rightarrow> (nat \<Rightarrow> bool) option
     \<Rightarrow> memory_hybrid option" where
  "hybrid_new h v_trans n_cells n_pad n_swa swa_type rs_size n_seq_max unified filter_attn filter_recr = do {
     attn \<leftarrow> kv_cache_new h v_trans unified n_cells n_seq_max n_pad n_swa swa_type
       (Some (case filter_attn of None \<Rightarrow> \<lambda>il. is_recurrent il h = Some False | Some f \<Rightarrow> f)) None;
     Some \<lparr>hy_hparams = h, hy_attn = attn,
       hy_recr = recurrent_new h rs_size n_seq_max
         (Some (case filter_recr of None \<Rightarrow> \<lambda>il. is_recurrent il h = Some True | Some f \<Rightarrow> f))\<rparr> }"

subsection \<open>Sequences\<close>

definition hybrid_clear :: "memory_hybrid \<Rightarrow> memory_hybrid option" where
  "hybrid_clear w = do { r \<leftarrow> rs_clear (hy_recr w); Some (w\<lparr>hy_attn := kv_clear (hy_attn w), hy_recr := r\<rparr>) }"

text \<open>The recurrent memory first, because it may refuse.\<close>

definition hybrid_seq_rm :: "int \<Rightarrow> int \<Rightarrow> int \<Rightarrow> memory_hybrid \<Rightarrow> (bool \<times> memory_hybrid) option" where
  "hybrid_seq_rm seq_id p0 p1 w = do {
     (ok, r) \<leftarrow> rs_seq_rm seq_id p0 p1 (hy_recr w);
     if \<not> ok then Some (False, w\<lparr>hy_recr := r\<rparr>)
     else do {
       (ok', a) \<leftarrow> kv_seq_rm seq_id p0 p1 (hy_attn w);
       Some (ok', w\<lparr>hy_attn := a, hy_recr := r\<rparr>) } }"

definition hybrid_both ::
  "(kv_cache \<Rightarrow> kv_cache option) \<Rightarrow> (memory_recurrent \<Rightarrow> memory_recurrent option) \<Rightarrow> memory_hybrid \<Rightarrow> memory_hybrid option" where
  "hybrid_both f g w = do { a \<leftarrow> f (hy_attn w); r \<leftarrow> g (hy_recr w); Some (w\<lparr>hy_attn := a, hy_recr := r\<rparr>) }"

definition hybrid_seq_cp :: "int \<Rightarrow> int \<Rightarrow> int \<Rightarrow> int \<Rightarrow> memory_hybrid \<Rightarrow> memory_hybrid option" where
  "hybrid_seq_cp src dst p0 p1 = hybrid_both (kv_seq_cp src dst p0 p1) (rs_seq_cp src dst p0 p1)"

definition hybrid_seq_keep :: "int \<Rightarrow> memory_hybrid \<Rightarrow> memory_hybrid option" where
  "hybrid_seq_keep seq_id = hybrid_both (kv_seq_keep seq_id) (rs_seq_keep seq_id)"

definition hybrid_seq_add :: "int \<Rightarrow> int \<Rightarrow> int \<Rightarrow> int \<Rightarrow> memory_hybrid \<Rightarrow> memory_hybrid option" where
  "hybrid_seq_add seq_id p0 p1 shift = hybrid_both (kv_seq_add seq_id p0 p1 shift) (rs_seq_add seq_id p0 p1 shift)"

definition hybrid_seq_div :: "int \<Rightarrow> int \<Rightarrow> int \<Rightarrow> int \<Rightarrow> memory_hybrid \<Rightarrow> memory_hybrid option" where
  "hybrid_seq_div seq_id p0 p1 d = hybrid_both (kv_seq_div seq_id p0 p1 d) (rs_seq_div seq_id p0 p1 d)"

definition hybrid_seq_pos_min :: "int \<Rightarrow> memory_hybrid \<Rightarrow> int option" where
  "hybrid_seq_pos_min seq_id w = do {
     a \<leftarrow> kv_seq_pos_min seq_id (hy_attn w);
     r \<leftarrow> rs_seq_pos_min seq_id (hy_recr w);
     Some (max a r) }"

definition hybrid_seq_pos_max :: "int \<Rightarrow> memory_hybrid \<Rightarrow> int option" where
  "hybrid_seq_pos_max seq_id w = do {
     a \<leftarrow> kv_seq_pos_max seq_id (hy_attn w);
     r \<leftarrow> rs_seq_pos_max seq_id (hy_recr w);
     Some (min a r) }"

definition hybrid_get_can_shift :: "memory_hybrid \<Rightarrow> bool" where
  "hybrid_get_can_shift w = get_can_shift"

subsection \<open>Contexts\<close>

record hybrid_context =
  z_i_next :: nat
  z_ubatches :: "llama_ubatch list"
  z_attn :: "kv_context option"
  z_recr :: "recurrent_context option"
  z_status :: memory_status

definition hybrid_context_status :: "memory_status \<Rightarrow> hybrid_context" where
  "hybrid_context_status st = \<lparr>z_i_next = 0, z_ubatches = [], z_attn = None, z_recr = None, z_status = st\<rparr>"

definition hybrid_context_of :: "llama_ubatch list \<Rightarrow> kv_context \<Rightarrow> recurrent_context \<Rightarrow> hybrid_context" where
  "hybrid_context_of us a r = \<lparr>z_i_next = 0, z_ubatches = us, z_attn = Some a, z_recr = Some r,
     z_status = status_combine (x_status a) (rx_status r)\<rparr>"

definition hybrid_init_full :: "memory_hybrid \<Rightarrow> hybrid_context option" where
  "hybrid_init_full w = do { a \<leftarrow> kv_init_full (hy_attn w); Some (hybrid_context_of [] a rs_init_full) }"

definition hybrid_init_update :: "memory_hybrid \<Rightarrow> (hybrid_context \<times> memory_hybrid) option" where
  "hybrid_init_update w = do {
     (a, attn) \<leftarrow> kv_init_update (hy_attn w);
     Some (hybrid_context_of [] a rs_init_update, w\<lparr>hy_attn := attn\<rparr>) }"

definition hybrid_context_batch :: "slot_info list \<Rightarrow> llama_ubatch list \<Rightarrow> hybrid_context" where
  "hybrid_context_batch sinfos us = hybrid_context_of us (context_batch sinfos us)
     ((rs_context_status STATUS_SUCCESS)\<lparr>rx_ubatches := us\<rparr>)"

definition hybrid_init_batch ::
  "batch_allocr \<Rightarrow> nat \<Rightarrow> bool \<Rightarrow> memory_hybrid \<Rightarrow> (hybrid_context \<times> batch_allocr \<times> memory_hybrid) option" where
  "hybrid_init_batch a n_ubatch embd_all w = do {
     let a0 = split_reset a;
     (us, a1) \<leftarrow> split_run (if embd_all then split_seq n_ubatch else split_equal n_ubatch True) (Suc (get_n_tokens a0)) a0;
     if get_n_used a1 < get_n_tokens a1 then Some (hybrid_context_status STATUS_FAILED_PREPARE, a1, w)
     else do {
       (ok, recr) \<leftarrow> rs_prepare us (hy_recr w);
       let w1 = w\<lparr>hy_recr := recr\<rparr>;
       if \<not> ok then Some (hybrid_context_status STATUS_FAILED_PREPARE, a1, w1)
       else do {
         (heads_attn, attn) \<leftarrow> prepare us (hy_attn w1);
         let w2 = w1\<lparr>hy_attn := attn\<rparr>;
         if heads_attn = [] then Some (hybrid_context_status STATUS_FAILED_PREPARE, a1, w2)
         else Some (hybrid_context_batch heads_attn us, a1, w2) } } }"

definition hybrid_context_next :: "hybrid_context \<Rightarrow> (bool \<times> hybrid_context) option" where
  "hybrid_context_next y = do {
     ensure (z_status y = STATUS_SUCCESS);
     a \<leftarrow> z_attn y;
     (_, a') \<leftarrow> context_next a;
     r \<leftarrow> z_recr y;
     (_, r') \<leftarrow> rs_next r;
     let y' = y\<lparr>z_attn := Some a', z_recr := Some r', z_i_next := z_i_next y + 1\<rparr>;
     Some (\<not> (z_i_next y' \<ge> length (z_ubatches y')), y') }"

definition hybrid_context_apply ::
  "shift_result \<Rightarrow> hybrid_context \<times> memory_hybrid \<Rightarrow> (bool \<times> hybrid_context \<times> memory_hybrid) option" where
  "hybrid_context_apply backend = (\<lambda>(y, w). do {
     ensure (\<not> status_is_fail (z_status y));
     a \<leftarrow> z_attn y;
     (r0, a', attn) \<leftarrow> context_apply backend (a, hy_attn w);
     r \<leftarrow> z_recr y;
     (r1, recr) \<leftarrow> rs_apply r (hy_recr w);
     Some (True \<and> r0 \<and> r1, y\<lparr>z_attn := Some a'\<rparr>, w\<lparr>hy_attn := attn, hy_recr := recr\<rparr>) })"

definition hybrid_get_ubatch :: "hybrid_context \<Rightarrow> llama_ubatch option" where
  "hybrid_get_ubatch y = do { ensure (z_status y = STATUS_SUCCESS); nth_opt (z_ubatches y) (z_i_next y) }"

end
