(* ===== verification/Hybrid_Init.thy ===== *)
theory Hybrid_Init
  imports Hybrid
begin

text \<open>
  A whole batch: what the splitters make of an initialised batch is prepared by both memories of a
  hybrid model, and preparing changes neither.
\<close>

section \<open>The micro-batches of a batch\<close>

definition all_split :: "bool \<Rightarrow> nat \<Rightarrow> batch_allocr \<Rightarrow> (llama_ubatch \<times> batch_allocr) option" where
  "all_split embd_all nb = (if embd_all then split_seq nb else split_equal nb True)"

lemma init_reset:
  assumes "batch_init inp n_vocab mem n_embd n_seq_max output_all a0 = Some (True, a)"
  shows "split_reset a = a" "a_n_seq_max a = n_seq_max" "0 < b_n_tokens inp"
proof -
  obtain b3 a4 where st: "0 < b_n_tokens inp" "batch_stats n_embd n_seq_max ((batch_clear a0)\<lparr>a_batch := b3\<rparr>) = Some a4" "a = split_reset a4"
    by (rule batch_init_stages [OF assms])
  show "split_reset a = a" "0 < b_n_tokens inp" using st by (simp_all add: split_reset_def get_n_tokens_def)
  show "a_n_seq_max a = n_seq_max" using batch_stats_ok(4) [OF st(2)] st(3) by simp
qed

text \<open>The micro-batches fit both memories.\<close>

definition ubatch_fits :: "nat \<Rightarrow> llama_ubatch \<Rightarrow> bool" where
  "ubatch_fits n u \<longleftrightarrow> rs_batch n u \<and> (\<forall>c. kv_inv c \<longrightarrow> k_n_stream c = 1 \<longrightarrow> (\<forall>t. 0 \<le> t \<longrightarrow> t < int n \<longrightarrow> valid_seq c t)
     \<longrightarrow> ubatch_ok c u 1 (u_n_tokens u))"

lemma equal_fits:
  assumes ok: "equal_ok sq a" and un: "unused a \<noteq> []" and fit: "tokens_fit (a_n_seq_max a) a" and split: "split_equal nb sq a = Some (u, c)"
  shows "ubatch_fits (a_n_seq_max a) u \<and> blocks_ok u"
proof -
  have arr: "arrays_ok a" using ok by (simp add: equal_ok_def alloc_ok_def)
  have add: "ubatch_add (equal_pick nb sq a) (length (equal_sets nb sq a)) True (fold mark_used (equal_pick nb sq a) a) = Some (u, c)"
    using split_equal_call [OF ok un, of nb] split by simp
  obtain m where p: "equal_pick nb sq a \<noteq> []" "set (equal_pick nb sq a) \<subseteq> set (unused a)"
    using ok un by (auto simp: equal_ok_def elim: equal_pick_spec [of a nb sq])
  show ?thesis
    using equal_rs_batch [OF ok un fit split] kv_ubatch_ok [OF _ _ _ arr fit p add] ubatch_add_fields(2) [OF add]
    by (auto simp: ubatch_fits_def)
qed

lemma seq_fits:
  assumes ok: "alloc_ok a" and un: "unused a \<noteq> []" and fit: "tokens_fit (a_n_seq_max a) a" and split: "split_seq nb a = Some (u, c)"
  shows "ubatch_fits (a_n_seq_max a) u"
proof -
  have arr: "arrays_ok a" and len: "length (a_used a) = get_n_tokens a" "length (a_seq_set a) = get_n_tokens a"
    using ok by (simp_all add: alloc_ok_def)
  note pick = seq_pick_spec [OF ok un, of nb]
  have add: "ubatch_add (seq_pick nb a) 1 True (fold mark_used (seq_pick nb a) a) = Some (u, c)"
    using split un first_unused_spec(1) [OF len(1)] by (simp add: split_seq_def Let_def len pick(1) split: if_splits)
  show ?thesis
    using seq_rs_batch [OF ok un fit split] kv_ubatch_ok [OF _ _ _ arr fit pick(2,4) add] ubatch_add_fields(2) [OF add]
    by (auto simp: ubatch_fits_def)
qed

lemma split_fits:
  assumes init: "batch_init inp n_vocab mem n_embd n_seq_max output_all a0 = Some (True, a)"
    and inp: "input_ok n_embd (a_n_pos_per_embd a0) inp" and fit: "tokens_fit n_seq_max a" and cpl: "embd_all \<or> \<not> a_has_cpl a"
  obtains us a' where "split_run (all_split embd_all nb) (Suc (get_n_tokens a)) a = Some (us, a')"
    "mset (concat (map (ubatch_rows n_embd) us)) = mset (map (batch_row a) [0..<nat (b_n_tokens inp)])"
    "get_n_used a' = get_n_tokens a'" "us \<noteq> []" "\<forall>u \<in> set us. ubatch_fits n_seq_max u" "\<not> embd_all \<Longrightarrow> \<forall>u \<in> set us. blocks_ok u"
proof -
  note r = batch_init_ready [OF init inp]
  note n = init_reset [OF init]
  have un: "length (unused a) < Suc (get_n_tokens a)" "unused a \<noteq> []" using r(2,6) n(3) by simp_all
  have fit': "tokens_fit (a_n_seq_max (took idxs a)) (took idxs a)" for idxs using fit n(2) by simp
  show thesis
  proof (cases embd_all)
    case True
    from seq.run_rows [OF r(1) un(1), of nb] obtain us a' where us: "split_run (split_seq nb) (Suc (get_n_tokens a)) a = Some (us, a')"
      "mset (concat (map (ubatch_rows (a_n_embd a)) us)) = mset (map (batch_row a) (unused a))" by blast
    from seq.run [OF r(1) un(1), of nb] us(1) have a': "alloc_ok a'" "unused a' = []" by auto
    have each: "\<forall>u \<in> set us. ubatch_fits n_seq_max u"
      by (rule seq.run_each [OF r(1) us(1)]) (use seq_fits [OF _ _ fit'] n(2) in auto)
    have ne: "us \<noteq> []" using us(2) un(2) by auto
    have used: "get_n_used a' = get_n_tokens a'" using a' by (simp add: alloc_ok_def get_n_used_def)
    have run: "split_run (all_split embd_all nb) (Suc (get_n_tokens a)) a = Some (us, a')"
      using True us(1) by (simp only: all_split_def if_True if_False)
    show thesis
      by (rule that [OF run _ used ne]) (use True us(2) each r(2,6,7) in simp_all)
  next
    case False
    then have ok: "equal_ok True a" using r(1,4) cpl by (simp add: equal_ok_def)
    from equal.run_rows [OF ok un(1), of nb] obtain us a' where us: "split_run (split_equal nb True) (Suc (get_n_tokens a)) a = Some (us, a')"
      "mset (concat (map (ubatch_rows (a_n_embd a)) us)) = mset (map (batch_row a) (unused a))" by blast
    from equal.run [OF ok un(1), of nb] us(1) have a': "alloc_ok a'" "unused a' = []" by (auto simp: equal_ok_def)
    have each: "\<forall>u \<in> set us. ubatch_fits n_seq_max u \<and> blocks_ok u"
      by (rule equal.run_each [OF ok us(1)]) (use equal_fits [OF _ _ fit'] n(2) in auto)
    have ne: "us \<noteq> []" using us(2) un(2) by auto
    have used: "get_n_used a' = get_n_tokens a'" using a' by (simp add: alloc_ok_def get_n_used_def)
    have run: "split_run (all_split embd_all nb) (Suc (get_n_tokens a)) a = Some (us, a')"
      using False us(1) by (simp only: all_split_def if_True if_False)
    show thesis
      by (rule that [OF run _ used ne]) (use False us(2) each r(2,6,7) in simp_all)
  qed
qed

lemma tokens_fit_mono: "rs_batch n u \<Longrightarrow> n \<le> n' \<Longrightarrow> rs_batch n' u"
  unfolding rs_batch_def by fastforce

section \<open>Preparing a batch in both memories\<close>

definition hybrid_ready :: "memory_hybrid \<Rightarrow> bool" where
  "hybrid_ready w \<longleftrightarrow> kv_inv (hy_attn w) \<and> k_n_stream (hy_attn w) = 1 \<and> k_swa_type (hy_attn w) = SWA_NONE
     \<and> searchable (hy_attn w) \<and> rs_inv (hy_recr w)"

lemma rs_inv_unit_rows: "rs_inv m \<Longrightarrow> rows_ok () m (replicate (r_size m) ())"
  by (simp add: rows_ok_def)

text \<open>
  C27 (functional): let the cache have one stream and no sliding window, let the batch be initialised,
  its sequences be distinct for each token and ones both memories have, its positions be from 0 to
  \<open>2 ^ 31 - 2\<close>, and let embeddings be wanted of all tokens (then it is split
  by sequences) or no sequences be coupled (otherwise the splitter refuses the batch). Then
  \<open>init_batch\<close> of the hybrid memory returns; the micro-batches hold every token of the batch once; the
  recurrent memory never refuses, so the batch fails exactly when the cache has no slots; when it has,
  one slot is prepared per micro-batch and placing them in order succeeds; in either case the cache
  stays as it was and so do the recurrent memory's cells, their number in use and the search head. (The
  extent of the last slot, \<open>r_n\<close> and \<open>r_rs_z\<close>, is not restored; the next micro-batch sets it.)
\<close>

theorem hybrid_init_batch_spec:
  assumes "batch_init inp n_vocab mem n_embd n_seq_max output_all a0 = Some (True, a)"
    and "input_ok n_embd (a_n_pos_per_embd a0) inp" "tokens_fit n_seq_max a" "embd_all \<or> \<not> a_has_cpl a"
    and "hybrid_ready w" "n_seq_max \<le> r_size (hy_recr w)" "\<forall>t. 0 \<le> t \<longrightarrow> t < int n_seq_max \<longrightarrow> valid_seq (hy_attn w) t"
  shows "\<exists>y a' w' us sinfos. hybrid_init_batch a n_ubatch embd_all w = Some (y, a', w')
     \<and> mset (concat (map (ubatch_rows n_embd) us)) = mset (map (batch_row a) [0..<nat (b_n_tokens inp)])
     \<and> prepare us (hy_attn w) = Some (sinfos, hy_attn w)
     \<and> y = (if sinfos = [] then hybrid_context_status STATUS_FAILED_PREPARE else hybrid_context_batch sinfos us)
     \<and> (sinfos \<noteq> [] \<longrightarrow> length sinfos = length us \<and> (\<exists>c. apply_all sinfos us (hy_attn w) = Some c \<and> kv_inv c))
     \<and> hy_attn w' = hy_attn w \<and> r_cells (hy_recr w') = r_cells (hy_recr w)
     \<and> r_used (hy_recr w') = r_used (hy_recr w) \<and> r_head (hy_recr w') = r_head (hy_recr w) \<and> hybrid_ready w'"
proof -
  have w: "kv_inv (hy_attn w)" "k_n_stream (hy_attn w) = 1" "k_swa_type (hy_attn w) = SWA_NONE" "searchable (hy_attn w)" "rs_inv (hy_recr w)"
    using assms(5) by (simp_all add: hybrid_ready_def)
  obtain us a' where us: "split_run (all_split embd_all n_ubatch) (Suc (get_n_tokens a)) a = Some (us, a')"
    "mset (concat (map (ubatch_rows n_embd) us)) = mset (map (batch_row a) [0..<nat (b_n_tokens inp)])"
    "get_n_used a' = get_n_tokens a'" "us \<noteq> []" "\<forall>u \<in> set us. ubatch_fits n_seq_max u"
    by (rule split_fits [OF assms(1-4), of n_ubatch])
  have recr: "\<forall>u \<in> set us. rs_batch (r_size (hy_recr w)) u" using us(5) tokens_fit_mono assms(6) by (auto simp: ubatch_fits_def)
  obtain m where m: "rs_prepare us (hy_recr w) = Some (True, m)" "rs_inv m"
    by (rule prepare_ok [OF w(5) rs_inv_unit_rows [OF w(5)] recr])
  have cells: "r_cells m = r_cells (hy_recr w)" "r_used m = r_used (hy_recr w)" "r_head m = r_head (hy_recr w)" using m(1) by (auto simp: rs_prepare_def Option.bind_eq_Some_conv)
  have attn: "\<forall>u \<in> set us. \<exists>m n. ubatch_ok (hy_attn w) u m n" using us(5) w(1,2) assms(7) by (auto simp: ubatch_fits_def)
  obtain sinfos hs where s: "prepare us (hy_attn w) = Some (sinfos, (hy_attn w)\<lparr>k_v_heads := hs\<rparr>)" "hs = k_v_heads (hy_attn w)"
    "sinfos \<noteq> [] \<longrightarrow> length sinfos = length us \<and> (\<exists>c. apply_all sinfos us (hy_attn w) = Some c \<and> kv_inv c)"
    using prepare_spec [OF w(1,4,3) us(4) attn] w(2) by blast
  then have s': "prepare us (hy_attn w) = Some (sinfos, hy_attn w)" by simp
  have same: "w\<lparr>hy_recr := m, hy_attn := hy_attn w\<rparr> = w\<lparr>hy_recr := m\<rparr>" by (cases w) simp
  have "hybrid_init_batch a n_ubatch embd_all w = Some
      (if sinfos = [] then hybrid_context_status STATUS_FAILED_PREPARE else hybrid_context_batch sinfos us, a', w\<lparr>hy_recr := m\<rparr>)"
    using us(1) unfolding hybrid_init_batch_def Let_def init_reset(1) [OF assms(1)] all_split_def
    by (simp add: us(3) m(1) s' same)
  moreover have "hybrid_ready (w\<lparr>hy_recr := m\<rparr>)" using w m(2) by (simp add: hybrid_ready_def)
  ultimately show ?thesis using us(2) s' s(3) cells by (intro exI) (rule conjI, assumption, simp)
qed
lemma demo_tokens_fit:
  assumes "batch_init demo_batch 10 None 2 2 False (batch_allocr_new 1) = Some (True, a)"
  shows "tokens_fit 2 a"
proof -
  have "map_option (\<lambda>(_, a). tokens_fit 2 a) (batch_init demo_batch 10 None 2 2 False (batch_allocr_new 1)) = Some True"
    by code_simp
  then show ?thesis using assms by simp
qed

lemma demo_hybrid:
  obtains w where "hybrid_ready w" "r_size (hy_recr w) = 2" "\<forall>t. 0 \<le> t \<longrightarrow> t < 2 \<longrightarrow> valid_seq (hy_attn w) t"
    "hy_recr w = demo_rs" "kv_tables (hy_attn w) = [[free_cell, (5, ext_zero, 0, {0}), free_cell, free_cell]]"
proof -
  obtain c where c: "kv_inv c" "kv_size c = 4" "k_n_stream c = 1" "valid_seq c 0" "valid_seq c 1"
    "kv_tables c = [[free_cell, (5, ext_zero, 0, {0}), free_cell, free_cell]]" "k_swa_type c = SWA_NONE" by (rule demo_cache)
  let ?w = "\<lparr>hy_hparams = demo_hparams, hy_attn = c, hy_recr = demo_rs\<rparr>"
  have "rs_inv demo_rs" using demo_rs_good(1) by (simp add: rs_good_def)
  then have "hybrid_ready ?w" using c demo_searchable [OF c(2,7,6)] by (simp add: hybrid_ready_def)
  moreover have "valid_seq c t" if "0 \<le> t" "t < 2" for t
  proof -
    have "t = 0 \<or> t = 1" using that by linarith
    then show ?thesis using c(4,5) by blast
  qed
  ultimately show thesis by (intro that [of ?w]) (simp_all add: demo_rs_good(3) c(6))
qed

theorem hybrid_init_batch_spec_witness:
  "\<exists>a w y a' w'. batch_init demo_batch 10 None 2 2 False (batch_allocr_new 1) = Some (True, a)
     \<and> hybrid_init_batch a 3 True w = Some (y, a', w') \<and> hy_attn w' = hy_attn w \<and> hybrid_ready w'"
proof -
  obtain a where a: "batch_init demo_batch 10 None 2 2 False (batch_allocr_new 1) = Some (True, a)" by (rule demo_init)
  obtain w where w: "hybrid_ready w" "r_size (hy_recr w) = 2" "\<forall>t. 0 \<le> t \<longrightarrow> t < 2 \<longrightarrow> valid_seq (hy_attn w) t"
    by (rule demo_hybrid)
  from hybrid_init_batch_spec [OF a demo_input(1) demo_tokens_fit [OF a] _ w(1), of True 3] w(2,3) a show ?thesis by auto
qed

end
