(* ===== verification/Hybrid_Sync.thy ===== *)
theory Hybrid_Sync
  imports Hybrid_Init
begin

text \<open>
  The two memories of a hybrid model agree on where sequences end: the position of the recurrent state
  of a sequence is the greatest position the cache holds for it. This is what lets the next batch
  continue in both.
\<close>

section \<open>The invariant\<close>

definition rs_pos :: "memory_recurrent \<Rightarrow> int \<Rightarrow> int option" where
  "rs_pos m q = (if seq_valid m q \<and> 0 \<le> tail_of m q then Some (pos_at m (nat (tail_of m q))) else None)"

definition ends_at :: "(int \<times> int) set \<Rightarrow> int \<Rightarrow> int option \<Rightarrow> bool" where
  "ends_at E q e \<longleftrightarrow> (case e of None \<Rightarrow> \<forall>p. (p, q) \<notin> E | Some p \<Rightarrow> (p, q) \<in> E \<and> (\<forall>p'. (p', q) \<in> E \<longrightarrow> p' \<le> p))"

definition in_sync :: "memory_hybrid \<Rightarrow> bool" where
  "in_sync w \<longleftrightarrow> (\<forall>q. ends_at (entries (kv_tables (hy_attn w))) q (rs_pos (hy_recr w) q))"

text \<open>One stream for all sequences, or one for each.\<close>

definition own_streams :: "kv_cache \<Rightarrow> bool" where
  "own_streams c \<longleftrightarrow> k_n_stream c = 1 \<or> (\<forall>t t'. valid_seq c t \<longrightarrow> valid_seq c t' \<longrightarrow> strm c t = strm c t' \<longrightarrow> t = t')"

definition hybrid_inv :: "memory_hybrid \<Rightarrow> bool" where
  "hybrid_inv w \<longleftrightarrow> kv_inv (hy_attn w) \<and> own_streams (hy_attn w) \<and> rs_inv (hy_recr w) \<and> in_sync w"

lemma unit_states: "states_of m rows = (\<lambda>q. map_option (\<lambda>p. (p, ())) (rs_pos m q))"
  by (simp add: states_of_def rs_pos_def fun_eq_iff)

lemma pos_of_states: "rs_pos m q = map_option fst (states_of m (rows :: unit list) q)"
  by (simp add: states_of_def rs_pos_def)

text \<open>Steps of the recurrent memory, seen from the positions.\<close>

lemma steps_pos:
  assumes "rs_inv m" "steps_to () m m' eff"
  shows "rs_inv m'" "r_size m' = r_size m" "rs_pos m' q = map_option fst (eff (\<lambda>q. map_option (\<lambda>p. (p, ())) (rs_pos m q)) q)"
proof -
  have s: "rs_inv m'" "r_size m' = r_size m"
    "\<And>rows. rows_ok () m rows \<Longrightarrow> states_of m' rows = eff (states_of m rows)"
    using assms(2) by (simp_all add: steps_to_def)
  show "rs_inv m'" "r_size m' = r_size m" by (fact s)+
  have "states_of m' (replicate (r_size m) ()) = eff (states_of m (replicate (r_size m) ()))"
    by (rule s(3) [OF rs_inv_unit_rows [OF assms(1)]])
  then show "rs_pos m' q = map_option fst (eff (\<lambda>q. map_option (\<lambda>p. (p, ())) (rs_pos m q)) q)"
    unfolding pos_of_states [of m' q "replicate (r_size m) ()"] by (simp add: unit_states)
qed

lemma rs_pos_bounds:
  assumes "rs_inv m" "rs_pos m q = Some p"
  shows "seq_valid m q" "0 \<le> p" "p < INT32_MAX"
proof -
  note ok = rs_invD(1) [OF assms(1)]
  show q: "seq_valid m q" using assms(2) by (simp add: rs_pos_def split: if_splits)
  have "0 \<le> tail_of m q" "p = pos_at m (nat (tail_of m q))" using assms(2) by (simp_all add: rs_pos_def split: if_splits)
  with ok q show "0 \<le> p" "p < INT32_MAX"
    by (cases rule: tail_cases; use tails_okD(8) [OF ok] in fastforce)+
qed

lemma entry_bounds:
  assumes "kv_inv c" "(p, t) \<in> entries (kv_tables c)"
  shows "valid_seq c t" "0 \<le> p"
proof -
  obtain s e h b where s: "s < k_n_stream c" "(p, e, h, b) \<in> set (kv_tables c ! s)" "t \<in> b"
    using assms kv_tables_length [OF assms(1)] by (auto simp: entries_nth tab_entries_def)
  show "valid_seq c t" by (rule entry_stream [OF assms(1) s(1) tab_entriesI [OF s(2,3)]])
  note st = kv_inv_stream [OF assms(1) s(1)]
  obtain j where j: "j < cells_size (k_v_cells c ! s)" "cell (k_v_cells c ! s) j = (p, e, h, b)"
    using s(2) st(4,7) by (auto simp: in_set_conv_nth)
  then show "0 \<le> p" using cells_wf_cell [OF cells_inv_wf [OF st(3)] j(1)] s(3) by (auto simp: cell_def Kv_Cells.cell_ok_def)
qed
section \<open>One operation\<close>

lemma attn_step:
  assumes "kv_inv c" "kv_pre c (kv_size c) op (kv_tables c)" "keeps_positions op"
  obtains c' where "kv_run op c = Some c'" "kv_inv c'" "same_config c c'" "kv_size c' = kv_size c"
    "entries (kv_tables c') = entry_effect (strm c) op (entries (kv_tables c))"
  using kv_run_refines [OF assms(1,2)] entries_effect [OF assms] by metis

lemma own_streams_cong: "same_config c c' \<Longrightarrow> own_streams c' \<longleftrightarrow> own_streams c"
  using same_config_strm [of c c'] by (simp add: own_streams_def same_config_def)

text \<open>A new state of both memories that is in sync again.\<close>

lemma hybrid_invI:
  assumes "hybrid_inv w" "kv_inv a" "same_config (hy_attn w) a" "rs_inv r"
    and "\<And>q. ends_at (entries (kv_tables a)) q (rs_pos r q)"
  shows "hybrid_inv (w\<lparr>hy_attn := a, hy_recr := r\<rparr>)"
  using assms own_streams_cong [OF assms(3)] by (simp add: hybrid_inv_def in_sync_def)

lemma hybrid_invD:
  assumes "hybrid_inv w"
  shows "kv_inv (hy_attn w)" "own_streams (hy_attn w)" "rs_inv (hy_recr w)"
    "ends_at (entries (kv_tables (hy_attn w))) q (rs_pos (hy_recr w) q)"
  using assms by (simp_all add: hybrid_inv_def in_sync_def)

lemma ends_at_None [simp]: "ends_at E q None \<longleftrightarrow> (\<forall>p. (p, q) \<notin> E)"
  by (simp add: ends_at_def)

lemma ends_at_Some [simp]: "ends_at E q (Some p) \<longleftrightarrow> (p, q) \<in> E \<and> (\<forall>p'. (p', q) \<in> E \<longrightarrow> p' \<le> p)"
  by (simp add: ends_at_def)

lemma ends_at_cong: "(\<And>p. (p, q) \<in> E \<longleftrightarrow> (p, q') \<in> E') \<Longrightarrow> ends_at E q e \<longleftrightarrow> ends_at E' q' e"
  by (cases e) simp_all

lemma hybrid_clear_sync:
  assumes "hybrid_inv w"
  obtains w' where "hybrid_clear w = Some w'" "hybrid_inv w'" "r_size (hy_recr w') = r_size (hy_recr w)" "same_config (hy_attn w) (hy_attn w')"
proof -
  note D = hybrid_invD [OF assms]
  have pre: "kv_pre (hy_attn w) (kv_size (hy_attn w)) KClear (kv_tables (hy_attn w))" "keeps_positions KClear" by simp_all
  obtain c where c: "kv_run KClear (hy_attn w) = Some c" "kv_inv c" "same_config (hy_attn w) c" "kv_size c = kv_size (hy_attn w)"
    "entries (kv_tables c) = entry_effect (strm (hy_attn w)) KClear (entries (kv_tables (hy_attn w)))"
    by (rule attn_step [OF D(1) pre]) (rule that)
  obtain m where m: "rs_clear (hy_recr w) = Some m" "steps_to () (hy_recr w) m (\<lambda>_ _. None)"
    by (rule clear_spec [OF D(3)])
  note p = steps_pos [OF D(3) m(2)]
  have "hybrid_inv (w\<lparr>hy_attn := c, hy_recr := m\<rparr>)"
    by (rule hybrid_invI [OF assms c(2,3) p(1)]) (simp add: c(5) p(3))
  then show thesis
    by (rule that [of "w\<lparr>hy_attn := c, hy_recr := m\<rparr>", rotated]) (use c(1,3) m(1) p(2) in \<open>simp_all add: hybrid_clear_def\<close>)
qed

text \<open>Removing a range: a refusal changes nothing.\<close>

lemma rm_ends:
  assumes e: "ends_at E q (Some p)" and pos: "\<And>p'. (p', q) \<in> E \<Longrightarrow> 0 \<le> p'" and ref: "\<not> (0 < lo \<and> lo \<le> p \<and> p < hi)" and lo: "0 \<le> lo"
    and E': "\<And>p'. (p', q) \<in> E' \<longleftrightarrow> (p', q) \<in> E \<and> \<not> in_range lo hi p'"
  shows "ends_at E' q (if lo = 0 \<and> p < hi then None else Some p)"
proof (cases "lo = 0 \<and> p < hi")
  case True
  then have "(p', q) \<notin> E'" for p' using e pos [of p'] unfolding E' in_range_def by auto
  then show ?thesis using True by simp
next
  case False
  then have "\<not> in_range lo hi p" using ref lo by (auto simp: in_range_def)
  then show ?thesis using False e by (auto simp: E')
qed

lemma hybrid_rm_sync:
  assumes inv: "hybrid_inv w" and t: "valid_seq (hy_attn w) t" "seq_valid (hy_recr w) t"
  obtains b w' where "hybrid_seq_rm t p0 p1 w = Some (b, w')" "hybrid_inv w'" "r_size (hy_recr w') = r_size (hy_recr w)"
    "same_config (hy_attn w) (hy_attn w')"
proof -
  note D = hybrid_invD [OF inv]
  let ?r = "hy_recr w" and ?a = "hy_attn w" and ?lo = "range_lo p0" and ?hi = "range_hi p1"
  let ?u = "replicate (r_size ?r) ()"
  obtain m where m: "rs_seq_rm t p0 p1 ?r = Some (\<not> rm_refused p0 p1 (states_of ?r ?u t), m)" "steps_to () ?r m (rm_effect t p0 p1)"
    by (rule seq_rm_spec [OF D(3) t(2)])
  note p = steps_pos [OF D(3) m(2)]
  have new: "rs_pos m q = (if q = t then (case rs_pos ?r t of None \<Rightarrow> None | Some p \<Rightarrow> if ?lo = 0 \<and> p < ?hi then None else Some p) else rs_pos ?r q)" for q
    unfolding p(3) by (simp add: rm_effect_def option.map_comp o_def option.map_ident split: option.split)
  have ref: "rm_refused p0 p1 (states_of ?r ?u t) \<longleftrightarrow> (\<exists>p. rs_pos ?r t = Some p \<and> 0 < ?lo \<and> ?lo \<le> p \<and> p < ?hi)"
    by (auto simp: unit_states rm_refused_def split: option.split)
  show thesis
  proof (cases "rm_refused p0 p1 (states_of ?r ?u t)")
    case True
    then have "rs_pos m q = rs_pos ?r q" for q using ref by (auto simp: new)
    then have "hybrid_inv (w\<lparr>hy_attn := ?a, hy_recr := m\<rparr>)" by (intro hybrid_invI [OF inv D(1) same_config_refl p(1)]) (simp add: D(4))
    then show thesis
      by (intro that [of False "w\<lparr>hy_recr := m\<rparr>"]) (use True m(1) p(2) in \<open>simp_all add: hybrid_seq_rm_def\<close>)
  next
    case False
    have t0: "0 \<le> t" using t(2) by (simp add: seq_valid_def)
    have pre: "kv_pre ?a (kv_size ?a) (KSeqRm t p0 p1) (kv_tables ?a)" "keeps_positions (KSeqRm t p0 p1)" using t(1) by simp_all
    obtain c where c: "kv_run (KSeqRm t p0 p1) ?a = Some c" "kv_inv c" "same_config ?a c" "kv_size c = kv_size ?a"
      "entries (kv_tables c) = entry_effect (strm ?a) (KSeqRm t p0 p1) (entries (kv_tables ?a))"
      by (rule attn_step [OF D(1) pre]) (rule that)
    obtain b where b: "kv_seq_rm t p0 p1 ?a = Some (b, c)" using c(1) by auto
    have ends: "ends_at (entries (kv_tables c)) q (rs_pos m q)" for q
    proof (cases "q = t \<and> rs_pos ?r t \<noteq> None")
      case True
      then obtain p where p: "rs_pos ?r t = Some p" by auto
      have "ends_at (entries (kv_tables c)) t (if ?lo = 0 \<and> p < ?hi then None else Some p)"
        by (rule rm_ends [where E = "entries (kv_tables ?a)"])
          (use D(4) [of t] p False ref t0 entry_bounds(2) [OF D(1)] range_lo_nonneg in \<open>auto simp: c(5)\<close>)
      then show ?thesis using True p by (simp add: new)
    next
      case False
      then have "rs_pos m q = rs_pos ?r q" by (auto simp: new)
      moreover have "(p, q) \<in> entries (kv_tables c) \<longleftrightarrow> (p, q) \<in> entries (kv_tables ?a)" for p
        using False D(4) [of q] t0 by (auto simp: c(5))
      ultimately show ?thesis using D(4) [of q] ends_at_cong by metis
    qed
    show thesis
      by (rule that [of b "w\<lparr>hy_attn := c, hy_recr := m\<rparr>"])
        (use False m(1) b p(2) c(3) hybrid_invI [OF inv c(2,3) p(1) ends] in \<open>simp_all add: hybrid_seq_rm_def\<close>)
  qed
qed
text \<open>Copying a whole sequence, to one that is empty when the two share a stream.\<close>

lemma hybrid_cp_sync:
  assumes inv: "hybrid_inv w" and v: "seq_valid (hy_recr w) src" "seq_valid (hy_recr w) dst"
    and pre: "kv_pre (hy_attn w) (kv_size (hy_attn w)) (KSeqCp src dst p0 p1) (kv_tables (hy_attn w))"
    and full: "range_lo p0 = 0" "range_hi p1 = INT32_MAX"
    and empty: "strm (hy_attn w) src = strm (hy_attn w) dst \<Longrightarrow> src \<noteq> dst \<Longrightarrow> rs_pos (hy_recr w) dst = None"
  obtains w' where "hybrid_seq_cp src dst p0 p1 w = Some w'" "hybrid_inv w'" "r_size (hy_recr w') = r_size (hy_recr w)"
    "same_config (hy_attn w) (hy_attn w')"
proof -
  note D = hybrid_invD [OF inv]
  let ?r = "hy_recr w" and ?a = "hy_attn w"
  let ?E = "entries (kv_tables ?a)"
  obtain m where m: "rs_seq_cp src dst p0 p1 ?r = Some m" "steps_to () ?r m (\<lambda>s. s(dst := s src))"
    by (rule seq_cp_spec [OF D(3) v])
  note p = steps_pos [OF D(3) m(2)]
  have keep: "keeps_positions (KSeqCp src dst p0 p1)" by simp
  obtain c where c: "kv_run (KSeqCp src dst p0 p1) ?a = Some c" "kv_inv c" "same_config ?a c" "kv_size c = kv_size ?a"
    "entries (kv_tables c) = entry_effect (strm ?a) (KSeqCp src dst p0 p1) ?E"
    by (rule attn_step [OF D(1) pre keep]) (rule that)
  have vd: "valid_seq ?a dst" using pre by simp
  have range: "in_range 0 INT32_MAX x" if "(x, src) \<in> ?E" for x
  proof -
    have "rs_pos ?r src \<noteq> None"
    proof
      assume "rs_pos ?r src = None"
      then show False using D(4) [of src] that by simp
    qed
    then obtain y where y: "rs_pos ?r src = Some y" by blast
    then have "x \<le> y" using D(4) [of src] that by simp
    then show ?thesis using rs_pos_bounds(3) [OF D(3) y] entry_bounds(2) [OF D(1) that] by (simp add: in_range_def)
  qed
  have own: "t = dst" if "strm ?a src \<noteq> strm ?a dst" "(x, t) \<in> ?E" "strm ?a t = strm ?a dst" for x t
  proof -
    have "valid_seq ?a t" by (rule entry_bounds(1) [OF D(1) that(2)])
    moreover have "k_n_stream ?a \<noteq> 1"
      using that(1) pre kv_inv_seq(2) [OF D(1), of src] kv_inv_seq(2) [OF D(1) vd] by auto
    ultimately show ?thesis using D(2) vd that(3) by (auto simp: own_streams_def)
  qed
  have none: "(x, dst) \<notin> ?E" if "strm ?a src = strm ?a dst" "src \<noteq> dst" for x
    using D(4) [of dst] empty [OF that] by simp
  have E': "(x, q) \<in> entries (kv_tables c) \<longleftrightarrow> (x, if q = dst then src else q) \<in> ?E" for x q
  proof (cases "src = dst")
    case False
    then show ?thesis
      using none range own [of x q] by (cases "strm ?a src = strm ?a dst") (auto simp: c(5) full split: if_splits)
  qed (simp add: c(5))
  have new: "rs_pos m q = rs_pos ?r (if q = dst then src else q)" for q
    by (simp add: p(3) option.map_comp o_def option.map_ident)
  have ends: "ends_at (entries (kv_tables c)) q (rs_pos m q)" for q
    using D(4) [of "if q = dst then src else q"] ends_at_cong [OF E'] unfolding new by blast
  show thesis
    by (rule that [OF _ hybrid_invI [OF inv c(2,3) p(1) ends]]) (use c(1,3) m(1) p(2) in \<open>simp_all add: hybrid_seq_cp_def hybrid_both_def\<close>)
qed

lemma hybrid_keep_sync:
  assumes inv: "hybrid_inv w" and t: "valid_seq (hy_attn w) t" and one: "k_n_stream (hy_attn w) = 1"
  obtains w' where "hybrid_seq_keep t w = Some w'" "hybrid_inv w'" "r_size (hy_recr w') = r_size (hy_recr w)"
    "same_config (hy_attn w) (hy_attn w')"
proof -
  note D = hybrid_invD [OF inv]
  let ?r = "hy_recr w" and ?a = "hy_attn w"
  let ?E = "entries (kv_tables ?a)"
  obtain m where m: "rs_seq_keep t ?r = Some m" "steps_to () ?r m (\<lambda>s x. if x = t then s x else None)"
    by (rule seq_keep_spec [OF D(3)])
  note p = steps_pos [OF D(3) m(2)]
  have pre: "kv_pre ?a (kv_size ?a) (KSeqKeep t) (kv_tables ?a)" "keeps_positions (KSeqKeep t)" using t by simp_all
  obtain c where c: "kv_run (KSeqKeep t) ?a = Some c" "kv_inv c" "same_config ?a c" "kv_size c = kv_size ?a"
    "entries (kv_tables c) = entry_effect (strm ?a) (KSeqKeep t) ?E"
    by (rule attn_step [OF D(1) pre]) (rule that)
  have E': "(x, q) \<in> entries (kv_tables c) \<longleftrightarrow> q = t \<and> (x, q) \<in> ?E" for x q
    using entry_bounds(1) [OF D(1), of x q] kv_inv_seq(2) [OF D(1), of q] kv_inv_seq(2) [OF D(1) t] one by (auto simp: c(5))
  have new: "rs_pos m q = (if q = t then rs_pos ?r q else None)" for q
    by (simp add: p(3) option.map_comp o_def option.map_ident)
  have ends: "ends_at (entries (kv_tables c)) q (rs_pos m q)" for q
  proof (cases "q = t")
    case True
    then show ?thesis using D(4) [of t] ends_at_cong [of t "entries (kv_tables c)" t ?E] by (simp add: E' new)
  qed (simp add: E' new)
  show thesis
    by (rule that [OF _ hybrid_invI [OF inv c(2,3) p(1) ends]]) (use c(1,3) m(1) p(2) in \<open>simp_all add: hybrid_seq_keep_def hybrid_both_def\<close>)
qed
section \<open>Placing a micro-batch\<close>

lemma find_slot_pos:
  assumes inv: "rs_inv m" and u: "rs_batch (r_size m) u"
  obtains m' where "rs_find_slot u m = Some (True, m')" "rs_inv m'" "r_size m' = r_size m"
    "\<And>s q. s < u_n_seqs u \<Longrightarrow> q \<in> set (ids_of u s) \<Longrightarrow> rs_pos m' q = Some (last_pos u s)"
    "\<And>q. \<not> in_batch u q \<Longrightarrow> rs_pos m' q = rs_pos m q"
proof -
  let ?rows = "replicate (r_size m) ()"
  obtain states m' rows' where c: "rs_compute () id u (m, ?rows) = Some (True, states, m', rows')" "rs_inv m'" "r_size m' = r_size m"
    "batch_effect () id u (states_of m ?rows) (states_of m' rows')"
    using compute_spec [OF inv rs_inv_unit_rows [OF inv] u, of id] by (metis id_apply)
  have slot: "rs_find_slot u m = Some (True, m')"
    using c(1) by (auto simp: rs_compute_def Option.bind_eq_Some_conv split: if_splits)
  have "rs_pos m' q = Some (last_pos u s)" if "s < u_n_seqs u" "q \<in> set (ids_of u s)" for s q
    using c(4) that unfolding pos_of_states [of m' q rows'] by (simp add: batch_effect_def)
  moreover have "rs_pos m' q = rs_pos m q" if "\<not> in_batch u q" for q
    using c(4) that unfolding pos_of_states [of m' q rows'] pos_of_states [of m q ?rows] by (simp add: batch_effect_def)
  ultimately show thesis using that slot c(2,3) by blast
qed

lemma get_n_kv_total:
  assumes "kv_inv c" "\<forall>t \<in> set (si_strm si). t < k_n_stream c"
  shows "\<exists>n. get_n_kv si c = Some n"
proof -
  have "si_strm si ! s < length (k_v_cells c)" if "s < length (si_strm si)" for s
    using that assms kv_inv_stream(1) [OF assms(1)] nth_mem [of s "si_strm si"] by simp
  then show ?thesis unfolding get_n_kv_def Let_def by (intro foldo_total) (simp add: slot_n_stream_def)
qed

text \<open>A micro-batch continues its sequences: its positions come after those of the memory, the last one last.\<close>

definition continues :: "memory_recurrent \<Rightarrow> llama_ubatch \<Rightarrow> bool" where
  "continues m u \<longleftrightarrow> (\<forall>i < u_n_tokens u. u_pos u ! i \<le> last_pos u (i div u_n_seq_tokens u))
     \<and> (\<forall>s < u_n_seqs u. \<forall>q \<in> set (ids_of u s). \<forall>p. rs_pos m q = Some p \<longrightarrow> p \<le> last_pos u s)"

definition placeable :: "memory_hybrid \<Rightarrow> llama_ubatch \<Rightarrow> nat \<Rightarrow> nat \<Rightarrow> slot_info \<Rightarrow> bool" where
  "placeable w u m n si \<longleftrightarrow> k_swa_type (hy_attn w) = SWA_NONE \<and> searchable (hy_attn w) \<and> ubatch_ok (hy_attn w) u m n
     \<and> slot_ok (hy_attn w) u m n si \<and> rs_batch (r_size (hy_recr w)) u \<and> blocks_ok u \<and> continues (hy_recr w) u"

lemma placed_ends:
  assumes E': "E' = E \<union> new_entries u (u_n_tokens u)" and u: "rs_batch n u" "blocks_ok u" "continues m u"
    and e: "ends_at E q (rs_pos m q)" and r: "\<And>s. s < u_n_seqs u \<Longrightarrow> q \<in> set (ids_of u s) \<Longrightarrow> e' = Some (last_pos u s)"
    "\<not> in_batch u q \<Longrightarrow> e' = rs_pos m q"
  shows "ends_at E' q e'"
proof -
  have N: "u_n_tokens u = u_n_seq_tokens u * u_n_seqs u" "0 < u_n_seq_tokens u" using u(1,2) rs_batchD(3) by (auto simp: blocks_ok_def)
  have blk: "i div u_n_seq_tokens u < u_n_seqs u" "set (token_seqs u i) = set (ids_of u (i div u_n_seq_tokens u))"
    if "i < u_n_tokens u" for i
    using that u(2) N by (simp_all add: blocks_ok_def less_mult_imp_div_less mult.commute)
  show ?thesis
  proof (cases "in_batch u q")
    case True
    then obtain s where s: "s < u_n_seqs u" "q \<in> set (ids_of u s)" by (auto simp: in_batch_def)
    let ?k = "s * u_n_seq_tokens u + (u_n_seq_tokens u - 1)"
    have "?k < Suc s * u_n_seq_tokens u" using N(2) by simp
    also have "\<dots> \<le> u_n_seqs u * u_n_seq_tokens u" using s(1) by (intro mult_le_mono1) simp
    finally have k: "?k < u_n_tokens u" using N(1) by (simp add: mult.commute)
    have kd: "?k div u_n_seq_tokens u = s" using N(2) by (intro div_nat_eqI) (simp_all add: mult.commute)
    have "last_pos u s = u_pos u ! ?k" using N(2) by (simp add: last_pos_def)
    then have "(last_pos u s, q) \<in> new_entries u (u_n_tokens u)"
      using k s(2) blk(2) [OF k] unfolding kd new_entries_def by blast
    moreover have "p \<le> last_pos u s" if "(p, q) \<in> E'" for p
    proof -
      from that E' consider "(p, q) \<in> E" | i where "i < u_n_tokens u" "p = u_pos u ! i" "q \<in> set (token_seqs u i)"
        by (auto simp: new_entries_def)
      then show ?thesis
      proof cases
        case 1
        then have "rs_pos m q \<noteq> None" using e by (cases "rs_pos m q") auto
        then obtain x where x: "rs_pos m q = Some x" by blast
        then have "p \<le> x" using e 1 by simp
        also have "x \<le> last_pos u s" using u(3) s x by (auto simp: continues_def)
        finally show ?thesis .
      next
        case 2
        then have "i div u_n_seq_tokens u = s" using blk [OF 2(1)] rs_batchD(8) [OF u(1) _ s(1) _ s(2)] by auto
        then show ?thesis using 2(1,2) u(3) by (auto simp: continues_def)
      qed
    qed
    ultimately show ?thesis using r(1) [OF s] E' by auto
  next
    case False
    have "(p, q) \<in> E' \<longleftrightarrow> (p, q) \<in> E" for p
    proof -
      have "(p, q) \<notin> new_entries u (u_n_tokens u)" using False blk by (auto simp: new_entries_def in_batch_def)
      then show ?thesis using E' by blast
    qed
    then show ?thesis using e r(2) [OF False] ends_at_cong [of q E' q E] by simp
  qed
qed
lemma hybrid_place_sync:
  assumes inv: "hybrid_inv w" and p: "placeable w u m n si"
  obtains c r where "apply_ubatch si u (hy_attn w) = Some c" "rs_find_slot u (hy_recr w) = Some (True, r)"
    "hybrid_inv (w\<lparr>hy_attn := c, hy_recr := r\<rparr>)" "r_size r = r_size (hy_recr w)" "same_config (hy_attn w) c"
    "\<exists>k. get_n_kv si c = Some k"
proof -
  note D = hybrid_invD [OF inv]
  have P: "k_swa_type (hy_attn w) = SWA_NONE" "searchable (hy_attn w)" "ubatch_ok (hy_attn w) u m n" "slot_ok (hy_attn w) u m n si"
    "rs_batch (r_size (hy_recr w)) u" "blocks_ok u" "continues (hy_recr w) u" using p by (simp_all add: placeable_def)
  have N: "u_n_tokens u = m * n" using P(3) by (simp add: ubatch_ok_def)
  note fit = slot_fits [OF D(1) P(2,3,4)]
  obtain c where c: "apply_ubatch si u (hy_attn w) = Some c" "kv_inv c" "same_config (hy_attn w) c"
    "kv_tables c = applied (hy_attn w) si u m n"
    using apply_ubatch_spec [OF D(1) fit searchable_size [OF P(2)]] by blast
  have tabs: "kv_tables c = place_tokens si u n (m * n) (kv_tables (hy_attn w))"
    unfolding c(4) by (rule applied_no_swa [OF D(1) P(1,4) fit])
  have E': "entries (kv_tables c) = entries (kv_tables (hy_attn w)) \<union> new_entries u (u_n_tokens u)"
    unfolding tabs N using place_entries_le [of si u n "m * n" "kv_tables (hy_attn w)"] place_entries_ge [OF D(1) P(1,4) fit]
    by (rule antisym)
  obtain r where r: "rs_find_slot u (hy_recr w) = Some (True, r)" "rs_inv r" "r_size r = r_size (hy_recr w)"
    "\<And>s q. s < u_n_seqs u \<Longrightarrow> q \<in> set (ids_of u s) \<Longrightarrow> rs_pos r q = Some (last_pos u s)"
    "\<And>q. \<not> in_batch u q \<Longrightarrow> rs_pos r q = rs_pos (hy_recr w) q"
    by (rule find_slot_pos [OF D(3) P(5)]) (rule that)
  have "ends_at (entries (kv_tables c)) q (rs_pos r q)" for q
    by (rule placed_ends [OF E' P(5-7) D(4)]) (use r(4,5) in auto)
  then have "hybrid_inv (w\<lparr>hy_attn := c, hy_recr := r\<rparr>)" by (rule hybrid_invI [OF inv c(2,3) r(2)])
  moreover have "\<forall>t \<in> set (si_strm si). t < k_n_stream c"
    using fit c(3) by (auto simp: fits_def in_set_conv_nth same_config_def)
  ultimately show thesis using that c(1,3) r(1,3) get_n_kv_total [OF c(2)] by blast
qed

section \<open>Runs\<close>

datatype hybrid_op =
    HyClear
  | HyRm int int int
  | HyCp int int int int
  | HyKeep int
  | HyApply hybrid_context

fun hybrid_run :: "hybrid_op \<Rightarrow> memory_hybrid \<Rightarrow> memory_hybrid option" where
  "hybrid_run HyClear w = hybrid_clear w"
| "hybrid_run (HyRm t p0 p1) w = map_option snd (hybrid_seq_rm t p0 p1 w)"
| "hybrid_run (HyCp src dst p0 p1) w = hybrid_seq_cp src dst p0 p1 w"
| "hybrid_run (HyKeep t) w = hybrid_seq_keep t w"
| "hybrid_run (HyApply y) w = map_option (\<lambda>(_, _, w'). w') (hybrid_context_apply SHIFT_DONE (y, w))"

definition both_valid :: "memory_hybrid \<Rightarrow> int \<Rightarrow> bool" where
  "both_valid w t \<longleftrightarrow> valid_seq (hy_attn w) t \<and> t < int (r_size (hy_recr w))"

text \<open>
  When the operations may be used: whole sequences are copied, a sequence that shares its stream only to
  an empty one; other sequences are dropped with a single stream; the context's next micro-batch is
  the same in both parts and has a slot.
\<close>

fun hybrid_pre :: "hybrid_op \<Rightarrow> memory_hybrid \<Rightarrow> bool" where
  "hybrid_pre HyClear w \<longleftrightarrow> True"
| "hybrid_pre (HyRm t p0 p1) w \<longleftrightarrow> both_valid w t"
| "hybrid_pre (HyCp src dst p0 p1) w \<longleftrightarrow> both_valid w src \<and> both_valid w dst
     \<and> kv_pre (hy_attn w) (kv_size (hy_attn w)) (KSeqCp src dst p0 p1) (kv_tables (hy_attn w))
     \<and> range_lo p0 = 0 \<and> range_hi p1 = INT32_MAX
     \<and> (strm (hy_attn w) src = strm (hy_attn w) dst \<longrightarrow> src \<noteq> dst \<longrightarrow> rs_pos (hy_recr w) dst = None)"
| "hybrid_pre (HyKeep t) w \<longleftrightarrow> both_valid w t \<and> k_n_stream (hy_attn w) = 1"
| "hybrid_pre (HyApply y) w \<longleftrightarrow> (\<exists>sinfos us k si u m n.
     y = (hybrid_context_batch sinfos us)\<lparr>z_i_next := k, z_attn := Some ((context_batch sinfos us)\<lparr>x_i_cur := k\<rparr>),
       z_recr := Some ((rs_context_status STATUS_SUCCESS)\<lparr>rx_ubatches := us, rx_i_next := k\<rparr>)\<rparr>
     \<and> nth_opt sinfos k = Some si \<and> nth_opt us k = Some u \<and> placeable w u m n si)"

lemma hybrid_step:
  assumes inv: "hybrid_inv w" and pre: "hybrid_pre oper w"
  shows "\<exists>w'. hybrid_run oper w = Some w' \<and> hybrid_inv w' \<and> r_size (hy_recr w') = r_size (hy_recr w) \<and> same_config (hy_attn w) (hy_attn w')"
proof -
  have sv: "seq_valid (hy_recr w) t" if "both_valid w t" for t
    using that by (simp add: both_valid_def seq_valid_def valid_seq_def)
  show ?thesis
  proof (cases oper)
    case HyClear
    then show ?thesis using hybrid_clear_sync [OF inv] by (metis hybrid_run.simps(1))
  next
    case (HyRm t p0 p1)
    then have t: "valid_seq (hy_attn w) t" "seq_valid (hy_recr w) t" using pre sv by (auto simp: both_valid_def)
    obtain b w' where "hybrid_seq_rm t p0 p1 w = Some (b, w')" "hybrid_inv w'" "r_size (hy_recr w') = r_size (hy_recr w)"
      "same_config (hy_attn w) (hy_attn w')"
      by (rule hybrid_rm_sync [OF inv t])
    then show ?thesis using HyRm by simp
  next
    case (HyCp src dst p0 p1)
    then have h: "seq_valid (hy_recr w) src" "seq_valid (hy_recr w) dst"
      "kv_pre (hy_attn w) (kv_size (hy_attn w)) (KSeqCp src dst p0 p1) (kv_tables (hy_attn w))" "range_lo p0 = 0" "range_hi p1 = INT32_MAX"
      "strm (hy_attn w) src = strm (hy_attn w) dst \<Longrightarrow> src \<noteq> dst \<Longrightarrow> rs_pos (hy_recr w) dst = None"
      using pre sv by (simp_all del: kv_pre.simps)
    obtain w' where "hybrid_seq_cp src dst p0 p1 w = Some w'" "hybrid_inv w'" "r_size (hy_recr w') = r_size (hy_recr w)"
      "same_config (hy_attn w) (hy_attn w')"
      by (rule hybrid_cp_sync [OF inv h])
    then show ?thesis using HyCp by simp
  next
    case (HyKeep t)
    then have h: "valid_seq (hy_attn w) t" "k_n_stream (hy_attn w) = 1" using pre by (simp_all add: both_valid_def)
    obtain w' where "hybrid_seq_keep t w = Some w'" "hybrid_inv w'" "r_size (hy_recr w') = r_size (hy_recr w)"
      "same_config (hy_attn w) (hy_attn w')"
      by (rule hybrid_keep_sync [OF inv h])
    then show ?thesis using HyKeep by simp
  next
    case (HyApply y)
    then obtain sinfos us k si u m n where
      y: "y = (hybrid_context_batch sinfos us)\<lparr>z_i_next := k, z_attn := Some ((context_batch sinfos us)\<lparr>x_i_cur := k\<rparr>),
       z_recr := Some ((rs_context_status STATUS_SUCCESS)\<lparr>rx_ubatches := us, rx_i_next := k\<rparr>)\<rparr>"
      and h: "nth_opt sinfos k = Some si" "nth_opt us k = Some u" "placeable w u m n si" using pre by auto
    obtain c r i where pl: "apply_ubatch si u (hy_attn w) = Some c" "rs_find_slot u (hy_recr w) = Some (True, r)"
      "hybrid_inv (w\<lparr>hy_attn := c, hy_recr := r\<rparr>)" "r_size r = r_size (hy_recr w)" "same_config (hy_attn w) c"
      "get_n_kv si c = Some i"
      by (rule hybrid_place_sync [OF inv h(3)]) blast
    have ne: "us \<noteq> []" using h(2) by (auto simp: nth_opt_def)
    have "context_apply SHIFT_DONE ((context_batch sinfos us)\<lparr>x_i_cur := k\<rparr>, hy_attn w)
        = Some (True, (context_batch sinfos us)\<lparr>x_i_cur := k, x_n_kv := i\<rparr>, c)"
      using h(1,2) ne pl(1,6) by (simp add: context_apply_def context_batch_def context_status_def status_is_fail_def)
    moreover have "rs_apply ((rs_context_status STATUS_SUCCESS)\<lparr>rx_ubatches := us, rx_i_next := k\<rparr>) (hy_recr w) = Some (True, r)"
      using h(2) ne pl(2) by (simp add: rs_apply_def rs_context_status_def status_is_fail_def)
    moreover have "\<not> status_is_fail (z_status y)"
      by (simp add: y hybrid_context_batch_def hybrid_context_of_def context_batch_def context_status_def rs_context_status_def
          status_combine_def status_is_fail_def)
    ultimately have "hybrid_run oper w = Some (w\<lparr>hy_attn := c, hy_recr := r\<rparr>)"
      using HyApply by (simp add: hybrid_context_apply_def y)
    then show ?thesis using pl(3-5) by simp
  qed
qed
lemma kv_pos_max_entries:
  assumes "kv_inv c" "valid_seq c t" "ends_at (entries (kv_tables c)) t e"
  shows "kv_seq_pos_max t c = Some (case e of None \<Rightarrow> -1 | Some p \<Rightarrow> p)"
proof -
  note s = kv_inv_seq [OF assms(1,2)]
  note st = kv_inv_stream [OF assms(1) s(2)]
  let ?cs = "k_v_cells c ! strm c t"
  have pos: "p \<in> seq_positions ?cs t \<longleftrightarrow> (p, t) \<in> entries (kv_tables c)" for p
  proof -
    have "(p, t) \<in> tab_entries (cell_list ?cs) \<longleftrightarrow> (\<exists>i < cells_size ?cs. p = c_pos ?cs ! i \<and> t \<in> c_seq ?cs ! i)"
      (is "?L \<longleftrightarrow> ?R")
    proof
      show ?L if ?R
      proof -
        from that obtain i where i: "i < cells_size ?cs" "p = c_pos ?cs ! i" "t \<in> c_seq ?cs ! i" by blast
        then have "(p, c_ext ?cs ! i, c_shift ?cs ! i, c_seq ?cs ! i) \<in> set (cell_list ?cs)"
          by (auto simp: cell_list_def cell_def intro: image_eqI [of _ _ i])
        then show ?thesis using tab_entriesI i(3) by blast
      qed
    qed (auto simp: tab_entries_def cell_list_def cell_def)
    then show ?thesis unfolding entries_iff [OF assms(1)] st(7) using assms(2) by (auto simp: seq_positions_def)
  qed
  have fin: "finite (seq_positions ?cs t)" by simp
  have "kv_seq_pos_max t c = Some (if seq_positions ?cs t = {} then -1 else Max (seq_positions ?cs t))"
    using assms(2) s st(1,3) by (simp add: kv_seq_pos_max_def cells_seq_pos_max_eq seq_ok_def)
  moreover have "(if seq_positions ?cs t = {} then -1 else Max (seq_positions ?cs t)) = (case e of None \<Rightarrow> -1 | Some p \<Rightarrow> p)"
  proof (cases e)
    case None
    then have "seq_positions ?cs t = {}" using assms(3) pos by auto
    then show ?thesis using None by simp
  next
    case (Some p)
    then have "p \<in> seq_positions ?cs t" "\<And>p'. p' \<in> seq_positions ?cs t \<Longrightarrow> p' \<le> p" using assms(3) pos by simp_all
    then have "seq_positions ?cs t \<noteq> {}" "Max (seq_positions ?cs t) = p" using fin by (auto intro: Max_eqI)
    then show ?thesis using Some by simp
  qed
  ultimately show ?thesis by simp
qed

lemma sync_pos_max:
  assumes "hybrid_inv w" "both_valid w t"
  shows "kv_seq_pos_max t (hy_attn w) = rs_seq_pos_max t (hy_recr w)" "hybrid_seq_pos_max t w = rs_seq_pos_max t (hy_recr w)"
proof -
  note D = hybrid_invD [OF assms(1)]
  have v: "valid_seq (hy_attn w) t" "seq_valid (hy_recr w) t" using assms(2) by (simp_all add: both_valid_def seq_valid_def valid_seq_def)
  have "rs_seq_pos_max t (hy_recr w) = Some (case rs_pos (hy_recr w) t of None \<Rightarrow> -1 | Some p \<Rightarrow> p)"
    using has_seq_only(1) [OF D(3) v(2), of "replicate (r_size (hy_recr w)) ()"] by (simp add: unit_states split: option.split)
  then show "kv_seq_pos_max t (hy_attn w) = rs_seq_pos_max t (hy_recr w)" "hybrid_seq_pos_max t w = rs_seq_pos_max t (hy_recr w)"
    using kv_pos_max_entries [OF D(1) v(1) D(4)] by (simp_all add: hybrid_seq_pos_max_def)
qed

text \<open>The preconditions along a run.\<close>

fun hybrid_pres :: "hybrid_op list \<Rightarrow> memory_hybrid \<Rightarrow> bool" where
  "hybrid_pres [] w \<longleftrightarrow> True"
| "hybrid_pres (oper # opers) w \<longleftrightarrow> hybrid_pre oper w \<and> (\<forall>w'. hybrid_run oper w = Some w' \<longrightarrow> hybrid_pres opers w')"

text \<open>
  C28 (invariant): through any run of \<open>clear\<close>, \<open>seq_rm\<close>, \<open>seq_cp\<close>, \<open>seq_keep\<close> and \<open>apply\<close> whose preconditions
  hold, no operation aborts and the two memories of a hybrid model stay in step: the position of the
  recurrent state of a sequence is the last position the cache holds for it, so \<open>seq_pos_max\<close> of
  the whole memory is that of either part. A removal the recurrent memory refuses changes neither.
\<close>

theorem hybrid_stays_in_sync:
  assumes "hybrid_inv w" "hybrid_pres opers w"
  shows "\<exists>w'. foldo hybrid_run opers w = Some w' \<and> hybrid_inv w' \<and> (\<forall>t. both_valid w t \<longrightarrow>
     kv_seq_pos_max t (hy_attn w') = rs_seq_pos_max t (hy_recr w') \<and> hybrid_seq_pos_max t w' = rs_seq_pos_max t (hy_recr w'))"
proof -
  have "\<exists>w'. foldo hybrid_run opers w = Some w' \<and> hybrid_inv w' \<and> r_size (hy_recr w') = r_size (hy_recr w) \<and> same_config (hy_attn w) (hy_attn w')"
    using assms
  proof (induction opers arbitrary: w)
    case (Cons oper opers)
    from hybrid_step [OF Cons.prems(1)] Cons.prems(2) obtain w1 where w1: "hybrid_run oper w = Some w1" "hybrid_inv w1"
      "r_size (hy_recr w1) = r_size (hy_recr w)" "same_config (hy_attn w) (hy_attn w1)" by auto
    then have "hybrid_pres opers w1" using Cons.prems(2) by simp
    from Cons.IH [OF w1(2) this] w1 show ?case using same_config_trans by auto
  qed simp
  then obtain w' where w': "foldo hybrid_run opers w = Some w'" "hybrid_inv w'" "r_size (hy_recr w') = r_size (hy_recr w)"
    "same_config (hy_attn w) (hy_attn w')" by blast
  have "both_valid w' t \<longleftrightarrow> both_valid w t" for t using w'(3) same_config_strm [OF w'(4)] by (simp add: both_valid_def)
  then show ?thesis using w'(1,2) sync_pos_max [OF w'(2)] by blast
qed
text \<open>A hybrid memory with position 5 of sequence 0 in both parts, and a micro-batch that continues it.\<close>

definition demo_batch_at :: "int \<Rightarrow> llama_ubatch" where
  "demo_batch_at p = ubatch_none\<lparr>u_equal_seqs := True, u_n_tokens := 1, u_n_seq_tokens := 1, u_n_seqs := 1, u_n_seqs_unq := 1,
     u_n_pos := 1, u_pos := [p], u_n_seq_id := [1], u_seq_id := [[0]], u_seq_id_unq := [0]\<rparr>"

lemma demo_batch_at_ok:
  assumes "0 \<le> p" "p < INT32_MAX"
  shows "rs_batch 2 (demo_batch_at p)" "blocks_ok (demo_batch_at p)" "ids_of (demo_batch_at p) 0 = [0]" "last_pos (demo_batch_at p) 0 = p"
    "u_n_seqs (demo_batch_at p) = 1" "in_batch (demo_batch_at p) q \<longleftrightarrow> q = 0"
    "k_n_stream c = 1 \<Longrightarrow> valid_seq c 0 \<Longrightarrow> strm c 0 = 0 \<Longrightarrow> ubatch_ok c (demo_batch_at p) 1 1"
  using assms by (simp_all add: rs_batch_def blocks_ok_def demo_batch_at_def ubatch_none_def ids_of_def seq_set_def last_pos_def
      in_batch_def ubatch_ok_def ubatch_seqs_ok_def token_ok_def token_seqs_def is_pos_2d_def)

lemma demo_in_sync:
  obtains w where "hybrid_inv w" "hybrid_ready w" "both_valid w 0" "both_valid w 1" "r_size (hy_recr w) = 2" "strm (hy_attn w) 0 = 0"
    "rs_pos (hy_recr w) 0 = Some 5" "1 \<le> card (usable_cells (hy_attn w) 0)"
proof -
  obtain c where c: "kv_inv c" "kv_size c = 4" "k_n_stream c = 1" "valid_seq c 0" "valid_seq c 1" "strm c 0 = 0"
    "kv_tables c = [[free_cell, (5, ext_zero, 0, {0}), free_cell, free_cell]]" "k_swa_type c = SWA_NONE" by (rule demo_cache)
  have inv: "rs_inv demo_rs" using demo_rs_good(1) by (simp add: rs_good_def)
  have none: "rs_pos demo_rs q = None" for q by (simp add: pos_of_states [of _ _ "[]"] demo_rs_good(2))
  have five: "0 \<le> (5::int)" "5 < INT32_MAX" by (simp_all add: INT32_MAX_def)
  note u = demo_batch_at_ok [OF five]
  have u1: "rs_batch (r_size demo_rs) (demo_batch_at 5)" using u(1) demo_rs_good(3) by simp
  obtain m where m: "rs_inv m" "r_size m = 2" "rs_pos m 0 = Some 5" "\<And>q. q \<noteq> 0 \<Longrightarrow> rs_pos m q = None"
    by (rule find_slot_pos [OF inv u1]) (use u(3-6) demo_rs_good(3) none in force)
  let ?w = "\<lparr>hy_hparams = demo_hparams, hy_attn = c, hy_recr = m\<rparr>"
  have E: "entries (kv_tables c) = {(5, 0)}" by (auto simp: c(7) entries_def tab_entries_def free_cell_def)
  have "ends_at {(5, 0)} q (rs_pos m q)" for q using m(3,4) by (cases "q = 0") auto
  then have "hybrid_inv ?w" using c(1,3) m(1) E by (simp add: hybrid_inv_def in_sync_def own_streams_def)
  moreover have "hybrid_ready ?w" using c m(1) demo_searchable [OF c(2,8,7)] by (simp add: hybrid_ready_def)
  moreover have "1 \<le> card (usable_cells c 0)" using demo_usable [OF c(1,3,2,8,7)] by simp
  ultimately show thesis by (intro that [of ?w]) (use c m in \<open>simp_all add: both_valid_def\<close>)
qed

theorem hybrid_stays_in_sync_witness:
  "\<exists>w y w'. hybrid_inv w \<and> foldo hybrid_run [HyApply y, HyRm 0 0 (-1)] w = Some w' \<and> hybrid_inv w'
     \<and> kv_seq_pos_max 0 (hy_attn w') = rs_seq_pos_max 0 (hy_recr w')"
proof -
  obtain w where w: "hybrid_inv w" "hybrid_ready w" "both_valid w 0" "both_valid w 1" "r_size (hy_recr w) = 2" "strm (hy_attn w) 0 = 0"
    "rs_pos (hy_recr w) 0 = Some 5" "1 \<le> card (usable_cells (hy_attn w) 0)" by (rule demo_in_sync)
  have r: "k_n_stream (hy_attn w) = 1" "k_swa_type (hy_attn w) = SWA_NONE" "searchable (hy_attn w)"
    using w(2) by (simp_all add: hybrid_ready_def)
  have six: "0 \<le> (6::int)" "6 < INT32_MAX" by (simp_all add: INT32_MAX_def)
  note b = demo_batch_at_ok [OF six]
  let ?u = "demo_batch_at 6"
  have ub: "ubatch_ok (hy_attn w) ?u 1 1" using b(7) r(1) w(3,6) by (simp add: both_valid_def)
  have unq: "u_seq_id_unq ?u ! 0 = 0" "u_n_tokens ?u = 1" "u_n_seq_tokens ?u = 1" "u_pos ?u ! 0 = 6"
    by (simp_all add: demo_batch_at_def ubatch_none_def)
  have slot: "slot_ok (hy_attn w) ?u 1 1 (slot_for (hy_attn w) ?u 1 1)"
    by (rule slot_for_ok) (use hybrid_invD(1) [OF w(1)] ub w(6,8) unq in \<open>simp_all add: ubatch_ok_def\<close>)
  have "continues (hy_recr w) ?u" using unq b(3-5) w(7) by (simp add: continues_def)
  then have pl: "placeable w ?u 1 1 (slot_for (hy_attn w) ?u 1 1)"
    using r ub slot b(1,2) w(5) by (simp add: placeable_def)
  define y where "y = (hybrid_context_batch [slot_for (hy_attn w) ?u 1 1] [?u])
    \<lparr>z_i_next := 0, z_attn := Some ((context_batch [slot_for (hy_attn w) ?u 1 1] [?u])\<lparr>x_i_cur := 0\<rparr>),
     z_recr := Some ((rs_context_status STATUS_SUCCESS)\<lparr>rx_ubatches := [?u], rx_i_next := 0\<rparr>)\<rparr>"
  have pre: "hybrid_pre (HyApply y) w"
    unfolding hybrid_pre.simps y_def by (intro exI conjI, rule refl) (use pl in simp_all)
  from hybrid_step [OF w(1) pre] obtain w1 where w1: "hybrid_run (HyApply y) w = Some w1"
    "r_size (hy_recr w1) = r_size (hy_recr w)" "same_config (hy_attn w) (hy_attn w1)" by blast
  have "both_valid w1 0" using w1(2) same_config_strm [OF w1(3)] w(3) by (simp add: both_valid_def)
  then have "hybrid_pres [HyApply y, HyRm 0 0 (-1)] w" using pre w1(1) by (simp del: hybrid_run.simps hybrid_pre.simps(5))
  from hybrid_stays_in_sync [OF w(1) this] w(1,3) show ?thesis by blast
qed

end
