(* ===== verification/Spec2Isabelle.thy ===== *)
theory Spec2Isabelle
  imports Kv_Table Hparams Batch_Init Memory Kv_Iswa Grammar_Apply Grammar_Text Grammar_Repeat Kv_State_Rt Hybrid_Sync
begin

text \<open>
  A model of two parts of the inference engine that Ollama embeds, the C++ code under
  \<open>src/llama/llama.cpp/src/\<close>: its memory, which takes a batch of tokens, cuts it into micro-batches, finds
  cells of the key/value cache for them, tells the compute graph which cells each token attends to and
  can be saved and restored; and its grammars, which parse a text in GBNF and then decide which tokens
  may be sampled next.

  \<^bold>\<open>The program's parts.\<close> A caller submits a \<open>llama_batch\<close>. \<open>llama_batch_allocr\<close> checks and completes
  it (\<open>init\<close>) and hands out micro-batches (\<open>split_simple\<close>, \<open>split_equal\<close>, \<open>split_seq\<close>). The memory of
  the model, a \<open>llama_kv_cache\<close> or the pair of caches \<open>llama_kv_cache_iswa\<close>, asks for the micro-batches
  in \<open>init_batch\<close>, looks for cells for each of them (\<open>prepare\<close>, \<open>find_slot\<close>), places them one after the
  other (\<open>apply_ubatch\<close>) and fills the inputs of the compute graph (\<open>set_input_*\<close>). Between batches the
  caller edits sequences (\<open>seq_rm\<close>, \<open>seq_cp\<close>, \<open>seq_keep\<close>, \<open>seq_add\<close>, \<open>seq_div\<close>, \<open>clear\<close>), and the pending
  edits are carried out by \<open>update\<close>. Each stream of a cache is a table \<open>llama_kv_cells\<close>. How many
  streams, layers and cells there are, and which layers slide a window, follows from \<open>llama_hparams\<close>.
  \<open>state_write\<close> and \<open>state_read\<close> save and restore a cache with the bytes of its tensors. A recurrent
  model has a \<open>llama_memory_recurrent\<close> instead, whose cells hold the whole state of a sequence, and a
  hybrid model a \<open>llama_memory_hybrid\<close>, a recurrent memory and a cache that are operated together.

  A grammar text is parsed into rules (\<open>llama_grammar_parser\<close>). \<open>llama_grammar_init_impl\<close> refuses left
  recursion and builds the first stacks; before a token is sampled \<open>llama_grammar_apply_impl\<close> masks the
  tokens that no stack lets through, and \<open>llama_grammar_accept_impl\<close> advances the stacks over the token
  chosen. The pieces of the tokens are bytes of UTF-8 text that may end inside a character.

  \<^bold>\<open>Theories and code.\<close>

  \<^item> \<open>Prelude\<close>: aborting computations, loops over lists, 32-bit wrap-around, generic lemmas;
    \<open>Ordered_Map\<close>: \<open>std::map\<close> as a sorted association list, behind the locale of its contract.
  \<^item> \<open>Kv_Cells\<close> (\<open>llama-kv-cells.h\<close>): the record \<open>kv_cells\<close> with positions, shifts, sequence sets, the
    set of used cells and the per-sequence maps of positions, and every operation of the class.
    \<open>Kv_Table\<close> is the abstract specification, a list of cells without the cached summaries; the
    operations refine it, and saving and restoring cells (\<open>cp\<close>, \<open>set\<close>) is a round trip.
  \<^item> \<open>Hparams\<close> (\<open>llama-hparams.cpp\<close>): derived widths, head counts, the sliding-window pattern and
    \<open>is_masked_swa\<close>.
  \<^item> \<open>Batch\<close>, \<open>Batch_Split\<close>, \<open>Batch_Init\<close> (\<open>llama-batch.cpp\<close>): validation, completion, and the three
    ways of splitting. No token is lost or repeated; equal splits give every sequence set the same
    number of tokens; an accepted batch is consistent with the memory.
  \<^item> \<open>Memory\<close> (\<open>llama-memory.cpp\<close>): the status of a memory context and the combination of two.
  \<^item> \<open>Kv_Cache\<close> (\<open>llama-kv-cache.cpp\<close>): the record \<open>kv_cache\<close> and its operations. \<open>Kv_Sweep\<close> and
    \<open>Kv_Ops\<close> show the invariant and that the sequence operations refine operations on tables;
    \<open>Kv_Slot\<close> that \<open>find_slot\<close> returns usable and distinct cells; \<open>Kv_Apply\<close> what placing a micro-batch
    does to the tables; \<open>Kv_Prepare\<close> that \<open>prepare\<close> leaves the cache as it was; \<open>Kv_Inputs\<close> that the
    graph sees all used cells, writes to distinct rows, and attends exactly to the cells of the
    token's sequences that causality and the window admit.
  \<^item> \<open>Kv_Iswa\<close> (\<open>llama-kv-cache-iswa.cpp\<close>): the two caches of interleaved models; what the windowed one
    holds the other holds too.
  \<^item> \<open>Kv_State\<close> (\<open>llama-kv-cache.cpp\<close>, \<open>llama-context.cpp\<close>): saving and restoring, over a store that adds
    the tensor bytes to the cache. \<open>Kv_State_Codec\<close> has a locale for an integer written and read back,
    interpreted for the three widths in use, the ranges of cells and blocks of rows; \<open>Kv_State_Data\<close> the
    data of the layers; \<open>Kv_State_Rt\<close> the round trip of a whole cache and the limits of a restore.
  \<^item> \<open>Recurrent\<close> (\<open>llama-memory-recurrent.cpp\<close> and the part of \<open>llama-graph.cpp\<close> that moves states): the
    record \<open>memory_recurrent\<close>, its sequence operations, the slot search and one micro-batch as
    \<open>rs_compute\<close>, where the new states the layers make of the old ones are a parameter.
    \<open>Recurrent_Inv\<close> has the invariant (a sequence is in the cell its tail names and in no other) and the
    abstract view, a map from sequences to positions and states; \<open>Recurrent_Ops\<close> the sequence
    operations. \<open>Recurrent_Slot\<close>, \<open>Recurrent_Pick\<close>, \<open>Recurrent_Gather\<close> and \<open>Recurrent_Compute\<close> follow the
    phases of the slot search: sequences claimed, cells taken from the ring, cells gathered at the
    start of the slot, sources staged. \<open>Recurrent_States\<close> shows that the graph then sees and stores the
    right states, \<open>Recurrent_Run\<close> that every operation refines one on the map, \<open>Recurrent_Live\<close> that no
    reachable state is stuck, and that removing all sequences at once leaves such a state.
  \<^item> \<open>Hybrid\<close> (\<open>llama-memory-hybrid.cpp\<close>): the record \<open>memory_hybrid\<close>, its operations and its context.
    \<open>Batch_Fits\<close> shows that the micro-batches of the splitters are ones a cache and a recurrent memory
    can take, \<open>Hybrid_Init\<close> what \<open>init_batch\<close> does with a whole batch, \<open>Hybrid_Sync\<close> that through a run of
    operations both memories end every sequence at the same position.
  \<^item> \<open>Grammar_Utf8\<close> (\<open>decode_utf8\<close> in \<open>llama-grammar.cpp\<close>): text cut into pieces anywhere decodes to its
    code points.
  \<^item> \<open>Grammar\<close> (\<open>llama-grammar.cpp\<close>): rules, stacks, and every operation of the engine. \<open>Grammar_Wf\<close> has the
    well-formed rules, \<open>Grammar_Match\<close> the character classes, \<open>Grammar_Lang\<close> the language of a grammar
    as an inductive derivation relation, \<open>Grammar_Term\<close> left recursion, the check for it and termination. \<open>Grammar_Engine\<close>
    shows that the engine returns and recognises the language, \<open>Grammar_Reject\<close> which candidates are
    rejected, \<open>Grammar_Apply\<close> that a token left unmasked can be accepted.
  \<^item> \<open>Grammar_Parser\<close> (\<open>llama_grammar_parser\<close>): the parser with all its errors. \<open>Grammar_Parser_Wf\<close> shows that
    it returns and yields well-formed rules, \<open>Grammar_Repeat\<close> that the rewriting of repetitions keeps
    their meaning, \<open>Grammar_Text\<close> what a grammar constructed from a text accepts.

  \<^bold>\<open>Conventions.\<close> The result type \<open>'a option\<close> stands for code that may stop the process: \<^term>\<open>None\<close> is a
  failed \<open>GGML_ASSERT\<close>, a \<open>GGML_ABORT\<close>, an index outside a vector or a thrown exception that the code
  does not catch. A function of the code that reports failure has a result type of its own, so a
  theorem that says \<^term>\<open>Some\<close> says that the process survives. Unsigned 32-bit counters are natural
  numbers with the wrap-around written out where the code can wrap; positions (\<open>llama_pos\<close>) are
  integers, and the theorems that depend on it state their range.

  \<^bold>\<open>Loops.\<close> Loops over a vector are \<open>foldo\<close> over the list of indices. Loops whose end depends on the
  state have fuel: the splitting loop has one step per token and one more, because every micro-batch
  takes a token; the slot search has two steps per cell and two more, because a round over the ring
  restarts once; the searches of the recurrent memory for an empty cell look at every cell once. The theorems on splitting and on \<open>find_slot\<close> show that this fuel is never exhausted. The
  parser has twice the length of the text and three more, because two nested calls consume a character;
  \<open>parse_returns\<close> shows that it suffices. Advancing stacks and the check for left recursion are partial
  functions into \<open>option\<close>, where \<^term>\<open>None\<close> is also a recursion that does not end; that they return is a
  theorem for rules without left recursion, and for the check on all well-formed rules. Left recursion
  is \<open>left_ref\<close> having a cycle: a rule refers to itself, directly or through other rules, behind nothing
  but references to rules that derive the empty text. The check decides the smaller relation \<open>left_call\<close>,
  for which only a rule with an empty alternate of its own is empty: it rejects no grammar without left
  recursion, and misses some with it (\<open>missed_left_recursion\<close>).

  \<^bold>\<open>Parameters.\<close> What lies behind the modelled code is an argument of the definitions: whether a buffer
  of the cache could be allocated, whether the graph of a K-shift could be computed, the block and
  element sizes of the tensor types, what the layers of a recurrent model compute, the pieces of the
  tokens and the tokens that end a generation, and the regular expressions of lazy grammars (\<open>std::regex\<close>).

  \<^bold>\<open>Code outside the model.\<close> The numbers in tensors are bytes that are stored and moved, never computed
  with. Not modelled are the compute graphs and architectures, contexts, samplers other than grammars,
  tokenizers, model files, the tensor library ggml with its backends (floating-point and device code),
  the saving of the recurrent and of the hybrid memory, and the server and runners written in Go.
\<close>

end
